(* ===== verification/Prelude.thy ===== *)
theory Prelude
  imports Main "HOL-Library.Word"
begin

text \<open>
  Shared vocabulary of the development: the machine types of the kernel
  (\<^verbatim>\<open>kern/arch/mips/include/vm.h\<close>, \<^verbatim>\<open>kern/include/kern/errno.h\<close>), the ways a C
  function can fail to return, and generic facts about arrays indexed by \<open>nat\<close> and
  about singly linked lists whose nodes are array slots.
\<close>

unbundle bit_operations_syntax

named_theorems page_defs \<open>definitions of page and address arithmetic\<close>
named_theorems res_simps \<open>rewriting of sequenced fallible computations\<close>
named_theorems link_intros \<open>introduction rules for linked lists in arrays\<close>

section \<open>Machine types\<close>

type_synonym byte = "8 word"
type_synonym u32 = "32 word"
type_synonym vaddr_t = "32 word"
type_synonym paddr_t = "32 word"
type_synonym pid_t = int

text \<open>A page key: the owner and the virtual page address.\<close>

type_synonym pagekey = "pid_t \<times> vaddr_t"

definition PAGE_SIZE :: nat where
  "PAGE_SIZE = 4096"

definition PAGE_FRAME :: u32 where
  "PAGE_FRAME = 0xfffff000"

definition MIPS_KSEG0 :: u32 where
  "MIPS_KSEG0 = 0x80000000"

definition PADDR_TO_KVADDR :: "paddr_t \<Rightarrow> vaddr_t" where
  "PADDR_TO_KVADDR p = p + MIPS_KSEG0"

definition USERSTACK :: u32 where
  "USERSTACK = MIPS_KSEG0"

definition DIVROUNDUP :: "u32 \<Rightarrow> u32 \<Rightarrow> u32" where
  "DIVROUNDUP a b = (a + b - 1) div b"

text \<open>Error numbers returned by the modelled functions.\<close>

definition ENOSYS :: int where "ENOSYS = 1"
definition ENOMEM :: int where "ENOMEM = 3"
definition EFAULT :: int where "EFAULT = 6"
definition EINVAL :: int where "EINVAL = 8"
definition ENAMETOOLONG :: int where "ENAMETOOLONG = 7"
definition ENOEXEC :: int where "ENOEXEC = 13"
definition E2BIG :: int where "E2BIG = 14"
definition ESRCH :: int where "ESRCH = 15"
definition ECHILD :: int where "ECHILD = 16"
definition ENOTDIR :: int where "ENOTDIR = 17"
definition EISDIR :: int where "EISDIR = 18"
definition ENOENT :: int where "ENOENT = 19"
definition ENOTEMPTY :: int where "ENOTEMPTY = 21"
definition EEXIST :: int where "EEXIST = 22"
definition EXDEV :: int where "EXDEV = 24"
definition ENODEV :: int where "ENODEV = 25"
definition ENXIO :: int where "ENXIO = 26"
definition EBUSY :: int where "EBUSY = 27"
definition EMFILE :: int where "EMFILE = 28"
definition ENFILE :: int where "ENFILE = 29"
definition EBADF :: int where "EBADF = 30"
definition EIOCTL :: int where "EIOCTL = 31"
definition EIO :: int where "EIO = 32"
definition ESPIPE :: int where "ESPIPE = 33"
definition EROFS :: int where "EROFS = 35"
definition ENOSPC :: int where "ENOSPC = 36"
definition EFBIG :: int where "EFBIG = 38"
definition EFTYPE :: int where "EFTYPE = 39"
definition EADDRNOTAVAIL :: int where "EADDRNOTAVAIL = 55"

text \<open>The page mask clears the low twelve bits.\<close>

lemma page_mask_eq: "(0xfffff000 :: u32) = push_bit 12 (mask 20)"
  by (simp add: mask_eq_exp_minus_1)

lemma page_mask_alt: "v AND 0xfffff000 = push_bit 12 (drop_bit 12 (v :: u32))"
  unfolding page_mask_eq by (rule bit_word_eqI) (auto simp: bit_simps)

lemma unat_page_mask: "unat (v AND 0xfffff000 :: u32) = unat v div 4096 * 4096"
proof -
  have "unat v div 4096 * 4096 < 2 ^ 32" using unsigned_less [of v, where ?'a = nat] by simp
  then show ?thesis
    unfolding page_mask_alt
    by (simp add: push_bit_eq_mult unat_word_ariths unat_drop_bit_eq drop_bit_eq_div mult.commute)
qed

section \<open>Outcomes of C code\<close>

text \<open>
  A function that can stop the machine returns a sum: \<open>Inl\<close> carries the reason, \<open>Inr\<close>
  the value. \<open>Panic\<close> is a call of \<^verbatim>\<open>panic\<close>, \<open>Kassert\<close> a failed \<^verbatim>\<open>KASSERT\<close>;
  \<open>NullDeref\<close>, \<open>OutOfBounds\<close> and \<open>DivByZero\<close> are accesses C leaves undefined;
  \<open>Diverges\<close> is a loop that never ends.
\<close>

datatype fault =
    Panic string
  | Kassert
  | NullDeref
  | OutOfBounds
  | DivByZero
  | Diverges

type_synonym 'a res = "fault + 'a"

definition bindR :: "'a res \<Rightarrow> ('a \<Rightarrow> 'b res) \<Rightarrow> 'b res" where
  "bindR m f = (case m of Inl e \<Rightarrow> Inl e | Inr x \<Rightarrow> f x)"

lemma bindR_Inr [simp, res_simps]: "bindR (Inr x) f = f x"
  by (simp add: bindR_def)

lemma bindR_Inl [simp, res_simps]: "bindR (Inl e) f = Inl e"
  by (simp add: bindR_def)

lemma bindR_eq_Inr: "bindR m f = Inr y \<longleftrightarrow> (\<exists>x. m = Inr x \<and> f x = Inr y)"
  by (cases m) auto

lemma bindR_cong [fundef_cong]:
  "m = m' \<Longrightarrow> (\<And>x. m' = Inr x \<Longrightarrow> f x = f' x) \<Longrightarrow> bindR m f = bindR m' f'"
  by (cases m') auto

section \<open>Linked lists whose nodes are array slots\<close>

text \<open>
  \<open>path f p xs r\<close>: following the pointer field \<open>f\<close> from \<open>p\<close> visits the slots \<open>xs\<close>, in
  this order, and arrives at \<open>r\<close>. A list is a path that ends at the null pointer.
\<close>

primrec path :: "(nat \<Rightarrow> nat option) \<Rightarrow> nat option \<Rightarrow> nat list \<Rightarrow> nat option \<Rightarrow> bool" where
  "path f p [] r \<longleftrightarrow> p = r"
| "path f p (x # xs) r \<longleftrightarrow> p = Some x \<and> path f (f x) xs r"

abbreviation linked :: "(nat \<Rightarrow> nat option) \<Rightarrow> nat option \<Rightarrow> nat list \<Rightarrow> bool" where
  "linked f p xs \<equiv> path f p xs None"

lemma path_append [simp]: "path f p (xs @ ys) r \<longleftrightarrow> (\<exists>m. path f p xs m \<and> path f m ys r)"
  by (induction xs arbitrary: p) auto

lemma path_cong:
  "(\<And>i. i \<in> set xs \<Longrightarrow> f i = g i) \<Longrightarrow> path f p xs r = path g p xs r"
  by (induction xs arbitrary: p) auto

lemma path_from_None [simp]: "path f None xs r \<longleftrightarrow> xs = [] \<and> r = None"
  by (cases xs) auto

lemma linked_Some: "linked f (Some x) xs \<longleftrightarrow> (\<exists>ys. xs = x # ys \<and> linked f (f x) ys)"
  by (cases xs) auto

lemma linked_unique: "linked f p xs \<Longrightarrow> linked f p ys \<Longrightarrow> xs = ys"
proof (induction xs arbitrary: p ys)
  case (Cons x xs)
  then show ?case by (cases ys) auto
qed simp

lemma linked_head_notin_tail:
  assumes "linked f (f x) xs"
  shows "x \<notin> set xs"
proof
  assume "x \<in> set xs"
  then obtain as bs where xs: "xs = as @ x # bs" by (meson split_list)
  with assms have "linked f (f x) bs" by auto
  with assms have "xs = bs" by (rule linked_unique)
  with xs show False by simp
qed

lemma linked_distinct: "linked f p xs \<Longrightarrow> distinct xs"
  by (induction xs arbitrary: p) (auto dest: linked_head_notin_tail)

lemma linked_snoc [link_intros]:
  assumes "linked f p (xs @ [l])" "n \<notin> set (xs @ [l])"
    and "\<And>i. i \<in> set xs \<Longrightarrow> g i = f i" "g l = Some n" "g n = None"
  shows "linked g p (xs @ [l, n])"
proof -
  have "path f p xs (Some l)" using assms(1) by auto
  then have "path g p xs (Some l)" using assms(3) by (metis path_cong)
  with assms(4,5) show ?thesis by auto
qed

lemma linked_unlink [link_intros]:
  assumes "linked f p (xs @ l # n # ys)"
    and "\<And>i. i \<in> set xs \<union> set ys \<Longrightarrow> g i = f i" "g l = f n"
  shows "linked g p (xs @ l # ys)"
proof -
  have "path f p xs (Some l)" "linked f (f n) ys" using assms(1) by auto
  then have "path g p xs (Some l)" "linked g (g l) ys"
    using assms(2,3) by (metis UnI1 path_cong, metis UnI2 path_cong)
  then show ?thesis by auto
qed

text \<open>A distinct list of array slots is no longer than the array: the fuel of every walk.\<close>

lemma length_le_array:
  assumes "distinct xs" "\<And>i. i \<in> set xs \<Longrightarrow> i < n"
  shows "length xs \<le> n"
proof -
  have "card (set xs) \<le> card {..<n}"
    using assms(2) by (intro card_mono) auto
  then show ?thesis using distinct_card [OF assms(1)] by simp
qed

lemma find_unique_iff:
  assumes "\<And>a b. P a \<Longrightarrow> a \<in> set xs \<Longrightarrow> P b \<Longrightarrow> b \<in> set xs \<Longrightarrow> a = b"
  shows "find P xs = Some i \<longleftrightarrow> i \<in> set xs \<and> P i"
  using assms by (induction xs) auto

section \<open>Arrays of pairs read as maps\<close>

lemma map_eqI: "(\<And>k x. f k = Some x \<longleftrightarrow> g k = Some x) \<Longrightarrow> f = g"
  by (rule ext) (metis not_Some_eq)

lemma map_of_list_update:
  assumes "distinct (map fst xs)" "i < length xs" "v \<notin> set (map fst xs) \<or> v = fst (xs ! i)"
  shows "map_of (xs[i := (v, l)]) = (map_of xs)(fst (xs ! i) := None, v \<mapsto> l)"
  using assms
proof (induction xs arbitrary: i)
  case (Cons x xs)
  show ?case
  proof (cases i)
    case 0
    have "map_of xs (fst x) = None" using Cons.prems(1) by (simp add: map_of_eq_None_iff)
    then show ?thesis using 0 by (cases x) (auto simp: fun_eq_iff)
  next
    case (Suc j)
    have neq: "fst (xs ! j) \<noteq> fst x" using Suc Cons.prems(1,2) by (metis distinct.simps(2) length_Cons
        length_map list.simps(9) not_less_eq nth_map nth_mem)
    have vx: "v \<noteq> fst x" using Cons.prems(3) Suc neq by auto
    have "map_of (xs[j := (v, l)]) = (map_of xs)(fst (xs ! j) := None, v \<mapsto> l)"
      using Cons.IH [of j] Cons.prems Suc by auto
    then show ?thesis using Suc neq vx by (cases x) (auto simp: fun_eq_iff)
  qed
qed simp

lemma distinct_fst_list_update:
  assumes "distinct (map fst xs)" "i < length xs" "v \<notin> set (map fst xs) \<or> v = fst (xs ! i)"
  shows "distinct (map fst (xs[i := (v, l)]))"
  using assms by (metis distinct_list_update fst_conv list_update_id map_update DiffD1)

end
