(* ===== verification/Pt.thy ===== *)
theory Pt
  imports Prelude
begin

text \<open>
  The hashed inverted page table, \<^verbatim>\<open>kern/vm/pt.c\<close>. The array \<^verbatim>\<open>pagetable\<close> has one
  entry per physical frame. An entry belongs to a user process (\<open>pid > 0\<close>), to the
  kernel (\<open>pid = 0\<close>) or to nobody (\<open>pid = -1\<close>). Two singly linked lists run through the
  user entries: the collision chains that start in \<^verbatim>\<open>hashedpt\<close>, and the FIFO queue of
  replacement victims that starts at \<^verbatim>\<open>firstvictim\<close>. Pointers to entries are indices into
  the array; the null pointer is \<open>None\<close>.
\<close>

section \<open>Data\<close>

record ptpage =
  pt_pid :: pid_t
  pt_vaddr :: vaddr_t
  pt_numpages :: nat
  pt_fifonext :: "nat option"
  pt_next :: "nat option"

record ptstate =
  pagetable :: "ptpage list"
  hashedpt :: "nat option list"
  firstvictim :: "nat option"
  lastallocateduser :: "nat option"

text \<open>The hash \<^verbatim>\<open>(vaddr|pid)%hashedptsize\<close>: the pid is converted to unsigned.\<close>

definition pthash :: "nat \<Rightarrow> pid_t \<Rightarrow> vaddr_t \<Rightarrow> nat" where
  "pthash n pid vaddr = unat (vaddr OR word_of_int pid) mod n"

section \<open>Operations\<close>

definition gethashedentry :: "ptstate \<Rightarrow> pid_t \<Rightarrow> vaddr_t \<Rightarrow> nat option res" where
  "gethashedentry s pid vaddr =
     (if length (hashedpt s) = 0 then Inl DivByZero
      else Inr (hashedpt s ! pthash (length (hashedpt s)) pid vaddr))"

definition sethashedptentry :: "ptstate \<Rightarrow> pid_t \<Rightarrow> vaddr_t \<Rightarrow> nat option \<Rightarrow> ptstate res" where
  "sethashedptentry s pid vaddr node =
     (if length (hashedpt s) = 0 then Inl DivByZero
      else Inr (s\<lparr>hashedpt := (hashedpt s)[pthash (length (hashedpt s)) pid vaddr := node]\<rparr>))"

definition clearhashedptentry :: "ptstate \<Rightarrow> pid_t \<Rightarrow> vaddr_t \<Rightarrow> ptstate res" where
  "clearhashedptentry s pid vaddr =
     (if length (hashedpt s) = 0 then Inl DivByZero
      else Inr (s\<lparr>hashedpt := (hashedpt s)[pthash (length (hashedpt s)) pid vaddr := None]\<rparr>))"

text \<open>
  \<^verbatim>\<open>getfreeframes\<close>: the inner loop looks for a run of \<open>numpages\<close> free entries from \<open>i\<close>;
  the outer loop skips over the pages of an allocated block.
\<close>

function getfreeframes_run :: "ptpage list \<Rightarrow> nat \<Rightarrow> nat \<Rightarrow> nat \<Rightarrow> bool" where
  "getfreeframes_run pt numpages i j =
     (if j < length pt then
        (if pt_pid (pt ! j) \<noteq> -1 then False
         else if j - i + 1 = numpages then True
         else getfreeframes_run pt numpages i (Suc j))
      else False)"
  by pat_completeness auto
termination
  by (relation "measure (\<lambda>(pt, n, i, j). length pt - j)") auto

function getfreeframes_from :: "ptpage list \<Rightarrow> nat \<Rightarrow> nat \<Rightarrow> int" where
  "getfreeframes_from pt numpages i =
     (if i < length pt then
        (if pt_pid (pt ! i) = -1 then
           (if getfreeframes_run pt numpages i i then int i
            else getfreeframes_from pt numpages (Suc i))
         else if pt_numpages (pt ! i) > 0
           then getfreeframes_from pt numpages (Suc (i + (pt_numpages (pt ! i) - 1)))
         else getfreeframes_from pt numpages (Suc i))
      else -1)"
  by pat_completeness auto
termination
  by (relation "measure (\<lambda>(pt, n, i). length pt - i)") auto

definition getfreeframes :: "ptstate \<Rightarrow> nat \<Rightarrow> int" where
  "getfreeframes s numpages = getfreeframes_from (pagetable s) numpages 0"

declare getfreeframes_run.simps [simp del] getfreeframes_from.simps [simp del]

text \<open>
  The walks along \<^verbatim>\<open>next\<close> and \<^verbatim>\<open>fifonext\<close>. The first argument bounds the number of
  nodes visited; running out of it is \<open>Diverges\<close>.
\<close>

fun chain_append :: "nat \<Rightarrow> ptpage list \<Rightarrow> nat \<Rightarrow> nat \<Rightarrow> ptpage list res" where
  "chain_append 0 pt n node = Inl Diverges"
| "chain_append (Suc fuel) pt n node =
     (if length pt \<le> n then Inl OutOfBounds
      else case pt_next (pt ! n) of
             None \<Rightarrow> Inr (pt[n := (pt ! n)\<lparr>pt_next := Some node\<rparr>])
           | Some m \<Rightarrow> chain_append fuel pt m node)"

text \<open>
  \<^verbatim>\<open>setptentry\<close>: fill the entry; for a user page also append it to its collision chain
  (\<open>setptentry_hash\<close>) and to the victim queue (\<open>setptentry_fifo\<close>).
\<close>

definition setptentry_hash :: "ptstate \<Rightarrow> nat \<Rightarrow> pid_t \<Rightarrow> vaddr_t \<Rightarrow> ptstate res" where
  "setptentry_hash s node pid vaddr =
     bindR (gethashedentry s pid vaddr) (\<lambda>hashednode.
       case hashednode of
         None \<Rightarrow> sethashedptentry s pid vaddr (Some node)
       | Some h \<Rightarrow> bindR (chain_append (length (pagetable s)) (pagetable s) h node)
                    (\<lambda>pt'. Inr (s\<lparr>pagetable := pt'\<rparr>)))"

definition setptentry_fifo :: "ptstate \<Rightarrow> nat \<Rightarrow> ptstate res" where
  "setptentry_fifo s node =
     bindR (case lastallocateduser s of
              None \<Rightarrow> Inr s
            | Some l \<Rightarrow> if length (pagetable s) \<le> l then Inl OutOfBounds
                        else Inr (s\<lparr>pagetable := (pagetable s)[l :=
                               (pagetable s ! l)\<lparr>pt_fifonext := Some node\<rparr>]\<rparr>)) (\<lambda>s'.
     let s'' = (if firstvictim s' = None then s'\<lparr>firstvictim := Some node\<rparr> else s')
     in Inr (s''\<lparr>lastallocateduser := Some node\<rparr>))"

definition setptentry :: "ptstate \<Rightarrow> nat \<Rightarrow> nat \<Rightarrow> pid_t \<Rightarrow> vaddr_t \<Rightarrow> ptstate res" where
  "setptentry s index numpages pid vaddr =
     (if length (pagetable s) \<le> index then Inl OutOfBounds
      else let s0 = s\<lparr>pagetable := (pagetable s)[index :=
                       \<lparr>pt_pid = pid, pt_vaddr = vaddr, pt_numpages = numpages,
                        pt_fifonext = None, pt_next = None\<rparr>]\<rparr>
      in if pid > 0
         then bindR (setptentry_hash s0 index pid vaddr) (\<lambda>s1. setptentry_fifo s1 index)
         else Inr s0)"

text \<open>\<^verbatim>\<open>freeuser\<close>, its first loop: the node with this key and its predecessor in the chain.\<close>

fun freeuser_find :: "nat \<Rightarrow> ptpage list \<Rightarrow> pid_t \<Rightarrow> vaddr_t \<Rightarrow> nat option \<Rightarrow> nat option
    \<Rightarrow> (nat option \<times> nat option) res" where
  "freeuser_find fuel pt pid vaddr prec None = Inr (prec, None)"
| "freeuser_find 0 pt pid vaddr prec (Some n) = Inl Diverges"
| "freeuser_find (Suc fuel) pt pid vaddr prec (Some n) =
     (if length pt \<le> n then Inl OutOfBounds
      else if pt_pid (pt ! n) = pid \<and> pt_vaddr (pt ! n) = vaddr then Inr (prec, Some n)
      else freeuser_find fuel pt pid vaddr (Some n) (pt_next (pt ! n)))"

text \<open>
  Its second loop: unlink from the FIFO queue. The code reads \<^verbatim>\<open>node->fifonext->pid\<close>
  without a null check.
\<close>

fun fifo_unlink :: "nat \<Rightarrow> ptpage list \<Rightarrow> pid_t \<Rightarrow> vaddr_t \<Rightarrow> nat option \<Rightarrow> ptpage list res" where
  "fifo_unlink fuel pt pid vaddr None = Inr pt"
| "fifo_unlink 0 pt pid vaddr (Some n) = Inl Diverges"
| "fifo_unlink (Suc fuel) pt pid vaddr (Some n) =
     (if length pt \<le> n then Inl OutOfBounds
      else case pt_fifonext (pt ! n) of
             None \<Rightarrow> Inl NullDeref
           | Some m \<Rightarrow>
               if length pt \<le> m then Inl OutOfBounds
               else if pt_pid (pt ! m) = pid \<and> pt_vaddr (pt ! m) = vaddr
                 then Inr (pt[n := (pt ! n)\<lparr>pt_fifonext := pt_fifonext (pt ! m)\<rparr>])
               else fifo_unlink fuel pt pid vaddr (Some m))"

text \<open>Its third loop: the last node of the queue (\<open>None\<close> only when the queue is empty).\<close>

fun fifo_last :: "nat \<Rightarrow> ptpage list \<Rightarrow> nat \<Rightarrow> nat res" where
  "fifo_last 0 pt n = Inl Diverges"
| "fifo_last (Suc fuel) pt n =
     (if length pt \<le> n then Inl OutOfBounds
      else case pt_fifonext (pt ! n) of None \<Rightarrow> Inr n | Some m \<Rightarrow> fifo_last fuel pt m)"

definition clearentry :: "ptpage list \<Rightarrow> nat \<Rightarrow> ptpage list" where
  "clearentry pt n = pt[n := (pt ! n)\<lparr>pt_fifonext := None, pt_next := None,
                                 pt_numpages := 0, pt_pid := -1\<rparr>]"

text \<open>
  The steps of \<^verbatim>\<open>freeuser\<close> once the node is found: unlink it from its chain, from the
  queue, repair \<^verbatim>\<open>lastallocateduser\<close>, and clear the entry (its \<^verbatim>\<open>vaddr\<close> is kept).
\<close>

definition freeuser_unchain :: "ptstate \<Rightarrow> pid_t \<Rightarrow> vaddr_t \<Rightarrow> nat option \<Rightarrow> nat option \<Rightarrow> nat
    \<Rightarrow> ptstate res" where
  "freeuser_unchain s pid vaddr hashedentry prec n =
     (let s1 = (case prec of
                  None \<Rightarrow> s
                | Some p \<Rightarrow> s\<lparr>pagetable := (pagetable s)[p :=
                       (pagetable s ! p)\<lparr>pt_next := pt_next (pagetable s ! n)\<rparr>]\<rparr>)
      in if hashedentry = Some n
         then sethashedptentry s1 pid vaddr (pt_next (pagetable s1 ! n)) else Inr s1)"

definition freeuser_unqueue :: "ptstate \<Rightarrow> pid_t \<Rightarrow> vaddr_t \<Rightarrow> nat \<Rightarrow> ptstate res" where
  "freeuser_unqueue s pid vaddr n =
     (if firstvictim s \<noteq> Some n
      then bindR (fifo_unlink (length (pagetable s)) (pagetable s) pid vaddr (firstvictim s))
             (\<lambda>pt'. Inr (s\<lparr>pagetable := pt'\<rparr>))
      else Inr (s\<lparr>firstvictim := pt_fifonext (pagetable s ! n)\<rparr>))"

definition freeuser_fixlast :: "ptstate \<Rightarrow> nat \<Rightarrow> ptstate res" where
  "freeuser_fixlast s n =
     (if lastallocateduser s = Some n
      then (case firstvictim s of
              None \<Rightarrow> Inr (s\<lparr>lastallocateduser := None\<rparr>)
            | Some f \<Rightarrow> bindR (fifo_last (length (pagetable s)) (pagetable s) f)
                         (\<lambda>l. Inr (s\<lparr>lastallocateduser := Some l\<rparr>)))
      else Inr s)"

definition freeuser :: "ptstate \<Rightarrow> pid_t \<Rightarrow> vaddr_t \<Rightarrow> (int \<times> ptstate) res" where
  "freeuser s pid vaddr =
     bindR (gethashedentry s pid vaddr) (\<lambda>hashedentry.
     bindR (freeuser_find (length (pagetable s)) (pagetable s) pid vaddr None hashedentry)
       (\<lambda>(prec, nodetoremove).
     case nodetoremove of
       None \<Rightarrow> Inr (-1, s)
     | Some n \<Rightarrow>
         bindR (freeuser_unchain s pid vaddr hashedentry prec n) (\<lambda>s1.
         bindR (freeuser_unqueue s1 pid vaddr n) (\<lambda>s2.
         bindR (freeuser_fixlast s2 n) (\<lambda>s3.
         Inr (0, s3\<lparr>pagetable := clearentry (pagetable s3) n\<rparr>))))))"

definition freekernel :: "ptstate \<Rightarrow> nat \<Rightarrow> ptstate res" where
  "freekernel s index =
     (if length (pagetable s) \<le> index then Inl OutOfBounds
      else Inr (s\<lparr>pagetable := clearentry (pagetable s) index\<rparr>))"

fun getpageaddr_loop :: "nat \<Rightarrow> ptpage list \<Rightarrow> pid_t \<Rightarrow> vaddr_t \<Rightarrow> nat option \<Rightarrow> paddr_t res" where
  "getpageaddr_loop fuel pt pid vaddr None = Inr 0"
| "getpageaddr_loop 0 pt pid vaddr (Some n) = Inl Diverges"
| "getpageaddr_loop (Suc fuel) pt pid vaddr (Some n) =
     (if length pt \<le> n then Inl OutOfBounds
      else if pt_pid (pt ! n) = pid \<and> pt_vaddr (pt ! n) = vaddr
        then Inr (word_of_nat n * word_of_nat PAGE_SIZE)
      else getpageaddr_loop fuel pt pid vaddr (pt_next (pt ! n)))"

definition getpageaddr :: "ptstate \<Rightarrow> pid_t \<Rightarrow> vaddr_t \<Rightarrow> paddr_t res" where
  "getpageaddr s pid vaddr =
     bindR (gethashedentry s pid vaddr) (\<lambda>hashedentry.
       if hashedentry = None then Inr 0
       else getpageaddr_loop (length (pagetable s)) (pagetable s) pid vaddr hashedentry)"

section \<open>The representation invariant\<close>

definition keyof :: "ptpage \<Rightarrow> pagekey" where
  "keyof e = (pt_pid e, pt_vaddr e)"

definition userframes :: "ptpage list \<Rightarrow> nat set" where
  "userframes pt = {i. i < length pt \<and> 0 < pt_pid (pt ! i)}"

definition nexts :: "ptpage list \<Rightarrow> nat \<Rightarrow> nat option" where
  "nexts pt i = pt_next (pt ! i)"

definition fifos :: "ptpage list \<Rightarrow> nat \<Rightarrow> nat option" where
  "fifos pt i = pt_fifonext (pt ! i)"

definition bucket :: "nat \<Rightarrow> pagekey \<Rightarrow> nat" where
  "bucket n k = pthash n (fst k) (snd k)"

text \<open>
  \<open>chains_ok pt ht cs\<close>: bucket \<open>h\<close> of the hash table \<open>ht\<close> is the chain \<open>cs h\<close>, and a chain
  holds exactly the user frames whose key hashes to its bucket.
\<close>

definition chains_ok :: "ptpage list \<Rightarrow> nat option list \<Rightarrow> (nat \<Rightarrow> nat list) \<Rightarrow> bool" where
  "chains_ok pt ht cs \<longleftrightarrow>
     (\<forall>h < length ht. linked (nexts pt) (ht ! h) (cs h) \<and>
        set (cs h) = {i \<in> userframes pt. bucket (length ht) (keyof (pt ! i)) = h})"

text \<open>
  \<open>fifo_ok pt fv la q\<close>: the victim queue that starts at \<open>fv\<close> and ends at \<open>la\<close> is \<open>q\<close>, and
  it holds exactly the user frames.
\<close>

definition fifo_ok :: "ptpage list \<Rightarrow> nat option \<Rightarrow> nat option \<Rightarrow> nat list \<Rightarrow> bool" where
  "fifo_ok pt fv la q \<longleftrightarrow>
     linked (fifos pt) fv q \<and> set q = userframes pt \<and>
     la = (if q = [] then None else Some (last q))"

definition keys_ok :: "ptpage list \<Rightarrow> bool" where
  "keys_ok pt \<longleftrightarrow> inj_on (\<lambda>i. keyof (pt ! i)) (userframes pt)"

text \<open>
  Allocated blocks: an allocated entry covers \<open>pt_numpages\<close> frames, user blocks cover
  one, and the frames behind the head of a block carry no entry of their own. Frame 0
  holds the exception handlers and always belongs to the kernel.
\<close>

definition frames_ok :: "ptpage list \<Rightarrow> bool" where
  "frames_ok pt \<longleftrightarrow>
     (\<forall>h < length pt. pt_pid (pt ! h) \<noteq> -1 \<longrightarrow>
        0 < pt_numpages (pt ! h) \<and> h + pt_numpages (pt ! h) \<le> length pt \<and>
        (0 < pt_pid (pt ! h) \<longrightarrow> pt_numpages (pt ! h) = 1) \<and>
        (\<forall>j. h < j \<and> j < h + pt_numpages (pt ! h) \<longrightarrow> pt_pid (pt ! j) = -1))"

definition occupied :: "ptpage list \<Rightarrow> nat \<Rightarrow> bool" where
  "occupied pt j \<longleftrightarrow>
     (\<exists>h \<le> j. h < length pt \<and> pt_pid (pt ! h) \<noteq> -1 \<and> j < h + pt_numpages (pt ! h))"

definition pt_rep :: "ptstate \<Rightarrow> (nat \<Rightarrow> nat list) \<Rightarrow> nat list \<Rightarrow> bool" where
  "pt_rep s cs q \<longleftrightarrow>
     0 < length (hashedpt s) \<and> keys_ok (pagetable s) \<and>
     chains_ok (pagetable s) (hashedpt s) cs \<and>
     fifo_ok (pagetable s) (firstvictim s) (lastallocateduser s) q"

definition pt_inv :: "ptstate \<Rightarrow> bool" where
  "pt_inv s \<longleftrightarrow> (\<exists>cs q. pt_rep s cs q) \<and> frames_ok (pagetable s) \<and>
     length (pagetable s) \<le> 2 ^ 20 \<and> 0 < length (pagetable s) \<and> pt_pid (pagetable s ! 0) = 0"

text \<open>What the structure stands for: a finite map from page keys to frames, and a queue.\<close>

definition resident :: "ptstate \<Rightarrow> pagekey \<Rightarrow> nat option" where
  "resident s k =
     find (\<lambda>i. 0 < pt_pid (pagetable s ! i) \<and> keyof (pagetable s ! i) = k)
       [0..<length (pagetable s)]"

fun walk :: "nat \<Rightarrow> (nat \<Rightarrow> nat option) \<Rightarrow> nat option \<Rightarrow> nat list" where
  "walk fuel f None = []"
| "walk 0 f (Some n) = []"
| "walk (Suc fuel) f (Some n) = n # walk fuel f (f n)"

definition victims :: "ptstate \<Rightarrow> nat list" where
  "victims s = walk (length (pagetable s)) (fifos (pagetable s)) (firstvictim s)"

lemma walk_linked: "linked f p xs \<Longrightarrow> length xs \<le> n \<Longrightarrow> walk n f p = xs"
proof (induction xs arbitrary: p n)
  case (Cons x xs)
  then show ?case by (cases n) auto
qed simp

subsection \<open>Reading the invariant\<close>

lemma userframesD: "i \<in> userframes pt \<Longrightarrow> i < length pt \<and> 0 < pt_pid (pt ! i)"
  by (simp add: userframes_def)

lemma bucket_less: "0 < n \<Longrightarrow> bucket n k < n"
  by (simp add: bucket_def pthash_def)

lemma chains_okD:
  assumes "chains_ok pt ht cs" "h < length ht"
  shows "linked (nexts pt) (ht ! h) (cs h)"
    and "i \<in> set (cs h) \<longleftrightarrow> i \<in> userframes pt \<and> bucket (length ht) (keyof (pt ! i)) = h"
    and "length (cs h) \<le> length pt"
proof -
  show l: "linked (nexts pt) (ht ! h) (cs h)"
    and s: "i \<in> set (cs h) \<longleftrightarrow> i \<in> userframes pt \<and> bucket (length ht) (keyof (pt ! i)) = h" for i
    using assms by (auto simp: chains_ok_def)
  show "length (cs h) \<le> length pt"
    by (rule length_le_array [OF linked_distinct [OF l]]) (use s in \<open>auto dest: userframesD\<close>)
qed

lemma fifo_okD:
  assumes "fifo_ok pt fv la q"
  shows "linked (fifos pt) fv q" "set q = userframes pt"
    "la = (if q = [] then None else Some (last q))" "distinct q" "length q \<le> length pt"
proof -
  show l: "linked (fifos pt) fv q" and s: "set q = userframes pt"
    and "la = (if q = [] then None else Some (last q))"
    using assms by (auto simp: fifo_ok_def)
  show d: "distinct q" by (rule linked_distinct [OF l])
  show "length q \<le> length pt"
    by (rule length_le_array [OF d]) (use s in \<open>auto dest: userframesD\<close>)
qed

lemma pt_repD:
  assumes "pt_rep s cs q"
  shows "0 < length (hashedpt s)" "keys_ok (pagetable s)"
    "chains_ok (pagetable s) (hashedpt s) cs"
    "fifo_ok (pagetable s) (firstvictim s) (lastallocateduser s) q"
  using assms by (auto simp: pt_rep_def)

lemma victims_rep: "pt_rep s cs q \<Longrightarrow> victims s = q"
  unfolding victims_def by (meson pt_repD(4) fifo_okD(1,5) walk_linked)

lemma resident_Some_iff:
  assumes "keys_ok (pagetable s)"
  shows "resident s k = Some i \<longleftrightarrow> i \<in> userframes (pagetable s) \<and> keyof (pagetable s ! i) = k"
  unfolding resident_def
  by (subst find_unique_iff)
    (use assms in \<open>auto simp: keys_ok_def inj_on_def userframes_def keyof_def\<close>)

lemma resident_None_iff:
  "resident s k = None \<longleftrightarrow> (\<forall>i \<in> userframes (pagetable s). keyof (pagetable s ! i) \<noteq> k)"
  by (auto simp: resident_def find_None_iff userframes_def)

lemma resident_ext:
  assumes "keys_ok (pagetable s)"
    and "\<And>k i. m k = Some i \<longleftrightarrow> i \<in> userframes (pagetable s) \<and> keyof (pagetable s ! i) = k"
  shows "resident s = m"
proof (rule ext)
  fix k
  show "resident s k = m k"
    using resident_Some_iff [OF assms(1), of k] assms(2) [of k]
    by (cases "resident s k"; cases "m k") auto
qed

subsection \<open>The loops on a well-formed table\<close>

lemma getpageaddr_loop_linked:
  assumes "linked (nexts pt) p xs" "length xs \<le> fuel" "\<forall>i \<in> set xs. i < length pt"
  shows "getpageaddr_loop fuel pt pid v p =
    Inr (case find (\<lambda>i. keyof (pt ! i) = (pid, v)) xs of
           None \<Rightarrow> 0 | Some i \<Rightarrow> word_of_nat i * word_of_nat PAGE_SIZE)"
  using assms
proof (induction xs arbitrary: p fuel)
  case (Cons x xs)
  then obtain f where "fuel = Suc f" by (cases fuel) auto
  with Cons show ?case by (auto simp: nexts_def keyof_def)
qed simp

lemma chain_append_linked:
  assumes "linked (nexts pt) (Some x) (xs @ [l])" "length xs < fuel"
    "\<forall>i \<in> set (xs @ [l]). i < length pt"
  shows "chain_append fuel pt x node = Inr (pt[l := (pt ! l)\<lparr>pt_next := Some node\<rparr>])"
  using assms
proof (induction xs arbitrary: x fuel)
  case Nil
  then show ?case by (cases fuel) (auto simp: nexts_def)
next
  case (Cons y ys)
  then obtain f where f: "fuel = Suc f" by (cases fuel) auto
  from Cons.prems(1) have [simp]: "x = y" and "linked (nexts pt) (nexts pt y) (ys @ [l])" by auto
  moreover from this obtain m where "pt_next (pt ! y) = Some m"
    by (cases "nexts pt y") (auto simp: nexts_def)
  ultimately show ?case using Cons f by (simp add: nexts_def)
qed

lemma freeuser_find_hit:
  assumes "path (nexts pt) p xs (Some n)" "length xs < fuel" "\<forall>i \<in> set xs. i < length pt"
    "n < length pt" "keyof (pt ! n) = (pid, v)" "\<forall>i \<in> set xs. keyof (pt ! i) \<noteq> (pid, v)"
  shows "freeuser_find fuel pt pid v prec p = Inr (if xs = [] then prec else Some (last xs), Some n)"
  using assms
proof (induction xs arbitrary: p fuel prec)
  case Nil
  then show ?case by (cases fuel) (auto simp: keyof_def)
next
  case (Cons y ys)
  then obtain f where "fuel = Suc f" by (cases fuel) auto
  with Cons show ?case by (auto simp: keyof_def nexts_def)
qed

lemma freeuser_find_miss:
  assumes "linked (nexts pt) p xs" "length xs \<le> fuel" "\<forall>i \<in> set xs. i < length pt"
    "\<forall>i \<in> set xs. keyof (pt ! i) \<noteq> (pid, v)"
  shows "\<exists>prec'. freeuser_find fuel pt pid v prec p = Inr (prec', None)"
  using assms
proof (induction xs arbitrary: p fuel prec)
  case (Cons y ys)
  then obtain f where "fuel = Suc f" by (cases fuel) auto
  with Cons show ?case by (auto simp: keyof_def nexts_def)
qed simp

lemma fifo_unlink_hit:
  assumes "path (fifos pt) p xs (Some l)" "fifos pt l = Some n" "length xs < fuel"
    "\<forall>i \<in> set xs. i < length pt" "l < length pt" "n < length pt" "keyof (pt ! n) = (pid, v)"
    "\<forall>i \<in> set (xs @ [l]). keyof (pt ! i) \<noteq> (pid, v)"
  shows "fifo_unlink fuel pt pid v p = Inr (pt[l := (pt ! l)\<lparr>pt_fifonext := pt_fifonext (pt ! n)\<rparr>])"
  using assms
proof (induction xs arbitrary: p fuel)
  case Nil
  then show ?case by (cases fuel) (auto simp: keyof_def fifos_def)
next
  case (Cons y ys)
  then obtain f where f: "fuel = Suc f" by (cases fuel) auto
  from Cons.prems have p: "p = Some y" and r: "path (fifos pt) (fifos pt y) ys (Some l)" by auto
  define m where "m = (case ys of [] \<Rightarrow> l | z # _ \<Rightarrow> z)"
  have m: "fifos pt y = Some m" "m \<in> set (ys @ [l])"
    using r by (auto simp: m_def split: list.splits)
  have "keyof (pt ! m) \<noteq> (pid, v)" "m < length pt" using Cons.prems m(2) by auto
  moreover have "fifo_unlink f pt pid v (Some m) =
      Inr (pt[l := (pt ! l)\<lparr>pt_fifonext := pt_fifonext (pt ! n)\<rparr>])"
    by (rule Cons.IH) (use Cons.prems r m f in auto)
  ultimately show ?case using p f m(1) Cons.prems(4) by (auto simp: keyof_def fifos_def)
qed

lemma fifo_last_linked:
  assumes "linked (fifos pt) (Some x) (xs @ [l])" "length xs < fuel"
    "\<forall>i \<in> set (xs @ [l]). i < length pt"
  shows "fifo_last fuel pt x = Inr l"
  using assms
proof (induction xs arbitrary: x fuel)
  case Nil
  then show ?case by (cases fuel) (auto simp: fifos_def)
next
  case (Cons y ys)
  then obtain f where f: "fuel = Suc f" by (cases fuel) auto
  from Cons.prems(1) have [simp]: "x = y" and "linked (fifos pt) (fifos pt y) (ys @ [l])" by auto
  moreover from this obtain m where "pt_fifonext (pt ! y) = Some m"
    by (cases "fifos pt y") (auto simp: fifos_def)
  ultimately show ?case using Cons f by (simp add: fifos_def)
qed


subsection \<open>Links apart, the entries\<close>

text \<open>
  \<open>core\<close> is an entry without its links. The owner sets, the keys and the block structure
  depend on the cores only, so a change of links keeps them.
\<close>

definition core :: "ptpage \<Rightarrow> pid_t \<times> vaddr_t \<times> nat" where
  "core e = (pt_pid e, pt_vaddr e, pt_numpages e)"

lemma core_simps [simp]:
  "core (e\<lparr>pt_next := a\<rparr>) = core e" "core (e\<lparr>pt_fifonext := a\<rparr>) = core e"
  "core \<lparr>pt_pid = p, pt_vaddr = v, pt_numpages = n, pt_fifonext = f, pt_next = x\<rparr> = (p, v, n)"
  by (simp_all add: core_def)

lemma core_cong:
  assumes "map core pt' = map core pt"
  shows "length pt' = length pt"
    and "i < length pt \<Longrightarrow> pt_pid (pt' ! i) = pt_pid (pt ! i)"
    and "i < length pt \<Longrightarrow> pt_vaddr (pt' ! i) = pt_vaddr (pt ! i)"
    and "i < length pt \<Longrightarrow> pt_numpages (pt' ! i) = pt_numpages (pt ! i)"
    and "i < length pt \<Longrightarrow> keyof (pt' ! i) = keyof (pt ! i)"
proof -
  show l: "length pt' = length pt" using assms by (metis length_map)
  have "i < length pt \<Longrightarrow> core (pt' ! i) = core (pt ! i)"
    using assms l by (metis nth_map)
  then show "i < length pt \<Longrightarrow> pt_pid (pt' ! i) = pt_pid (pt ! i)"
    and "i < length pt \<Longrightarrow> pt_vaddr (pt' ! i) = pt_vaddr (pt ! i)"
    and "i < length pt \<Longrightarrow> pt_numpages (pt' ! i) = pt_numpages (pt ! i)"
    and "i < length pt \<Longrightarrow> keyof (pt' ! i) = keyof (pt ! i)"
    by (simp_all add: core_def keyof_def)
qed

lemma core_eqI:
  assumes "length pt' = length pt" "\<And>i. i < length pt \<Longrightarrow> core (pt' ! i) = core (pt ! i)"
  shows "map core pt' = map core pt"
  using assms by (simp add: list_eq_iff_nth_eq)

lemma core_upd_link [simp]: "core e = core (pt ! i) \<Longrightarrow> map core (pt[i := e]) = map core pt"
  by (metis list_update_id map_update)

lemma userframes_core: "map core pt' = map core pt \<Longrightarrow> userframes pt' = userframes pt"
  unfolding userframes_def using core_cong(1,2) by (metis (no_types, lifting))

lemma keys_ok_core: "map core pt' = map core pt \<Longrightarrow> keys_ok pt' = keys_ok pt"
  unfolding keys_ok_def using userframes_core core_cong(5)
  by (smt (verit, ccfv_SIG) inj_on_cong userframesD)

lemma chains_ok_cong:
  assumes "map core pt' = map core pt" "\<And>i. i < length pt \<Longrightarrow> nexts pt' i = nexts pt i"
  shows "chains_ok pt' ht cs = chains_ok pt ht cs"
proof -
  have s: "{i \<in> userframes pt'. bucket n (keyof (pt' ! i)) = h} =
      {i \<in> userframes pt. bucket n (keyof (pt ! i)) = h}" for n h
    using userframes_core [OF assms(1)] core_cong(5) [OF assms(1)] by (auto dest: userframesD)
  have "linked (nexts pt') p xs = linked (nexts pt) p xs" if "set xs \<subseteq> userframes pt" for p xs
    using that assms(2) by (intro path_cong) (auto dest: userframesD)
  then show ?thesis unfolding chains_ok_def s by (metis (no_types, lifting) mem_Collect_eq subsetI)
qed

lemma fifo_ok_cong:
  assumes "map core pt' = map core pt" "\<And>i. i < length pt \<Longrightarrow> fifos pt' i = fifos pt i"
  shows "fifo_ok pt' fv la q = fifo_ok pt fv la q"
proof -
  have "linked (fifos pt') p xs = linked (fifos pt) p xs" if "set xs = userframes pt" for p xs
    using that assms(2) by (intro path_cong) (auto dest: userframesD)
  then show ?thesis unfolding fifo_ok_def using userframes_core [OF assms(1)] by auto
qed

lemma frames_ok_core: "map core pt' = map core pt \<Longrightarrow> frames_ok pt' = frames_ok pt"
  unfolding frames_ok_def using core_cong(1,2,4)
  by (smt (verit, del_insts) order_less_le_trans)

lemma occupied_core: "map core pt' = map core pt \<Longrightarrow> occupied pt' j = occupied pt j"
  unfolding occupied_def using core_cong(1,2,4) by (metis (no_types, lifting))

subsection \<open>setptentry for a user page\<close>

lemma nexts_upd [simp]:
  "i < length pt \<Longrightarrow> nexts (pt[i := e]) j = (if i = j then pt_next e else nexts pt j)"
  "i < length pt \<Longrightarrow> fifos (pt[i := e]) j = (if i = j then pt_fifonext e else fifos pt j)"
  by (simp_all add: nexts_def fifos_def)

text \<open>One entry replaced, seen through the cores.\<close>

lemma core_upd:
  assumes "map core pt' = (map core pt)[i := (p, v, n)]" "i < length pt"
  shows "length pt' = length pt"
    and "j < length pt \<Longrightarrow> pt_pid (pt' ! j) = (if j = i then p else pt_pid (pt ! j))"
    and "j < length pt \<Longrightarrow> pt_vaddr (pt' ! j) = (if j = i then v else pt_vaddr (pt ! j))"
    and "j < length pt \<Longrightarrow> pt_numpages (pt' ! j) = (if j = i then n else pt_numpages (pt ! j))"
    and "j < length pt \<Longrightarrow> keyof (pt' ! j) = (if j = i then (p, v) else keyof (pt ! j))"
proof -
  show l: "length pt' = length pt" using assms by (metis length_list_update length_map)
  have "core (pt' ! j) = (if j = i then (p, v, n) else core (pt ! j))" if "j < length pt"
  proof -
    have "core (pt' ! j) = map core pt' ! j" using that l by simp
    also have "\<dots> = (if j = i then (p, v, n) else core (pt ! j))"
      unfolding assms(1) using that assms(2) by (simp add: nth_list_update)
    finally show ?thesis .
  qed
  then show "j < length pt \<Longrightarrow> pt_pid (pt' ! j) = (if j = i then p else pt_pid (pt ! j))"
    and "j < length pt \<Longrightarrow> pt_vaddr (pt' ! j) = (if j = i then v else pt_vaddr (pt ! j))"
    and "j < length pt \<Longrightarrow> pt_numpages (pt' ! j) = (if j = i then n else pt_numpages (pt ! j))"
    and "j < length pt \<Longrightarrow> keyof (pt' ! j) = (if j = i then (p, v) else keyof (pt ! j))"
    by (auto simp: core_def keyof_def split: if_splits)
qed

lemma userframes_upd:
  assumes "map core pt' = (map core pt)[i := (p, v, n)]" "i < length pt"
  shows "userframes pt' = (if 0 < p then insert i (userframes pt) else userframes pt - {i})"
  using core_upd(1,2) [OF assms] assms(2) unfolding userframes_def by (auto split: if_splits)

text \<open>
  The representation with one more user frame: what \<^verbatim>\<open>setptentry\<close> has to establish for
  the links, given that the entry itself is filled in.
\<close>

lemma pt_rep_insertI:
  fixes s s' :: ptstate and pid :: pid_t and v :: vaddr_t
  defines "h \<equiv> bucket (length (hashedpt s)) (pid, v)"
  assumes rep: "pt_rep s cs q" and index: "index < length (pagetable s)"
    and free: "index \<notin> userframes (pagetable s)" and pid: "0 < pid"
    and new: "resident s (pid, v) = None"
    and core: "map core (pagetable s') = (map core (pagetable s))[index := (pid, v, n)]"
    and ht: "length (hashedpt s') = length (hashedpt s)"
    and chain: "linked (nexts (pagetable s')) (hashedpt s' ! h) (cs h @ [index])"
    and others: "\<And>g. g < length (hashedpt s) \<Longrightarrow> g \<noteq> h \<Longrightarrow>
       linked (nexts (pagetable s')) (hashedpt s' ! g) (cs g)"
    and fifo: "linked (fifos (pagetable s')) (firstvictim s') (q @ [index])"
      "lastallocateduser s' = Some index"
  shows "pt_rep s' (cs(h := cs h @ [index])) (q @ [index])"
proof -
  note r = pt_repD [OF rep]
  have uf: "userframes (pagetable s') = insert index (userframes (pagetable s))"
    using userframes_upd [OF core index] pid by simp
  note key = core_upd(5) [OF core index]
  have old: "i < length (pagetable s)" "i \<noteq> index" if "i \<in> userframes (pagetable s)" for i
    using that free by (auto dest: userframesD)
  have "keys_ok (pagetable s')"
    using r(2) new old index unfolding keys_ok_def uf resident_None_iff
    by (auto simp: inj_on_def key)
  moreover have "set ((cs(h := cs h @ [index])) g) =
      {i \<in> userframes (pagetable s'). bucket (length (hashedpt s)) (keyof (pagetable s' ! i)) = g}"
    if g: "g < length (hashedpt s)" for g
    using chains_okD(2) [OF r(3) g] old index by (auto simp: uf key h_def)
  ultimately show ?thesis
    using r(1) ht chain others fifo fifo_okD(2) [OF r(4)] uf
    by (simp add: pt_rep_def chains_ok_def fifo_ok_def)
qed

text \<open>Appending a filled entry to its collision chain.\<close>

lemma setptentry_hash_ok:
  fixes s :: ptstate and pid :: pid_t and v :: vaddr_t
  defines "pt \<equiv> pagetable s" and "ht \<equiv> hashedpt s"
  defines "h \<equiv> bucket (length ht) (pid, v)"
  assumes ht: "0 < length ht"
    and lk: "linked (nexts pt) (ht ! h) (cs h)" "set (cs h) \<subseteq> {..<length pt}"
    and node: "node < length pt" "node \<notin> set (cs h)" "nexts pt node = None"
  shows "\<exists>pt' ht'. setptentry_hash s node pid v = Inr (s\<lparr>pagetable := pt', hashedpt := ht'\<rparr>) \<and>
    map core pt' = map core pt \<and> (\<forall>i. fifos pt' i = fifos pt i) \<and> length ht' = length ht \<and>
    (\<forall>g. g \<noteq> h \<longrightarrow> ht' ! g = ht ! g) \<and> (\<forall>i. i \<notin> set (cs h) \<longrightarrow> nexts pt' i = nexts pt i) \<and>
    linked (nexts pt') (ht' ! h) (cs h @ [node])"
proof (cases "cs h" rule: rev_cases)
  case Nil
  have e: "gethashedentry s pid v = Inr None"
    using ht lk(1) Nil by (simp add: gethashedentry_def h_def ht_def bucket_def)
  have h: "h < length ht" using ht by (simp add: h_def bucket_less)
  have r: "setptentry_hash s node pid v = Inr (s\<lparr>pagetable := pt, hashedpt := ht[h := Some node]\<rparr>)"
    using ht by (simp add: setptentry_hash_def e sethashedptentry_def ht_def h_def bucket_def pt_def)
  show ?thesis
    by (rule exI [of _ pt], rule exI [of _ "ht[h := Some node]"]) (use r Nil node h in auto)
next
  case (snoc ys l)
  have x: "\<exists>x. ht ! h = Some x" using lk(1) snoc by (cases "ht ! h") auto
  then obtain x where x: "ht ! h = Some x" by blast
  have e: "gethashedentry s pid v = Inr (Some x)"
    using ht x by (simp add: gethashedentry_def h_def ht_def bucket_def)
  have "length (cs h) \<le> length pt"
    using linked_distinct [OF lk(1)] lk(2) by (intro length_le_array) auto
  then have c: "chain_append (length pt) pt x node = Inr (pt[l := (pt ! l)\<lparr>pt_next := Some node\<rparr>])"
    using lk x snoc by (intro chain_append_linked [where xs = ys]) auto
  have l: "l < length pt" "l \<noteq> node" using lk(2) snoc node by auto
  have li: "linked (nexts (pt[l := (pt ! l)\<lparr>pt_next := Some node\<rparr>])) (ht ! h) (ys @ [l, node])"
    by (rule linked_snoc [where f = "nexts pt"])
      (use lk(1) node l snoc linked_distinct [OF lk(1)] in auto)
  show ?thesis
    by (rule exI [of _ "pt[l := (pt ! l)\<lparr>pt_next := Some node\<rparr>]"], rule exI [of _ ht])
      (use e c l li snoc in \<open>auto simp: setptentry_hash_def pt_def ht_def fifos_def nth_list_update\<close>)
qed

text \<open>Appending it to the victim queue.\<close>

lemma setptentry_fifo_ok:
  assumes "linked (fifos (pagetable s)) (firstvictim s) q" "set q \<subseteq> {..<length (pagetable s)}"
    and "lastallocateduser s = (if q = [] then None else Some (last q))"
    and "node < length (pagetable s)" "node \<notin> set q" "fifos (pagetable s) node = None"
  shows "\<exists>pt' fv. setptentry_fifo s node =
      Inr (s\<lparr>pagetable := pt', firstvictim := fv, lastallocateduser := Some node\<rparr>) \<and>
    map core pt' = map core (pagetable s) \<and> (\<forall>i. nexts pt' i = nexts (pagetable s) i) \<and>
    linked (fifos pt') fv (q @ [node])"
proof (cases q rule: rev_cases)
  case Nil
  then show ?thesis using assms
    by (intro exI [of _ "pagetable s"] exI [of _ "Some node"]) (simp add: setptentry_fifo_def)
next
  case (snoc ys l)
  let ?pt = "(pagetable s)[l := (pagetable s ! l)\<lparr>pt_fifonext := Some node\<rparr>]"
  have l: "l < length (pagetable s)" "l \<noteq> node" using assms snoc by auto
  have li: "linked (fifos ?pt) (firstvictim s) (ys @ [l, node])"
    by (rule linked_snoc [where f = "fifos (pagetable s)"])
      (use assms l snoc linked_distinct [OF assms(1)] in auto)
  have fv: "firstvictim s \<noteq> None" using assms(1) snoc by (cases "firstvictim s") auto
  then have r: "setptentry_fifo s node =
      Inr (s\<lparr>pagetable := ?pt, firstvictim := firstvictim s, lastallocateduser := Some node\<rparr>)"
    using assms snoc l by (simp add: setptentry_fifo_def Let_def)
  have n: "nexts ?pt i = nexts (pagetable s) i" for i using l by (simp add: nexts_def nth_list_update)
  show ?thesis
    by (rule exI [of _ ?pt], rule exI [of _ "firstvictim s"]) (use r n li snoc in auto)
qed

lemma setptentry_user_ok:
  assumes rep: "pt_rep s cs q" and index: "index < length (pagetable s)"
    and free: "index \<notin> userframes (pagetable s)" and pid: "0 < pid"
    and new: "resident s (pid, v) = None"
  shows "\<exists>s'. setptentry s index n pid v = Inr s' \<and>
    pt_rep s' (cs(bucket (length (hashedpt s)) (pid, v) :=
                  cs (bucket (length (hashedpt s)) (pid, v)) @ [index])) (q @ [index]) \<and>
    map core (pagetable s') = (map core (pagetable s))[index := (pid, v, n)] \<and>
    length (hashedpt s') = length (hashedpt s)"
proof -
  define e where "e = \<lparr>pt_pid = pid, pt_vaddr = v, pt_numpages = n,
                        pt_fifonext = None, pt_next = None\<rparr>"
  define pt where "pt = (pagetable s)[index := e]"
  define s0 where "s0 = s\<lparr>pagetable := pt\<rparr>"
  let ?ht = "hashedpt s" and ?h = "bucket (length (hashedpt s)) (pid, v)"
  note r = pt_repD [OF rep] and fq = fifo_okD [OF pt_repD(4) [OF rep]]
  have hl: "?h < length ?ht" using r(1) by (rule bucket_less)
  have notin: "index \<notin> set (cs g)" if "g < length ?ht" for g
    using free chains_okD(2) [OF r(3) that] by blast
  have lk0: "linked (nexts pt) (?ht ! g) (cs g)" if "g < length ?ht" for g
    using chains_okD(1) [OF r(3) that] notin [OF that] index unfolding pt_def
    by (subst path_cong [where g = "nexts (pagetable s)"]) auto
  have "set (cs ?h) \<subseteq> {..<length pt}"
    using chains_okD(2) [OF r(3) hl] by (auto simp: pt_def dest: userframesD)
  then obtain pt1 ht1 where h1:
    "setptentry_hash s0 index pid v = Inr (s0\<lparr>pagetable := pt1, hashedpt := ht1\<rparr>)"
    "map core pt1 = map core pt" "\<forall>i. fifos pt1 i = fifos pt i"
    "length ht1 = length ?ht" "\<forall>g. g \<noteq> ?h \<longrightarrow> ht1 ! g = ?ht ! g"
    "\<forall>i. i \<notin> set (cs ?h) \<longrightarrow> nexts pt1 i = nexts pt i"
    "linked (nexts pt1) (ht1 ! ?h) (cs ?h @ [index])"
    using setptentry_hash_ok [of s0 pid v cs index] r(1) lk0 [OF hl] notin [OF hl] index
    by (auto simp: s0_def pt_def e_def)
  define s1 where "s1 = s0\<lparr>pagetable := pt1, hashedpt := ht1\<rparr>"
  have nq: "index \<notin> set q" using fq(2) free by simp
  have lf: "linked (fifos pt1) (firstvictim s) q"
    using fq(1) nq h1(3) index by (subst path_cong [where g = "fifos (pagetable s)"]) (auto simp: pt_def)
  have len1: "length pt1 = length (pagetable s)" using core_cong(1) [OF h1(2)] by (simp add: pt_def)
  obtain pt2 fv where h2: "setptentry_fifo s1 index =
      Inr (s1\<lparr>pagetable := pt2, firstvictim := fv, lastallocateduser := Some index\<rparr>)"
    "map core pt2 = map core pt1" "\<forall>i. nexts pt2 i = nexts pt1 i" "linked (fifos pt2) fv (q @ [index])"
    using setptentry_fifo_ok [of s1 q index] lf fq nq index h1(3) len1
    by (auto simp: s1_def s0_def pt_def e_def dest: userframesD)
  define s' where "s' = s1\<lparr>pagetable := pt2, firstvictim := fv, lastallocateduser := Some index\<rparr>"
  have run: "setptentry s index n pid v = Inr s'"
    using index pid h1(1) h2(1) by (simp add: setptentry_def Let_def e_def s0_def pt_def s1_def s'_def)
  have core': "map core (pagetable s') = (map core (pagetable s))[index := (pid, v, n)]"
    using h1(2) h2(2) by (simp add: s'_def map_update e_def pt_def)
  have lk': "linked (nexts pt2) (ht1 ! g) (cs g)" if g: "g < length ?ht" "g \<noteq> ?h" for g
  proof -
    have "i \<notin> set (cs ?h)" if "i \<in> set (cs g)" for i
      using that g(2) chains_okD(2) [OF r(3) g(1)] chains_okD(2) [OF r(3) hl] by auto
    then show ?thesis using lk0 [OF g(1)] g(2) h1(5,6) h2(3)
      by (subst path_cong [where g = "nexts pt"]) auto
  qed
  have "linked (nexts pt2) (ht1 ! ?h) (cs ?h @ [index])"
    using h1(7) h2(3) by (subst path_cong [where g = "nexts pt1"]) auto
  with lk' have "pt_rep s' (cs(?h := cs ?h @ [index])) (q @ [index])"
    by (intro pt_rep_insertI [OF rep index free pid new core'])
      (use h1(4) h2(4) in \<open>auto simp: s'_def s1_def s0_def\<close>)
  with run core' h1(4) show ?thesis by (auto simp: s'_def s1_def s0_def)
qed

subsection \<open>freeuser\<close>

lemma pt_rep_removeI:
  fixes s s' :: ptstate and pid :: pid_t and v :: vaddr_t
  defines "h \<equiv> bucket (length (hashedpt s)) (pid, v)"
  assumes rep: "pt_rep s cs q" and n: "n \<in> userframes (pagetable s)" "keyof (pagetable s ! n) = (pid, v)"
    and core: "map core (pagetable s') = (map core (pagetable s))[n := (-1, v, 0)]"
    and ht: "length (hashedpt s') = length (hashedpt s)"
    and chain: "linked (nexts (pagetable s')) (hashedpt s' ! h) (remove1 n (cs h))"
    and others: "\<And>g. g < length (hashedpt s) \<Longrightarrow> g \<noteq> h \<Longrightarrow>
       linked (nexts (pagetable s')) (hashedpt s' ! g) (cs g)"
    and fifo: "linked (fifos (pagetable s')) (firstvictim s') (remove1 n q)"
      "lastallocateduser s' = (if remove1 n q = [] then None else Some (last (remove1 n q)))"
  shows "pt_rep s' (cs(h := remove1 n (cs h))) (remove1 n q)"
proof -
  note r = pt_repD [OF rep] and fq = fifo_okD [OF pt_repD(4) [OF rep]]
  have nl: "n < length (pagetable s)" using n(1) by (simp add: userframes_def)
  have hl: "h < length (hashedpt s)" unfolding h_def using r(1) by (rule bucket_less)
  have uf: "userframes (pagetable s') = userframes (pagetable s) - {n}"
    using userframes_upd [OF core nl] by simp
  have key: "keyof (pagetable s' ! i) = (if i = n then (-1, v) else keyof (pagetable s ! i))"
    if "i \<in> userframes (pagetable s)" for i
    using core_upd(5) [OF core nl] that by (simp add: userframes_def)
  have "keys_ok (pagetable s')"
    using r(2) unfolding keys_ok_def uf by (auto simp: inj_on_def key)
  moreover have "set ((cs(h := remove1 n (cs h))) g) =
      {i \<in> userframes (pagetable s'). bucket (length (hashedpt s)) (keyof (pagetable s' ! i)) = g}"
    if g: "g < length (hashedpt s)" for g
  proof -
    have "{i \<in> userframes (pagetable s'). bucket (length (hashedpt s)) (keyof (pagetable s' ! i)) = g} =
        {i \<in> userframes (pagetable s). bucket (length (hashedpt s)) (keyof (pagetable s ! i)) = g} - {n}"
      unfolding uf using key by auto
    also have "\<dots> = set (cs g) - {n}" using chains_okD(2) [OF r(3) g] by blast
    also have "\<dots> = set ((cs(h := remove1 n (cs h))) g)"
      using linked_distinct [OF chains_okD(1) [OF r(3) hl]] chains_okD(2) [OF r(3) g, of n] n
      by (auto simp: set_remove1_eq h_def)
    finally show ?thesis ..
  qed
  ultimately show ?thesis
    using r(1) ht chain others fifo fq(2,4) uf
    by (simp add: pt_rep_def chains_ok_def fifo_ok_def set_remove1_eq)
qed

lemma freeuser_unchain_ok:
  fixes s :: ptstate and pid :: pid_t and v :: vaddr_t
  defines "pt \<equiv> pagetable s" and "ht \<equiv> hashedpt s"
  defines "h \<equiv> bucket (length ht) (pid, v)"
  assumes ht: "0 < length ht" and lk: "linked (nexts pt) (ht ! h) (xs @ n # ys)"
    and b: "set (xs @ n # ys) \<subseteq> {..<length pt}"
  shows "\<exists>pt' ht'. freeuser_unchain s pid v (ht ! h) (if xs = [] then None else Some (last xs)) n =
      Inr (s\<lparr>pagetable := pt', hashedpt := ht'\<rparr>) \<and>
    map core pt' = map core pt \<and> (\<forall>i. fifos pt' i = fifos pt i) \<and> length ht' = length ht \<and>
    (\<forall>g. g \<noteq> h \<longrightarrow> ht' ! g = ht ! g) \<and> (\<forall>i. i \<notin> set xs \<longrightarrow> nexts pt' i = nexts pt i) \<and>
    linked (nexts pt') (ht' ! h) (xs @ ys)"
proof (cases xs rule: rev_cases)
  case Nil
  have h: "h < length ht" using ht by (simp add: h_def bucket_less)
  have r: "freeuser_unchain s pid v (ht ! h) None n =
      Inr (s\<lparr>pagetable := pt, hashedpt := ht[h := nexts pt n]\<rparr>)"
    using lk Nil ht
    by (simp add: freeuser_unchain_def sethashedptentry_def h_def ht_def bucket_def pt_def nexts_def)
  show ?thesis
    by (rule exI [of _ pt], rule exI [of _ "ht[h := nexts pt n]"]) (use r Nil lk h in auto)
next
  case (snoc zs l)
  let ?pt = "pt[l := (pt ! l)\<lparr>pt_next := nexts pt n\<rparr>]"
  have l: "l < length pt" "n \<noteq> l" "l \<notin> set zs" "l \<notin> set ys"
    using b snoc linked_distinct [OF lk] by auto
  have "ht ! h \<noteq> Some n"
    using lk snoc linked_distinct [OF lk] by (cases zs) auto
  then have r: "freeuser_unchain s pid v (ht ! h) (Some l) n = Inr (s\<lparr>pagetable := ?pt, hashedpt := ht\<rparr>)"
    by (simp add: freeuser_unchain_def pt_def ht_def nexts_def)
  have li: "linked (nexts ?pt) (ht ! h) (zs @ l # ys)"
    by (rule linked_unlink [where f = "nexts pt" and n = n]) (use lk snoc l in auto)
  show ?thesis
    by (rule exI [of _ ?pt], rule exI [of _ ht])
      (use r snoc l li in \<open>auto simp: fifos_def nth_list_update\<close>)
qed

lemma freeuser_unqueue_ok:
  assumes lk: "linked (fifos (pagetable s)) (firstvictim s) (xs @ n # ys)"
    and b: "set (xs @ n # ys) \<subseteq> {..<length (pagetable s)}"
    and key: "keyof (pagetable s ! n) = (pid, v)"
      "\<forall>i \<in> set xs. keyof (pagetable s ! i) \<noteq> (pid, v)"
  shows "\<exists>pt' fv. freeuser_unqueue s pid v n = Inr (s\<lparr>pagetable := pt', firstvictim := fv\<rparr>) \<and>
    map core pt' = map core (pagetable s) \<and> (\<forall>i. nexts pt' i = nexts (pagetable s) i) \<and>
    linked (fifos pt') fv (xs @ ys)"
proof (cases xs rule: rev_cases)
  case Nil
  then show ?thesis using lk
    by (intro exI [of _ "pagetable s"] exI [of _ "fifos (pagetable s) n"])
      (auto simp: freeuser_unqueue_def fifos_def)
next
  case (snoc zs l)
  let ?pt = "(pagetable s)[l := (pagetable s ! l)\<lparr>pt_fifonext := fifos (pagetable s) n\<rparr>]"
  have d: "distinct (xs @ n # ys)" by (rule linked_distinct [OF lk])
  have l: "l < length (pagetable s)" "n \<noteq> l" "l \<notin> set zs" "l \<notin> set ys"
    using b snoc d by auto
  have fv: "firstvictim s \<noteq> Some n" using lk snoc d by (cases zs) auto
  have "length (xs @ n # ys) \<le> length (pagetable s)" using d b by (intro length_le_array) auto
  then have "fifo_unlink (length (pagetable s)) (pagetable s) pid v (firstvictim s) = Inr ?pt"
    unfolding fifos_def
    by (intro fifo_unlink_hit [where xs = zs]) (use lk snoc b key l in \<open>auto simp: fifos_def\<close>)
  then have r: "freeuser_unqueue s pid v n = Inr (s\<lparr>pagetable := ?pt, firstvictim := firstvictim s\<rparr>)"
    using fv by (simp add: freeuser_unqueue_def)
  have li: "linked (fifos ?pt) (firstvictim s) (zs @ l # ys)"
    by (rule linked_unlink [where f = "fifos (pagetable s)" and n = n]) (use lk snoc l in auto)
  show ?thesis
    by (rule exI [of _ ?pt], rule exI [of _ "firstvictim s"])
      (use r snoc l li in \<open>auto simp: nexts_def nth_list_update\<close>)
qed

lemma freeuser_fixlast_ok:
  assumes lk: "linked (fifos (pagetable s)) (firstvictim s) (xs @ ys)"
    and b: "set (xs @ ys) \<subseteq> {..<length (pagetable s)}"
    and la: "lastallocateduser s = Some (last (xs @ n # ys))" and n: "n \<notin> set (xs @ ys)"
  shows "freeuser_fixlast s n =
    Inr (s\<lparr>lastallocateduser := (if xs @ ys = [] then None else Some (last (xs @ ys)))\<rparr>)"
proof (cases ys rule: rev_cases)
  case ys: Nil
  show ?thesis
  proof (cases xs rule: rev_cases)
    case Nil
    then show ?thesis using assms ys by (simp add: freeuser_fixlast_def)
  next
    case (snoc zs l)
    then obtain f where f: "firstvictim s = Some f" using lk by (cases "firstvictim s") auto
    have "length (xs @ ys) \<le> length (pagetable s)"
      using linked_distinct [OF lk] b by (intro length_le_array) auto
    then have "fifo_last (length (pagetable s)) (pagetable s) f = Inr l"
      by (intro fifo_last_linked [where xs = zs]) (use lk f snoc ys b in auto)
    then show ?thesis using la f snoc ys by (simp add: freeuser_fixlast_def)
  qed
next
  case (snoc zs l)
  then show ?thesis using la n by (simp add: freeuser_fixlast_def)
qed

lemma freeuser_absent:
  assumes rep: "pt_rep s cs q" and none: "resident s (pid, v) = None"
  shows "freeuser s pid v = Inr (-1, s)"
proof -
  note r = pt_repD [OF rep]
  let ?h = "bucket (length (hashedpt s)) (pid, v)"
  have hl: "?h < length (hashedpt s)" using r(1) by (rule bucket_less)
  note c = chains_okD [OF r(3) hl]
  have "\<exists>prec'. freeuser_find (length (pagetable s)) (pagetable s) pid v None (hashedpt s ! ?h) =
      Inr (prec', None)"
    by (rule freeuser_find_miss [OF c(1,3)])
      (use c(2) none in \<open>auto simp: resident_None_iff dest: userframesD\<close>)
  then show ?thesis using r(1)
    by (auto simp: freeuser_def gethashedentry_def bucket_def)
qed


lemma clearentry_simps:
  assumes "n < length pt"
  shows "map core (clearentry pt n) = (map core pt)[n := (-1, pt_vaddr (pt ! n), 0)]"
    and "i \<noteq> n \<Longrightarrow> nexts (clearentry pt n) i = nexts pt i"
    and "i \<noteq> n \<Longrightarrow> fifos (clearentry pt n) i = fifos pt i"
  using assms by (simp_all add: clearentry_def core_def map_update nexts_def fifos_def)

text \<open>The node is found and its chain is split around it.\<close>

lemma freeuser_find_resident:
  fixes s :: ptstate and pid :: pid_t and v :: vaddr_t
  defines "h \<equiv> bucket (length (hashedpt s)) (pid, v)"
  assumes rep: "pt_rep s cs q" and res: "resident s (pid, v) = Some n"
  obtains xs ys where "cs h = xs @ n # ys" "n \<notin> set xs"
    "set (cs h) \<subseteq> {..<length (pagetable s)}"
    "gethashedentry s pid v = Inr (hashedpt s ! h)"
    "freeuser_find (length (pagetable s)) (pagetable s) pid v None (hashedpt s ! h) =
       Inr (if xs = [] then None else Some (last xs), Some n)"
proof -
  note r = pt_repD [OF rep]
  have hl: "h < length (hashedpt s)" unfolding h_def using r(1) by (rule bucket_less)
  note c = chains_okD [OF r(3) hl]
  have n: "n \<in> userframes (pagetable s)" "keyof (pagetable s ! n) = (pid, v)"
    using res resident_Some_iff [OF r(2)] by auto
  then have "n \<in> set (cs h)" using c(2) by (simp add: h_def)
  then obtain xs ys where sp: "cs h = xs @ n # ys" "n \<notin> set xs" by (meson split_list_first)
  have b: "set (cs h) \<subseteq> {..<length (pagetable s)}" using c(2) by (auto dest: userframesD)
  have inj: "keyof (pagetable s ! i) \<noteq> (pid, v)" if "i \<in> set xs" for i
  proof -
    have "i \<in> userframes (pagetable s)" "i \<noteq> n" using that sp c(2) by auto
    then show ?thesis using r(2) n unfolding keys_ok_def by (metis inj_onD)
  qed
  have "path (nexts (pagetable s)) (hashedpt s ! h) xs (Some n)" using c(1) sp(1) by auto
  then have "freeuser_find (length (pagetable s)) (pagetable s) pid v None (hashedpt s ! h) =
       Inr (if xs = [] then None else Some (last xs), Some n)"
    by (rule freeuser_find_hit) (use c(3) sp b n inj in \<open>auto dest: userframesD\<close>)
  moreover have "gethashedentry s pid v = Inr (hashedpt s ! h)"
    using r(1) by (simp add: gethashedentry_def h_def bucket_def)
  ultimately show thesis using that sp b by blast
qed

text \<open>First half of \<^verbatim>\<open>freeuser\<close>: after the unlinking every bucket is again a list.\<close>

lemma freeuser_chain_stage:
  fixes s :: ptstate and pid :: pid_t and v :: vaddr_t
  defines "h \<equiv> bucket (length (hashedpt s)) (pid, v)"
  assumes rep: "pt_rep s cs q" and res: "resident s (pid, v) = Some n"
  obtains prec pt1 ht1 where "gethashedentry s pid v = Inr (hashedpt s ! h)"
    "freeuser_find (length (pagetable s)) (pagetable s) pid v None (hashedpt s ! h) = Inr (prec, Some n)"
    "freeuser_unchain s pid v (hashedpt s ! h) prec n = Inr (s\<lparr>pagetable := pt1, hashedpt := ht1\<rparr>)"
    "map core pt1 = map core (pagetable s)" "\<forall>i. fifos pt1 i = fifos (pagetable s) i"
    "length ht1 = length (hashedpt s)"
    "\<forall>g < length (hashedpt s). linked (nexts pt1) (ht1 ! g) ((cs(h := remove1 n (cs h))) g)"
    "\<forall>g < length (hashedpt s). n \<notin> set ((cs(h := remove1 n (cs h))) g)"
proof -
  note r = pt_repD [OF rep]
  have hl: "h < length (hashedpt s)" unfolding h_def using r(1) by (rule bucket_less)
  obtain xs ys where c: "cs h = xs @ n # ys" "n \<notin> set xs" "set (cs h) \<subseteq> {..<length (pagetable s)}"
      "gethashedentry s pid v = Inr (hashedpt s ! h)"
    and fnd: "freeuser_find (length (pagetable s)) (pagetable s) pid v None (hashedpt s ! h) =
       Inr (if xs = [] then None else Some (last xs), Some n)"
    using freeuser_find_resident [OF rep res] unfolding h_def by metis
  have lk: "linked (nexts (pagetable s)) (hashedpt s ! h) (xs @ n # ys)"
    using chains_okD(1) [OF r(3) hl] c(1) by simp
  obtain pt1 ht1 where h1: "freeuser_unchain s pid v (hashedpt s ! h) (if xs = [] then None else Some (last xs)) n =
      Inr (s\<lparr>pagetable := pt1, hashedpt := ht1\<rparr>)"
    "map core pt1 = map core (pagetable s)" "\<forall>i. fifos pt1 i = fifos (pagetable s) i"
    "length ht1 = length (hashedpt s)" "\<forall>g. g \<noteq> h \<longrightarrow> ht1 ! g = hashedpt s ! g"
    "\<forall>i. i \<notin> set xs \<longrightarrow> nexts pt1 i = nexts (pagetable s) i" "linked (nexts pt1) (ht1 ! h) (xs @ ys)"
    using freeuser_unchain_ok [of s pid v xs n ys] r(1) lk c unfolding h_def by auto
  have disj: "i \<notin> set (cs h)" if "g < length (hashedpt s)" "g \<noteq> h" "i \<in> set (cs g)" for g i
    using that chains_okD(2) [OF r(3) that(1)] chains_okD(2) [OF r(3) hl] by auto
  have rm: "remove1 n (cs h) = xs @ ys" "n \<notin> set (xs @ ys)"
    using c linked_distinct [OF lk] by (auto simp: remove1_append)
  have "linked (nexts pt1) (ht1 ! g) ((cs(h := remove1 n (cs h))) g)" if g: "g < length (hashedpt s)" for g
  proof (cases "g = h")
    case False
    then have "nexts pt1 i = nexts (pagetable s) i" if "i \<in> set (cs g)" for i
      using disj [OF g False that] c(1) h1(6) by simp
    then have "linked (nexts pt1) (hashedpt s ! g) (cs g) = linked (nexts (pagetable s)) (hashedpt s ! g) (cs g)"
      by (rule path_cong)
    then show ?thesis using False h1(5) chains_okD(1) [OF r(3) g] by simp
  qed (use h1(7) rm in simp)
  moreover have "n \<notin> set ((cs(h := remove1 n (cs h))) g)" if "g < length (hashedpt s)" for g
    using disj [OF that, of n] c(1) rm by (auto split: if_splits)
  ultimately show thesis using that [OF c(4) fnd h1(1,2)] h1(3,4) by simp
qed

text \<open>Second half: the victim queue without the node.\<close>

lemma freeuser_queue_stage:
  assumes lf: "linked (fifos (pagetable s)) (firstvictim s) q" and qb: "set q \<subseteq> {..<length (pagetable s)}"
    and la: "lastallocateduser s = Some (last q)" and n: "n \<in> set q"
    and key: "keyof (pagetable s ! n) = (pid, v)"
      "\<And>i. i \<in> set q \<Longrightarrow> i \<noteq> n \<Longrightarrow> keyof (pagetable s ! i) \<noteq> (pid, v)"
  obtains pt2 fv where
    "bindR (freeuser_unqueue s pid v n) (\<lambda>s2. freeuser_fixlast s2 n) =
       Inr (s\<lparr>pagetable := pt2, firstvictim := fv, lastallocateduser :=
              (if remove1 n q = [] then None else Some (last (remove1 n q)))\<rparr>)"
    "map core pt2 = map core (pagetable s)" "\<forall>i. nexts pt2 i = nexts (pagetable s) i"
    "linked (fifos pt2) fv (remove1 n q)" "n \<notin> set (remove1 n q)"
proof -
  obtain as bs where q: "q = as @ n # bs" "n \<notin> set as" using n by (meson split_list_first)
  have nb: "n \<notin> set bs" using linked_distinct [OF lf] q by simp
  have rm: "remove1 n q = as @ bs" using q by (simp add: remove1_append)
  obtain pt2 fv where h2: "freeuser_unqueue s pid v n = Inr (s\<lparr>pagetable := pt2, firstvictim := fv\<rparr>)"
    "map core pt2 = map core (pagetable s)" "\<forall>i. nexts pt2 i = nexts (pagetable s) i"
    "linked (fifos pt2) fv (as @ bs)"
    using freeuser_unqueue_ok [of s as n bs pid v] lf qb q key by auto
  have "freeuser_fixlast (s\<lparr>pagetable := pt2, firstvictim := fv\<rparr>) n =
      Inr (s\<lparr>pagetable := pt2, firstvictim := fv, lastallocateduser :=
              (if as @ bs = [] then None else Some (last (as @ bs)))\<rparr>)"
    by (subst freeuser_fixlast_ok [where xs = as and ys = bs])
      (use h2(4) qb q nb la core_cong(1) [OF h2(2)] in auto)
  then have "bindR (freeuser_unqueue s pid v n) (\<lambda>s2. freeuser_fixlast s2 n) =
       Inr (s\<lparr>pagetable := pt2, firstvictim := fv, lastallocateduser :=
              (if remove1 n q = [] then None else Some (last (remove1 n q)))\<rparr>)"
    unfolding rm h2(1) by simp
  then show thesis by (rule that) (use h2 rm q nb in auto)
qed

lemma freeuser_ok:
  assumes rep: "pt_rep s cs q" and res: "resident s (pid, v) = Some n"
  shows "\<exists>s'. freeuser s pid v = Inr (0, s') \<and>
    pt_rep s' (cs(bucket (length (hashedpt s)) (pid, v) :=
                  remove1 n (cs (bucket (length (hashedpt s)) (pid, v))))) (remove1 n q) \<and>
    map core (pagetable s') = (map core (pagetable s))[n := (-1, v, 0)] \<and>
    length (hashedpt s') = length (hashedpt s)"
proof -
  let ?h = "bucket (length (hashedpt s)) (pid, v)"
  note r = pt_repD [OF rep] and fq = fifo_okD [OF pt_repD(4) [OF rep]]
  have n: "n \<in> userframes (pagetable s)" "keyof (pagetable s ! n) = (pid, v)"
    using res resident_Some_iff [OF r(2)] by auto
  then have nl: "n < length (pagetable s)" "pt_vaddr (pagetable s ! n) = v"
    by (auto simp: userframes_def keyof_def)
  obtain prec pt1 ht1 where h1: "gethashedentry s pid v = Inr (hashedpt s ! ?h)"
    "freeuser_find (length (pagetable s)) (pagetable s) pid v None (hashedpt s ! ?h) = Inr (prec, Some n)"
    "freeuser_unchain s pid v (hashedpt s ! ?h) prec n = Inr (s\<lparr>pagetable := pt1, hashedpt := ht1\<rparr>)"
    "map core pt1 = map core (pagetable s)" "\<forall>i. fifos pt1 i = fifos (pagetable s) i"
    "length ht1 = length (hashedpt s)"
    "\<forall>g < length (hashedpt s). linked (nexts pt1) (ht1 ! g) ((cs(?h := remove1 n (cs ?h))) g)"
    "\<forall>g < length (hashedpt s). n \<notin> set ((cs(?h := remove1 n (cs ?h))) g)"
    by (rule freeuser_chain_stage [OF rep res]) (rule that; assumption)
  define s1 where "s1 = s\<lparr>pagetable := pt1, hashedpt := ht1\<rparr>"
  have uq: "keyof (pt1 ! i) \<noteq> (pid, v)" if "i \<in> set q" "i \<noteq> n" for i
  proof -
    have i: "i \<in> userframes (pagetable s)" using that fq(2) by simp
    then have "keyof (pagetable s ! i) \<noteq> (pid, v)"
      using r(2) n that(2) unfolding keys_ok_def by (metis inj_onD)
    then show ?thesis using core_cong(5) [OF h1(4)] i by (simp add: userframes_def)
  qed
  have nq: "n \<in> set q" using fq(2) n by simp
  obtain pt2 fv where h2:
    "bindR (freeuser_unqueue s1 pid v n) (\<lambda>s2. freeuser_fixlast s2 n) =
       Inr (s1\<lparr>pagetable := pt2, firstvictim := fv, lastallocateduser :=
              (if remove1 n q = [] then None else Some (last (remove1 n q)))\<rparr>)"
    "map core pt2 = map core pt1" "\<forall>i. nexts pt2 i = nexts pt1 i"
    "linked (fifos pt2) fv (remove1 n q)" "n \<notin> set (remove1 n q)"
  proof (rule freeuser_queue_stage [of s1 q n pid v])
    show "linked (fifos (pagetable s1)) (firstvictim s1) q"
      unfolding s1_def by (simp, rule iffD2 [OF path_cong fq(1)]) (simp add: h1(5))
    show "set q \<subseteq> {..<length (pagetable s1)}"
      using fq(2) core_cong(1) [OF h1(4)] by (auto simp: s1_def dest: userframesD)
    show "lastallocateduser s1 = Some (last q)" using fq(3) nq by (auto simp: s1_def)
    show "keyof (pagetable s1 ! n) = (pid, v)" using core_cong(5) [OF h1(4)] nl n by (simp add: s1_def)
  qed (use nq uq that in \<open>simp_all add: s1_def\<close>)
  define s3 where "s3 = s1\<lparr>pagetable := pt2, firstvictim := fv, lastallocateduser :=
              (if remove1 n q = [] then None else Some (last (remove1 n q)))\<rparr>"
  define s' where "s' = s3\<lparr>pagetable := clearentry pt2 n\<rparr>"
  have run: "freeuser s pid v = Inr (0, s')"
  proof -
    obtain s2 where "freeuser_unqueue s1 pid v n = Inr s2" "freeuser_fixlast s2 n = Inr s3"
      using h2(1) unfolding bindR_eq_Inr s3_def by blast
    then show ?thesis using h1(1-3) by (simp add: freeuser_def s1_def s'_def s3_def)
  qed
  have n2: "n < length pt2" "pt_vaddr (pt2 ! n) = v"
    using h1(4) h2(2) nl core_cong(1,3) by (metis, metis)
  have core': "map core (pagetable s') = (map core (pagetable s))[n := (-1, v, 0)]"
    using clearentry_simps(1) [OF n2(1)] n2(2) h1(4) h2(2) by (simp add: s'_def)
  have nx: "linked (nexts (clearentry pt2 n)) (ht1 ! g) ((cs(?h := remove1 n (cs ?h))) g)"
    if "g < length (hashedpt s)" for g
    by (rule iffD2 [OF path_cong h1(7) [rule_format, OF that]])
      (use h1(8) that h2(3) clearentry_simps(2) [OF n2(1)] in metis)
  have fx: "linked (fifos (clearentry pt2 n)) fv (remove1 n q)"
    by (rule iffD2 [OF path_cong h2(4)]) (use h2(5) clearentry_simps(3) [OF n2(1)] in metis)
  have "pt_rep s' (cs(?h := remove1 n (cs ?h))) (remove1 n q)"
  proof (rule pt_rep_removeI [OF rep n core'])
    show "linked (nexts (pagetable s')) (hashedpt s' ! ?h) (remove1 n (cs ?h))"
      using nx [OF bucket_less [OF r(1)], of "(pid, v)"] by (simp add: s'_def s3_def s1_def)
    show "linked (nexts (pagetable s')) (hashedpt s' ! g) (cs g)"
      if "g < length (hashedpt s)" "g \<noteq> ?h" for g
      using nx [OF that(1)] that(2) by (simp add: s'_def s3_def s1_def)
  qed (use fx h1(6) in \<open>simp_all add: s'_def s3_def s1_def\<close>)
  with run core' h1(6) show ?thesis by (auto simp: s'_def s3_def s1_def)
qed

subsection \<open>Lookup\<close>

lemma getpageaddr_rep:
  assumes rep: "pt_rep s cs q"
  shows "getpageaddr s pid v =
    Inr (case resident s (pid, v) of None \<Rightarrow> 0 | Some i \<Rightarrow> word_of_nat i * word_of_nat PAGE_SIZE)"
proof -
  note r = pt_repD [OF rep]
  let ?h = "bucket (length (hashedpt s)) (pid, v)"
  have hl: "?h < length (hashedpt s)" using r(1) by (rule bucket_less)
  note c = chains_okD [OF r(3) hl]
  have b: "\<forall>i \<in> set (cs ?h). i < length (pagetable s)" using c(2) by (auto dest: userframesD)
  have key: "i \<in> set (cs ?h) \<and> keyof (pagetable s ! i) = (pid, v) \<longleftrightarrow>
      i \<in> userframes (pagetable s) \<and> keyof (pagetable s ! i) = (pid, v)" for i
    by (cases "keyof (pagetable s ! i) = (pid, v)") (simp_all add: c(2))
  have "find (\<lambda>i. keyof (pagetable s ! i) = (pid, v)) (cs ?h) = Some i \<longleftrightarrow> resident s (pid, v) = Some i" for i
    unfolding resident_Some_iff [OF r(2)] key [symmetric]
    by (rule find_unique_iff) (use r(2) key in \<open>metis inj_onD keys_ok_def\<close>)
  then have f: "find (\<lambda>i. keyof (pagetable s ! i) = (pid, v)) (cs ?h) = resident s (pid, v)"
    by (metis not_Some_eq)
  have g: "gethashedentry s pid v = Inr (hashedpt s ! ?h)"
    using r(1) by (simp add: gethashedentry_def bucket_def)
  show ?thesis
  proof (cases "hashedpt s ! ?h")
    case None
    then show ?thesis using c(1) f [symmetric] g by (simp add: getpageaddr_def)
  next
    case (Some x)
    then show ?thesis
      using g getpageaddr_loop_linked [OF c(1,3) b] f by (simp add: getpageaddr_def)
  qed
qed

subsection \<open>Blocks of frames\<close>

lemma frames_okD:
  assumes "frames_ok pt" "h < length pt" "pt_pid (pt ! h) \<noteq> -1"
  shows "0 < pt_numpages (pt ! h)" "h + pt_numpages (pt ! h) \<le> length pt"
    and "0 < pt_pid (pt ! h) \<Longrightarrow> pt_numpages (pt ! h) = 1"
    and "h < j \<Longrightarrow> j < h + pt_numpages (pt ! h) \<Longrightarrow> pt_pid (pt ! j) = -1"
  using assms unfolding frames_ok_def by blast+

lemma not_occupied_free: "frames_ok pt \<Longrightarrow> i < length pt \<Longrightarrow> \<not> occupied pt i \<Longrightarrow> pt_pid (pt ! i) = -1"
  using frames_okD(1) [of pt i] unfolding occupied_def by (metis le_refl less_add_same_cancel1)

lemma block_unique:
  assumes "frames_ok pt" "h < length pt" "pt_pid (pt ! h) \<noteq> -1" "h \<le> j" "j < h + pt_numpages (pt ! h)"
    and "h' < length pt" "pt_pid (pt ! h') \<noteq> -1" "h' \<le> j" "j < h' + pt_numpages (pt ! h')"
  shows "h' = h"
  using frames_okD(4) [OF assms(1-3), of h'] frames_okD(4) [OF assms(1,6,7), of h] assms(3-5,7-9)
  by (cases h h' rule: linorder_cases) auto

lemma frames_ok_set:
  assumes ok: "frames_ok pt" and core: "map core pt' = (map core pt)[i := (p, v, n)]"
    and n: "0 < n" "i + n \<le> length pt" and p: "p \<noteq> -1" "0 < p \<longrightarrow> n = 1"
    and free: "\<And>j. i \<le> j \<Longrightarrow> j < i + n \<Longrightarrow> \<not> occupied pt j"
  shows "frames_ok pt'" and "occupied pt' j \<longleftrightarrow> occupied pt j \<or> i \<le> j \<and> j < i + n"
proof -
  have i: "i < length pt" using n by simp
  note c = core_upd [OF core i]
  have pid: "pt_pid (pt ! j) = -1" if "i \<le> j" "j < i + n" for j
    using not_occupied_free [OF ok _ free [OF that]] that n by simp
  have apart: "\<not> (h < i \<and> i < h + pt_numpages (pt ! h))" if "h < length pt" "pt_pid (pt ! h) \<noteq> -1" for h
    using free [of i] n that unfolding occupied_def by (metis le_refl less_add_same_cancel1 less_imp_le)
  show "frames_ok pt'" unfolding frames_ok_def c(1)
  proof (intro allI impI)
    fix h assume h: "h < length pt" "pt_pid (pt' ! h) \<noteq> -1"
    show "0 < pt_numpages (pt' ! h) \<and> h + pt_numpages (pt' ! h) \<le> length pt \<and>
        (0 < pt_pid (pt' ! h) \<longrightarrow> pt_numpages (pt' ! h) = 1) \<and>
        (\<forall>j. h < j \<and> j < h + pt_numpages (pt' ! h) \<longrightarrow> pt_pid (pt' ! j) = -1)"
    proof (cases "h = i")
      case True
      then show ?thesis using c(2,4) h(1) n p pid by auto
    next
      case False
      then have h': "pt_pid (pt ! h) \<noteq> -1" using c(2) h by simp
      note f = frames_okD [OF ok h(1) h']
      have "pt_pid (pt' ! j) = -1" if "h < j" "j < h + pt_numpages (pt ! h)" for j
        using f(2) f(4) [OF that] that c(2) [of j] apart [OF h(1) h'] by auto
      then show ?thesis using False c(2,4) [OF h(1)] f(1-3) by simp
    qed
  qed
  have "h < length pt \<and> pt_pid (pt' ! h) \<noteq> -1 \<and> j < h + pt_numpages (pt' ! h) \<longleftrightarrow>
      h < length pt \<and> pt_pid (pt ! h) \<noteq> -1 \<and> j < h + pt_numpages (pt ! h) \<or> h = i \<and> j < i + n" for h
    using c(2,4) [of h] i p(1) pid [of i] n(1) by (cases "h = i") auto
  then show "occupied pt' j \<longleftrightarrow> occupied pt j \<or> i \<le> j \<and> j < i + n"
    unfolding occupied_def c(1) by blast
qed

lemma frames_ok_clear:
  assumes ok: "frames_ok pt" and core: "map core pt' = (map core pt)[i := (-1, v, 0)]"
    and i: "i < length pt" "pt_pid (pt ! i) \<noteq> -1"
  shows "frames_ok pt'"
    and "occupied pt' j \<longleftrightarrow> occupied pt j \<and> \<not> (i \<le> j \<and> j < i + pt_numpages (pt ! i))"
proof -
  note c = core_upd [OF core i(1)]
  show "frames_ok pt'" unfolding frames_ok_def c(1)
  proof (intro allI impI)
    fix h assume h: "h < length pt" "pt_pid (pt' ! h) \<noteq> -1"
    then have h': "h \<noteq> i" "pt_pid (pt ! h) \<noteq> -1" using c(2) [OF h(1)] by (auto split: if_splits)
    note f = frames_okD [OF ok h(1) h'(2)]
    have "pt_pid (pt' ! j) = -1" if "h < j" "j < h + pt_numpages (pt ! h)" for j
      using f(2) f(4) [OF that] that c(2) [of j] by auto
    then show "0 < pt_numpages (pt' ! h) \<and> h + pt_numpages (pt' ! h) \<le> length pt \<and>
        (0 < pt_pid (pt' ! h) \<longrightarrow> pt_numpages (pt' ! h) = 1) \<and>
        (\<forall>j. h < j \<and> j < h + pt_numpages (pt' ! h) \<longrightarrow> pt_pid (pt' ! j) = -1)"
      using h' c(2,4) [OF h(1)] f(1-3) by simp
  qed
  have "h < length pt \<and> pt_pid (pt' ! h) \<noteq> -1 \<and> j < h + pt_numpages (pt' ! h) \<longleftrightarrow>
      h \<noteq> i \<and> h < length pt \<and> pt_pid (pt ! h) \<noteq> -1 \<and> j < h + pt_numpages (pt ! h)" for h
    using c(2,4) [of h] by (cases "h = i") auto
  then show "occupied pt' j \<longleftrightarrow> occupied pt j \<and> \<not> (i \<le> j \<and> j < i + pt_numpages (pt ! i))"
    unfolding occupied_def c(1) using block_unique [OF ok i] i by blast
qed

subsection \<open>The search for free frames\<close>

text \<open>\<open>fits pt n k\<close>: the \<open>n\<close> frames from \<open>k\<close> exist and none of them is allocated.\<close>

definition fits :: "ptpage list \<Rightarrow> nat \<Rightarrow> nat \<Rightarrow> bool" where
  "fits pt n k \<longleftrightarrow> k + n \<le> length pt \<and> (\<forall>j \<in> {k..<k + n}. \<not> occupied pt j)"

lemma getfreeframes_run_iff:
  "i \<le> j \<Longrightarrow> getfreeframes_run pt n i j \<longleftrightarrow>
     j < i + n \<and> i + n \<le> length pt \<and> (\<forall>k \<in> {j..<i + n}. pt_pid (pt ! k) = -1)"
proof (induction pt n i j rule: getfreeframes_run.induct)
  case (1 pt n i j)
  note unf = getfreeframes_run.simps [of pt n i j]
  show ?case
  proof (cases "j < length pt \<and> pt_pid (pt ! j) = -1 \<and> j - i + 1 \<noteq> n")
    case True
    then have "{j..<i + n} = insert j {Suc j..<i + n}" if "j < i + n" using that by auto
    then show ?thesis using True 1 unf by (auto simp: less_Suc_eq_le)
  next
    case False
    then consider "length pt \<le> j" | "j < length pt" "pt_pid (pt ! j) \<noteq> -1"
      | "j < length pt" "pt_pid (pt ! j) = -1" "j - i + 1 = n" by fastforce
    then show ?thesis
    proof cases
      case 3
      then have "i + n = Suc j" using 1(2) by simp
      then have "{j..<i + n} = {j}" by auto
      then show ?thesis using 3 unf \<open>i + n = Suc j\<close> by simp
    qed (use 1(2) unf in auto)
  qed
qed

text \<open>No allocated block extends over position \<open>i\<close> from the left.\<close>

definition boundary :: "ptpage list \<Rightarrow> nat \<Rightarrow> bool" where
  "boundary pt i \<longleftrightarrow> (\<forall>h < i. h < length pt \<and> pt_pid (pt ! h) \<noteq> -1 \<longrightarrow> h + pt_numpages (pt ! h) \<le> i)"

lemma boundary_not_occupied:
  assumes "boundary pt i" "i \<le> j" "\<And>k. i \<le> k \<Longrightarrow> k \<le> j \<Longrightarrow> pt_pid (pt ! k) = -1"
  shows "\<not> occupied pt j"
proof
  assume "occupied pt j"
  then obtain h where h: "h \<le> j" "h < length pt" "pt_pid (pt ! h) \<noteq> -1" "j < h + pt_numpages (pt ! h)"
    unfolding occupied_def by blast
  then have "h < i" using assms(3) by (meson not_le)
  then have "h + pt_numpages (pt ! h) \<le> i" using assms(1) h unfolding boundary_def by blast
  with h(4) assms(2) show False by simp
qed

lemma boundary_run:
  assumes "frames_ok pt" "boundary pt i" "0 < n"
  shows "getfreeframes_run pt n i i \<longleftrightarrow> fits pt n i"
proof
  assume "getfreeframes_run pt n i i"
  then have r: "i + n \<le> length pt" "\<forall>k \<in> {i..<i + n}. pt_pid (pt ! k) = -1"
    by (simp_all add: getfreeframes_run_iff)
  then show "fits pt n i" unfolding fits_def using boundary_not_occupied [OF assms(2)] by auto
next
  assume "fits pt n i"
  then show "getfreeframes_run pt n i i"
    using not_occupied_free [OF assms(1)] assms(3) by (auto simp: getfreeframes_run_iff fits_def)
qed

text \<open>First fit at or after \<open>i\<close>, with \<open>-1\<close> for none.\<close>

definition first_fit :: "ptpage list \<Rightarrow> nat \<Rightarrow> nat \<Rightarrow> int \<Rightarrow> bool" where
  "first_fit pt n i r \<longleftrightarrow>
     (\<exists>k \<ge> i. r = int k \<and> fits pt n k \<and> (\<forall>k' \<ge> i. k' < k \<longrightarrow> \<not> fits pt n k'))
     \<or> r = -1 \<and> (\<forall>k \<ge> i. \<not> fits pt n k)"

lemma first_fit_skip:
  assumes "first_fit pt n m r" "i \<le> m" "\<And>k. i \<le> k \<Longrightarrow> k < m \<Longrightarrow> \<not> fits pt n k"
  shows "first_fit pt n i r"
proof (cases "r = -1 \<and> (\<forall>k \<ge> m. \<not> fits pt n k)")
  case True
  then have "\<not> fits pt n k" if "i \<le> k" for k using assms(3) [OF that] by (cases "k < m") auto
  with True show ?thesis by (simp add: first_fit_def)
next
  case False
  then obtain k where k: "m \<le> k" "r = int k" "fits pt n k" "\<forall>k' \<ge> m. k' < k \<longrightarrow> \<not> fits pt n k'"
    using assms(1) unfolding first_fit_def by blast
  then have "\<not> fits pt n k'" if "i \<le> k'" "k' < k" for k' using that assms(3) by (cases "k' < m") auto
  with k assms(2) show ?thesis unfolding first_fit_def by (intro disjI1 exI [of _ k]) auto
qed

lemma getfreeframes_from_spec:
  assumes "frames_ok pt" "boundary pt i" "0 < n"
  shows "first_fit pt n i (getfreeframes_from pt n i)"
  using assms
proof (induction pt n i rule: getfreeframes_from.induct)
  case (1 pt n i)
  note unf = getfreeframes_from.simps [of pt n i]
  consider (out) "length pt \<le> i" | (hit) "i < length pt" "pt_pid (pt ! i) = -1" "getfreeframes_run pt n i i"
    | (miss) "i < length pt" "pt_pid (pt ! i) = -1" "\<not> getfreeframes_run pt n i i"
    | (block) "i < length pt" "pt_pid (pt ! i) \<noteq> -1" by linarith
  then show ?case
  proof cases
    case out
    then show ?thesis using unf 1(6) by (auto simp: first_fit_def fits_def)
  next
    case hit
    then show ?thesis using unf boundary_run [OF 1(4-6)] by (auto simp: first_fit_def)
  next
    case miss
    have "boundary pt (Suc i)" using 1(5) miss(2) by (auto simp: boundary_def less_Suc_eq intro: le_SucI)
    with 1(1) [OF miss 1(4) _ 1(6)] have "first_fit pt n (Suc i) (getfreeframes_from pt n i)"
      using unf miss by simp
    then show ?thesis by (rule first_fit_skip) (use miss(3) boundary_run [OF 1(4-6)] in \<open>auto simp: less_Suc_eq\<close>)
  next
    case block
    note f = frames_okD [OF 1(4) block]
    let ?m = "i + pt_numpages (pt ! i)"
    have b: "boundary pt ?m"
      using 1(5) f(1,4) unfolding boundary_def
      by (metis le_add1 le_trans linorder_neqE_nat order_refl)
    have occ: "\<not> fits pt n k" if "i \<le> k" "k < ?m" for k
    proof -
      have "occupied pt k" unfolding occupied_def using that block by blast
      then show ?thesis using 1(6) by (auto simp: fits_def)
    qed
    have m: "Suc (i + (pt_numpages (pt ! i) - 1)) = ?m" using f(1) by simp
    have "first_fit pt n ?m (getfreeframes_from pt n i)"
      using 1(2) [OF block f(1) 1(4) _ 1(6)] b unf block f(1) unfolding m by simp
    then show ?thesis by (rule first_fit_skip) (use occ in auto)
  qed
qed

lemma getfreeframes_spec:
  assumes "frames_ok (pagetable s)" "0 < n"
  shows "first_fit (pagetable s) n 0 (getfreeframes s n)"
  using getfreeframes_from_spec [OF assms(1) _ assms(2), of 0]
  by (simp add: getfreeframes_def boundary_def)

end
