(* ===== verification/Page_Table.thy ===== *)
theory Page_Table
  imports Pt
begin

text \<open>
  The contract of \<^verbatim>\<open>kern/vm/pt.c\<close> towards its client \<^verbatim>\<open>kern/vm/coremap.c\<close>. Under the
  invariant \<open>pt_inv\<close> the linked structure is a finite map from page keys to frames
  (\<open>resident\<close>), a FIFO queue of frames (\<open>victims\<close>) and a set of frames in use
  (\<open>occupied\<close>), and every operation acts on these three in the obvious way. The locale
  \<open>frame_table\<close> states the contract; \<open>pt\<close> is its interpretation on the model of the code.
\<close>

section \<open>The operations under the invariant\<close>

definition inuse :: "ptstate \<Rightarrow> nat set" where
  "inuse s = {j. j < length (pagetable s) \<and> occupied (pagetable s) j}"

lemma pt_invE:
  assumes "pt_inv s"
  obtains cs q where "pt_rep s cs q" "victims s = q" "frames_ok (pagetable s)"
    "length (pagetable s) \<le> 2 ^ 20" "0 < length (pagetable s)" "pt_pid (pagetable s ! 0) = 0"
  using assms victims_rep unfolding pt_inv_def by blast

lemma frame0_occupied: "pt_inv s \<Longrightarrow> occupied (pagetable s) 0"
  by (elim pt_invE) (auto simp: occupied_def dest: frames_okD(1))

lemma fitsD: "fits pt n i \<Longrightarrow> i \<le> j \<Longrightarrow> j < i + n \<Longrightarrow> \<not> occupied pt j"
  by (simp add: fits_def)

lemma fits_frame:
  assumes "fits pt 1 i"
  shows "i < length pt" "\<not> occupied pt i"
  using assms by (auto simp: fits_def)

lemma fits_frame_nonzero: "pt_inv s \<Longrightarrow> fits (pagetable s) n i \<Longrightarrow> 0 < n \<Longrightarrow> 0 < i"
  using frame0_occupied [of s] by (cases i) (auto simp: fits_def)

lemma fits_not_user: "frames_ok pt \<Longrightarrow> fits pt n i \<Longrightarrow> 0 < n \<Longrightarrow> i \<notin> userframes pt"
  using not_occupied_free by (force simp: fits_def userframes_def)

lemma resident_upd:
  assumes "keys_ok (pagetable s)" "keys_ok (pagetable s')" "i < length (pagetable s)"
    and "map core (pagetable s') = (map core (pagetable s))[i := (pid, v, n)]"
  shows "0 < pid \<Longrightarrow> i \<notin> userframes (pagetable s) \<Longrightarrow> resident s' = (resident s)((pid, v) \<mapsto> i)"
    and "pid \<le> 0 \<Longrightarrow> i \<in> userframes (pagetable s) \<Longrightarrow>
      resident s' = (resident s)(keyof (pagetable s ! i) := None)"
    and "pid \<le> 0 \<Longrightarrow> i \<notin> userframes (pagetable s) \<Longrightarrow> resident s' = resident s"
proof -
  note c = core_upd [OF assms(4,3)] and u = userframes_upd [OF assms(4,3)]
  have key: "keyof (pagetable s' ! j) = (if j = i then (pid, v) else keyof (pagetable s ! j))"
    if "j \<in> userframes (pagetable s)" for j using c(5) that by (simp add: userframes_def)
  have ki: "keyof (pagetable s' ! i) = (pid, v)" using c(5) assms(3) by simp
  note R = resident_Some_iff [OF assms(1)] and inj = assms(1,2) [unfolded keys_ok_def inj_on_def]
  show "resident s' = (resident s)((pid, v) \<mapsto> i)" if "0 < pid" "i \<notin> userframes (pagetable s)"
  proof (rule resident_ext [OF assms(2)])
    fix k j
    have u': "userframes (pagetable s') = insert i (userframes (pagetable s))" using u that by simp
    have "keyof (pagetable s ! j) \<noteq> (pid, v)" if "j \<in> userframes (pagetable s)"
      using inj(2) u' key [OF that] ki that \<open>i \<notin> userframes (pagetable s)\<close> by (metis insertCI)
    then show "((resident s)((pid, v) \<mapsto> i)) k = Some j \<longleftrightarrow>
        j \<in> userframes (pagetable s') \<and> keyof (pagetable s' ! j) = k"
      using R key ki that u' by (auto split: if_splits)
  qed
  show "resident s' = (resident s)(keyof (pagetable s ! i) := None)"
    if "pid \<le> 0" "i \<in> userframes (pagetable s)"
  proof (rule resident_ext [OF assms(2)])
    fix k j
    have "userframes (pagetable s') = userframes (pagetable s) - {i}" using u that by simp
    moreover have "j = i" if "j \<in> userframes (pagetable s)" "keyof (pagetable s ! j) = keyof (pagetable s ! i)"
      using inj(1) that \<open>i \<in> userframes (pagetable s)\<close> by blast
    ultimately show "((resident s)(keyof (pagetable s ! i) := None)) k = Some j \<longleftrightarrow>
        j \<in> userframes (pagetable s') \<and> keyof (pagetable s' ! j) = k"
      using R key by auto
  qed
  show "resident s' = resident s" if "pid \<le> 0" "i \<notin> userframes (pagetable s)"
  proof (rule resident_ext [OF assms(2)])
    fix k j
    have "userframes (pagetable s') = userframes (pagetable s)" using u that by simp
    then show "resident s k = Some j \<longleftrightarrow> j \<in> userframes (pagetable s') \<and> keyof (pagetable s' ! j) = k"
      using R key that by auto
  qed
qed

text \<open>Entering a user page at a free frame.\<close>

lemma setptentry_user_inv:
  assumes inv: "pt_inv s" and fit: "fits (pagetable s) 1 i" and pid: "0 < pid"
    and new: "resident s (pid, v) = None"
  obtains s' where "setptentry s i 1 pid v = Inr s'" "pt_inv s'"
    "resident s' = (resident s)((pid, v) \<mapsto> i)" "victims s' = victims s @ [i]"
    "inuse s' = insert i (inuse s)" "length (pagetable s') = length (pagetable s)"
proof -
  obtain cs q where I: "pt_rep s cs q" "victims s = q" "frames_ok (pagetable s)"
    "length (pagetable s) \<le> 2 ^ 20" "0 < length (pagetable s)" "pt_pid (pagetable s ! 0) = 0"
    using inv by (rule pt_invE)
  have i: "i < length (pagetable s)" "i \<notin> userframes (pagetable s)" "0 < i"
    using fits_frame(1) [OF fit] fits_not_user [OF I(3) fit] fits_frame_nonzero [OF inv fit] by simp_all
  obtain s' cs' where s': "setptentry s i 1 pid v = Inr s'" "pt_rep s' cs' (q @ [i])"
    "map core (pagetable s') = (map core (pagetable s))[i := (pid, v, 1)]"
    using setptentry_user_ok [OF I(1) i(1,2) pid new] by blast
  note c = core_upd [OF s'(3) i(1)]
  note fs = frames_ok_set [OF I(3) s'(3) _ _ _ _ fitsD [OF fit]]
  have f': "frames_ok (pagetable s')" and o': "occupied (pagetable s') j \<longleftrightarrow> occupied (pagetable s) j \<or> j = i" for j
    using fs i(1) pid by auto
  have "pt_inv s'" unfolding pt_inv_def using s'(2) f' c(1,2) I(4-6) i(3) by auto
  moreover have "resident s' = (resident s)((pid, v) \<mapsto> i)"
    by (rule resident_upd(1) [OF pt_repD(2) [OF I(1)] pt_repD(2) [OF s'(2)] i(1) s'(3) pid i(2)])
  moreover have "victims s' = victims s @ [i]" using victims_rep [OF s'(2)] I(2) by simp
  moreover have "inuse s' = insert i (inuse s)" unfolding inuse_def c(1) o' using i(1) by auto
  ultimately show thesis using that s'(1) c(1) by blast
qed

text \<open>An entry that is not a user page is not linked, so it can change without effect on the lists.\<close>

lemma pt_rep_nonuser_upd:
  assumes rep: "pt_rep s cs q" and i: "i < length (pagetable s)" "i \<notin> userframes (pagetable s)"
    and p: "pt_pid e \<le> 0"
  shows "pt_rep (s\<lparr>pagetable := (pagetable s)[i := e]\<rparr>) cs q"
proof -
  let ?pt = "(pagetable s)[i := e]"
  note r = pt_repD [OF rep]
  have uf: "userframes ?pt = userframes (pagetable s)"
    using i p by (auto simp: userframes_def nth_list_update)
  have k: "keyof (?pt ! j) = keyof (pagetable s ! j)" "nexts ?pt j = nexts (pagetable s) j"
    "fifos ?pt j = fifos (pagetable s) j" if "j \<in> userframes (pagetable s)" for j
    using that i by (metis nexts_def fifos_def nth_list_update_neq)+
  have lk: "linked (nexts ?pt) p xs = linked (nexts (pagetable s)) p xs"
    "linked (fifos ?pt) p xs = linked (fifos (pagetable s)) p xs"
    if "set xs \<subseteq> userframes (pagetable s)" for p xs
    using that k by (auto intro!: path_cong)
  have sub: "set (cs h) \<subseteq> userframes (pagetable s)" if "h < length (hashedpt s)" for h
    using chains_okD(2) [OF r(3) that] by blast
  have "keys_ok ?pt" using r(2) k(1) unfolding keys_ok_def uf by (auto simp: inj_on_def)
  moreover have "chains_ok ?pt (hashedpt s) cs"
    unfolding chains_ok_def uf
  proof (intro allI impI conjI)
    fix h assume h: "h < length (hashedpt s)"
    show "linked (nexts ?pt) (hashedpt s ! h) (cs h)" using lk(1) [OF sub [OF h]] chains_okD(1) [OF r(3) h] by simp
    show "set (cs h) = {i \<in> userframes (pagetable s). bucket (length (hashedpt s)) (keyof (?pt ! i)) = h}"
      using chains_okD(2) [OF r(3) h] k(1) by auto
  qed
  moreover have "fifo_ok ?pt (firstvictim s) (lastallocateduser s) q"
    using r(4) lk(2) unfolding fifo_ok_def uf by auto
  ultimately show ?thesis using r(1) by (simp add: pt_rep_def)
qed

text \<open>Entering a kernel block: the links and the map stay as they are.\<close>

lemma setptentry_kernel_inv:
  assumes inv: "pt_inv s" and fit: "fits (pagetable s) n i" and n: "0 < n"
  obtains s' where "setptentry s i n 0 v = Inr s'" "pt_inv s'" "resident s' = resident s"
    "victims s' = victims s" "inuse s' = inuse s \<union> {i..<i + n}"
    "length (pagetable s') = length (pagetable s)"
    "pt_pid (pagetable s' ! i) = 0" "pt_numpages (pagetable s' ! i) = n"
proof -
  obtain cs q where I: "pt_rep s cs q" "victims s = q" "frames_ok (pagetable s)"
    "length (pagetable s) \<le> 2 ^ 20" "0 < length (pagetable s)" "pt_pid (pagetable s ! 0) = 0"
    using inv by (rule pt_invE)
  have fl: "i + n \<le> length (pagetable s)" using fit by (simp add: fits_def)
  have i: "i < length (pagetable s)" "i \<notin> userframes (pagetable s)"
    using fl n fits_not_user [OF I(3) fit n] by simp_all
  define s' where "s' = s\<lparr>pagetable := (pagetable s)[i := \<lparr>pt_pid = 0, pt_vaddr = v, pt_numpages = n,
                        pt_fifonext = None, pt_next = None\<rparr>]\<rparr>"
  have run: "setptentry s i n 0 v = Inr s'" using i by (simp add: setptentry_def s'_def)
  have core: "map core (pagetable s') = (map core (pagetable s))[i := (0, v, n)]"
    by (simp add: s'_def map_update)
  note c = core_upd [OF core i(1)]
  have f': "frames_ok (pagetable s')"
    and o': "occupied (pagetable s') j \<longleftrightarrow> occupied (pagetable s) j \<or> i \<le> j \<and> j < i + n" for j
    using frames_ok_set [OF I(3) core n fl _ _ fitsD [OF fit]] by auto
  have r': "pt_rep s' cs q" unfolding s'_def by (rule pt_rep_nonuser_upd [OF I(1) i]) simp
  have "pt_inv s'" unfolding pt_inv_def using r' f' c(1,2) I(4-6) by auto
  moreover have "resident s' = resident s"
    by (rule resident_upd(3) [OF pt_repD(2) [OF I(1)] pt_repD(2) [OF r'] i(1) core]) (use i in simp_all)
  moreover have "inuse s' = inuse s \<union> {i..<i + n}" unfolding inuse_def c(1) o' using fl by auto
  ultimately show thesis using that [OF run] victims_rep [OF r'] I(2) c i(1) by simp
qed

text \<open>Releasing a user page, and a kernel block.\<close>

lemma freeuser_inv:
  assumes inv: "pt_inv s" and res: "resident s (pid, v) = Some i"
  obtains s' where "freeuser s pid v = Inr (0, s')" "pt_inv s'"
    "resident s' = (resident s)((pid, v) := None)" "victims s' = remove1 i (victims s)"
    "inuse s' = inuse s - {i}" "length (pagetable s') = length (pagetable s)"
proof -
  obtain cs q where I: "pt_rep s cs q" "victims s = q" "frames_ok (pagetable s)"
    "length (pagetable s) \<le> 2 ^ 20" "0 < length (pagetable s)" "pt_pid (pagetable s ! 0) = 0"
    using inv by (rule pt_invE)
  have n: "i \<in> userframes (pagetable s)" "keyof (pagetable s ! i) = (pid, v)"
    using res resident_Some_iff [OF pt_repD(2) [OF I(1)]] by auto
  then have i: "i < length (pagetable s)" "0 < pt_pid (pagetable s ! i)" by (auto simp: userframes_def)
  then have i0: "i \<noteq> 0" using I(6) by (metis less_irrefl)
  obtain s' cs' where s': "freeuser s pid v = Inr (0, s')" "pt_rep s' cs' (remove1 i q)"
    "map core (pagetable s') = (map core (pagetable s))[i := (-1, v, 0)]"
    using freeuser_ok [OF I(1) res] by blast
  note c = core_upd [OF s'(3) i(1)]
  have "pt_numpages (pagetable s ! i) = 1" using frames_okD(3) [OF I(3) i(1)] i(2) by simp
  then have f': "frames_ok (pagetable s')"
    and o': "occupied (pagetable s') j \<longleftrightarrow> occupied (pagetable s) j \<and> j \<noteq> i" for j
    using frames_ok_clear [OF I(3) s'(3) i(1)] i(2) by (simp_all, linarith)
  have "pt_inv s'" unfolding pt_inv_def using s'(2) f' c(1,2) I(4-6) i0 by auto
  moreover have "resident s' = (resident s)((pid, v) := None)"
    using resident_upd(2) [OF pt_repD(2) [OF I(1)] pt_repD(2) [OF s'(2)] i(1) s'(3) _ n(1)] n(2) by simp
  moreover have "inuse s' = inuse s - {i}" unfolding inuse_def c(1) o' by auto
  ultimately show thesis using that [OF s'(1)] victims_rep [OF s'(2)] I(2) c(1) by simp
qed

lemma freekernel_inv:
  assumes inv: "pt_inv s" and i: "0 < i" "i < length (pagetable s)" "pt_pid (pagetable s ! i) = 0"
  obtains s' where "freekernel s i = Inr s'" "pt_inv s'" "resident s' = resident s"
    "victims s' = victims s" "inuse s' = inuse s - {i..<i + pt_numpages (pagetable s ! i)}"
proof -
  obtain cs q where I: "pt_rep s cs q" "victims s = q" "frames_ok (pagetable s)"
    "length (pagetable s) \<le> 2 ^ 20" "0 < length (pagetable s)" "pt_pid (pagetable s ! 0) = 0"
    using inv by (rule pt_invE)
  have nu: "i \<notin> userframes (pagetable s)" using i by (simp add: userframes_def)
  define s' where "s' = s\<lparr>pagetable := clearentry (pagetable s) i\<rparr>"
  have run: "freekernel s i = Inr s'" using i by (simp add: freekernel_def s'_def)
  have core: "map core (pagetable s') = (map core (pagetable s))[i := (-1, pt_vaddr (pagetable s ! i), 0)]"
    using clearentry_simps(1) [OF i(2)] by (simp add: s'_def)
  note c = core_upd [OF core i(2)]
  have f': "frames_ok (pagetable s')" and o': "occupied (pagetable s') j \<longleftrightarrow> occupied (pagetable s) j \<and>
      \<not> (i \<le> j \<and> j < i + pt_numpages (pagetable s ! i))" for j
    using frames_ok_clear [OF I(3) core i(2)] i(3) by auto
  have r': "pt_rep s' cs q"
    unfolding s'_def clearentry_def by (rule pt_rep_nonuser_upd [OF I(1) i(2) nu]) simp
  have "pt_inv s'" unfolding pt_inv_def using r' f' c(1,2) I(4-6) i(1) by auto
  moreover have "resident s' = resident s"
    by (rule resident_upd(3) [OF pt_repD(2) [OF I(1)] pt_repD(2) [OF r'] i(2) core]) (use nu in simp_all)
  moreover have "inuse s' = inuse s - {i..<i + pt_numpages (pagetable s ! i)}"
    unfolding inuse_def c(1) o' by auto
  ultimately show thesis using that [OF run] victims_rep [OF r'] I(2) by simp
qed

lemma getpageaddr_inv:
  assumes "pt_inv s"
  shows "getpageaddr s pid v =
    Inr (case resident s (pid, v) of None \<Rightarrow> 0 | Some i \<Rightarrow> word_of_nat i * word_of_nat PAGE_SIZE)"
  using assms by (elim pt_invE) (rule getpageaddr_rep)


text \<open>The head of the victim queue with its key, as \<^verbatim>\<open>coremap.c\<close> reads it.\<close>

definition victim :: "ptstate \<Rightarrow> (nat \<times> pagekey) option" where
  "victim s = map_option (\<lambda>f. (f, keyof (pagetable s ! f))) (firstvictim s)"

lemma victims_resident:
  assumes "pt_inv s"
  shows "distinct (victims s)" "i \<in> set (victims s) \<longleftrightarrow> (\<exists>k. resident s k = Some i)"
    and "resident s k = Some i \<Longrightarrow> resident s k' = Some i \<Longrightarrow> k' = k"
    and "resident s k = Some i \<Longrightarrow> 0 < fst k \<and> 0 < i \<and> i < length (pagetable s) \<and> i \<in> inuse s"
proof -
  obtain cs q where I: "pt_rep s cs q" "victims s = q" "frames_ok (pagetable s)"
    "pt_pid (pagetable s ! 0) = 0"
    using assms by (elim pt_invE)
  note R = resident_Some_iff [OF pt_repD(2) [OF I(1)]] and fq = fifo_okD [OF pt_repD(4) [OF I(1)]]
  show "distinct (victims s)" using fq(4) I(2) by simp
  show "i \<in> set (victims s) \<longleftrightarrow> (\<exists>k. resident s k = Some i)"
    unfolding I(2) fq(2) R by blast
  show "resident s k = Some i \<Longrightarrow> resident s k' = Some i \<Longrightarrow> k' = k" by (simp add: R)
  assume "resident s k = Some i"
  then have i: "i < length (pagetable s)" "0 < pt_pid (pagetable s ! i)" "fst k = pt_pid (pagetable s ! i)"
    by (auto simp: R userframes_def keyof_def)
  moreover from i have "occupied (pagetable s) i"
    using frames_okD(1) [OF I(3) i(1)] unfolding occupied_def by force
  moreover have "i \<noteq> 0" using i I(4) by (metis less_irrefl)
  ultimately show "0 < fst k \<and> 0 < i \<and> i < length (pagetable s) \<and> i \<in> inuse s"
    by (simp add: inuse_def)
qed

lemma victim_iff:
  assumes "pt_inv s"
  shows "victim s = None \<longleftrightarrow> victims s = []"
    and "victim s = Some (f, k) \<longleftrightarrow> (\<exists>q. victims s = f # q \<and> resident s k = Some f)"
proof -
  obtain cs q where I: "pt_rep s cs q" "victims s = q"
    using assms by (elim pt_invE)
  note R = resident_Some_iff [OF pt_repD(2) [OF I(1)]] and fq = fifo_okD [OF pt_repD(4) [OF I(1)]]
  show "victim s = None \<longleftrightarrow> victims s = []"
    using fq(1) I(2) by (cases q) (auto simp: victim_def)
  show "victim s = Some (f, k) \<longleftrightarrow> (\<exists>q. victims s = f # q \<and> resident s k = Some f)"
    using fq(1,2) I(2) by (cases q) (auto simp: victim_def R)
qed

section \<open>The contract\<close>

text \<open>
  What a client may rely on: \<open>mapping\<close> is the abstract page map, \<open>queue\<close> the order of
  replacement, \<open>used\<close> the frames in use; \<open>enter\<close> puts a user page into a frame, \<open>release\<close>
  removes it, \<open>seek\<close> finds an unused frame.
\<close>

locale frame_table =
  fixes inv :: "'s \<Rightarrow> bool"
    and mapping :: "'s \<Rightarrow> pagekey \<Rightarrow> nat option"
    and queue :: "'s \<Rightarrow> nat list"
    and used :: "'s \<Rightarrow> nat set"
    and frames :: "'s \<Rightarrow> nat"
    and enter :: "'s \<Rightarrow> nat \<Rightarrow> pid_t \<Rightarrow> vaddr_t \<Rightarrow> 's res"
    and release :: "'s \<Rightarrow> pid_t \<Rightarrow> vaddr_t \<Rightarrow> (int \<times> 's) res"
    and seek :: "'s \<Rightarrow> int"
    and head :: "'s \<Rightarrow> (nat \<times> pagekey) option"
  assumes enter_ok: "\<lbrakk>inv s; i < frames s; i \<notin> used s; 0 < pid; mapping s (pid, v) = None\<rbrakk> \<Longrightarrow>
      \<exists>s'. enter s i pid v = Inr s' \<and> inv s' \<and> mapping s' = (mapping s)((pid, v) \<mapsto> i) \<and>
        queue s' = queue s @ [i] \<and> used s' = insert i (used s) \<and> frames s' = frames s"
    and release_ok: "\<lbrakk>inv s; mapping s (pid, v) = Some i\<rbrakk> \<Longrightarrow>
      \<exists>s'. release s pid v = Inr (0, s') \<and> inv s' \<and> mapping s' = (mapping s)((pid, v) := None) \<and>
        queue s' = remove1 i (queue s) \<and> used s' = used s - {i} \<and> frames s' = frames s"
    and release_absent: "\<lbrakk>inv s; mapping s (pid, v) = None\<rbrakk> \<Longrightarrow> release s pid v = Inr (-1, s)"
    and seek_found: "\<lbrakk>inv s; seek s \<noteq> -1\<rbrakk> \<Longrightarrow> \<exists>i. seek s = int i \<and> i < frames s \<and> i \<notin> used s"
    and seek_none: "\<lbrakk>inv s; seek s = -1; i < frames s\<rbrakk> \<Longrightarrow> i \<in> used s"
    and head_None: "inv s \<Longrightarrow> head s = None \<longleftrightarrow> queue s = []"
    and head_Some: "inv s \<Longrightarrow> head s = Some (f, k) \<longleftrightarrow> (\<exists>q. queue s = f # q \<and> mapping s k = Some f)"
    and queue_distinct: "inv s \<Longrightarrow> distinct (queue s)"
    and queue_mapping: "inv s \<Longrightarrow> i \<in> set (queue s) \<longleftrightarrow> (\<exists>k. mapping s k = Some i)"
    and mapping_inj: "\<lbrakk>inv s; mapping s k = Some i; mapping s k' = Some i\<rbrakk> \<Longrightarrow> k' = k"
    and mapping_used: "\<lbrakk>inv s; mapping s k = Some i\<rbrakk> \<Longrightarrow> 0 < fst k \<and> 0 < i \<and> i < frames s \<and> i \<in> used s"
begin

text \<open>FIFO replacement: evict the head, enter the new page in its frame.\<close>

lemma replace_head:
  assumes inv: "inv s" and hd: "head s = Some (f, k)"
    and new: "0 < pid" "mapping s (pid, v) = None"
  obtains s1 s2 where "release s (fst k) (snd k) = Inr (0, s1)" "enter s1 f pid v = Inr s2" "inv s2"
    "mapping s2 = (mapping s)(k := None, (pid, v) \<mapsto> f)" "queue s2 = tl (queue s) @ [f]"
    "used s2 = used s" "frames s2 = frames s"
proof -
  obtain q where q: "queue s = f # q" "mapping s k = Some f" using head_Some [OF inv] hd by blast
  have k: "k = (fst k, snd k)" by simp
  obtain s1 where s1: "release s (fst k) (snd k) = Inr (0, s1)" "inv s1"
    "mapping s1 = (mapping s)(k := None)" "queue s1 = remove1 f (queue s)" "used s1 = used s - {f}"
    "frames s1 = frames s"
    using release_ok [OF inv, of "fst k" "snd k" f] q(2) by auto
  have u: "f < frames s" "f \<in> used s" using mapping_used [OF inv q(2)] by auto
  have "mapping s1 (pid, v) = None" using s1(3) new(2) by simp
  then obtain s2 where "enter s1 f pid v = Inr s2" "inv s2" "mapping s2 = (mapping s1)((pid, v) \<mapsto> f)"
    "queue s2 = queue s1 @ [f]" "used s2 = insert f (used s1)" "frames s2 = frames s1"
    using enter_ok [OF s1(2), of f pid v] s1(5,6) u new(1) by auto
  then show thesis using that [OF s1(1)] s1 q(1) u by auto
qed

text \<open>Page keys are never lost or merged: two keys never share a frame.\<close>

lemma keys_apart: "inv s \<Longrightarrow> mapping s k = Some i \<Longrightarrow> mapping s k' = Some j \<Longrightarrow> k \<noteq> k' \<Longrightarrow> i \<noteq> j"
  using mapping_inj by blast

end

lemma seek_spec:
  assumes "pt_inv s" "0 < n"
  shows "getfreeframes s n \<noteq> -1 \<Longrightarrow> \<exists>i. getfreeframes s n = int i \<and> fits (pagetable s) n i"
    and "getfreeframes s n = -1 \<Longrightarrow> \<not> fits (pagetable s) n i"
proof -
  have "frames_ok (pagetable s)" using assms(1) by (elim pt_invE)
  from getfreeframes_spec [OF this assms(2)]
  show "getfreeframes s n \<noteq> -1 \<Longrightarrow> \<exists>i. getfreeframes s n = int i \<and> fits (pagetable s) n i"
    and "getfreeframes s n = -1 \<Longrightarrow> \<not> fits (pagetable s) n i"
    by (auto simp: first_fit_def)
qed

lemma fits_one_iff: "fits (pagetable s) 1 i \<longleftrightarrow> i < length (pagetable s) \<and> i \<notin> inuse s"
  by (auto simp: fits_def inuse_def)

interpretation pt: frame_table pt_inv resident victims inuse "\<lambda>s. length (pagetable s)"
  "\<lambda>s i pid v. setptentry s i 1 pid v" freeuser "\<lambda>s. getfreeframes s 1" victim
proof unfold_locales
  fix s i pid v
  assume a: "pt_inv s" "i < length (pagetable s)" "i \<notin> inuse s" "0 < pid" "resident s (pid, v) = None"
  then show "\<exists>s'. setptentry s i 1 pid v = Inr s' \<and> pt_inv s' \<and>
      resident s' = (resident s)((pid, v) \<mapsto> i) \<and> victims s' = victims s @ [i] \<and>
      inuse s' = insert i (inuse s) \<and> length (pagetable s') = length (pagetable s)"
    using fits_one_iff by (metis setptentry_user_inv)
next
  fix s i pid v
  assume "pt_inv s" "resident s (pid, v) = Some i"
  then show "\<exists>s'. freeuser s pid v = Inr (0, s') \<and> pt_inv s' \<and> resident s' = (resident s)((pid, v) := None) \<and>
      victims s' = remove1 i (victims s) \<and> inuse s' = inuse s - {i} \<and>
      length (pagetable s') = length (pagetable s)"
    by (metis freeuser_inv)
next
  fix s pid v
  assume "pt_inv s" "resident s (pid, v) = None"
  then show "freeuser s pid v = Inr (-1, s)" by (elim pt_invE) (rule freeuser_absent)
next
  fix s
  assume "pt_inv s" "getfreeframes s 1 \<noteq> -1"
  then show "\<exists>i. getfreeframes s 1 = int i \<and> i < length (pagetable s) \<and> i \<notin> inuse s"
    using seek_spec(1) [of s 1] fits_one_iff by auto
next
  fix s i
  assume "pt_inv s" "getfreeframes s 1 = -1" "i < length (pagetable s)"
  then show "i \<in> inuse s" using seek_spec(2) [of s 1 i] fits_one_iff by auto
qed (use victim_iff victims_resident in \<open>blast+\<close>)

end
