(* ===== verification/Vmstats.thy ===== *)
theory Vmstats
  imports Prelude
begin

text \<open>
  The statistics counters, \<^verbatim>\<open>kern/vm/vmstats.c\<close> and \<^verbatim>\<open>kern/include/vmstats.h\<close>: ten
  unsigned counters that wrap at 32 bits, and their report.
\<close>

datatype vmstats =
    TLBFAULT
  | TLBFAULTWITHFREE
  | TLBFAULTWITHREPLACE
  | TLBINVALIDATION
  | TLBRELOAD
  | PAGEFAULTZERO
  | PAGEFAULTDISK
  | PAGEFAULTELF
  | PAGEFAULTSWAP
  | SWAPWRITE

primrec stat_code :: "vmstats \<Rightarrow> nat" where
  "stat_code TLBFAULT = 0"
| "stat_code TLBFAULTWITHFREE = 1"
| "stat_code TLBFAULTWITHREPLACE = 2"
| "stat_code TLBINVALIDATION = 3"
| "stat_code TLBRELOAD = 4"
| "stat_code PAGEFAULTZERO = 5"
| "stat_code PAGEFAULTDISK = 6"
| "stat_code PAGEFAULTELF = 7"
| "stat_code PAGEFAULTSWAP = 8"
| "stat_code SWAPWRITE = 9"

definition VMSTATSLEN :: nat where
  "VMSTATSLEN = 10"

type_synonym counters = "u32 list"

definition VMSTATNAME :: "string list" where
  "VMSTATNAME = [''Tlb faults'', ''Tlb faults with free'', ''Tlb faults with replace'',
     ''Tlb invalidations'', ''Tlb reloads'', ''Page faults (Zeroed)'', ''Page faults (Disk)'',
     ''Page faults from ELF'', ''Page faults from swapfile'', ''Swapfile writes'']"

definition vmstatsetup :: counters where
  "vmstatsetup = replicate VMSTATSLEN 0"

definition stat :: "counters \<Rightarrow> vmstats \<Rightarrow> u32" where
  "stat c t = c ! stat_code t"

definition vmstatincr :: "counters \<Rightarrow> vmstats \<Rightarrow> counters" where
  "vmstatincr c t = c[stat_code t := c ! stat_code t + 1]"

text \<open>A line of the report: a counter with its name, or a warning (numbered in source order).\<close>

datatype statline = StatLine string u32 | StatWarning nat

definition printvmstats :: "counters \<Rightarrow> statline list" where
  "printvmstats c =
     map (\<lambda>i. StatLine (VMSTATNAME ! i) (c ! i)) [0..<VMSTATSLEN]
     @ (if stat c TLBFAULT \<noteq> stat c TLBFAULTWITHFREE + stat c TLBFAULTWITHREPLACE then [StatWarning 1] else [])
     @ (if stat c TLBFAULT \<noteq> stat c TLBFAULTWITHFREE + stat c TLBFAULTWITHREPLACE then [StatWarning 2] else [])
     @ (if stat c TLBFAULT \<noteq> stat c TLBFAULTWITHFREE + stat c TLBFAULTWITHREPLACE then [StatWarning 3] else [])"

section \<open>Counting\<close>

lemma stat_code_less [simp]: "stat_code t < VMSTATSLEN"
  by (cases t) (simp_all add: VMSTATSLEN_def)

lemma stat_code_inj [simp]: "stat_code t = stat_code u \<longleftrightarrow> t = u"
  by (cases t; cases u) simp_all

lemma length_vmstatincr [simp]: "length (vmstatincr c t) = length c"
  by (simp add: vmstatincr_def)

lemma stat_vmstatincr [simp]:
  "length c = VMSTATSLEN \<Longrightarrow> stat (vmstatincr c t) u = (if t = u then stat c t + 1 else stat c u)"
  by (simp add: stat_def vmstatincr_def nth_list_update)

lemma stat_vmstatsetup [simp]: "stat vmstatsetup t = 0" "length vmstatsetup = VMSTATSLEN"
  by (simp_all add: vmstatsetup_def stat_def)

text \<open>
  The three balance equations the report's warnings announce: faults are served with or
  without a free slot; they are reloads, zero fills or disk reads; disk reads come from the
  executable or from the swap file.
\<close>

definition stats_balanced :: "counters \<Rightarrow> bool" where
  "stats_balanced c \<longleftrightarrow> length c = VMSTATSLEN \<and>
     stat c TLBFAULT = stat c TLBFAULTWITHFREE + stat c TLBFAULTWITHREPLACE \<and>
     stat c TLBFAULT = stat c TLBRELOAD + stat c PAGEFAULTDISK + stat c PAGEFAULTZERO \<and>
     stat c PAGEFAULTDISK = stat c PAGEFAULTELF + stat c PAGEFAULTSWAP"

lemma stats_balanced_setup: "stats_balanced vmstatsetup"
  by (simp add: stats_balanced_def)

text \<open>The warnings printed, by number.\<close>

definition warnings :: "statline list \<Rightarrow> nat set" where
  "warnings ls = {n. StatWarning n \<in> set ls}"

lemma warnings_printvmstats:
  "warnings (printvmstats c) =
     (if stat c TLBFAULT = stat c TLBFAULTWITHFREE + stat c TLBFAULTWITHREPLACE then {} else {1, 2, 3})"
  by (auto simp: warnings_def printvmstats_def)

end
