(* ===== verification/Vm_tlb.thy ===== *)
theory Vm_tlb
  imports Vmstats
begin

text \<open>
  The software-managed TLB, \<^verbatim>\<open>kern/vm/vm_tlb.c\<close>. The hardware is an array of 64 pairs
  (high word, low word) that \<^verbatim>\<open>tlb_write\<close> and \<^verbatim>\<open>tlb_probe\<close>
  (\<^verbatim>\<open>kern/arch/mips/include/tlb.h\<close>) access; the module keeps a round-robin index, the
  slot of the last invalidated entry, and the process of the last write.
\<close>

section \<open>Hardware\<close>

definition TLBHI_VPAGE :: u32 where "TLBHI_VPAGE = 0xfffff000"
definition TLBLO_PPAGE :: u32 where "TLBLO_PPAGE = 0xfffff000"
definition TLBLO_DIRTY :: u32 where "TLBLO_DIRTY = 0x400"
definition TLBLO_VALID :: u32 where "TLBLO_VALID = 0x200"
definition TLBLO_GLOBAL :: u32 where "TLBLO_GLOBAL = 0x100"
definition NUM_TLB :: nat where "NUM_TLB = 64"

definition TLBHI_INVALID :: "nat \<Rightarrow> u32" where
  "TLBHI_INVALID entryno = push_bit 12 (0x80000 + word_of_nat entryno)"

definition TLBLO_INVALID :: u32 where "TLBLO_INVALID = 0"

type_synonym tlb_entry = "u32 \<times> u32"

record tlbstate =
  tlb :: "tlb_entry list"
  tlbindex :: u32
  tlbinvalidatedindex :: int
  lastpid :: pid_t

definition tlb_write :: "tlbstate \<Rightarrow> u32 \<Rightarrow> u32 \<Rightarrow> nat \<Rightarrow> tlbstate" where
  "tlb_write t hi lo i = t\<lparr>tlb := (tlb t)[i := (hi, lo)]\<rparr>"

text \<open>The index of an entry with the same virtual page field, or a negative number.\<close>

definition tlb_probe :: "tlbstate \<Rightarrow> u32 \<Rightarrow> int" where
  "tlb_probe t hi =
     (case find (\<lambda>i. fst (tlb t ! i) AND TLBHI_VPAGE = hi AND TLBHI_VPAGE) [0..<length (tlb t)] of
        None \<Rightarrow> -1 | Some i \<Rightarrow> int i)"

section \<open>Operations\<close>

definition vmtlb_invalidatepage :: "tlbstate \<Rightarrow> pid_t \<Rightarrow> vaddr_t \<Rightarrow> tlbstate" where
  "vmtlb_invalidatepage t pid addr =
     (let ind = tlb_probe t (addr AND TLBHI_VPAGE)
      in if 0 \<le> ind
         then (tlb_write t (TLBHI_INVALID (nat ind)) TLBLO_INVALID (nat ind))
                \<lparr>tlbinvalidatedindex := ind\<rparr>
         else t)"

fun vmtlb_invalidate_loop :: "nat \<Rightarrow> tlbstate \<Rightarrow> tlbstate" where
  "vmtlb_invalidate_loop 0 t = t"
| "vmtlb_invalidate_loop (Suc n) t =
     tlb_write (vmtlb_invalidate_loop n t) (TLBHI_INVALID n) TLBLO_INVALID n"

definition vmtlb_invalidate :: "tlbstate \<Rightarrow> counters \<Rightarrow> pid_t \<Rightarrow> tlbstate \<times> counters" where
  "vmtlb_invalidate t c pid =
     (if pid = lastpid t then (t, c)
      else ((vmtlb_invalidate_loop NUM_TLB t)
              \<lparr>tlbinvalidatedindex := -1, tlbindex := 0, lastpid := 0\<rparr>,
            vmstatincr c TLBINVALIDATION))"

definition tlb_lo :: "paddr_t \<Rightarrow> bool \<Rightarrow> u32" where
  "tlb_lo paddr writePriv =
     (let lo = (paddr AND TLBLO_PPAGE) OR TLBLO_VALID OR TLBLO_GLOBAL
      in if writePriv then lo OR TLBLO_DIRTY else lo)"

definition vmtlb_write :: "tlbstate \<Rightarrow> counters \<Rightarrow> pid_t \<Rightarrow> vaddr_t \<Rightarrow> paddr_t \<Rightarrow> bool
    \<Rightarrow> (tlbstate \<times> counters) res" where
  "vmtlb_write t c pid addr paddr writePriv =
     (let t0 = t\<lparr>lastpid := pid\<rparr>;
          hi = addr AND TLBHI_VPAGE;
          lo = tlb_lo paddr writePriv
      in if lo AND TLBLO_VALID = 0 then Inl (Panic ''Writing INVALID entry'')
         else if 0 \<le> tlbinvalidatedindex t0 then
           Inr ((tlb_write t0 hi lo (nat (tlbinvalidatedindex t0)))\<lparr>tlbinvalidatedindex := -1\<rparr>,
                vmstatincr c (if tlbindex t0 < word_of_nat NUM_TLB
                              then TLBFAULTWITHFREE else TLBFAULTWITHREPLACE))
         else if tlbindex t0 < word_of_nat NUM_TLB then
           Inr ((tlb_write t0 hi lo (unat (tlbindex t0)))\<lparr>tlbindex := tlbindex t0 + 1\<rparr>,
                vmstatincr c TLBFAULTWITHFREE)
         else
           Inr ((tlb_write t0 hi lo (unat (tlbindex t0) mod NUM_TLB))\<lparr>tlbindex := tlbindex t0 + 1\<rparr>,
                vmstatincr c TLBFAULTWITHREPLACE))"

section \<open>Invariant and meaning\<close>

definition tlb_entry_ok :: "nat \<Rightarrow> tlb_entry \<Rightarrow> bool" where
  "tlb_entry_ok i e \<longleftrightarrow> e = (TLBHI_INVALID i, TLBLO_INVALID) \<or>
     fst e < MIPS_KSEG0 \<and> fst e AND TLBHI_VPAGE = fst e \<and> snd e AND TLBLO_VALID \<noteq> 0"

definition tlb_wf :: "tlbstate \<Rightarrow> bool" where
  "tlb_wf t \<longleftrightarrow> length (tlb t) = NUM_TLB \<and> distinct (map fst (tlb t)) \<and>
     (\<forall>i < NUM_TLB. tlb_entry_ok i (tlb t ! i)) \<and>
     -1 \<le> tlbinvalidatedindex t \<and> tlbinvalidatedindex t < int NUM_TLB"

text \<open>The translations the hardware offers: the valid entries, by virtual page.\<close>

definition tlb_map :: "tlbstate \<Rightarrow> vaddr_t \<Rightarrow> u32 option" where
  "tlb_map t v = (case map_of (tlb t) v of
     Some lo \<Rightarrow> if lo AND TLBLO_VALID \<noteq> 0 then Some lo else None | None \<Rightarrow> None)"

text \<open>A user page address: page aligned and below the kernel segments.\<close>

definition user_page :: "vaddr_t \<Rightarrow> bool" where
  "user_page v \<longleftrightarrow> v AND TLBHI_VPAGE = v \<and> v < MIPS_KSEG0"

text \<open>The slot the next write goes to.\<close>

definition tlb_slot :: "tlbstate \<Rightarrow> nat" where
  "tlb_slot t = (if 0 \<le> tlbinvalidatedindex t then nat (tlbinvalidatedindex t)
                 else unat (tlbindex t) mod NUM_TLB)"

lemma TLBHI_INVALID_nat: "i < NUM_TLB \<Longrightarrow> unat (TLBHI_INVALID i) = (524288 + i) * 4096"
  by (simp add: TLBHI_INVALID_def NUM_TLB_def push_bit_eq_mult unat_word_ariths unat_of_nat
      take_bit_nat_eq_self)

lemma TLBHI_INVALID_inj: "i < NUM_TLB \<Longrightarrow> j < NUM_TLB \<Longrightarrow> TLBHI_INVALID i = TLBHI_INVALID j \<longleftrightarrow> i = j"
  by (metis TLBHI_INVALID_nat add_left_cancel mult_cancel2 zero_neq_numeral)

lemma TLBHI_INVALID_kernel: "i < NUM_TLB \<Longrightarrow> \<not> TLBHI_INVALID i < MIPS_KSEG0"
  by (simp add: word_less_nat_alt TLBHI_INVALID_nat MIPS_KSEG0_def NUM_TLB_def)

lemma tlb_lo_bits:
  "tlb_lo p w AND TLBLO_VALID \<noteq> 0"
  "tlb_lo p w AND TLBLO_PPAGE = p AND TLBLO_PPAGE"
  "tlb_lo p w AND TLBLO_DIRTY \<noteq> 0 \<longleftrightarrow> w"
proof -
  have d: "(0x200::u32) = 2 ^ 9" "(0x400::u32) = 2 ^ 10" by simp_all
  show "tlb_lo p w AND TLBLO_VALID \<noteq> 0"
    unfolding TLBLO_VALID_def d and_exp_eq_0_iff_not_bit
    by (simp add: tlb_lo_def Let_def TLBLO_PPAGE_def TLBLO_VALID_def TLBLO_GLOBAL_def TLBLO_DIRTY_def bit_simps)
  show "tlb_lo p w AND TLBLO_DIRTY \<noteq> 0 \<longleftrightarrow> w"
    unfolding TLBLO_DIRTY_def d and_exp_eq_0_iff_not_bit
    by (simp add: tlb_lo_def Let_def TLBLO_PPAGE_def TLBLO_VALID_def TLBLO_GLOBAL_def TLBLO_DIRTY_def bit_simps)
  show "tlb_lo p w AND TLBLO_PPAGE = p AND TLBLO_PPAGE"
    by (simp add: tlb_lo_def Let_def TLBLO_PPAGE_def TLBLO_VALID_def TLBLO_GLOBAL_def TLBLO_DIRTY_def
        bit.conj_disj_distrib2 and.assoc)
qed

text \<open>A write fills the chosen slot; the panic is never reached.\<close>

definition tlb_fill_stat :: "tlbstate \<Rightarrow> vmstats" where
  "tlb_fill_stat t = (if tlbindex t < word_of_nat NUM_TLB then TLBFAULTWITHFREE else TLBFAULTWITHREPLACE)"

lemma vmtlb_write_slot:
  "vmtlb_write t c pid addr paddr w = Inr
     (t\<lparr>tlb := (tlb t)[tlb_slot t := (addr AND TLBHI_VPAGE, tlb_lo paddr w)], lastpid := pid,
        tlbindex := (if 0 \<le> tlbinvalidatedindex t then tlbindex t else tlbindex t + 1),
        tlbinvalidatedindex := (if 0 \<le> tlbinvalidatedindex t then -1 else tlbinvalidatedindex t)\<rparr>,
      vmstatincr c (tlb_fill_stat t))"
proof -
  have "unat (tlbindex t) mod NUM_TLB = unat (tlbindex t)" if "tlbindex t < word_of_nat NUM_TLB"
    using that by (simp add: word_less_nat_alt NUM_TLB_def)
  then show ?thesis
    using tlb_lo_bits(1) [of paddr w]
    by (auto simp: vmtlb_write_def Let_def tlb_write_def tlb_slot_def tlb_fill_stat_def)
qed

lemma tlb_slot_less: "tlb_wf t \<Longrightarrow> tlb_slot t < NUM_TLB"
  by (auto simp: tlb_slot_def tlb_wf_def NUM_TLB_def)

lemma tlb_wfD:
  assumes "tlb_wf t"
  shows "length (tlb t) = NUM_TLB" "distinct (map fst (tlb t))"
    "i < NUM_TLB \<Longrightarrow> tlb_entry_ok i (tlb t ! i)"
    "-1 \<le> tlbinvalidatedindex t" "tlbinvalidatedindex t < int NUM_TLB"
  using assms by (auto simp: tlb_wf_def)

text \<open>Replacing one slot by a fresh page, or by the invalid entry of this slot.\<close>

lemma tlb_map_upd:
  assumes wf: "tlb_wf t" and i: "i < NUM_TLB" and v: "v \<notin> set (map fst (tlb t)) \<or> v = fst (tlb t ! i)"
    and t': "tlb t' = (tlb t)[i := (v, lo)]"
  shows "tlb_map t' = (tlb_map t)(fst (tlb t ! i) := None,
           v := if lo AND TLBLO_VALID \<noteq> 0 then Some lo else None)"
  using map_of_list_update [OF tlb_wfD(2) [OF wf] _ v, of lo] i tlb_wfD(1) [OF wf] t'
  by (auto simp: tlb_map_def fun_eq_iff)

lemma tlb_wf_upd:
  assumes wf: "tlb_wf t" and i: "i < NUM_TLB" and v: "v \<notin> set (map fst (tlb t)) \<or> v = fst (tlb t ! i)"
    and ok: "tlb_entry_ok i (v, lo)" and t': "tlb t' = (tlb t)[i := (v, lo)]"
    and inv: "-1 \<le> tlbinvalidatedindex t'" "tlbinvalidatedindex t' < int NUM_TLB"
  shows "tlb_wf t'"
  using distinct_fst_list_update [OF tlb_wfD(2) [OF wf] _ v, of lo] i tlb_wfD(1,3) [OF wf] ok inv
  unfolding tlb_wf_def t' by (auto simp: nth_list_update)

text \<open>The invalid entry of slot \<open>i\<close> never occurs in another slot.\<close>

lemma invalid_hi_fresh:
  assumes wf: "tlb_wf t" and i: "i < NUM_TLB"
  shows "TLBHI_INVALID i \<notin> set (map fst (tlb t)) \<or> TLBHI_INVALID i = fst (tlb t ! i)"
proof (rule disjCI)
  assume neq: "TLBHI_INVALID i \<noteq> fst (tlb t ! i)"
  show "TLBHI_INVALID i \<notin> set (map fst (tlb t))"
  proof
    assume "TLBHI_INVALID i \<in> set (map fst (tlb t))"
    then obtain j where j: "j < NUM_TLB" "fst (tlb t ! j) = TLBHI_INVALID i"
      using tlb_wfD(1) [OF wf] by (auto simp: in_set_conv_nth)
    have "j \<noteq> i" using neq j(2) by metis
    then have "fst (tlb t ! j) \<noteq> TLBHI_INVALID j" using TLBHI_INVALID_inj [OF i j(1)] j(2) by metis
    then have "tlb t ! j \<noteq> (TLBHI_INVALID j, TLBLO_INVALID)" by (metis fst_conv)
    then have "fst (tlb t ! j) < MIPS_KSEG0" using tlb_wfD(3) [OF wf j(1)] unfolding tlb_entry_ok_def by blast
    then show False using TLBHI_INVALID_kernel [OF i] unfolding j(2) by blast
  qed
qed

lemma tlb_probe_iff:
  assumes wf: "tlb_wf t" and v: "user_page v"
  shows "tlb_probe t v = -1 \<longleftrightarrow> v \<notin> set (map fst (tlb t))"
    and "tlb_probe t v = int i \<longleftrightarrow> i < NUM_TLB \<and> fst (tlb t ! i) = v"
proof -
  have aligned: "(TLBHI_INVALID i AND TLBHI_VPAGE) = TLBHI_INVALID i" for i
    unfolding TLBHI_INVALID_def TLBHI_VPAGE_def page_mask_alt
    by (rule bit_word_eqI) (auto simp: bit_simps)
  have m: "fst (tlb t ! j) AND TLBHI_VPAGE = v AND TLBHI_VPAGE \<longleftrightarrow> fst (tlb t ! j) = v" if "j < NUM_TLB" for j
  proof -
    have "fst (tlb t ! j) AND TLBHI_VPAGE = fst (tlb t ! j)"
      using tlb_wfD(3) [OF wf that] aligned [of j] unfolding tlb_entry_ok_def by (metis fst_conv)
    then show ?thesis using v unfolding user_page_def by metis
  qed
  have u: "find (\<lambda>i. fst (tlb t ! i) AND TLBHI_VPAGE = v AND TLBHI_VPAGE) [0..<length (tlb t)] = Some i \<longleftrightarrow>
      i < NUM_TLB \<and> fst (tlb t ! i) = v" for i
    using m tlb_wfD(1,2) [OF wf]
    by (subst find_unique_iff) (auto simp: distinct_conv_nth)
  show "tlb_probe t v = int i \<longleftrightarrow> i < NUM_TLB \<and> fst (tlb t ! i) = v"
    unfolding u [of i, symmetric] tlb_probe_def by (simp split: option.split)
  have "tlb_probe t v = -1 \<longleftrightarrow>
      find (\<lambda>i. fst (tlb t ! i) AND TLBHI_VPAGE = v AND TLBHI_VPAGE) [0..<length (tlb t)] = None"
    unfolding tlb_probe_def by (simp split: option.split)
  also have "\<dots> \<longleftrightarrow> (\<forall>i < NUM_TLB. fst (tlb t ! i) \<noteq> v)"
    using m unfolding find_None_iff by (simp add: tlb_wfD(1) [OF wf])
  also have "\<dots> \<longleftrightarrow> v \<notin> set (map fst (tlb t))"
    using tlb_wfD(1) [OF wf] by (auto simp: in_set_conv_nth simp del: set_map)
  finally show "tlb_probe t v = -1 \<longleftrightarrow> v \<notin> set (map fst (tlb t))" .
qed

text \<open>A translation is offered exactly for the pages that some slot holds.\<close>

lemma tlb_map_None_iff:
  assumes wf: "tlb_wf t" and v: "user_page v"
  shows "tlb_map t v = None \<longleftrightarrow> v \<notin> set (map fst (tlb t))"
proof
  assume m: "tlb_map t v = None"
  show "v \<notin> set (map fst (tlb t))"
  proof
    assume "v \<in> set (map fst (tlb t))"
    then obtain i where i: "i < NUM_TLB" "fst (tlb t ! i) = v"
      using tlb_wfD(1) [OF wf] by (auto simp: in_set_conv_nth simp del: set_map)
    have "v \<noteq> TLBHI_INVALID i" using v TLBHI_INVALID_kernel [OF i(1)] unfolding user_page_def by blast
    then have val: "snd (tlb t ! i) AND TLBLO_VALID \<noteq> 0"
      using tlb_wfD(3) [OF wf i(1)] i(2) unfolding tlb_entry_ok_def by (metis fst_conv)
    have "map_of (tlb t) v = Some (snd (tlb t ! i))"
      using tlb_wfD(1,2) [OF wf] i by (metis map_of_eq_Some_iff nth_mem prod.collapse)
    with val m show False by (simp add: tlb_map_def)
  qed
next
  assume "v \<notin> set (map fst (tlb t))"
  then have "map_of (tlb t) v = None" by (simp add: map_of_eq_None_iff)
  then show "tlb_map t v = None" by (simp add: tlb_map_def)
qed

lemma user_page_mask: "addr < MIPS_KSEG0 \<Longrightarrow> user_page (addr AND TLBHI_VPAGE)"
proof -
  assume "addr < MIPS_KSEG0"
  moreover have "unat (addr AND TLBHI_VPAGE) \<le> unat addr"
    unfolding TLBHI_VPAGE_def unat_page_mask by simp
  ultimately show ?thesis unfolding user_page_def
    by (simp add: word_less_nat_alt and.assoc)
qed

section \<open>The operations meet their contracts\<close>

lemma vmtlb_write_ok:
  assumes wf: "tlb_wf t" and a: "addr < MIPS_KSEG0" and miss: "tlb_map t (addr AND TLBHI_VPAGE) = None"
  shows "\<exists>t'. vmtlb_write t c pid addr paddr w = Inr (t', vmstatincr c (tlb_fill_stat t)) \<and> tlb_wf t' \<and>
     tlb_map t' = (tlb_map t)(fst (tlb t ! tlb_slot t) := None, addr AND TLBHI_VPAGE \<mapsto> tlb_lo paddr w) \<and>
     lastpid t' = pid"
proof -
  let ?v = "addr AND TLBHI_VPAGE"
  have v: "user_page ?v" using a by (rule user_page_mask)
  have fresh: "?v \<notin> set (map fst (tlb t)) \<or> ?v = fst (tlb t ! tlb_slot t)"
    using miss tlb_map_None_iff [OF wf v] by blast
  have ok: "tlb_entry_ok (tlb_slot t) (?v, tlb_lo paddr w)"
    using v tlb_lo_bits(1) by (simp add: tlb_entry_ok_def user_page_def)
  show ?thesis
    unfolding vmtlb_write_slot
    using tlb_map_upd [OF wf tlb_slot_less [OF wf] fresh, of _ "tlb_lo paddr w"]
      tlb_wf_upd [OF wf tlb_slot_less [OF wf] fresh ok] tlb_wfD(4,5) [OF wf] tlb_lo_bits(1) [of paddr w]
    by (auto simp: NUM_TLB_def)
qed

lemma vmtlb_invalidatepage_ok:
  assumes wf: "tlb_wf t" and a: "addr < MIPS_KSEG0"
  shows "tlb_wf (vmtlb_invalidatepage t pid addr) \<and>
     tlb_map (vmtlb_invalidatepage t pid addr) = (tlb_map t)(addr AND TLBHI_VPAGE := None)"
proof (cases "tlb_probe t (addr AND TLBHI_VPAGE) = -1")
  let ?v = "addr AND TLBHI_VPAGE"
  have v: "user_page ?v" using a by (rule user_page_mask)
  case False
  then obtain i where nonneg: "tlb_probe t ?v = int i" by (auto simp: tlb_probe_def split: option.splits)
  then have i: "i < NUM_TLB" "fst (tlb t ! i) = ?v" using tlb_probe_iff(2) [OF wf v] by blast+
  let ?t = "vmtlb_invalidatepage t pid addr"
  have t': "tlb ?t = (tlb t)[i := (TLBHI_INVALID i, TLBLO_INVALID)]" "tlbinvalidatedindex ?t = int i"
    using nonneg by (simp_all add: vmtlb_invalidatepage_def Let_def tlb_write_def)
  have "tlb_wf ?t"
    by (rule tlb_wf_upd [OF wf i(1) invalid_hi_fresh [OF wf i(1)] _ t'(1)])
      (use t'(2) i(1) in \<open>simp_all add: tlb_entry_ok_def\<close>)
  moreover have "tlb_map t (TLBHI_INVALID i) = None"
  proof (cases "TLBHI_INVALID i \<in> set (map fst (tlb t))")
    case True
    then have "TLBHI_INVALID i = ?v" using invalid_hi_fresh [OF wf i(1)] i(2) by metis
    then show ?thesis using v TLBHI_INVALID_kernel [OF i(1)] unfolding user_page_def by metis
  next
    case False
    then have "map_of (tlb t) (TLBHI_INVALID i) = None" by (simp add: map_of_eq_None_iff)
    then show ?thesis by (simp add: tlb_map_def)
  qed
  ultimately show ?thesis
    using tlb_map_upd [OF wf i(1) invalid_hi_fresh [OF wf i(1)] t'(1)] i(2)
    by (auto simp: fun_eq_iff TLBLO_INVALID_def)
next
  let ?v = "addr AND TLBHI_VPAGE"
  have v: "user_page ?v" using a by (rule user_page_mask)
  case True
  then have "tlb_map t ?v = None" using tlb_probe_iff(1) [OF wf v] tlb_map_None_iff [OF wf v] by blast
  then show ?thesis using wf True by (auto simp: vmtlb_invalidatepage_def Let_def)
qed

lemma invalidate_loop_frame:
  "tlbinvalidatedindex (vmtlb_invalidate_loop n t) = tlbinvalidatedindex t"
  "tlbindex (vmtlb_invalidate_loop n t) = tlbindex t" "lastpid (vmtlb_invalidate_loop n t) = lastpid t"
  by (induction n) (simp_all add: tlb_write_def)

lemma invalidate_loop_tlb:
  "n \<le> length (tlb t) \<Longrightarrow>
   tlb (vmtlb_invalidate_loop n t) = map (\<lambda>i. (TLBHI_INVALID i, TLBLO_INVALID)) [0..<n] @ drop n (tlb t)"
proof (induction n)
  case (Suc n)
  then have "drop n (tlb t) = tlb t ! n # drop (Suc n) (tlb t)" by (simp add: Cons_nth_drop_Suc)
  then show ?case using Suc by (simp add: tlb_write_def list_update_append)
qed simp

text \<open>Switching to another process empties the TLB and restarts the round.\<close>

lemma vmtlb_invalidate_ok:
  assumes len: "length (tlb t) = NUM_TLB" and pid: "pid \<noteq> lastpid t"
  shows "\<exists>t'. vmtlb_invalidate t c pid = (t', vmstatincr c TLBINVALIDATION) \<and> tlb_wf t' \<and>
     tlb_map t' = Map.empty \<and> tlbindex t' = 0 \<and> tlbinvalidatedindex t' = -1 \<and> lastpid t' = 0"
proof -
  let ?l = "map (\<lambda>i. (TLBHI_INVALID i, TLBLO_INVALID)) [0..<NUM_TLB]"
  have l: "tlb (vmtlb_invalidate_loop NUM_TLB t) = ?l" using invalidate_loop_tlb [of NUM_TLB t] len by simp
  have d: "distinct (map fst ?l)"
    by (auto simp: distinct_map inj_on_def o_def TLBHI_INVALID_inj)
  have m: "lo AND TLBLO_VALID = 0" if "map_of ?l v = Some lo" for v lo
    using map_of_SomeD [OF that] by (auto simp: TLBLO_INVALID_def)
  have "tlb_map t' = Map.empty" if "tlb t' = ?l" for t' :: tlbstate
    unfolding tlb_map_def that by (rule ext) (auto dest: m split: option.split)
  then show ?thesis
    using pid l d by (simp add: vmtlb_invalidate_def tlb_wf_def tlb_entry_ok_def NUM_TLB_def)
qed

lemma vmtlb_invalidate_same: "vmtlb_invalidate t c (lastpid t) = (t, c)"
  by (simp add: vmtlb_invalidate_def)

end
