(* ===== verification/Machine.thy ===== *)
theory Machine
  imports Page_Table Vm_tlb
begin

text \<open>
  The state the VM system works on, gathered in one record: the globals of
  \<^verbatim>\<open>kern/vm/coremap.c\<close> and \<^verbatim>\<open>kern/vm/swapfile.c\<close>, physical memory, the TLB, the
  statistics, the physical memory bounds of \<^verbatim>\<open>kern/arch/mips/vm/ram.c\<close>, the spinlocks the
  CPU holds, and the files. File systems are reached through the vnode operations
  \<^verbatim>\<open>VOP_READ\<close> and \<^verbatim>\<open>VOP_WRITE\<close>, which are a parameter of the model.
\<close>

section \<open>Physical memory\<close>

definition read_ram :: "(nat \<Rightarrow> byte) \<Rightarrow> nat \<Rightarrow> nat \<Rightarrow> byte list" where
  "read_ram m a n = map m [a..<a + n]"

definition write_ram :: "(nat \<Rightarrow> byte) \<Rightarrow> nat \<Rightarrow> byte list \<Rightarrow> (nat \<Rightarrow> byte)" where
  "write_ram m a bs = (\<lambda>i. if a \<le> i \<and> i < a + length bs then bs ! (i - a) else m i)"

lemma length_read_ram [simp]: "length (read_ram m a n) = n"
  by (simp add: read_ram_def)

lemma nth_read_ram [simp]: "i < n \<Longrightarrow> read_ram m a n ! i = m (a + i)"
  by (simp add: read_ram_def)

lemma read_write_ram_same: "length bs = n \<Longrightarrow> read_ram (write_ram m a bs) a n = bs"
  by (rule nth_equalityI) (auto simp: write_ram_def)

lemma read_write_ram_other:
  "a + n \<le> b \<or> b + length bs \<le> a \<Longrightarrow> read_ram (write_ram m b bs) a n = read_ram m a n"
  by (rule nth_equalityI) (auto simp: write_ram_def)

lemma read_write_ram_prefix:
  "length bs \<le> n \<Longrightarrow> read_ram (write_ram m a bs) a n = bs @ drop (length bs) (read_ram m a n)"
  by (rule nth_equalityI) (auto simp: write_ram_def nth_append)

text \<open>The frame that starts at page \<open>f\<close> of physical memory.\<close>

definition frame :: "(nat \<Rightarrow> byte) \<Rightarrow> nat \<Rightarrow> byte list" where
  "frame m f = read_ram m (f * PAGE_SIZE) PAGE_SIZE"

lemma length_frame [simp]: "length (frame m f) = PAGE_SIZE"
  by (simp add: frame_def)

lemma frame_write_ram:
  assumes "length bs \<le> PAGE_SIZE"
  shows "frame (write_ram m (f * PAGE_SIZE) bs) g =
    (if g = f then bs @ drop (length bs) (frame m f) else frame m g)"
proof (cases "g = f")
  case False
  then have "g * PAGE_SIZE + PAGE_SIZE \<le> f * PAGE_SIZE \<or> f * PAGE_SIZE + PAGE_SIZE \<le> g * PAGE_SIZE"
    by (metis Suc_leI add.commute mult_Suc mult_le_mono1 nat_neq_iff)
  then have "g * PAGE_SIZE + PAGE_SIZE \<le> f * PAGE_SIZE \<or> f * PAGE_SIZE + length bs \<le> g * PAGE_SIZE"
    using assms by linarith
  then show ?thesis using False by (simp add: frame_def read_write_ram_other)
qed (use assms in \<open>simp add: frame_def read_write_ram_prefix\<close>)

section \<open>Files\<close>

type_synonym vnode = nat

text \<open>
  \<^verbatim>\<open>VOP_READ\<close> and \<^verbatim>\<open>VOP_WRITE\<close> of the file system behind a vnode: the error code with the
  bytes transferred (fewer than asked for at the end of the file), and the error code with
  the new file system state.
\<close>

record 'f vnode_ops =
  vop_read :: "'f \<Rightarrow> vnode \<Rightarrow> int \<Rightarrow> nat \<Rightarrow> int \<times> byte list"
  vop_write :: "'f \<Rightarrow> vnode \<Rightarrow> int \<Rightarrow> byte list \<Rightarrow> int \<times> 'f"

text \<open>
  What the VM system relies on: a read transfers at most what was asked for; what a
  successful write stored is read back; a range that could be read in full reads the same
  after a write to a disjoint range; a write to one file does not change another.
\<close>

definition vnode_ops_ok :: "'f vnode_ops \<Rightarrow> bool" where
  "vnode_ops_ok ops \<longleftrightarrow>
     (\<forall>fs v off n. length (snd (vop_read ops fs v off n)) \<le> n) \<and>
     (\<forall>fs v off bs fs'. 0 \<le> off \<longrightarrow> vop_write ops fs v off bs = (0, fs') \<longrightarrow>
        vop_read ops fs' v off (length bs) = (0, bs)) \<and>
     (\<forall>fs v off bs fs' off' n cs. 0 \<le> off \<longrightarrow> 0 \<le> off' \<longrightarrow> vop_write ops fs v off bs = (0, fs') \<longrightarrow>
        off' + int n \<le> off \<or> off + int (length bs) \<le> off' \<longrightarrow>
        vop_read ops fs v off' n = (0, cs) \<longrightarrow> length cs = n \<longrightarrow> vop_read ops fs' v off' n = (0, cs)) \<and>
     (\<forall>fs v off bs fs' v' off' n. vop_write ops fs v off bs = (0, fs') \<longrightarrow> v' \<noteq> v \<longrightarrow>
        vop_read ops fs' v' off' n = vop_read ops fs v' off' n)"

lemma vnode_ops_okD:
  assumes "vnode_ops_ok ops"
  shows "length (snd (vop_read ops fs v off n)) \<le> n"
    and "0 \<le> off \<Longrightarrow> vop_write ops fs v off bs = (0, fs') \<Longrightarrow> vop_read ops fs' v off (length bs) = (0, bs)"
    and "\<lbrakk>0 \<le> off; 0 \<le> off'; vop_write ops fs v off bs = (0, fs');
      off' + int n \<le> off \<or> off + int (length bs) \<le> off';
      vop_read ops fs v off' n = (0, cs); length cs = n\<rbrakk> \<Longrightarrow> vop_read ops fs' v off' n = (0, cs)"
    and "vop_write ops fs v off bs = (0, fs') \<Longrightarrow> v' \<noteq> v \<Longrightarrow> vop_read ops fs' v' off' n = vop_read ops fs v' off' n"
proof -
  note ok = assms [unfolded vnode_ops_ok_def, THEN conjunct2, THEN conjunct2]
  show "length (snd (vop_read ops fs v off n)) \<le> n"
    using assms [unfolded vnode_ops_ok_def, THEN conjunct1] by simp
  show "0 \<le> off \<Longrightarrow> vop_write ops fs v off bs = (0, fs') \<Longrightarrow> vop_read ops fs' v off (length bs) = (0, bs)"
    using assms [unfolded vnode_ops_ok_def, THEN conjunct2, THEN conjunct1] by simp
  show "\<lbrakk>0 \<le> off; 0 \<le> off'; vop_write ops fs v off bs = (0, fs');
      off' + int n \<le> off \<or> off + int (length bs) \<le> off';
      vop_read ops fs v off' n = (0, cs); length cs = n\<rbrakk> \<Longrightarrow> vop_read ops fs' v off' n = (0, cs)"
    by (rule ok [THEN conjunct1, rule_format])
  show "vop_write ops fs v off bs = (0, fs') \<Longrightarrow> v' \<noteq> v \<Longrightarrow> vop_read ops fs' v' off' n = vop_read ops fs v' off' n"
    by (rule ok [THEN conjunct2, rule_format])
qed

text \<open>Files held in memory, one byte list per vnode: an instance of the parameter.\<close>

definition mem_read :: "(vnode \<Rightarrow> byte list) \<Rightarrow> vnode \<Rightarrow> int \<Rightarrow> nat \<Rightarrow> int \<times> byte list" where
  "mem_read fs v off n = (0, take n (drop (nat off) (fs v)))"

definition mem_write :: "(vnode \<Rightarrow> byte list) \<Rightarrow> vnode \<Rightarrow> int \<Rightarrow> byte list \<Rightarrow> int \<times> (vnode \<Rightarrow> byte list)" where
  "mem_write fs v off bs =
     (0, fs(v := take (nat off) (fs v) @ replicate (nat off - length (fs v)) 0 @ bs
                 @ drop (nat off + length bs) (fs v)))"

definition mem_ops :: "(vnode \<Rightarrow> byte list) vnode_ops" where
  "mem_ops = \<lparr>vop_read = mem_read, vop_write = mem_write\<rparr>"

lemma mem_ops_ok: "vnode_ops_ok mem_ops"
proof -
  have 1: "take n (drop off (take w (xs :: byte list) @ replicate (w - length xs) 0 @ bs @ drop (w + length bs) xs))
      = take n (drop off xs)" if "off + n \<le> w" "length (take n (drop off xs)) = n" for w n off xs bs
  proof (cases "n = 0")
    case False
    then have "off + n \<le> length xs" using that(2) by simp
    then have "take n (drop off (take w xs)) = take n (drop off xs)" "off + n \<le> length (take w xs)"
      using that(1) by (simp_all add: drop_take)
    then show ?thesis by simp
  qed simp
  have 2: "take n (drop off (take w (xs :: byte list) @ replicate (w - length xs) 0 @ bs @ drop (w + length bs) xs))
      = take n (drop off xs)" if "w + length bs \<le> off" for w n off xs bs
  proof -
    have "drop off (take w xs @ replicate (w - length xs) 0 @ bs @ drop (w + length bs) xs) = drop off xs"
      using that by (simp add: min_def drop_append)
    then show ?thesis by simp
  qed
  have 3: "take (length bs) (drop w (take w (xs :: byte list) @ replicate (w - length xs) 0 @ bs
      @ drop (w + length bs) xs)) = bs" for w xs bs
    by (simp add: min_def drop_append)
  show ?thesis
    unfolding vnode_ops_ok_def mem_ops_def
  proof (intro conjI allI impI)
    fix fs fs' :: "vnode \<Rightarrow> byte list" and v off off' n bs cs
    assume a: "0 \<le> off" "0 \<le> off'"
      "vop_write \<lparr>vop_read = mem_read, vop_write = mem_write\<rparr> fs v off bs = (0, fs')"
      "off' + int n \<le> off \<or> off + int (length bs) \<le> off'"
      "vop_read \<lparr>vop_read = mem_read, vop_write = mem_write\<rparr> fs v off' n = (0, cs)" "length cs = n"
    have "nat off' + n \<le> nat off \<or> nat off + length bs \<le> nat off'" using a by linarith
    moreover have "cs = take n (drop (nat off') (fs v))" using a(5) by (simp add: mem_read_def)
    moreover have "fs' v = take (nat off) (fs v) @ replicate (nat off - length (fs v)) 0 @ bs
        @ drop (nat off + length bs) (fs v)"
      using a(3) by (auto simp: mem_write_def)
    ultimately have "take n (drop (nat off') (fs' v)) = cs"
      using 1 [of "nat off'" n "nat off" "fs v" bs] 2 [of "nat off" bs "nat off'" n "fs v"] a(6) by metis
    then show "vop_read \<lparr>vop_read = mem_read, vop_write = mem_write\<rparr> fs' v off' n = (0, cs)"
      by (simp add: mem_read_def)
  qed (auto simp: mem_read_def mem_write_def 3)
qed

section \<open>The state\<close>

datatype spinlock_name = Ptspin | Swapspin | Stealmem_lock

record swappage =
  sw_pid :: pid_t
  sw_addr :: vaddr_t

record 'f machine =
  m_pt :: ptstate
  isAct :: bool
  swappagesmap :: "swappage list"
  maxindswappedpage :: nat
  swapfile :: vnode
  ram :: "nat \<Rightarrow> byte"
  m_tlb :: tlbstate
  m_stats :: counters
  firstpaddr :: paddr_t
  lastpaddr :: paddr_t
  held :: "spinlock_name set"
  vn_refcount :: "vnode \<Rightarrow> nat"
  files :: 'f

section \<open>Spinlocks\<close>

text \<open>
  A CPU that acquires a spinlock it holds panics; releasing one it does not hold fails an
  assertion. Waiting for another CPU ends when that CPU releases the lock and leaves no
  trace in the state, so it is not modelled.
\<close>

definition spinlock_acquire :: "spinlock_name \<Rightarrow> 'f machine \<Rightarrow> 'f machine res" where
  "spinlock_acquire l s =
     (if l \<in> held s then Inl (Panic ''Deadlock on spinlock'')
      else Inr (s\<lparr>held := insert l (held s)\<rparr>))"

definition spinlock_release :: "spinlock_name \<Rightarrow> 'f machine \<Rightarrow> 'f machine res" where
  "spinlock_release l s =
     (if l \<notin> held s then Inl Kassert else Inr (s\<lparr>held := held s - {l}\<rparr>))"

definition spinlock_do_i_hold :: "spinlock_name \<Rightarrow> 'f machine \<Rightarrow> bool" where
  "spinlock_do_i_hold l s \<longleftrightarrow> l \<in> held s"

text \<open>Code that may sleep must hold no spinlock.\<close>

definition pt_can_sleep :: "'f machine \<Rightarrow> unit res" where
  "pt_can_sleep s = (if held s = {} then Inr () else Inl Kassert)"

lemma acquire_free [simp, res_simps]:
  "l \<notin> held s \<Longrightarrow> spinlock_acquire l s = Inr (s\<lparr>held := insert l (held s)\<rparr>)"
  by (simp add: spinlock_acquire_def)

lemma release_held [simp, res_simps]:
  "l \<in> held s \<Longrightarrow> spinlock_release l s = Inr (s\<lparr>held := held s - {l}\<rparr>)"
  by (simp add: spinlock_release_def)

lemma held_id [simp]: "held s = h \<Longrightarrow> s\<lparr>held := h\<rparr> = s"
  by (cases s) simp

section \<open>Transfers between files and physical memory\<close>

text \<open>
  \<^verbatim>\<open>uio_kinit\<close> followed by \<^verbatim>\<open>VOP_READ\<close> or \<^verbatim>\<open>VOP_WRITE\<close>: move up to \<open>n\<close> bytes between the
  file at \<open>off\<close> and the physical memory behind a kernel address. The operations may sleep,
  so the CPU must not hold a spinlock.
\<close>

definition file_to_ram :: "'f vnode_ops \<Rightarrow> 'f machine \<Rightarrow> vnode \<Rightarrow> int \<Rightarrow> nat \<Rightarrow> paddr_t \<Rightarrow> (int \<times> 'f machine) res" where
  "file_to_ram ops s v off n p =
     (if held s \<noteq> {} then Inl Kassert
      else let (res, bs) = vop_read ops (files s) v off n
           in Inr (res, s\<lparr>ram := write_ram (ram s) (unat p) bs\<rparr>))"

definition ram_to_file :: "'f vnode_ops \<Rightarrow> 'f machine \<Rightarrow> vnode \<Rightarrow> int \<Rightarrow> nat \<Rightarrow> paddr_t \<Rightarrow> (int \<times> 'f machine) res" where
  "ram_to_file ops s v off n p =
     (if held s \<noteq> {} then Inl Kassert
      else let (res, fs') = vop_write ops (files s) v off (read_ram (ram s) (unat p) n)
           in Inr (res, s\<lparr>files := fs'\<rparr>))"

text \<open>
  References to vnodes (\<^verbatim>\<open>kern/vfs/vnode.c\<close>). The last reference is handed to the file system's
  \<^verbatim>\<open>VOP_RECLAIM\<close>, after which the vnode has none.
\<close>

definition vnode_incref :: "vnode \<Rightarrow> 'f machine \<Rightarrow> 'f machine" where
  "vnode_incref v s = s\<lparr>vn_refcount := (vn_refcount s)(v := vn_refcount s v + 1)\<rparr>"

definition vnode_decref :: "vnode \<Rightarrow> 'f machine \<Rightarrow> 'f machine res" where
  "vnode_decref v s =
     (if vn_refcount s v = 0 then Inl Kassert
      else if vn_refcount s v > 1 then Inr (s\<lparr>vn_refcount := (vn_refcount s)(v := vn_refcount s v - 1)\<rparr>)
      else Inr (s\<lparr>vn_refcount := (vn_refcount s)(v := 0)\<rparr>))"

definition vfs_close :: "vnode \<Rightarrow> 'f machine \<Rightarrow> 'f machine res" where
  "vfs_close v s = vnode_decref v s"

text \<open>Counting an event (\<^verbatim>\<open>vmstatincr\<close>).\<close>

definition incr :: "vmstats \<Rightarrow> 'f machine \<Rightarrow> 'f machine" where
  "incr t s = s\<lparr>m_stats := vmstatincr (m_stats s) t\<rparr>"

lemma incr_simps [simp]:
  "m_pt (incr t s) = m_pt s" "isAct (incr t s) = isAct s" "swappagesmap (incr t s) = swappagesmap s"
  "maxindswappedpage (incr t s) = maxindswappedpage s" "swapfile (incr t s) = swapfile s"
  "ram (incr t s) = ram s" "m_tlb (incr t s) = m_tlb s" "held (incr t s) = held s"
  "files (incr t s) = files s" "m_stats (incr t s) = vmstatincr (m_stats s) t"
  by (simp_all add: incr_def)

text \<open>The physical address of a frame.\<close>

definition frame_paddr :: "nat \<Rightarrow> paddr_t" where
  "frame_paddr f = word_of_nat f * word_of_nat PAGE_SIZE"

lemma unat_frame_paddr: "f < 2 ^ 20 \<Longrightarrow> unat (frame_paddr f) = f * PAGE_SIZE"
  by (simp add: frame_paddr_def PAGE_SIZE_def unat_word_ariths unat_of_nat take_bit_nat_eq_self)

lemma frame_paddr_0: "f < 2 ^ 20 \<Longrightarrow> frame_paddr f = 0 \<longleftrightarrow> f = 0"
  using unat_frame_paddr [of f] by (auto simp: PAGE_SIZE_def frame_paddr_def)

end
