(* ===== verification/Swapfile.thy ===== *)
theory Swapfile
  imports Machine
begin

text \<open>
  The swap space, \<^verbatim>\<open>kern/vm/swapfile.c\<close>: a table with the owner and the address of the page in
  each slot of the swap file. Note the names: \<^verbatim>\<open>swapinpage\<close> writes a page to the swap
  file, \<^verbatim>\<open>swapoutpage\<close> reads it back and frees its slot. The opened vnode that
  \<^verbatim>\<open>vfs_open\<close> hands back is an argument of \<open>swapinit\<close>.
\<close>

section \<open>Operations\<close>

definition SWAPFILESIZE :: nat where "SWAPFILESIZE = 9 * 1024 * 1024"
definition SWAPPAGES :: nat where "SWAPPAGES = SWAPFILESIZE div PAGE_SIZE"

lemma SWAPPAGES_eq: "SWAPPAGES = 2304"
  by (simp add: SWAPPAGES_def SWAPFILESIZE_def PAGE_SIZE_def)

definition getswapspin :: "'f machine \<Rightarrow> 'f machine res" where
  "getswapspin s =
     (if spinlock_do_i_hold Swapspin s then Inr s
      else bindR (spinlock_acquire Swapspin s) (\<lambda>s1.
        if spinlock_do_i_hold Swapspin s1 then Inr s1 else Inl Kassert))"

definition releaseswapspin :: "'f machine \<Rightarrow> 'f machine res" where
  "releaseswapspin s =
     (if \<not> spinlock_do_i_hold Swapspin s then Inl Kassert
      else bindR (spinlock_release Swapspin s) (\<lambda>s1.
        if spinlock_do_i_hold Swapspin s1 then Inl Kassert else Inr s1))"

abbreviation free_swappage :: swappage where
  "free_swappage \<equiv> \<lparr>sw_pid = -1, sw_addr = 0\<rparr>"

definition swapinit :: "int \<times> vnode option \<Rightarrow> 'f machine \<Rightarrow> 'f machine res" where
  "swapinit opened s =
     (if fst opened \<noteq> 0 then Inl (Panic ''Could not open swapfile'')
      else case snd opened of
        None \<Rightarrow> Inl Kassert
      | Some v \<Rightarrow>
          bindR (getswapspin (s\<lparr>swapfile := v\<rparr>)) (\<lambda>s1.
          releaseswapspin (s1\<lparr>swappagesmap := replicate SWAPPAGES free_swappage\<rparr>)))"

definition swap_freeslot :: "'f machine \<Rightarrow> nat option" where
  "swap_freeslot s = find (\<lambda>i. sw_pid (swappagesmap s ! i) = -1) [0..<SWAPPAGES]"

definition swapped :: "'f machine \<Rightarrow> pagekey \<Rightarrow> nat option" where
  "swapped s k =
     find (\<lambda>i. sw_pid (swappagesmap s ! i) = fst k \<and> sw_addr (swappagesmap s ! i) = snd k) [0..<SWAPPAGES]"

definition swap_offset :: "nat \<Rightarrow> int" where
  "swap_offset ind = int ind * int PAGE_SIZE"

definition swap_take :: "'f machine \<Rightarrow> nat \<Rightarrow> pid_t \<Rightarrow> vaddr_t \<Rightarrow> 'f machine" where
  "swap_take s i pid addr =
     s\<lparr>swappagesmap := (swappagesmap s)[i := \<lparr>sw_pid = pid, sw_addr = addr\<rparr>],
       maxindswappedpage := (if maxindswappedpage s \<le> i then i else maxindswappedpage s)\<rparr>"

definition swapinpage :: "'f vnode_ops \<Rightarrow> 'f machine \<Rightarrow> pid_t \<Rightarrow> vaddr_t \<Rightarrow> paddr_t
    \<Rightarrow> (int \<times> 'f machine) res" where
  "swapinpage ops s pid addr readfrom =
     bindR (getswapspin s) (\<lambda>s1.
     let ind = swap_freeslot s1 in
     bindR (releaseswapspin (case ind of None \<Rightarrow> s1 | Some i \<Rightarrow> swap_take s1 i pid addr)) (\<lambda>s2.
     case ind of
       None \<Rightarrow> Inl (Panic ''Swapfile has reached the maximum memory allowed'')
     | Some i \<Rightarrow>
         bindR (ram_to_file ops s2 (swapfile s2) (swap_offset i) PAGE_SIZE readfrom) (\<lambda>(res, s3).
         if res \<noteq> 0 then Inl (Panic ''Write in swapfile didnt complete'')
         else Inr (0, incr SWAPWRITE s3))))"

definition swapoutpage :: "'f vnode_ops \<Rightarrow> 'f machine \<Rightarrow> pid_t \<Rightarrow> vaddr_t \<Rightarrow> paddr_t
    \<Rightarrow> (int \<times> 'f machine) res" where
  "swapoutpage ops s pid addr readin =
     bindR (getswapspin s) (\<lambda>s1.
     let ind = swapped s1 (pid, addr) in
     bindR (releaseswapspin s1) (\<lambda>s2.
     case ind of
       None \<Rightarrow> Inr (EADDRNOTAVAIL, s2)
     | Some i \<Rightarrow>
         bindR (file_to_ram ops s2 (swapfile s2) (swap_offset i) PAGE_SIZE readin) (\<lambda>(res, s3).
         if res \<noteq> 0 then Inl (Panic ''Error while swapping a page out'')
         else bindR (getswapspin s3) (\<lambda>s4.
           bindR (releaseswapspin (s4\<lparr>swappagesmap := (swappagesmap s4)[i := free_swappage]\<rparr>))
             (\<lambda>s5. Inr (0, s5))))))"

text \<open>\<^verbatim>\<open>removeswapentries\<close>: the body of its loop for the slots below \<open>n\<close>, in order.\<close>

fun removeswap_loop :: "nat \<Rightarrow> pid_t \<Rightarrow> swappage list \<Rightarrow> swappage list" where
  "removeswap_loop 0 pid xs = xs"
| "removeswap_loop (Suc i) pid xs =
     (let ys = removeswap_loop i pid xs
      in if sw_pid (ys ! i) = pid then ys[i := free_swappage] else ys)"

definition removeswapentries :: "'f machine \<Rightarrow> pid_t \<Rightarrow> 'f machine res" where
  "removeswapentries s pid =
     bindR (getswapspin s) (\<lambda>s1.
     if length (swappagesmap s1) \<le> maxindswappedpage s1 then Inl OutOfBounds
     else releaseswapspin (s1\<lparr>swappagesmap :=
            removeswap_loop (Suc (maxindswappedpage s1)) pid (swappagesmap s1)\<rparr>))"

text \<open>\<^verbatim>\<open>swapdest\<close>: \<^verbatim>\<open>spinlock_cleanup\<close> asserts that the lock is free.\<close>

definition swapdest :: "'f machine \<Rightarrow> 'f machine res" where
  "swapdest s =
     bindR (vfs_close (swapfile s) s) (\<lambda>s1. if Swapspin \<in> held s1 then Inl Kassert else Inr s1)"

section \<open>Invariant and meaning\<close>

definition slot_data :: "'f vnode_ops \<Rightarrow> 'f machine \<Rightarrow> nat \<Rightarrow> int \<times> byte list" where
  "slot_data ops s i = vop_read ops (files s) (swapfile s) (swap_offset i) PAGE_SIZE"

definition slot_key :: "'f machine \<Rightarrow> nat \<Rightarrow> pagekey" where
  "slot_key s i = (sw_pid (swappagesmap s ! i), sw_addr (swappagesmap s ! i))"

definition slots_used :: "'f machine \<Rightarrow> nat set" where
  "slots_used s = {i. i < SWAPPAGES \<and> sw_pid (swappagesmap s ! i) \<noteq> -1}"

definition swap_inv :: "'f vnode_ops \<Rightarrow> 'f machine \<Rightarrow> bool" where
  "swap_inv ops s \<longleftrightarrow> length (swappagesmap s) = SWAPPAGES \<and> maxindswappedpage s < SWAPPAGES \<and>
     inj_on (slot_key s) (slots_used s) \<and>
     (\<forall>i \<in> slots_used s. i \<le> maxindswappedpage s \<and> 0 < sw_pid (swappagesmap s ! i) \<and>
        fst (slot_data ops s i) = 0 \<and> length (snd (slot_data ops s i)) = PAGE_SIZE)"

text \<open>The pages in the swap file, by key.\<close>

definition swap_contents :: "'f vnode_ops \<Rightarrow> 'f machine \<Rightarrow> pagekey \<Rightarrow> byte list option" where
  "swap_contents ops s k =
     (if fst k = -1 then None else map_option (\<lambda>i. snd (slot_data ops s i)) (swapped s k))"

lemma swap_invD:
  assumes "swap_inv ops s"
  shows "length (swappagesmap s) = SWAPPAGES" "maxindswappedpage s < SWAPPAGES"
    "inj_on (slot_key s) (slots_used s)"
    "i \<in> slots_used s \<Longrightarrow> i \<le> maxindswappedpage s"
    "i \<in> slots_used s \<Longrightarrow> 0 < sw_pid (swappagesmap s ! i)"
    "i \<in> slots_used s \<Longrightarrow> fst (slot_data ops s i) = 0"
    "i \<in> slots_used s \<Longrightarrow> length (snd (slot_data ops s i)) = PAGE_SIZE"
  using assms unfolding swap_inv_def by blast+

lemma swapped_iff:
  assumes "inj_on (slot_key s) (slots_used s)" "fst k \<noteq> -1"
  shows "swapped s k = Some i \<longleftrightarrow> i \<in> slots_used s \<and> slot_key s i = k"
proof -
  have "swapped s k = Some i \<longleftrightarrow> i \<in> set [0..<SWAPPAGES] \<and>
      sw_pid (swappagesmap s ! i) = fst k \<and> sw_addr (swappagesmap s ! i) = snd k"
    unfolding swapped_def
    by (rule find_unique_iff)
      (use assms in \<open>auto simp: slots_used_def slot_key_def inj_on_def\<close>)
  then show ?thesis using assms(2) by (auto simp: slots_used_def slot_key_def prod_eq_iff)
qed

lemma swap_contents_iff:
  assumes "swap_inv ops s"
  shows "swap_contents ops s k = Some bs \<longleftrightarrow>
    (\<exists>i \<in> slots_used s. slot_key s i = k \<and> snd (slot_data ops s i) = bs)"
proof (cases "fst k = -1")
  case True
  then show ?thesis by (auto simp: swap_contents_def slots_used_def slot_key_def)
next
  case False
  then show ?thesis
    using swapped_iff [OF swap_invD(3) [OF assms] False] by (auto simp: swap_contents_def)
qed

lemma swap_freeslot_iff:
  "swap_freeslot s = None \<longleftrightarrow> slots_used s = {..<SWAPPAGES}"
  "swap_freeslot s = Some i \<Longrightarrow> i < SWAPPAGES \<and> i \<notin> slots_used s \<and> (\<forall>j < i. j \<in> slots_used s)"
proof -
  show "swap_freeslot s = None \<longleftrightarrow> slots_used s = {..<SWAPPAGES}"
    by (auto simp: swap_freeslot_def slots_used_def find_None_iff)
  assume "swap_freeslot s = Some i"
  then show "i < SWAPPAGES \<and> i \<notin> slots_used s \<and> (\<forall>j < i. j \<in> slots_used s)"
    by (auto simp: swap_freeslot_def slots_used_def find_Some_iff)
qed

text \<open>The swap map and its files are what the invariant and the contents depend on.\<close>

lemma swap_cong:
  assumes "swappagesmap s' = swappagesmap s" "maxindswappedpage s' = maxindswappedpage s"
    "files s' = files s" "swapfile s' = swapfile s"
  shows "swap_inv ops s' = swap_inv ops s" "swap_contents ops s' = swap_contents ops s"
    "swapped s' = swapped s" "slots_used s' = slots_used s"
  using assms by (auto simp: swap_inv_def slot_key_def slots_used_def slot_data_def swap_contents_def
      swapped_def fun_eq_iff inj_on_def)

section \<open>The operations under the invariant\<close>

lemma swapspin_simps [simp, res_simps]:
  "Swapspin \<notin> held s \<Longrightarrow> getswapspin s = Inr (s\<lparr>held := insert Swapspin (held s)\<rparr>)"
  "Swapspin \<in> held s \<Longrightarrow> getswapspin s = Inr s"
  "Swapspin \<in> held s \<Longrightarrow> releaseswapspin s = Inr (s\<lparr>held := held s - {Swapspin}\<rparr>)"
  by (simp_all add: getswapspin_def releaseswapspin_def spinlock_do_i_hold_def)

lemma swap_held_upd [simp]: "swap_freeslot (s\<lparr>held := h\<rparr>) = swap_freeslot s"
  "swapped (s\<lparr>held := h\<rparr>) = swapped s"
  by (simp_all add: swap_freeslot_def swapped_def fun_eq_iff)

text \<open>What an operation on the swap space leaves alone.\<close>

definition same_frame_state :: "'f machine \<Rightarrow> 'f machine \<Rightarrow> bool" where
  "same_frame_state s s' \<longleftrightarrow> m_pt s' = m_pt s \<and> isAct s' = isAct s \<and> swapfile s' = swapfile s \<and>
     m_tlb s' = m_tlb s \<and> firstpaddr s' = firstpaddr s \<and> lastpaddr s' = lastpaddr s \<and> held s' = held s"

text \<open>Filling a free slot with a fresh key, and freeing a slot.\<close>

lemma slots_upd:
  assumes m: "swappagesmap s' = (swappagesmap s)[i := e]" and i: "i < SWAPPAGES"
    and len: "length (swappagesmap s) = SWAPPAGES"
  shows "slots_used s' = (if sw_pid e = -1 then slots_used s - {i} else insert i (slots_used s))"
    and "slot_key s' j = (if j = i then (sw_pid e, sw_addr e) else slot_key s j)"
    and "length (swappagesmap s') = SWAPPAGES"
  using assms by (auto simp: slots_used_def slot_key_def nth_list_update)

lemma swap_inv_take:
  assumes inv: "swap_inv ops s" and i: "i < SWAPPAGES" "i \<notin> slots_used s" and k: "0 < pid"
    and new: "swap_contents ops s (pid, addr) = None"
    and s': "swappagesmap s' = (swappagesmap s)[i := \<lparr>sw_pid = pid, sw_addr = addr\<rparr>]"
      "maxindswappedpage s' = (if maxindswappedpage s \<le> i then i else maxindswappedpage s)"
    and data: "slot_data ops s' i = (0, bs)" "length bs = PAGE_SIZE"
      "\<forall>j \<in> slots_used s. slot_data ops s' j = slot_data ops s j"
  shows "swap_inv ops s'" "swap_contents ops s' = (swap_contents ops s)((pid, addr) \<mapsto> bs)"
proof -
  note d = swap_invD [OF inv] and u = slots_upd [OF s'(1) i(1) swap_invD(1) [OF inv]]
  have U: "slots_used s' = insert i (slots_used s)" using u(1) k by simp
  have K: "slot_key s' i = (pid, addr)" "\<forall>j \<in> slots_used s. slot_key s' j = slot_key s j"
    using u(2) i(2) by auto
  have N: "\<forall>j \<in> slots_used s. slot_key s j \<noteq> (pid, addr)"
    using new swap_contents_iff [OF inv] by (metis not_None_eq)
  have "inj_on (slot_key s') (slots_used s')"
    unfolding U using d(3) K N i(2) by (auto simp: inj_on_def)
  moreover have "maxindswappedpage s' < SWAPPAGES" "i \<le> maxindswappedpage s'"
    "\<forall>j \<in> slots_used s. j \<le> maxindswappedpage s'"
    using d(2,4) s'(2) i(1) by (auto intro: order_trans)
  moreover have "0 < sw_pid (swappagesmap s' ! j)" if "j \<in> slots_used s'" for j
    using that d(1,5) k i unfolding U s'(1) by (auto simp: nth_list_update)
  ultimately show inv': "swap_inv ops s'"
    unfolding swap_inv_def using u(3) d(6,7) data unfolding U by auto
  show "swap_contents ops s' = (swap_contents ops s)((pid, addr) \<mapsto> bs)"
  proof (rule map_eqI)
    fix k' cs
    show "swap_contents ops s' k' = Some cs \<longleftrightarrow> ((swap_contents ops s)((pid, addr) \<mapsto> bs)) k' = Some cs"
      unfolding swap_contents_iff [OF inv'] U fun_upd_apply
      using swap_contents_iff [OF inv, of k' cs] K N data by auto
  qed
qed

lemma swap_inv_free:
  assumes inv: "swap_inv ops s" and i: "i \<in> slots_used s"
    and s': "swappagesmap s' = (swappagesmap s)[i := free_swappage]"
      "maxindswappedpage s' = maxindswappedpage s" "files s' = files s" "swapfile s' = swapfile s"
  shows "swap_inv ops s'" "swap_contents ops s' = (swap_contents ops s)(slot_key s i := None)"
proof -
  have il: "i < SWAPPAGES" using i by (simp add: slots_used_def)
  note d = swap_invD [OF inv] and u = slots_upd [OF s'(1) il swap_invD(1) [OF inv]]
  have U: "slots_used s' = slots_used s - {i}" using u(1) by simp
  have D: "slot_data ops s' = slot_data ops s" using s' by (auto simp: slot_data_def fun_eq_iff)
  have "inj_on (slot_key s') (slots_used s')" unfolding U using d(3) u(2) by (auto simp: inj_on_def)
  then show inv': "swap_inv ops s'" unfolding swap_inv_def U D using u(3) d s' by (auto simp: nth_list_update)
  show "swap_contents ops s' = (swap_contents ops s)(slot_key s i := None)"
  proof (rule map_eqI)
    fix k' cs
    have "slot_key s j = slot_key s i \<longleftrightarrow> j = i" if "j \<in> slots_used s" for j
      using that i d(3) by (auto simp: inj_on_def)
    then show "swap_contents ops s' k' = Some cs \<longleftrightarrow> ((swap_contents ops s)(slot_key s i := None)) k' = Some cs"
      unfolding swap_contents_iff [OF inv'] U D fun_upd_apply
      using swap_contents_iff [OF inv, of k' cs] u(2) by auto
  qed
qed

text \<open>The disk accepts writes; other files are left alone.\<close>

definition disk_ok :: "'f vnode_ops \<Rightarrow> bool" where
  "disk_ok ops \<longleftrightarrow> (\<forall>fs v off bs. fst (vop_write ops fs v off bs) = 0)"

definition files_kept :: "'f vnode_ops \<Rightarrow> vnode \<Rightarrow> 'f \<Rightarrow> 'f \<Rightarrow> bool" where
  "files_kept ops sw fs fs' \<longleftrightarrow>
     (\<forall>v off n. v \<noteq> sw \<longrightarrow> vop_read ops fs' v off n = vop_read ops fs v off n)"

lemma files_kept_refl [simp]: "files_kept ops sw fs fs"
  by (simp add: files_kept_def)

lemma files_kept_write:
  assumes "vnode_ops_ok ops" "vop_write ops fs sw off bs = (0, fs')"
  shows "files_kept ops sw fs fs'"
  unfolding files_kept_def using vnode_ops_okD(4) [OF assms] by blast

lemma slots_apart:
  assumes "j \<noteq> i"
  shows "swap_offset j + int PAGE_SIZE \<le> swap_offset i \<or> swap_offset i + int PAGE_SIZE \<le> swap_offset j"
proof -
  have "Suc j * PAGE_SIZE \<le> i * PAGE_SIZE \<or> Suc i * PAGE_SIZE \<le> j * PAGE_SIZE"
    using assms by (metis Suc_leI mult_le_mono1 nat_neq_iff)
  then show ?thesis unfolding swap_offset_def
    by (metis mult_Suc add.commute of_nat_add of_nat_le_iff of_nat_mult)
qed

lemma swapinpage_ok:
  assumes ops: "vnode_ops_ok ops" "disk_ok ops" and inv: "swap_inv ops s" and h: "held s = {}"
    and free: "slots_used s \<noteq> {..<SWAPPAGES}" and k: "0 < pid" "swap_contents ops s (pid, addr) = None"
  shows "\<exists>s'. swapinpage ops s pid addr p = Inr (0, s') \<and> swap_inv ops s' \<and>
     swap_contents ops s' = (swap_contents ops s)((pid, addr) \<mapsto> read_ram (ram s) (unat p) PAGE_SIZE) \<and>
     same_frame_state s s' \<and> ram s' = ram s \<and> m_stats s' = vmstatincr (m_stats s) SWAPWRITE \<and>
     files_kept ops (swapfile s) (files s) (files s')"
proof -
  let ?bs = "read_ram (ram s) (unat p) PAGE_SIZE"
  obtain i where fs: "swap_freeslot s = Some i" using free swap_freeslot_iff(1) [of s] by auto
  have i: "i < SWAPPAGES" "i \<notin> slots_used s" using swap_freeslot_iff(2) [OF fs] by auto
  obtain fs' where w: "vop_write ops (files s) (swapfile s) (swap_offset i) ?bs = (0, fs')"
    using ops(2) unfolding disk_ok_def by (metis prod.collapse)
  let ?s' = "incr SWAPWRITE ((swap_take s i pid addr)\<lparr>files := fs'\<rparr>)"
  have run: "swapinpage ops s pid addr p = Inr (0, ?s')"
    using h fs w by (simp add: swapinpage_def swap_take_def ram_to_file_def incr_def)
  have off: "0 \<le> swap_offset j" for j by (simp add: swap_offset_def)
  have d: "slot_data ops ?s' i = (0, ?bs)"
    using vnode_ops_okD(2) [OF ops(1) off w] by (simp add: slot_data_def incr_def swap_take_def)
  have dj: "slot_data ops ?s' j = slot_data ops s j" if "j \<in> slots_used s" for j
  proof -
    have "j \<noteq> i" using that i(2) by auto
    then show ?thesis
      using vnode_ops_okD(3) [OF ops(1) off off w, of j PAGE_SIZE "snd (slot_data ops s j)"]
        slots_apart [of j i] swap_invD(6,7) [OF inv that]
      by (simp add: slot_data_def incr_def swap_take_def prod_eq_iff)
  qed
  have "swappagesmap ?s' = (swappagesmap s)[i := \<lparr>sw_pid = pid, sw_addr = addr\<rparr>]"
    "maxindswappedpage ?s' = (if maxindswappedpage s \<le> i then i else maxindswappedpage s)"
    by (simp_all add: incr_def swap_take_def)
  from swap_inv_take [OF inv i k this d] dj run files_kept_write [OF ops(1) w]
  show ?thesis by (intro exI [of _ ?s']) (auto simp: same_frame_state_def incr_def swap_take_def)
qed

lemma swapinpage_full:
  "held s = {} \<Longrightarrow> slots_used s = {..<SWAPPAGES} \<Longrightarrow>
   swapinpage ops s pid addr p = Inl (Panic ''Swapfile has reached the maximum memory allowed'')"
  using swap_freeslot_iff(1) [of s] by (simp add: swapinpage_def)

lemma swapoutpage_ok:
  assumes inv: "swap_inv ops s" and h: "held s = {}" and pid: "0 < pid"
    and c: "swap_contents ops s (pid, addr) = Some bs"
  shows "\<exists>s'. swapoutpage ops s pid addr p = Inr (0, s') \<and> swap_inv ops s' \<and>
     swap_contents ops s' = (swap_contents ops s)((pid, addr) := None) \<and> same_frame_state s s' \<and>
     ram s' = write_ram (ram s) (unat p) bs \<and> m_stats s' = m_stats s \<and> files s' = files s \<and>
     length bs = PAGE_SIZE"
proof -
  obtain i where i: "i \<in> slots_used s" "slot_key s i = (pid, addr)" "snd (slot_data ops s i) = bs"
    using c swap_contents_iff [OF inv] by blast
  have sw: "swapped s (pid, addr) = Some i" using swapped_iff [OF swap_invD(3) [OF inv]] i pid by simp
  let ?s' = "s\<lparr>ram := write_ram (ram s) (unat p) bs, swappagesmap := (swappagesmap s)[i := free_swappage]\<rparr>"
  have rd: "vop_read ops (files s) (swapfile s) (swap_offset i) PAGE_SIZE = (0, bs)"
    using swap_invD(6) [OF inv i(1)] i(3) by (simp add: slot_data_def prod_eq_iff)
  have "swapoutpage ops s pid addr p = Inr (0, ?s')"
    using h sw rd by (simp add: swapoutpage_def file_to_ram_def)
  then show ?thesis
    using swap_inv_free [OF inv i(1), of ?s'] i swap_invD(7) [OF inv i(1)] by (auto simp: same_frame_state_def)
qed

lemma swapoutpage_absent:
  assumes inv: "swap_inv ops s" and h: "held s = {}" and pid: "0 < pid"
    and c: "swap_contents ops s (pid, addr) = None"
  shows "swapoutpage ops s pid addr p = Inr (EADDRNOTAVAIL, s)"
proof -
  have "swapped s (pid, addr) = None" using c pid by (simp add: swap_contents_def)
  then show ?thesis using h by (simp add: swapoutpage_def)
qed

text \<open>\<^verbatim>\<open>removeswapentries\<close> frees every slot of the process; the high-water mark covers them all.\<close>

lemma removeswap_loop_nth:
  "n \<le> length xs \<Longrightarrow> length (removeswap_loop n pid xs) = length xs \<and>
   (\<forall>j < length xs. removeswap_loop n pid xs ! j =
      (if j < n \<and> sw_pid (xs ! j) = pid then free_swappage else xs ! j))"
  by (induction n) (auto simp: Let_def nth_list_update)

lemma removeswapentries_ok:
  assumes inv: "swap_inv ops s" and h: "held s = {}" and pid: "0 < pid"
  shows "\<exists>s'. removeswapentries s pid = Inr s' \<and> swap_inv ops s' \<and>
     swap_contents ops s' = (\<lambda>k. if fst k = pid then None else swap_contents ops s k) \<and>
     same_frame_state s s' \<and> ram s' = ram s \<and> m_stats s' = m_stats s \<and> files s' = files s"
proof -
  note d = swap_invD [OF inv]
  let ?n = "Suc (maxindswappedpage s)" and ?m = "swappagesmap s"
  let ?s' = "s\<lparr>swappagesmap := removeswap_loop ?n pid ?m\<rparr>"
  have n: "?n \<le> length ?m" using d(1,2) by simp
  note r = removeswap_loop_nth [OF n, of pid]
  have run: "removeswapentries s pid = Inr ?s'" using n h by (simp add: removeswapentries_def)
  have U: "slots_used ?s' = {i \<in> slots_used s. sw_pid (?m ! i) \<noteq> pid}"
    using r d(1,4) pid by (auto simp: slots_used_def less_Suc_eq_le)
  have K: "swappagesmap ?s' ! j = ?m ! j" if "j \<in> slots_used ?s'" for j
    using that r d(1) unfolding U by (auto simp: slots_used_def)
  then have K': "slot_key ?s' j = slot_key s j" if "j \<in> slots_used ?s'" for j
    using that by (simp add: slot_key_def)
  have D: "slot_data ops ?s' = slot_data ops s" by (simp add: slot_data_def fun_eq_iff)
  have sub: "slots_used ?s' \<subseteq> slots_used s" unfolding U by blast
  have inj: "inj_on (slot_key ?s') (slots_used ?s')"
    using inj_on_subset [OF d(3) sub] K' by (simp add: inj_on_def)
  have "swap_inv ops ?s'"
    unfolding swap_inv_def D
  proof (intro conjI ballI)
    fix i assume i: "i \<in> slots_used ?s'"
    then have "i \<in> slots_used s" using sub by blast
    from d(4-7) [OF this] K [OF i]
    show "i \<le> maxindswappedpage ?s'" "0 < sw_pid (swappagesmap ?s' ! i)" "fst (slot_data ops s i) = 0"
      "length (snd (slot_data ops s i)) = PAGE_SIZE" by simp_all
  qed (use r d inj in simp_all)
  moreover have "swap_contents ops ?s' = (\<lambda>k. if fst k = pid then None else swap_contents ops s k)"
  proof (rule map_eqI)
    fix k bs
    have "swap_contents ops ?s' k = Some bs \<longleftrightarrow> (\<exists>i \<in> slots_used ?s'. slot_key s i = k \<and> snd (slot_data ops s i) = bs)"
      using swap_contents_iff [OF calculation, of k bs] K' D by auto
    also have "\<dots> \<longleftrightarrow> fst k \<noteq> pid \<and> swap_contents ops s k = Some bs"
      unfolding swap_contents_iff [OF inv] U by (auto simp: slot_key_def)
    finally show "swap_contents ops ?s' k = Some bs \<longleftrightarrow>
        (if fst k = pid then None else swap_contents ops s k) = Some bs" by simp
  qed
  ultimately show ?thesis using run by (auto simp: same_frame_state_def)
qed

lemma removeswapentries_refs: "removeswapentries s pid = Inr s' \<Longrightarrow> vn_refcount s' = vn_refcount s"
  by (auto simp: removeswapentries_def getswapspin_def releaseswapspin_def spinlock_acquire_def spinlock_release_def
      spinlock_do_i_hold_def split: if_splits)

lemma swapinit_ok:
  assumes h: "held s = {}" and m: "maxindswappedpage s = 0"
  shows "\<exists>s'. swapinit (0, Some v) s = Inr s' \<and> swap_inv ops s' \<and> swap_contents ops s' = Map.empty \<and>
     slots_used s' = {} \<and> swapfile s' = v \<and> m_pt s' = m_pt s \<and> held s' = {}"
proof -
  let ?s' = "s\<lparr>swapfile := v, swappagesmap := replicate SWAPPAGES free_swappage\<rparr>"
  have run: "swapinit (0, Some v) s = Inr ?s'" using h by (simp add: swapinit_def)
  have U: "slots_used ?s' = {}" by (auto simp: slots_used_def)
  have inv: "swap_inv ops ?s'" unfolding swap_inv_def U using m by (simp add: SWAPPAGES_eq)
  have "swap_contents ops ?s' = Map.empty"
    using swap_contents_iff [OF inv] U by (intro map_eqI) auto
  then show ?thesis using run inv U h by auto
qed

section \<open>The contract\<close>

text \<open>
  A store for evicted pages: \<open>put\<close> saves the page of memory at an address under a key,
  \<open>get\<close> brings it back to another address and forgets it, \<open>purge\<close> forgets a process.
\<close>

locale page_store =
  fixes inv :: "'s \<Rightarrow> bool"
    and stored :: "'s \<Rightarrow> pagekey \<Rightarrow> byte list option"
    and memory :: "'s \<Rightarrow> nat \<Rightarrow> byte"
    and room :: "'s \<Rightarrow> bool"
    and put :: "'s \<Rightarrow> pid_t \<Rightarrow> vaddr_t \<Rightarrow> paddr_t \<Rightarrow> (int \<times> 's) res"
    and get :: "'s \<Rightarrow> pid_t \<Rightarrow> vaddr_t \<Rightarrow> paddr_t \<Rightarrow> (int \<times> 's) res"
    and purge :: "'s \<Rightarrow> pid_t \<Rightarrow> 's res"
  assumes put_ok: "\<lbrakk>inv s; room s; 0 < pid; stored s (pid, v) = None\<rbrakk> \<Longrightarrow>
      \<exists>s'. put s pid v p = Inr (0, s') \<and> inv s' \<and> memory s' = memory s \<and>
        stored s' = (stored s)((pid, v) \<mapsto> read_ram (memory s) (unat p) PAGE_SIZE)"
    and get_ok: "\<lbrakk>inv s; 0 < pid; stored s (pid, v) = Some bs\<rbrakk> \<Longrightarrow>
      \<exists>s'. get s pid v p = Inr (0, s') \<and> inv s' \<and> memory s' = write_ram (memory s) (unat p) bs \<and>
        stored s' = (stored s)((pid, v) := None)"
    and get_absent: "\<lbrakk>inv s; 0 < pid; stored s (pid, v) = None\<rbrakk> \<Longrightarrow> get s pid v p = Inr (EADDRNOTAVAIL, s)"
    and purge_ok: "\<lbrakk>inv s; 0 < pid\<rbrakk> \<Longrightarrow> \<exists>s'. purge s pid = Inr s' \<and> inv s' \<and> memory s' = memory s \<and>
        stored s' = (\<lambda>k. if fst k = pid then None else stored s k)"
begin

text \<open>A page put away and fetched again arrives unchanged, and the store is as before.\<close>

lemma put_get:
  assumes "inv s" "room s" "0 < pid" "stored s (pid, v) = None"
  shows "\<exists>s1 s2. put s pid v p = Inr (0, s1) \<and> get s1 pid v p' = Inr (0, s2) \<and> inv s2 \<and>
    stored s2 = stored s \<and> memory s2 = write_ram (memory s) (unat p') (read_ram (memory s) (unat p) PAGE_SIZE)"
proof -
  obtain s1 where s1: "put s pid v p = Inr (0, s1)" "inv s1" "memory s1 = memory s"
    "stored s1 = (stored s)((pid, v) \<mapsto> read_ram (memory s) (unat p) PAGE_SIZE)"
    using put_ok [OF assms] by blast
  then obtain s2 where "get s1 pid v p' = Inr (0, s2)" "inv s2" "stored s2 = (stored s1)((pid, v) := None)"
    "memory s2 = write_ram (memory s1) (unat p') (read_ram (memory s) (unat p) PAGE_SIZE)"
    using get_ok [OF s1(2) assms(3), of v] by fastforce
  then show ?thesis using s1 assms(4) by (auto simp: fun_upd_idem)
qed

lemma purged_get:
  assumes "inv s" "0 < pid"
  shows "\<exists>s1. purge s pid = Inr s1 \<and> get s1 pid v p = Inr (EADDRNOTAVAIL, s1)"
  using purge_ok [OF assms] get_absent assms(2) by (metis fst_conv)

end

definition swap_ready :: "'f vnode_ops \<Rightarrow> 'f machine \<Rightarrow> bool" where
  "swap_ready ops s \<longleftrightarrow> vnode_ops_ok ops \<and> disk_ok ops \<and> swap_inv ops s \<and> held s = {}"

definition swap_room :: "'f machine \<Rightarrow> bool" where
  "swap_room s \<longleftrightarrow> swap_freeslot s \<noteq> None"

interpretation sw: page_store "swap_ready ops" "swap_contents ops" ram swap_room
  "swapinpage ops" "swapoutpage ops" removeswapentries
  for ops :: "'f vnode_ops"
proof unfold_locales
  fix s :: "'f machine" and pid v p
  assume "swap_ready ops s" "swap_room s" "0 < pid" "swap_contents ops s (pid, v) = None"
  then show "\<exists>s'. swapinpage ops s pid v p = Inr (0, s') \<and> swap_ready ops s' \<and> ram s' = ram s \<and>
      swap_contents ops s' = (swap_contents ops s)((pid, v) \<mapsto> read_ram (ram s) (unat p) PAGE_SIZE)"
    using swapinpage_ok [of ops s pid v p] swap_freeslot_iff(1) [of s]
    by (auto simp: swap_ready_def swap_room_def same_frame_state_def)
next
  fix s :: "'f machine" and pid v bs p
  assume "swap_ready ops s" "0 < pid" "swap_contents ops s (pid, v) = Some bs"
  then show "\<exists>s'. swapoutpage ops s pid v p = Inr (0, s') \<and> swap_ready ops s' \<and>
      ram s' = write_ram (ram s) (unat p) bs \<and> swap_contents ops s' = (swap_contents ops s)((pid, v) := None)"
    using swapoutpage_ok [of ops s pid v bs p] by (auto simp: swap_ready_def same_frame_state_def)
next
  fix s :: "'f machine" and pid v p
  assume "swap_ready ops s" "0 < pid" "swap_contents ops s (pid, v) = None"
  then show "swapoutpage ops s pid v p = Inr (EADDRNOTAVAIL, s)"
    using swapoutpage_absent [of ops s pid v p] by (simp add: swap_ready_def)
next
  fix s :: "'f machine" and pid :: pid_t
  assume "swap_ready ops s" "0 < pid"
  then show "\<exists>s'. removeswapentries s pid = Inr s' \<and> swap_ready ops s' \<and> ram s' = ram s \<and>
      swap_contents ops s' = (\<lambda>k. if fst k = pid then None else swap_contents ops s k)"
    using removeswapentries_ok [of ops s pid] by (auto simp: swap_ready_def same_frame_state_def)
qed

end
