(* ===== verification/Coremap.thy ===== *)
theory Coremap
  imports Swapfile
begin

text \<open>
  Physical memory management: \<^verbatim>\<open>kern/arch/mips/vm/ram.c\<close>, which hands out memory before the
  VM system is up, and \<^verbatim>\<open>kern/vm/coremap.c\<close>, which serves kernel and user allocations from
  the page table under the spinlock \<^verbatim>\<open>ptspin\<close> and evicts the oldest user page to the swap
  file when no frame is left. \<^verbatim>\<open>ptinit\<close> takes the allocator \<^verbatim>\<open>kmalloc\<close> and the content of
  fresh memory as arguments. All operations run to completion; the window in which the code
  drops \<^verbatim>\<open>ptspin\<close> for the disk is visible in the sequence of steps but no other thread
  runs in it.
\<close>

section \<open>Early physical memory\<close>

definition ram_bootstrap :: "u32 \<Rightarrow> vaddr_t \<Rightarrow> 'f machine \<Rightarrow> 'f machine" where
  "ram_bootstrap ramsize firstfree s =
     s\<lparr>lastpaddr := (if ramsize > 512 * 1024 * 1024 then 512 * 1024 * 1024 else ramsize),
       firstpaddr := firstfree - MIPS_KSEG0\<rparr>"

definition ram_stealmem :: "u32 \<Rightarrow> 'f machine \<Rightarrow> paddr_t \<times> 'f machine" where
  "ram_stealmem npages s =
     (let size = npages * word_of_nat PAGE_SIZE
      in if firstpaddr s + size > lastpaddr s then (0, s)
         else (firstpaddr s, s\<lparr>firstpaddr := firstpaddr s + size\<rparr>))"

definition ram_getsize :: "'f machine \<Rightarrow> paddr_t" where
  "ram_getsize s = lastpaddr s"

definition ram_getfirstfree :: "'f machine \<Rightarrow> paddr_t \<times> 'f machine" where
  "ram_getfirstfree s = (firstpaddr s, s\<lparr>firstpaddr := 0, lastpaddr := 0\<rparr>)"

section \<open>Set-up\<close>

definition isptactive :: "'f machine \<Rightarrow> (bool \<times> 'f machine) res" where
  "isptactive s =
     bindR (spinlock_acquire Ptspin s) (\<lambda>s1.
     bindR (spinlock_release Ptspin s1) (\<lambda>s2. Inr (isAct s1, s2)))"

definition SIZEOF_PTPAGE :: nat where "SIZEOF_PTPAGE = 20"
definition SIZEOF_PTR :: nat where "SIZEOF_PTR = 4"

fun ptinit_loop :: "nat list \<Rightarrow> nat \<Rightarrow> pid_t \<Rightarrow> ptstate \<Rightarrow> ptstate res" where
  "ptinit_loop [] numpages pid st = Inr st"
| "ptinit_loop (i # is) numpages pid st =
     bindR (setptentry st i numpages pid (PADDR_TO_KVADDR (frame_paddr i))) (ptinit_loop is numpages pid)"

definition ptinit :: "(nat \<Rightarrow> 'f machine \<Rightarrow> (bool \<times> 'f machine) res) \<Rightarrow> (nat \<Rightarrow> ptpage) \<Rightarrow> 'f machine
    \<Rightarrow> (int \<times> 'f machine) res" where
  "ptinit kmalloc fresh s =
     (let ptsize = unat (ram_getsize s) div PAGE_SIZE;
          hashedptsize = ptsize div 32
      in bindR (kmalloc (ptsize * SIZEOF_PTPAGE) s) (\<lambda>(ok, s1).
         if \<not> ok then Inr (ENOMEM, s1)
         else bindR (kmalloc (hashedptsize * SIZEOF_PTR) s1) (\<lambda>(ok, s2).
         if \<not> ok then Inr (ENOMEM, s2)
         else let (first, s3) = ram_getfirstfree s2;
                  firstfree = unat first div PAGE_SIZE
         in bindR (spinlock_acquire Ptspin s3) (\<lambda>s4.
            bindR (ptinit_loop [0..<firstfree] 1 0
                     ((m_pt s4)\<lparr>pagetable := map fresh [0..<ptsize],
                                hashedpt := replicate hashedptsize None\<rparr>)) (\<lambda>st1.
            bindR (ptinit_loop [firstfree..<ptsize] 0 (-1) st1) (\<lambda>st2.
            bindR (spinlock_release Ptspin (s4\<lparr>m_pt := st2, isAct := True\<rparr>)) (\<lambda>s5.
            Inr (0, s5)))))))) "

definition ptdest :: "'f machine \<Rightarrow> 'f machine res" where
  "ptdest s =
     bindR (spinlock_acquire Ptspin s) (\<lambda>s1. spinlock_release Ptspin (s1\<lparr>isAct := False\<rparr>))"

section \<open>Eviction\<close>

text \<open>
  The victim's key as the code reads it through \<^verbatim>\<open>firstvictim\<close>; the victim is written to the
  swap file (\<open>swap_victim\<close>), then its translation and its entry are removed (\<open>drop_victim\<close>).
\<close>

definition victim_key :: "'f machine \<Rightarrow> pagekey res" where
  "victim_key s =
     (case firstvictim (m_pt s) of
        None \<Rightarrow> Inl NullDeref
      | Some f \<Rightarrow> if length (pagetable (m_pt s)) \<le> f then Inl OutOfBounds
                  else Inr (keyof (pagetable (m_pt s) ! f)))"

definition swap_victim :: "'f vnode_ops \<Rightarrow> 'f machine \<Rightarrow> 'f machine res" where
  "swap_victim ops s =
     bindR (victim_key s) (\<lambda>(pid, vaddr).
     bindR (getpageaddr (m_pt s) pid vaddr) (\<lambda>paddr.
     bindR (swapinpage ops s pid vaddr paddr) (\<lambda>(_, s1). Inr s1)))"

definition drop_victim :: "'f machine \<Rightarrow> 'f machine res" where
  "drop_victim s =
     bindR (victim_key s) (\<lambda>(pid, vaddr).
     let s1 = s\<lparr>m_tlb := vmtlb_invalidatepage (m_tlb s) pid vaddr\<rparr> in
     bindR (freeuser (m_pt s1) pid vaddr) (\<lambda>(_, st). Inr (s1\<lparr>m_pt := st\<rparr>)))"

section \<open>Kernel pages\<close>

definition getfreeppages :: "'f vnode_ops \<Rightarrow> 'f machine \<Rightarrow> nat \<Rightarrow> (paddr_t \<times> 'f machine) res" where
  "getfreeppages ops s npages =
     bindR (isptactive s) (\<lambda>(act, s0).
     if \<not> act then Inr (0, s0)
     else bindR (spinlock_acquire Ptspin s0) (\<lambda>s1.
     let ind = getfreeframes (m_pt s1) npages in
     bindR (if ind = -1
            then (case firstvictim (m_pt s1) of
                    None \<Rightarrow> bindR (spinlock_release Ptspin s1) (\<lambda>_.
                            Inl (Panic ''No space left on memory to allocate to kernel!!''))
                  | Some _ \<Rightarrow> bindR (spinlock_release Ptspin s1) (\<lambda>s2.
                              bindR (swap_victim ops s2) drop_victim))
            else Inr s1) (\<lambda>s3.
     bindR (setptentry (m_pt s3) (unat (word_of_int ind :: u32)) npages 0
              (PADDR_TO_KVADDR (word_of_int ind * word_of_nat PAGE_SIZE))) (\<lambda>st.
     bindR (spinlock_release Ptspin (s3\<lparr>m_pt := st\<rparr>)) (\<lambda>s4.
     Inr (word_of_int ind * word_of_nat PAGE_SIZE, s4))))))"

definition getppages :: "'f vnode_ops \<Rightarrow> 'f machine \<Rightarrow> nat \<Rightarrow> (paddr_t \<times> 'f machine) res" where
  "getppages ops s npages =
     bindR (getfreeppages ops s npages) (\<lambda>(addr, s1).
     if addr \<noteq> 0 then Inr (addr, s1)
     else bindR (spinlock_acquire Stealmem_lock s1) (\<lambda>s2.
       let (addr, s3) = ram_stealmem (word_of_nat npages) s2 in
       bindR (spinlock_release Stealmem_lock s3) (\<lambda>s4. Inr (addr, s4))))"

definition alloc_kpages :: "'f vnode_ops \<Rightarrow> 'f machine \<Rightarrow> nat \<Rightarrow> (vaddr_t \<times> 'f machine) res" where
  "alloc_kpages ops s npages =
     bindR (pt_can_sleep s) (\<lambda>_.
     bindR (getppages ops s npages) (\<lambda>(pa, s1).
     Inr (if pa = 0 then 0 else PADDR_TO_KVADDR pa, s1)))"

definition free_kpages :: "'f machine \<Rightarrow> vaddr_t \<Rightarrow> 'f machine res" where
  "free_kpages s addr =
     bindR (isptactive s) (\<lambda>(act, s0).
     if \<not> act then Inr s0
     else let i = unat (addr - MIPS_KSEG0) div PAGE_SIZE in
       bindR (spinlock_acquire Ptspin s0) (\<lambda>s1.
       bindR (freekernel (m_pt s1) i) (\<lambda>st.
       spinlock_release Ptspin (s1\<lparr>m_pt := st\<rparr>))))"

section \<open>User pages\<close>

definition allocuserpage :: "'f vnode_ops \<Rightarrow> 'f machine \<Rightarrow> pid_t \<Rightarrow> vaddr_t \<Rightarrow> (paddr_t \<times> 'f machine) res" where
  "allocuserpage ops s pid addr =
     bindR (isptactive s) (\<lambda>(act, s0).
     if \<not> act then Inr (0, s0)
     else bindR (spinlock_acquire Ptspin s0) (\<lambda>s1.
     let ind = getfreeframes (m_pt s1) 1;
         place = (\<lambda>ind s3.
           bindR (setptentry (m_pt s3) ind 1 pid addr) (\<lambda>st.
           bindR (spinlock_release Ptspin (s3\<lparr>m_pt := st\<rparr>)) (\<lambda>s4.
           Inr (frame_paddr ind, s4))))
     in if ind = -1
        then (case firstvictim (m_pt s1) of
                None \<Rightarrow> bindR (spinlock_release Ptspin s1) (\<lambda>s2. Inr (0, s2))
              | Some f \<Rightarrow>
                  bindR (spinlock_release Ptspin s1) (\<lambda>s2.
                  bindR (swap_victim ops s2) (\<lambda>s3.
                  bindR (spinlock_acquire Ptspin s3) (\<lambda>s4.
                  bindR (drop_victim s4) (place f)))))
        else place (nat ind) s1))"

definition freeuserpage :: "'f machine \<Rightarrow> pid_t \<Rightarrow> vaddr_t \<Rightarrow> (int \<times> 'f machine) res" where
  "freeuserpage s pid addr =
     bindR (isptactive s) (\<lambda>(act, s0).
     if \<not> act then Inr (EFAULT, s0)
     else bindR (spinlock_acquire Ptspin s0) (\<lambda>s1.
       bindR (freeuser (m_pt s1) pid addr) (\<lambda>(res, st).
       bindR (spinlock_release Ptspin (s1\<lparr>m_pt := st\<rparr>)) (\<lambda>s2. Inr (res, s2)))))"

definition pageaddr :: "'f machine \<Rightarrow> pid_t \<Rightarrow> vaddr_t \<Rightarrow> (paddr_t \<times> 'f machine) res" where
  "pageaddr s pid addr =
     bindR (isptactive s) (\<lambda>(act, s0).
     if \<not> act then Inr (0, s0)
     else bindR (spinlock_acquire Ptspin s0) (\<lambda>s1.
       bindR (getpageaddr (m_pt s1) pid addr) (\<lambda>p.
       bindR (spinlock_release Ptspin s1) (\<lambda>s2. Inr (p, s2)))))"

text \<open>\<^verbatim>\<open>removeptentries\<close>: its loop body over the given frames.\<close>

fun removept_loop :: "nat list \<Rightarrow> pid_t \<Rightarrow> ptstate \<Rightarrow> ptstate res" where
  "removept_loop [] pid st = Inr st"
| "removept_loop (i # is) pid st =
     (if pt_pid (pagetable st ! i) = pid
      then bindR (freeuser st pid (pt_vaddr (pagetable st ! i))) (\<lambda>(_, st1). removept_loop is pid st1)
      else removept_loop is pid st)"

definition removeptentries :: "'f machine \<Rightarrow> pid_t \<Rightarrow> 'f machine res" where
  "removeptentries s pid =
     bindR (isptactive s) (\<lambda>(act, s0).
     if \<not> act then Inr s0
     else bindR (spinlock_acquire Ptspin s0) (\<lambda>s1.
       bindR (removept_loop [0..<length (pagetable (m_pt s1))] pid (m_pt s1)) (\<lambda>st.
       spinlock_release Ptspin (s1\<lparr>m_pt := st\<rparr>))))"

section \<open>Invariant and meaning\<close>

text \<open>Every translation in the TLB is one of the page table, for the process of the last write.\<close>

definition tlb_coherent :: "'f machine \<Rightarrow> bool" where
  "tlb_coherent s \<longleftrightarrow> (\<forall>v lo. tlb_map (m_tlb s) v = Some lo \<longrightarrow>
     (\<exists>f. resident (m_pt s) (lastpid (m_tlb s), v) = Some f \<and> lo AND TLBLO_PPAGE = frame_paddr f))"

text \<open>
  The state between calls: no spinlock is held, the page table, the swap map and the TLB are
  well formed and the user pages are page addresses of user space.
\<close>

definition cm_inv :: "'f vnode_ops \<Rightarrow> 'f machine \<Rightarrow> bool" where
  "cm_inv ops s \<longleftrightarrow> held s = {} \<and> isAct s \<and> pt_inv (m_pt s) \<and> swap_inv ops s \<and> tlb_wf (m_tlb s) \<and>
     tlb_coherent s \<and> (\<forall>k f. resident (m_pt s) k = Some f \<longrightarrow> user_page (snd k))"

text \<open>No page is both in memory and in the swap file, except perhaps the page \<open>K\<close>.\<close>

definition exclusive :: "'f vnode_ops \<Rightarrow> pagekey set \<Rightarrow> 'f machine \<Rightarrow> bool" where
  "exclusive ops K s \<longleftrightarrow>
     (\<forall>k. k \<notin> K \<longrightarrow> resident (m_pt s) k \<noteq> None \<longrightarrow> swap_contents ops s k = None)"

text \<open>The content of a user page, wherever it is kept.\<close>

definition page_contents :: "'f vnode_ops \<Rightarrow> 'f machine \<Rightarrow> pagekey \<Rightarrow> byte list option" where
  "page_contents ops s k =
     (case resident (m_pt s) k of Some f \<Rightarrow> Some (frame (ram s) f) | None \<Rightarrow> swap_contents ops s k)"

text \<open>A frame is free, or one can be freed: there is a victim and room for it in the swap file.\<close>

definition frame_available :: "'f machine \<Rightarrow> bool" where
  "frame_available s \<longleftrightarrow> getfreeframes (m_pt s) 1 \<noteq> -1 \<or> firstvictim (m_pt s) \<noteq> None \<and> swap_room s"

lemma cm_invD:
  assumes "cm_inv ops s"
  shows "held s = {}" "isAct s" "pt_inv (m_pt s)" "swap_inv ops s" "tlb_wf (m_tlb s)" "tlb_coherent s"
    "resident (m_pt s) k = Some f \<Longrightarrow> user_page (snd k)"
  using assms unfolding cm_inv_def by blast+

lemma isptactive_free [simp]: "Ptspin \<notin> held s \<Longrightarrow> isptactive s = Inr (isAct s, s)"
  by (simp add: isptactive_def)

lemma pt_inv_frames: "pt_inv st \<Longrightarrow> length (pagetable st) \<le> 2 ^ 20"
  by (elim pt_invE)

lemma resident_frame_less:
  assumes "pt_inv st" "resident st k = Some f"
  shows "f < 2 ^ 20" "0 < f" "f < length (pagetable st)"
  using pt.mapping_used [OF assms] pt_inv_frames [OF assms(1)] by auto

lemma pageaddr_ok:
  assumes "cm_inv ops s"
  shows "pageaddr s pid v =
    Inr (case resident (m_pt s) (pid, v) of None \<Rightarrow> 0 | Some f \<Rightarrow> frame_paddr f, s)"
  using cm_invD [OF assms] getpageaddr_inv [of "m_pt s" pid v]
  by (auto simp: pageaddr_def frame_paddr_def split: option.split)

lemma pageaddr_0_iff:
  assumes "cm_inv ops s"
  shows "pageaddr s pid v = Inr (0, s) \<longleftrightarrow> resident (m_pt s) (pid, v) = None"
  using pageaddr_ok [OF assms, of pid v] resident_frame_less [OF cm_invD(3) [OF assms]] frame_paddr_0
  by (auto split: option.splits)

lemma page_contents_upd:
  assumes "resident (m_pt s') k = resident (m_pt s) k" "ram s' = ram s"
    "swap_contents ops s' k = swap_contents ops s k"
  shows "page_contents ops s' k = page_contents ops s k"
  using assms by (simp add: page_contents_def split: option.split)

text \<open>Statistics, and memory outside the user pages, do not matter.\<close>

lemma cm_cong:
  assumes "m_pt s' = m_pt s" "isAct s' = isAct s" "held s' = held s" "m_tlb s' = m_tlb s"
    "swappagesmap s' = swappagesmap s" "maxindswappedpage s' = maxindswappedpage s"
    "files s' = files s" "swapfile s' = swapfile s"
  shows "cm_inv ops s' = cm_inv ops s" "exclusive ops K s' = exclusive ops K s"
    "swap_contents ops s' = swap_contents ops s" "frame_available s' = frame_available s"
  using assms swap_cong(1,2) [of s' s ops]
  by (simp_all add: cm_inv_def tlb_coherent_def exclusive_def frame_available_def swap_room_def swap_freeslot_def)

lemma cm_incr [simp]:
  "cm_inv ops (incr t s) = cm_inv ops s" "exclusive ops K (incr t s) = exclusive ops K s"
  "swap_contents ops (incr t s) = swap_contents ops s" "frame_available (incr t s) = frame_available s"
  "page_contents ops (incr t s) = page_contents ops s"
proof -
  show c: "cm_inv ops (incr t s) = cm_inv ops s" "exclusive ops K (incr t s) = exclusive ops K s"
    "swap_contents ops (incr t s) = swap_contents ops s" "frame_available (incr t s) = frame_available s"
    by (rule cm_cong; simp)+
  show "page_contents ops (incr t s) = page_contents ops s" 
    by (rule ext, rule page_contents_upd) (simp_all add: c(3))
qed

text \<open>Storing bytes into the frame of a page changes this page only.\<close>

lemma page_contents_write:
  assumes pt: "pt_inv (m_pt s)" and K: "resident (m_pt s) K = Some f" and bs: "length bs \<le> PAGE_SIZE"
    and s': "m_pt s' = m_pt s" "ram s' = write_ram (ram s) (unat (frame_paddr f)) bs"
  shows "page_contents ops s' K = Some (bs @ drop (length bs) (frame (ram s) f))"
    and "k \<noteq> K \<Longrightarrow> swap_contents ops s' k = swap_contents ops s k \<Longrightarrow> page_contents ops s' k = page_contents ops s k"
proof -
  have fr: "frame (ram s') g = (if g = f then bs @ drop (length bs) (frame (ram s) f) else frame (ram s) g)" for g
    using frame_write_ram [OF bs] resident_frame_less(1) [OF pt K] unfolding s'(2) by (simp add: unat_frame_paddr)
  show "page_contents ops s' K = Some (bs @ drop (length bs) (frame (ram s) f))"
    using K s'(1) fr by (simp add: page_contents_def)
  assume k: "k \<noteq> K" "swap_contents ops s' k = swap_contents ops s k"
  then have "resident (m_pt s) k \<noteq> Some f" using pt.mapping_inj [OF pt K] by blast
  then show "page_contents ops s' k = page_contents ops s k"
    using k s'(1) fr by (auto simp: page_contents_def split: option.split)
qed

section \<open>Allocation of user pages\<close>

lemma user_page_bounds: "user_page v \<Longrightarrow> v < MIPS_KSEG0 \<and> v AND TLBHI_VPAGE = v"
  by (simp add: user_page_def)

lemma victim_keyD:
  assumes "pt_inv (m_pt s)" "firstvictim (m_pt s) = Some f"
  obtains k where "victim_key s = Inr k" "victim (m_pt s) = Some (f, k)" "resident (m_pt s) k = Some f" "0 < fst k"
proof -
  let ?k = "keyof (pagetable (m_pt s) ! f)"
  have v: "victim (m_pt s) = Some (f, ?k)" using assms(2) by (simp add: victim_def)
  then have r: "resident (m_pt s) ?k = Some f" using pt.head_Some [OF assms(1)] by blast
  then have "f < length (pagetable (m_pt s))" "0 < fst ?k" using pt.mapping_used [OF assms(1) r] by auto
  then show thesis using that [of ?k] v r assms(2) by (simp add: victim_key_def)
qed

text \<open>Writing the victim away copies its frame into the swap file.\<close>

lemma swap_victim_ok:
  assumes ops: "vnode_ops_ok ops" "disk_ok ops" and inv: "cm_inv ops s" and ex: "exclusive ops K s"
    and fv: "firstvictim (m_pt s) = Some f" and room: "swap_room s" and k: "victim_key s = Inr k" "k \<notin> K"
  shows "\<exists>s'. swap_victim ops s = Inr s' \<and> swap_inv ops s' \<and> same_frame_state s s' \<and> ram s' = ram s \<and>
     swap_contents ops s' = (swap_contents ops s)(k \<mapsto> frame (ram s) f) \<and>
     m_stats s' = vmstatincr (m_stats s) SWAPWRITE \<and> files_kept ops (swapfile s) (files s) (files s')"
proof -
  note i = cm_invD [OF inv]
  obtain k' where k': "victim_key s = Inr k'" "resident (m_pt s) k' = Some f" "0 < fst k'"
    using victim_keyD [OF i(3) fv] by metis
  then have r: "resident (m_pt s) k = Some f" "0 < fst k" using k(1) by auto
  have new: "swap_contents ops s (fst k, snd k) = None" using ex k(2) r(1) unfolding exclusive_def by (metis option.distinct(1) prod.collapse)
  have p: "getpageaddr (m_pt s) (fst k) (snd k) = Inr (frame_paddr f)"
    using getpageaddr_inv [OF i(3), of "fst k" "snd k"] r by (simp add: frame_paddr_def)
  have fr: "read_ram (ram s) (unat (frame_paddr f)) PAGE_SIZE = frame (ram s) f"
    using resident_frame_less [OF i(3) r(1)] by (simp add: unat_frame_paddr frame_def)
  have sf: "slots_used s \<noteq> {..<SWAPPAGES}" using room swap_freeslot_iff(1) [of s] by (simp add: swap_room_def)
  show ?thesis
    using swapinpage_ok [OF ops i(4) i(1) sf r(2) new, of "frame_paddr f"] p fr k(1)
    by (cases k) (auto simp: swap_victim_def)
qed

text \<open>Dropping a page from the TLB and the page table keeps the TLB coherent.\<close>

lemma tlb_coherent_drop:
  assumes co: "tlb_coherent s" and r: "resident st = (resident (m_pt s))(k := None)"
    and t: "tlb_map t = (tlb_map (m_tlb s))(snd k := None)" "lastpid t = lastpid (m_tlb s)"
  shows "tlb_coherent (s\<lparr>m_tlb := t, m_pt := st\<rparr>)"
  unfolding tlb_coherent_def
proof (intro allI impI)
  fix v lo
  assume "tlb_map (m_tlb (s\<lparr>m_tlb := t, m_pt := st\<rparr>)) v = Some lo"
  then have "tlb_map (m_tlb s) v = Some lo" "v \<noteq> snd k" using t(1) by (auto split: if_splits)
  then have "\<exists>f. resident (m_pt s) (lastpid (m_tlb s), v) = Some f \<and> lo AND TLBLO_PPAGE = frame_paddr f"
    using co unfolding tlb_coherent_def by blast
  then show "\<exists>f. resident (m_pt (s\<lparr>m_tlb := t, m_pt := st\<rparr>))
      (lastpid (m_tlb (s\<lparr>m_tlb := t, m_pt := st\<rparr>)), v) = Some f \<and> lo AND TLBLO_PPAGE = frame_paddr f"
    using r t(2) \<open>v \<noteq> snd k\<close> by auto
qed

lemma tlb_coherent_mono:
  assumes "tlb_coherent s" "m_tlb s' = m_tlb s"
    "\<forall>k f. resident (m_pt s) k = Some f \<longrightarrow> resident (m_pt s') k = Some f"
  shows "tlb_coherent s'"
  using assms unfolding tlb_coherent_def by metis

lemma lastpid_invalidatepage [simp]: "lastpid (vmtlb_invalidatepage t pid v) = lastpid t"
  by (simp add: vmtlb_invalidatepage_def Let_def tlb_write_def)

text \<open>What a successful user allocation of page \<open>K\<close> in frame \<open>f\<close> guarantees.\<close>

definition alloc_post :: "'f vnode_ops \<Rightarrow> pagekey \<Rightarrow> nat \<Rightarrow> 'f machine \<Rightarrow> 'f machine \<Rightarrow> bool" where
  "alloc_post ops K f s s' \<longleftrightarrow> cm_inv ops s' \<and> exclusive ops {K} s' \<and> resident (m_pt s') K = Some f \<and>
     (\<forall>k. k \<noteq> K \<longrightarrow> page_contents ops s' k = page_contents ops s k) \<and>
     swap_contents ops s' K = swap_contents ops s K \<and>
     swapfile s' = swapfile s \<and> files_kept ops (swapfile s) (files s) (files s') \<and>
     lastpid (m_tlb s') = lastpid (m_tlb s) \<and> tlb_map (m_tlb s') \<subseteq>\<^sub>m tlb_map (m_tlb s) \<and>
     (m_stats s' = m_stats s \<or> m_stats s' = vmstatincr (m_stats s) SWAPWRITE)"

lemma allocuserpage_free:
  assumes inv: "cm_inv ops s" and ex: "exclusive ops {} s" and k: "0 < pid" "user_page v"
    and new: "resident (m_pt s) (pid, v) = None" and free: "getfreeframes (m_pt s) 1 \<noteq> -1"
  shows "\<exists>s' f. allocuserpage ops s pid v = Inr (frame_paddr f, s') \<and> alloc_post ops (pid, v) f s s'"
proof -
  note i = cm_invD [OF inv]
  obtain f where f: "getfreeframes (m_pt s) 1 = int f" "f < length (pagetable (m_pt s))" "f \<notin> inuse (m_pt s)"
    using pt.seek_found [OF i(3) free] by blast
  obtain st where st: "setptentry (m_pt s) f 1 pid v = Inr st" "pt_inv st"
    "resident st = (resident (m_pt s))((pid, v) \<mapsto> f)"
    using pt.enter_ok [OF i(3) f(2,3) k(1) new] by blast
  let ?s' = "s\<lparr>m_pt := st\<rparr>"
  have run: "allocuserpage ops s pid v = Inr (frame_paddr f, ?s')"
    using i(1,2) f(1) free st(1) by (simp add: allocuserpage_def)
  have sw: "swap_inv ops ?s' = swap_inv ops s" "swap_contents ops ?s' = swap_contents ops s"
    by (rule swap_cong; simp)+
  have co: "tlb_coherent ?s'" by (rule tlb_coherent_mono [OF i(6)]) (use st(3) new in auto)
  have "cm_inv ops ?s'" unfolding cm_inv_def sw
    using i co st(2,3) k(2) by (auto split: if_splits)
  moreover have "exclusive ops {(pid, v)} ?s'"
    using ex st(3) unfolding exclusive_def sw by simp
  moreover have "page_contents ops ?s' k' = page_contents ops s k'" if "k' \<noteq> (pid, v)" for k'
    by (rule page_contents_upd) (use st(3) sw that in simp_all)
  ultimately have "alloc_post ops (pid, v) f s ?s'" using st(3) sw by (simp add: alloc_post_def)
  with run show ?thesis by blast
qed

text \<open>With no free frame, the oldest page moves to the swap file and its frame is used again.\<close>

lemma drop_victim_ok:
  assumes pt: "pt_inv (m_pt s)" and wf: "tlb_wf (m_tlb s)" and u: "user_page (snd k)"
    and vk: "victim_key s = Inr k" and st: "freeuser (m_pt s) (fst k) (snd k) = Inr (0, st)"
  obtains t where "drop_victim s = Inr (s\<lparr>m_tlb := t, m_pt := st\<rparr>)" "tlb_wf t"
    "tlb_map t = (tlb_map (m_tlb s))(snd k := None)" "lastpid t = lastpid (m_tlb s)"
proof -
  let ?t = "vmtlb_invalidatepage (m_tlb s) (fst k) (snd k)"
  have "drop_victim s = Inr (s\<lparr>m_tlb := ?t, m_pt := st\<rparr>)"
    using vk st by (cases k) (simp add: drop_victim_def)
  then show thesis
    using that [of ?t] vmtlb_invalidatepage_ok [OF wf, of "snd k" "fst k"] user_page_bounds [OF u] by simp
qed

lemma allocuserpage_evict:
  assumes ops: "vnode_ops_ok ops" "disk_ok ops"
    and inv: "cm_inv ops s" and ex: "exclusive ops {} s" and k: "0 < pid" "user_page v"
    and new: "resident (m_pt s) (pid, v) = None" and full: "getfreeframes (m_pt s) 1 = -1"
    and fv: "firstvictim (m_pt s) = Some f" and room: "swap_room s"
  shows "\<exists>s'. allocuserpage ops s pid v = Inr (frame_paddr f, s') \<and> alloc_post ops (pid, v) f s s'"
proof -
  note i = cm_invD [OF inv]
  obtain K where K: "victim_key s = Inr K" "victim (m_pt s) = Some (f, K)" "resident (m_pt s) K = Some f" "0 < fst K"
    using victim_keyD [OF i(3) fv] by metis
  have KN: "K \<noteq> (pid, v)" and uK: "user_page (snd K)" using K(3) new i(7) by auto
  obtain s1 where s1: "swap_victim ops s = Inr s1" "swap_inv ops s1" "same_frame_state s s1" "ram s1 = ram s"
    "swap_contents ops s1 = (swap_contents ops s)(K \<mapsto> frame (ram s) f)"
    "m_stats s1 = vmstatincr (m_stats s) SWAPWRITE" "files_kept ops (swapfile s) (files s) (files s1)"
    using swap_victim_ok [OF ops inv ex fv room K(1)] by auto
  note sf = s1(3) [unfolded same_frame_state_def]
  obtain st1 st2 where st: "freeuser (m_pt s) (fst K) (snd K) = Inr (0, st1)" "setptentry st1 f 1 pid v = Inr st2"
    "pt_inv st2" "resident st2 = (resident (m_pt s))(K := None, (pid, v) \<mapsto> f)"
    using pt.replace_head [OF i(3) K(2) k(1) new] by metis
  let ?s2 = "s1\<lparr>held := {Ptspin}\<rparr>"
  have vk2: "victim_key ?s2 = Inr K" using K(1) sf by (auto simp: victim_key_def split: option.splits)
  obtain t where t: "drop_victim ?s2 = Inr (?s2\<lparr>m_tlb := t, m_pt := st1\<rparr>)" "tlb_wf t"
    "tlb_map t = (tlb_map (m_tlb s))(snd K := None)" "lastpid t = lastpid (m_tlb s)"
    using drop_victim_ok [of ?s2 K st1] i(3,5) uK vk2 st(1) sf by auto
  let ?s' = "s1\<lparr>m_tlb := t, m_pt := st2\<rparr>"
  have run: "allocuserpage ops s pid v = Inr (frame_paddr f, ?s')"
    using i(1,2) full fv s1(1) sf t(1) st(2) by (simp add: allocuserpage_def insert_absorb)
  have sw: "swap_inv ops ?s' = swap_inv ops s1" "swap_contents ops ?s' = swap_contents ops s1"
    by (rule swap_cong; simp)+
  have r1: "resident st1 = (resident (m_pt s))(K := None)"
    using pt.release_ok [OF i(3), of "fst K" "snd K" f] K(3) st(1) by auto
  have co1: "tlb_coherent (s\<lparr>m_tlb := t, m_pt := st1\<rparr>)" by (rule tlb_coherent_drop [OF i(6) r1 t(3,4)])
  have co: "tlb_coherent ?s'"
    by (rule tlb_coherent_mono [OF co1]) (use st(4) r1 new in auto)
  have "cm_inv ops ?s'" unfolding cm_inv_def sw
    using i(1,2,7) sf s1(2) t(2) co st(3,4) k(2) by (auto split: if_splits)
  moreover have "exclusive ops {(pid, v)} ?s'"
    using ex st(4) s1(5) unfolding exclusive_def sw by simp
  moreover have "page_contents ops ?s' k' = page_contents ops s k'" if "k' \<noteq> (pid, v)" for k'
  proof (cases "k' = K")
    case True
    then show ?thesis using st(4) s1(5) K(3) KN by (simp add: page_contents_def sw)
  qed (rule page_contents_upd; use st(4) s1(4,5) sw that in simp)
  moreover have "tlb_map t \<subseteq>\<^sub>m tlb_map (m_tlb s)" using t(3) by (auto simp: map_le_def)
  ultimately have "alloc_post ops (pid, v) f s ?s'" using st(4) sw s1(5-7) sf t(4) KN by (simp add: alloc_post_def)
  with run show ?thesis by blast
qed

lemma allocuserpage_ok:
  assumes "vnode_ops_ok ops" "disk_ok ops" "cm_inv ops s" "exclusive ops {} s" "0 < pid" "user_page v"
    "resident (m_pt s) (pid, v) = None" "frame_available s"
  shows "\<exists>s' f. allocuserpage ops s pid v = Inr (frame_paddr f, s') \<and> alloc_post ops (pid, v) f s s'"
proof (cases "getfreeframes (m_pt s) 1 = -1")
  case True
  then obtain f where "firstvictim (m_pt s) = Some f" "swap_room s"
    using assms(8) by (auto simp: frame_available_def)
  then show ?thesis using allocuserpage_evict [OF assms(1-7) True] by blast
next
  case False
  then show ?thesis using allocuserpage_free [OF assms(3-7)] by blast
qed

lemma allocuserpage_nomem:
  assumes "cm_inv ops s" "getfreeframes (m_pt s) 1 = -1" "firstvictim (m_pt s) = None"
  shows "allocuserpage ops s pid v = Inr (0, s)"
  using assms cm_invD(1,2) [OF assms(1)] by (simp add: allocuserpage_def)

section \<open>Release of user pages\<close>

lemma resident_inv_iff:
  assumes "pt_inv st"
  shows "resident st k = Some i \<longleftrightarrow>
    i < length (pagetable st) \<and> 0 < pt_pid (pagetable st ! i) \<and> keyof (pagetable st ! i) = k"
  using assms by (elim pt_invE) (auto simp: resident_Some_iff [OF pt_repD(2)] userframes_def)

lemma freeuserpage_ok:
  assumes inv: "cm_inv ops s" and r: "resident (m_pt s) (pid, v) = Some f"
  shows "\<exists>st. freeuserpage s pid v = Inr (0, s\<lparr>m_pt := st\<rparr>) \<and> pt_inv st \<and>
    resident st = (resident (m_pt s))((pid, v) := None) \<and> inuse st = inuse (m_pt s) - {f}"
  using pt.release_ok [OF cm_invD(3) [OF inv] r] cm_invD(1,2) [OF inv] by (auto simp: freeuserpage_def)

lemma removept_loop_ok:
  assumes "pt_inv st" "0 < pid" "\<forall>i \<in> set is. i < length (pagetable st)"
  shows "\<exists>st'. removept_loop is pid st = Inr st' \<and> pt_inv st' \<and> length (pagetable st') = length (pagetable st) \<and>
    resident st' = (\<lambda>k. if fst k = pid \<and> resident st k \<in> Some ` set is then None else resident st k)"
  using assms
proof (induction "is" arbitrary: st)
  case (Cons i "is")
  note R = resident_inv_iff [OF Cons.prems(1)]
  let ?k = "(pid, pt_vaddr (pagetable st ! i))"
  show ?case
  proof (cases "pt_pid (pagetable st ! i) = pid")
    case True
    then have r: "resident st ?k = Some i" using R Cons.prems(2,3) by (simp add: keyof_def)
    then obtain st1 where st1: "freeuser st (fst ?k) (snd ?k) = Inr (0, st1)" "pt_inv st1"
      "resident st1 = (resident st)(?k := None)" "length (pagetable st1) = length (pagetable st)"
      using pt.release_ok [OF Cons.prems(1), of "fst ?k" "snd ?k" i] by auto
    have only: "k = ?k" if "resident st k = Some i" for k using pt.mapping_inj [OF Cons.prems(1) r that] .
    obtain st' where st': "removept_loop is pid st1 = Inr st'" "pt_inv st'"
      "length (pagetable st') = length (pagetable st1)"
      "resident st' = (\<lambda>k. if fst k = pid \<and> resident st1 k \<in> Some ` set is then None else resident st1 k)"
      using Cons.IH [OF st1(2)] Cons.prems(2,3) st1(4) by auto
    have "resident st' k = (if fst k = pid \<and> resident st k \<in> Some ` set (i # is) then None else resident st k)" for k
    proof (cases "k = ?k")
      case False
      then have "resident st k \<noteq> Some i" using only by blast
      then show ?thesis unfolding st'(4) st1(3) using False by simp
    qed (use r in \<open>simp add: st'(4) st1(3)\<close>)
    then show ?thesis using True st1(1,4) st'(1-3) by (simp add: fun_eq_iff)
  next
    case False
    then have no: "resident st k \<noteq> Some i" if "fst k = pid" for k using that R by (auto simp: keyof_def)
    obtain st' where "removept_loop is pid st = Inr st'" "pt_inv st'" "length (pagetable st') = length (pagetable st)"
      "resident st' = (\<lambda>k. if fst k = pid \<and> resident st k \<in> Some ` set is then None else resident st k)"
      using Cons.IH [OF Cons.prems(1,2)] Cons.prems(3) by auto
    then show ?thesis using False no by (auto simp: fun_eq_iff)
  qed
qed (auto simp: fun_eq_iff)

lemma removeptentries_ok:
  assumes inv: "cm_inv ops s" and pid: "0 < pid"
  shows "\<exists>st. removeptentries s pid = Inr (s\<lparr>m_pt := st\<rparr>) \<and> pt_inv st \<and>
    resident st = (\<lambda>k. if fst k = pid then None else resident (m_pt s) k)"
proof -
  note i = cm_invD [OF inv]
  obtain st where st: "removept_loop [0..<length (pagetable (m_pt s))] pid (m_pt s) = Inr st" "pt_inv st"
    "resident st = (\<lambda>k. if fst k = pid \<and> resident (m_pt s) k \<in> Some ` {0..<length (pagetable (m_pt s))} then None
       else resident (m_pt s) k)"
    using removept_loop_ok [OF i(3) pid, of "[0..<length (pagetable (m_pt s))]"] by auto
  have "resident st k = (if fst k = pid then None else resident (m_pt s) k)" for k
    using st(3) resident_frame_less(3) [OF i(3), of k] by (cases "resident (m_pt s) k") auto
  then have "resident st = (\<lambda>k. if fst k = pid then None else resident (m_pt s) k)" by (rule ext)
  then show ?thesis using st(1,2) i(1,2) by (intro exI [of _ st]) (simp add: removeptentries_def)
qed

section \<open>Kernel pages\<close>

lemma ind_word:
  assumes "pt_inv st" "fits (pagetable st) n i" "0 < n"
  shows "unat (word_of_int (int i) :: u32) = i" "word_of_int (int i) * word_of_nat PAGE_SIZE = frame_paddr i"
    "i < 2 ^ 20" "0 < i"
proof -
  have "i < length (pagetable st)" using assms(2,3) by (simp add: fits_def)
  then show "i < 2 ^ 20" using pt_inv_frames [OF assms(1)] by simp
  then show "unat (word_of_int (int i) :: u32) = i" by (simp add: unat_of_nat take_bit_nat_eq_self)
  show "word_of_int (int i) * word_of_nat PAGE_SIZE = frame_paddr i" by (simp add: frame_paddr_def)
  show "0 < i" by (rule fits_frame_nonzero [OF assms])
qed

lemma getfreeppages_ok:
  assumes inv: "cm_inv ops s" and n: "0 < n" and free: "getfreeframes (m_pt s) n \<noteq> -1"
  obtains st i where "getfreeppages ops s n = Inr (frame_paddr i, s\<lparr>m_pt := st\<rparr>)" "pt_inv st"
    "fits (pagetable (m_pt s)) n i" "0 < i" "i < 2 ^ 20"
    "resident st = resident (m_pt s)" "victims st = victims (m_pt s)"
    "inuse st = inuse (m_pt s) \<union> {i..<i + n}" "pt_pid (pagetable st ! i) = 0" "pt_numpages (pagetable st ! i) = n"
    "length (pagetable st) = length (pagetable (m_pt s))"
proof -
  note I = cm_invD [OF inv]
  obtain i where i: "getfreeframes (m_pt s) n = int i" "fits (pagetable (m_pt s)) n i"
    using seek_spec(1) [OF I(3) n free] by blast
  note w = ind_word [OF I(3) i(2) n]
  obtain st where st: "setptentry (m_pt s) i n 0 (PADDR_TO_KVADDR (frame_paddr i)) = Inr st" "pt_inv st"
    "resident st = resident (m_pt s)" "victims st = victims (m_pt s)" "inuse st = inuse (m_pt s) \<union> {i..<i + n}"
    "length (pagetable st) = length (pagetable (m_pt s))"
    "pt_pid (pagetable st ! i) = 0" "pt_numpages (pagetable st ! i) = n"
    using setptentry_kernel_inv [OF I(3) i(2) n] by metis
  have "getfreeppages ops s n = Inr (frame_paddr i, s\<lparr>m_pt := st\<rparr>)"
    using I(1,2) i(1) w st(1) by (simp add: getfreeppages_def)
  then show thesis using that st i(2) w by simp
qed

text \<open>A change of the page table that keeps the user pages keeps everything else.\<close>

lemma cm_inv_pt_upd:
  assumes "cm_inv ops s" "pt_inv st" "resident st = resident (m_pt s)"
  shows "cm_inv ops (s\<lparr>m_pt := st\<rparr>)" "page_contents ops (s\<lparr>m_pt := st\<rparr>) = page_contents ops s"
proof -
  let ?s' = "s\<lparr>m_pt := st\<rparr>"
  have sw: "swap_inv ops ?s' = swap_inv ops s" "swap_contents ops ?s' = swap_contents ops s"
    by (rule swap_cong; simp)+
  have "tlb_coherent ?s'" by (rule tlb_coherent_mono [OF cm_invD(6) [OF assms(1)]]) (use assms(3) in auto)
  then show "cm_inv ops ?s'"
    unfolding cm_inv_def sw using cm_invD(1-5) [OF assms(1)] cm_invD(7) [OF assms(1)] assms(2,3) by auto
  show "page_contents ops ?s' = page_contents ops s"
    by (rule ext, rule page_contents_upd) (use assms(3) sw(2) in simp_all)
qed

lemma free_kpages_ok:
  assumes inv: "cm_inv ops s" and i: "0 < i" "i < length (pagetable (m_pt s))" "pt_pid (pagetable (m_pt s) ! i) = 0"
  obtains st where "free_kpages s (PADDR_TO_KVADDR (frame_paddr i)) = Inr (s\<lparr>m_pt := st\<rparr>)" "pt_inv st"
    "resident st = resident (m_pt s)" "victims st = victims (m_pt s)"
    "inuse st = inuse (m_pt s) - {i..<i + pt_numpages (pagetable (m_pt s) ! i)}"
proof -
  note I = cm_invD [OF inv]
  have "i < 2 ^ 20" using i(2) pt_inv_frames [OF I(3)] by simp
  then have a: "unat (PADDR_TO_KVADDR (frame_paddr i) - MIPS_KSEG0) div PAGE_SIZE = i"
    by (simp add: PADDR_TO_KVADDR_def unat_frame_paddr PAGE_SIZE_def)
  obtain st where "freekernel (m_pt s) i = Inr st" "pt_inv st" "resident st = resident (m_pt s)"
    "victims st = victims (m_pt s)" "inuse st = inuse (m_pt s) - {i..<i + pt_numpages (pagetable (m_pt s) ! i)}"
    using freekernel_inv [OF I(3) i] by metis
  then show thesis using that I(1,2) a by (simp add: free_kpages_def)
qed

lemma alloc_kpages_eq:
  assumes "getfreeppages ops s n = Inr (frame_paddr i, s')" "held s = {}" "0 < i" "i < 2 ^ 20"
  shows "alloc_kpages ops s n = Inr (PADDR_TO_KVADDR (frame_paddr i), s')"
  using assms frame_paddr_0 [of i] by (simp add: alloc_kpages_def getppages_def pt_can_sleep_def)

text \<open>
  The eviction path of \<^verbatim>\<open>getfreeppages\<close> keeps \<open>ind = -1\<close>: after the victim is gone, the entry
  with index \<open>2^32 - 1\<close> is written.
\<close>

lemma getfreeppages_evict:
  assumes ops: "vnode_ops_ok ops" "disk_ok ops" and inv: "cm_inv ops s" and ex: "exclusive ops {} s"
    and full: "getfreeframes (m_pt s) n = -1" and fv: "firstvictim (m_pt s) = Some f" and room: "swap_room s"
  shows "getfreeppages ops s n = Inl OutOfBounds"
proof -
  note i = cm_invD [OF inv]
  obtain K where K: "victim_key s = Inr K" "resident (m_pt s) K = Some f" "0 < fst K"
    using victim_keyD [OF i(3) fv] by metis
  obtain s1 where s1: "swap_victim ops s = Inr s1" "same_frame_state s s1"
    using swap_victim_ok [OF ops inv ex fv room K(1)] by auto
  note sf = s1(2) [unfolded same_frame_state_def]
  obtain st1 where st: "freeuser (m_pt s) (fst K) (snd K) = Inr (0, st1)" "length (pagetable st1) = length (pagetable (m_pt s))"
    using pt.release_ok [OF i(3), of "fst K" "snd K" f] K(2) by auto
  have vk: "victim_key s1 = Inr K" using K(1) sf by (auto simp: victim_key_def split: option.splits)
  obtain t where t: "drop_victim s1 = Inr (s1\<lparr>m_tlb := t, m_pt := st1\<rparr>)"
    using drop_victim_ok [of s1 K st1] i(3,5,7) vk st(1) sf K(2) by metis
  have "length (pagetable st1) \<le> unat (word_of_int (-1) :: u32)"
    using st(2) pt_inv_frames [OF i(3)] by (simp add: unsigned_minus_1_eq_mask mask_eq_exp_minus_1)
  then show ?thesis using i(1,2) full fv s1(1) t by (simp add: getfreeppages_def setptentry_def)
qed

lemma getfreeppages_nomem:
  assumes "cm_inv ops s" "getfreeframes (m_pt s) n = -1" "firstvictim (m_pt s) = None"
  shows "getfreeppages ops s n = Inl (Panic ''No space left on memory to allocate to kernel!!'')"
  using assms cm_invD(1,2) [OF assms(1)] by (simp add: getfreeppages_def)

section \<open>Boot\<close>

definition boot_entry :: "nat \<Rightarrow> nat \<Rightarrow> ptpage" where
  "boot_entry firstfree i =
     \<lparr>pt_pid = (if i < firstfree then 0 else -1), pt_vaddr = PADDR_TO_KVADDR (frame_paddr i),
      pt_numpages = (if i < firstfree then 1 else 0), pt_fifonext = None, pt_next = None\<rparr>"

text \<open>The table after boot: the frames below \<open>firstfree\<close> belong to the kernel.\<close>

definition boot_state :: "nat \<Rightarrow> nat \<Rightarrow> nat \<Rightarrow> ptstate" where
  "boot_state ptsize hashedptsize firstfree =
     \<lparr>pagetable = map (boot_entry firstfree) [0..<ptsize], hashedpt = replicate hashedptsize None,
      firstvictim = None, lastallocateduser = None\<rparr>"

lemma boot_inv:
  assumes "0 < h" "0 < ff" "ff \<le> n" "n \<le> 2 ^ 20"
  shows "pt_inv (boot_state n h ff)" "resident (boot_state n h ff) = Map.empty"
    "victims (boot_state n h ff) = []" "inuse (boot_state n h ff) = {..<ff}"
proof -
  let ?s = "boot_state n h ff"
  let ?pt = "pagetable ?s"
  have e: "?pt ! i = boot_entry ff i" if "i < n" for i using that by (simp add: boot_state_def)
  have len: "length ?pt = n" by (simp add: boot_state_def)
  have uf: "userframes ?pt = {}" using e len by (auto simp: userframes_def boot_entry_def)
  have "pt_rep ?s (\<lambda>_. []) []"
    unfolding pt_rep_def keys_ok_def chains_ok_def fifo_ok_def uf
    using assms(1) by (simp add: boot_state_def)
  moreover have "frames_ok ?pt" unfolding frames_ok_def len using e by (auto simp: boot_entry_def)
  moreover have "pt_pid (?pt ! 0) = 0" using e [of 0] assms by (simp add: boot_entry_def)
  ultimately show inv: "pt_inv ?s" unfolding pt_inv_def len using assms by auto
  show "victims ?s = []" using victims_rep [OF \<open>pt_rep ?s (\<lambda>_. []) []\<close>] .
  show "resident ?s = Map.empty"
    using resident_inv_iff [OF inv] uf by (intro map_eqI) (auto simp: userframes_def)
  have "occupied ?pt j \<longleftrightarrow> j < ff" if "j < n" for j
    unfolding occupied_def len using e assms(3) that
    by (auto simp: boot_entry_def split: if_splits intro!: exI [of _ j])
  then show "inuse ?s = {..<ff}" unfolding inuse_def len using assms(3) by auto
qed

lemma ptinit_loop_ok:
  assumes "pid \<le> 0" "\<forall>i \<in> set is. i < length (pagetable st)"
  shows "\<exists>pt. ptinit_loop is n pid st = Inr (st\<lparr>pagetable := pt\<rparr>) \<and> length pt = length (pagetable st) \<and>
    (\<forall>i < length pt. pt ! i = (if i \<in> set is then \<lparr>pt_pid = pid, pt_vaddr = PADDR_TO_KVADDR (frame_paddr i),
       pt_numpages = n, pt_fifonext = None, pt_next = None\<rparr> else pagetable st ! i))"
  using assms(2)
proof (induction "is" arbitrary: st)
  case Nil
  then show ?case by (intro exI [of _ "pagetable st"]) simp
next
  case (Cons j "is")
  let ?st = "st\<lparr>pagetable := (pagetable st)[j := \<lparr>pt_pid = pid, pt_vaddr = PADDR_TO_KVADDR (frame_paddr j),
       pt_numpages = n, pt_fifonext = None, pt_next = None\<rparr>]\<rparr>"
  obtain pt where "ptinit_loop is n pid ?st = Inr (?st\<lparr>pagetable := pt\<rparr>)" "length pt = length (pagetable st)"
    "\<forall>i < length pt. pt ! i = (if i \<in> set is then \<lparr>pt_pid = pid, pt_vaddr = PADDR_TO_KVADDR (frame_paddr i),
       pt_numpages = n, pt_fifonext = None, pt_next = None\<rparr> else pagetable ?st ! i)"
    using Cons.IH [of ?st] Cons.prems by auto
  moreover have "setptentry st j n pid (PADDR_TO_KVADDR (frame_paddr j)) = Inr ?st"
    using Cons.prems assms(1) by (simp add: setptentry_def)
  ultimately show ?case by (intro exI [of _ pt]) (auto simp: nth_list_update)
qed

text \<open>What \<^verbatim>\<open>ptinit\<close> needs of \<^verbatim>\<open>kmalloc\<close>: before the page table is active it only takes physical memory.\<close>

definition kmalloc_boot_ok :: "(nat \<Rightarrow> 'f machine \<Rightarrow> (bool \<times> 'f machine) res) \<Rightarrow> bool" where
  "kmalloc_boot_ok kmalloc \<longleftrightarrow>
     (\<forall>n s. \<not> isAct s \<longrightarrow> held s = {} \<longrightarrow> firstpaddr s \<le> lastpaddr s \<longrightarrow>
        (\<exists>ok p. kmalloc n s = Inr (ok, s\<lparr>firstpaddr := p\<rparr>) \<and> firstpaddr s \<le> p \<and> p \<le> lastpaddr s))"

lemma ptinit_fill:
  assumes "ff \<le> n" "firstvictim st = None" "lastallocateduser st = None"
  shows "bindR (ptinit_loop [0..<ff] 1 0 (st\<lparr>pagetable := map fresh [0..<n], hashedpt := replicate h None\<rparr>))
      (ptinit_loop [ff..<n] 0 (-1)) = Inr (boot_state n h ff)"
proof -
  let ?st = "st\<lparr>pagetable := map fresh [0..<n], hashedpt := replicate h None\<rparr>"
  obtain p1 where p1: "ptinit_loop [0..<ff] 1 0 ?st = Inr (?st\<lparr>pagetable := p1\<rparr>)" "length p1 = n"
    "\<forall>i < n. p1 ! i = (if i < ff then boot_entry ff i else fresh i)"
    using ptinit_loop_ok [of 0 "[0..<ff]" ?st 1] assms(1) by (auto simp: boot_entry_def)
  let ?s1 = "?st\<lparr>pagetable := p1\<rparr>"
  obtain p2 where p2: "ptinit_loop [ff..<n] 0 (-1) ?s1 = Inr (?s1\<lparr>pagetable := p2\<rparr>)" "length p2 = n"
    "\<forall>i < n. p2 ! i = (if ff \<le> i then boot_entry ff i else p1 ! i)"
    using ptinit_loop_ok [of "-1" "[ff..<n]" ?s1 0] p1(2) by (auto simp: boot_entry_def)
  have "p2 = map (boot_entry ff) [0..<n]" using p2(2,3) p1(3) by (intro nth_equalityI) auto
  then show ?thesis using p1(1) p2(1) assms(2,3) by (simp add: boot_state_def)
qed

lemma ptinit_ok:
  assumes km: "kmalloc_boot_ok kmalloc" and s: "\<not> isAct s" "held s = {}"
    "firstvictim (m_pt s) = None" "lastallocateduser (m_pt s) = None"
    and ram: "PAGE_SIZE \<le> unat (firstpaddr s)" "firstpaddr s \<le> lastpaddr s"
  shows "(\<exists>s'. ptinit kmalloc fresh s = Inr (ENOMEM, s') \<and> \<not> isAct s' \<and> held s' = {}) \<or>
    (\<exists>s' ff. ptinit kmalloc fresh s = Inr (0, s') \<and> isAct s' \<and> held s' = {} \<and>
       0 < ff \<and> ff \<le> unat (lastpaddr s) div PAGE_SIZE \<and> unat (firstpaddr s) div PAGE_SIZE \<le> ff \<and>
       m_pt s' = boot_state (unat (lastpaddr s) div PAGE_SIZE) (unat (lastpaddr s) div PAGE_SIZE div 32) ff)"
proof -
  let ?n = "unat (lastpaddr s) div PAGE_SIZE"
  obtain ok1 p1 where k1: "kmalloc (?n * SIZEOF_PTPAGE) s = Inr (ok1, s\<lparr>firstpaddr := p1\<rparr>)"
    "firstpaddr s \<le> p1" "p1 \<le> lastpaddr s"
    using km s(1,2) ram(2) unfolding kmalloc_boot_ok_def by blast
  let ?s1 = "s\<lparr>firstpaddr := p1\<rparr>"
  have "\<exists>ok p. kmalloc (?n div 32 * SIZEOF_PTR) ?s1 = Inr (ok, ?s1\<lparr>firstpaddr := p\<rparr>) \<and>
      firstpaddr ?s1 \<le> p \<and> p \<le> lastpaddr ?s1"
    using km [unfolded kmalloc_boot_ok_def, rule_format, of ?s1] s(1,2) k1(3) by simp
  then obtain ok2 p2 where k2: "kmalloc (?n div 32 * SIZEOF_PTR) ?s1 = Inr (ok2, s\<lparr>firstpaddr := p2\<rparr>)"
    "p1 \<le> p2" "p2 \<le> lastpaddr s" by auto
  let ?ff = "unat p2 div PAGE_SIZE"
  have le: "unat (firstpaddr s) \<le> unat p2" "unat p2 \<le> unat (lastpaddr s)"
    using k1(2) k2(2,3) by (simp_all add: word_le_nat_alt)
  then have ff: "unat (firstpaddr s) div PAGE_SIZE \<le> ?ff" "?ff \<le> ?n" by (simp_all add: div_le_mono)
  have "1 \<le> unat (firstpaddr s) div PAGE_SIZE" using ram(1) by (simp add: PAGE_SIZE_def)
  then have ff0: "0 < ?ff" using ff(1) by linarith
  note fill = ptinit_fill [OF ff(2) s(3,4), where fresh = fresh and h = "?n div 32", unfolded bindR_eq_Inr]
  show ?thesis
  proof (cases "ok1 \<and> ok2")
    case True
    let ?s' = "s\<lparr>firstpaddr := 0, lastpaddr := 0, m_pt := boot_state ?n (?n div 32) ?ff, isAct := True\<rparr>"
    have "ptinit kmalloc fresh s = Inr (0, ?s')"
      using True k1(1) k2(1) s(2) fill by (auto simp: ptinit_def ram_getsize_def ram_getfirstfree_def Let_def)
    then show ?thesis using ff ff0 s(2) by (intro disjI2 exI [of _ ?s'] exI [of _ ?ff]) simp
  next
    case False
    then show ?thesis using k1(1) k2(1) s(1,2) by (cases ok1) (auto simp: ptinit_def ram_getsize_def Let_def)
  qed
qed

text \<open>The physical memory \<^verbatim>\<open>ram_stealmem\<close> hands out lies below the end of memory and is not handed out again.\<close>

lemma ram_stealmem_ok:
  assumes "unat npages * PAGE_SIZE + unat (firstpaddr s) < 2 ^ 32" "ram_stealmem npages s = (p, s')" "p \<noteq> 0"
  shows "p = firstpaddr s" "unat (firstpaddr s') = unat p + unat npages * PAGE_SIZE"
    "unat (firstpaddr s') \<le> unat (lastpaddr s)" "s' = s\<lparr>firstpaddr := firstpaddr s'\<rparr>"
proof -
  have "unat (npages * word_of_nat PAGE_SIZE) = unat npages * PAGE_SIZE"
    using assms(1) by (simp add: unat_word_ariths unat_of_nat PAGE_SIZE_def)
  then have "unat (firstpaddr s + npages * word_of_nat PAGE_SIZE) = unat (firstpaddr s) + unat npages * PAGE_SIZE"
    using assms(1) by (simp add: unat_word_ariths)
  then show "p = firstpaddr s" "unat (firstpaddr s') = unat p + unat npages * PAGE_SIZE"
    "unat (firstpaddr s') \<le> unat (lastpaddr s)" "s' = s\<lparr>firstpaddr := firstpaddr s'\<rparr>"
    using assms(2,3) by (auto simp: ram_stealmem_def Let_def word_less_nat_alt split: if_splits)
qed

end
