(* ===== verification/Addrspace.thy ===== *)
theory Addrspace
  imports Coremap
begin

text \<open>
  Segments and address spaces, \<^verbatim>\<open>kern/vm/segments.c\<close> and \<^verbatim>\<open>kern/vm/addrspace.c\<close>. An address
  space has two regions from the executable and a stack; each region remembers which of its
  pages were loaded once. Whether \<^verbatim>\<open>kmalloc\<close> succeeds is an argument of the functions that
  call it; the current process is passed as its pid and its address space.
\<close>

section \<open>Segments\<close>

definition RDFLAG :: int where "RDFLAG = 4"
definition WRFLAG :: int where "WRFLAG = 2"
definition EXFLAG :: int where "EXFLAG = 1"

record segment =
  numpages :: u32
  elfdata :: "vnode option"
  loadedelf :: "byte list option"
  elfoffset :: int
  startaddr :: vaddr_t
  stackseg :: bool
  permissions :: byte

definition segcreate :: "bool \<Rightarrow> segment option" where
  "segcreate ok =
     (if ok then Some \<lparr>numpages = 0, elfdata = None, loadedelf = None, elfoffset = 0, startaddr = 0,
                       stackseg = False, permissions = 0\<rparr> else None)"

text \<open>The flag array of \<^verbatim>\<open>segdef\<close> and \<^verbatim>\<open>segcopy\<close>: its pointer is not checked before it is cleared.\<close>

definition seg_flags :: "bool \<Rightarrow> u32 \<Rightarrow> byte list option res" where
  "seg_flags ok npages =
     (if ok then Inr (Some (replicate (unat npages) 0))
      else if npages = 0 then Inr None else Inl NullDeref)"

definition segdef :: "bool \<Rightarrow> segment option \<Rightarrow> vaddr_t \<Rightarrow> u32 \<Rightarrow> int \<Rightarrow> vnode option \<Rightarrow> bool
    \<Rightarrow> int \<Rightarrow> int \<Rightarrow> int \<Rightarrow> segment res" where
  "segdef ok seg vaddr npages offset elfnode stack readable writable executable =
     (case seg of
        None \<Rightarrow> Inl Kassert
      | Some sg \<Rightarrow>
          bindR (seg_flags ok npages) (\<lambda>flags.
          Inr (sg\<lparr>startaddr := vaddr, numpages := npages, elfoffset := offset, elfdata := elfnode,
                  permissions := word_of_int readable OR word_of_int writable OR word_of_int executable,
                  stackseg := stack, loadedelf := flags\<rparr>)))"

definition segcopy :: "bool \<Rightarrow> bool \<Rightarrow> segment option \<Rightarrow> segment res" where
  "segcopy ok1 ok2 seg =
     (case (segcreate ok1, seg) of
        (Some newseg, Some sg) \<Rightarrow>
          bindR (seg_flags ok2 (numpages sg)) (\<lambda>flags.
          Inr (newseg\<lparr>elfdata := elfdata sg, numpages := numpages sg, elfoffset := elfoffset sg,
                      permissions := permissions sg, startaddr := startaddr sg,
                      stackseg := stackseg sg, loadedelf := flags\<rparr>))
      | _ \<Rightarrow> Inl NullDeref)"

text \<open>\<^verbatim>\<open>segdes\<close> clears the segment and frees it: nothing of it is left, but it must exist.\<close>

definition segdes :: "segment option \<Rightarrow> unit res" where
  "segdes seg = (case seg of None \<Rightarrow> Inl NullDeref | Some _ \<Rightarrow> Inr ())"

section \<open>Address spaces\<close>

definition STACKPAGES :: u32 where "STACKPAGES = 18"

record addrspace =
  seg1 :: "segment option"
  seg2 :: "segment option"
  segstack :: "segment option"

definition as_zero_region :: "paddr_t \<Rightarrow> nat \<Rightarrow> 'f machine \<Rightarrow> 'f machine" where
  "as_zero_region paddr len s = s\<lparr>ram := write_ram (ram s) (unat paddr) (replicate len 0)\<rparr>"

definition as_create :: "bool \<Rightarrow> addrspace option" where
  "as_create ok = (if ok then Some \<lparr>seg1 = None, seg2 = None, segstack = None\<rparr> else None)"

text \<open>The results of the seven calls of \<^verbatim>\<open>kmalloc\<close> come in program order.\<close>

definition as_copy :: "bool \<Rightarrow> (nat \<Rightarrow> bool) \<Rightarrow> addrspace \<Rightarrow> (int \<times> addrspace option) res" where
  "as_copy ok oks old =
     (case as_create ok of
        None \<Rightarrow> Inr (ENOMEM, None)
      | Some newas \<Rightarrow>
          bindR (segcopy (oks 0) (oks 1) (seg1 old)) (\<lambda>sg1.
          bindR (segcopy (oks 2) (oks 3) (seg2 old)) (\<lambda>sg2.
          bindR (segcopy (oks 4) (oks 5) (segstack old)) (\<lambda>sg3.
          Inr (0, Some (newas\<lparr>seg1 := Some sg1, seg2 := Some sg2, segstack := Some sg3\<rparr>))))))"

definition as_destroy :: "addrspace \<Rightarrow> pid_t \<Rightarrow> 'f machine \<Rightarrow> 'f machine res" where
  "as_destroy as pid s =
     (case seg1 as of
        None \<Rightarrow> Inl NullDeref
      | Some sg \<Rightarrow>
          bindR (case elfdata sg of None \<Rightarrow> Inr s | Some v \<Rightarrow> vfs_close v s) (\<lambda>s1.
          bindR (segdes (seg1 as)) (\<lambda>_.
          bindR (segdes (seg2 as)) (\<lambda>_.
          bindR (segdes (segstack as)) (\<lambda>_.
          bindR (removeptentries s1 pid) (\<lambda>s2.
          removeswapentries s2 pid))))))"

definition as_activate :: "addrspace option \<Rightarrow> pid_t \<Rightarrow> 'f machine \<Rightarrow> 'f machine" where
  "as_activate curas curpid s =
     (case curas of
        None \<Rightarrow> s
      | Some _ \<Rightarrow> let (t, c) = vmtlb_invalidate (m_tlb s) (m_stats s) curpid
                  in s\<lparr>m_tlb := t, m_stats := c\<rparr>)"

definition as_deactivate :: "'f machine \<Rightarrow> 'f machine" where
  "as_deactivate s = s"

text \<open>The page range of a region: its first page and the number of pages.\<close>

definition region_pages :: "vaddr_t \<Rightarrow> u32 \<Rightarrow> vaddr_t \<times> u32" where
  "region_pages vaddr memsize =
     (let sz = memsize + (vaddr AND NOT PAGE_FRAME);
          base = vaddr AND PAGE_FRAME;
          sz = (sz + word_of_nat PAGE_SIZE - 1) AND PAGE_FRAME
      in (base, sz div word_of_nat PAGE_SIZE))"

definition as_define_region :: "bool \<Rightarrow> bool \<Rightarrow> addrspace \<Rightarrow> 'f machine \<Rightarrow> vaddr_t \<Rightarrow> u32 \<Rightarrow> int
    \<Rightarrow> vnode option \<Rightarrow> int \<Rightarrow> int \<Rightarrow> int \<Rightarrow> (int \<times> addrspace) res" where
  "as_define_region ok1 ok2 as s vaddr memsize offset vn readable writable executable =
     bindR (pt_can_sleep s) (\<lambda>_.
     let (base, npages) = region_pages vaddr memsize
     in if seg1 as = None then
          (case segcreate ok1 of
             None \<Rightarrow> Inr (ENOMEM, as)
           | Some sg \<Rightarrow>
               bindR (segdef ok2 (Some sg) base npages offset vn False readable writable executable)
                 (\<lambda>sg1. Inr (0, as\<lparr>seg1 := Some sg1\<rparr>)))
        else if seg2 as = None then
          (case segcreate ok1 of
             None \<Rightarrow> Inr (ENOMEM, as)
           | Some sg \<Rightarrow>
               bindR (segdef ok2 (Some sg) base npages offset vn False readable writable executable)
                 (\<lambda>sg2. Inr (0, as\<lparr>seg2 := Some sg2\<rparr>)))
        else Inr (ENOSYS, as))"

definition as_prepare_load :: "addrspace \<Rightarrow> int" where "as_prepare_load as = 0"
definition as_complete_load :: "addrspace \<Rightarrow> int" where "as_complete_load as = 0"

definition as_define_stack :: "bool \<Rightarrow> bool \<Rightarrow> addrspace \<Rightarrow> (int \<times> vaddr_t \<times> addrspace) res" where
  "as_define_stack ok1 ok2 as =
     bindR (segdef ok2 (segcreate ok1) (USERSTACK - STACKPAGES * word_of_nat PAGE_SIZE) STACKPAGES 0 None
              True RDFLAG WRFLAG 0)
       (\<lambda>sg. Inr (0, USERSTACK, as\<lparr>segstack := Some sg\<rparr>))"

text \<open>
  \<^verbatim>\<open>readfromelfto\<close>: the first region whose range, its end included, has the address supplies
  the page. The file offset is computed in 64 bits from the 32-bit difference.
\<close>

definition seg_reaches :: "segment \<Rightarrow> vaddr_t \<Rightarrow> bool" where
  "seg_reaches sg vaddr \<longleftrightarrow>
     startaddr sg \<le> vaddr \<and> numpages sg * word_of_nat PAGE_SIZE + startaddr sg \<ge> vaddr"

definition seg_read :: "'f vnode_ops \<Rightarrow> segment \<Rightarrow> vaddr_t \<Rightarrow> paddr_t \<Rightarrow> 'f machine \<Rightarrow> (int \<times> 'f machine) res" where
  "seg_read ops sg vaddr paddr s =
     (case elfdata sg of
        None \<Rightarrow> Inl (Panic ''vnode_check: null vnode'')
      | Some v \<Rightarrow> file_to_ram ops s v (int (unat (vaddr - startaddr sg)) + elfoffset sg) PAGE_SIZE paddr)"

definition readfromelfto :: "'f vnode_ops \<Rightarrow> addrspace \<Rightarrow> vaddr_t \<Rightarrow> paddr_t \<Rightarrow> 'f machine \<Rightarrow> 'f machine res" where
  "readfromelfto ops as vaddr paddr0 s =
     (let paddr = paddr0 AND PAGE_FRAME in
      case seg1 as of None \<Rightarrow> Inl NullDeref | Some sg1 \<Rightarrow>
      bindR (if seg_reaches sg1 vaddr then seg_read ops sg1 vaddr paddr s
             else case seg2 as of None \<Rightarrow> Inl NullDeref | Some sg2 \<Rightarrow>
               if seg_reaches sg2 vaddr then seg_read ops sg2 vaddr paddr s
               else case segstack as of None \<Rightarrow> Inl NullDeref | Some sg3 \<Rightarrow>
                 if seg_reaches sg3 vaddr then seg_read ops sg3 vaddr paddr s
                 else Inr (-1, s))
        (\<lambda>(res, s1). if res \<noteq> 0 then Inl (Panic ''Could not read from elf'') else Inr s1))"

section \<open>Well-formed segments\<close>

definition page_aligned :: "vaddr_t \<Rightarrow> bool" where
  "page_aligned v \<longleftrightarrow> v AND PAGE_FRAME = v"

text \<open>The address of page \<open>i\<close> of a segment, and the byte addresses it covers.\<close>

definition page_of :: "segment \<Rightarrow> nat \<Rightarrow> vaddr_t" where
  "page_of sg i = startaddr sg + word_of_nat (i * PAGE_SIZE)"

definition seg_range :: "segment \<Rightarrow> nat set" where
  "seg_range sg = {unat (startaddr sg)..<unat (startaddr sg) + unat (numpages sg) * PAGE_SIZE}"

definition seg_wf :: "segment \<Rightarrow> bool" where
  "seg_wf sg \<longleftrightarrow> page_aligned (startaddr sg) \<and> numpages sg \<noteq> 0 \<and>
     unat (startaddr sg) + unat (numpages sg) * PAGE_SIZE \<le> unat USERSTACK \<and>
     (\<exists>fl. loadedelf sg = Some fl \<and> length fl = unat (numpages sg) \<and> set fl \<subseteq> {0, 1})"

lemma page_aligned_iff: "page_aligned v \<longleftrightarrow> unat v mod PAGE_SIZE = 0"
proof -
  have "page_aligned v \<longleftrightarrow> unat (v AND PAGE_FRAME) = unat v" by (auto simp: page_aligned_def intro: unsigned_word_eqI)
  also have "\<dots> \<longleftrightarrow> unat v div 4096 * 4096 = unat v" unfolding PAGE_FRAME_def unat_page_mask ..
  also have "\<dots> \<longleftrightarrow> unat v mod PAGE_SIZE = 0"
    unfolding PAGE_SIZE_def by (metis dvd_div_mult_self dvd_eq_mod_eq_0 dvd_triv_right)
  finally show ?thesis .
qed

lemma page_aligned_mask [simp]: "page_aligned (v AND PAGE_FRAME)"
  by (simp add: page_aligned_def and.assoc)

lemma unat_USERSTACK: "unat USERSTACK = 2147483648"
  by (simp add: USERSTACK_def MIPS_KSEG0_def)

lemma seg_top:
  assumes "seg_wf sg"
  shows "unat (startaddr sg + numpages sg * word_of_nat PAGE_SIZE) =
    unat (startaddr sg) + unat (numpages sg) * PAGE_SIZE"
proof -
  have le: "unat (startaddr sg) + unat (numpages sg) * PAGE_SIZE < 2 ^ 32"
    using assms by (simp add: seg_wf_def unat_USERSTACK)
  then have "unat (numpages sg * word_of_nat PAGE_SIZE) = unat (numpages sg) * PAGE_SIZE"
    by (simp add: unat_word_ariths unat_of_nat PAGE_SIZE_def)
  then show ?thesis using le by (simp add: unat_word_ariths)
qed

lemma unat_page_of:
  assumes "seg_wf sg" "i < unat (numpages sg)"
  shows "unat (page_of sg i) = unat (startaddr sg) + i * PAGE_SIZE"
    and "unat (page_of sg i) + PAGE_SIZE \<le> unat USERSTACK" "page_aligned (page_of sg i)"
    "user_page (page_of sg i)" "unat (page_of sg i) \<in> seg_range sg"
proof -
  have "Suc i * PAGE_SIZE \<le> unat (numpages sg) * PAGE_SIZE" using assms(2) by (simp only: mult_le_mono1 Suc_leI)
  then have le: "unat (startaddr sg) + i * PAGE_SIZE + PAGE_SIZE \<le> unat USERSTACK"
    "i * PAGE_SIZE < unat (numpages sg) * PAGE_SIZE"
    using assms(1) unfolding seg_wf_def by (simp_all add: PAGE_SIZE_def)
  moreover have "unat (word_of_nat (i * PAGE_SIZE) :: u32) = i * PAGE_SIZE"
    using le(1) by (simp add: unat_of_nat unat_USERSTACK take_bit_nat_eq_self del: of_nat_mult)
  ultimately show u: "unat (page_of sg i) = unat (startaddr sg) + i * PAGE_SIZE"
    unfolding page_of_def unat_word_ariths by (simp add: unat_USERSTACK)
  with le show "unat (page_of sg i) + PAGE_SIZE \<le> unat USERSTACK" "unat (page_of sg i) \<in> seg_range sg"
    by (simp_all add: seg_range_def)
  show al: "page_aligned (page_of sg i)"
    using assms(1) unfolding page_aligned_iff u seg_wf_def by (simp add: PAGE_SIZE_def)
  show "user_page (page_of sg i)"
    using al le u unfolding user_page_def page_aligned_def PAGE_FRAME_def TLBHI_VPAGE_def
    by (simp add: word_less_nat_alt USERSTACK_def PAGE_SIZE_def)
qed

text \<open>The comparison and the division the handler performs find the page.\<close>

lemma seg_index:
  assumes wf: "seg_wf sg" and v: "page_aligned v"
    and c: "startaddr sg \<le> v" "v < startaddr sg + numpages sg * word_of_nat PAGE_SIZE"
  shows "unat (v - startaddr sg) div PAGE_SIZE < unat (numpages sg)"
    and "page_of sg (unat (v - startaddr sg) div PAGE_SIZE) = v"
proof -
  let ?d = "unat v - unat (startaddr sg)"
  have d: "unat (v - startaddr sg) = ?d" using c(1) by (rule unat_sub)
  have b: "unat (startaddr sg) \<le> unat v" "?d < unat (numpages sg) * PAGE_SIZE"
    using c seg_top [OF wf] by (auto simp: word_le_nat_alt word_less_nat_alt)
  then show i: "unat (v - startaddr sg) div PAGE_SIZE < unat (numpages sg)"
    unfolding d by (simp add: less_mult_imp_div_less)
  have "?d mod PAGE_SIZE = 0"
    using wf v b(1) unfolding seg_wf_def page_aligned_iff by (metis mod_eq_dvd_iff_nat mod_0 dvd_eq_mod_eq_0)
  then have "?d div PAGE_SIZE * PAGE_SIZE = ?d" by (metis add.right_neutral div_mult_mod_eq)
  then have "unat (page_of sg (unat (v - startaddr sg) div PAGE_SIZE)) = unat v"
    unfolding unat_page_of(1) [OF wf i] unfolding d using b(1) by simp
  then show "page_of sg (unat (v - startaddr sg) div PAGE_SIZE) = v" by (rule unsigned_word_eqI)
qed

lemma page_of_inj:
  assumes "seg_wf sg" "i < unat (numpages sg)" "j < unat (numpages sg)" "page_of sg i = page_of sg j"
  shows "i = j"
proof -
  have "unat (startaddr sg) + i * PAGE_SIZE = unat (startaddr sg) + j * PAGE_SIZE"
    using unat_page_of(1) [OF assms(1,2)] unat_page_of(1) [OF assms(1,3)] assms(4) by metis
  then show ?thesis by (simp add: PAGE_SIZE_def)
qed

section \<open>Reading the executable\<close>

text \<open>The segment \<^verbatim>\<open>readfromelfto\<close> reads from, and the bytes it gets for a page.\<close>

definition elf_source :: "addrspace \<Rightarrow> vaddr_t \<Rightarrow> segment option" where
  "elf_source as v =
     find (\<lambda>sg. seg_reaches sg v) [the (seg1 as), the (seg2 as), the (segstack as)]"

definition seg_bytes :: "'f vnode_ops \<Rightarrow> segment \<Rightarrow> vaddr_t \<Rightarrow> 'f machine \<Rightarrow> byte list option" where
  "seg_bytes ops sg v s =
     (case elfdata sg of None \<Rightarrow> None
      | Some vn \<Rightarrow> let (res, bs) = vop_read ops (files s) vn (int (unat (v - startaddr sg)) + elfoffset sg) PAGE_SIZE
                   in if res = 0 then Some bs else None)"

lemma seg_bytes_length: "vnode_ops_ok ops \<Longrightarrow> seg_bytes ops sg v s = Some bs \<Longrightarrow> length bs \<le> PAGE_SIZE"
  using vnode_ops_okD(1) [of ops "files s"]
  by (auto simp: seg_bytes_def split: option.splits if_splits prod.splits) (metis snd_conv)

text \<open>The file of a segment that is not the swap file reads the same after a page was swapped.\<close>

lemma seg_bytes_kept:
  "files_kept ops sw (files s) (files s') \<Longrightarrow> elfdata sg \<noteq> Some sw \<Longrightarrow> seg_bytes ops sg v s' = seg_bytes ops sg v s"
  by (auto simp: seg_bytes_def files_kept_def split: option.split)

lemma frame_paddr_aligned: "f < 2 ^ 20 \<Longrightarrow> frame_paddr f AND PAGE_FRAME = frame_paddr f"
  using page_aligned_iff [of "frame_paddr f"] unat_frame_paddr [of f] by (simp add: page_aligned_def)

lemma readfromelfto_ok:
  assumes segs: "seg1 as \<noteq> None" "seg2 as \<noteq> None" "segstack as \<noteq> None" and h: "held s = {}"
    and f: "f < 2 ^ 20" and src: "elf_source as v = Some sg" "seg_bytes ops sg v s = Some bs"
  shows "readfromelfto ops as v (frame_paddr f) s =
    Inr (s\<lparr>ram := write_ram (ram s) (unat (frame_paddr f)) bs\<rparr>)"
proof -
  have "seg_read ops sg v (frame_paddr f) s = Inr (0, s\<lparr>ram := write_ram (ram s) (unat (frame_paddr f)) bs\<rparr>)"
    using src(2) h by (auto simp: seg_bytes_def seg_read_def file_to_ram_def split: option.splits if_splits prod.splits)
  then show ?thesis
    using segs src(1) frame_paddr_aligned [OF f]
    by (auto simp: readfromelfto_def Let_def elf_source_def split: if_splits)
qed

lemma readfromelfto_fails:
  assumes segs: "seg1 as \<noteq> None" "seg2 as \<noteq> None" "segstack as \<noteq> None" and h: "held s = {}"
    and none: "elf_source as v = None"
  shows "readfromelfto ops as v p s = Inl (Panic ''Could not read from elf'')"
  using segs none by (auto simp: readfromelfto_def Let_def elf_source_def split: if_splits)

text \<open>An address inside a segment is reached by it, and by a segment that ends there.\<close>

lemma seg_reaches_iff:
  assumes "seg_wf sg"
  shows "seg_reaches sg v \<longleftrightarrow> unat (startaddr sg) \<le> unat v \<and>
    unat v \<le> unat (startaddr sg) + unat (numpages sg) * PAGE_SIZE"
  using seg_top [OF assms] by (simp add: seg_reaches_def word_le_nat_alt add.commute)

section \<open>Building, copying and destroying address spaces\<close>

lemma unat_page_offset: "unat (v AND NOT PAGE_FRAME :: u32) = unat v mod 4096"
proof -
  have m: "(NOT PAGE_FRAME :: u32) = mask 12" by (simp add: PAGE_FRAME_def mask_eq_exp_minus_1)
  have "v AND NOT PAGE_FRAME = take_bit 12 v" unfolding m by (simp add: take_bit_eq_mask)
  then show ?thesis by (simp add: take_bit_eq_mod unat_mod)
qed

text \<open>The page range covers the region, starts and ends on page boundaries, and wastes less than a page.\<close>

lemma region_pages_ok:
  assumes r: "region_pages v m = (base, n)" and small: "unat v + unat m \<le> 2 ^ 31"
  shows "page_aligned base" "unat base \<le> unat v" "unat v < unat base + PAGE_SIZE"
    "unat v + unat m \<le> unat base + unat n * PAGE_SIZE" "unat base + unat n * PAGE_SIZE < unat v + unat m + PAGE_SIZE"
proof -
  have b: "base = v AND PAGE_FRAME" using r by (simp add: region_pages_def Let_def)
  have ub: "unat base = unat v div 4096 * 4096" unfolding b PAGE_FRAME_def unat_page_mask ..
  have vd: "unat v = unat v div 4096 * 4096 + unat v mod 4096" by simp
  show "page_aligned base" by (simp add: b)
  show "unat base \<le> unat v" unfolding ub by simp
  show "unat v < unat base + PAGE_SIZE"
    unfolding ub PAGE_SIZE_def using vd mod_less_divisor [of 4096 "unat v"] by linarith
  let ?t = "unat m + unat v mod 4096"
  have off: "unat v mod 4096 < 4096" by simp
  have s1: "unat (m + (v AND NOT PAGE_FRAME)) = ?t"
    using small off by (simp add: unat_word_ariths unat_page_offset)
  have "m + (v AND NOT PAGE_FRAME) + word_of_nat PAGE_SIZE - 1 = m + (v AND NOT PAGE_FRAME) + 4095"
    by (simp add: PAGE_SIZE_def)
  then have s2: "unat (m + (v AND NOT PAGE_FRAME) + word_of_nat PAGE_SIZE - 1) = ?t + 4095"
    using small off s1 by (simp add: unat_word_ariths)
  define x where "x = m + (v AND NOT PAGE_FRAME) + word_of_nat PAGE_SIZE - 1"
  have nx: "n = (x AND PAGE_FRAME) div word_of_nat PAGE_SIZE"
    using r by (simp add: region_pages_def Let_def x_def)
  have ux: "unat x = ?t + 4095" using s2 by (simp only: x_def)
  have ps: "unat (word_of_nat PAGE_SIZE :: u32) = 4096" by (simp add: PAGE_SIZE_def)
  have n: "unat n = (?t + 4095) div 4096"
    unfolding nx unat_div ps PAGE_FRAME_def unat_page_mask ux by (rule nonzero_mult_div_cancel_right) simp
  have q: "(?t + 4095) div 4096 * 4096 + (?t + 4095) mod 4096 = ?t + 4095" by (rule div_mult_mod_eq)
  have "(?t + 4095) mod 4096 < 4096" by simp
  then show "unat v + unat m \<le> unat base + unat n * PAGE_SIZE"
    "unat base + unat n * PAGE_SIZE < unat v + unat m + PAGE_SIZE"
    unfolding ub n PAGE_SIZE_def using q vd by linarith+
qed

text \<open>The segment of a new region.\<close>

definition new_region :: "vaddr_t \<Rightarrow> u32 \<Rightarrow> int \<Rightarrow> vnode option \<Rightarrow> int \<Rightarrow> int \<Rightarrow> int \<Rightarrow> segment" where
  "new_region v m off vn rd wr ex =
     \<lparr>numpages = snd (region_pages v m), elfdata = vn, loadedelf = Some (replicate (unat (snd (region_pages v m))) 0),
      elfoffset = off, startaddr = fst (region_pages v m), stackseg = False,
      permissions = word_of_int rd OR word_of_int wr OR word_of_int ex\<rparr>"

lemma as_define_region_ok:
  assumes "held s = {}"
  shows "as_define_region True True as s v m off vn rd wr ex =
    Inr (if seg1 as = None then (0, as\<lparr>seg1 := Some (new_region v m off vn rd wr ex)\<rparr>)
         else if seg2 as = None then (0, as\<lparr>seg2 := Some (new_region v m off vn rd wr ex)\<rparr>) else (ENOSYS, as))"
  using assms by (auto simp: as_define_region_def pt_can_sleep_def segcreate_def segdef_def seg_flags_def new_region_def
      split: option.split prod.split)

text \<open>The copy of a segment has its layout but none of its pages.\<close>

lemma segcopy_ok: "segcopy True True (Some sg) =
  Inr (sg\<lparr>loadedelf := Some (replicate (unat (numpages sg)) 0)\<rparr>)"
  by (cases sg) (simp add: segcopy_def segcreate_def seg_flags_def)

lemma as_copy_ok:
  assumes "seg1 old = Some a" "seg2 old = Some b" "segstack old = Some c"
  shows "as_copy True (\<lambda>_. True) old = Inr (0, Some
    \<lparr>seg1 = Some (a\<lparr>loadedelf := Some (replicate (unat (numpages a)) 0)\<rparr>),
     seg2 = Some (b\<lparr>loadedelf := Some (replicate (unat (numpages b)) 0)\<rparr>),
     segstack = Some (c\<lparr>loadedelf := Some (replicate (unat (numpages c)) 0)\<rparr>)\<rparr>)"
  using assms by (simp add: as_copy_def as_create_def segcopy_ok)

lemma vfs_close_ok: "0 < vn_refcount s v \<Longrightarrow>
  vfs_close v s = Inr (s\<lparr>vn_refcount := (vn_refcount s)(v := vn_refcount s v - 1)\<rparr>)"
  by (auto simp: vfs_close_def vnode_decref_def)

lemma cm_inv_refs: "cm_inv ops (s\<lparr>vn_refcount := r\<rparr>) = cm_inv ops s" "swap_contents ops (s\<lparr>vn_refcount := r\<rparr>) = swap_contents ops s"
  by (rule cm_cong; simp)+

text \<open>Destroying an address space forgets the pages of the process and no others.\<close>

lemma as_destroy_ok:
  assumes inv: "cm_inv ops s" and pid: "0 < pid"
    and segs: "seg1 as = Some sg" "seg2 as \<noteq> None" "segstack as \<noteq> None"
    and refs: "\<forall>v. elfdata sg = Some v \<longrightarrow> 0 < vn_refcount s v"
  shows "\<exists>s'. as_destroy as pid s = Inr s' \<and> pt_inv (m_pt s') \<and> swap_inv ops s' \<and> held s' = {} \<and>
    m_tlb s' = m_tlb s \<and>
    vn_refcount s' = (case elfdata sg of None \<Rightarrow> vn_refcount s | Some v \<Rightarrow> (vn_refcount s)(v := vn_refcount s v - 1)) \<and>
    page_contents ops s' = (\<lambda>k. if fst k = pid then None else page_contents ops s k)"
proof -
  define r where "r = (case elfdata sg of None \<Rightarrow> vn_refcount s | Some v \<Rightarrow> (vn_refcount s)(v := vn_refcount s v - 1))"
  let ?s1 = "s\<lparr>vn_refcount := r\<rparr>"
  have c1: "(case elfdata sg of None \<Rightarrow> Inr s | Some v \<Rightarrow> vfs_close v s) = Inr ?s1"
    using refs by (auto simp: r_def vfs_close_ok split: option.split)
  have inv1: "cm_inv ops ?s1" using inv by (simp add: cm_inv_refs)
  obtain st where st: "removeptentries ?s1 pid = Inr (?s1\<lparr>m_pt := st\<rparr>)" "pt_inv st"
    "resident st = (\<lambda>k. if fst k = pid then None else resident (m_pt ?s1) k)"
    using removeptentries_ok [OF inv1 pid] by blast
  let ?s2 = "?s1\<lparr>m_pt := st\<rparr>"
  have sw: "swap_inv ops ?s2 = swap_inv ops s" "swap_contents ops ?s2 = swap_contents ops s" by (rule swap_cong; simp)+
  have h: "swap_inv ops ?s2" "held ?s2 = {}" using sw cm_invD(1,4) [OF inv] by simp_all
  obtain s' where s': "removeswapentries ?s2 pid = Inr s'" "swap_inv ops s'"
    "swap_contents ops s' = (\<lambda>k. if fst k = pid then None else swap_contents ops ?s2 k)"
    "same_frame_state ?s2 s'" "ram s' = ram ?s2"
    using removeswapentries_ok [OF h pid] by blast
  have refs': "vn_refcount s' = r" using removeswapentries_refs [OF s'(1)] by simp
  have "as_destroy as pid s = Inr s'"
    using segs c1 st(1) s'(1) by (auto simp: as_destroy_def segdes_def)
  moreover have "page_contents ops s' k = (if fst k = pid then None else page_contents ops s k)" for k
    using s'(3-5) st(3) sw(2) by (simp add: page_contents_def same_frame_state_def split: option.split)
  ultimately show ?thesis using s'(2,4) refs' st(2) h(2) by (auto simp: same_frame_state_def r_def)
qed

end
