(* ===== verification/Vm.thy ===== *)
theory Vm
  imports Addrspace
begin

text \<open>
  The VM system proper, \<^verbatim>\<open>kern/vm/vm.c\<close>: start-up, shut-down and the page fault handler. The
  current process is passed as its pid and its address space (\<open>None\<close> for none); the handler
  returns the address space with its updated page flags.
\<close>

section \<open>Operations\<close>

definition VM_FAULT_READ :: int where "VM_FAULT_READ = 0"
definition VM_FAULT_WRITE :: int where "VM_FAULT_WRITE = 1"
definition VM_FAULT_READONLY :: int where "VM_FAULT_READONLY = 2"

definition vm_bootstrap :: "(nat \<Rightarrow> 'f machine \<Rightarrow> (bool \<times> 'f machine) res) \<Rightarrow> (nat \<Rightarrow> ptpage)
    \<Rightarrow> int \<times> vnode option \<Rightarrow> 'f machine \<Rightarrow> 'f machine res" where
  "vm_bootstrap kmalloc fresh opened s =
     bindR (ptinit kmalloc fresh s) (\<lambda>(_, s1).
     bindR (swapinit opened s1) (\<lambda>s2.
     Inr (s2\<lparr>m_stats := vmstatsetup\<rparr>)))"

definition vm_shutdown :: "'f machine \<Rightarrow> (statline list \<times> 'f machine) res" where
  "vm_shutdown s =
     bindR (swapdest s) (\<lambda>s1.
     bindR (ptdest s1) (\<lambda>s2.
     Inr (printvmstats (m_stats s2), s2)))"

definition vm_tlbshootdown :: "'f machine \<Rightarrow> 'f machine res" where
  "vm_tlbshootdown s = Inl (Panic ''vm tried to do tlb shootdown?!'')"

text \<open>The handler returns an error code or, on a write to a read-only page, ends the process.\<close>

datatype vm_result = VmReturn int | VmExit int

datatype segname = Seg1 | Seg2 | Segstack

primrec getseg :: "addrspace \<Rightarrow> segname \<Rightarrow> segment option" where
  "getseg as Seg1 = seg1 as"
| "getseg as Seg2 = seg2 as"
| "getseg as Segstack = segstack as"

primrec putseg :: "addrspace \<Rightarrow> segname \<Rightarrow> segment \<Rightarrow> addrspace" where
  "putseg as Seg1 sg = as\<lparr>seg1 := Some sg\<rparr>"
| "putseg as Seg2 sg = as\<lparr>seg2 := Some sg\<rparr>"
| "putseg as Segstack sg = as\<lparr>segstack := Some sg\<rparr>"

text \<open>The region that has the fault address, and the index of the page in it.\<close>

definition vm_seg_of :: "segment \<Rightarrow> segment \<Rightarrow> vaddr_t \<Rightarrow> (segname \<times> nat) option" where
  "vm_seg_of sg1 sg2 faultaddress =
     (let vbase1 = startaddr sg1;
          vtop1 = vbase1 + numpages sg1 * word_of_nat PAGE_SIZE;
          vbase2 = startaddr sg2;
          vtop2 = vbase2 + numpages sg2 * word_of_nat PAGE_SIZE;
          stackbase = USERSTACK - STACKPAGES * word_of_nat PAGE_SIZE;
          stacktop = USERSTACK
      in if faultaddress \<ge> vbase1 \<and> faultaddress < vtop1
           then Some (Seg1, unat (faultaddress - vbase1) div PAGE_SIZE)
         else if faultaddress \<ge> vbase2 \<and> faultaddress < vtop2
           then Some (Seg2, unat (faultaddress - vbase2) div PAGE_SIZE)
         else if faultaddress \<ge> stackbase \<and> faultaddress < stacktop
           then Some (Segstack, unat (faultaddress - stackbase) div PAGE_SIZE)
         else None)"

definition seg_flag :: "segment \<Rightarrow> nat \<Rightarrow> byte res" where
  "seg_flag sg ind =
     (case loadedelf sg of None \<Rightarrow> Inl NullDeref
      | Some fl \<Rightarrow> if length fl \<le> ind then Inl OutOfBounds else Inr (fl ! ind))"

definition seg_loaded :: "segment \<Rightarrow> nat \<Rightarrow> segment" where
  "seg_loaded sg ind = sg\<lparr>loadedelf := map_option (\<lambda>fl. fl[ind := 1]) (loadedelf sg)\<rparr>"

text \<open>Filling the new frame: from the swap file, from the executable, or with zeros.\<close>

definition vm_fill :: "'f vnode_ops \<Rightarrow> addrspace \<Rightarrow> pid_t \<Rightarrow> segname \<Rightarrow> segment \<Rightarrow> nat \<Rightarrow> vaddr_t \<Rightarrow> paddr_t
    \<Rightarrow> 'f machine \<Rightarrow> (addrspace \<times> 'f machine) res" where
  "vm_fill ops as pid nm sg ind faultaddress respaddr s =
     bindR (seg_flag sg ind) (\<lambda>fl.
     if fl = 1 then
       bindR (swapoutpage ops s pid faultaddress respaddr) (\<lambda>(_, s1).
       Inr (as, incr PAGEFAULTSWAP (incr PAGEFAULTDISK s1)))
     else if \<not> stackseg sg \<and> fl = 0 then
       bindR (readfromelfto ops as faultaddress respaddr s) (\<lambda>s1.
       Inr (putseg as nm (seg_loaded sg ind), incr PAGEFAULTELF (incr PAGEFAULTDISK s1)))
     else if stackseg sg \<and> fl = 0 then
       Inr (putseg as nm (seg_loaded sg ind),
            incr PAGEFAULTZERO (as_zero_region respaddr PAGE_SIZE s))
     else Inr (as, s))"

definition vm_tlb_entry :: "'f machine \<Rightarrow> pid_t \<Rightarrow> vaddr_t \<Rightarrow> paddr_t \<Rightarrow> bool \<Rightarrow> 'f machine res" where
  "vm_tlb_entry s pid faultaddress paddr writePriv =
     bindR (vmtlb_write (m_tlb s) (m_stats s) pid faultaddress paddr writePriv) (\<lambda>(t, c).
     Inr (s\<lparr>m_tlb := t, m_stats := c\<rparr>))"

definition seg_writable :: "segment \<Rightarrow> bool" where
  "seg_writable sg \<longleftrightarrow> permissions sg AND word_of_int WRFLAG \<noteq> 0"

definition vm_fault :: "'f vnode_ops \<Rightarrow> int \<Rightarrow> vaddr_t \<Rightarrow> pid_t option \<Rightarrow> addrspace option \<Rightarrow> 'f machine
    \<Rightarrow> (vm_result \<times> addrspace option \<times> 'f machine) res" where
  "vm_fault ops faulttype faultaddress0 curproc curas s =
     (let faultaddress = faultaddress0 AND PAGE_FRAME in
      if faulttype = VM_FAULT_READONLY then Inr (VmExit VM_FAULT_READONLY, curas, s)
      else if faulttype \<noteq> VM_FAULT_READ \<and> faulttype \<noteq> VM_FAULT_WRITE then Inr (VmReturn EINVAL, curas, s)
      else case curproc of None \<Rightarrow> Inr (VmReturn EFAULT, curas, s) | Some pid \<Rightarrow>
      case curas of None \<Rightarrow> Inr (VmReturn EFAULT, curas, s) | Some as \<Rightarrow>
      case (seg1 as, seg2 as, segstack as) of
        (Some sg1, Some sg2, Some sg3) \<Rightarrow>
          if numpages sg1 = 0 \<or> numpages sg2 = 0 \<or> numpages sg3 = 0 then Inl Kassert
          else (case vm_seg_of sg1 sg2 faultaddress of
            None \<Rightarrow> Inr (VmReturn EFAULT, curas, s)
          | Some (nm, ind) \<Rightarrow>
              let sg = the (getseg as nm);
                  s0 = incr TLBFAULT s in
              bindR (pageaddr s0 pid faultaddress) (\<lambda>(paddr, s1).
              bindR (if paddr = 0 then
                       bindR (allocuserpage ops s1 pid faultaddress) (\<lambda>(respaddr, s2).
                       bindR (vm_fill ops as pid nm sg ind faultaddress respaddr s2) (\<lambda>(as', s3).
                       Inr (respaddr, as', s3)))
                     else Inr (paddr, as, incr TLBRELOAD s1)) (\<lambda>(paddr, as', s4).
              bindR (vm_tlb_entry s4 pid faultaddress paddr (seg_writable sg)) (\<lambda>s5.
              Inr (VmReturn 0, Some as', s5)))))
      | _ \<Rightarrow> Inl Kassert)"

section \<open>Invariant\<close>

text \<open>
  An address space as \<^verbatim>\<open>load_elf\<close> and \<^verbatim>\<open>as_define_stack\<close> leave it: two regions of the
  executable and the stack, which do not overlap.
\<close>

definition as_wf :: "addrspace \<Rightarrow> bool" where
  "as_wf as \<longleftrightarrow>
     (\<forall>nm. \<exists>sg. getseg as nm = Some sg \<and> seg_wf sg \<and> (stackseg sg \<longleftrightarrow> nm = Segstack)) \<and>
     (\<forall>nm nm' sg sg'. getseg as nm = Some sg \<longrightarrow> getseg as nm' = Some sg' \<longrightarrow> nm \<noteq> nm' \<longrightarrow>
        seg_range sg \<inter> seg_range sg' = {}) \<and>
     (\<forall>sg. segstack as = Some sg \<longrightarrow>
        startaddr sg = USERSTACK - STACKPAGES * word_of_nat PAGE_SIZE \<and> numpages sg = STACKPAGES)"

text \<open>A page of the address space was loaded once exactly when its content is kept somewhere.\<close>

definition loaded_ok :: "'f vnode_ops \<Rightarrow> pid_t \<Rightarrow> addrspace \<Rightarrow> 'f machine \<Rightarrow> bool" where
  "loaded_ok ops pid as s \<longleftrightarrow>
     (\<forall>nm sg i. getseg as nm = Some sg \<longrightarrow> i < unat (numpages sg) \<longrightarrow>
        (the (loadedelf sg) ! i = 1 \<longleftrightarrow> page_contents ops s (pid, page_of sg i) \<noteq> None))"

text \<open>The state in which the process \<open>pid\<close> runs: its TLB entries are its own.\<close>

definition vm_inv :: "'f vnode_ops \<Rightarrow> pid_t \<Rightarrow> addrspace \<Rightarrow> 'f machine \<Rightarrow> bool" where
  "vm_inv ops pid as s \<longleftrightarrow> cm_inv ops s \<and> exclusive ops {} s \<and> as_wf as \<and> loaded_ok ops pid as s \<and>
     0 < pid \<and> (lastpid (m_tlb s) = pid \<or> tlb_map (m_tlb s) = Map.empty)"

lemma vm_invD:
  assumes "vm_inv ops pid as s"
  shows "cm_inv ops s" "exclusive ops {} s" "as_wf as" "loaded_ok ops pid as s" "0 < pid"
    "lastpid (m_tlb s) = pid \<or> tlb_map (m_tlb s) = Map.empty"
  using assms unfolding vm_inv_def by blast+

lemma as_wf_seg:
  assumes "as_wf as"
  obtains sg where "getseg as nm = Some sg" "seg_wf sg" "stackseg sg \<longleftrightarrow> nm = Segstack"
  using assms unfolding as_wf_def by blast

lemma as_wf_segs:
  assumes "as_wf as"
  shows "seg1 as \<noteq> None" "seg2 as \<noteq> None" "segstack as \<noteq> None"
proof -
  have "getseg as nm \<noteq> None" for nm by (rule as_wf_seg [OF assms, of nm]) simp
  from this [of Seg1] this [of Seg2] this [of Segstack]
  show "seg1 as \<noteq> None" "seg2 as \<noteq> None" "segstack as \<noteq> None" by simp_all
qed

lemma as_wf_disjoint:
  "as_wf as \<Longrightarrow> getseg as nm = Some sg \<Longrightarrow> getseg as nm' = Some sg' \<Longrightarrow> nm \<noteq> nm' \<Longrightarrow>
   seg_range sg \<inter> seg_range sg' = {}"
  unfolding as_wf_def by blast

lemma as_wf_stack:
  "as_wf as \<Longrightarrow> segstack as = Some sg \<Longrightarrow>
   startaddr sg = USERSTACK - STACKPAGES * word_of_nat PAGE_SIZE \<and> numpages sg = STACKPAGES"
  unfolding as_wf_def by blast

lemma stack_top: "USERSTACK - STACKPAGES * word_of_nat PAGE_SIZE + STACKPAGES * word_of_nat PAGE_SIZE = USERSTACK"
  by simp

text \<open>The handler finds the region and the page of every address of the address space.\<close>

lemma vm_seg_of_Some:
  assumes wf: "as_wf as" and sg: "seg1 as = Some sg1" "seg2 as = Some sg2" and v: "page_aligned v"
    and f: "vm_seg_of sg1 sg2 v = Some (nm, i)"
  obtains sg where "getseg as nm = Some sg" "seg_wf sg" "stackseg sg \<longleftrightarrow> nm = Segstack"
    "i < unat (numpages sg)" "page_of sg i = v"
proof -
  obtain sg where s: "getseg as nm = Some sg" "seg_wf sg" "stackseg sg \<longleftrightarrow> nm = Segstack"
    using as_wf_seg [OF wf] by metis
  have "startaddr sg \<le> v \<and> v < startaddr sg + numpages sg * word_of_nat PAGE_SIZE \<and>
      i = unat (v - startaddr sg) div PAGE_SIZE"
    using f sg s(1) as_wf_stack [OF wf, of sg] stack_top
    by (cases nm) (auto simp: vm_seg_of_def Let_def split: if_splits)
  then show thesis using that [OF s] seg_index [OF s(2) v] by blast
qed

lemma vm_seg_of_None:
  assumes wf: "as_wf as" and sg: "seg1 as = Some sg1" "seg2 as = Some sg2"
    and n: "vm_seg_of sg1 sg2 v = None" and s: "getseg as nm = Some sg"
  shows "unat v \<notin> seg_range sg"
proof -
  have w: "seg_wf sg" using as_wf_seg [OF wf, of nm] s by auto
  have "\<not> (startaddr sg \<le> v \<and> v < startaddr sg + numpages sg * word_of_nat PAGE_SIZE)"
    using n sg s as_wf_stack [OF wf, of sg] stack_top
    by (cases nm) (auto simp: vm_seg_of_def Let_def split: if_splits)
  then show ?thesis using seg_top [OF w] by (auto simp: seg_range_def word_le_nat_alt word_less_nat_alt)
qed

lemma page_of_apart:
  assumes wf: "as_wf as" and s: "getseg as nm = Some sg" "getseg as nm' = Some sg'"
    and i: "i < unat (numpages sg)" "j < unat (numpages sg')" and eq: "page_of sg i = page_of sg' j"
  shows "nm = nm' \<and> i = j"
proof -
  have w: "seg_wf sg" "seg_wf sg'" using as_wf_seg [OF wf] s by (metis option.inject)+
  have "unat (page_of sg i) \<in> seg_range sg \<inter> seg_range sg'"
    using unat_page_of(5) [OF w(1) i(1)] unat_page_of(5) [OF w(2) i(2)] eq by simp
  then have "nm = nm'" using as_wf_disjoint [OF wf s] by blast
  then show ?thesis using s page_of_inj [OF w(1) i(1), of j] i(2) eq by auto
qed

section \<open>Filling a page\<close>

text \<open>
  What a page holds when it is touched for the first time: zeros in the stack; in a region of
  the executable the bytes read, over what the frame held before.
\<close>

definition first_page :: "'f vnode_ops \<Rightarrow> addrspace \<Rightarrow> segment \<Rightarrow> vaddr_t \<Rightarrow> 'f machine \<Rightarrow> byte list \<Rightarrow> byte list" where
  "first_page ops as sg v s old =
     (if stackseg sg then replicate PAGE_SIZE 0
      else let bs = the (seg_bytes ops (the (elf_source as v)) v s) in bs @ drop (length bs) old)"

text \<open>The executable can be read for this page, and it is not the swap file.\<close>

definition elf_ok :: "'f vnode_ops \<Rightarrow> addrspace \<Rightarrow> segment \<Rightarrow> vaddr_t \<Rightarrow> 'f machine \<Rightarrow> bool" where
  "elf_ok ops as sg v s \<longleftrightarrow> stackseg sg \<or>
     (case elf_source as v of None \<Rightarrow> False
      | Some src \<Rightarrow> elfdata src \<noteq> Some (swapfile s) \<and> seg_bytes ops src v s \<noteq> None)"

lemma elf_kept:
  assumes "files_kept ops (swapfile s) (files s) (files s')" "swapfile s' = swapfile s" "elf_ok ops as sg v s"
  shows "elf_ok ops as sg v s'" "first_page ops as sg v s' old = first_page ops as sg v s old"
proof -
  have "seg_bytes ops src v s' = seg_bytes ops src v s"
    if "elf_source as v = Some src" "\<not> stackseg sg" for src
    using seg_bytes_kept [OF assms(1), of src v] assms(3) that by (simp add: elf_ok_def)
  then show "elf_ok ops as sg v s'" "first_page ops as sg v s' old = first_page ops as sg v s old"
    using assms(2,3) by (auto simp: elf_ok_def first_page_def split: option.splits)
qed

lemma getseg_putseg [simp]: "getseg (putseg as nm sg) nm' = (if nm' = nm then Some sg else getseg as nm')"
  by (cases nm; cases nm') simp_all

lemma seg_loaded_simps [simp]:
  "startaddr (seg_loaded sg i) = startaddr sg" "numpages (seg_loaded sg i) = numpages sg"
  "stackseg (seg_loaded sg i) = stackseg sg" "permissions (seg_loaded sg i) = permissions sg"
  "page_of (seg_loaded sg i) j = page_of sg j" "seg_range (seg_loaded sg i) = seg_range sg"
  by (simp_all add: seg_loaded_def page_of_def seg_range_def)

lemma seg_flagD:
  assumes "seg_wf sg" "i < unat (numpages sg)"
  shows "seg_flag sg i = Inr (the (loadedelf sg) ! i)" "the (loadedelf sg) ! i = 0 \<or> the (loadedelf sg) ! i = 1"
    "seg_wf (seg_loaded sg i)"
    "j < unat (numpages sg) \<Longrightarrow> the (loadedelf (seg_loaded sg i)) ! j = (if j = i then 1 else the (loadedelf sg) ! j)"
proof -
  obtain fl where fl: "loadedelf sg = Some fl" "length fl = unat (numpages sg)" "set fl \<subseteq> {0, 1}"
    using assms(1) by (auto simp: seg_wf_def)
  show "seg_flag sg i = Inr (the (loadedelf sg) ! i)" using fl assms(2) by (simp add: seg_flag_def)
  have "fl ! i \<in> set fl" using fl(2) assms(2) by simp
  then show "the (loadedelf sg) ! i = 0 \<or> the (loadedelf sg) ! i = 1" using fl(1,3) by auto
  show "seg_wf (seg_loaded sg i)"
    using assms(1) fl set_update_subset_insert [of fl i 1] by (auto simp: seg_wf_def seg_loaded_def)
  show "the (loadedelf (seg_loaded sg i)) ! j = (if j = i then 1 else the (loadedelf sg) ! j)"
    if "j < unat (numpages sg)"
    using fl that assms(2) by (simp add: seg_loaded_def nth_list_update)
qed

lemma as_wf_loaded:
  assumes wf: "as_wf as" and sg: "getseg as nm = Some sg" and i: "i < unat (numpages sg)"
  shows "as_wf (putseg as nm (seg_loaded sg i))"
proof -
  let ?as = "putseg as nm (seg_loaded sg i)"
  have w: "seg_wf (seg_loaded sg i)" "stackseg sg \<longleftrightarrow> nm = Segstack"
    using as_wf_seg [OF wf, of nm] sg seg_flagD(3) [OF _ i] by auto
  have "\<exists>sg'. getseg ?as nm' = Some sg' \<and> seg_wf sg' \<and> (stackseg sg' \<longleftrightarrow> nm' = Segstack)" for nm'
  proof -
    obtain a where "getseg as nm' = Some a" "seg_wf a" "stackseg a \<longleftrightarrow> nm' = Segstack" by (rule as_wf_seg [OF wf])
    then show ?thesis using w by (cases "nm' = nm") auto
  qed
  moreover have "seg_range a \<inter> seg_range b = {}"
    if r: "getseg ?as n = Some a" "getseg ?as n' = Some b" "n \<noteq> n'" for n n' a b
  proof -
    obtain a' b' where "getseg as n = Some a'" "seg_range a' = seg_range a"
      "getseg as n' = Some b'" "seg_range b' = seg_range b"
      using r(1,2) sg by (auto split: if_splits)
    then show ?thesis using as_wf_disjoint [OF wf, of n a' n' b'] r(3) by simp
  qed
  moreover have "startaddr a = USERSTACK - STACKPAGES * word_of_nat PAGE_SIZE \<and> numpages a = STACKPAGES"
    if "segstack ?as = Some a" for a
    using as_wf_stack [OF wf] that sg by (cases nm) auto
  ultimately show ?thesis unfolding as_wf_def by blast
qed

text \<open>Setting the flag of the page that is now kept.\<close>

lemma loaded_ok_set:
  assumes wf: "as_wf as" and sg: "getseg as nm = Some sg" and i: "i < unat (numpages sg)"
    and ok: "loaded_ok ops pid as s" and K: "page_contents ops s' (pid, page_of sg i) \<noteq> None"
    and same: "\<forall>k. k \<noteq> (pid, page_of sg i) \<longrightarrow> page_contents ops s' k = page_contents ops s k"
  shows "loaded_ok ops pid (putseg as nm (seg_loaded sg i)) s'"
  unfolding loaded_ok_def
proof (intro allI impI)
  fix n a j
  assume a: "getseg (putseg as nm (seg_loaded sg i)) n = Some a" "j < unat (numpages a)"
  have w: "seg_wf sg" using as_wf_seg [OF wf, of nm] sg by auto
  show "the (loadedelf a) ! j = 1 \<longleftrightarrow> page_contents ops s' (pid, page_of a j) \<noteq> None"
  proof (cases "n = nm \<and> j = i")
    case True
    then show ?thesis using a K seg_flagD(4) [OF w i i] by auto
  next
    case False
    obtain b where b: "getseg as n = Some b" "page_of a j = page_of b j" "j < unat (numpages b)"
      "the (loadedelf a) ! j = the (loadedelf b) ! j"
      using a sg False seg_flagD(4) [OF w i, of j] by (auto split: if_splits)
    have "page_of b j \<noteq> page_of sg i" using page_of_apart [OF wf b(1) sg b(3) i] False by blast
    then show ?thesis using ok b same unfolding loaded_ok_def by auto
  qed
qed

lemma exclusive_single: "exclusive ops {K} s \<Longrightarrow> swap_contents ops s K = None \<Longrightarrow> exclusive ops {} s"
  unfolding exclusive_def by (metis singletonD)

text \<open>Bytes written into the frame of a page leave the rest of the state consistent.\<close>

lemma ram_write_ok:
  assumes inv: "cm_inv ops s" and K: "resident (m_pt s) K = Some f" and bs: "length bs \<le> PAGE_SIZE"
  shows "cm_inv ops (s\<lparr>ram := write_ram (ram s) (unat (frame_paddr f)) bs\<rparr>)"
    "exclusive ops KS (s\<lparr>ram := write_ram (ram s) (unat (frame_paddr f)) bs\<rparr>) = exclusive ops KS s"
    "page_contents ops (s\<lparr>ram := write_ram (ram s) (unat (frame_paddr f)) bs\<rparr>) =
       (page_contents ops s)(K \<mapsto> bs @ drop (length bs) (frame (ram s) f))"
proof -
  let ?s' = "s\<lparr>ram := write_ram (ram s) (unat (frame_paddr f)) bs\<rparr>"
  have c: "cm_inv ops ?s' = cm_inv ops s" "exclusive ops KS ?s' = exclusive ops KS s"
    "swap_contents ops ?s' = swap_contents ops s"
    by (rule cm_cong; simp)+
  then show "cm_inv ops ?s'" "exclusive ops KS ?s' = exclusive ops KS s" using inv by simp_all
  show "page_contents ops ?s' = (page_contents ops s)(K \<mapsto> bs @ drop (length bs) (frame (ram s) f))"
  proof (rule ext)
    fix k
    show "page_contents ops ?s' k = ((page_contents ops s)(K \<mapsto> bs @ drop (length bs) (frame (ram s) f))) k"
      using page_contents_write(1) [OF cm_invD(3) [OF inv] K bs, where s' = ?s' and ops = ops]
        page_contents_write(2) [OF cm_invD(3) [OF inv] K bs, where s' = ?s' and ops = ops and k = k] c(3)
      by auto
  qed
qed

definition fill_stats :: "bool \<Rightarrow> bool \<Rightarrow> counters \<Rightarrow> counters" where
  "fill_stats inswap stack c =
     (if inswap then vmstatincr (vmstatincr c PAGEFAULTDISK) PAGEFAULTSWAP
      else if stack then vmstatincr c PAGEFAULTZERO
      else vmstatincr (vmstatincr c PAGEFAULTDISK) PAGEFAULTELF)"

text \<open>A page that was swapped comes back; a new page gets its first content.\<close>

lemma vm_fill_swapped:
  assumes inv: "cm_inv ops s" and ex: "exclusive ops {(pid, v)} s" and pid: "0 < pid"
    and r: "resident (m_pt s) (pid, v) = Some f" and c: "swap_contents ops s (pid, v) = Some bs"
    and fl: "seg_flag sg i = Inr 1"
  shows "\<exists>s'. vm_fill ops as pid nm sg i v (frame_paddr f) s = Inr (as, s') \<and> cm_inv ops s' \<and> exclusive ops {} s' \<and>
     m_pt s' = m_pt s \<and> m_tlb s' = m_tlb s \<and> page_contents ops s' = (page_contents ops s)((pid, v) \<mapsto> bs) \<and>
     m_stats s' = fill_stats True (stackseg sg) (m_stats s)"
proof -
  note I = cm_invD [OF inv]
  obtain s1 where s1: "swapoutpage ops s pid v (frame_paddr f) = Inr (0, s1)" "swap_inv ops s1"
    "swap_contents ops s1 = (swap_contents ops s)((pid, v) := None)" "same_frame_state s s1"
    "ram s1 = write_ram (ram s) (unat (frame_paddr f)) bs" "m_stats s1 = m_stats s" "length bs = PAGE_SIZE"
    using swapoutpage_ok [OF I(4,1) pid c, of "frame_paddr f"] by blast
  note sf = s1(4) [unfolded same_frame_state_def]
  let ?s' = "incr PAGEFAULTSWAP (incr PAGEFAULTDISK s1)"
  have run: "vm_fill ops as pid nm sg i v (frame_paddr f) s = Inr (as, ?s')"
    using fl s1(1) by (simp add: vm_fill_def)
  have co: "tlb_coherent s1" using I(6) sf by (simp add: tlb_coherent_def)
  have "cm_inv ops s1" unfolding cm_inv_def using I sf s1(2) co by metis
  moreover have "exclusive ops {} s1" using ex s1(3) sf by (simp add: exclusive_def)
  moreover have "page_contents ops s1 k = ((page_contents ops s)((pid, v) \<mapsto> bs)) k" for k
    using page_contents_write(1) [OF I(3) r, where s' = s1 and ops = ops and bs = bs]
      page_contents_write(2) [OF I(3) r, where s' = s1 and ops = ops and bs = bs and k = k] s1(3,5,7) sf
    by (cases "k = (pid, v)") auto
  ultimately have "cm_inv ops ?s' \<and> exclusive ops {} ?s' \<and> page_contents ops ?s' = (page_contents ops s)((pid, v) \<mapsto> bs)"
    by (simp add: fun_eq_iff)
  moreover have "m_stats ?s' = fill_stats True (stackseg sg) (m_stats s)"
    using s1(6) by (simp add: fill_stats_def)
  ultimately show ?thesis using run sf by (intro exI [of _ ?s']) simp
qed

lemma vm_fill_new:
  assumes ops: "vnode_ops_ok ops" and inv: "cm_inv ops s" and ex: "exclusive ops {(pid, v)} s"
    and r: "resident (m_pt s) (pid, v) = Some f" and c: "swap_contents ops s (pid, v) = None"
    and fl: "seg_flag sg i = Inr 0" and wf: "as_wf as" and elf: "elf_ok ops as sg v s"
  shows "\<exists>s'. vm_fill ops as pid nm sg i v (frame_paddr f) s = Inr (putseg as nm (seg_loaded sg i), s') \<and>
     cm_inv ops s' \<and> exclusive ops {} s' \<and> m_pt s' = m_pt s \<and> m_tlb s' = m_tlb s \<and>
     page_contents ops s' = (page_contents ops s)((pid, v) \<mapsto> first_page ops as sg v s (frame (ram s) f)) \<and>
     m_stats s' = fill_stats False (stackseg sg) (m_stats s)"
proof -
  note I = cm_invD [OF inv]
  have f: "f < 2 ^ 20" using resident_frame_less [OF I(3) r] by simp
  have ex': "exclusive ops {} s" by (rule exclusive_single [OF ex c])
  show ?thesis
  proof (cases "stackseg sg")
    case True
    note w = ram_write_ok [OF inv r, of "replicate PAGE_SIZE 0"]
    show ?thesis using fl True w ex'
      by (simp add: vm_fill_def as_zero_region_def fill_stats_def first_page_def)
  next
    case False
    obtain src bs where src: "elf_source as v = Some src" "seg_bytes ops src v s = Some bs"
      using elf False by (auto simp: elf_ok_def split: option.splits)
    note segs = as_wf_segs [OF wf]
    note w = ram_write_ok [OF inv r seg_bytes_length [OF ops src(2)]]
    show ?thesis using fl False w ex' readfromelfto_ok [OF segs I(1) f src] src
      by (simp add: vm_fill_def fill_stats_def first_page_def)
  qed
qed

section \<open>The fault handler\<close>

lemma stats_balanced_fault:
  assumes "stats_balanced c" "t = TLBFAULTWITHFREE \<or> t = TLBFAULTWITHREPLACE"
  shows "stats_balanced (vmstatincr (vmstatincr (vmstatincr c TLBFAULT) TLBRELOAD) t)"
    "stats_balanced (vmstatincr (fill_stats inswap stack (vmstatincr c TLBFAULT)) t)"
    "stats_balanced (vmstatincr (fill_stats inswap stack (vmstatincr (vmstatincr c TLBFAULT) SWAPWRITE)) t)"
  using assms unfolding stats_balanced_def fill_stats_def by (auto simp: algebra_simps)

lemma tlb_fill_stat_cases: "tlb_fill_stat t = TLBFAULTWITHFREE \<or> tlb_fill_stat t = TLBFAULTWITHREPLACE"
  by (simp add: tlb_fill_stat_def)

text \<open>Entering the translation of a resident page of the running process.\<close>

lemma vm_tlb_entry_ok:
  assumes inv: "cm_inv ops s" and r: "resident (m_pt s) (pid, v) = Some f"
    and miss: "tlb_map (m_tlb s) v = None" and own: "lastpid (m_tlb s) = pid \<or> tlb_map (m_tlb s) = Map.empty"
  shows "\<exists>s'. vm_tlb_entry s pid v (frame_paddr f) w = Inr s' \<and> cm_inv ops s' \<and> m_pt s' = m_pt s \<and>
     page_contents ops s' = page_contents ops s \<and> exclusive ops KS s' = exclusive ops KS s \<and>
     tlb_map (m_tlb s') v = Some (tlb_lo (frame_paddr f) w) \<and> lastpid (m_tlb s') = pid \<and>
     m_stats s' = vmstatincr (m_stats s) (tlb_fill_stat (m_tlb s))"
proof -
  note I = cm_invD [OF inv]
  have uv: "v < MIPS_KSEG0" "v AND TLBHI_VPAGE = v" using user_page_bounds [of v] I(7) [OF r] by simp_all
  obtain t where t: "vmtlb_write (m_tlb s) (m_stats s) pid v (frame_paddr f) w =
      Inr (t, vmstatincr (m_stats s) (tlb_fill_stat (m_tlb s)))" "tlb_wf t"
    "tlb_map t = (tlb_map (m_tlb s))(fst (tlb (m_tlb s) ! tlb_slot (m_tlb s)) := None, v \<mapsto> tlb_lo (frame_paddr f) w)"
    "lastpid t = pid"
    using vmtlb_write_ok [OF I(5) uv(1), of "m_stats s" pid "frame_paddr f" w] miss uv(2) by auto
  let ?s' = "s\<lparr>m_tlb := t, m_stats := vmstatincr (m_stats s) (tlb_fill_stat (m_tlb s))\<rparr>"
  have lo: "tlb_lo (frame_paddr f) w AND TLBLO_PPAGE = frame_paddr f"
    using tlb_lo_bits(2) frame_paddr_aligned [OF resident_frame_less(1) [OF I(3) r]]
    by (simp add: TLBLO_PPAGE_def PAGE_FRAME_def)
  have "tlb_coherent ?s'"
    unfolding tlb_coherent_def
  proof (intro allI impI)
    fix v' lo'
    assume a: "tlb_map (m_tlb ?s') v' = Some lo'"
    show "\<exists>g. resident (m_pt ?s') (lastpid (m_tlb ?s'), v') = Some g \<and> lo' AND TLBLO_PPAGE = frame_paddr g"
    proof (cases "v' = v")
      case True
      then show ?thesis using a t(3,4) r lo by auto
    next
      case False
      then have "tlb_map (m_tlb s) v' = Some lo'" using a t(3) by (auto split: if_splits)
      moreover from this have "lastpid (m_tlb s) = pid" using own by auto
      ultimately show ?thesis using I(6) t(4) unfolding tlb_coherent_def by auto
    qed
  qed
  moreover have sw: "swap_inv ops ?s' = swap_inv ops s" "swap_contents ops ?s' = swap_contents ops s"
    by (rule swap_cong; simp)+
  ultimately have "cm_inv ops ?s'" unfolding cm_inv_def sw using I t(2) by auto
  moreover have "page_contents ops ?s' = page_contents ops s"
    by (rule ext, rule page_contents_upd) (simp_all add: sw)
  moreover have "exclusive ops KS ?s' = exclusive ops KS s" by (simp add: exclusive_def sw)
  moreover have "vm_tlb_entry s pid v (frame_paddr f) w = Inr ?s'" using t(1) by (simp add: vm_tlb_entry_def)
  ultimately show ?thesis using t(3,4) by (intro exI [of _ ?s']) simp
qed

text \<open>
  What a served fault on page \<open>v\<close> of region \<open>sg\<close> guarantees: the invariant holds again, the
  page is in memory and in the TLB with the region's permission, its content is the content
  it had or its first content, and no other page has changed.
\<close>

definition fault_served :: "'f vnode_ops \<Rightarrow> pid_t \<Rightarrow> addrspace \<Rightarrow> segment \<Rightarrow> vaddr_t \<Rightarrow> 'f machine
    \<Rightarrow> addrspace \<Rightarrow> 'f machine \<Rightarrow> bool" where
  "fault_served ops pid as sg v s as' s' \<longleftrightarrow> vm_inv ops pid as' s' \<and>
     (\<exists>f. resident (m_pt s') (pid, v) = Some f \<and>
        tlb_map (m_tlb s') v = Some (tlb_lo (frame_paddr f) (seg_writable sg))) \<and>
     (\<forall>k. k \<noteq> (pid, v) \<longrightarrow> page_contents ops s' k = page_contents ops s k) \<and>
     (\<exists>old. length old = PAGE_SIZE \<and> page_contents ops s' (pid, v) =
        Some (case page_contents ops s (pid, v) of Some c \<Rightarrow> c | None \<Rightarrow> first_page ops as sg v s old)) \<and>
     (stats_balanced (m_stats s) \<longrightarrow> stats_balanced (m_stats s'))"

lemma fault_servedD:
  assumes "fault_served ops pid as sg v s as' s'"
  shows "vm_inv ops pid as' s'"
    "\<exists>f. resident (m_pt s') (pid, v) = Some f \<and> tlb_map (m_tlb s') v = Some (tlb_lo (frame_paddr f) (seg_writable sg))"
    "stats_balanced (m_stats s) \<Longrightarrow> stats_balanced (m_stats s')"
    "k \<noteq> (pid, v) \<Longrightarrow> page_contents ops s' k = page_contents ops s k"
    "\<exists>old. length old = PAGE_SIZE \<and> page_contents ops s' (pid, v) =
       Some (case page_contents ops s (pid, v) of Some c \<Rightarrow> c | None \<Rightarrow> first_page ops as sg v s old)"
  using assms unfolding fault_served_def by blast+

lemma vm_incr [simp]:
  "vm_inv ops pid as (incr t s) = vm_inv ops pid as s" "elf_ok ops as sg v (incr t s) = elf_ok ops as sg v s"
  "first_page ops as sg v (incr t s) old = first_page ops as sg v s old"
proof -
  have b: "seg_bytes ops sg v (incr t s) = seg_bytes ops sg v s" for sg
    by (simp add: seg_bytes_def split: option.split)
  show "vm_inv ops pid as (incr t s) = vm_inv ops pid as s" by (simp add: vm_inv_def loaded_ok_def)
  show "elf_ok ops as sg v (incr t s) = elf_ok ops as sg v s" by (simp add: elf_ok_def b split: option.split)
  show "first_page ops as sg v (incr t s) old = first_page ops as sg v s old" by (simp add: first_page_def b)
qed

text \<open>A page that is not in memory gets a frame and its content.\<close>

lemma vm_pagein:
  assumes ops: "vnode_ops_ok ops" "disk_ok ops" and vi: "vm_inv ops pid as s"
    and sg: "getseg as nm = Some sg" "i < unat (numpages sg)" "page_of sg i = v"
    and new: "resident (m_pt s) (pid, v) = None" and av: "frame_available s" and elf: "elf_ok ops as sg v s"
  obtains f s2 as' s3 old where "allocuserpage ops s pid v = Inr (frame_paddr f, s2)"
    "vm_fill ops as pid nm sg i v (frame_paddr f) s2 = Inr (as', s3)"
    "cm_inv ops s3" "exclusive ops {} s3" "as_wf as'" "loaded_ok ops pid as' s3"
    "resident (m_pt s3) (pid, v) = Some f" "\<forall>k. k \<noteq> (pid, v) \<longrightarrow> page_contents ops s3 k = page_contents ops s k"
    "length old = PAGE_SIZE" "page_contents ops s3 (pid, v) =
        Some (case page_contents ops s (pid, v) of Some c \<Rightarrow> c | None \<Rightarrow> first_page ops as sg v s old)"
    "lastpid (m_tlb s3) = lastpid (m_tlb s)" "tlb_map (m_tlb s3) \<subseteq>\<^sub>m tlb_map (m_tlb s)"
    "\<exists>inswap c. m_stats s3 = fill_stats inswap (stackseg sg) c \<and>
       (c = m_stats s \<or> c = vmstatincr (m_stats s) SWAPWRITE)"
proof -
  note V = vm_invD [OF vi]
  have w: "seg_wf sg" using as_wf_seg [OF V(3), of nm] sg(1) by auto
  have uv: "user_page v" using unat_page_of(4) [OF w sg(2)] sg(3) by simp
  obtain s2 f where al: "allocuserpage ops s pid v = Inr (frame_paddr f, s2)" "alloc_post ops (pid, v) f s s2"
    using allocuserpage_ok [OF ops V(1,2,5) uv new av] by blast
  note P = al(2) [unfolded alloc_post_def]
  have pc: "page_contents ops s (pid, v) = swap_contents ops s2 (pid, v)"
    using P new by (simp add: page_contents_def)
  have others: "page_contents ops s2 k = page_contents ops s k" if "k \<noteq> (pid, v)" for k
    using P that by blast
  have flag: "the (loadedelf sg) ! i = 1 \<longleftrightarrow> swap_contents ops s2 (pid, v) \<noteq> None"
    using V(4) sg pc unfolding loaded_ok_def by auto
  note fl = seg_flagD [OF w sg(2)]
  show thesis
  proof (cases "swap_contents ops s2 (pid, v)")
    case (Some c)
    obtain s3 where s3: "vm_fill ops as pid nm sg i v (frame_paddr f) s2 = Inr (as, s3)" "cm_inv ops s3"
      "exclusive ops {} s3" "m_pt s3 = m_pt s2" "m_tlb s3 = m_tlb s2"
      "page_contents ops s3 = (page_contents ops s2)((pid, v) \<mapsto> c)"
      "m_stats s3 = fill_stats True (stackseg sg) (m_stats s2)"
      using vm_fill_swapped [of ops s2 pid v f c sg i as nm] P V(5) Some fl(1) flag by auto
    have same: "page_contents ops s3 k = page_contents ops s k" for k
      using s3(6) others [of k] pc Some by (cases "k = (pid, v)") simp_all
    have lo: "loaded_ok ops pid as s3" using V(4) same by (simp add: loaded_ok_def)
    have st: "\<exists>inswap c. m_stats s3 = fill_stats inswap (stackseg sg) c \<and>
       (c = m_stats s \<or> c = vmstatincr (m_stats s) SWAPWRITE)" using s3(7) P by blast
    show thesis
      by (rule that [OF al(1) s3(1-3) V(3) lo _ _ _ _ _ _ st, of "replicate PAGE_SIZE 0"])
        (use s3(4,5) P same pc [unfolded Some] in simp_all)
  next
    case None
    then have f0: "seg_flag sg i = Inr 0" using fl(1,2) flag by auto
    have e2: "elf_ok ops as sg v s2" "first_page ops as sg v s2 old = first_page ops as sg v s old" for old
      using elf_kept [OF _ _ elf, of s2] P by auto
    let ?as = "putseg as nm (seg_loaded sg i)"
    obtain s3 where s3: "vm_fill ops as pid nm sg i v (frame_paddr f) s2 = Inr (?as, s3)" "cm_inv ops s3"
      "exclusive ops {} s3" "m_pt s3 = m_pt s2" "m_tlb s3 = m_tlb s2"
      "page_contents ops s3 = (page_contents ops s2)((pid, v) \<mapsto> first_page ops as sg v s (frame (ram s2) f))"
      "m_stats s3 = fill_stats False (stackseg sg) (m_stats s2)"
      using vm_fill_new [of ops s2 pid v f sg i as nm] ops(1) P None f0 V(3) e2 by auto
    have same: "\<forall>k. k \<noteq> (pid, v) \<longrightarrow> page_contents ops s3 k = page_contents ops s k"
      using s3(6) others by (metis fun_upd_other)
    have lo: "loaded_ok ops pid ?as s3"
      by (rule loaded_ok_set [OF V(3) sg(1,2) V(4)]) (use s3(6) same sg(3) in auto)
    have st: "\<exists>inswap c. m_stats s3 = fill_stats inswap (stackseg sg) c \<and>
       (c = m_stats s \<or> c = vmstatincr (m_stats s) SWAPWRITE)" using s3(7) P by blast
    show thesis
      by (rule that [OF al(1) s3(1-3) as_wf_loaded [OF V(3) sg(1,2)] lo _ same _ _ _ _ st, of "frame (ram s2) f"])
        (use s3(4-6) P pc [unfolded None] in simp_all)
  qed
qed

text \<open>The handler, once the region is found, is page lookup, page-in or reload, TLB entry.\<close>

lemma vm_fault_unfold:
  assumes wf: "as_wf as" and ft: "ft = VM_FAULT_READ \<or> ft = VM_FAULT_WRITE"
    and seg: "vm_seg_of (the (seg1 as)) (the (seg2 as)) (fa AND PAGE_FRAME) = Some (nm, i)"
    and sg: "getseg as nm = Some sg"
  shows "vm_fault ops ft fa (Some pid) (Some as) s =
    bindR (pageaddr (incr TLBFAULT s) pid (fa AND PAGE_FRAME)) (\<lambda>(paddr, s1).
    bindR (if paddr = 0 then
             bindR (allocuserpage ops s1 pid (fa AND PAGE_FRAME)) (\<lambda>(respaddr, s2).
             bindR (vm_fill ops as pid nm sg i (fa AND PAGE_FRAME) respaddr s2) (\<lambda>(as', s3).
             Inr (respaddr, as', s3)))
           else Inr (paddr, as, incr TLBRELOAD s1)) (\<lambda>(paddr, as', s4).
    bindR (vm_tlb_entry s4 pid (fa AND PAGE_FRAME) paddr (seg_writable sg)) (\<lambda>s5.
    Inr (VmReturn 0, Some as', s5))))"
proof -
  obtain sg1 sg2 sg3 where s: "seg1 as = Some sg1" "seg2 as = Some sg2" "segstack as = Some sg3"
    using as_wf_segs [OF wf] by blast
  have "numpages sg1 \<noteq> 0" "numpages sg2 \<noteq> 0" "numpages sg3 \<noteq> 0"
    using as_wf_seg [OF wf, of Seg1] as_wf_seg [OF wf, of Seg2] as_wf_seg [OF wf, of Segstack] s
    by (auto simp: seg_wf_def)
  then show ?thesis using ft seg sg s
    by (auto simp: vm_fault_def Let_def VM_FAULT_READ_def VM_FAULT_WRITE_def VM_FAULT_READONLY_def cong: if_cong)
qed

lemma map_le_None: "f \<subseteq>\<^sub>m g \<Longrightarrow> g k = None \<Longrightarrow> f k = None"
  by (auto simp: map_le_def dom_def)

lemma vm_fault_ok:
  assumes ops: "vnode_ops_ok ops" "disk_ok ops" and vi: "vm_inv ops pid as s"
    and ft: "ft = VM_FAULT_READ \<or> ft = VM_FAULT_WRITE"
    and seg: "vm_seg_of (the (seg1 as)) (the (seg2 as)) (fa AND PAGE_FRAME) = Some (nm, i)"
    and miss: "tlb_map (m_tlb s) (fa AND PAGE_FRAME) = None"
    and av: "frame_available s" and elf: "elf_ok ops as (the (getseg as nm)) (fa AND PAGE_FRAME) s"
  shows "\<exists>as' s'. vm_fault ops ft fa (Some pid) (Some as) s = Inr (VmReturn 0, Some as', s') \<and>
     fault_served ops pid as (the (getseg as nm)) (fa AND PAGE_FRAME) s as' s'"
proof -
  note V = vm_invD [OF vi]
  let ?v = "fa AND PAGE_FRAME" and ?s1 = "incr TLBFAULT s"
  obtain sg where sg: "getseg as nm = Some sg" "i < unat (numpages sg)" "page_of sg i = ?v"
    using vm_seg_of_Some [OF V(3) _ _ page_aligned_mask seg] as_wf_segs [OF V(3)] by auto
  note run = vm_fault_unfold [OF V(3) ft seg sg(1), of ops pid s]
  have pa: "pageaddr ?s1 pid ?v = Inr (case resident (m_pt s) (pid, ?v) of None \<Rightarrow> 0 | Some f \<Rightarrow> frame_paddr f, ?s1)"
    using pageaddr_ok [of ops ?s1 pid ?v] V(1) by simp
  show ?thesis
  proof (cases "resident (m_pt s) (pid, ?v)")
    case (Some f)
    have f0: "frame_paddr f \<noteq> 0"
      using resident_frame_less [OF cm_invD(3) [OF V(1)] Some] frame_paddr_0 by simp
    let ?s4 = "incr TLBRELOAD ?s1"
    obtain s' where s': "vm_tlb_entry ?s4 pid ?v (frame_paddr f) (seg_writable sg) = Inr s'" "cm_inv ops s'"
      "m_pt s' = m_pt s" "page_contents ops s' = page_contents ops s" "exclusive ops {} s' = exclusive ops {} s"
      "tlb_map (m_tlb s') ?v = Some (tlb_lo (frame_paddr f) (seg_writable sg))" "lastpid (m_tlb s') = pid"
      "m_stats s' = vmstatincr (m_stats ?s4) (tlb_fill_stat (m_tlb s))"
      using vm_tlb_entry_ok [of ops ?s4 pid ?v f "seg_writable sg" "{}"] V(1,6) Some miss by auto
    have "vm_inv ops pid as s'" using V s' by (simp add: vm_inv_def loaded_ok_def)
    moreover have "page_contents ops s (pid, ?v) = Some (frame (ram s) f)" using Some by (simp add: page_contents_def)
    moreover have "stats_balanced (m_stats s) \<longrightarrow> stats_balanced (m_stats s')"
      using stats_balanced_fault(1) [OF _ tlb_fill_stat_cases] s'(8) by simp
    ultimately have "fault_served ops pid as sg ?v s as s'"
      using s' Some by (auto simp: fault_served_def intro!: exI [of _ "replicate PAGE_SIZE 0"])
    then show ?thesis using run pa Some f0 s'(1) sg(1) by simp
  next
    case None
    have h: "vm_inv ops pid as ?s1" "resident (m_pt ?s1) (pid, ?v) = None" "frame_available ?s1"
      "elf_ok ops as sg ?v ?s1" using vi None av elf sg(1) by simp_all
    obtain f s2 as' s3 old where p: "allocuserpage ops ?s1 pid ?v = Inr (frame_paddr f, s2)"
      "vm_fill ops as pid nm sg i ?v (frame_paddr f) s2 = Inr (as', s3)"
      "cm_inv ops s3" "exclusive ops {} s3" "as_wf as'" "loaded_ok ops pid as' s3"
      "resident (m_pt s3) (pid, ?v) = Some f" "\<forall>k. k \<noteq> (pid, ?v) \<longrightarrow> page_contents ops s3 k = page_contents ops ?s1 k"
      "length old = PAGE_SIZE" "page_contents ops s3 (pid, ?v) =
        Some (case page_contents ops ?s1 (pid, ?v) of Some c \<Rightarrow> c | None \<Rightarrow> first_page ops as sg ?v ?s1 old)"
      "lastpid (m_tlb s3) = lastpid (m_tlb ?s1)" "tlb_map (m_tlb s3) \<subseteq>\<^sub>m tlb_map (m_tlb ?s1)"
      and st: "\<exists>inswap c. m_stats s3 = fill_stats inswap (stackseg sg) c \<and>
       (c = m_stats ?s1 \<or> c = vmstatincr (m_stats ?s1) SWAPWRITE)"
      by (rule vm_pagein [OF ops h(1) sg h(2-4)]) (rule that; assumption)
    have "tlb_map (m_tlb s3) ?v = None" "lastpid (m_tlb s3) = pid \<or> tlb_map (m_tlb s3) = Map.empty"
      using map_le_None [OF p(12)] miss p(11) V(6) by auto
    then obtain s' where s': "vm_tlb_entry s3 pid ?v (frame_paddr f) (seg_writable sg) = Inr s'" "cm_inv ops s'"
      "m_pt s' = m_pt s3" "page_contents ops s' = page_contents ops s3" "exclusive ops {} s' = exclusive ops {} s3"
      "tlb_map (m_tlb s') ?v = Some (tlb_lo (frame_paddr f) (seg_writable sg))" "lastpid (m_tlb s') = pid"
      "m_stats s' = vmstatincr (m_stats s3) (tlb_fill_stat (m_tlb s3))"
      using vm_tlb_entry_ok [OF p(3,7), of "seg_writable sg" "{}"] by blast
    have "vm_inv ops pid as' s'" using V(5) p(4-6) s' by (simp add: vm_inv_def loaded_ok_def)
    moreover have "stats_balanced (m_stats s) \<longrightarrow> stats_balanced (m_stats s')"
      using stats_balanced_fault(2,3) [OF _ tlb_fill_stat_cases] s'(8) st by auto
    ultimately have "fault_served ops pid as sg ?v s as' s'"
      unfolding fault_served_def using s' p(7-10) [unfolded cm_incr vm_incr] by metis
    then show ?thesis using run pa None p(1,2) s'(1) sg(1) by simp
  qed
qed

text \<open>
  \<^verbatim>\<open>readfromelfto\<close> finds the region the handler found, unless another region ends exactly at
  the page.
\<close>

lemma elf_source_exact:
  assumes wf: "as_wf as" and sg: "getseg as nm = Some sg"
    and seg: "vm_seg_of (the (seg1 as)) (the (seg2 as)) (fa AND PAGE_FRAME) = Some (nm, i)"
    and alone: "\<forall>nm' sg'. nm' \<noteq> nm \<longrightarrow> getseg as nm' = Some sg' \<longrightarrow>
      unat (fa AND PAGE_FRAME) \<noteq> unat (startaddr sg') + unat (numpages sg') * PAGE_SIZE"
  shows "elf_source as (fa AND PAGE_FRAME) = Some sg"
proof -
  let ?v = "fa AND PAGE_FRAME"
  have segs: "seg1 as = Some (the (seg1 as))" "seg2 as = Some (the (seg2 as))" "segstack as = Some (the (segstack as))"
    using as_wf_segs [OF wf] by auto
  obtain a where a: "getseg as nm = Some a" "seg_wf a" "i < unat (numpages a)" "page_of a i = ?v"
    using vm_seg_of_Some [OF wf segs(1,2) page_aligned_mask seg] by metis
  have r: "unat ?v \<in> seg_range sg" using unat_page_of(5) [OF a(2,3)] a sg by simp
  have reach: "seg_reaches sg' ?v \<longleftrightarrow> nm' = nm" if s': "getseg as nm' = Some sg'" for nm' sg'
  proof -
    have w: "seg_wf sg'" using as_wf_seg [OF wf, of nm'] s' by auto
    show ?thesis
    proof (cases "nm' = nm")
      case True
      then show ?thesis using r s' sg by (auto simp: seg_reaches_iff [OF w] seg_range_def)
    next
      case False
      then have "unat ?v \<notin> seg_range sg'" using as_wf_disjoint [OF wf sg s'] r by auto
      moreover have "unat ?v \<noteq> unat (startaddr sg') + unat (numpages sg') * PAGE_SIZE" using alone False s' by blast
      ultimately show ?thesis using False by (auto simp: seg_reaches_iff [OF w] seg_range_def)
    qed
  qed
  have "seg_reaches (the (seg1 as)) ?v \<longleftrightarrow> nm = Seg1" "seg_reaches (the (seg2 as)) ?v \<longleftrightarrow> nm = Seg2"
    "seg_reaches (the (segstack as)) ?v \<longleftrightarrow> nm = Segstack"
    using reach [of Seg1] reach [of Seg2] reach [of Segstack] segs by auto
  then show ?thesis using sg by (cases nm) (auto simp: elf_source_def)
qed

lemma vm_fault_outside:
  assumes ft: "ft \<in> {VM_FAULT_READ, VM_FAULT_WRITE}" and wf: "as_wf as"
    and out: "\<forall>nm sg. getseg as nm = Some sg \<longrightarrow> unat (fa AND PAGE_FRAME) \<notin> seg_range sg"
  shows "vm_fault ops ft fa (Some pid) (Some as) s = Inr (VmReturn EFAULT, Some as, s)"
proof -
  have segs: "seg1 as = Some (the (seg1 as))" "seg2 as = Some (the (seg2 as))" "segstack as = Some (the (segstack as))"
    using as_wf_segs [OF wf] by auto
  have "getseg as nm = Some sg \<Longrightarrow> seg_wf sg" for nm sg using as_wf_seg [OF wf, of nm] by auto
  from this [of Seg1] this [of Seg2] this [of Segstack]
  have np: "numpages (the (seg1 as)) \<noteq> 0" "numpages (the (seg2 as)) \<noteq> 0" "numpages (the (segstack as)) \<noteq> 0"
    using segs by (simp_all add: seg_wf_def)
  have "vm_seg_of (the (seg1 as)) (the (seg2 as)) (fa AND PAGE_FRAME) = None"
  proof (rule ccontr)
    assume "vm_seg_of (the (seg1 as)) (the (seg2 as)) (fa AND PAGE_FRAME) \<noteq> None"
    then obtain nm i where "vm_seg_of (the (seg1 as)) (the (seg2 as)) (fa AND PAGE_FRAME) = Some (nm, i)" by auto
    then obtain sg where "getseg as nm = Some sg" "seg_wf sg" "i < unat (numpages sg)" "page_of sg i = fa AND PAGE_FRAME"
      using vm_seg_of_Some [OF wf segs(1,2) page_aligned_mask] by metis
    then show False using out unat_page_of(5) [of sg i] by auto
  qed
  then show ?thesis using ft segs np
    by (auto simp: vm_fault_def Let_def VM_FAULT_READ_def VM_FAULT_WRITE_def VM_FAULT_READONLY_def split: option.split)
qed

end
