(* ===== verification/User_Memory.thy ===== *)
theory User_Memory
  imports Vm
begin

text \<open>
  What user programs see. The hardware translates an access through the TLB and traps into
  \<^verbatim>\<open>vm_fault\<close> on a miss, after which the instruction is repeated. Runs interleave the loads and
  stores of several processes with context switches (\<^verbatim>\<open>as_activate\<close>). They refine a memory
  in which every process has its own pages and a load returns what was last stored.
\<close>

section \<open>Accesses through the TLB\<close>

definition offset_of :: "vaddr_t \<Rightarrow> nat" where
  "offset_of v = unat v mod PAGE_SIZE"

text \<open>The low word of the translation, after at most one fault.\<close>

definition touch :: "'f vnode_ops \<Rightarrow> pid_t \<Rightarrow> int \<Rightarrow> vaddr_t \<Rightarrow> addrspace \<Rightarrow> 'f machine
    \<Rightarrow> (u32 \<times> addrspace \<times> 'f machine) option" where
  "touch ops pid ft v as s =
     (case tlb_map (m_tlb s) (v AND PAGE_FRAME) of
        Some lo \<Rightarrow> Some (lo, as, s)
      | None \<Rightarrow>
          (case vm_fault ops ft v (Some pid) (Some as) s of
             Inr (VmReturn e, Some as', s') \<Rightarrow>
               if e = 0
               then map_option (\<lambda>lo. (lo, as', s')) (tlb_map (m_tlb s') (v AND PAGE_FRAME))
               else None
           | _ \<Rightarrow> None))"

definition user_load :: "'f vnode_ops \<Rightarrow> pid_t \<Rightarrow> vaddr_t \<Rightarrow> addrspace \<Rightarrow> 'f machine
    \<Rightarrow> (byte \<times> addrspace \<times> 'f machine) option" where
  "user_load ops pid v as s =
     map_option (\<lambda>(lo, as', s'). (ram s' (unat (lo AND TLBLO_PPAGE) + offset_of v), as', s'))
       (touch ops pid VM_FAULT_READ v as s)"

text \<open>A store through an entry without the dirty bit traps again and does not happen.\<close>

definition user_store :: "'f vnode_ops \<Rightarrow> pid_t \<Rightarrow> vaddr_t \<Rightarrow> byte \<Rightarrow> addrspace \<Rightarrow> 'f machine
    \<Rightarrow> (addrspace \<times> 'f machine) option" where
  "user_store ops pid v b as s =
     (case touch ops pid VM_FAULT_WRITE v as s of
        None \<Rightarrow> None
      | Some (lo, as', s') \<Rightarrow>
          if lo AND TLBLO_DIRTY = 0 then None
          else Some (as', s'\<lparr>ram := write_ram (ram s') (unat (lo AND TLBLO_PPAGE) + offset_of v) [b]\<rparr>))"

section \<open>Systems of processes\<close>

record 'f system =
  spaces :: "pid_t \<Rightarrow> addrspace option"
  running :: pid_t
  mach :: "'f machine"

definition sys_inv :: "'f vnode_ops \<Rightarrow> 'f system \<Rightarrow> bool" where
  "sys_inv ops S \<longleftrightarrow> cm_inv ops (mach S) \<and> exclusive ops {} (mach S) \<and>
     (\<forall>pid as. spaces S pid = Some as \<longrightarrow> 0 < pid \<and> as_wf as \<and> loaded_ok ops pid as (mach S)) \<and>
     spaces S (running S) \<noteq> None \<and>
     (lastpid (m_tlb (mach S)) = running S \<or> tlb_map (m_tlb (mach S)) = Map.empty)"

text \<open>
  The resources a fault needs, unless the TLB holds the page: the address lies in a region, the
  executable can be read, and a frame is free or can be freed.
\<close>

definition can_touch :: "'f vnode_ops \<Rightarrow> vaddr_t \<Rightarrow> addrspace \<Rightarrow> 'f machine \<Rightarrow> bool" where
  "can_touch ops v as s \<longleftrightarrow> tlb_map (m_tlb s) (v AND PAGE_FRAME) \<noteq> None \<or> frame_available s \<and>
     (case vm_seg_of (the (seg1 as)) (the (seg2 as)) (v AND PAGE_FRAME) of
        None \<Rightarrow> False
      | Some (nm, i) \<Rightarrow> elf_ok ops as (the (getseg as nm)) (v AND PAGE_FRAME) s)"

datatype event = Load pid_t vaddr_t byte | Store pid_t vaddr_t byte | Switch pid_t

inductive user_step :: "'f vnode_ops \<Rightarrow> 'f system \<Rightarrow> event \<Rightarrow> 'f system \<Rightarrow> bool"
  for ops :: "'f vnode_ops" where
  load: "\<lbrakk>spaces S (running S) = Some as; can_touch ops v as (mach S);
      user_load ops (running S) v as (mach S) = Some (b, as', s')\<rbrakk> \<Longrightarrow>
    user_step ops S (Load (running S) v b)
      (S\<lparr>spaces := (spaces S)(running S \<mapsto> as'), mach := s'\<rparr>)"
| store: "\<lbrakk>spaces S (running S) = Some as; can_touch ops v as (mach S);
      user_store ops (running S) v b as (mach S) = Some (as', s')\<rbrakk> \<Longrightarrow>
    user_step ops S (Store (running S) v b)
      (S\<lparr>spaces := (spaces S)(running S \<mapsto> as'), mach := s'\<rparr>)"
| switch: "spaces S pid = Some as \<Longrightarrow>
    user_step ops S (Switch pid)
      (S\<lparr>running := pid, mach := as_activate (Some as) pid (mach S)\<rparr>)"

inductive user_run :: "'f vnode_ops \<Rightarrow> 'f system \<Rightarrow> event list \<Rightarrow> 'f system \<Rightarrow> bool"
  for ops :: "'f vnode_ops" where
  stop: "user_run ops S [] S"
| more: "user_step ops S e S' \<Longrightarrow> user_run ops S' es S'' \<Longrightarrow> user_run ops S (e # es) S''"

inductive_cases user_runE: "user_run ops S (e # es) S'"
inductive_simps user_run_Nil [simp]: "user_run ops S [] S'"

section \<open>The abstract memory\<close>

text \<open>
  The specification: pages by owner and address. A page without content gets some content at
  its first access; from then on loads and stores read and update it.
\<close>

fun mem_step :: "(pagekey \<Rightarrow> byte list option) \<Rightarrow> event \<Rightarrow> (pagekey \<Rightarrow> byte list option) \<Rightarrow> bool" where
  "mem_step M (Load pid v b) M' \<longleftrightarrow>
     (\<exists>c. length c = PAGE_SIZE \<and> (M (pid, v AND PAGE_FRAME) = None \<or> M (pid, v AND PAGE_FRAME) = Some c) \<and>
        b = c ! offset_of v \<and> M' = M((pid, v AND PAGE_FRAME) \<mapsto> c))"
| "mem_step M (Store pid v b) M' \<longleftrightarrow>
     (\<exists>c. length c = PAGE_SIZE \<and> (M (pid, v AND PAGE_FRAME) = None \<or> M (pid, v AND PAGE_FRAME) = Some c) \<and>
        M' = M((pid, v AND PAGE_FRAME) \<mapsto> c[offset_of v := b]))"
| "mem_step M (Switch pid) M' \<longleftrightarrow> M' = M"

fun mem_run :: "(pagekey \<Rightarrow> byte list option) \<Rightarrow> event list \<Rightarrow> (pagekey \<Rightarrow> byte list option) \<Rightarrow> bool" where
  "mem_run M [] M' \<longleftrightarrow> M' = M"
| "mem_run M (e # es) M' \<longleftrightarrow> (\<exists>M1. mem_step M e M1 \<and> mem_run M1 es M')"

section \<open>One access\<close>

lemma offset_less [simp]: "offset_of v < PAGE_SIZE"
  by (simp add: offset_of_def PAGE_SIZE_def)

lemma frame_write_byte:
  assumes "off < PAGE_SIZE"
  shows "frame (write_ram m (f * PAGE_SIZE + off) [b]) g = (if g = f then (frame m f)[off := b] else frame m g)"
proof (cases "g = f")
  case True
  then show ?thesis using assms
    by (auto simp: frame_def write_ram_def nth_list_update intro!: nth_equalityI)
next
  case False
  then have "g * PAGE_SIZE + PAGE_SIZE \<le> f * PAGE_SIZE \<or> f * PAGE_SIZE + PAGE_SIZE \<le> g * PAGE_SIZE"
    by (metis Suc_leI add.commute mult_Suc mult_le_mono1 nat_neq_iff)
  then have "g * PAGE_SIZE + PAGE_SIZE \<le> f * PAGE_SIZE + off \<or> f * PAGE_SIZE + off + length [b] \<le> g * PAGE_SIZE"
    using assms by auto
  then show ?thesis using False unfolding frame_def by (simp only: read_write_ram_other if_False)
qed

lemma page_contents_length:
  assumes "cm_inv ops s" "page_contents ops s k = Some c"
  shows "length c = PAGE_SIZE"
proof (cases "resident (m_pt s) k")
  case None
  then have "swap_contents ops s k = Some c" using assms(2) by (simp add: page_contents_def)
  then obtain i where "i \<in> slots_used s" "snd (slot_data ops s i) = c"
    using swap_contents_iff [OF cm_invD(4) [OF assms(1)]] by blast
  then show ?thesis using swap_invD(7) [OF cm_invD(4) [OF assms(1)], of i] by simp
next
  case (Some f)
  then show ?thesis using assms(2) by (auto simp: page_contents_def)
qed

text \<open>After the translation is there, the page is in the frame it names; contents are kept.\<close>

lemma touch_ok:
  assumes ops: "vnode_ops_ok ops" "disk_ok ops" and vi: "vm_inv ops pid as s" and ct: "can_touch ops v as s"
    and ft: "ft = VM_FAULT_READ \<or> ft = VM_FAULT_WRITE"
  obtains lo as' s' f where "touch ops pid ft v as s = Some (lo, as', s')" "vm_inv ops pid as' s'"
    "resident (m_pt s') (pid, v AND PAGE_FRAME) = Some f" "lo AND TLBLO_PPAGE = frame_paddr f"
    "\<forall>k. k \<noteq> (pid, v AND PAGE_FRAME) \<longrightarrow> page_contents ops s' k = page_contents ops s k"
    "page_contents ops s (pid, v AND PAGE_FRAME) = None \<or>
       page_contents ops s' (pid, v AND PAGE_FRAME) = page_contents ops s (pid, v AND PAGE_FRAME)"
proof (cases "tlb_map (m_tlb s) (v AND PAGE_FRAME)")
  case (Some lo)
  note V = vm_invD [OF vi]
  have "lastpid (m_tlb s) = pid" using V(6) Some by auto
  then obtain f where "resident (m_pt s) (pid, v AND PAGE_FRAME) = Some f" "lo AND TLBLO_PPAGE = frame_paddr f"
    using cm_invD(6) [OF V(1)] Some unfolding tlb_coherent_def by blast
  then show thesis using that [of lo as s f] Some vi by (simp add: touch_def)
next
  case None
  let ?v = "v AND PAGE_FRAME"
  obtain nm i where seg: "vm_seg_of (the (seg1 as)) (the (seg2 as)) ?v = Some (nm, i)"
    "elf_ok ops as (the (getseg as nm)) ?v s" "frame_available s"
    using ct None by (auto simp: can_touch_def split: option.splits prod.splits)
  obtain as' s' where r: "vm_fault ops ft v (Some pid) (Some as) s = Inr (VmReturn 0, Some as', s')"
    "fault_served ops pid as (the (getseg as nm)) ?v s as' s'"
    using vm_fault_ok [OF ops vi ft seg(1) None seg(3,2)] by blast
  note fs = fault_servedD [OF r(2)]
  obtain f where f: "resident (m_pt s') (pid, ?v) = Some f"
    "tlb_map (m_tlb s') ?v = Some (tlb_lo (frame_paddr f) (seg_writable (the (getseg as nm))))"
    using fs(2) by blast
  have "f < 2 ^ 20" using resident_frame_less(1) [OF cm_invD(3) f(1)] vm_invD(1) [OF fs(1)] by blast
  then have "tlb_lo (frame_paddr f) w AND TLBLO_PPAGE = frame_paddr f" for w
    using tlb_lo_bits(2) frame_paddr_aligned by (simp add: TLBLO_PPAGE_def PAGE_FRAME_def)
  moreover have "page_contents ops s (pid, ?v) = None \<or> page_contents ops s' (pid, ?v) = page_contents ops s (pid, ?v)"
    using fs(5) by (cases "page_contents ops s (pid, ?v)") auto
  ultimately show thesis using that [OF _ fs(1) f(1)] fs(4) r(1) f(2) None by (simp add: touch_def)
qed

lemma user_load_ok:
  assumes ops: "vnode_ops_ok ops" "disk_ok ops" and vi: "vm_inv ops pid as s" and ct: "can_touch ops v as s"
    and r: "user_load ops pid v as s = Some (b, as', s')"
  shows "vm_inv ops pid as' s' \<and> mem_step (page_contents ops s) (Load pid v b) (page_contents ops s')"
proof -
  let ?K = "(pid, v AND PAGE_FRAME)"
  obtain lo as1 s1 f where t: "touch ops pid VM_FAULT_READ v as s = Some (lo, as1, s1)" "vm_inv ops pid as1 s1"
    "resident (m_pt s1) ?K = Some f" "lo AND TLBLO_PPAGE = frame_paddr f"
    "\<forall>k. k \<noteq> ?K \<longrightarrow> page_contents ops s1 k = page_contents ops s k"
    "page_contents ops s ?K = None \<or> page_contents ops s1 ?K = page_contents ops s ?K"
    by (rule touch_ok [OF ops vi ct disjI1 [OF refl]]) (rule that; assumption)
  have eq: "as1 = as'" "s1 = s'" "b = ram s' (unat (frame_paddr f) + offset_of v)"
    using r t(1,4) by (auto simp: user_load_def)
  note I = cm_invD(3) [OF vm_invD(1) [OF t(2)]]
  let ?c = "frame (ram s') f"
  have "b = ?c ! offset_of v"
    using eq resident_frame_less(1) [OF I t(3)] by (simp add: frame_def unat_frame_paddr)
  moreover have pc: "page_contents ops s' ?K = Some ?c" using t(3) eq by (simp add: page_contents_def)
  moreover have "page_contents ops s' = (page_contents ops s)(?K \<mapsto> ?c)"
    using t(5) [rule_format] eq pc by (intro ext) (metis fun_upd_apply)
  ultimately have "mem_step (page_contents ops s) (Load pid v b) (page_contents ops s')"
    using t(6) eq by (auto intro!: exI [of _ ?c])
  then show ?thesis using t(2) eq by simp
qed

lemma user_store_ok:
  assumes ops: "vnode_ops_ok ops" "disk_ok ops" and vi: "vm_inv ops pid as s" and ct: "can_touch ops v as s"
    and r: "user_store ops pid v b as s = Some (as', s')"
  shows "vm_inv ops pid as' s' \<and> mem_step (page_contents ops s) (Store pid v b) (page_contents ops s')"
proof -
  let ?K = "(pid, v AND PAGE_FRAME)"
  obtain lo as1 s1 f where t: "touch ops pid VM_FAULT_WRITE v as s = Some (lo, as1, s1)" "vm_inv ops pid as1 s1"
    "resident (m_pt s1) ?K = Some f" "lo AND TLBLO_PPAGE = frame_paddr f"
    "\<forall>k. k \<noteq> ?K \<longrightarrow> page_contents ops s1 k = page_contents ops s k"
    "page_contents ops s ?K = None \<or> page_contents ops s1 ?K = page_contents ops s ?K"
    by (rule touch_ok [OF ops vi ct disjI2 [OF refl]]) (rule that; assumption)
  note V = vm_invD [OF t(2)]
  note I = cm_invD(3) [OF V(1)]
  have s': "as' = as1" "s' = s1\<lparr>ram := write_ram (ram s1) (f * PAGE_SIZE + offset_of v) [b]\<rparr>"
    using r t(1,4) resident_frame_less(1) [OF I t(3)] by (auto simp: user_store_def unat_frame_paddr split: if_splits)
  have c: "cm_inv ops s' = cm_inv ops s1" "exclusive ops {} s' = exclusive ops {} s1"
    "swap_contents ops s' = swap_contents ops s1"
    unfolding s'(2) by (rule cm_cong; simp)+
  let ?c = "frame (ram s1) f"
  have pt: "m_pt s' = m_pt s1" "m_tlb s' = m_tlb s1" using s'(2) by simp_all
  have fr: "frame (ram s') g = (if g = f then ?c[offset_of v := b] else frame (ram s1) g)" for g
    unfolding s'(2) by (simp add: frame_write_byte)
  have k: "page_contents ops s' ?K = Some (?c[offset_of v := b])" "page_contents ops s1 ?K = Some ?c"
    using t(3) fr pt by (simp_all add: page_contents_def)
  have o: "page_contents ops s' k = page_contents ops s1 k" if "k \<noteq> ?K" for k
  proof -
    have "resident (m_pt s1) k \<noteq> Some f" using pt.mapping_inj [OF I t(3)] that by blast
    then show ?thesis using fr pt c(3) by (auto simp: page_contents_def split: option.split)
  qed
  have "page_contents ops s' = (page_contents ops s)(?K \<mapsto> ?c[offset_of v := b])"
  proof (rule ext)
    fix k show "page_contents ops s' k = ((page_contents ops s)(?K \<mapsto> ?c[offset_of v := b])) k"
      using k(1) o [of k] t(5) [rule_format, of k] by (cases "k = ?K") auto
  qed
  then have "mem_step (page_contents ops s) (Store pid v b) (page_contents ops s')"
    using t(6) k(2) by (auto intro!: exI [of _ ?c])
  moreover have "page_contents ops s' k \<noteq> None \<longleftrightarrow> page_contents ops s1 k \<noteq> None" for k
    using k o [of k] by (cases "k = ?K") auto
  then have "loaded_ok ops pid as' s'" using V(4) s'(1) unfolding loaded_ok_def by auto
  then have "vm_inv ops pid as' s'" using V c pt s'(1) by (simp add: vm_inv_def)
  ultimately show ?thesis by blast
qed

text \<open>Accesses that have their resources happen; the page is then in the TLB.\<close>

lemma touch_hit: "touch ops pid ft v as s = Some (lo, as', s') \<Longrightarrow> tlb_map (m_tlb s') (v AND PAGE_FRAME) = Some lo"
  by (auto simp: touch_def split: option.splits sum.splits vm_result.splits prod.splits if_splits)

lemma user_load_happens:
  assumes "vnode_ops_ok ops" "disk_ok ops" "vm_inv ops pid as s" "can_touch ops v as s"
  shows "\<exists>b as' s'. user_load ops pid v as s = Some (b, as', s')"
proof (rule touch_ok [OF assms disjI1 [OF refl]])
  fix lo as' s' assume "touch ops pid VM_FAULT_READ v as s = Some (lo, as', s')"
  then show ?thesis by (simp add: user_load_def)
qed

lemma user_store_happens:
  assumes ops: "vnode_ops_ok ops" "disk_ok ops" and vi: "vm_inv ops pid as s" and av: "frame_available s"
    and miss: "tlb_map (m_tlb s) (v AND PAGE_FRAME) = None"
    and seg: "vm_seg_of (the (seg1 as)) (the (seg2 as)) (v AND PAGE_FRAME) = Some (nm, i)"
      "elf_ok ops as (the (getseg as nm)) (v AND PAGE_FRAME) s" "seg_writable (the (getseg as nm))"
  shows "\<exists>as' s'. user_store ops pid v b as s = Some (as', s') \<and> tlb_map (m_tlb s') (v AND PAGE_FRAME) \<noteq> None"
proof -
  let ?v = "v AND PAGE_FRAME"
  obtain as' s' where r: "vm_fault ops VM_FAULT_WRITE v (Some pid) (Some as) s = Inr (VmReturn 0, Some as', s')"
    "fault_served ops pid as (the (getseg as nm)) ?v s as' s'"
    using vm_fault_ok [OF ops vi _ seg(1) miss av seg(2), of VM_FAULT_WRITE] by blast
  obtain lo where "tlb_map (m_tlb s') ?v = Some lo" "lo AND TLBLO_DIRTY \<noteq> 0"
    using fault_servedD(2) [OF r(2)] tlb_lo_bits(3) seg(3) by blast
  then show ?thesis using r(1) miss by (simp add: user_store_def touch_def)
qed

section \<open>Runs refine the abstract memory\<close>

text \<open>Activating an address space leaves memory alone and no foreign translation in the TLB.\<close>

lemma as_activate_ok:
  assumes inv: "cm_inv ops s"
  shows "cm_inv ops (as_activate (Some as) pid s)" "page_contents ops (as_activate (Some as) pid s) = page_contents ops s"
    "exclusive ops K (as_activate (Some as) pid s) = exclusive ops K s"
    "lastpid (m_tlb (as_activate (Some as) pid s)) = pid \<or> tlb_map (m_tlb (as_activate (Some as) pid s)) = Map.empty"
proof -
  note I = cm_invD [OF inv]
  have "cm_inv ops s' \<and> page_contents ops s' = page_contents ops s \<and> exclusive ops K s' = exclusive ops K s \<and>
      (lastpid (m_tlb s') = pid \<or> tlb_map (m_tlb s') = Map.empty)"
    if eq: "s' = as_activate (Some as) pid s" for s'
  proof (cases "pid = lastpid (m_tlb s)")
    case True
    then have "s' = s" using eq vmtlb_invalidate_same [of "m_tlb s" "m_stats s"] by (simp add: as_activate_def)
    then show ?thesis using inv True by simp
  next
    case False
    obtain t where t: "vmtlb_invalidate (m_tlb s) (m_stats s) pid = (t, vmstatincr (m_stats s) TLBINVALIDATION)"
      "tlb_wf t" "tlb_map t = Map.empty"
      using vmtlb_invalidate_ok [OF tlb_wfD(1) [OF I(5)] False] by blast
    then have e: "s' = s\<lparr>m_tlb := t, m_stats := vmstatincr (m_stats s) TLBINVALIDATION\<rparr>"
      using eq by (simp add: as_activate_def)
    have sw: "swap_inv ops s' = swap_inv ops s" "swap_contents ops s' = swap_contents ops s"
      unfolding e by (rule swap_cong; simp)+
    have "page_contents ops s' = page_contents ops s"
      by (rule ext, rule page_contents_upd) (simp_all add: sw, simp_all add: e)
    moreover have "cm_inv ops s'" unfolding cm_inv_def sw using I t(2,3) by (auto simp: e tlb_coherent_def)
    moreover have "exclusive ops K s' = exclusive ops K s" by (simp add: exclusive_def sw) (simp add: e)
    ultimately show ?thesis using t(3) by (simp add: e)
  qed
  then show "cm_inv ops (as_activate (Some as) pid s)" "page_contents ops (as_activate (Some as) pid s) = page_contents ops s"
    "exclusive ops K (as_activate (Some as) pid s) = exclusive ops K s"
    "lastpid (m_tlb (as_activate (Some as) pid s)) = pid \<or> tlb_map (m_tlb (as_activate (Some as) pid s)) = Map.empty"
    by blast+
qed

lemma sys_invD:
  assumes "sys_inv ops S" "spaces S (running S) = Some as"
  shows "vm_inv ops (running S) as (mach S)"
  using assms by (auto simp: sys_inv_def vm_inv_def)

text \<open>A change of the memory of the running process keeps the system invariant.\<close>

lemma sys_inv_upd:
  assumes inv: "sys_inv ops S" and vi: "vm_inv ops (running S) as' s'"
    and same: "\<forall>k. fst k \<noteq> running S \<longrightarrow> page_contents ops s' k = page_contents ops (mach S) k"
  shows "sys_inv ops (S\<lparr>spaces := (spaces S)(running S \<mapsto> as'), mach := s'\<rparr>)"
proof -
  have "0 < pid \<and> as_wf as \<and> loaded_ok ops pid as s'"
    if "((spaces S)(running S \<mapsto> as')) pid = Some as" for pid as
  proof (cases "pid = running S")
    case True
    then show ?thesis using that vm_invD [OF vi] by simp
  next
    case False
    then have "0 < pid \<and> as_wf as \<and> loaded_ok ops pid as (mach S)" using that inv by (simp add: sys_inv_def)
    then show ?thesis using False same by (simp add: loaded_ok_def)
  qed
  then show ?thesis using vm_invD [OF vi] by (simp add: sys_inv_def)
qed

lemma mem_step_others:
  assumes "mem_step M e M'"
  shows "\<forall>k. fst k \<noteq> (case e of Load p v b \<Rightarrow> p | Store p v b \<Rightarrow> p | Switch p \<Rightarrow> p) \<longrightarrow> M' k = M k"
  using assms by (cases e) auto

lemma user_step_refines:
  assumes ops: "vnode_ops_ok ops" "disk_ok ops" and st: "user_step ops S e S'" and inv: "sys_inv ops S"
  shows "sys_inv ops S' \<and> mem_step (page_contents ops (mach S)) e (page_contents ops (mach S'))"
  using st
proof cases
  case (load as v b as' s')
  have *: "vm_inv ops (running S) as' s'" "mem_step (page_contents ops (mach S)) e (page_contents ops s')"
    using user_load_ok [OF ops sys_invD [OF inv load(3)] load(4,5)] load(1) by auto
  then show ?thesis using sys_inv_upd [OF inv *(1)] mem_step_others [OF *(2)] load(1,2) by simp
next
  case (store as v b as' s')
  have *: "vm_inv ops (running S) as' s'" "mem_step (page_contents ops (mach S)) e (page_contents ops s')"
    using user_store_ok [OF ops sys_invD [OF inv store(3)] store(4,5)] store(1) by auto
  then show ?thesis using sys_inv_upd [OF inv *(1)] mem_step_others [OF *(2)] store(1,2) by simp
next
  case (switch pid as)
  have c: "cm_inv ops (mach S)" using inv by (simp add: sys_inv_def)
  note a = as_activate_ok [OF c, where as = as and pid = pid]
  show ?thesis using inv switch a by (auto simp: sys_inv_def loaded_ok_def)
qed

lemma user_run_refines:
  assumes ops: "vnode_ops_ok ops" "disk_ok ops" and run: "user_run ops S es S'" and inv: "sys_inv ops S"
  shows "sys_inv ops S' \<and> mem_run (page_contents ops (mach S)) es (page_contents ops (mach S'))"
  using run inv
proof (induction rule: user_run.induct)
  case (more S e S' es S'')
  then show ?case using user_step_refines [OF ops more.hyps(1)] by auto
qed simp

text \<open>In the abstract memory a load returns the last byte stored.\<close>

fun stores_to :: "pid_t \<Rightarrow> vaddr_t \<Rightarrow> event \<Rightarrow> bool" where
  "stores_to pid v (Store p w b) \<longleftrightarrow> p = pid \<and> w = v"
| "stores_to pid v e \<longleftrightarrow> False"

definition holds_byte :: "(pagekey \<Rightarrow> byte list option) \<Rightarrow> pid_t \<Rightarrow> vaddr_t \<Rightarrow> byte \<Rightarrow> bool" where
  "holds_byte M pid v b \<longleftrightarrow>
     (\<exists>c. M (pid, v AND PAGE_FRAME) = Some c \<and> length c = PAGE_SIZE \<and> c ! offset_of v = b)"

lemma same_page_offset:
  assumes "v AND PAGE_FRAME = w AND PAGE_FRAME" "offset_of v = offset_of w"
  shows "v = w"
proof -
  have "unat v div 4096 * 4096 = unat w div 4096 * 4096"
    using arg_cong [OF assms(1), of unat] unfolding PAGE_FRAME_def unat_page_mask .
  then have "unat v div 4096 = unat w div 4096" by simp
  then have "unat v = unat w" using assms(2) unfolding offset_of_def PAGE_SIZE_def by (metis div_mult_mod_eq)
  then show ?thesis by (rule unsigned_word_eqI)
qed

lemma mem_step_holds:
  assumes "mem_step M e M'" "holds_byte M pid v b" "\<not> stores_to pid v e"
  shows "holds_byte M' pid v b"
proof (cases e)
  case (Store p w b')
  then have "\<not> (p = pid \<and> w AND PAGE_FRAME = v AND PAGE_FRAME \<and> offset_of w = offset_of v)"
    using assms(3) same_page_offset by auto
  then show ?thesis using assms Store by (auto simp: holds_byte_def nth_list_update)
qed (use assms in \<open>auto simp: holds_byte_def\<close>)

lemma mem_run_holds:
  "mem_run M es M' \<Longrightarrow> holds_byte M pid v b \<Longrightarrow> \<forall>e \<in> set es. \<not> stores_to pid v e \<Longrightarrow> holds_byte M' pid v b"
proof (induction es arbitrary: M)
  case (Cons e es)
  then show ?case using mem_step_holds by (metis list.set_intros mem_run.simps(2))
qed simp

lemma mem_run_append: "mem_run M (xs @ ys) M' \<longleftrightarrow> (\<exists>N. mem_run M xs N \<and> mem_run N ys M')"
  by (induction xs arbitrary: M) auto

lemma mem_read_your_writes:
  assumes run: "mem_run M (xs @ Store pid v b # ys @ [Load pid v b']) M'" and no: "\<forall>e \<in> set ys. \<not> stores_to pid v e"
  shows "b' = b"
proof -
  obtain M1 M2 M3 where r: "mem_step M1 (Store pid v b) M2" "mem_run M2 ys M3" "mem_step M3 (Load pid v b') M'"
    using run by (auto simp: mem_run_append)
  have "holds_byte M2 pid v b" using r(1) by (auto simp: holds_byte_def)
  then have "holds_byte M3 pid v b" using mem_run_holds [OF r(2)] no by blast
  then show ?thesis using r(3) by (auto simp: holds_byte_def)
qed

end
