(* ===== verification/Sample.thy ===== *)
theory Sample
  imports User_Memory
begin

text \<open>
  Concrete states on which the theorems are exercised: a machine with 64 frames and files in
  memory, and a process with two regions and a stack. In \<open>sample_machine\<close> 60 frames are free;
  in \<open>full_machine\<close> the kernel owns all frames but one, which holds a page of the process.
\<close>

text \<open>The headers of a small executable: two loadable segments. File 3 has the first of them three times.\<close>

definition sample_elf :: "byte list" where
  "sample_elf =
     [0x7f, 0x45, 0x4c, 0x46, 1, 2, 1, 0, 0, 0, 0, 0, 0, 0, 0, 0,
      0, 2, 0, 8, 0, 0, 0, 1, 0, 0x40, 0, 0x10, 0, 0, 0, 0x34, 0, 0, 0, 0, 0, 0, 0, 0, 0, 0x34, 0, 0x20, 0, 2, 0, 0, 0, 0, 0, 0,
      0, 0, 0, 1, 0, 0, 0, 0, 0, 0x40, 0, 0, 0, 0x40, 0, 0, 0, 0, 0x10, 0, 0, 0, 0x10, 0, 0, 0, 0, 5, 0, 0, 0x10, 0,
      0, 0, 0, 1, 0, 0, 0x10, 0, 0x10, 0, 0, 0, 0x10, 0, 0, 0, 0, 0, 0, 0, 0, 0, 0x20, 0, 0, 0, 0, 6, 0, 0, 0x10, 0]"

definition sample_files :: "vnode \<Rightarrow> byte list" where
  "sample_files v = (if v = 1 then replicate (4 * PAGE_SIZE) 66 else if v = 2 then sample_elf
     else if v = 3 then sample_elf[43 := 0, 45 := 3] else [])"

definition sample_tlb :: tlbstate where
  "sample_tlb = \<lparr>tlb = map (\<lambda>i. (TLBHI_INVALID i, TLBLO_INVALID)) [0..<NUM_TLB], tlbindex = 0,
     tlbinvalidatedindex = -1, lastpid = 0\<rparr>"

definition sample_machine :: "(vnode \<Rightarrow> byte list) machine" where
  "sample_machine =
     \<lparr>m_pt = boot_state 64 2 4, isAct = True, swappagesmap = replicate SWAPPAGES free_swappage,
      maxindswappedpage = 0, swapfile = 0, ram = (\<lambda>a. 7), m_tlb = sample_tlb, m_stats = vmstatsetup,
      firstpaddr = 0, lastpaddr = 0, held = {}, vn_refcount = (\<lambda>v. if v < 2 then 1 else 0),
      files = sample_files\<rparr>"

definition full_pt :: ptstate where
  "full_pt =
     \<lparr>pagetable = (pagetable (boot_state 64 2 63))[63 :=
        \<lparr>pt_pid = 5, pt_vaddr = 0x400000, pt_numpages = 1, pt_fifonext = None, pt_next = None\<rparr>],
      hashedpt = [None, Some 63], firstvictim = Some 63, lastallocateduser = Some 63\<rparr>"

definition full_machine :: "(vnode \<Rightarrow> byte list) machine" where
  "full_machine = sample_machine\<lparr>m_pt := full_pt\<rparr>"

definition sample_seg :: "vaddr_t \<Rightarrow> u32 \<Rightarrow> byte list \<Rightarrow> vnode option \<Rightarrow> int \<Rightarrow> bool \<Rightarrow> byte \<Rightarrow> segment" where
  "sample_seg base n flags vn off stack perm =
     \<lparr>numpages = n, elfdata = vn, loadedelf = Some flags, elfoffset = off, startaddr = base,
      stackseg = stack, permissions = perm\<rparr>"

definition sample_as :: "byte list \<Rightarrow> addrspace" where
  "sample_as flags =
     \<lparr>seg1 = Some (sample_seg 0x400000 2 flags (Some 1) 0 False 5),
      seg2 = Some (sample_seg 0x10000000 1 [0] (Some 1) 8192 False 6),
      segstack = Some (sample_seg (USERSTACK - STACKPAGES * word_of_nat PAGE_SIZE) STACKPAGES
        (replicate 18 0) None 0 True 6)\<rparr>"

lemma disk_ok_mem: "disk_ok mem_ops"
  by (simp add: disk_ok_def mem_ops_def mem_write_def)

lemma sample_boot: "pt_inv (boot_state 64 2 4)" "resident (boot_state 64 2 4) = Map.empty"
  "inuse (boot_state 64 2 4) = {..<4}" "pt_inv (boot_state 64 2 63)" "resident (boot_state 64 2 63) = Map.empty"
  "inuse (boot_state 64 2 63) = {..<63}"
  using boot_inv [of 2 4 64] boot_inv [of 2 63 64] by simp_all

lemma full_pt_set: "setptentry (boot_state 64 2 63) 63 1 5 0x400000 = Inr full_pt"
proof -
  have h: "pthash (Suc (Suc 0)) 5 0x400000 = Suc 0" by (simp add: pthash_def flip: numeral_2_eq_2)
  have "hashedpt (boot_state 64 2 63) = [None, None]" by (simp add: boot_state_def numeral_2_eq_2)
  then show ?thesis
    using h by (simp add: setptentry_def setptentry_hash_def setptentry_fifo_def gethashedentry_def
        sethashedptentry_def full_pt_def boot_state_def Let_def)
qed

lemma full_pt_inv: "pt_inv full_pt" "resident full_pt = [(5, 0x400000) \<mapsto> 63]" "inuse full_pt = {..<64}"
  "victims full_pt = [63]"
proof -
  have "{..<64} = insert 63 {..<63::nat}" by auto
  then show "pt_inv full_pt" "resident full_pt = [(5, 0x400000) \<mapsto> 63]" "inuse full_pt = {..<64}"
    "victims full_pt = [63]"
    using pt.enter_ok [of "boot_state 64 2 63" 63 5 "0x400000"] sample_boot(4-6) full_pt_set boot_inv(3) [of 2 63 64]
    by (auto simp: boot_state_def)
qed

lemma sample_tlb_ok: "tlb_wf sample_tlb" "tlb_map sample_tlb = Map.empty" "lastpid sample_tlb = 0"
proof -
  have "vmtlb_invalidate (sample_tlb\<lparr>lastpid := 1\<rparr>) c 2 = (sample_tlb, vmstatincr c TLBINVALIDATION)" for c
    using invalidate_loop_tlb [of NUM_TLB "sample_tlb\<lparr>lastpid := 1\<rparr>"]
      invalidate_loop_frame [of NUM_TLB "sample_tlb\<lparr>lastpid := 1\<rparr>"]
    by (simp add: vmtlb_invalidate_def sample_tlb_def)
  then show "tlb_wf sample_tlb" "tlb_map sample_tlb = Map.empty" "lastpid sample_tlb = 0"
    using vmtlb_invalidate_ok [of "sample_tlb\<lparr>lastpid := 1\<rparr>" 2] by (auto simp: sample_tlb_def)
qed

lemma sample_swap: "slots_used (sample_machine\<lparr>m_pt := st\<rparr>) = {}" "swap_inv ops (sample_machine\<lparr>m_pt := st\<rparr>)"
  "swap_contents ops (sample_machine\<lparr>m_pt := st\<rparr>) = Map.empty" "swap_room (sample_machine\<lparr>m_pt := st\<rparr>)"
proof -
  let ?s = "sample_machine\<lparr>m_pt := st\<rparr>"
  show u: "slots_used ?s = {}" by (auto simp: slots_used_def sample_machine_def)
  show i: "swap_inv ops ?s" unfolding swap_inv_def u by (simp add: sample_machine_def SWAPPAGES_eq)
  show "swap_contents ops ?s = Map.empty" using swap_contents_iff [OF i] u by (intro map_eqI) auto
  have "(0::nat) \<in> {..<SWAPPAGES}" by (simp add: SWAPPAGES_eq)
  then show "swap_room ?s" using swap_freeslot_iff(1) [of ?s] u by (auto simp: swap_room_def)
qed

lemma sample_id: "sample_machine\<lparr>m_pt := boot_state 64 2 4\<rparr> = sample_machine"
  by (simp add: sample_machine_def)

lemma sample_cm_inv: "cm_inv mem_ops sample_machine" "cm_inv mem_ops full_machine"
  "exclusive mem_ops {} sample_machine" "exclusive mem_ops {} full_machine"
proof -
  have t: "m_tlb sample_machine = sample_tlb" "held sample_machine = {}" "isAct sample_machine"
    "m_pt sample_machine = boot_state 64 2 4" by (simp_all add: sample_machine_def)
  have u: "user_page 0x400000" by (simp add: user_page_def TLBHI_VPAGE_def MIPS_KSEG0_def)
  show "cm_inv mem_ops full_machine" "exclusive mem_ops {} full_machine"
    using t sample_tlb_ok full_pt_inv sample_swap [where st = full_pt] u
    by (auto simp: cm_inv_def full_machine_def tlb_coherent_def exclusive_def split: if_splits)
  show "cm_inv mem_ops sample_machine" "exclusive mem_ops {} sample_machine"
    using t sample_tlb_ok sample_boot sample_swap [where st = "boot_state 64 2 4", unfolded sample_id]
    by (auto simp: cm_inv_def tlb_coherent_def exclusive_def)
qed

lemma sample_segs:
  assumes "length fl = 2" "set fl \<subseteq> {0, 1}"
  shows "as_wf (sample_as fl)"
proof -
  have st: "unat (USERSTACK - STACKPAGES * word_of_nat PAGE_SIZE) = 2147409920"
    by (simp add: USERSTACK_def MIPS_KSEG0_def STACKPAGES_def PAGE_SIZE_def)
  have w: "\<exists>sg. getseg (sample_as fl) nm = Some sg \<and> seg_wf sg \<and> (stackseg sg \<longleftrightarrow> nm = Segstack)" for nm
    using assms st by (cases nm) (simp_all add: sample_as_def sample_seg_def seg_wf_def page_aligned_iff unat_USERSTACK
        PAGE_SIZE_def STACKPAGES_def)
  have "seg_range sg \<inter> seg_range sg' = {}"
    if "getseg (sample_as fl) nm = Some sg" "getseg (sample_as fl) nm' = Some sg'" "nm \<noteq> nm'" for nm nm' sg sg'
    using that st by (cases nm; cases nm') (auto simp: sample_as_def sample_seg_def seg_range_def PAGE_SIZE_def STACKPAGES_def)
  then show ?thesis
    unfolding as_wf_def using w by (auto simp: sample_as_def sample_seg_def)
qed

lemma sample_vm_inv: "vm_inv mem_ops 5 (sample_as [0, 0]) sample_machine"
  "vm_inv mem_ops 5 (sample_as [1, 0]) full_machine"
proof -
  have 1: "page_contents mem_ops sample_machine = Map.empty"
    using sample_boot sample_swap [where st = "boot_state 64 2 4", unfolded sample_id]
    by (auto simp: page_contents_def sample_machine_def fun_eq_iff)
  have 2: "page_contents mem_ops full_machine k \<noteq> None \<longleftrightarrow> k = (5, 0x400000)" for k
    using full_pt_inv sample_swap [where st = full_pt] by (auto simp: page_contents_def full_machine_def)
  have "loaded_ok mem_ops 5 (sample_as [0, 0]) sample_machine"
    unfolding loaded_ok_def 1
  proof (intro allI impI)
    fix nm sg i assume "getseg (sample_as [0, 0]) nm = Some sg" "i < unat (numpages sg)"
    then show "(the (loadedelf sg) ! i = 1) = (None \<noteq> None)"
      by (cases nm) (auto simp: sample_as_def sample_seg_def STACKPAGES_def less_2_cases_iff)
  qed
  moreover have "loaded_ok mem_ops 5 (sample_as [1, 0]) full_machine"
    unfolding loaded_ok_def 2
  proof (intro allI impI)
    fix nm sg i assume a: "getseg (sample_as [1, 0]) nm = Some sg" "i < unat (numpages sg)"
    have sg1: "getseg (sample_as [1, 0]) Seg1 = Some (sample_seg 0x400000 2 [1, 0] (Some 1) 0 False 5)"
      by (simp add: sample_as_def)
    have "page_of sg i = 0x400000 \<longleftrightarrow> nm = Seg1 \<and> i = 0"
    proof
      assume "page_of sg i = 0x400000"
      then show "nm = Seg1 \<and> i = 0"
        using page_of_apart [OF _ a(1) sg1 a(2), of 0] sample_segs [of "[1, 0]"] by (simp add: page_of_def sample_seg_def)
    qed (use a in \<open>auto simp: sample_as_def sample_seg_def page_of_def\<close>)
    then show "the (loadedelf sg) ! i = 1 \<longleftrightarrow> (5::pid_t, page_of sg i) = (5, 0x400000)"
      using a by (cases nm) (auto simp: sample_as_def sample_seg_def STACKPAGES_def less_2_cases_iff)
  qed
  ultimately show "vm_inv mem_ops 5 (sample_as [0, 0]) sample_machine"
    "vm_inv mem_ops 5 (sample_as [1, 0]) full_machine"
    using sample_cm_inv sample_segs sample_tlb_ok
    by (auto simp: vm_inv_def full_machine_def sample_machine_def)
qed

lemma sample_available: "getfreeframes (boot_state 64 2 4) 1 \<noteq> -1" "getfreeframes full_pt 1 = -1"
  "frame_available sample_machine" "frame_available full_machine"
proof -
  show a: "getfreeframes (boot_state 64 2 4) 1 \<noteq> -1"
    using pt.seek_none [OF sample_boot(1), of 10] sample_boot(3) by (auto simp: boot_state_def)
  have "i \<in> inuse full_pt" if "i < length (pagetable full_pt)" for i
    using that full_pt_inv(3) by (simp add: full_pt_def boot_state_def)
  then show "getfreeframes full_pt 1 = -1" using pt.seek_found [OF full_pt_inv(1)] by blast
  show "frame_available sample_machine" using a by (simp add: frame_available_def sample_machine_def)
  show "frame_available full_machine"
    using sample_swap(4) by (simp add: frame_available_def full_machine_def full_pt_def)
qed

lemma sample_simps:
  "m_tlb sample_machine = sample_tlb" "m_tlb full_machine = sample_tlb" "swapfile sample_machine = 0"
  "swapfile full_machine = 0" "files sample_machine = sample_files" "files full_machine = sample_files"
  "held sample_machine = {}" "held full_machine = {}" "m_pt sample_machine = boot_state 64 2 4"
  "m_pt full_machine = full_pt" "m_stats sample_machine = vmstatsetup" "m_stats full_machine = vmstatsetup"
  "isAct sample_machine" "isAct full_machine" "swap_room full_machine"
  using sample_swap(4) [where st = full_pt] by (simp_all add: sample_machine_def full_machine_def)

text \<open>Pages of the sample address space: the second code page and the top of the stack.\<close>

lemma sample_seg_of:
  "vm_seg_of (the (seg1 (sample_as fl))) (the (seg2 (sample_as fl))) (0x401234 AND PAGE_FRAME) = Some (Seg1, 1)"
  "vm_seg_of (the (seg1 (sample_as fl))) (the (seg2 (sample_as fl))) (0x7ffffffc AND PAGE_FRAME) = Some (Segstack, 17)"
  by (simp_all add: vm_seg_of_def sample_as_def sample_seg_def PAGE_SIZE_def PAGE_FRAME_def STACKPAGES_def
      USERSTACK_def MIPS_KSEG0_def)

lemma sample_elf_ok:
  "elf_ok mem_ops (sample_as fl) (the (getseg (sample_as fl) Seg1)) 0x401000 sample_machine"
  "elf_ok mem_ops (sample_as fl) (the (getseg (sample_as fl) Seg1)) 0x401000 full_machine"
  "elf_ok mem_ops (sample_as fl) (the (getseg (sample_as fl) Segstack)) v s"
  by (simp_all add: elf_ok_def elf_source_def seg_reaches_def sample_as_def sample_seg_def seg_bytes_def
      sample_simps mem_ops_def mem_read_def PAGE_SIZE_def)

lemma full_page: "page_contents mem_ops full_machine (5, 0x400000) = Some (replicate PAGE_SIZE 7)"
proof -
  have "frame (ram full_machine) 63 = replicate PAGE_SIZE 7"
    by (rule nth_equalityI) (simp_all add: frame_def full_machine_def sample_machine_def)
  then show ?thesis using full_pt_inv(2) by (simp add: page_contents_def sample_simps)
qed

lemma sample_empty: "page_contents mem_ops sample_machine = Map.empty"
  using sample_boot sample_swap [where st = "boot_state 64 2 4", unfolded sample_id]
  by (auto simp: page_contents_def sample_machine_def fun_eq_iff)

text \<open>A machine whose frames all belong to the kernel.\<close>

definition packed_machine :: "(vnode \<Rightarrow> byte list) machine" where
  "packed_machine = sample_machine\<lparr>m_pt := boot_state 64 2 64\<rparr>"

lemma packed_inv: "vm_inv mem_ops 5 (sample_as [0, 0]) packed_machine" "page_contents mem_ops packed_machine = Map.empty"
  "tlb_map (m_tlb packed_machine) = Map.empty" "getfreeframes (m_pt packed_machine) 1 = -1"
  "victims (m_pt packed_machine) = []"
proof -
  let ?p = "boot_state 64 2 64"
  have b: "pt_inv ?p" "resident ?p = Map.empty" "victims ?p = []" "inuse ?p = {..<64}"
    using boot_inv [of 2 64 64] by simp_all
  have l: "length (pagetable ?p) = 64" by (simp add: boot_state_def)
  have m: "m_pt packed_machine = ?p" "m_tlb packed_machine = sample_tlb" "held packed_machine = {}" "isAct packed_machine"
    by (simp_all add: packed_machine_def sample_machine_def)
  note sw = sample_swap [where st = ?p, folded packed_machine_def]
  show pc: "page_contents mem_ops packed_machine = Map.empty"
    using b(2) sw(3) m(1) by (auto simp: page_contents_def fun_eq_iff)
  show "victims (m_pt packed_machine) = []" using b(3) m(1) by simp
  show t: "tlb_map (m_tlb packed_machine) = Map.empty" using m(2) sample_tlb_ok(2) by simp
  show "getfreeframes (m_pt packed_machine) 1 = -1" using pt.seek_found [OF b(1)] b(4) l m(1) by fastforce
  have "cm_inv mem_ops packed_machine"
    using m b sw(2) sample_tlb_ok by (auto simp: cm_inv_def tlb_coherent_def)
  moreover have "exclusive mem_ops {} packed_machine" using m(1) b(2) sw(3) by (auto simp: exclusive_def)
  moreover have "loaded_ok mem_ops 5 (sample_as [0, 0]) packed_machine"
    using vm_invD(4) [OF sample_vm_inv(1)] pc sample_empty by (simp add: loaded_ok_def)
  ultimately show "vm_inv mem_ops 5 (sample_as [0, 0]) packed_machine"
    using sample_segs [of "[0, 0]"] t by (simp add: vm_inv_def)
qed

text \<open>Two processes with the same layout; the first runs.\<close>

definition sample_system :: "(vnode \<Rightarrow> byte list) system" where
  "sample_system = \<lparr>spaces = [5 \<mapsto> sample_as [0, 0], 6 \<mapsto> sample_as [0, 0]], running = 5, mach = sample_machine\<rparr>"

lemma sample_sys_inv: "sys_inv mem_ops sample_system"
proof -
  note V = vm_invD [OF sample_vm_inv(1)]
  have "loaded_ok mem_ops 6 (sample_as [0, 0]) sample_machine"
    using V(4) sample_empty by (simp add: loaded_ok_def)
  then show ?thesis
    using V sample_tlb_ok(2) by (simp add: sys_inv_def sample_system_def sample_simps(1))
qed

text \<open>A store and a load of the same stack byte.\<close>

lemma sample_run: "\<exists>b S'. user_run mem_ops sample_system [Store 5 0x7ffffffc 9, Load 5 0x7ffffffc b] S'"
proof -
  let ?as = "sample_as [0, 0]" and ?v = "0x7ffffffc :: vaddr_t"
  have w: "seg_writable (the (getseg ?as Segstack))"
    by (simp add: sample_as_def sample_seg_def seg_writable_def WRFLAG_def)
  have t: "tlb_map (m_tlb sample_machine) (?v AND PAGE_FRAME) = None" using sample_tlb_ok(2) by (simp add: sample_simps)
  have e: "elf_ok mem_ops ?as (the (getseg ?as Segstack)) (?v AND PAGE_FRAME) sample_machine" by (rule sample_elf_ok(3))
  obtain as1 s1 where st: "user_store mem_ops 5 ?v 9 ?as sample_machine = Some (as1, s1)"
    "tlb_map (m_tlb s1) (?v AND PAGE_FRAME) \<noteq> None"
    using user_store_happens [OF mem_ops_ok disk_ok_mem sample_vm_inv(1) sample_available(3) t sample_seg_of(2) e w] by blast
  have ct: "can_touch mem_ops ?v ?as sample_machine"
    using sample_available(3) sample_seg_of(2) e by (simp add: can_touch_def)
  let ?S1 = "sample_system\<lparr>spaces := (spaces sample_system)(5 \<mapsto> as1), mach := s1\<rparr>"
  have step1: "user_step mem_ops sample_system (Store 5 ?v 9) ?S1"
    using user_step.store [of sample_system ?as mem_ops ?v 9 as1 s1] st(1) ct by (simp add: sample_system_def)
  have vi: "vm_inv mem_ops 5 as1 s1" using user_store_ok [OF mem_ops_ok disk_ok_mem sample_vm_inv(1) ct st(1)] by blast
  have ct1: "can_touch mem_ops ?v as1 s1" using st(2) by (simp add: can_touch_def)
  obtain b as2 s2 where ld: "user_load mem_ops 5 ?v as1 s1 = Some (b, as2, s2)"
    using user_load_happens [OF mem_ops_ok disk_ok_mem vi ct1] by blast
  have "user_step mem_ops ?S1 (Load 5 ?v b) (?S1\<lparr>spaces := (spaces ?S1)(5 \<mapsto> as2), mach := s2\<rparr>)"
    using user_step.load [of ?S1 as1 mem_ops ?v b as2 s2] ld ct1 by (simp add: sample_system_def)
  then show ?thesis using user_run.more [OF step1 user_run.more [OF _ user_run.stop]] by blast
qed

end
