(* ===== verification/Memory_Properties.thy ===== *)
theory Memory_Properties
  imports Sample
begin

text \<open>
  Properties of the parts of the virtual memory system: the page table (\<^verbatim>\<open>pt.c\<close>), the frame
  allocator (\<^verbatim>\<open>coremap.c\<close>), the swap file (\<^verbatim>\<open>swapfile.c\<close>) and the address spaces
  (\<^verbatim>\<open>addrspace.c\<close>), each with an instance on the sample machine.
\<close>

section \<open>Page table\<close>

lemma fits_inuse: "fits (pagetable s) n j \<longleftrightarrow> j + n \<le> length (pagetable s) \<and> {j..<j + n} \<inter> inuse s = {}"
  by (auto simp: fits_def inuse_def)



text \<open>Entering a page in a free frame, looking it up and releasing it: the lookup through
  the hash chain returns the frame's physical address, every other lookup is as before, and
  after the release the table maps the same pages to the same frames as at the start.\<close>

theorem page_table_roundtrip:
  assumes "pt_inv s" "i < length (pagetable s)" "i \<notin> inuse s" "0 < pid" "resident s (pid, v) = None"
  shows "\<exists>s1 s2. setptentry s i 1 pid v = Inr s1 \<and> getpageaddr s1 pid v = Inr (frame_paddr i) \<and>
    (\<forall>pid' v'. (pid', v') \<noteq> (pid, v) \<longrightarrow> getpageaddr s1 pid' v' = getpageaddr s pid' v') \<and>
    freeuser s1 pid v = Inr (0, s2) \<and> pt_inv s2 \<and> resident s2 = resident s \<and>
    victims s2 = victims s \<and> inuse s2 = inuse s \<and> getpageaddr s2 pid v = Inr 0"
proof -
  obtain s1 where s1: "setptentry s i 1 pid v = Inr s1" "pt_inv s1" "resident s1 = (resident s)((pid, v) \<mapsto> i)"
    "victims s1 = victims s @ [i]" "inuse s1 = insert i (inuse s)"
    using pt.enter_ok [OF assms] by blast
  then obtain s2 where s2: "freeuser s1 pid v = Inr (0, s2)" "pt_inv s2" "resident s2 = (resident s1)((pid, v) := None)"
    "victims s2 = remove1 i (victims s1)" "inuse s2 = inuse s1 - {i}"
    using pt.release_ok [OF s1(2), of pid v i] by auto
  have "i \<notin> set (victims s)"
    using pt.queue_mapping [OF assms(1), of i] pt.mapping_used [OF assms(1)] assms(3) by blast
  then have "victims s2 = victims s" using s1(4) s2(4) by (simp add: remove1_append)
  moreover have "resident s2 = resident s" "inuse s2 = inuse s"
    using s1(3,5) s2(3,5) assms(3,5) by (auto simp: fun_upd_idem)
  ultimately show ?thesis
    using s1 s2 assms(5) getpageaddr_inv [OF assms(1)] getpageaddr_inv [OF s1(2)] getpageaddr_inv [OF s2(2)]
    by (auto simp: frame_paddr_def)
qed

theorem page_table_roundtrip_witness:
  "\<exists>s1 s2. setptentry (boot_state 64 2 4) 10 1 5 0x400000 = Inr s1 \<and>
     getpageaddr s1 5 0x400000 = Inr (frame_paddr 10) \<and> freeuser s1 5 0x400000 = Inr (0, s2) \<and>
     getpageaddr s2 5 0x400000 = Inr 0"
proof -
  have "length (pagetable (boot_state 64 2 4)) = 64" by (simp add: boot_state_def)
  then show ?thesis
    using page_table_roundtrip [of "boot_state 64 2 4" 10 5 "0x400000"] sample_boot(1-3) by auto
qed

text \<open>First fit: the search for \<open>n\<close> contiguous frames returns the lowest index at which
  \<open>n\<close> frames are free, and \<open>-1\<close> exactly when there is no such index, although it skips over
  kernel blocks by their recorded length.\<close>

theorem getfreeframes_first_fit:
  assumes "pt_inv s" "0 < n"
  shows "(getfreeframes s n = int i \<longleftrightarrow>
      i + n \<le> length (pagetable s) \<and> {i..<i + n} \<inter> inuse s = {} \<and>
      (\<forall>j < i. \<not> (j + n \<le> length (pagetable s) \<and> {j..<j + n} \<inter> inuse s = {}))) \<and>
    (getfreeframes s n = -1 \<longleftrightarrow> (\<forall>j. j + n \<le> length (pagetable s) \<longrightarrow> {j..<j + n} \<inter> inuse s \<noteq> {}))"
proof -
  have "frames_ok (pagetable s)" using assms(1) by (elim pt_invE)
  note ff = getfreeframes_spec [OF this assms(2), unfolded first_fit_def]
  have "getfreeframes s n = int i \<longleftrightarrow> fits (pagetable s) n i \<and> (\<forall>j < i. \<not> fits (pagetable s) n j)"
  proof
    assume a: "fits (pagetable s) n i \<and> (\<forall>j < i. \<not> fits (pagetable s) n j)"
    then obtain k where k: "getfreeframes s n = int k" "fits (pagetable s) n k" "\<forall>j < k. \<not> fits (pagetable s) n j"
      using ff by auto
    have "k = i" using a k(2,3) by (cases k i rule: linorder_cases) auto
    then show "getfreeframes s n = int i" using k(1) by simp
  qed (use ff in auto)
  moreover have "getfreeframes s n = -1 \<longleftrightarrow> (\<forall>j. \<not> fits (pagetable s) n j)" using ff by auto
  ultimately show ?thesis unfolding fits_inuse by blast
qed

theorem getfreeframes_first_fit_witness: "getfreeframes (boot_state 64 2 4) 3 = 4"
proof -
  have l: "length (pagetable (boot_state 64 2 4)) = 64" by (simp add: boot_state_def)
  have "{j..<j + 3} \<inter> {..<4} \<noteq> {}" if "j < 4" for j :: nat
    using that by (intro notI) (drule equals0D [of _ j], simp)
  moreover have "{4..<4 + 3} \<inter> {..<4::nat} = {}" by auto
  ultimately show ?thesis
    using getfreeframes_first_fit [of "boot_state 64 2 4" 3 4] sample_boot(1,3) l by simp
qed

section \<open>Frames for the kernel\<close>

text \<open>C13. Kernel pages: with \<open>n\<close> contiguous free frames, \<^verbatim>\<open>alloc_kpages\<close> returns the kernel
  address of a block of \<open>n\<close> frames that were free, user pages and their contents are untouched,
  and \<^verbatim>\<open>free_kpages\<close> of the returned address gives back exactly these frames.\<close>

theorem kernel_pages_roundtrip:
  assumes "cm_inv ops s" "0 < n" "getfreeframes (m_pt s) n \<noteq> -1"
  shows "\<exists>i s1 s2. alloc_kpages ops s n = Inr (PADDR_TO_KVADDR (frame_paddr i), s1) \<and>
    i + n \<le> length (pagetable (m_pt s)) \<and> {i..<i + n} \<inter> inuse (m_pt s) = {} \<and>
    cm_inv ops s1 \<and> inuse (m_pt s1) = inuse (m_pt s) \<union> {i..<i + n} \<and> page_contents ops s1 = page_contents ops s \<and>
    free_kpages s1 (PADDR_TO_KVADDR (frame_paddr i)) = Inr s2 \<and> cm_inv ops s2 \<and>
    inuse (m_pt s2) = inuse (m_pt s) \<and> page_contents ops s2 = page_contents ops s"
proof -
  note I = cm_invD [OF assms(1)]
  obtain st i where g: "getfreeppages ops s n = Inr (frame_paddr i, s\<lparr>m_pt := st\<rparr>)" and st: "pt_inv st"
    and f: "fits (pagetable (m_pt s)) n i" and i: "0 < i" "i < 2 ^ 20"
    and r: "resident st = resident (m_pt s)" and u: "inuse st = inuse (m_pt s) \<union> {i..<i + n}"
    and e: "pt_pid (pagetable st ! i) = 0" "pt_numpages (pagetable st ! i) = n"
      "length (pagetable st) = length (pagetable (m_pt s))"
    by (rule getfreeppages_ok [OF assms])
  let ?s1 = "s\<lparr>m_pt := st\<rparr>"
  have d: "i + n \<le> length (pagetable (m_pt s))" "{i..<i + n} \<inter> inuse (m_pt s) = {}"
    using f unfolding fits_inuse by blast+
  have inv1: "cm_inv ops ?s1" by (rule cm_inv_pt_upd(1) [OF assms(1) st r])
  have pc1: "page_contents ops ?s1 = page_contents ops s" by (rule cm_inv_pt_upd(2) [OF assms(1) st r])
  have il: "i < length (pagetable (m_pt ?s1))" "pt_pid (pagetable (m_pt ?s1) ! i) = 0" using e d(1) assms(2) by simp_all
  obtain st2 where f2: "free_kpages ?s1 (PADDR_TO_KVADDR (frame_paddr i)) = Inr (?s1\<lparr>m_pt := st2\<rparr>)" "pt_inv st2"
    "resident st2 = resident (m_pt ?s1)" "inuse st2 = inuse (m_pt ?s1) - {i..<i + pt_numpages (pagetable (m_pt ?s1) ! i)}"
    by (rule free_kpages_ok [OF inv1 i(1) il])
  have "cm_inv ops (?s1\<lparr>m_pt := st2\<rparr>)" "page_contents ops (?s1\<lparr>m_pt := st2\<rparr>) = page_contents ops ?s1"
    by (rule cm_inv_pt_upd(1,2) [OF inv1 f2(2,3)])+
  moreover have "inuse st2 = inuse (m_pt s)" using f2(4) u e(2) d(2) by auto
  ultimately show ?thesis
    using alloc_kpages_eq [OF g I(1) i] d inv1 pc1 u f2(1)
    by (intro exI [of _ i] exI [of _ ?s1] exI [of _ "?s1\<lparr>m_pt := st2\<rparr>"]) simp
qed

theorem kernel_pages_roundtrip_witness:
  "\<exists>i s1 s2. alloc_kpages mem_ops sample_machine 2 = Inr (PADDR_TO_KVADDR (frame_paddr i), s1) \<and>
     free_kpages s1 (PADDR_TO_KVADDR (frame_paddr i)) = Inr s2 \<and> inuse (m_pt s2) = {..<4}"
proof -
  have len: "length (pagetable (boot_state 64 2 4)) = 64" by (simp add: boot_state_def)
  have "{10..<10 + 2} \<inter> {..<4::nat} = {}" by auto
  then have "getfreeframes (boot_state 64 2 4) 2 \<noteq> -1"
    using seek_spec(2) [OF sample_boot(1), of 2 10] len unfolding fits_inuse sample_boot(3) by force
  then show ?thesis
    using kernel_pages_roundtrip [OF sample_cm_inv(1), of 2] sample_boot(3) unfolding sample_simps by auto
qed

text \<open>C14. A kernel allocation that finds no free frames but a user page to evict never returns:
  the eviction path keeps the index \<open>-1\<close> of the failed search, and after the victim has been
  written to the swap file the entry is set outside the page table.\<close>

theorem kernel_allocation_evicts_badly:
  assumes "vnode_ops_ok ops" "disk_ok ops" "cm_inv ops s" "exclusive ops {} s"
    and "getfreeframes (m_pt s) n = -1" "victims (m_pt s) \<noteq> []" "swap_room s"
  shows "getfreeppages ops s n = Inl OutOfBounds \<and> alloc_kpages ops s n = Inl OutOfBounds"
proof -
  obtain f where "firstvictim (m_pt s) = Some f"
    using assms(6) pt.head_None [OF cm_invD(3) [OF assms(3)]] by (auto simp: victim_def split: option.splits)
  then have "getfreeppages ops s n = Inl OutOfBounds" using getfreeppages_evict assms by blast
  then show ?thesis using cm_invD(1) [OF assms(3)] by (simp add: alloc_kpages_def getppages_def pt_can_sleep_def)
qed

theorem kernel_allocation_evicts_badly_witness: "alloc_kpages mem_ops full_machine 1 = Inl OutOfBounds"
  using kernel_allocation_evicts_badly [OF mem_ops_ok disk_ok_mem sample_cm_inv(2,4), of 1]
    sample_available(2) full_pt_inv(4) sample_simps by simp

section \<open>Swap file\<close>

text \<open>C15. A page written to the swap file and read back, into any frame, arrives unchanged,
  and the swap file then holds the same pages with the same contents as before.\<close>

theorem swap_roundtrip:
  assumes "swap_ready ops s" "swap_room s" "0 < pid" "swap_contents ops s (pid, v) = None"
  shows "\<exists>s1 s2. swapinpage ops s pid v p = Inr (0, s1) \<and>
    swap_contents ops s1 = (swap_contents ops s)((pid, v) \<mapsto> read_ram (ram s) (unat p) PAGE_SIZE) \<and>
    swapoutpage ops s1 pid v p' = Inr (0, s2) \<and> swap_ready ops s2 \<and> swap_contents ops s2 = swap_contents ops s \<and>
    ram s2 = write_ram (ram s) (unat p') (read_ram (ram s) (unat p) PAGE_SIZE)"
  using sw.put_get [OF assms, of p p'] sw.put_ok [OF assms, of p] by auto

theorem swap_roundtrip_witness:
  "\<exists>s1 s2. swapinpage mem_ops full_machine 5 0x400000 0x3f000 = Inr (0, s1) \<and>
     swapoutpage mem_ops s1 5 0x400000 0x5000 = Inr (0, s2) \<and> swap_contents mem_ops s2 = Map.empty"
proof -
  have "swap_ready mem_ops full_machine"
    using mem_ops_ok disk_ok_mem cm_invD(1,4) [OF sample_cm_inv(2)] by (simp add: swap_ready_def)
  moreover have "swap_contents mem_ops full_machine = Map.empty"
    using sample_swap(3) [of mem_ops full_pt] by (simp add: full_machine_def)
  ultimately show ?thesis
    using swap_roundtrip [of mem_ops full_machine 5 "0x400000" "0x3f000" "0x5000"] sample_simps(15) by auto
qed

text \<open>The capacity of the swap file is 2304 pages: a page is stored if and only if one of
  them is free; otherwise the kernel panics. Asking for a page that is not there is an error
  without effect.\<close>

theorem swap_capacity:
  assumes "swap_ready ops s" "0 < pid" "swap_contents ops s (pid, v) = None"
  shows "(if card (slots_used s) < 2304 then \<exists>s'. swapinpage ops s pid v p = Inr (0, s')
     else swapinpage ops s pid v p = Inl (Panic ''Swapfile has reached the maximum memory allowed'')) \<and>
    swapoutpage ops s pid v p = Inr (EADDRNOTAVAIL, s)"
proof -
  have sub: "slots_used s \<subseteq> {..<SWAPPAGES}" "held s = {}"
    using assms(1) by (auto simp: swap_ready_def slots_used_def)
  have full: "card (slots_used s) < SWAPPAGES \<longleftrightarrow> slots_used s \<noteq> {..<SWAPPAGES}"
    using card_mono [OF _ sub(1)] card_subset_eq [OF _ sub(1)] by fastforce
  have room: "swap_room s \<longleftrightarrow> slots_used s \<noteq> {..<SWAPPAGES}"
    using swap_freeslot_iff(1) [of s] by (simp add: swap_room_def)
  have n: "SWAPPAGES = 2304" by (rule SWAPPAGES_eq)
  show ?thesis
    using sw.put_ok [OF assms(1) _ assms(2,3), of p] sw.get_absent [OF assms, of p] swapinpage_full [OF sub(2), of ops pid v p]
      full room unfolding n by auto
qed

theorem swap_capacity_witness:
  "(\<exists>s'. swapinpage mem_ops full_machine 5 0x400000 0x3f000 = Inr (0, s')) \<and>
   swapoutpage mem_ops full_machine 5 0x400000 0x3f000 = Inr (EADDRNOTAVAIL, full_machine)"
proof -
  have "swap_ready mem_ops full_machine"
    using mem_ops_ok disk_ok_mem cm_invD(1,4) [OF sample_cm_inv(2)] by (simp add: swap_ready_def)
  moreover have "swap_contents mem_ops full_machine (5, 0x400000) = None" "slots_used full_machine = {}"
    using sample_swap(1) [where st = full_pt] sample_swap(3) [where st = full_pt] by (simp_all add: full_machine_def)
  ultimately show ?thesis using swap_capacity [of mem_ops full_machine 5 "0x400000" "0x3f000"] by simp
qed

section \<open>Address spaces\<close>

text \<open>C16. Destroying the address space of a process forgets its pages, in memory and in the
  swap file, and no page of any other process; the page table and the swap map keep their
  invariants and one reference to the executable is dropped.\<close>

theorem as_destroy_forgets:
  assumes "cm_inv ops s" "0 < pid" "seg1 as = Some sg" "seg2 as \<noteq> None" "segstack as \<noteq> None"
    and "\<forall>v. elfdata sg = Some v \<longrightarrow> 0 < vn_refcount s v"
  shows "\<exists>s'. as_destroy as pid s = Inr s' \<and> pt_inv (m_pt s') \<and> swap_inv ops s' \<and> held s' = {} \<and>
    (\<forall>k. page_contents ops s' k = (if fst k = pid then None else page_contents ops s k)) \<and>
    (\<forall>v. vn_refcount s' v = vn_refcount s v - (if elfdata sg = Some v then 1 else 0))"
  using as_destroy_ok [OF assms] by (auto split: option.splits)

theorem as_destroy_forgets_witness:
  "\<exists>s'. as_destroy (sample_as [1, 0]) 5 full_machine = Inr s' \<and> page_contents mem_ops s' (5, 0x400000) = None \<and>
     vn_refcount s' 1 = 0"
proof -
  have r: "vn_refcount full_machine 1 = 1" by (simp add: full_machine_def sample_machine_def)
  have sg: "seg1 (sample_as [1, 0]) = Some (sample_seg 0x400000 2 [1, 0] (Some 1) 0 False 5)"
    "seg2 (sample_as [1, 0]) \<noteq> None" "segstack (sample_as [1, 0]) \<noteq> None"
    "elfdata (sample_seg 0x400000 2 [1, 0] (Some 1) 0 False 5) = Some 1"
    by (simp_all add: sample_as_def sample_seg_def)
  have "\<forall>v. elfdata (sample_seg 0x400000 2 [1, 0] (Some 1) 0 False 5) = Some v \<longrightarrow> 0 < vn_refcount full_machine v"
    using r sg(4) by simp
  from as_destroy_forgets [OF sample_cm_inv(2) _ sg(1-3) this, of 5] show ?thesis using r sg(4) by auto
qed

text \<open>A region defined for \<open>memsize\<close> bytes at \<open>v\<close> below the kernel: the new segment starts at
  the page of \<open>v\<close>, covers every byte of the region and wastes less than a page at either end, and
  all its pages are marked not loaded. The first call fills \<open>seg1\<close>, the second \<open>seg2\<close>, a third is refused.\<close>

theorem as_define_region_covers:
  assumes "unat v + unat m \<le> 2 ^ 31" "held s = {}"
  shows "\<exists>sg. as_define_region True True as s v m off vn rd wr ex =
      Inr (if seg1 as = None then (0, as\<lparr>seg1 := Some sg\<rparr>)
           else if seg2 as = None then (0, as\<lparr>seg2 := Some sg\<rparr>) else (ENOSYS, as)) \<and>
    page_aligned (startaddr sg) \<and> unat (startaddr sg) \<le> unat v \<and> unat v < unat (startaddr sg) + PAGE_SIZE \<and>
    unat v + unat m \<le> unat (startaddr sg) + unat (numpages sg) * PAGE_SIZE \<and>
    unat (startaddr sg) + unat (numpages sg) * PAGE_SIZE < unat v + unat m + PAGE_SIZE \<and>
    elfdata sg = vn \<and> elfoffset sg = off \<and> \<not> stackseg sg \<and>
    loadedelf sg = Some (replicate (unat (numpages sg)) 0)"
proof -
  let ?sg = "new_region v m off vn rd wr ex"
  have "region_pages v m = (startaddr ?sg, numpages ?sg)" by (simp add: new_region_def)
  note p = region_pages_ok [OF this assms(1)]
  show ?thesis
    using p as_define_region_ok [OF assms(2)] by (intro exI [of _ ?sg]) (simp add: new_region_def)
qed

theorem as_define_region_covers_witness:
  "\<exists>sg. as_define_region True True \<lparr>seg1 = None, seg2 = None, segstack = None\<rparr> sample_machine 0x400100 0x1f00 0x100
      (Some 1) 4 0 1 = Inr (0, \<lparr>seg1 = Some sg, seg2 = None, segstack = None\<rparr>) \<and>
    unat (startaddr sg) \<le> 0x400100 \<and> 0x402000 \<le> unat (startaddr sg) + unat (numpages sg) * PAGE_SIZE"
  using as_define_region_covers [of "0x400100" "0x1f00" sample_machine "\<lparr>seg1 = None, seg2 = None, segstack = None\<rparr>"
      "0x100" "Some 1" 4 0 1] sample_simps(7) by auto

text \<open>C17. Copying an address space does not copy the memory: no page of the copy is marked as
  loaded, so every first touch by the child reads the executable or zeros again, and the
  executable's reference is shared without being counted. With one reference, after
  the copy is destroyed, destroying the original closes a vnode whose last reference is gone.\<close>

theorem as_copy_shares:
  assumes "seg1 old = Some a" "seg2 old = Some b" "segstack old = Some c" "elfdata a = Some vn"
    and "cm_inv ops s" "vn_refcount s vn = 1" "0 < pid'"
  shows "\<exists>new s1. as_copy True (\<lambda>_. True) old = Inr (0, Some new) \<and>
    (\<forall>nm sg. getseg new nm = Some sg \<longrightarrow> set (the (loadedelf sg)) \<subseteq> {0}) \<and>
    as_destroy new pid' s = Inr s1 \<and> as_destroy old pid s1 = Inl Kassert"
proof -
  let ?c = "\<lambda>sg. sg\<lparr>loadedelf := Some (replicate (unat (numpages sg)) 0)\<rparr>"
  let ?new = "\<lparr>seg1 = Some (?c a), seg2 = Some (?c b), segstack = Some (?c c)\<rparr>"
  have "\<forall>v. elfdata (?c a) = Some v \<longrightarrow> 0 < vn_refcount s v" using assms(4,6) by simp
  then obtain s1 where s1: "as_destroy ?new pid' s = Inr s1" "vn_refcount s1 vn = 0"
    using as_destroy_ok [OF assms(5,7), of ?new "?c a"] assms(4,6) by auto
  have "as_destroy old pid s1 = Inl Kassert"
    using assms(1,4) s1(2) by (simp add: as_destroy_def vfs_close_def vnode_decref_def)
  moreover have "set (the (loadedelf sg)) \<subseteq> {0}" if "getseg ?new nm = Some sg" for nm sg
    using that by (cases nm) auto
  ultimately show ?thesis using as_copy_ok [OF assms(1-3)] s1(1) by blast
qed

theorem as_copy_shares_witness:
  "\<exists>new s1. as_copy True (\<lambda>_. True) (sample_as [1, 0]) = Inr (0, Some new) \<and>
     as_destroy new 6 full_machine = Inr s1 \<and> as_destroy (sample_as [1, 0]) 5 s1 = Inl Kassert"
proof -
  obtain a b c where s: "seg1 (sample_as [1, 0]) = Some a" "seg2 (sample_as [1, 0]) = Some b"
    "segstack (sample_as [1, 0]) = Some c" "elfdata a = Some 1" by (simp add: sample_as_def sample_seg_def)
  have "vn_refcount full_machine 1 = 1" by (simp add: full_machine_def sample_machine_def)
  then show ?thesis using as_copy_shares [OF s sample_cm_inv(2), where pid' = 6 and pid = 5] by auto
qed

text \<open>Adjacent regions: if the second region starts where the first ends, its first page is
  filled with the bytes that follow the first region in the executable, because the test of
  \<^verbatim>\<open>readfromelfto\<close> counts the end address as part of the region.\<close>

theorem adjacent_region_misread:
  assumes "seg1 as = Some sg1" "seg2 as = Some sg2" "segstack as \<noteq> None" "held s = {}" "f < 2 ^ 20"
    and "startaddr sg2 = startaddr sg1 + numpages sg1 * word_of_nat PAGE_SIZE" "startaddr sg1 \<le> startaddr sg2"
    and "seg_bytes ops sg1 (startaddr sg2) s = Some bs"
  shows "readfromelfto ops as (startaddr sg2) (frame_paddr f) s =
    Inr (s\<lparr>ram := write_ram (ram s) (f * PAGE_SIZE) bs\<rparr>)"
proof -
  have "seg_reaches sg1 (startaddr sg2)" using assms(6,7) by (simp add: seg_reaches_def add.commute mult.commute)
  then have "elf_source as (startaddr sg2) = Some sg1" using assms(1-3) by (simp add: elf_source_def)
  then show ?thesis
    using readfromelfto_ok [of as s f "startaddr sg2" sg1 ops bs] assms unat_frame_paddr [OF assms(5)] by simp
qed

text \<open>In this file the data of the second region are the bytes 3; it is filled with 2.\<close>

theorem adjacent_region_misread_witness:
  "readfromelfto mem_ops
     \<lparr>seg1 = Some (sample_seg 0x400000 2 [0, 0] (Some 1) 0 False 5),
      seg2 = Some (sample_seg 0x402000 1 [0] (Some 1) 0x3000 False 6), segstack = seg1 (sample_as [0, 0])\<rparr>
     0x402000 (frame_paddr 10)
     (sample_machine\<lparr>files := \<lambda>_. replicate 8192 1 @ replicate 4096 2 @ replicate 4096 3\<rparr>) =
   Inr (sample_machine\<lparr>files := \<lambda>_. replicate 8192 1 @ replicate 4096 2 @ replicate 4096 3,
     ram := write_ram (ram sample_machine) (10 * PAGE_SIZE) (replicate 4096 2)\<rparr>)"
proof -
  let ?s = "sample_machine\<lparr>files := \<lambda>_. replicate 8192 1 @ replicate 4096 2 @ replicate 4096 3\<rparr>"
  have "seg_bytes mem_ops (sample_seg 0x400000 2 [0, 0] (Some 1) 0 False 5) 0x402000 ?s = Some (replicate 4096 2)"
    by (simp add: seg_bytes_def sample_seg_def mem_ops_def mem_read_def PAGE_SIZE_def)
  then show ?thesis
    using adjacent_region_misread [where s = ?s and f = 10 and ops = mem_ops and bs = "replicate 4096 2" and
        as = "\<lparr>seg1 = Some (sample_seg 0x400000 2 [0, 0] (Some 1) 0 False 5),
          seg2 = Some (sample_seg 0x402000 1 [0] (Some 1) 0x3000 False 6), segstack = seg1 (sample_as [0, 0])\<rparr>"
        and ?sg1.0 = "sample_seg 0x400000 2 [0, 0] (Some 1) 0 False 5"
        and ?sg2.0 = "sample_seg 0x402000 1 [0] (Some 1) 0x3000 False 6"]
    by (simp add: sample_simps sample_as_def sample_seg_def PAGE_SIZE_def)
qed

section \<open>Out of memory\<close>

text \<open>C18. When no frame is free and none can be evicted, \<^verbatim>\<open>allocuserpage\<close> returns 0, and the
  fault handler takes it for a frame: the first touch of a stack page clears physical frame 0,
  which holds kernel code, maps it to the process and reports success.\<close>

theorem out_of_memory_maps_frame_0:
  assumes vi: "vm_inv ops pid as s" and ft: "ft = VM_FAULT_READ \<or> ft = VM_FAULT_WRITE"
    and seg: "vm_seg_of (the (seg1 as)) (the (seg2 as)) (fa AND PAGE_FRAME) = Some (Segstack, i)"
    and miss: "tlb_map (m_tlb s) (fa AND PAGE_FRAME) = None"
    and new: "page_contents ops s (pid, fa AND PAGE_FRAME) = None"
    and full: "getfreeframes (m_pt s) 1 = -1" "victims (m_pt s) = []"
  shows "\<exists>as' s' w. vm_fault ops ft fa (Some pid) (Some as) s = Inr (VmReturn 0, Some as', s') \<and>
    m_pt s' = m_pt s \<and> resident (m_pt s') (pid, fa AND PAGE_FRAME) = None \<and>
    frame (ram s') 0 = replicate PAGE_SIZE 0 \<and> tlb_map (m_tlb s') (fa AND PAGE_FRAME) = Some (tlb_lo 0 w)"
proof -
  let ?v = "fa AND PAGE_FRAME" and ?s = "incr TLBFAULT s"
  note V = vm_invD [OF vi] and I = cm_invD [OF vm_invD(1) [OF vi]]
  have segs: "seg1 as = Some (the (seg1 as))" "seg2 as = Some (the (seg2 as))" using as_wf_segs [OF V(3)] by auto
  obtain sg where sg: "getseg as Segstack = Some sg" "seg_wf sg" "stackseg sg" "i < unat (numpages sg)" "page_of sg i = ?v"
    using vm_seg_of_Some [OF V(3) segs page_aligned_mask seg] by metis
  have none: "resident (m_pt s) k = None" for k
    using victims_resident(2) [OF I(3)] full(2) by (metis empty_iff list.set(1) not_None_eq)
  have fv: "firstvictim (m_pt s) = None" using pt.head_None [OF I(3)] full(2) by (simp add: victim_def)
  have pa: "pageaddr ?s pid ?v = Inr (0, ?s)" using pageaddr_0_iff [of ops ?s pid ?v] V(1) none by simp
  have al: "allocuserpage ops ?s pid ?v = Inr (0, ?s)" using allocuserpage_nomem [of ops ?s] V(1) full(1) fv by simp
  let ?s3 = "incr PAGEFAULTZERO (as_zero_region 0 PAGE_SIZE ?s)"
  have "the (loadedelf sg) ! i \<noteq> 1" using V(4) [unfolded loaded_ok_def, rule_format, OF sg(1,4)] sg(5) new by simp
  then have fill: "vm_fill ops as pid Segstack sg i ?v 0 ?s = Inr (putseg as Segstack (seg_loaded sg i), ?s3)"
    using seg_flagD(1,2) [OF sg(2,4)] sg(3) by (auto simp: vm_fill_def)
  have v: "?v < MIPS_KSEG0" "?v AND TLBHI_VPAGE = ?v"
    using user_page_bounds [OF unat_page_of(4) [OF sg(2,4)]] sg(5) by simp_all
  obtain t where t: "vmtlb_write (m_tlb ?s3) (m_stats ?s3) pid ?v 0 (seg_writable sg) =
      Inr (t, vmstatincr (m_stats ?s3) (tlb_fill_stat (m_tlb s)))" "tlb_map t ?v = Some (tlb_lo 0 (seg_writable sg))"
    using vmtlb_write_ok [OF I(5) v(1), of "m_stats ?s3" pid 0 "seg_writable sg"] miss v(2)
    by (auto simp: as_zero_region_def)
  have "frame (ram ?s3) 0 = replicate PAGE_SIZE 0"
    using frame_write_ram [of "replicate PAGE_SIZE 0" "ram s" 0 0] by (simp add: as_zero_region_def frame_def)
  then show ?thesis
    unfolding vm_fault_unfold [OF V(3) ft seg sg(1)] using pa al fill t none
    by (auto simp: vm_tlb_entry_def as_zero_region_def)
qed

theorem out_of_memory_maps_frame_0_witness:
  "\<exists>as' s' w. vm_fault mem_ops VM_FAULT_WRITE 0x7ffffffc (Some 5) (Some (sample_as [0, 0])) packed_machine =
     Inr (VmReturn 0, Some as', s') \<and> frame (ram s') 0 = replicate PAGE_SIZE 0 \<and>
   tlb_map (m_tlb s') 0x7ffff000 = Some (tlb_lo 0 w)"
proof -
  have v: "(0x7ffffffc AND PAGE_FRAME :: u32) = 0x7ffff000" by (simp add: PAGE_FRAME_def)
  show ?thesis
    using out_of_memory_maps_frame_0 [OF packed_inv(1) disjI2 [OF refl] sample_seg_of(2)] packed_inv(2-)
    unfolding v by fastforce
qed

end
