(* ===== verification/Threadlist.thy ===== *)
theory Threadlist
  imports Prelude
begin

text \<open>
  Doubly linked lists of threads with bookends (\<^verbatim>\<open>kern/thread/threadlist.c\<close>). The nodes of all lists
  live in one store: the two bookends of every list and the list node inside every thread, so that
  an operation on one list could in principle damage another. The contract is that of a family of
  disjoint sequences of threads.
\<close>

type_synonym thread = nat

text \<open>The lists of the kernel: the run queue and the zombies of each processor, wait channels, and
  local lists of functions.\<close>

datatype listid = RunQ nat | Zombies nat | Wchan nat | Local nat

datatype tln = Head listid | Tail listid | Listnode thread

record tlstore =
  tln_prev :: "tln \<Rightarrow> tln option"
  tln_next :: "tln \<Rightarrow> tln option"
  tln_self :: "tln \<Rightarrow> thread option"
  tl_count :: "listid \<Rightarrow> u32"

definition set_prev :: "tlstore \<Rightarrow> tln \<Rightarrow> tln option \<Rightarrow> tlstore" where
  "set_prev st n p = st\<lparr>tln_prev := (tln_prev st)(n := p)\<rparr>"

definition set_next :: "tlstore \<Rightarrow> tln \<Rightarrow> tln option \<Rightarrow> tlstore" where
  "set_next st n p = st\<lparr>tln_next := (tln_next st)(n := p)\<rparr>"

definition set_self :: "tlstore \<Rightarrow> tln \<Rightarrow> thread option \<Rightarrow> tlstore" where
  "set_self st n t = st\<lparr>tln_self := (tln_self st)(n := t)\<rparr>"

definition add_count :: "tlstore \<Rightarrow> listid \<Rightarrow> u32 \<Rightarrow> tlstore" where
  "add_count st l d = st\<lparr>tl_count := (tl_count st)(l := tl_count st l + d)\<rparr>"

definition threadlistnode_init :: "tlstore \<Rightarrow> thread option \<Rightarrow> tlstore res" where
  "threadlistnode_init st t0 =
     (case t0 of None \<Rightarrow> Inl Kassert
      | Some t \<Rightarrow> Inr (set_self (set_prev (set_next st (Listnode t) None) (Listnode t) None) (Listnode t) (Some t)))"

definition threadlistnode_cleanup :: "tlstore \<Rightarrow> thread \<Rightarrow> unit res" where
  "threadlistnode_cleanup st t =
     (if tln_next st (Listnode t) \<noteq> None then Inl Kassert
      else if tln_prev st (Listnode t) \<noteq> None then Inl Kassert
      else if tln_self st (Listnode t) = None then Inl Kassert else Inr ())"

definition threadlist_init :: "tlstore \<Rightarrow> listid \<Rightarrow> tlstore" where
  "threadlist_init st l =
     (let st = set_next st (Head l) (Some (Tail l));
          st = set_prev st (Head l) None;
          st = set_next st (Tail l) None;
          st = set_prev st (Tail l) (Some (Head l));
          st = set_self st (Head l) None;
          st = set_self st (Tail l) None
      in st\<lparr>tl_count := (tl_count st)(l := 0)\<rparr>)"

definition threadlist_isempty :: "tlstore \<Rightarrow> listid \<Rightarrow> bool" where
  "threadlist_isempty st l \<longleftrightarrow> tl_count st l = 0"

definition threadlist_cleanup :: "tlstore \<Rightarrow> listid \<Rightarrow> unit res" where
  "threadlist_cleanup st l =
     (if \<not> threadlist_isempty st l then Inl Kassert
      else if tl_count st l \<noteq> 0 then Inl Kassert else Inr ())"

text \<open>\<open>x->tln_prev->tln_next = y\<close> and \<open>x->tln_next->tln_prev = y\<close>.\<close>

definition prev_set_next :: "tlstore \<Rightarrow> tln \<Rightarrow> tln option \<Rightarrow> tlstore res" where
  "prev_set_next st x y = (case tln_prev st x of None \<Rightarrow> Inl NullDeref | Some p \<Rightarrow> Inr (set_next st p y))"

definition next_set_prev :: "tlstore \<Rightarrow> tln \<Rightarrow> tln option \<Rightarrow> tlstore res" where
  "next_set_prev st x y = (case tln_next st x of None \<Rightarrow> Inl NullDeref | Some n \<Rightarrow> Inr (set_prev st n y))"

definition threadlist_insertafternode :: "tlstore \<Rightarrow> tln \<Rightarrow> thread \<Rightarrow> tlstore res" where
  "threadlist_insertafternode st onlist t =
     (let addee = Listnode t;
          st = set_prev st addee (Some onlist);
          st = set_next st addee (tln_next st onlist)
      in bindR (prev_set_next st addee (Some addee)) (\<lambda>st.
         next_set_prev st addee (Some addee)))"

definition threadlist_insertbeforenode :: "tlstore \<Rightarrow> thread \<Rightarrow> tln \<Rightarrow> tlstore res" where
  "threadlist_insertbeforenode st t onlist =
     (let addee = Listnode t;
          st = set_prev st addee (tln_prev st onlist);
          st = set_next st addee (Some onlist)
      in bindR (prev_set_next st addee (Some addee)) (\<lambda>st.
         next_set_prev st addee (Some addee)))"

definition threadlist_removenode :: "tlstore \<Rightarrow> tln \<Rightarrow> tlstore res" where
  "threadlist_removenode st x =
     bindR (prev_set_next st x (tln_next st x)) (\<lambda>st.
     bindR (next_set_prev st x (tln_prev st x)) (\<lambda>st.
     Inr (set_next (set_prev st x None) x None)))"

definition threadlist_addhead :: "tlstore \<Rightarrow> listid \<Rightarrow> thread \<Rightarrow> tlstore res" where
  "threadlist_addhead st l t =
     bindR (threadlist_insertafternode st (Head l) t) (\<lambda>st. Inr (add_count st l 1))"

definition threadlist_addtail :: "tlstore \<Rightarrow> listid \<Rightarrow> thread \<Rightarrow> tlstore res" where
  "threadlist_addtail st l t =
     bindR (threadlist_insertbeforenode st t (Tail l)) (\<lambda>st. Inr (add_count st l 1))"

definition threadlist_remhead :: "tlstore \<Rightarrow> listid \<Rightarrow> (thread option \<times> tlstore) res" where
  "threadlist_remhead st l =
     (case tln_next st (Head l) of
        None \<Rightarrow> Inl NullDeref
      | Some x \<Rightarrow>
          if tln_next st x = None then Inr (None, st)
          else bindR (threadlist_removenode st x) (\<lambda>st. Inr (tln_self st x, add_count st l (-1))))"

definition threadlist_remtail :: "tlstore \<Rightarrow> listid \<Rightarrow> (thread option \<times> tlstore) res" where
  "threadlist_remtail st l =
     (case tln_prev st (Tail l) of
        None \<Rightarrow> Inl NullDeref
      | Some x \<Rightarrow>
          if tln_prev st x = None then Inr (None, st)
          else bindR (threadlist_removenode st x) (\<lambda>st. Inr (tln_self st x, add_count st l (-1))))"

definition threadlist_insertafter :: "tlstore \<Rightarrow> listid \<Rightarrow> thread \<Rightarrow> thread \<Rightarrow> tlstore res" where
  "threadlist_insertafter st l onlist addee =
     bindR (threadlist_insertafternode st (Listnode onlist) addee) (\<lambda>st. Inr (add_count st l 1))"

definition threadlist_insertbefore :: "tlstore \<Rightarrow> listid \<Rightarrow> thread \<Rightarrow> thread \<Rightarrow> tlstore res" where
  "threadlist_insertbefore st l addee onlist =
     bindR (threadlist_insertbeforenode st addee (Listnode onlist)) (\<lambda>st. Inr (add_count st l 1))"

definition threadlist_remove :: "tlstore \<Rightarrow> listid \<Rightarrow> thread \<Rightarrow> tlstore res" where
  "threadlist_remove st l t =
     bindR (threadlist_removenode st (Listnode t)) (\<lambda>st. Inr (add_count st l (-1)))"

section \<open>Linked sequences of nodes\<close>

fun dll :: "tlstore \<Rightarrow> tln list \<Rightarrow> bool" where
  "dll st (x # y # zs) \<longleftrightarrow> tln_next st x = Some y \<and> tln_prev st y = Some x \<and> dll st (y # zs)"
| "dll st _ \<longleftrightarrow> True"

lemma dll_append: "dll st (xs @ a # ys) \<longleftrightarrow> dll st (xs @ [a]) \<and> dll st (a # ys)"
  by (induction st xs rule: dll.induct) (auto simp: neq_Nil_conv intro: list.exhaust)

lemma dll_frame:
  "\<forall>x \<in> set (butlast xs). tln_next st' x = tln_next st x \<Longrightarrow>
   \<forall>x \<in> set (tl xs). tln_prev st' x = tln_prev st x \<Longrightarrow> dll st' xs = dll st xs"
  by (induction st xs rule: dll.induct) auto

definition nodes :: "listid \<Rightarrow> thread list \<Rightarrow> tln list" where
  "nodes l ts = Head l # map Listnode ts @ [Tail l]"

text \<open>A list holds the threads \<open>ts\<close>.\<close>

definition is_list :: "tlstore \<Rightarrow> listid \<Rightarrow> thread list \<Rightarrow> bool" where
  "is_list st l ts \<longleftrightarrow> dll st (nodes l ts) \<and> distinct ts \<and> tln_prev st (Head l) = None \<and> tln_next st (Tail l) = None \<and>
     (\<forall>t \<in> set ts. tln_self st (Listnode t) = Some t) \<and> tl_count st l = word_of_nat (length ts)"

text \<open>
  The whole store: the lists in \<open>D\<close> hold the sequences \<open>L\<close> of threads in \<open>T\<close>, no thread is on two of
  them, and a thread on none of them has clear links.
\<close>

definition tl_rep :: "tlstore \<Rightarrow> listid set \<Rightarrow> thread set \<Rightarrow> (listid \<Rightarrow> thread list) \<Rightarrow> bool" where
  "tl_rep st D T L \<longleftrightarrow> finite T \<and> card T < 2 ^ 32 \<and> (\<forall>l \<in> D. is_list st l (L l) \<and> set (L l) \<subseteq> T) \<and>
     (\<forall>l \<in> D. \<forall>l' \<in> D. l \<noteq> l' \<longrightarrow> set (L l) \<inter> set (L l') = {}) \<and>
     (\<forall>t \<in> T. tln_self st (Listnode t) = Some t) \<and>
     (\<forall>t \<in> T. (\<forall>l \<in> D. t \<notin> set (L l)) \<longrightarrow> tln_prev st (Listnode t) = None \<and> tln_next st (Listnode t) = None)"

lemma nodes_simps [simp]: "set (nodes l ts) = {Head l, Tail l} \<union> Listnode ` set ts"
  "distinct (nodes l ts) \<longleftrightarrow> distinct ts"
  by (auto simp: nodes_def distinct_map inj_on_def)

lemma store_simps [simp]:
  "tln_prev (set_prev st n p) = (tln_prev st)(n := p)" "tln_next (set_prev st n p) = tln_next st"
  "tln_self (set_prev st n p) = tln_self st" "tl_count (set_prev st n p) = tl_count st"
  "tln_next (set_next st n p) = (tln_next st)(n := p)" "tln_prev (set_next st n p) = tln_prev st"
  "tln_self (set_next st n p) = tln_self st" "tl_count (set_next st n p) = tl_count st"
  "tln_prev (add_count st l d) = tln_prev st" "tln_next (add_count st l d) = tln_next st"
  "tln_self (add_count st l d) = tln_self st" "tl_count (add_count st l d) = (tl_count st)(l := tl_count st l + d)"
  by (simp_all add: set_prev_def set_next_def add_count_def)

text \<open>Linking a node in between two neighbours.\<close>

definition link_between :: "tlstore \<Rightarrow> tln \<Rightarrow> tln \<Rightarrow> tln \<Rightarrow> tlstore" where
  "link_between st a x b = set_prev (set_next (set_next (set_prev st x (Some a)) x (Some b)) a (Some x)) b (Some x)"

definition unlink_between :: "tlstore \<Rightarrow> tln \<Rightarrow> tln \<Rightarrow> tln \<Rightarrow> tlstore" where
  "unlink_between st a x b = set_next (set_prev (set_prev (set_next st a (Some b)) b (Some a)) x None) x None"

lemma insertafternode_eq:
  "tln_next st a = Some b \<Longrightarrow> a \<noteq> Listnode t \<Longrightarrow>
   threadlist_insertafternode st a t = Inr (link_between st a (Listnode t) b)"
  by (simp add: threadlist_insertafternode_def prev_set_next_def next_set_prev_def link_between_def Let_def)

lemma insertbeforenode_eq:
  "tln_prev st b = Some a \<Longrightarrow> b \<noteq> Listnode t \<Longrightarrow> a \<noteq> Listnode t \<Longrightarrow>
   threadlist_insertbeforenode st t b = Inr (link_between st a (Listnode t) b)"
  by (simp add: threadlist_insertbeforenode_def prev_set_next_def next_set_prev_def link_between_def Let_def)

lemma removenode_eq:
  "tln_prev st x = Some a \<Longrightarrow> tln_next st x = Some b \<Longrightarrow> a \<noteq> x \<Longrightarrow> b \<noteq> x \<Longrightarrow>
   threadlist_removenode st x = Inr (unlink_between st a x b)"
  by (simp add: threadlist_removenode_def prev_set_next_def next_set_prev_def unlink_between_def)

lemma in_set_tlD: "x \<in> set (tl xs) \<Longrightarrow> x \<in> set xs"
  by (cases xs) auto

lemma dll_link:
  assumes "dll st (xs @ a # b # ys)" "distinct (xs @ a # b # ys)" "x \<notin> set (xs @ a # b # ys)"
  shows "dll (link_between st a x b) (xs @ a # x # b # ys)"
proof -
  let ?s = "link_between st a x b"
  have d: "dll st (xs @ [a])" "dll st (b # ys)" using assms(1) dll_append [of st xs a "b # ys"] by auto
  have "dll ?s (xs @ [a]) = dll st (xs @ [a])"
    by (rule dll_frame) (use assms(2,3) in \<open>auto simp: link_between_def butlast_append dest: in_set_tlD split: if_splits\<close>)
  moreover have "dll ?s (b # ys) = dll st (b # ys)"
    by (rule dll_frame) (use assms(2,3) in \<open>auto simp: link_between_def dest: in_set_butlastD split: if_splits\<close>)
  ultimately show ?thesis
    using d dll_append [of ?s xs a "x # b # ys"] assms(2,3) by (auto simp: link_between_def)
qed

lemma dll_unlink:
  assumes "dll st (xs @ a # x # b # ys)" "distinct (xs @ a # x # b # ys)"
  shows "dll (unlink_between st a x b) (xs @ a # b # ys)"
proof -
  let ?s = "unlink_between st a x b"
  have d: "dll st (xs @ [a])" "dll st (b # ys)" using assms(1) dll_append [of st xs a "x # b # ys"] by auto
  have "dll ?s (xs @ [a]) = dll st (xs @ [a])"
    by (rule dll_frame) (use assms(2) in \<open>auto simp: unlink_between_def butlast_append dest: in_set_tlD split: if_splits\<close>)
  moreover have "dll ?s (b # ys) = dll st (b # ys)"
    by (rule dll_frame) (use assms(2) in \<open>auto simp: unlink_between_def dest: in_set_butlastD split: if_splits\<close>)
  ultimately show ?thesis
    using d dll_append [of ?s xs a "b # ys"] assms(2) by (auto simp: unlink_between_def)
qed

section \<open>Operations on the store\<close>

lemma tl_repD:
  assumes "tl_rep st D T L"
  shows "l \<in> D \<Longrightarrow> is_list st l (L l)" "l \<in> D \<Longrightarrow> set (L l) \<subseteq> T"
    "l \<in> D \<Longrightarrow> l' \<in> D \<Longrightarrow> l \<noteq> l' \<Longrightarrow> set (L l) \<inter> set (L l') = {}"
    "t \<in> T \<Longrightarrow> tln_self st (Listnode t) = Some t"
    "t \<in> T \<Longrightarrow> (\<And>l. l \<in> D \<Longrightarrow> t \<notin> set (L l)) \<Longrightarrow> tln_prev st (Listnode t) = None \<and> tln_next st (Listnode t) = None"
    "finite T" "card T < 2 ^ 32"
  using assms unfolding tl_rep_def by blast+

lemma is_list_frame:
  assumes "\<forall>n \<in> set (nodes l ts). tln_next st' n = tln_next st n \<and> tln_prev st' n = tln_prev st n \<and> tln_self st' n = tln_self st n"
    "tl_count st' l = tl_count st l"
  shows "is_list st' l ts = is_list st l ts"
proof -
  have "dll st' (nodes l ts) = dll st (nodes l ts)"
    by (rule dll_frame) (use assms(1) in \<open>blast dest: in_set_butlastD in_set_tlD\<close>)+
  then show ?thesis using assms by (auto simp: is_list_def)
qed

text \<open>The neighbours of a position in a list.\<close>

definition before :: "listid \<Rightarrow> thread list \<Rightarrow> tln" where
  "before l us = last (Head l # map Listnode us)"

definition after :: "listid \<Rightarrow> thread list \<Rightarrow> tln" where
  "after l vs = hd (map Listnode vs @ [Tail l])"

lemma nodes_split:
  "nodes l (us @ vs) = butlast (Head l # map Listnode us) @ before l us # after l vs # tl (map Listnode vs @ [Tail l])"
proof -
  have "Head l # map Listnode us = butlast (Head l # map Listnode us) @ [before l us]"
    by (simp add: before_def flip: append_butlast_last_id)
  moreover have "map Listnode vs @ [Tail l] = after l vs # tl (map Listnode vs @ [Tail l])"
    by (simp add: after_def)
  ultimately show ?thesis unfolding nodes_def by (metis append.assoc append_Cons append_Nil map_append)
qed

lemma nodes_split_mid:
  "nodes l (us @ t # vs) =
   butlast (Head l # map Listnode us) @ before l us # Listnode t # after l vs # tl (map Listnode vs @ [Tail l])"
proof -
  have "nodes l (us @ t # vs) = (Head l # map Listnode us) @ Listnode t # (map Listnode vs @ [Tail l])"
    by (simp add: nodes_def)
  also have "Head l # map Listnode us = butlast (Head l # map Listnode us) @ [before l us]"
    by (simp add: before_def flip: append_butlast_last_id)
  also have "map Listnode vs @ [Tail l] = after l vs # tl (map Listnode vs @ [Tail l])"
    by (simp add: after_def)
  finally show ?thesis by simp
qed

lemma before_after_in: "before l us \<in> set (nodes l (us @ vs))" "after l vs \<in> set (nodes l (us @ vs))"
  unfolding nodes_split by simp_all

lemma neighbours:
  assumes "dll st (nodes l (us @ vs))"
  shows "tln_next st (before l us) = Some (after l vs)" "tln_prev st (after l vs) = Some (before l us)"
proof -
  have "dll st (before l us # after l vs # tl (map Listnode vs @ [Tail l]))"
    using assms dll_append unfolding nodes_split by blast
  then show "tln_next st (before l us) = Some (after l vs)" "tln_prev st (after l vs) = Some (before l us)" by simp_all
qed

lemma neighbours_mid:
  assumes "dll st (nodes l (us @ t # vs))"
  shows "tln_prev st (Listnode t) = Some (before l us)" "tln_next st (Listnode t) = Some (after l vs)"
proof -
  have "dll st (before l us # Listnode t # after l vs # tl (map Listnode vs @ [Tail l]))"
    using assms dll_append unfolding nodes_split_mid by blast
  then show "tln_prev st (Listnode t) = Some (before l us)" "tln_next st (Listnode t) = Some (after l vs)" by simp_all
qed

lemma before_not_tail: "Tail l' \<noteq> before l us"
  by (cases us rule: rev_cases) (auto simp: before_def)

lemma after_not_head: "Head l' \<noteq> after l vs"
  by (cases vs) (auto simp: after_def)

text \<open>A change confined to one list.\<close>

lemma rep_upd:
  assumes rep: "tl_rep st D T L" and l: "l \<in> D" and new: "is_list st' l ts" "set ts \<subseteq> T"
    and disj: "\<forall>l' \<in> D. l' \<noteq> l \<longrightarrow> set ts \<inter> set (L l') = {}"
    and frame: "\<forall>n. n \<notin> set (nodes l (L l)) \<union> set (nodes l ts) \<longrightarrow> tln_prev st' n = tln_prev st n \<and> tln_next st' n = tln_next st n"
    and self: "tln_self st' = tln_self st" and count: "\<forall>l'. l' \<noteq> l \<longrightarrow> tl_count st' l' = tl_count st l'"
    and clear: "\<forall>t \<in> set (L l) - set ts. tln_prev st' (Listnode t) = None \<and> tln_next st' (Listnode t) = None"
  shows "tl_rep st' D T (L(l := ts))"
proof -
  note R = tl_repD [OF rep]
  have other: "is_list st' l' (L l')" if "l' \<in> D" "l' \<noteq> l" for l'
  proof -
    have "set (L l') \<inter> set (L l) = {}" "set (L l') \<inter> set ts = {}" using R(3) [OF that(1) l that(2)] disj that by auto
    then have "set (nodes l' (L l')) \<inter> (set (nodes l (L l)) \<union> set (nodes l ts)) = {}" using that(2) by auto
    then have "\<forall>n \<in> set (nodes l' (L l')). tln_prev st' n = tln_prev st n \<and> tln_next st' n = tln_next st n"
      using frame by blast
    then have "is_list st' l' (L l') = is_list st l' (L l')"
      using self count that(2) by (intro is_list_frame) (auto simp del: nodes_simps)
    then show ?thesis using R(1) [OF that(1)] by simp
  qed
  have free: "tln_prev st' (Listnode u) = None \<and> tln_next st' (Listnode u) = None"
    if u: "u \<in> T" "\<forall>l' \<in> D. u \<notin> set ((L(l := ts)) l')" for u
  proof (cases "u \<in> set (L l)")
    case True
    then show ?thesis using clear u(2) l by fastforce
  next
    case False
    have "u \<notin> set ts" using u(2) l by (metis fun_upd_same)
    moreover have "u \<notin> set (L l')" if "l' \<in> D" for l' using u(2) that False by (cases "l' = l") auto
    ultimately show ?thesis using frame [rule_format, of "Listnode u"] False R(5) [OF u(1)] by auto
  qed
  show ?thesis
    unfolding tl_rep_def
  proof (intro conjI ballI impI)
    fix l1 l2 assume "l1 \<in> D" "l2 \<in> D" "l1 \<noteq> l2"
    then show "set ((L(l := ts)) l1) \<inter> set ((L(l := ts)) l2) = {}" using R(3) [of l1 l2] disj by auto
  next
    fix l' assume "l' \<in> D"
    then show "is_list st' l' ((L(l := ts)) l')" "set ((L(l := ts)) l') \<subseteq> T" using new other R(2) [of l'] by auto
  qed (use free R(4,6,7) self in \<open>auto simp: fun_upd_def\<close>)
qed

text \<open>Inserting a thread that is on no list, between two neighbours on list \<open>l\<close>.\<close>

lemma insert_rep:
  assumes rep: "tl_rep st D T L" and l: "l \<in> D" "L l = us @ vs" and t: "t \<in> T" "\<forall>l \<in> D. t \<notin> set (L l)"
  shows "tl_rep (add_count (link_between st (before l us) (Listnode t) (after l vs)) l 1) D T (L(l := us @ t # vs))"
proof -
  let ?a = "before l us" and ?b = "after l vs" and ?x = "Listnode t"
  let ?s = "add_count (link_between st ?a ?x ?b) l 1"
  note R = tl_repD [OF rep]
  note I = R(1) [OF l(1), unfolded l(2) is_list_def]
  have nt: "t \<notin> set (us @ vs)" using t(2) l by metis
  have ab: "?a \<in> set (nodes l (L l))" "?b \<in> set (nodes l (L l))" unfolding l(2) by (rule before_after_in)+
  have "dll st (nodes l (us @ vs))" "distinct (nodes l (us @ vs))" "?x \<notin> set (nodes l (us @ vs))" using I nt by auto
  then have "dll (link_between st ?a ?x ?b) (nodes l (us @ t # vs))"
    unfolding nodes_split_mid unfolding nodes_split by (rule dll_link)
  moreover have "dll ?s (nodes l (us @ t # vs)) = dll (link_between st ?a ?x ?b) (nodes l (us @ t # vs))"
    by (rule dll_frame) simp_all
  ultimately have "is_list ?s l (us @ t # vs)"
    using I nt R(4) [OF t(1)] after_not_head [of l l vs] before_not_tail [of l l us]
    by (auto simp: is_list_def link_between_def)
  then show ?thesis
    using R(2) [OF l(1)] R(3) [OF _ l(1)] t ab l(2)
    by (intro rep_upd [OF rep l(1)]) (auto simp: link_between_def)
qed

lemma remove_rep:
  assumes rep: "tl_rep st D T L" and l: "l \<in> D" "L l = us @ t # vs"
  shows "tl_rep (add_count (unlink_between st (before l us) (Listnode t) (after l vs)) l (-1)) D T (L(l := us @ vs))"
proof -
  let ?a = "before l us" and ?b = "after l vs" and ?x = "Listnode t"
  let ?s = "add_count (unlink_between st ?a ?x ?b) l (-1)"
  note R = tl_repD [OF rep]
  note I = R(1) [OF l(1), unfolded l(2) is_list_def]
  have ab: "?a \<in> set (nodes l (us @ vs))" "?b \<in> set (nodes l (us @ vs))" by (rule before_after_in)+
  have "dll st (nodes l (us @ t # vs))" "distinct (nodes l (us @ t # vs))" using I by auto
  then have "dll (unlink_between st ?a ?x ?b) (nodes l (us @ vs))"
    unfolding nodes_split_mid unfolding nodes_split by (rule dll_unlink)
  moreover have "dll ?s (nodes l (us @ vs)) = dll (unlink_between st ?a ?x ?b) (nodes l (us @ vs))"
    by (rule dll_frame) simp_all
  ultimately have "is_list ?s l (us @ vs)"
    using I after_not_head [of l l vs] before_not_tail [of l l us] by (auto simp: is_list_def unlink_between_def)
  then show ?thesis
    using R(2) [OF l(1)] R(3) [OF _ l(1)] ab l(2)
    by (intro rep_upd [OF rep l(1)]) (auto simp: unlink_between_def)
qed

lemma ends [simp]: "before l [] = Head l" "after l [] = Tail l" "before l (us @ [u]) = Listnode u" "after l (v # vs) = Listnode v"
  by (simp_all add: before_def after_def)

lemma before_not_new: "t \<notin> set us \<Longrightarrow> before l us \<noteq> Listnode t"
  by (cases us rule: rev_cases) auto

lemma after_not_new: "t \<notin> set vs \<Longrightarrow> after l vs \<noteq> Listnode t"
  by (cases vs) auto

lemma list_nodes: "tl_rep st D T L \<Longrightarrow> l \<in> D \<Longrightarrow> dll st (nodes l (L l)) \<and> distinct (L l)"
  by (auto dest: tl_repD(1) simp: is_list_def)

lemma threadlist_addtail_ok:
  assumes rep: "tl_rep st D T L" and l: "l \<in> D" and t: "t \<in> T" "\<forall>l \<in> D. t \<notin> set (L l)"
  shows "\<exists>st'. threadlist_addtail st l t = Inr st' \<and> tl_rep st' D T (L(l := L l @ [t]))"
proof -
  have "tln_prev st (Tail l) = Some (before l (L l))"
    using neighbours(2) [of st l "L l" "[]"] list_nodes [OF rep l] by simp
  moreover have "before l (L l) \<noteq> Listnode t" using t(2) l by (intro before_not_new) blast
  ultimately show ?thesis
    using insert_rep [OF rep l _ t, of "L l" "[]"] by (simp add: threadlist_addtail_def insertbeforenode_eq)
qed

lemma threadlist_addhead_ok:
  assumes rep: "tl_rep st D T L" and l: "l \<in> D" and t: "t \<in> T" "\<forall>l \<in> D. t \<notin> set (L l)"
  shows "\<exists>st'. threadlist_addhead st l t = Inr st' \<and> tl_rep st' D T (L(l := t # L l))"
proof -
  have "tln_next st (Head l) = Some (after l (L l))"
    using neighbours(1) [of st l "[]" "L l"] list_nodes [OF rep l] by simp
  then show ?thesis
    using insert_rep [OF rep l _ t, of "[]" "L l"] by (simp add: threadlist_addhead_def insertafternode_eq)
qed

lemma threadlist_insertafter_ok:
  assumes rep: "tl_rep st D T L" and l: "l \<in> D" "L l = us @ u # vs" and t: "t \<in> T" "\<forall>l \<in> D. t \<notin> set (L l)"
  shows "\<exists>st'. threadlist_insertafter st l u t = Inr st' \<and> tl_rep st' D T (L(l := us @ u # t # vs))"
proof -
  have s: "L l = (us @ [u]) @ vs" using l(2) by simp
  have "tln_next st (Listnode u) = Some (after l vs)"
    using neighbours(1) [of st l "us @ [u]" vs] list_nodes [OF rep l(1)] s by simp
  moreover have "u \<noteq> t" using t(2) l by (metis in_set_conv_decomp)
  ultimately show ?thesis
    using insert_rep [OF rep l(1) s t] by (simp add: threadlist_insertafter_def insertafternode_eq)
qed

lemma threadlist_insertbefore_ok:
  assumes rep: "tl_rep st D T L" and l: "l \<in> D" "L l = us @ u # vs" and t: "t \<in> T" "\<forall>l \<in> D. t \<notin> set (L l)"
  shows "\<exists>st'. threadlist_insertbefore st l t u = Inr st' \<and> tl_rep st' D T (L(l := us @ t # u # vs))"
proof -
  have "tln_prev st (Listnode u) = Some (before l us)"
    using neighbours(2) [of st l us "u # vs"] list_nodes [OF rep l(1)] l(2) by simp
  moreover have "u \<noteq> t" "before l us \<noteq> Listnode t" using t(2) l by (auto intro!: before_not_new)
  ultimately show ?thesis
    using insert_rep [OF rep l t] by (simp add: threadlist_insertbefore_def insertbeforenode_eq)
qed

lemma removenode_rep:
  assumes rep: "tl_rep st D T L" and l: "l \<in> D" "L l = us @ t # vs"
  shows "threadlist_removenode st (Listnode t) = Inr (unlink_between st (before l us) (Listnode t) (after l vs))"
proof -
  have "dll st (nodes l (us @ t # vs))" "distinct (us @ t # vs)" using list_nodes [OF rep l(1)] l(2) by simp_all
  then show ?thesis
    using neighbours_mid [of st l us t vs] before_not_new [of t us l] after_not_new [of t vs l] by (simp add: removenode_eq)
qed

lemma threadlist_remove_ok:
  assumes rep: "tl_rep st D T L" and l: "l \<in> D" "L l = us @ t # vs"
  shows "\<exists>st'. threadlist_remove st l t = Inr st' \<and> tl_rep st' D T (L(l := us @ vs))"
  using remove_rep [OF assms] removenode_rep [OF assms] by (simp add: threadlist_remove_def)

lemma threadlist_remhead_ok:
  assumes rep: "tl_rep st D T L" and l: "l \<in> D"
  shows "L l = [] \<Longrightarrow> threadlist_remhead st l = Inr (None, st)"
    and "L l = t # ts \<Longrightarrow> \<exists>st'. threadlist_remhead st l = Inr (Some t, st') \<and> tl_rep st' D T (L(l := ts))"
proof -
  note d = list_nodes [OF rep l] and I = tl_repD(1) [OF rep l, unfolded is_list_def]
  show "threadlist_remhead st l = Inr (None, st)" if "L l = []"
    using d I that by (simp add: threadlist_remhead_def nodes_def)
  assume L: "L l = t # ts"
  then have s: "L l = [] @ t # ts" by simp
  have "tln_next st (Head l) = Some (Listnode t)" "tln_next st (Listnode t) = Some (after l ts)"
    using neighbours(1) [of st l "[]" "t # ts"] neighbours_mid(2) [of st l "[]" t ts] d L by simp_all
  moreover have "tln_self st (Listnode t) = Some t" using I L by simp
  ultimately show "\<exists>st'. threadlist_remhead st l = Inr (Some t, st') \<and> tl_rep st' D T (L(l := ts))"
    using remove_rep [OF rep l s] removenode_rep [OF rep l s] by (simp add: threadlist_remhead_def unlink_between_def)
qed

lemma threadlist_remtail_ok:
  assumes rep: "tl_rep st D T L" and l: "l \<in> D"
  shows "L l = [] \<Longrightarrow> threadlist_remtail st l = Inr (None, st)"
    and "L l = ts @ [t] \<Longrightarrow> \<exists>st'. threadlist_remtail st l = Inr (Some t, st') \<and> tl_rep st' D T (L(l := ts))"
proof -
  note d = list_nodes [OF rep l] and I = tl_repD(1) [OF rep l, unfolded is_list_def]
  show "threadlist_remtail st l = Inr (None, st)" if "L l = []"
    using d I that by (simp add: threadlist_remtail_def nodes_def)
  assume L: "L l = ts @ [t]"
  have "tln_prev st (Tail l) = Some (Listnode t)" "tln_prev st (Listnode t) = Some (before l ts)"
    using neighbours(2) [of st l "ts @ [t]" "[]"] neighbours_mid(1) [of st l ts t "[]"] d L by simp_all
  moreover have "tln_self st (Listnode t) = Some t" using I L by simp
  ultimately show "\<exists>st'. threadlist_remtail st l = Inr (Some t, st') \<and> tl_rep st' D T (L(l := ts))"
    using remove_rep [OF rep l L] removenode_rep [OF rep l L] by (simp add: threadlist_remtail_def unlink_between_def)
qed

lemma count_ok:
  assumes rep: "tl_rep st D T L" and l: "l \<in> D"
  shows "unat (tl_count st l) = length (L l)" "threadlist_isempty st l \<longleftrightarrow> L l = []"
    "threadlist_cleanup st l = (if L l = [] then Inr () else Inl Kassert)"
proof -
  note R = tl_repD [OF rep]
  have I: "is_list st l (L l)" by (rule R(1) [OF l])
  have "length (L l) = card (set (L l))" using I by (simp add: is_list_def distinct_card)
  also have "\<dots> \<le> card T" using R(2) [OF l] R(6) card_mono by blast
  finally have "length (L l) < 2 ^ 32" using R(7) by simp
  then show c: "unat (tl_count st l) = length (L l)" using I by (simp add: is_list_def unat_of_nat take_bit_nat_eq_self)
  then show e: "threadlist_isempty st l \<longleftrightarrow> L l = []" by (auto simp: threadlist_isempty_def simp flip: unat_eq_zero)
  show "threadlist_cleanup st l = (if L l = [] then Inr () else Inl Kassert)"
    using e by (simp add: threadlist_cleanup_def threadlist_isempty_def)
qed

text \<open>Lists come and go, and threads are created.\<close>

lemma threadlist_init_ok:
  assumes rep: "tl_rep st D T L" and l: "l \<notin> D"
  shows "tl_rep (threadlist_init st l) (insert l D) T (L(l := []))"
proof -
  let ?s = "threadlist_init st l"
  note R = tl_repD [OF rep]
  have eqs: "tln_prev ?s n = tln_prev st n" "tln_next ?s n = tln_next st n" "tln_self ?s n = tln_self st n"
    if "n \<noteq> Head l" "n \<noteq> Tail l" for n
    using that by (simp_all add: threadlist_init_def Let_def set_self_def)
  have c: "tl_count ?s l' = tl_count st l'" if "l' \<noteq> l" for l'
    using that by (simp add: threadlist_init_def Let_def set_self_def)
  have new: "is_list ?s l []"
    by (simp add: is_list_def nodes_def threadlist_init_def Let_def set_self_def)
  have old: "is_list ?s l' (L l')" if "l' \<in> D" for l'
  proof -
    have "l' \<noteq> l" using that l by blast
    then have "is_list ?s l' (L l') = is_list st l' (L l')" using c eqs by (intro is_list_frame) auto
    then show ?thesis using R(1) [OF that] by simp
  qed
  show ?thesis
    unfolding tl_rep_def using R(2,3,4,6,7) new old l eqs R(5)
    by (auto simp: eqs) (metis fun_upd_other l)+
qed

lemma tl_rep_cong: "(\<And>l. l \<in> D \<Longrightarrow> L l = L' l) \<Longrightarrow> tl_rep st D T L \<longleftrightarrow> tl_rep st D T L'"
  unfolding tl_rep_def by simp

lemma tl_rep_drop: "tl_rep st D T L \<Longrightarrow> L l = [] \<Longrightarrow> tl_rep st (D - {l}) T L"
  unfolding tl_rep_def by (metis (no_types, lifting) Diff_iff empty_iff list.set(1) singletonD)

lemma threadlistnode_init_ok:
  assumes rep: "tl_rep st D T L" and t: "t \<notin> T" "card T + 1 < 2 ^ 32"
  shows "\<exists>st'. threadlistnode_init st (Some t) = Inr st' \<and> tl_rep st' D (insert t T) L"
proof -
  let ?s = "set_self (set_prev (set_next st (Listnode t) None) (Listnode t) None) (Listnode t) (Some t)"
  note R = tl_repD [OF rep]
  have nl: "t \<notin> set (L l)" if "l \<in> D" for l using R(2) [OF that] t(1) by blast
  have "is_list ?s l (L l)" if "l \<in> D" for l
  proof -
    have "is_list ?s l (L l) = is_list st l (L l)"
      by (intro is_list_frame) (use nl [OF that] in \<open>auto simp: set_self_def\<close>)
    then show ?thesis using R(1) [OF that] by simp
  qed
  then have "tl_rep ?s D (insert t T) L"
    unfolding tl_rep_def using R t by (auto simp: set_self_def) 
  then show ?thesis by (simp add: threadlistnode_init_def)
qed

section \<open>Contract\<close>

text \<open>\<open>while ((t = remhead(l)) != NULL) addtail(l', t)\<close>, with the length of the list as fuel.\<close>

fun drain :: "('s \<Rightarrow> listid \<Rightarrow> (thread option \<times> 's) res) \<Rightarrow> ('s \<Rightarrow> listid \<Rightarrow> thread \<Rightarrow> 's res)
    \<Rightarrow> nat \<Rightarrow> 's \<Rightarrow> listid \<Rightarrow> listid \<Rightarrow> 's res" where
  "drain remhead addtail fuel s l l' =
     bindR (remhead s l) (\<lambda>(t0, s1).
     case t0 of None \<Rightarrow> Inr s1
     | Some t \<Rightarrow> (case fuel of 0 \<Rightarrow> Inl Diverges
                 | Suc f \<Rightarrow> bindR (addtail s1 l' t) (\<lambda>s2. drain remhead addtail f s2 l l')))"

declare drain.simps [simp del]

locale thread_queues =
  fixes rep :: "'s \<Rightarrow> listid set \<Rightarrow> thread set \<Rightarrow> (listid \<Rightarrow> thread list) \<Rightarrow> bool"
    and addtail :: "'s \<Rightarrow> listid \<Rightarrow> thread \<Rightarrow> 's res"
    and remhead :: "'s \<Rightarrow> listid \<Rightarrow> (thread option \<times> 's) res"
  assumes addtail_ok: "rep s D T L \<Longrightarrow> l \<in> D \<Longrightarrow> t \<in> T \<Longrightarrow> \<forall>l \<in> D. t \<notin> set (L l) \<Longrightarrow>
      \<exists>s'. addtail s l t = Inr s' \<and> rep s' D T (L(l := L l @ [t]))"
    and remhead_empty: "rep s D T L \<Longrightarrow> l \<in> D \<Longrightarrow> L l = [] \<Longrightarrow> remhead s l = Inr (None, s)"
    and remhead_ok: "rep s D T L \<Longrightarrow> l \<in> D \<Longrightarrow> L l = t # ts \<Longrightarrow>
      \<exists>s'. remhead s l = Inr (Some t, s') \<and> rep s' D T (L(l := ts))"
    and rep_lists: "rep s D T L \<Longrightarrow> l \<in> D \<Longrightarrow> distinct (L l) \<and> set (L l) \<subseteq> T"
    and rep_disjoint: "rep s D T L \<Longrightarrow> l \<in> D \<Longrightarrow> l' \<in> D \<Longrightarrow> l \<noteq> l' \<Longrightarrow> set (L l) \<inter> set (L l') = {}"
begin

text \<open>Moving all threads of one list to the end of another keeps their order and loses none.\<close>

lemma drain_ok:
  "rep s D T L \<Longrightarrow> l \<in> D \<Longrightarrow> l' \<in> D \<Longrightarrow> l \<noteq> l' \<Longrightarrow> length (L l) \<le> fuel \<Longrightarrow>
   \<exists>s'. drain remhead addtail fuel s l l' = Inr s' \<and> rep s' D T (L(l := [], l' := L l' @ L l))"
proof (induction fuel arbitrary: s L)
  case 0
  then show ?case using remhead_empty [OF 0(1,2)]
    by (subst drain.simps) (simp add: fun_upd_idem)
next
  case (Suc fuel)
  show ?case
  proof (cases "L l")
    case Nil
    then have "L(l := [], l' := L l' @ L l) = L" by (simp add: fun_upd_idem)
    then show ?thesis using remhead_empty [OF Suc.prems(1,2) Nil] Suc.prems(1) by (subst drain.simps) simp
  next
    case (Cons t ts)
    let ?L1 = "L(l := ts)" and ?L2 = "L(l := ts, l' := L l' @ [t])"
    obtain s1 where s1: "remhead s l = Inr (Some t, s1)" "rep s1 D T ?L1"
      using remhead_ok [OF Suc.prems(1,2) Cons] by blast
    have T: "t \<in> T" "t \<notin> set ts" using rep_lists [OF Suc.prems(1,2)] Cons by auto
    have "t \<notin> set (?L1 k)" if "k \<in> D" for k
      using rep_disjoint [OF Suc.prems(1) that Suc.prems(2)] Cons T(2) by (cases "k = l") auto
    then obtain s2 where s2: "addtail s1 l' t = Inr s2" "rep s2 D T (?L1(l' := ?L1 l' @ [t]))"
      using addtail_ok [OF s1(2) Suc.prems(3) T(1)] by blast
    have "rep s2 D T ?L2" using s2(2) Suc.prems(4) by simp
    moreover have "length (?L2 l) \<le> fuel" using Cons Suc.prems(4,5) by simp
    ultimately obtain s3 where "drain remhead addtail fuel s2 l l' = Inr s3" "rep s3 D T (?L2(l := [], l' := ?L2 l' @ ?L2 l))"
      using Suc.IH [OF _ Suc.prems(2-4)] by blast
    moreover have "?L2(l := [], l' := ?L2 l' @ ?L2 l) = L(l := [], l' := L l' @ L l)"
      using Cons Suc.prems(4) by (simp add: fun_upd_twist)
    ultimately show ?thesis using s1(1) s2(1) by (subst drain.simps) simp
  qed
qed

end

interpretation tq: thread_queues tl_rep threadlist_addtail threadlist_remhead
proof unfold_locales
  show "distinct (L l) \<and> set (L l) \<subseteq> T" if "tl_rep s D T L" "l \<in> D" for s D T L l
    using tl_repD(1,2) [OF that] by (simp add: is_list_def)
qed (auto intro: threadlist_addtail_ok threadlist_remhead_ok dest: tl_repD(3))

section \<open>Properties\<close>

text \<open>C22. The linked lists implement disjoint sequences of threads: adding and removing at either
  end or in the middle of one list acts on its sequence alone, removal from an empty list returns
  NULL, and the count is the length. No pointer is followed that is NULL, and no other list
  changes.\<close>

theorem threadlist_refines_sequences:
  assumes "tl_rep st D T L" "l \<in> D" "t \<in> T" "\<forall>l \<in> D. t \<notin> set (L l)"
  shows "(\<exists>st'. threadlist_addtail st l t = Inr st' \<and> tl_rep st' D T (L(l := L l @ [t]))) \<and>
    (\<exists>st'. threadlist_addhead st l t = Inr st' \<and> tl_rep st' D T (L(l := t # L l))) \<and>
    (case L l of [] \<Rightarrow> threadlist_remhead st l = Inr (None, st) \<and> threadlist_remtail st l = Inr (None, st)
     | u # us \<Rightarrow> (\<exists>st'. threadlist_remhead st l = Inr (Some u, st') \<and> tl_rep st' D T (L(l := us))) \<and>
         (\<exists>st'. threadlist_remtail st l = Inr (Some (last (L l)), st') \<and> tl_rep st' D T (L(l := butlast (L l))))) \<and>
    (\<forall>us u vs. L l = us @ u # vs \<longrightarrow>
       (\<exists>st'. threadlist_insertafter st l u t = Inr st' \<and> tl_rep st' D T (L(l := us @ u # t # vs))) \<and>
       (\<exists>st'. threadlist_insertbefore st l t u = Inr st' \<and> tl_rep st' D T (L(l := us @ t # u # vs))) \<and>
       (\<exists>st'. threadlist_remove st l u = Inr st' \<and> tl_rep st' D T (L(l := us @ vs)))) \<and>
    unat (tl_count st l) = length (L l)"
proof (intro conjI allI impI)
  show "case L l of [] \<Rightarrow> threadlist_remhead st l = Inr (None, st) \<and> threadlist_remtail st l = Inr (None, st)
     | u # us \<Rightarrow> (\<exists>st'. threadlist_remhead st l = Inr (Some u, st') \<and> tl_rep st' D T (L(l := us))) \<and>
         (\<exists>st'. threadlist_remtail st l = Inr (Some (last (L l)), st') \<and> tl_rep st' D T (L(l := butlast (L l))))"
  proof (cases "L l")
    case (Cons u us)
    have "L l = butlast (L l) @ [last (L l)]" using Cons by simp
    from threadlist_remtail_ok(2) [OF assms(1,2) this]
    show ?thesis using threadlist_remhead_ok(2) [OF assms(1,2) Cons] Cons by simp
  qed (use threadlist_remhead_ok(1) threadlist_remtail_ok(1) assms in simp)
qed (use threadlist_addtail_ok [OF assms] threadlist_addhead_ok [OF assms] threadlist_insertafter_ok [OF assms(1,2) _ assms(3,4)]
  threadlist_insertbefore_ok [OF assms(1,2) _ assms(3,4)] threadlist_remove_ok [OF assms(1,2)] count_ok(1) [OF assms(1,2)] in blast)+

text \<open>A store with one empty list and two threads.\<close>

definition no_lists :: tlstore where
  "no_lists = \<lparr>tln_prev = \<lambda>_. None, tln_next = \<lambda>_. None,
     tln_self = (\<lambda>n. case n of Listnode t \<Rightarrow> Some t | _ \<Rightarrow> None), tl_count = \<lambda>_. 0\<rparr>"

definition two_threads :: tlstore where
  "two_threads = threadlist_init no_lists (RunQ 0)"

lemma no_lists_rep: "finite T \<Longrightarrow> card T < 2 ^ 32 \<Longrightarrow> tl_rep no_lists {} T (\<lambda>_. [])"
  by (simp add: tl_rep_def no_lists_def)

lemma two_threads_rep: "tl_rep two_threads {RunQ 0} {1, 2} (\<lambda>_. [])"
proof -
  have e: "(\<lambda>_. [])(RunQ 0 := []) = (\<lambda>_. [] :: thread list)" by auto
  have "tl_rep no_lists {} {1, 2} (\<lambda>_. [])" by (rule no_lists_rep) simp_all
  from threadlist_init_ok [OF this, of "RunQ 0"] show ?thesis by (simp add: two_threads_def e)
qed

theorem threadlist_refines_sequences_witness:
  "\<exists>st'. threadlist_addtail two_threads (RunQ 0) 1 = Inr st' \<and> tl_rep st' {RunQ 0} {1, 2} ((\<lambda>_. [])(RunQ 0 := [1])) \<and>
     threadlist_remhead two_threads (RunQ 0) = Inr (None, two_threads)"
  using threadlist_refines_sequences [OF two_threads_rep, of "RunQ 0" 1] by auto

end
