(* ===== verification/Sched.thy ===== *)
theory Sched
  imports Threadlist Addrspace
begin

text \<open>
  The thread scheduler (\<^verbatim>\<open>kern/thread/thread.c\<close>): run queues, wait channels, context switches,
  migration between processors and interprocessor interrupts. One processor executes; its
  spinlocks are a set, and waiting for another processor to release one is not modelled. The
  switch of the stacks (\<^verbatim>\<open>switchframe_switch\<close>) is the point where the current thread changes.
\<close>

unbundle bit_operations_syntax

datatype threadstate = S_RUN | S_READY | S_SLEEP | S_ZOMBIE

definition IPI_PANIC :: nat where "IPI_PANIC = 0"
definition IPI_OFFLINE :: nat where "IPI_OFFLINE = 1"
definition IPI_UNIDLE :: nat where "IPI_UNIDLE = 2"
definition IPI_TLBSHOOTDOWN :: nat where "IPI_TLBSHOOTDOWN = 3"
definition TLBSHOOTDOWN_MAX :: nat where "TLBSHOOTDOWN_MAX = 16"

text \<open>Spinlocks: the run queue lock and the interrupt lock of a processor, and those that protect
  wait channels.\<close>

datatype splk = Runqueue_lock nat | Ipi_lock nat | Wlock nat

record 'f sched =
  tls :: tlstore
  t_state :: "thread \<Rightarrow> threadstate"
  t_cpu :: "thread \<Rightarrow> nat"
  t_proc :: "thread \<Rightarrow> nat option"
  t_space :: "thread \<Rightarrow> addrspace option \<times> pid_t"
  c_isidle :: "nat \<Rightarrow> bool"
  c_curthread :: "nat \<Rightarrow> thread"
  c_ipi_pending :: "nat \<Rightarrow> u32"
  c_shootdown :: "nat \<Rightarrow> vaddr_t list"
  numcpus :: nat
  curcpu :: nat
  spins :: "splk set"
  in_interrupt :: bool
  vm :: "'f machine"

definition curthread :: "'f sched \<Rightarrow> thread" where
  "curthread s = c_curthread s (curcpu s)"

definition sp_acquire :: "splk \<Rightarrow> 'f sched \<Rightarrow> 'f sched res" where
  "sp_acquire l s = (if l \<in> spins s then Inl (Panic ''Deadlock on spinlock'') else Inr (s\<lparr>spins := insert l (spins s)\<rparr>))"

definition sp_release :: "splk \<Rightarrow> 'f sched \<Rightarrow> 'f sched res" where
  "sp_release l s = (if l \<notin> spins s then Inl Kassert else Inr (s\<lparr>spins := spins s - {l}\<rparr>))"

text \<open>List operations on the store of the state.\<close>

definition tl_op :: "(tlstore \<Rightarrow> tlstore res) \<Rightarrow> 'f sched \<Rightarrow> 'f sched res" where
  "tl_op f s = bindR (f (tls s)) (\<lambda>st. Inr (s\<lparr>tls := st\<rparr>))"

definition tl_take :: "(tlstore \<Rightarrow> (thread option \<times> tlstore) res) \<Rightarrow> 'f sched \<Rightarrow> (thread option \<times> 'f sched) res" where
  "tl_take f s = bindR (f (tls s)) (\<lambda>(t, st). Inr (t, s\<lparr>tls := st\<rparr>))"

section \<open>Interprocessor interrupts\<close>

definition ipi_send :: "nat \<Rightarrow> nat \<Rightarrow> 'f sched \<Rightarrow> 'f sched res" where
  "ipi_send target code s =
     (if \<not> code < 32 then Inl Kassert
      else bindR (sp_acquire (Ipi_lock target) s) (\<lambda>s.
      sp_release (Ipi_lock target)
        (s\<lparr>c_ipi_pending := (c_ipi_pending s)(target := c_ipi_pending s target OR push_bit code 1)\<rparr>)))"

fun ipi_broadcast_loop :: "nat list \<Rightarrow> nat \<Rightarrow> 'f sched \<Rightarrow> 'f sched res" where
  "ipi_broadcast_loop [] code s = Inr s"
| "ipi_broadcast_loop (c # cs) code s =
     bindR (if c \<noteq> curcpu s then ipi_send c code s else Inr s) (ipi_broadcast_loop cs code)"

definition ipi_broadcast :: "nat \<Rightarrow> 'f sched \<Rightarrow> 'f sched res" where
  "ipi_broadcast code s = ipi_broadcast_loop [0..<numcpus s] code s"

definition ipi_tlbshootdown :: "nat \<Rightarrow> vaddr_t \<Rightarrow> 'f sched \<Rightarrow> 'f sched res" where
  "ipi_tlbshootdown target mapping s =
     bindR (sp_acquire (Ipi_lock target) s) (\<lambda>s.
     if length (c_shootdown s target) = TLBSHOOTDOWN_MAX
     then Inl (Panic ''ipi_tlbshootdown: Too many shootdowns queued'')
     else sp_release (Ipi_lock target)
       (s\<lparr>c_shootdown := (c_shootdown s)(target := c_shootdown s target @ [mapping]),
          c_ipi_pending := (c_ipi_pending s)(target := c_ipi_pending s target OR push_bit IPI_TLBSHOOTDOWN 1)\<rparr>))"

text \<open>A processor handles its interrupts, or stops.\<close>

datatype ipi_result = Halted | Handled

definition interprocessor_interrupt :: "'f sched \<Rightarrow> (ipi_result \<times> 'f sched) res" where
  "interprocessor_interrupt s =
     (let c = curcpu s in
      bindR (sp_acquire (Ipi_lock c) s) (\<lambda>s.
      let bits = c_ipi_pending s c in
      if bits AND push_bit IPI_PANIC 1 \<noteq> 0 then bindR (sp_release (Ipi_lock c) s) (\<lambda>s. Inr (Halted, s))
      else if bits AND push_bit IPI_OFFLINE 1 \<noteq> 0 then
        bindR (sp_release (Ipi_lock c) s) (\<lambda>s.
        bindR (sp_acquire (Runqueue_lock c) s) (\<lambda>s.
        bindR (sp_release (Runqueue_lock c) s) (\<lambda>s. Inr (Halted, s))))
      else
        let s = (if bits AND push_bit IPI_TLBSHOOTDOWN 1 \<noteq> 0 then s\<lparr>c_shootdown := (c_shootdown s)(c := [])\<rparr> else s) in
        bindR (sp_release (Ipi_lock c) (s\<lparr>c_ipi_pending := (c_ipi_pending s)(c := 0)\<rparr>)) (\<lambda>s. Inr (Handled, s))))"

definition thread_shutdown :: "'f sched \<Rightarrow> 'f sched res" where
  "thread_shutdown s = ipi_broadcast IPI_OFFLINE s"

definition thread_panic :: "'f sched \<Rightarrow> 'f sched res" where
  "thread_panic s =
     bindR (ipi_broadcast IPI_PANIC s) (\<lambda>s.
     let l = RunQ (curcpu s); st = tls s;
         st = st\<lparr>tl_count := (tl_count st)(l := 0)\<rparr>
     in Inr (s\<lparr>tls := set_prev (set_next st (Head l) (Some (Tail l))) (Tail l) (Some (Head l))\<rparr>))"

section \<open>Run queues and context switches\<close>

definition thread_make_runnable :: "thread \<Rightarrow> bool \<Rightarrow> 'f sched \<Rightarrow> 'f sched res" where
  "thread_make_runnable target already_have_lock s =
     (let c = t_cpu s target in
      bindR (if already_have_lock then (if Runqueue_lock c \<in> spins s then Inr s else Inl Kassert)
             else sp_acquire (Runqueue_lock c) s) (\<lambda>s.
      bindR (tl_op (\<lambda>st. threadlist_addtail st (RunQ c) target)
              (s\<lparr>t_state := (t_state s)(target := S_READY)\<rparr>)) (\<lambda>s.
      bindR (if c_isidle s c \<and> c \<noteq> curcpu s then ipi_send c IPI_UNIDLE s else Inr s) (\<lambda>s.
      if already_have_lock then Inr s else sp_release (Runqueue_lock c) s))))"

text \<open>\<^verbatim>\<open>thread_destroy\<close>: the thread must have exited; its memory is given back.\<close>

definition thread_destroy :: "thread \<Rightarrow> 'f sched \<Rightarrow> 'f sched res" where
  "thread_destroy t s =
     (if t = curthread s then Inl Kassert
      else if t_state s t = S_RUN then Inl Kassert
      else if t_proc s t \<noteq> None then Inl Kassert
      else bindR (threadlistnode_cleanup (tls s) t) (\<lambda>_. Inr s))"

fun exorcise_loop :: "nat \<Rightarrow> 'f sched \<Rightarrow> 'f sched res" where
  "exorcise_loop fuel s =
     bindR (tl_take (\<lambda>st. threadlist_remhead st (Zombies (curcpu s))) s) (\<lambda>(z0, s).
     case z0 of None \<Rightarrow> Inr s
     | Some z \<Rightarrow>
         if z = curthread s then Inl Kassert
         else if t_state s z \<noteq> S_ZOMBIE then Inl Kassert
         else (case fuel of 0 \<Rightarrow> Inl Diverges
               | Suc f \<Rightarrow> bindR (thread_destroy z s) (exorcise_loop f)))"

declare exorcise_loop.simps [simp del]

text \<open>The loop takes one zombie per round, so their number is enough fuel.\<close>

definition exorcise :: "'f sched \<Rightarrow> 'f sched res" where
  "exorcise s = exorcise_loop (unat (tl_count (tls s) (Zombies (curcpu s)))) s"

text \<open>The tail of \<^verbatim>\<open>thread_switch\<close> and the head of \<^verbatim>\<open>thread_startup\<close>, in the thread that now runs.\<close>

definition thread_arrive :: "'f sched \<Rightarrow> 'f sched res" where
  "thread_arrive s =
     (let cur = curthread s; s = s\<lparr>t_state := (t_state s)(cur := S_RUN)\<rparr> in
      bindR (sp_release (Runqueue_lock (curcpu s)) s) (\<lambda>s.
      let (curas, pid) = t_space s cur in
      exorcise (s\<lparr>vm := as_activate curas pid (vm s)\<rparr>)))"

datatype switch_result = Unchanged | Idling | Switched

text \<open>
  Choosing the next thread. With an empty run queue the processor idles, with the run queue
  unlocked, until an interrupt makes it look again.
\<close>

definition thread_next :: "'f sched \<Rightarrow> (switch_result \<times> 'f sched) res" where
  "thread_next s =
     (let c = curcpu s in
      bindR (tl_take (\<lambda>st. threadlist_remhead st (RunQ c)) s) (\<lambda>(next0, s).
      case next0 of
        None \<Rightarrow> bindR (sp_release (Runqueue_lock c) s) (\<lambda>s. Inr (Idling, s))
      | Some next \<Rightarrow>
          bindR (thread_arrive (s\<lparr>c_isidle := (c_isidle s)(c := False), c_curthread := (c_curthread s)(c := next)\<rparr>))
            (\<lambda>s. Inr (Switched, s))))"

text \<open>The idle processor looks at the run queue again.\<close>

definition thread_unidle :: "'f sched \<Rightarrow> (switch_result \<times> 'f sched) res" where
  "thread_unidle s = bindR (sp_acquire (Runqueue_lock (curcpu s)) s) thread_next"

text \<open>Putting the current thread in the right place.\<close>

definition thread_place :: "threadstate \<Rightarrow> nat \<Rightarrow> splk \<Rightarrow> 'f sched \<Rightarrow> 'f sched res" where
  "thread_place newstate wc lk s =
     (let cur = curthread s; c = curcpu s in
      bindR (case newstate of
          S_RUN \<Rightarrow> Inl (Panic ''Illegal S_RUN in thread_switch'')
        | S_READY \<Rightarrow> thread_make_runnable cur True s
        | S_SLEEP \<Rightarrow> bindR (tl_op (\<lambda>st. threadlist_addtail st (Wchan wc) cur) s) (sp_release lk)
        | S_ZOMBIE \<Rightarrow> tl_op (\<lambda>st. threadlist_addtail st (Zombies c) cur) s) (\<lambda>s.
      Inr (s\<lparr>t_state := (t_state s)(cur := newstate)\<rparr>)))"

definition thread_switch :: "threadstate \<Rightarrow> nat \<Rightarrow> splk \<Rightarrow> 'f sched \<Rightarrow> (switch_result \<times> 'f sched) res" where
  "thread_switch newstate wc lk s =
     (let c = curcpu s in
      if c_isidle s c then Inr (Unchanged, s)
      else bindR (sp_acquire (Runqueue_lock c) s) (\<lambda>s.
      if newstate = S_READY \<and> threadlist_isempty (tls s) (RunQ c)
      then bindR (sp_release (Runqueue_lock c) s) (\<lambda>s. Inr (Unchanged, s))
      else bindR (thread_place newstate wc lk s) (\<lambda>s.
      thread_next (s\<lparr>c_isidle := (c_isidle s)(c := True)\<rparr>))))"

definition thread_yield :: "'f sched \<Rightarrow> (switch_result \<times> 'f sched) res" where
  "thread_yield s = thread_switch S_READY 0 (Wlock 0) s"

section \<open>Wait channels\<close>

definition wchan_create :: "bool \<Rightarrow> nat \<Rightarrow> 'f sched \<Rightarrow> bool \<times> 'f sched" where
  "wchan_create ok wc s = (if ok then (True, s\<lparr>tls := threadlist_init (tls s) (Wchan wc)\<rparr>) else (False, s))"

definition wchan_destroy :: "nat \<Rightarrow> 'f sched \<Rightarrow> unit res" where
  "wchan_destroy wc s = threadlist_cleanup (tls s) (Wchan wc)"

text \<open>\<^verbatim>\<open>wchan_sleep\<close> up to the context switch; the spinlock is taken again when the thread resumes.\<close>

definition wchan_sleep :: "nat \<Rightarrow> splk \<Rightarrow> 'f sched \<Rightarrow> (switch_result \<times> 'f sched) res" where
  "wchan_sleep wc lk s =
     (if in_interrupt s then Inl Kassert
      else if lk \<notin> spins s then Inl Kassert
      else if card (spins s) \<noteq> 1 then Inl Kassert
      else thread_switch S_SLEEP wc lk s)"

definition wchan_wakeone :: "nat \<Rightarrow> splk \<Rightarrow> 'f sched \<Rightarrow> 'f sched res" where
  "wchan_wakeone wc lk s =
     (if lk \<notin> spins s then Inl Kassert
      else bindR (tl_take (\<lambda>st. threadlist_remhead st (Wchan wc)) s) (\<lambda>(target0, s).
      case target0 of None \<Rightarrow> Inr s | Some target \<Rightarrow> thread_make_runnable target False s))"

fun wakeall_loop :: "nat \<Rightarrow> 'f sched \<Rightarrow> 'f sched res" where
  "wakeall_loop fuel s =
     bindR (tl_take (\<lambda>st. threadlist_remhead st (Local 0)) s) (\<lambda>(target0, s).
     case target0 of None \<Rightarrow> Inr s
     | Some target \<Rightarrow> (case fuel of 0 \<Rightarrow> Inl Diverges
         | Suc f \<Rightarrow> bindR (thread_make_runnable target False s) (wakeall_loop f)))"

declare wakeall_loop.simps [simp del]

definition wchan_wakeall :: "nat \<Rightarrow> splk \<Rightarrow> 'f sched \<Rightarrow> 'f sched res" where
  "wchan_wakeall wc lk s =
     (if lk \<notin> spins s then Inl Kassert
      else let n = unat (tl_count (tls s) (Wchan wc)) in
      bindR (tl_op (\<lambda>st. drain threadlist_remhead threadlist_addtail n (threadlist_init st (Local 0)) (Wchan wc) (Local 0)) s) (\<lambda>s.
      bindR (wakeall_loop n s) (\<lambda>s.
      bindR (threadlist_cleanup (tls s) (Local 0)) (\<lambda>_. Inr s))))"

definition wchan_isempty :: "nat \<Rightarrow> splk \<Rightarrow> 'f sched \<Rightarrow> bool res" where
  "wchan_isempty wc lk s = (if lk \<notin> spins s then Inl Kassert else Inr (threadlist_isempty (tls s) (Wchan wc)))"

section \<open>What the operations leave alone\<close>

text \<open>Two states that differ at most in the lists, the thread states, the processors of threads and
  the pending interrupts.\<close>

definition same_rest :: "'f sched \<Rightarrow> 'f sched \<Rightarrow> bool" where
  "same_rest s s' \<longleftrightarrow> t_proc s' = t_proc s \<and> t_space s' = t_space s \<and> c_isidle s' = c_isidle s \<and>
     c_curthread s' = c_curthread s \<and> c_shootdown s' = c_shootdown s \<and> numcpus s' = numcpus s \<and>
     curcpu s' = curcpu s \<and> spins s' = spins s \<and> in_interrupt s' = in_interrupt s \<and> vm s' = vm s"

lemma same_rest_refl [simp]: "same_rest s s"
  by (simp add: same_rest_def)

lemma same_rest_trans: "same_rest s s' \<Longrightarrow> same_rest s' s'' \<Longrightarrow> same_rest s s''"
  by (simp add: same_rest_def)

lemma sp_simps [simp]:
  "l \<notin> spins s \<Longrightarrow> sp_acquire l s = Inr (s\<lparr>spins := insert l (spins s)\<rparr>)"
  "l \<in> spins s \<Longrightarrow> sp_release l s = Inr (s\<lparr>spins := spins s - {l}\<rparr>)"
  by (simp_all add: sp_acquire_def sp_release_def)

lemma ipi_send_ok:
  assumes "Ipi_lock c \<notin> spins s" "code < 32"
  shows "ipi_send c code s = Inr (s\<lparr>c_ipi_pending := (c_ipi_pending s)(c := c_ipi_pending s c OR push_bit code 1)\<rparr>)"
  using assms by (cases s) (simp add: ipi_send_def)

lemma thread_make_runnable_ok:
  assumes rep: "tl_rep (tls s) D T L" and c: "RunQ (t_cpu s t) \<in> D" and t: "t \<in> T" "\<forall>l \<in> D. t \<notin> set (L l)"
    and lk: "hl = (Runqueue_lock (t_cpu s t) \<in> spins s)" "Ipi_lock (t_cpu s t) \<notin> spins s"
  shows "\<exists>s'. thread_make_runnable t hl s = Inr s' \<and>
    tl_rep (tls s') D T (L(RunQ (t_cpu s t) := L (RunQ (t_cpu s t)) @ [t])) \<and>
    t_state s' = (t_state s)(t := S_READY) \<and> t_cpu s' = t_cpu s \<and> same_rest s s'"
proof -
  let ?c = "t_cpu s t"
  obtain st where st: "threadlist_addtail (tls s) (RunQ ?c) t = Inr st" "tl_rep st D T (L(RunQ ?c := L (RunQ ?c) @ [t]))"
    using threadlist_addtail_ok [OF rep c t] by blast
  let ?s1 = "s\<lparr>t_state := (t_state s)(t := S_READY), tls := st\<rparr>"
  show ?thesis
  proof (cases hl)
    case True
    then show ?thesis
      using lk st ipi_send_ok [of ?c ?s1 IPI_UNIDLE]
      by (cases "c_isidle s ?c \<and> ?c \<noteq> curcpu s")
        (auto simp: thread_make_runnable_def Let_def tl_op_def IPI_UNIDLE_def same_rest_def)
  next
    case False
    let ?s2 = "s\<lparr>spins := insert (Runqueue_lock ?c) (spins s), t_state := (t_state s)(t := S_READY), tls := st\<rparr>"
    have "spins s = insert (Runqueue_lock ?c) (spins s) - {Runqueue_lock ?c}" using False lk(1) by auto
    then show ?thesis
      using False lk st ipi_send_ok [of ?c ?s2 IPI_UNIDLE]
      by (cases "c_isidle s ?c \<and> ?c \<noteq> curcpu s")
        (auto simp: thread_make_runnable_def Let_def tl_op_def IPI_UNIDLE_def same_rest_def)
  qed
qed

section \<open>Invariant of the scheduler\<close>

text \<open>
  The lists of the system are the run queues and zombie lists of the processors and the wait
  channels \<open>W\<close>. Each list holds threads in the matching state, and the thread that runs on a busy
  processor is on no list.
\<close>

definition klists :: "nat \<Rightarrow> nat set \<Rightarrow> listid set" where
  "klists n W = RunQ ` {..<n} \<union> Zombies ` {..<n} \<union> Wchan ` W"

definition queues_ok :: "'f sched \<Rightarrow> nat set \<Rightarrow> thread set \<Rightarrow> (listid \<Rightarrow> thread list) \<Rightarrow> bool" where
  "queues_ok s W T L \<longleftrightarrow> tl_rep (tls s) (klists (numcpus s) W) T L \<and>
     (\<forall>c < numcpus s. \<forall>t \<in> set (L (RunQ c)). t_state s t = S_READY \<and> t_cpu s t = c) \<and>
     (\<forall>c < numcpus s. \<forall>t \<in> set (L (Zombies c)). t_state s t = S_ZOMBIE \<and> t_proc s t = None) \<and>
     (\<forall>w \<in> W. \<forall>t \<in> set (L (Wchan w)). t_state s t = S_SLEEP) \<and>
     (\<forall>t \<in> T. t_cpu s t < numcpus s)"

definition running_ok :: "'f sched \<Rightarrow> nat set \<Rightarrow> thread set \<Rightarrow> (listid \<Rightarrow> thread list) \<Rightarrow> bool" where
  "running_ok s W T L \<longleftrightarrow> (\<forall>c < numcpus s. \<not> c_isidle s c \<longrightarrow>
     c_curthread s c \<in> T \<and> t_state s (c_curthread s c) = S_RUN \<and> t_cpu s (c_curthread s c) = c \<and>
     (\<forall>l \<in> klists (numcpus s) W. c_curthread s c \<notin> set (L l)))"

definition sched_inv :: "'f sched \<Rightarrow> nat set \<Rightarrow> thread set \<Rightarrow> (listid \<Rightarrow> thread list) \<Rightarrow> bool" where
  "sched_inv s W T L \<longleftrightarrow> queues_ok s W T L \<and> running_ok s W T L \<and> curcpu s < numcpus s \<and> numcpus s < 2 ^ 31"

lemma queues_okD:
  assumes "queues_ok s W T L"
  shows "tl_rep (tls s) (klists (numcpus s) W) T L"
    "c < numcpus s \<Longrightarrow> t \<in> set (L (RunQ c)) \<Longrightarrow> t_state s t = S_READY \<and> t_cpu s t = c"
    "c < numcpus s \<Longrightarrow> t \<in> set (L (Zombies c)) \<Longrightarrow> t_state s t = S_ZOMBIE \<and> t_proc s t = None"
    "w \<in> W \<Longrightarrow> t \<in> set (L (Wchan w)) \<Longrightarrow> t_state s t = S_SLEEP"
    "t \<in> T \<Longrightarrow> t_cpu s t < numcpus s"
  using assms unfolding queues_ok_def by blast+

lemma klists_simps [simp]: "RunQ c \<in> klists n W \<longleftrightarrow> c < n" "Zombies c \<in> klists n W \<longleftrightarrow> c < n" "Wchan w \<in> klists n W \<longleftrightarrow> w \<in> W"
  "Local k \<notin> klists n W"
  by (auto simp: klists_def)

lemma exorcise_loop_ok:
  "tl_rep (tls s) D T L \<Longrightarrow> Zombies (curcpu s) \<in> D \<Longrightarrow> length (L (Zombies (curcpu s))) \<le> fuel \<Longrightarrow>
   \<forall>z \<in> set (L (Zombies (curcpu s))). z \<noteq> curthread s \<and> t_state s z = S_ZOMBIE \<and> t_proc s z = None \<Longrightarrow>
   \<exists>st. exorcise_loop fuel s = Inr (s\<lparr>tls := st\<rparr>) \<and> tl_rep st D T (L(Zombies (curcpu s) := []))"
proof (induction fuel arbitrary: s L)
  case 0
  have "L (Zombies (curcpu s)) = []" using 0(3) by simp
  then show ?case using threadlist_remhead_ok(1) [OF 0(1,2)] 0(1)
    by (intro exI [of _ "tls s"], subst exorcise_loop.simps) (simp add: tl_take_def fun_upd_idem)
next
  case (Suc fuel)
  let ?l = "Zombies (curcpu s)"
  show ?case
  proof (cases "L ?l")
    case Nil
    then show ?thesis using threadlist_remhead_ok(1) [OF Suc.prems(1,2)] Suc.prems(1)
      by (intro exI [of _ "tls s"], subst exorcise_loop.simps) (simp add: tl_take_def fun_upd_idem)
  next
    case (Cons z zs)
    obtain st where st: "threadlist_remhead (tls s) ?l = Inr (Some z, st)" "tl_rep st D T (L(?l := zs))"
      using threadlist_remhead_ok(2) [OF Suc.prems(1,2) Cons] by blast
    let ?s1 = "s\<lparr>tls := st\<rparr>"
    note R = tl_repD [OF Suc.prems(1)]
    have d: "z \<notin> set zs" "z \<in> T" using R(1,2) [OF Suc.prems(2)] Cons by (simp_all add: is_list_def)
    have off: "z \<notin> set ((L(?l := zs)) l)" if "l \<in> D" for l
      using R(3) [OF that Suc.prems(2)] Cons d(1) by (cases "l = ?l") auto
    have "tln_prev st (Listnode z) = None \<and> tln_next st (Listnode z) = None"
      using tl_repD(5) [OF st(2) d(2)] off by blast
    then have "threadlistnode_cleanup st z = Inr ()"
      using tl_repD(4) [OF st(2) d(2)] by (simp add: threadlistnode_cleanup_def)
    then have des: "thread_destroy z ?s1 = Inr ?s1"
      using Suc.prems(4) Cons by (simp add: thread_destroy_def curthread_def)
    have rep1: "tl_rep (tls ?s1) D T (L(?l := zs))" using st(2) by simp
    have p: "Zombies (curcpu ?s1) \<in> D" "length ((L(?l := zs)) (Zombies (curcpu ?s1))) \<le> fuel"
      using Suc.prems(2,3) Cons by simp_all
    have "\<forall>z \<in> set ((L(?l := zs)) (Zombies (curcpu ?s1))). z \<noteq> curthread ?s1 \<and> t_state ?s1 z = S_ZOMBIE \<and> t_proc ?s1 z = None"
      using Suc.prems(4) Cons by (simp add: curthread_def)
    from Suc.IH [OF rep1 p this] obtain st' where "exorcise_loop fuel ?s1 = Inr (?s1\<lparr>tls := st'\<rparr>)"
      "tl_rep st' D T ((L(?l := zs))(Zombies (curcpu ?s1) := []))" by blast
    moreover have "z \<noteq> curthread ?s1" "t_state ?s1 z = S_ZOMBIE" using Suc.prems(4) Cons by (simp_all add: curthread_def)
    ultimately show ?thesis using st(1) des by (subst exorcise_loop.simps) (auto simp: tl_take_def)
  qed
qed

lemma exorcise_ok:
  assumes "tl_rep (tls s) D T L" "Zombies (curcpu s) \<in> D"
    "\<forall>z \<in> set (L (Zombies (curcpu s))). z \<noteq> curthread s \<and> t_state s z = S_ZOMBIE \<and> t_proc s z = None"
  shows "\<exists>st. exorcise s = Inr (s\<lparr>tls := st\<rparr>) \<and> tl_rep st D T (L(Zombies (curcpu s) := []))"
  using exorcise_loop_ok [OF assms(1,2) _ assms(3)] count_ok(1) [OF assms(1,2)] by (simp add: exorcise_def)

text \<open>Threads leave lists, or states change, without harm to the threads that stay.\<close>

lemma queues_ok_shrink:
  assumes q: "queues_ok s W T L" and rep: "tl_rep (tls s') (klists (numcpus s) W) T L'"
    and sub: "\<And>l. l \<in> klists (numcpus s) W \<Longrightarrow> set (L' l) \<subseteq> set (L l)"
    and st: "\<And>l t. l \<in> klists (numcpus s) W \<Longrightarrow> t \<in> set (L' l) \<Longrightarrow> t_state s' t = t_state s t"
    and rest: "t_cpu s' = t_cpu s" "t_proc s' = t_proc s" "numcpus s' = numcpus s"
  shows "queues_ok s' W T L'"
  unfolding queues_ok_def rest
proof (intro conjI allI impI ballI)
  note Q = queues_okD [OF q]
  show "tl_rep (tls s') (klists (numcpus s) W) T L'" by (rule rep)
  fix c t
  show "t_state s' t = S_READY" "t_cpu s t = c" if "c < numcpus s" "t \<in> set (L' (RunQ c))"
    using Q(2) [of c t] sub [of "RunQ c"] st [of "RunQ c" t] that by auto
  show "t_state s' t = S_ZOMBIE" "t_proc s t = None" if "c < numcpus s" "t \<in> set (L' (Zombies c))"
    using Q(3) [of c t] sub [of "Zombies c"] st [of "Zombies c" t] that by auto
  show "t_state s' t = S_SLEEP" if "c \<in> W" "t \<in> set (L' (Wchan c))"
    using Q(4) [of c t] sub [of "Wchan c"] st [of "Wchan c" t] that by auto
  show "t_cpu s t < numcpus s" if "t \<in> T" using Q(5) that .
qed

text \<open>The state that goes with a list.\<close>

fun list_state :: "listid \<Rightarrow> threadstate" where
  "list_state (RunQ c) = S_READY"
| "list_state (Zombies c) = S_ZOMBIE"
| "list_state (Wchan w) = S_SLEEP"
| "list_state (Local k) = S_RUN"

lemma queues_ok_add:
  assumes q: "queues_ok s W T L" and l: "l \<in> klists (numcpus s) W"
    and rep: "tl_rep (tls s') (klists (numcpus s) W) T (L(l := L l @ [t]))"
    and off: "\<forall>l \<in> klists (numcpus s) W. t \<notin> set (L l)"
    and st: "t_state s' = (t_state s)(t := list_state l)"
    and cpu: "\<And>c. l = RunQ c \<Longrightarrow> t_cpu s t = c" and proc: "\<And>c. l = Zombies c \<Longrightarrow> t_proc s t = None"
    and rest: "t_cpu s' = t_cpu s" "t_proc s' = t_proc s" "numcpus s' = numcpus s"
  shows "queues_ok s' W T (L(l := L l @ [t]))"
  unfolding queues_ok_def rest
proof (intro conjI allI impI ballI)
  note Q = queues_okD [OF q]
  have keep: "t_state s' u = t_state s u" if "u \<in> set (L k)" "k \<in> klists (numcpus s) W" for u k
    using off that st by (metis fun_upd_other)
  have mem: "u \<in> set (L k) \<or> (k = l \<and> u = t)" if "u \<in> set ((L(l := L l @ [t])) k)" for u k
    using that by (cases "k = l") auto
  have new: "t_state s' t = list_state l" by (simp add: st)
  show "tl_rep (tls s') (klists (numcpus s) W) T (L(l := L l @ [t]))" by (rule rep)
  fix c u
  show "t_state s' u = S_READY" if "c < numcpus s" "u \<in> set ((L(l := L l @ [t])) (RunQ c))"
    using mem [OF that(2)] Q(2) [OF that(1), of u] keep [of u "RunQ c"] that(1) new by (elim disjE conjE) (simp, auto)
  show "t_cpu s u = c" if "c < numcpus s" "u \<in> set ((L(l := L l @ [t])) (RunQ c))"
    using mem [OF that(2)] Q(2) [OF that(1), of u] cpu [of c] by (elim disjE conjE) simp_all
  show "t_state s' u = S_ZOMBIE" if "c < numcpus s" "u \<in> set ((L(l := L l @ [t])) (Zombies c))"
    using mem [OF that(2)] Q(3) [OF that(1), of u] keep [of u "Zombies c"] that(1) new by (elim disjE conjE) (simp, auto)
  show "t_proc s u = None" if "c < numcpus s" "u \<in> set ((L(l := L l @ [t])) (Zombies c))"
    using mem [OF that(2)] Q(3) [OF that(1), of u] proc [of c] by (elim disjE conjE) simp_all
  show "t_state s' u = S_SLEEP" if "c \<in> W" "u \<in> set ((L(l := L l @ [t])) (Wchan c))"
    using mem [OF that(2)] Q(4) [OF that(1), of u] keep [of u "Wchan c"] that(1) new by (elim disjE conjE) (simp, auto)
  show "t_cpu s u < numcpus s" if "u \<in> T" using Q(5) that .
qed

lemma thread_next_ok:
  assumes q: "queues_ok s W T L" and c: "curcpu s < numcpus s" "Runqueue_lock (curcpu s) \<in> spins s"
    and n: "L (RunQ (curcpu s)) = n # ns"
  shows "\<exists>s'. thread_next s = Inr (Switched, s') \<and>
    queues_ok s' W T (L(RunQ (curcpu s) := ns, Zombies (curcpu s) := [])) \<and> curthread s' = n \<and>
    t_state s' = (t_state s)(n := S_RUN) \<and> c_isidle s' = (c_isidle s)(curcpu s := False) \<and>
    c_curthread s' = (c_curthread s)(curcpu s := n) \<and> spins s' = spins s - {Runqueue_lock (curcpu s)} \<and>
    t_cpu s' = t_cpu s \<and> numcpus s' = numcpus s \<and> curcpu s' = curcpu s \<and> in_interrupt s' = in_interrupt s \<and>
    vm s' = as_activate (fst (t_space s n)) (snd (t_space s n)) (vm s)"
proof -
  let ?c = "curcpu s"
  let ?D = "klists (numcpus s) W" and ?L1 = "L(RunQ ?c := ns)"
  note Q = queues_okD [OF q]
  have D: "RunQ ?c \<in> ?D" "Zombies ?c \<in> ?D" using c(1) by simp_all
  obtain st where st: "threadlist_remhead (tls s) (RunQ ?c) = Inr (Some n, st)" "tl_rep st ?D T ?L1"
    using threadlist_remhead_ok(2) [OF Q(1) D(1) n] by blast
  let ?s1 = "s\<lparr>tls := st, c_isidle := (c_isidle s)(?c := False), c_curthread := (c_curthread s)(?c := n)\<rparr>"
  let ?s2 = "?s1\<lparr>t_state := (t_state s)(n := S_RUN), spins := spins s - {Runqueue_lock ?c},
    vm := as_activate (fst (t_space s n)) (snd (t_space s n)) (vm s)\<rparr>"
  have nz: "z \<noteq> n \<and> t_state s z = S_ZOMBIE \<and> t_proc s z = None" if "z \<in> set (L (Zombies ?c))" for z
    using Q(3) [OF c(1) that] Q(2) [OF c(1), of n] n by auto
  have r2: "tl_rep (tls ?s2) ?D T ?L1" "Zombies (curcpu ?s2) \<in> ?D" using st(2) D(2) by simp_all
  have z2: "\<forall>z \<in> set (?L1 (Zombies (curcpu ?s2))). z \<noteq> curthread ?s2 \<and> t_state ?s2 z = S_ZOMBIE \<and> t_proc ?s2 z = None"
    using nz by (auto simp: curthread_def)
  obtain st' where ex: "exorcise ?s2 = Inr (?s2\<lparr>tls := st'\<rparr>)" "tl_rep st' ?D T (?L1(Zombies (curcpu ?s2) := []))"
    using exorcise_ok [OF r2 z2] by blast
  have "thread_arrive ?s1 = exorcise ?s2"
    using c(2) by (simp add: thread_arrive_def curthread_def Let_def split: prod.split)
  then have "thread_next s = Inr (Switched, ?s2\<lparr>tls := st'\<rparr>)"
    using st(1) ex(1) by (simp add: thread_next_def tl_take_def Let_def)
  moreover have "queues_ok (?s2\<lparr>tls := st'\<rparr>) W T (L(RunQ ?c := ns, Zombies ?c := []))"
  proof (rule queues_ok_shrink [OF q])
    show "tl_rep (tls (?s2\<lparr>tls := st'\<rparr>)) ?D T (L(RunQ ?c := ns, Zombies ?c := []))" using ex(2) by simp
    have "n \<notin> set ((L(RunQ ?c := ns, Zombies ?c := [])) l)" if "l \<in> ?D" for l
      using tl_repD(3) [OF Q(1) that D(1)] tl_repD(1) [OF Q(1) D(1)] n by (cases "l = RunQ ?c") (auto simp: is_list_def)
    then show "t_state (?s2\<lparr>tls := st'\<rparr>) t = t_state s t" if "l \<in> ?D" "t \<in> set ((L(RunQ ?c := ns, Zombies ?c := [])) l)" for l t
      using that by auto
    show "set ((L(RunQ ?c := ns, Zombies ?c := [])) l) \<subseteq> set (L l)" for l using n by auto
  qed simp_all
  ultimately show ?thesis by (intro exI [of _ "?s2\<lparr>tls := st'\<rparr>"]) (simp add: curthread_def)
qed

text \<open>Where a thread that stops running goes.\<close>

definition place_list :: "threadstate \<Rightarrow> nat \<Rightarrow> nat \<Rightarrow> listid" where
  "place_list st c wc = (case st of S_SLEEP \<Rightarrow> Wchan wc | S_ZOMBIE \<Rightarrow> Zombies c | _ \<Rightarrow> RunQ c)"

lemma thread_place_ok:
  assumes q: "queues_ok s W T L" and c: "curcpu s < numcpus s" "Runqueue_lock (curcpu s) \<in> spins s" "Ipi_lock (curcpu s) \<notin> spins s"
    and cur: "curthread s \<in> T" "t_cpu s (curthread s) = curcpu s" "\<forall>l \<in> klists (numcpus s) W. curthread s \<notin> set (L l)"
    and ns: "newstate \<noteq> S_RUN" "newstate = S_SLEEP \<Longrightarrow> wc \<in> W \<and> lk \<in> spins s"
      "newstate = S_ZOMBIE \<Longrightarrow> t_proc s (curthread s) = None"
  shows "\<exists>s'. thread_place newstate wc lk s = Inr s' \<and>
    queues_ok s' W T (L(place_list newstate (curcpu s) wc := L (place_list newstate (curcpu s) wc) @ [curthread s])) \<and>
    t_state s' = (t_state s)(curthread s := newstate) \<and> t_cpu s' = t_cpu s \<and>
    same_rest (s\<lparr>spins := (if newstate = S_SLEEP then spins s - {lk} else spins s)\<rparr>) s'"
proof -
  let ?t = "curthread s" and ?c = "curcpu s" and ?D = "klists (numcpus s) W"
  let ?l = "place_list newstate ?c wc"
  note rep = queues_okD(1) [OF q]
  have l: "?l \<in> ?D" "list_state ?l = newstate"
    using c(1) ns by (cases newstate; simp add: place_list_def)+
  have cond: "t_cpu s ?t = c'" if "?l = RunQ c'" for c' using that cur(2) ns(1) by (cases newstate) (simp_all add: place_list_def)
  have cond2: "t_proc s ?t = None" if "?l = Zombies c'" for c' using that ns(3) by (cases newstate) (simp_all add: place_list_def)
  obtain s' where s': "thread_place newstate wc lk s = Inr s'" "tl_rep (tls s') ?D T (L(?l := L ?l @ [?t]))"
    "t_state s' = (t_state s)(?t := newstate)" "t_cpu s' = t_cpu s"
    "same_rest (s\<lparr>spins := (if newstate = S_SLEEP then spins s - {lk} else spins s)\<rparr>) s'"
  proof (cases "newstate = S_READY")
    case True
    have pl: "?l = RunQ ?c" using True by (simp add: place_list_def)
    obtain s1 where s1: "thread_make_runnable ?t True s = Inr s1" "tl_rep (tls s1) ?D T (L(RunQ (t_cpu s ?t) := L (RunQ (t_cpu s ?t)) @ [?t]))"
      "t_state s1 = (t_state s)(?t := S_READY)" "t_cpu s1 = t_cpu s" "same_rest s s1"
      using thread_make_runnable_ok [OF rep _ cur(1,3), of True] c cur(2) by auto
    show thesis
    proof (rule that)
      show "thread_place newstate wc lk s = Inr (s1\<lparr>t_state := (t_state s1)(?t := newstate)\<rparr>)"
        using s1(1) True by (simp add: thread_place_def)
    qed (use s1 True pl cur(2) in \<open>simp_all add: same_rest_def\<close>)
  next
    case False
    then have ls: "newstate = S_SLEEP \<or> newstate = S_ZOMBIE" using ns(1) by (cases newstate) auto
    obtain st where st: "threadlist_addtail (tls s) ?l ?t = Inr st" "tl_rep st ?D T (L(?l := L ?l @ [?t]))"
      using threadlist_addtail_ok [OF rep l(1) cur(1,3)] by blast
    show thesis
    proof (rule that)
      show "thread_place newstate wc lk s = Inr (s\<lparr>tls := st,
          spins := (if newstate = S_SLEEP then spins s - {lk} else spins s), t_state := (t_state s)(?t := newstate)\<rparr>)"
        using ls st(1) ns(2) by (auto simp: thread_place_def tl_op_def place_list_def Let_def)
    qed (use st in \<open>simp_all add: same_rest_def\<close>)
  qed
  have "queues_ok s' W T (L(?l := L ?l @ [?t]))"
    using s' l cond cond2 by (intro queues_ok_add [OF q l(1) _ cur(3)]) (simp_all add: same_rest_def)
  then show ?thesis using s' by blast
qed

text \<open>The lists after the current thread has been put in its place.\<close>

definition placed :: "'f sched \<Rightarrow> threadstate \<Rightarrow> nat \<Rightarrow> (listid \<Rightarrow> thread list) \<Rightarrow> listid \<Rightarrow> thread list" where
  "placed s newstate wc L =
     (let l = place_list newstate (curcpu s) wc in L(l := L l @ [curthread s]))"

lemma sched_invD:
  assumes "sched_inv s W T L"
  shows "queues_ok s W T L" "running_ok s W T L" "curcpu s < numcpus s"
  using assms by (simp_all add: sched_inv_def)

lemma running_okD:
  assumes "running_ok s W T L" "c < numcpus s" "\<not> c_isidle s c"
  shows "c_curthread s c \<in> T" "t_state s (c_curthread s c) = S_RUN" "t_cpu s (c_curthread s c) = c"
    "\<forall>l \<in> klists (numcpus s) W. c_curthread s c \<notin> set (L l)"
  using assms unfolding running_ok_def by blast+

text \<open>The other processors are not disturbed when the lists only gain the current thread.\<close>

lemma running_ok_switch:
  assumes run: "running_ok s W T L" and c: "curcpu s < numcpus s" "\<not> c_isidle s (curcpu s)"
    and sub: "\<And>l. l \<in> klists (numcpus s) W \<Longrightarrow> set (L' l) \<subseteq> insert (curthread s) (set (L l))"
    and same: "numcpus s' = numcpus s" "t_cpu s' = t_cpu s"
    and others: "\<And>c'. c' \<noteq> curcpu s \<Longrightarrow> c_isidle s' c' = c_isidle s c' \<and> c_curthread s' c' = c_curthread s c'"
    and st: "\<And>t. t_cpu s t \<noteq> curcpu s \<Longrightarrow> t_state s' t = t_state s t"
    and own: "\<not> c_isidle s' (curcpu s) \<Longrightarrow> c_curthread s' (curcpu s) \<in> T \<and> t_state s' (c_curthread s' (curcpu s)) = S_RUN \<and>
      t_cpu s (c_curthread s' (curcpu s)) = curcpu s \<and> (\<forall>l \<in> klists (numcpus s) W. c_curthread s' (curcpu s) \<notin> set (L' l))"
  shows "running_ok s' W T L'"
  unfolding running_ok_def same
proof (intro allI impI)
  fix c' assume a: "c' < numcpus s" "\<not> c_isidle s' c'"
  show "c_curthread s' c' \<in> T \<and> t_state s' (c_curthread s' c') = S_RUN \<and> t_cpu s (c_curthread s' c') = c' \<and>
    (\<forall>l \<in> klists (numcpus s) W. c_curthread s' c' \<notin> set (L' l))"
  proof (cases "c' = curcpu s")
    case True
    then show ?thesis using own a by simp
  next
    case False
    have i: "\<not> c_isidle s c'" and e: "c_curthread s' c' = c_curthread s c'" using others [OF False] a(2) by simp_all
    note r = running_okD [OF run a(1) i]
    have cur: "t_cpu s (curthread s) = curcpu s" using running_okD(3) [OF run c] by (simp add: curthread_def)
    have "c_curthread s c' \<noteq> curthread s" using cur r(3) False by auto
    then have "\<forall>l \<in> klists (numcpus s) W. c_curthread s c' \<notin> set (L' l)" using sub r(4) by blast
    moreover have "t_state s' (c_curthread s c') = S_RUN" using st [of "c_curthread s c'"] r(2,3) False by simp
    ultimately show ?thesis using r e by simp
  qed
qed

lemma thread_switch_ok:
  assumes inv: "sched_inv s W T L" and busy: "\<not> c_isidle s (curcpu s)"
    and lk: "Runqueue_lock (curcpu s) \<notin> spins s" "Ipi_lock (curcpu s) \<notin> spins s" "lk \<noteq> Runqueue_lock (curcpu s)"
    and ns: "newstate \<noteq> S_RUN" "newstate = S_SLEEP \<Longrightarrow> wc \<in> W \<and> lk \<in> spins s"
      "newstate = S_ZOMBIE \<Longrightarrow> t_proc s (curthread s) = None"
    and work: "\<not> (newstate = S_READY \<and> L (RunQ (curcpu s)) = [])"
  obtains (idle) s' where "thread_switch newstate wc lk s = Inr (Idling, s')" "placed s newstate wc L (RunQ (curcpu s)) = []"
      "sched_inv s' W T (placed s newstate wc L)" "c_isidle s' = (c_isidle s)(curcpu s := True)" "c_curthread s' = c_curthread s"
      "spins s' = (if newstate = S_SLEEP then spins s - {lk} else spins s)"
      "in_interrupt s' = in_interrupt s" "numcpus s' = numcpus s" "curcpu s' = curcpu s"
    | (switch) s' n ns where "thread_switch newstate wc lk s = Inr (Switched, s')"
      "placed s newstate wc L (RunQ (curcpu s)) = n # ns" "curthread s' = n"
      "sched_inv s' W T ((placed s newstate wc L)(RunQ (curcpu s) := ns, Zombies (curcpu s) := []))"
      "vm s' = as_activate (fst (t_space s n)) (snd (t_space s n)) (vm s)"
      "spins s' = (if newstate = S_SLEEP then spins s - {lk} else spins s)"
      "c_isidle s' = c_isidle s" "c_curthread s' = (c_curthread s)(curcpu s := n)"
      "in_interrupt s' = in_interrupt s" "numcpus s' = numcpus s" "curcpu s' = curcpu s"
proof -
  let ?c = "curcpu s" and ?t = "curthread s"
  define L1 where "L1 = placed s newstate wc L"
  note I = sched_invD [OF inv] and rep = queues_okD(1) [OF sched_invD(1) [OF inv]]
  note cur = running_okD [OF I(2,3) busy, folded curthread_def]
  let ?s0 = "s\<lparr>spins := insert (Runqueue_lock ?c) (spins s)\<rparr>"
  have q0: "queues_ok ?s0 W T L" using I(1) by (simp add: queues_ok_def)
  have e0: "curthread ?s0 = ?t" by (simp add: curthread_def)
  have "\<exists>s1. thread_place newstate wc lk ?s0 = Inr s1 \<and> queues_ok s1 W T L1 \<and> t_state s1 = (t_state s)(?t := newstate) \<and>
    t_cpu s1 = t_cpu s \<and> same_rest (?s0\<lparr>spins := (if newstate = S_SLEEP then spins ?s0 - {lk} else spins ?s0)\<rparr>) s1"
    using thread_place_ok [OF q0, of newstate wc lk] I(3) lk cur ns e0 by (simp add: L1_def placed_def Let_def)
  then obtain s1 where s1: "thread_place newstate wc lk ?s0 = Inr s1" "queues_ok s1 W T L1"
    "t_state s1 = (t_state s)(?t := newstate)" "t_cpu s1 = t_cpu s"
    "same_rest (?s0\<lparr>spins := (if newstate = S_SLEEP then spins ?s0 - {lk} else spins ?s0)\<rparr>) s1" by blast
  note sr = s1(5) [unfolded same_rest_def, simplified]
  let ?s2 = "s1\<lparr>c_isidle := (c_isidle s1)(?c := True)\<rparr>"
  have q2: "queues_ok ?s2 W T L1" using s1(2) by (simp add: queues_ok_def)
  have c2: "curcpu ?s2 < numcpus ?s2" "Runqueue_lock (curcpu ?s2) \<in> spins ?s2" using sr I(3) lk(3) by (auto split: if_splits)
  have ts: "thread_switch newstate wc lk s = thread_next ?s2"
    using busy lk(1) work s1(1) count_ok(2) [OF rep, of "RunQ ?c"] I(3)
    by (auto simp: thread_switch_def Let_def)
  have sub: "set (L1 l) \<subseteq> insert ?t (set (L l))" for l by (auto simp: L1_def placed_def Let_def)
  have sp: "spins s1 - {Runqueue_lock ?c} = (if newstate = S_SLEEP then spins s - {lk} else spins s)"
    using sr lk(1,3) by (auto split: if_splits)
  show thesis
  proof (cases "L1 (RunQ ?c)")
    case Nil
    let ?s3 = "?s2\<lparr>spins := spins s1 - {Runqueue_lock ?c}\<rparr>"
    have rep2: "tl_rep (tls ?s2) (klists (numcpus ?s2) W) T L1" using q2 by (rule queues_okD)
    have "threadlist_remhead (tls s1) (RunQ ?c) = Inr (None, tls s1)"
      using threadlist_remhead_ok(1) [OF rep2, of "RunQ ?c"] Nil c2(1) sr by simp
    then have "thread_next ?s2 = Inr (Idling, ?s3)"
      using c2(2) sr by (simp add: thread_next_def tl_take_def Let_def)
    moreover have "queues_ok ?s3 W T L1" using q2 by (simp add: queues_ok_def)
    moreover have "running_ok ?s3 W T L1"
      by (rule running_ok_switch [OF I(2,3) busy sub]) (use sr s1 cur(3) in auto)
    ultimately show thesis
      using idle [of ?s3] ts Nil I(3) sr sp inv by (simp add: L1_def sched_inv_def)
  next
    case (Cons n nss)
    let ?L2 = "L1(RunQ ?c := nss, Zombies ?c := [])"
    have Cons2: "L1 (RunQ (curcpu ?s2)) = n # nss" using Cons sr by simp
    have rep2: "tl_rep (tls ?s2) (klists (numcpus ?s2) W) T L1" using q2 by (rule queues_okD)
    obtain s' where s': "thread_next ?s2 = Inr (Switched, s')" "queues_ok s' W T ?L2" "curthread s' = n"
      "t_state s' = (t_state s1)(n := S_RUN)" "c_isidle s' = (c_isidle ?s2)(?c := False)"
      "c_curthread s' = (c_curthread s1)(?c := n)" "spins s' = spins s1 - {Runqueue_lock ?c}"
      "t_cpu s' = t_cpu s1" "numcpus s' = numcpus s1" "curcpu s' = curcpu s1" "in_interrupt s' = in_interrupt s1"
      "vm s' = as_activate (fst (t_space s1 n)) (snd (t_space s1 n)) (vm s1)"
      using thread_next_ok [OF q2 c2 Cons2] sr by auto
    have n: "t_cpu s n = ?c" "n \<in> T"
      using queues_okD(2) [OF q2, of ?c n] tl_repD(2) [OF rep2, of "RunQ ?c"] Cons c2(1) s1(4) sr by auto
    have dn: "n \<notin> set (?L2 l)" if "l \<in> klists (numcpus s) W" for l
      using tl_repD(3) [OF rep2, of l "RunQ ?c"] tl_repD(1) [OF rep2, of "RunQ ?c"] Cons that c2(1) sr
      by (cases "l = RunQ ?c") (auto simp: is_list_def)
    have "running_ok s' W T ?L2"
    proof (rule running_ok_switch [OF I(2,3) busy])
      show "set (?L2 l) \<subseteq> insert ?t (set (L l))" for l using sub [of l] sub [of "RunQ ?c"] Cons by auto
      show "t_state s' t = t_state s t" if "t_cpu s t \<noteq> ?c" for t using that s'(4) s1(3) n cur(3) by auto
    qed (use s' s1 sr n dn in auto)
    moreover have "(c_isidle s)(?c := False) = c_isidle s" using busy by (intro fun_upd_idem) simp
    ultimately show thesis
      using switch [of s' n nss] ts s' Cons I(3) sr sp inv by (simp add: L1_def sched_inv_def)
  qed
qed

text \<open>An idle processor that looks at its run queue again.\<close>

lemma thread_unidle_ok:
  assumes inv: "sched_inv s W T L" and idle: "c_isidle s (curcpu s)" and lk: "Runqueue_lock (curcpu s) \<notin> spins s"
  shows "L (RunQ (curcpu s)) = [] \<Longrightarrow> thread_unidle s = Inr (Idling, s)"
    and "L (RunQ (curcpu s)) = n # ns \<Longrightarrow> \<exists>s'. thread_unidle s = Inr (Switched, s') \<and>
      sched_inv s' W T (L(RunQ (curcpu s) := ns, Zombies (curcpu s) := [])) \<and> c_isidle s' = (c_isidle s)(curcpu s := False) \<and>
      c_curthread s' = (c_curthread s)(curcpu s := n) \<and> spins s' = spins s \<and> in_interrupt s' = in_interrupt s \<and>
      numcpus s' = numcpus s \<and> curcpu s' = curcpu s"
proof -
  let ?c = "curcpu s" and ?s0 = "s\<lparr>spins := insert (Runqueue_lock (curcpu s)) (spins s)\<rparr>"
  note I = sched_invD [OF inv] and rep = queues_okD(1) [OF sched_invD(1) [OF inv]]
  have q0: "queues_ok ?s0 W T L" using I(1) by (simp add: queues_ok_def)
  have c0: "curcpu ?s0 < numcpus ?s0" "Runqueue_lock (curcpu ?s0) \<in> spins ?s0" using I(3) by simp_all
  have un: "thread_unidle s = thread_next ?s0" using lk by (simp add: thread_unidle_def)
  have sp: "insert (Runqueue_lock ?c) (spins s) - {Runqueue_lock ?c} = spins s" using lk by auto
  show "thread_unidle s = Inr (Idling, s)" if "L (RunQ ?c) = []"
    unfolding un using threadlist_remhead_ok(1) [OF rep, of "RunQ ?c"] that I(3) sp
    by (simp add: thread_next_def tl_take_def Let_def)
  assume L: "L (RunQ ?c) = n # ns"
  let ?L = "L(RunQ ?c := ns, Zombies ?c := [])"
  have L0: "L (RunQ (curcpu ?s0)) = n # ns" using L by simp
  obtain s' where s': "thread_next ?s0 = Inr (Switched, s')" "queues_ok s' W T ?L" "t_state s' = (t_state s)(n := S_RUN)"
    "c_isidle s' = (c_isidle s)(?c := False)" "c_curthread s' = (c_curthread s)(?c := n)" "spins s' = spins s"
    "t_cpu s' = t_cpu s" "numcpus s' = numcpus s" "curcpu s' = curcpu s" "in_interrupt s' = in_interrupt s"
    using thread_next_ok [OF q0 c0 L0] sp by auto
  have n: "t_cpu s n = ?c" "n \<in> T"
    using queues_okD(2) [OF I(1,3), of n] tl_repD(2) [OF rep, of "RunQ ?c"] L I(3) by auto
  have dn: "n \<notin> set (?L l)" if "l \<in> klists (numcpus s) W" for l
    using tl_repD(3) [OF rep, of l "RunQ ?c"] tl_repD(1) [OF rep, of "RunQ ?c"] L that I(3)
    by (cases "l = RunQ ?c") (auto simp: is_list_def)
  have "running_ok s' W T ?L"
    unfolding running_ok_def s'(7,8)
  proof (intro allI impI)
    fix c assume c: "c < numcpus s" "\<not> c_isidle s' c"
    show "c_curthread s' c \<in> T \<and> t_state s' (c_curthread s' c) = S_RUN \<and> t_cpu s (c_curthread s' c) = c \<and>
      (\<forall>l \<in> klists (numcpus s) W. c_curthread s' c \<notin> set (?L l))"
    proof (cases "c = ?c")
      case False
      then have "\<not> c_isidle s c" using c(2) s'(4) by simp
      note r = running_okD [OF I(2) c(1) this]
      have "c_curthread s c \<noteq> n" using r(3) n(1) False by auto
      moreover have "set (?L l) \<subseteq> set (L l)" for l using L by auto
      then have "\<forall>l \<in> klists (numcpus s) W. c_curthread s c \<notin> set (?L l)" using r(4) by blast
      ultimately show ?thesis using r(1-3) s'(3,5) False by simp
    qed (use s'(3,5) n dn in auto)
  qed
  then show "\<exists>s'. thread_unidle s = Inr (Switched, s') \<and> sched_inv s' W T ?L \<and> c_isidle s' = (c_isidle s)(?c := False) \<and>
      c_curthread s' = (c_curthread s)(?c := n) \<and> spins s' = spins s \<and> in_interrupt s' = in_interrupt s \<and>
      numcpus s' = numcpus s \<and> curcpu s' = curcpu s"
    using un s' inv by (intro exI [of _ s']) (simp add: sched_inv_def)
qed

section \<open>Waking threads\<close>

lemma running_ok_lists:
  assumes "running_ok s W T L" "numcpus s' = numcpus s" "c_isidle s' = c_isidle s" "c_curthread s' = c_curthread s"
    and "\<And>t. (\<forall>l \<in> klists (numcpus s) W. t \<notin> set (L l)) \<Longrightarrow>
      t_state s' t = t_state s t \<and> t_cpu s' t = t_cpu s t \<and> (\<forall>l \<in> klists (numcpus s) W. t \<notin> set (L' l))"
  shows "running_ok s' W T L'"
  using assms unfolding running_ok_def by simp

lemma wchan_wakeone_ok:
  assumes inv: "sched_inv s W T L" and w: "w \<in> W" "lk \<in> spins s"
    and locks: "\<forall>c. Runqueue_lock c \<notin> spins s \<and> Ipi_lock c \<notin> spins s"
  shows "L (Wchan w) = [] \<Longrightarrow> wchan_wakeone w lk s = Inr s"
    and "L (Wchan w) = t # ts \<Longrightarrow> \<exists>s'. wchan_wakeone w lk s = Inr s' \<and> t_state s' t = S_READY \<and> same_rest s s' \<and>
      sched_inv s' W T (L(Wchan w := ts, RunQ (t_cpu s t) := L (RunQ (t_cpu s t)) @ [t]))"
proof -
  note I = sched_invD [OF inv] and Q = queues_okD [OF sched_invD(1) [OF inv]]
  let ?D = "klists (numcpus s) W"
  have wD: "Wchan w \<in> ?D" using w by simp
  show "wchan_wakeone w lk s = Inr s" if "L (Wchan w) = []"
    using threadlist_remhead_ok(1) [OF Q(1) wD that] w(2) by (simp add: wchan_wakeone_def tl_take_def)
  assume L: "L (Wchan w) = t # ts"
  let ?c = "t_cpu s t" and ?L1 = "L(Wchan w := ts)"
  obtain st where st: "threadlist_remhead (tls s) (Wchan w) = Inr (Some t, st)" "tl_rep st ?D T ?L1"
    using threadlist_remhead_ok(2) [OF Q(1) wD L] by blast
  let ?s1 = "s\<lparr>tls := st\<rparr>"
  have t: "t \<in> T" "t \<notin> set ts" using tl_repD(1,2) [OF Q(1) wD] L by (simp_all add: is_list_def)
  have c: "?c < numcpus s" using Q(5) [OF t(1)] .
  have off: "\<forall>l \<in> ?D. t \<notin> set (?L1 l)"
  proof
    fix l assume "l \<in> ?D"
    then show "t \<notin> set (?L1 l)" using tl_repD(3) [OF Q(1) _ wD, of l] L t(2) by (cases "l = Wchan w") auto
  qed
  have q1: "queues_ok ?s1 W T ?L1"
    by (rule queues_ok_shrink [OF I(1)]) (use st(2) L in auto)
  obtain s' where s': "thread_make_runnable t False ?s1 = Inr s'" "tl_rep (tls s') ?D T (?L1(RunQ ?c := ?L1 (RunQ ?c) @ [t]))"
    "t_state s' = (t_state s)(t := S_READY)" "t_cpu s' = t_cpu s" "same_rest ?s1 s'"
    using thread_make_runnable_ok [of ?s1 ?D T ?L1 t False] st(2) c t(1) off locks by auto
  let ?L2 = "L(Wchan w := ts, RunQ ?c := L (RunQ ?c) @ [t])"
  have q2: "queues_ok s' W T (?L1(RunQ ?c := ?L1 (RunQ ?c) @ [t]))"
    using s' c off by (intro queues_ok_add [OF q1]) (auto simp: same_rest_def)
  have "running_ok s' W T ?L2"
  proof (rule running_ok_lists [OF I(2)])
    fix u assume u: "\<forall>l \<in> ?D. u \<notin> set (L l)"
    then have n: "u \<notin> set (t # ts)" using L wD by metis
    have "u \<notin> set (?L2 l)" if "l \<in> ?D" for l
      using u [rule_format, OF that] u [rule_format, of "RunQ ?c"] n c by (cases "l = RunQ ?c"; cases "l = Wchan w") simp_all
    then show "t_state s' u = t_state s u \<and> t_cpu s' u = t_cpu s u \<and> (\<forall>l \<in> ?D. u \<notin> set (?L2 l))"
      using n s'(3,4) by simp
  qed (use s'(5) in \<open>simp_all add: same_rest_def\<close>)
  moreover have "wchan_wakeone w lk s = Inr s'" using st(1) s'(1) w(2) by (simp add: wchan_wakeone_def tl_take_def)
  ultimately show "\<exists>s'. wchan_wakeone w lk s = Inr s' \<and> t_state s' t = S_READY \<and> same_rest s s' \<and> sched_inv s' W T ?L2"
    using q2 s'(3,5) inv by (auto simp: sched_inv_def same_rest_def)
qed

text \<open>Several threads go to the run queues of their processors, in order.\<close>

definition woken :: "(thread \<Rightarrow> nat) \<Rightarrow> thread list \<Rightarrow> (listid \<Rightarrow> thread list) \<Rightarrow> listid \<Rightarrow> thread list" where
  "woken cpu ts L l = (case l of RunQ c \<Rightarrow> L l @ filter (\<lambda>t. cpu t = c) ts | _ \<Rightarrow> L l)"

lemma woken_simps [simp]: "woken cpu ts L (RunQ c) = L (RunQ c) @ filter (\<lambda>t. cpu t = c) ts"
  "woken cpu ts L (Zombies c) = L (Zombies c)" "woken cpu ts L (Wchan w) = L (Wchan w)" "woken cpu ts L (Local k) = L (Local k)"
  by (simp_all add: woken_def)

lemma wakeall_loop_ok:
  "tl_rep (tls s) D T L \<Longrightarrow> Local 0 \<in> D \<Longrightarrow> L (Local 0) = ts \<Longrightarrow> length ts \<le> fuel \<Longrightarrow>
   \<forall>t \<in> set ts. RunQ (t_cpu s t) \<in> D \<Longrightarrow> \<forall>c. Runqueue_lock c \<notin> spins s \<and> Ipi_lock c \<notin> spins s \<Longrightarrow>
   \<exists>s'. wakeall_loop fuel s = Inr s' \<and> tl_rep (tls s') D T (woken (t_cpu s) ts (L(Local 0 := []))) \<and>
     t_state s' = (\<lambda>t. if t \<in> set ts then S_READY else t_state s t) \<and> t_cpu s' = t_cpu s \<and> same_rest s s'"
proof (induction ts arbitrary: fuel s L)
  case Nil
  have "woken (t_cpu s) [] (L(Local 0 := [])) = L"
    using Nil(3) by (auto simp: woken_def fun_eq_iff split: listid.split)
  then show ?case using threadlist_remhead_ok(1) [OF Nil(1,2)] Nil(1,3)
    by (subst wakeall_loop.simps) (simp add: tl_take_def)
next
  case (Cons t ts)
  obtain f where f: "fuel = Suc f" using Cons.prems(4) by (cases fuel) auto
  obtain st where st: "threadlist_remhead (tls s) (Local 0) = Inr (Some t, st)" "tl_rep st D T (L(Local 0 := ts))"
    using threadlist_remhead_ok(2) [OF Cons.prems(1-3)] by blast
  let ?s1 = "s\<lparr>tls := st\<rparr>" and ?L1 = "L(Local 0 := ts)" and ?c = "t_cpu s t"
  have t: "t \<in> T" "t \<notin> set ts"
    using tl_repD(1,2) [OF Cons.prems(1,2)] Cons.prems(3) by (simp_all add: is_list_def)
  have off: "\<forall>l \<in> D. t \<notin> set (?L1 l)"
  proof
    fix l assume "l \<in> D"
    then show "t \<notin> set (?L1 l)"
      using tl_repD(3) [OF Cons.prems(1) _ Cons.prems(2), of l] Cons.prems(3) t(2) by (cases "l = Local 0") auto
  qed
  let ?L2 = "?L1(RunQ ?c := ?L1 (RunQ ?c) @ [t])"
  obtain s2 where s2: "thread_make_runnable t False ?s1 = Inr s2" "tl_rep (tls s2) D T ?L2"
    "t_state s2 = (t_state s)(t := S_READY)" "t_cpu s2 = t_cpu s" "same_rest ?s1 s2"
    using thread_make_runnable_ok [of ?s1 D T ?L1 t False] st(2) Cons.prems(5,6) t(1) off by auto
  have p: "?L2 (Local 0) = ts" "length ts \<le> f" "\<forall>t \<in> set ts. RunQ (t_cpu s2 t) \<in> D"
    "\<forall>c. Runqueue_lock c \<notin> spins s2 \<and> Ipi_lock c \<notin> spins s2"
    using Cons.prems(4-6) f s2(4,5) by (auto simp: same_rest_def)
  from Cons.IH [OF s2(2) Cons.prems(2) p]
  obtain s' where s': "wakeall_loop f s2 = Inr s'" "tl_rep (tls s') D T (woken (t_cpu s2) ts (?L2(Local 0 := [])))"
    "t_state s' = (\<lambda>t. if t \<in> set ts then S_READY else t_state s2 t)" "t_cpu s' = t_cpu s2" "same_rest s2 s'" by blast
  have "woken (t_cpu s2) ts (?L2(Local 0 := [])) = woken (t_cpu s) (t # ts) (L(Local 0 := []))"
    using s2(4) by (auto simp: woken_def fun_eq_iff split: listid.split)
  moreover have "wakeall_loop fuel s = Inr s'"
    using st(1) s2(1) s'(1) f by (subst wakeall_loop.simps) (simp add: tl_take_def)
  moreover have "same_rest s s'" using s2(5) s'(5) by (simp add: same_rest_def)
  moreover have "t_state s' = (\<lambda>u. if u \<in> set (t # ts) then S_READY else t_state s u)" using s'(3) s2(3) by auto
  moreover have "t_cpu s' = t_cpu s" using s'(4) s2(4) by simp
  ultimately show ?case using s'(2) by metis
qed

lemma woken_queues_ok:
  assumes q: "queues_ok s W T L" and w: "w \<in> W"
    and rep: "tl_rep (tls s') (klists (numcpus s) W) T (woken (t_cpu s) (L (Wchan w)) (L(Wchan w := [])))"
    and st: "t_state s' = (\<lambda>t. if t \<in> set (L (Wchan w)) then S_READY else t_state s t)"
    and rest: "t_cpu s' = t_cpu s" "t_proc s' = t_proc s" "numcpus s' = numcpus s"
  shows "queues_ok s' W T (woken (t_cpu s) (L (Wchan w)) (L(Wchan w := [])))"
  unfolding queues_ok_def rest
proof (intro conjI allI impI ballI)
  note Q = queues_okD [OF q]
  let ?D = "klists (numcpus s) W" and ?L = "woken (t_cpu s) (L (Wchan w)) (L(Wchan w := []))"
  have stay: "t_state s' t = t_state s t" if "t \<in> set (L l)" "l \<in> ?D" "l \<noteq> Wchan w" for t l
    using tl_repD(3) [OF Q(1) that(2), of "Wchan w"] that w st by auto
  show "tl_rep (tls s') ?D T ?L" by (rule rep)
  fix c t
  show "t_state s' t = S_READY" "t_cpu s t = c" if "c < numcpus s" "t \<in> set (?L (RunQ c))"
    using that Q(2) [OF that(1), of t] stay [of t "RunQ c"] st by auto
  show "t_state s' t = S_ZOMBIE" "t_proc s t = None" if "c < numcpus s" "t \<in> set (?L (Zombies c))"
    using that Q(3) [OF that(1), of t] stay [of t "Zombies c"] by auto
  show "t_state s' t = S_SLEEP" if "c \<in> W" "t \<in> set (?L (Wchan c))"
    using that Q(4) [OF that(1), of t] stay [of t "Wchan c"] by (auto split: if_splits)
  show "t_cpu s t < numcpus s" if "t \<in> T" using Q(5) that .
qed

lemma wchan_wakeall_ok:
  assumes inv: "sched_inv s W T L" and w: "w \<in> W" "lk \<in> spins s"
    and locks: "\<forall>c. Runqueue_lock c \<notin> spins s \<and> Ipi_lock c \<notin> spins s"
  shows "\<exists>s'. wchan_wakeall w lk s = Inr s' \<and> sched_inv s' W T (woken (t_cpu s) (L (Wchan w)) (L(Wchan w := []))) \<and> same_rest s s'"
proof -
  note I = sched_invD [OF inv] and Q = queues_okD [OF sched_invD(1) [OF inv]]
  let ?D = "klists (numcpus s) W" and ?ts = "L (Wchan w)"
  let ?D1 = "insert (Local 0) ?D" and ?L' = "woken (t_cpu s) ?ts (L(Wchan w := []))"
  have wD: "Wchan w \<in> ?D" "Wchan w \<in> ?D1" using w by simp_all
  have n: "unat (tl_count (tls s) (Wchan w)) = length ?ts" by (rule count_ok(1) [OF Q(1) wD(1)])
  have "tl_rep (threadlist_init (tls s) (Local 0)) ?D1 T (L(Local 0 := []))"
    by (rule threadlist_init_ok [OF Q(1)]) simp
  then obtain st where st: "drain threadlist_remhead threadlist_addtail (length ?ts) (threadlist_init (tls s) (Local 0)) (Wchan w) (Local 0) = Inr st"
    "tl_rep st ?D1 T ((L(Local 0 := []))(Wchan w := [], Local 0 := (L(Local 0 := [])) (Local 0) @ (L(Local 0 := [])) (Wchan w)))"
    using tq.drain_ok [OF _ wD(2), where l' = "Local 0" and fuel = "length ?ts"] by force
  let ?s1 = "s\<lparr>tls := st\<rparr>" and ?L1 = "L(Wchan w := [], Local 0 := ?ts)"
  have r1: "tl_rep (tls ?s1) ?D1 T ?L1" using st(2) by (simp add: fun_upd_twist)
  have T: "set ?ts \<subseteq> T" by (rule tl_repD(2) [OF Q(1) wD(1)])
  have p: "Local 0 \<in> ?D1" "?L1 (Local 0) = ?ts" "length ?ts \<le> length ?ts" "\<forall>t \<in> set ?ts. RunQ (t_cpu ?s1 t) \<in> ?D1"
    "\<forall>c. Runqueue_lock c \<notin> spins ?s1 \<and> Ipi_lock c \<notin> spins ?s1"
    using T Q(5) locks by auto
  from wakeall_loop_ok [OF r1 p] obtain s' where
    s': "wakeall_loop (length ?ts) ?s1 = Inr s'" "tl_rep (tls s') ?D1 T (woken (t_cpu ?s1) ?ts (?L1(Local 0 := [])))"
    "t_state s' = (\<lambda>t. if t \<in> set ?ts then S_READY else t_state ?s1 t)" "t_cpu s' = t_cpu ?s1" "same_rest ?s1 s'" by blast
  have cl: "threadlist_cleanup (tls s') (Local 0) = Inr ()" using count_ok(3) [OF s'(2) p(1)] by simp
  let ?L2 = "woken (t_cpu ?s1) ?ts (?L1(Local 0 := []))"
  have D: "?D1 - {Local 0} = ?D" by simp
  have r: "tl_rep (tls s') ?D T ?L2" by (rule tl_rep_drop [OF s'(2), of "Local 0", unfolded D]) simp
  have eq: "?L2 l = ?L' l" if "l \<in> ?D" for l using that by (auto simp: woken_def split: listid.split)
  have r2: "tl_rep (tls s') ?D T ?L'" using r tl_rep_cong [of ?D ?L2 ?L', OF eq] by blast
  have "wchan_wakeall w lk s = Inr s'"
    using w(2) n st(1) s'(1) cl by (simp add: wchan_wakeall_def tl_op_def Let_def)
  moreover have ts: "t_state s' = (\<lambda>t. if t \<in> set ?ts then S_READY else t_state s t)"
    using s'(3) by (simp cong: if_cong)
  moreover have "queues_ok s' W T ?L'"
    using woken_queues_ok [OF I(1) w(1) r2 ts] s'(4,5) by (simp add: same_rest_def)
  moreover have "running_ok s' W T ?L'"
  proof (rule running_ok_lists [OF I(2)])
    fix t assume t: "\<forall>l \<in> ?D. t \<notin> set (L l)"
    then have "t \<notin> set ?ts" using wD(1) by blast
    moreover have "t \<notin> set (?L' l)" if "l \<in> ?D" for l
      using t [rule_format, OF that] calculation by (auto simp: woken_def split: listid.split if_splits)
    ultimately show "t_state s' t = t_state s t \<and> t_cpu s' t = t_cpu s t \<and> (\<forall>l \<in> ?D. t \<notin> set (?L' l))"
      using s'(3,4) by simp
  qed (use s'(5) in \<open>simp_all add: same_rest_def\<close>)
  ultimately show ?thesis using inv s'(5) by (auto simp: sched_inv_def same_rest_def)
qed

end
