(* ===== verification/Migration.thy ===== *)
theory Migration
  imports Sched
begin

text \<open>
  Balancing the run queues (\<^verbatim>\<open>thread_consider_migration\<close> of \<^verbatim>\<open>kern/thread/thread.c\<close>): the current processor
  gives threads to processors that have less than their share. No thread is lost or duplicated,
  and the current thread stays.
\<close>

section \<open>Migration\<close>

fun count_loop :: "nat list \<Rightarrow> u32 \<Rightarrow> u32 \<Rightarrow> 'f sched \<Rightarrow> (u32 \<times> u32 \<times> 'f sched) res" where
  "count_loop [] my_count total_count s = Inr (my_count, total_count, s)"
| "count_loop (c # cs) my_count total_count s =
     bindR (sp_acquire (Runqueue_lock c) s) (\<lambda>s.
     let n = tl_count (tls s) (RunQ c) in
     bindR (sp_release (Runqueue_lock c) s)
       (count_loop cs (if c = curcpu s then n else my_count) (total_count + n)))"

text \<open>Taking threads from the tail of the current run queue.\<close>

fun take_victims :: "nat \<Rightarrow> 'f sched \<Rightarrow> 'f sched res" where
  "take_victims 0 s = Inr s"
| "take_victims (Suc n) s =
     bindR (tl_take (\<lambda>st. threadlist_remtail st (RunQ (curcpu s))) s) (\<lambda>(t0, s).
     case t0 of None \<Rightarrow> Inl NullDeref
     | Some t \<Rightarrow> bindR (tl_op (\<lambda>st. threadlist_addhead st (Local 0) t) s) (take_victims n))"

text \<open>The inner loop: giving victims to processor \<open>c\<close>; \<open>to_send\<close> decreases in every round.\<close>

fun send_to :: "nat \<Rightarrow> u32 \<Rightarrow> nat \<Rightarrow> 'f sched \<Rightarrow> (nat \<times> 'f sched) res" where
  "send_to c one_share 0 s = Inr (0, s)"
| "send_to c one_share (Suc to_send) s =
     (if \<not> tl_count (tls s) (RunQ c) < one_share then Inr (Suc to_send, s)
      else bindR (tl_take (\<lambda>st. threadlist_remhead st (Local 0)) s) (\<lambda>(t0, s).
      case t0 of None \<Rightarrow> Inl NullDeref
      | Some t \<Rightarrow>
          if t = curthread s then
            bindR (tl_op (\<lambda>st. threadlist_addtail st (Local 0) t) s) (send_to c one_share to_send)
          else
            bindR (tl_op (\<lambda>st. threadlist_addtail st (RunQ c) t) (s\<lparr>t_cpu := (t_cpu s)(t := c)\<rparr>)) (\<lambda>s.
            bindR (if c_isidle s c then ipi_send c IPI_UNIDLE s else Inr s) (send_to c one_share to_send))))"

fun send_loop :: "nat list \<Rightarrow> u32 \<Rightarrow> nat \<Rightarrow> 'f sched \<Rightarrow> 'f sched res" where
  "send_loop [] one_share to_send s = Inr s"
| "send_loop (c # cs) one_share to_send s =
     (if to_send = 0 then Inr s
      else if c = curcpu s then send_loop cs one_share to_send s
      else bindR (sp_acquire (Runqueue_lock c) s) (\<lambda>s.
      bindR (send_to c one_share to_send s) (\<lambda>(to_send, s).
      bindR (sp_release (Runqueue_lock c) s) (send_loop cs one_share to_send))))"

definition thread_consider_migration :: "'f sched \<Rightarrow> 'f sched res" where
  "thread_consider_migration s =
     bindR (count_loop [0..<numcpus s] 0 0 s) (\<lambda>(my_count, total_count, s).
     if numcpus s = 0 then Inl DivByZero
     else let one_share = DIVROUNDUP total_count (word_of_nat (numcpus s)); c = curcpu s in
     if my_count < one_share then Inr s
     else let to_send = unat (my_count - one_share) in
     bindR (sp_acquire (Runqueue_lock c) (s\<lparr>tls := threadlist_init (tls s) (Local 0)\<rparr>)) (\<lambda>s.
     bindR (take_victims to_send s) (\<lambda>s.
     bindR (sp_release (Runqueue_lock c) s) (\<lambda>s.
     bindR (send_loop [0..<numcpus s] one_share to_send s) (\<lambda>s.
     bindR (if \<not> threadlist_isempty (tls s) (Local 0) then
              bindR (sp_acquire (Runqueue_lock c) s) (\<lambda>s.
              bindR (tl_op (\<lambda>st. drain threadlist_remhead threadlist_addtail
                       (unat (tl_count st (Local 0))) st (Local 0) (RunQ c)) s) (sp_release (Runqueue_lock c)))
            else Inr s) (\<lambda>s.
     if \<not> threadlist_isempty (tls s) (Local 0) then Inl Kassert
     else bindR (threadlist_cleanup (tls s) (Local 0)) (\<lambda>_. Inr s)))))))"

section \<open>Conservation\<close>

text \<open>
  The state in the middle of a migration that began in \<open>s0\<close>: the threads of the run queues are
  spread over the run queues and the local list, the threads on the local list still belong to the
  current processor, and nothing else has changed.
\<close>

definition ready :: "nat \<Rightarrow> (listid \<Rightarrow> thread list) \<Rightarrow> thread set" where
  "ready n L = (\<Union>c \<in> {..<n}. set (L (RunQ c)))"

definition mig :: "'f sched \<Rightarrow> nat set \<Rightarrow> thread set \<Rightarrow> (listid \<Rightarrow> thread list) \<Rightarrow> 'f sched \<Rightarrow> (listid \<Rightarrow> thread list) \<Rightarrow> bool" where
  "mig s0 W T L0 s L \<longleftrightarrow> tl_rep (tls s) (insert (Local 0) (klists (numcpus s0) W)) T L \<and>
     (\<forall>c < numcpus s0. \<forall>t \<in> set (L (RunQ c)). t_cpu s t = c) \<and>
     (\<forall>t \<in> set (L (Local 0)). t_cpu s t = curcpu s0) \<and>
     ready (numcpus s0) L \<union> set (L (Local 0)) = ready (numcpus s0) L0 \<and>
     (\<forall>l \<in> klists (numcpus s0) W. (\<forall>c. l \<noteq> RunQ c) \<longrightarrow> L l = L0 l) \<and>
     (\<forall>t. t \<notin> ready (numcpus s0) L0 \<or> t = curthread s0 \<longrightarrow> t_cpu s t = t_cpu s0 t) \<and>
     (\<forall>t \<in> T. t_cpu s t < numcpus s0) \<and> t_state s = t_state s0 \<and> same_rest s0 (s\<lparr>spins := spins s0\<rparr>)"

lemma migD:
  assumes "mig s0 W T L0 s L"
  shows "tl_rep (tls s) (insert (Local 0) (klists (numcpus s0) W)) T L"
    "c < numcpus s0 \<Longrightarrow> t \<in> set (L (RunQ c)) \<Longrightarrow> t_cpu s t = c"
    "t \<in> set (L (Local 0)) \<Longrightarrow> t_cpu s t = curcpu s0"
    "ready (numcpus s0) L \<union> set (L (Local 0)) = ready (numcpus s0) L0"
    "l \<in> klists (numcpus s0) W \<Longrightarrow> (\<And>c. l \<noteq> RunQ c) \<Longrightarrow> L l = L0 l"
    "t \<notin> ready (numcpus s0) L0 \<or> t = curthread s0 \<Longrightarrow> t_cpu s t = t_cpu s0 t"
    "t \<in> T \<Longrightarrow> t_cpu s t < numcpus s0" "t_state s = t_state s0"
    "same_rest s0 (s\<lparr>spins := spins s0\<rparr>)" "curcpu s = curcpu s0" "curthread s = curthread s0" "c_isidle s = c_isidle s0"
    "numcpus s = numcpus s0"
  using assms unfolding mig_def by (auto simp: same_rest_def curthread_def)

text \<open>Moving one thread between a run queue and the local list.\<close>

lemma mig_move:
  assumes m: "mig s0 W T L0 s L" and rep: "tl_rep (tls s') (insert (Local 0) (klists (numcpus s0) W)) T L'"
    and c: "c < numcpus s0" and other: "\<And>l. l \<noteq> RunQ c \<Longrightarrow> l \<noteq> Local 0 \<Longrightarrow> L' l = L l"
    and sets: "set (L' (RunQ c)) \<union> set (L' (Local 0)) = set (L (RunQ c)) \<union> set (L (Local 0))"
    and cpuR: "\<And>t. t \<in> set (L' (RunQ c)) \<Longrightarrow> t_cpu s' t = c" and cpuL: "\<And>t. t \<in> set (L' (Local 0)) \<Longrightarrow> t_cpu s' t = curcpu s0"
    and cpu: "\<And>t. t \<notin> set (L (Local 0)) \<or> t = curthread s0 \<Longrightarrow> t_cpu s' t = t_cpu s t"
    and rest: "\<And>t. t \<in> T \<Longrightarrow> t_cpu s' t < numcpus s0" "t_state s' = t_state s" "same_rest (s\<lparr>spins := spins s0\<rparr>) (s'\<lparr>spins := spins s0\<rparr>)"
  shows "mig s0 W T L0 s' L'"
  unfolding mig_def
proof (intro conjI allI impI ballI)
  note M = migD [OF m]
  show "tl_rep (tls s') (insert (Local 0) (klists (numcpus s0) W)) T L'" by (rule rep)
  show "t_cpu s' t = c'" if "c' < numcpus s0" "t \<in> set (L' (RunQ c'))" for c' t
  proof (cases "c' = c")
    case False
    then have t: "t \<in> set (L (RunQ c'))" using that(2) other [of "RunQ c'"] by simp
    then have "t \<notin> set (L (Local 0))" using tl_repD(3) [OF M(1), of "RunQ c'" "Local 0"] that(1) by auto
    then show ?thesis using cpu M(2) [OF that(1) t] by simp
  qed (use that cpuR in simp)
  have "ready (numcpus s0) L' \<union> set (L' (Local 0)) = ready (numcpus s0) L \<union> set (L (Local 0))"
  proof -
    have "ready (numcpus s0) K = (\<Union>d \<in> {..<numcpus s0} - {c}. set (K (RunQ d))) \<union> set (K (RunQ c))" for K
      using c by (auto simp: ready_def)
    moreover have "(\<Union>d \<in> {..<numcpus s0} - {c}. set (L' (RunQ d))) = (\<Union>d \<in> {..<numcpus s0} - {c}. set (L (RunQ d)))"
      using other by auto
    ultimately show ?thesis using sets by (metis sup_assoc)
  qed
  then show "ready (numcpus s0) L' \<union> set (L' (Local 0)) = ready (numcpus s0) L0" using M(4) by simp
  show "L' l = L0 l" if "l \<in> klists (numcpus s0) W" "\<forall>c. l \<noteq> RunQ c" for l
    using M(5) [OF that(1)] other [of l] that by (cases l) auto
  show "t_cpu s' t = t_cpu s0 t" if "t \<notin> ready (numcpus s0) L0 \<or> t = curthread s0" for t
    using that M(4) M(6) [OF that] cpu [of t] by auto
  show "same_rest s0 (s'\<lparr>spins := spins s0\<rparr>)" using same_rest_trans [OF M(9) rest(3)] .
qed (use rest migD(8) [OF m] cpuL in auto)

lemma take_victims_ok:
  "mig s0 W T L0 s L \<Longrightarrow> n \<le> length (L (RunQ (curcpu s0))) \<Longrightarrow> curcpu s0 < numcpus s0 \<Longrightarrow>
   \<exists>s' L'. take_victims n s = Inr s' \<and> mig s0 W T L0 s' L' \<and> length (L' (Local 0)) = n + length (L (Local 0)) \<and> spins s' = spins s"
proof (induction n arbitrary: s L)
  case (Suc n)
  let ?c = "curcpu s0" and ?D = "insert (Local 0) (klists (numcpus s0) W)"
  note M = migD [OF Suc.prems(1)]
  obtain ts t where L: "L (RunQ ?c) = ts @ [t]" using Suc.prems(2) by (cases "L (RunQ ?c)" rule: rev_cases) auto
  have D: "RunQ ?c \<in> ?D" "Local 0 \<in> ?D" using Suc.prems(3) by simp_all
  obtain st where st: "threadlist_remtail (tls s) (RunQ ?c) = Inr (Some t, st)" "tl_rep st ?D T (L(RunQ ?c := ts))"
    using threadlist_remtail_ok(2) [OF M(1) D(1) L] by blast
  have t: "t \<in> T" "t \<notin> set ts" using tl_repD(1,2) [OF M(1) D(1)] L by (simp_all add: is_list_def)
  have off: "\<forall>l \<in> ?D. t \<notin> set ((L(RunQ ?c := ts)) l)"
  proof
    fix l assume l: "l \<in> ?D"
    show "t \<notin> set ((L(RunQ ?c := ts)) l)"
      using tl_repD(3) [OF M(1) l D(1)] L t(2) by (cases "l = RunQ ?c") auto
  qed
  let ?L = "(L(RunQ ?c := ts))(Local 0 := t # (L(RunQ ?c := ts)) (Local 0))"
  obtain st' where st': "threadlist_addhead st (Local 0) t = Inr st'" "tl_rep st' ?D T ?L"
    using threadlist_addhead_ok [OF st(2) D(2) t(1) off] by blast
  have m: "mig s0 W T L0 (s\<lparr>tls := st'\<rparr>) ?L"
    by (rule mig_move [OF Suc.prems(1) _ Suc.prems(3)])
      (use st'(2) L M(2) [OF Suc.prems(3)] M(3,7) in \<open>auto simp: same_rest_def\<close>)
  obtain s' L' where s': "take_victims n (s\<lparr>tls := st'\<rparr>) = Inr s'" "mig s0 W T L0 s' L'"
    "length (L' (Local 0)) = n + length (?L (Local 0))" "spins s' = spins (s\<lparr>tls := st'\<rparr>)"
    using Suc.IH [OF m] Suc.prems(2,3) L by auto
  have "take_victims (Suc n) s = Inr s'" using st(1) st'(1) s'(1) M(10) by (simp add: tl_take_def tl_op_def)
  then show ?case using s'(2-4) by auto
qed auto

text \<open>One victim goes to processor \<open>c\<close>, or back to the local list when it is the current thread.\<close>

lemma send_one:
  assumes m: "mig s0 W T L0 s L" and c: "c < numcpus s0" and L: "L (Local 0) = t # ts" and ipi: "Ipi_lock c \<notin> spins s"
    and go: "tl_count (tls s) (RunQ c) < one_share"
  shows "\<exists>s' L'. send_to c one_share (Suc n) s = send_to c one_share n s' \<and> mig s0 W T L0 s' L' \<and>
    length ts \<le> length (L' (Local 0)) \<and> spins s' = spins s"
proof -
  let ?D = "insert (Local 0) (klists (numcpus s0) W)"
  note M = migD [OF m]
  have D: "RunQ c \<in> ?D" "Local 0 \<in> ?D" using c by simp_all
  obtain st where st: "threadlist_remhead (tls s) (Local 0) = Inr (Some t, st)" "tl_rep st ?D T (L(Local 0 := ts))"
    using threadlist_remhead_ok(2) [OF M(1) D(2) L] by blast
  have t: "t \<in> T" "t \<notin> set ts" using tl_repD(1,2) [OF M(1) D(2)] L by (simp_all add: is_list_def)
  have off: "\<forall>l \<in> ?D. t \<notin> set ((L(Local 0 := ts)) l)"
  proof
    fix l assume l: "l \<in> ?D"
    show "t \<notin> set ((L(Local 0 := ts)) l)"
      using tl_repD(3) [OF M(1) l D(2)] L t(2) by (cases "l = Local 0") auto
  qed
  show ?thesis
  proof (cases "t = curthread s")
    case True
    let ?L = "(L(Local 0 := ts))(Local 0 := (L(Local 0 := ts)) (Local 0) @ [t])"
    obtain st' where st': "threadlist_addtail st (Local 0) t = Inr st'" "tl_rep st' ?D T ?L"
      using threadlist_addtail_ok [OF st(2) D(2) t(1) off] by blast
    have "mig s0 W T L0 (s\<lparr>tls := st'\<rparr>) ?L"
      by (rule mig_move [OF m _ c]) (use st'(2) L M(2) [OF c] M(3,7) in \<open>auto simp: same_rest_def\<close>)
    then show ?thesis using True go st(1) st'(1)
      by (intro exI [of _ "s\<lparr>tls := st'\<rparr>"] exI [of _ ?L]) (simp add: tl_take_def tl_op_def curthread_def)
  next
    case False
    let ?L = "(L(Local 0 := ts))(RunQ c := (L(Local 0 := ts)) (RunQ c) @ [t])"
    obtain st' where st': "threadlist_addtail st (RunQ c) t = Inr st'" "tl_rep st' ?D T ?L"
      using threadlist_addtail_ok [OF st(2) D(1) t(1) off] by blast
    let ?s = "s\<lparr>t_cpu := (t_cpu s)(t := c), tls := st'\<rparr>"
    have "\<exists>s'. (if c_isidle s c then ipi_send c IPI_UNIDLE ?s else Inr ?s) = Inr s' \<and> tls s' = st' \<and>
        t_cpu s' = (t_cpu s)(t := c) \<and> t_state s' = t_state s \<and> same_rest s s'"
      using ipi ipi_send_ok [of c ?s IPI_UNIDLE] by (auto simp: same_rest_def IPI_UNIDLE_def)
    then obtain s' where s': "(if c_isidle s c then ipi_send c IPI_UNIDLE ?s else Inr ?s) = Inr s'" "tls s' = st'"
      "t_cpu s' = (t_cpu s)(t := c)" "t_state s' = t_state s" "same_rest s s'" by blast
    have nt: "t \<notin> set (L (RunQ c))" using off [rule_format, OF D(1)] by simp
    have "mig s0 W T L0 s' ?L"
      by (rule mig_move [OF m _ c])
        (use st'(2) s' L M(2) [OF c] M(3,7,11) nt t(2) False c in \<open>auto simp: same_rest_def\<close>)
    then show ?thesis using False go st(1) st'(1) s'
      by (intro exI [of _ s'] exI [of _ ?L]) (simp add: tl_take_def tl_op_def curthread_def same_rest_def)
  qed
qed

lemma send_to_ok:
  "mig s0 W T L0 s L \<Longrightarrow> c < numcpus s0 \<Longrightarrow> n \<le> length (L (Local 0)) \<Longrightarrow> Ipi_lock c \<notin> spins s \<Longrightarrow>
   \<exists>k s' L'. send_to c one_share n s = Inr (k, s') \<and> mig s0 W T L0 s' L' \<and> k \<le> length (L' (Local 0)) \<and> spins s' = spins s"
proof (induction n arbitrary: s L)
  case (Suc n)
  obtain t ts where L: "L (Local 0) = t # ts" using Suc.prems(3) by (cases "L (Local 0)") auto
  show ?case
  proof (cases "tl_count (tls s) (RunQ c) < one_share")
    case True
    obtain s1 L1 where s1: "send_to c one_share (Suc n) s = send_to c one_share n s1" "mig s0 W T L0 s1 L1"
      "length ts \<le> length (L1 (Local 0))" "spins s1 = spins s"
      using send_one [OF Suc.prems(1,2) L Suc.prems(4) True] by blast
    have "n \<le> length (L1 (Local 0))" using Suc.prems(3) L s1(3) by simp
    then show ?thesis using Suc.IH [OF s1(2) Suc.prems(2)] s1(1,4) Suc.prems(4) by metis
  qed (use Suc.prems in auto)
qed auto

lemma mig_spins: "mig s0 W T L0 s L \<Longrightarrow> mig s0 W T L0 (s\<lparr>spins := S\<rparr>) L"
  by (simp add: mig_def same_rest_def)

lemma unlock_spins: "l \<notin> S \<Longrightarrow> insert l S - {l} = S"
  by auto

lemma send_loop_ok:
  "mig s0 W T L0 s L \<Longrightarrow> \<forall>c \<in> set cs. c < numcpus s0 \<Longrightarrow> n \<le> length (L (Local 0)) \<Longrightarrow>
   \<forall>c. Runqueue_lock c \<notin> spins s \<and> Ipi_lock c \<notin> spins s \<Longrightarrow>
   \<exists>s' L'. send_loop cs one_share n s = Inr s' \<and> mig s0 W T L0 s' L' \<and> spins s' = spins s"
proof (induction cs arbitrary: s L n)
  case (Cons c cs)
  show ?case
  proof (cases "n = 0 \<or> c = curcpu s")
    case True
    then show ?thesis using Cons.IH [OF Cons.prems(1) _ Cons.prems(3,4)] Cons.prems by (cases "n = 0") auto
  next
    case False
    let ?s = "s\<lparr>spins := insert (Runqueue_lock c) (spins s)\<rparr>"
    have l: "Runqueue_lock c \<notin> spins s" "Ipi_lock c \<notin> spins ?s" "c < numcpus s0" using Cons.prems(2,4) by auto
    obtain k s1 L1 where s1: "send_to c one_share n ?s = Inr (k, s1)" "mig s0 W T L0 s1 L1" "k \<le> length (L1 (Local 0))"
      "spins s1 = insert (Runqueue_lock c) (spins s)"
      using send_to_ok [OF mig_spins [OF Cons.prems(1)] l(3) Cons.prems(3) l(2), of one_share] by auto
    have "\<exists>s' L'. send_loop cs one_share k (s1\<lparr>spins := spins s\<rparr>) = Inr s' \<and> mig s0 W T L0 s' L' \<and> spins s' = spins s"
      using Cons.IH [OF mig_spins [OF s1(2)] _ s1(3), of "spins s"] Cons.prems(2,4) by simp
    then show ?thesis using False s1(1,4) l(1) by (simp add: unlock_spins)
  qed
qed auto

lemma count_loop_ok:
  "\<forall>c. Runqueue_lock c \<notin> spins s \<Longrightarrow> \<exists>total. count_loop cs m n s =
     Inr (if curcpu s \<in> set cs then tl_count (tls s) (RunQ (curcpu s)) else m, total, s)"
proof (induction cs arbitrary: m n)
  case (Cons c cs)
  let ?n = "tl_count (tls s) (RunQ c)" and ?m = "if c = curcpu s then tl_count (tls s) (RunQ c) else m"
  obtain total where "count_loop cs ?m (n + ?n) s =
     Inr (if curcpu s \<in> set cs then tl_count (tls s) (RunQ (curcpu s)) else ?m, total, s)"
    using Cons.IH [OF Cons.prems] by blast
  moreover have "(if curcpu s \<in> set cs then tl_count (tls s) (RunQ (curcpu s)) else ?m) =
     (if curcpu s \<in> set (c # cs) then tl_count (tls s) (RunQ (curcpu s)) else m)" by auto
  moreover have "count_loop (c # cs) m n s = count_loop cs ?m (n + ?n) s"
    using Cons.prems by (simp add: unlock_spins Let_def)
  ultimately show ?case by (simp only: exI [of _ total])
qed simp

lemma mig_start:
  assumes inv: "sched_inv s W T L"
  shows "mig s W T L (s\<lparr>tls := threadlist_init (tls s) (Local 0)\<rparr>) (L(Local 0 := []))"
proof -
  note Q = queues_okD [OF sched_invD(1) [OF inv]]
  have "tl_rep (threadlist_init (tls s) (Local 0)) (insert (Local 0) (klists (numcpus s) W)) T (L(Local 0 := []))"
    by (rule threadlist_init_ok [OF Q(1)]) (auto simp: klists_def)
  then show ?thesis using Q(2,5) by (auto simp: mig_def ready_def same_rest_def klists_def)
qed

lemma mig_end:
  assumes inv: "sched_inv s W T L0" and m: "mig s W T L0 s' L" and e: "L (Local 0) = []" "spins s' = spins s"
  shows "sched_inv s' W T L \<and> same_rest s s' \<and> ready (numcpus s) L = ready (numcpus s) L0 \<and>
    t_state s' = t_state s \<and> (\<forall>l \<in> klists (numcpus s) W. (\<forall>c. l \<noteq> RunQ c) \<longrightarrow> L l = L0 l)"
proof -
  note I = sched_invD [OF inv] and Q = queues_okD [OF sched_invD(1) [OF inv]] and M = migD [OF m]
  have r: "ready (numcpus s) L = ready (numcpus s) L0" using M(4) e(1) by simp
  have sr: "same_rest s s'" using M(9) e(2) by (simp add: same_rest_def)
  note same = sr [unfolded same_rest_def]
  have rep: "tl_rep (tls s') (klists (numcpus s) W) T L"
    using tl_rep_drop [OF M(1) e(1)] by (simp add: klists_def insert_Diff_if image_iff)
  have rdy: "t_state s' t = S_READY" if "c < numcpus s" "t \<in> set (L (RunQ c))" for c t
  proof -
    have "t \<in> ready (numcpus s) L0" using r that by (auto simp: ready_def)
    then show ?thesis using Q(2) M(8) by (auto simp: ready_def)
  qed
  have "queues_ok s' W T L"
    unfolding queues_ok_def using rep rdy M(2,5,7,8) Q(3,4) same by simp
  moreover have "running_ok s' W T L"
  proof (rule running_ok_lists [OF I(2)])
    fix t assume t: "\<forall>l \<in> klists (numcpus s) W. t \<notin> set (L0 l)"
    then have nr: "t \<notin> ready (numcpus s) L0" by (auto simp: ready_def)
    have "t \<notin> set (L l)" if l: "l \<in> klists (numcpus s) W" for l
    proof (cases "\<exists>c. l = RunQ c")
      case True
      then show ?thesis using nr r l by (auto simp: ready_def)
    qed (use M(5) [OF l] t l in auto)
    then show "t_state s' t = t_state s t \<and> t_cpu s' t = t_cpu s t \<and> (\<forall>l \<in> klists (numcpus s) W. t \<notin> set (L l))"
      using M(6,8) nr by simp
  qed (use same in simp_all)
  ultimately show ?thesis using inv same sr r M(5,8) by (simp add: sched_inv_def)
qed

lemma mig_return:
  assumes m: "mig s0 W T L0 s L" and c: "curcpu s0 < numcpus s0"
  shows "\<exists>st. drain threadlist_remhead threadlist_addtail (unat (tl_count (tls s) (Local 0))) (tls s) (Local 0) (RunQ (curcpu s0)) = Inr st \<and>
    mig s0 W T L0 (s\<lparr>tls := st\<rparr>) (L(Local 0 := [], RunQ (curcpu s0) := L (RunQ (curcpu s0)) @ L (Local 0)))"
proof -
  note M = migD [OF m]
  let ?D = "insert (Local 0) (klists (numcpus s0) W)" and ?c = "curcpu s0"
  have D: "Local 0 \<in> ?D" "RunQ ?c \<in> ?D" "Local 0 \<noteq> RunQ ?c" using c by simp_all
  obtain st where st: "drain threadlist_remhead threadlist_addtail (unat (tl_count (tls s) (Local 0))) (tls s) (Local 0) (RunQ ?c) = Inr st"
    "tl_rep st ?D T (L(Local 0 := [], RunQ ?c := L (RunQ ?c) @ L (Local 0)))"
    using tq.drain_ok [OF M(1) D, of "unat (tl_count (tls s) (Local 0))"] count_ok(1) [OF M(1) D(1)] by auto
  have "mig s0 W T L0 (s\<lparr>tls := st\<rparr>) (L(Local 0 := [], RunQ ?c := L (RunQ ?c) @ L (Local 0)))"
    by (rule mig_move [OF m _ c]) (use st(2) M(2) [OF c] M(3,7) in \<open>auto simp: same_rest_def\<close>)
  then show ?thesis using st(1) by blast
qed

lemma thread_consider_migration_ok:
  assumes inv: "sched_inv s W T L" and lk: "\<forall>c. Runqueue_lock c \<notin> spins s \<and> Ipi_lock c \<notin> spins s"
  shows "\<exists>s' L'. thread_consider_migration s = Inr s' \<and> sched_inv s' W T L' \<and> same_rest s s' \<and>
    ready (numcpus s) L' = ready (numcpus s) L \<and>
    t_state s' = t_state s \<and> (\<forall>l \<in> klists (numcpus s) W. (\<forall>c. l \<noteq> RunQ c) \<longrightarrow> L' l = L l)"
proof -
  let ?c = "curcpu s" and ?s0 = "s\<lparr>tls := threadlist_init (tls s) (Local 0)\<rparr>" and ?R = "Runqueue_lock (curcpu s)"
  let ?D = "insert (Local 0) (klists (numcpus s) W)"
  note I = sched_invD [OF inv] and m0 = mig_start [OF inv]
  define my where "my = tl_count (tls s) (RunQ ?c)"
  have my: "unat my = length (L (RunQ ?c))" using count_ok(1) [OF queues_okD(1) [OF I(1)]] I(3) by (simp add: my_def)
  obtain total where cl: "count_loop [0..<numcpus s] 0 0 s = Inr (my, total, s)"
    using count_loop_ok [of s "[0..<numcpus s]" 0 0] lk I(3) by (auto simp: my_def)
  define sh where "sh = DIVROUNDUP total (word_of_nat (numcpus s))"
  define k where "k = unat (my - sh)"
  show ?thesis
  proof (cases "my < sh")
    case True
    then have "thread_consider_migration s = Inr s" using cl I(3) by (simp add: thread_consider_migration_def Let_def sh_def)
    then show ?thesis using inv by auto
  next
    case False
    then have k: "k \<le> length ((L(Local 0 := [])) (RunQ (curcpu s)))"
      using my by (simp add: k_def unat_sub not_less)
    have l: "?R \<notin> spins s" using lk by simp
    obtain s1 L1 where s1: "take_victims k (?s0\<lparr>spins := insert ?R (spins s)\<rparr>) = Inr s1" "mig s W T L s1 L1"
      "length (L1 (Local 0)) = k" "spins s1 = insert ?R (spins s)"
      using take_victims_ok [OF mig_spins [OF m0] k I(3), of "insert ?R (spins s)"] by auto
    let ?s1 = "s1\<lparr>spins := spins s\<rparr>"
    obtain s2 L2 where s2: "send_loop [0..<numcpus s] sh k ?s1 = Inr s2" "mig s W T L s2 L2" "spins s2 = spins s"
      using send_loop_ok [OF mig_spins [OF s1(2)], of "[0..<numcpus s]" k "spins s" sh] s1(3) lk by auto
    have rep2: "tl_rep (tls s2) ?D T L2" by (rule migD(1) [OF s2(2)])
    obtain st where st: "drain threadlist_remhead threadlist_addtail (unat (tl_count (tls s2) (Local 0))) (tls s2) (Local 0) (RunQ ?c) = Inr st"
      "mig s W T L (s2\<lparr>tls := st\<rparr>) (L2(Local 0 := [], RunQ ?c := L2 (RunQ ?c) @ L2 (Local 0)))"
      using mig_return [OF s2(2) I(3)] by blast
    define s3 where "s3 = (if L2 (Local 0) = [] then s2 else s2\<lparr>tls := st\<rparr>)"
    obtain L3 where L3: "mig s W T L s3 L3" "L3 (Local 0) = []" using s2(2) st(2) by (cases "L2 (Local 0) = []") (auto simp: s3_def)
    have rep3: "tl_rep (tls s3) ?D T L3" by (rule migD(1) [OF L3(1)])
    have "thread_consider_migration s = Inr s3"
      using cl False I(3) l s1 s2(1,3) st(1) migD(10,13) [OF s1(2)] count_ok(2) [OF rep2, of "Local 0"]
        count_ok(2,3) [OF rep3, of "Local 0"] L3(2)
      by (simp add: thread_consider_migration_def Let_def tl_op_def unlock_spins sh_def [symmetric] k_def [symmetric] s3_def split: if_splits)
    moreover have "spins s3 = spins s" using s2(3) by (simp add: s3_def)
    ultimately show ?thesis using mig_end [OF inv L3(1,2)] by blast
  qed
qed

end
