(* ===== verification/Runnable.thy ===== *)
theory Runnable
  imports Migration
begin

text \<open>
  Threads that can run: those on a run queue and the current threads of busy processors. Every
  scheduling operation keeps them, except that the thread that goes to sleep leaves them and a
  woken thread joins them.
\<close>

definition live :: "'f sched \<Rightarrow> (listid \<Rightarrow> thread list) \<Rightarrow> thread \<Rightarrow> bool" where
  "live s L t \<longleftrightarrow> t \<in> ready (numcpus s) L \<or> (\<exists>c < numcpus s. \<not> c_isidle s c \<and> c_curthread s c = t)"

text \<open>What a scheduling step keeps for the threads not in \<open>A\<close>.\<close>

definition keeps :: "thread set \<Rightarrow> 'f sched \<Rightarrow> (listid \<Rightarrow> thread list) \<Rightarrow> 'f sched \<Rightarrow> (listid \<Rightarrow> thread list) \<Rightarrow> bool" where
  "keeps A s L s' L' \<longleftrightarrow> numcpus s' = numcpus s \<and> in_interrupt s' = in_interrupt s \<and>
     (\<forall>t. t \<notin> A \<longrightarrow> live s L t \<longrightarrow> live s' L' t)"

lemma live_cases:
  assumes "live s L t"
  obtains (queued) c where "c < numcpus s" "t \<in> set (L (RunQ c))"
    | (running) c where "c < numcpus s" "\<not> c_isidle s c" "c_curthread s c = t"
  using assms unfolding live_def ready_def by blast

lemma live_queued: "c < numcpus s \<Longrightarrow> t \<in> set (L (RunQ c)) \<Longrightarrow> live s L t"
  unfolding live_def ready_def by blast

lemma live_running: "c < numcpus s \<Longrightarrow> \<not> c_isidle s c \<Longrightarrow> c_curthread s c = t \<Longrightarrow> live s L t"
  unfolding live_def by blast

lemma sched_inv_cpu: "c < numcpus s \<Longrightarrow> sched_inv s W T L \<Longrightarrow> sched_inv (s\<lparr>curcpu := c\<rparr>) W T L"
  by (simp add: sched_inv_def queues_ok_def running_ok_def)

lemma live_cpu [simp]: "live (s\<lparr>curcpu := c\<rparr>) = live s"
  by (simp add: live_def fun_eq_iff)

lemma sched_spins: "sched_inv (s\<lparr>spins := S\<rparr>) W T L = sched_inv s W T L" "live (s\<lparr>spins := S\<rparr>) = live s"
    "curthread (s\<lparr>spins := S\<rparr>) = curthread s"
  by (simp_all add: sched_inv_def queues_ok_def running_ok_def live_def fun_eq_iff curthread_def)

lemma live_state:
  assumes "sched_inv s W T L" "live s L t"
  shows "t_state s t \<noteq> S_SLEEP"
  using assms(2)
proof (cases rule: live_cases)
  case (queued c)
  then show ?thesis using queues_okD(2) [OF sched_invD(1) [OF assms(1)] queued] by simp
next
  case (running c)
  then show ?thesis using running_okD(2) [OF sched_invD(2) [OF assms(1)] running(1,2)] by simp
qed

text \<open>A processor that takes the head of its run queue: all other threads stay where they are.\<close>

lemma live_switch:
  assumes c: "c < numcpus s" and n: "numcpus s' = numcpus s" and q: "set (L (RunQ c)) \<subseteq> insert t (set (L' (RunQ c)))"
    and cur: "\<not> c_isidle s' c" "c_curthread s' c = t" and old: "\<not> c_isidle s c \<Longrightarrow> c_curthread s c \<in> A \<union> set (L' (RunQ c)) \<union> {t}"
    and others: "\<And>c'. c' \<noteq> c \<Longrightarrow> L' (RunQ c') = L (RunQ c') \<and> c_isidle s' c' = c_isidle s c' \<and> c_curthread s' c' = c_curthread s c'"
    and u: "live s L u" "u \<notin> A"
  shows "live s' L' u"
  using u(1)
proof (cases rule: live_cases)
  case (queued c')
  show ?thesis
  proof (cases "c' = c")
    case True
    then show ?thesis
      using queued q c n cur live_running [of c s' u L'] live_queued [of c s' u L'] by auto
  next
    case False
    then show ?thesis using queued n others [OF False] live_queued [of c' s' u L'] by simp
  qed
next
  case (running c')
  show ?thesis
  proof (cases "c' = c")
    case True
    then show ?thesis using running old u(2) c n cur live_running [of c s' u L'] live_queued [of c s' u L'] by auto
  next
    case False
    then show ?thesis using running n others [OF False] live_running [of c' s' u L'] by simp
  qed
qed

lemma wchan_sleep_ok:
  assumes inv: "sched_inv s W T L" and busy: "\<not> c_isidle s (curcpu s)" and w: "w \<in> W" and sp: "spins s = {Wlock k}"
    and i: "\<not> in_interrupt s"
  shows "\<exists>r s' L'. wchan_sleep w (Wlock k) s = Inr (r, s') \<and> sched_inv s' W T L' \<and>
    (\<forall>v. L' (Wchan v) = (if v = w then L (Wchan w) @ [curthread s] else L (Wchan v))) \<and> spins s' = {} \<and>
    keeps {curthread s} s L s' L'"
proof -
  let ?c = "curcpu s" and ?L = "placed s S_SLEEP w L"
  have ws: "wchan_sleep w (Wlock k) s = thread_switch S_SLEEP w (Wlock k) s" using sp i by (simp add: wchan_sleep_def)
  have p: "?L = L(Wchan w := L (Wchan w) @ [curthread s])" by (simp add: placed_def place_list_def Let_def)
  have c: "?c < numcpus s" by (rule sched_invD(3) [OF inv])
  have cur: "c_curthread s ?c = curthread s" by (simp add: curthread_def)
  show ?thesis
    unfolding ws
  proof (rule thread_switch_ok [OF inv busy, of "Wlock k" S_SLEEP w])
    fix s' assume a: "thread_switch S_SLEEP w (Wlock k) s = Inr (Idling, s')" "?L (RunQ ?c) = []" "sched_inv s' W T ?L"
      "c_isidle s' = (c_isidle s)(?c := True)" "c_curthread s' = c_curthread s"
      "spins s' = (if S_SLEEP = S_SLEEP then spins s - {Wlock k} else spins s)"
      "in_interrupt s' = in_interrupt s" "numcpus s' = numcpus s"
    have "live s' ?L t" if "t \<noteq> curthread s" "live s L t" for t
      using that(2)
    proof (cases rule: live_cases)
      case (queued c)
      then show ?thesis using a(8) p live_queued [of c s' t ?L] by simp
    next
      case (running c)
      then show ?thesis using that(1) cur a(4,5,8) live_running [of c s' t ?L] by (cases "c = ?c") auto
    qed
    then show "\<exists>r s' L'. thread_switch S_SLEEP w (Wlock k) s = Inr (r, s') \<and> sched_inv s' W T L' \<and>
      (\<forall>v. L' (Wchan v) = (if v = w then L (Wchan w) @ [curthread s] else L (Wchan v))) \<and> spins s' = {} \<and> keeps {curthread s} s L s' L'"
      using a sp p by (intro exI [of _ Idling] exI [of _ s'] exI [of _ ?L]) (simp add: keeps_def)
  next
    fix s' n ns assume a: "thread_switch S_SLEEP w (Wlock k) s = Inr (Switched, s')" "?L (RunQ ?c) = n # ns"
      "sched_inv s' W T (?L(RunQ ?c := ns, Zombies ?c := []))"
      "spins s' = (if S_SLEEP = S_SLEEP then spins s - {Wlock k} else spins s)"
      "c_isidle s' = c_isidle s" "c_curthread s' = (c_curthread s)(?c := n)" "in_interrupt s' = in_interrupt s" "numcpus s' = numcpus s"
    let ?L' = "?L(RunQ ?c := ns, Zombies ?c := [])"
    have "live s' ?L' t" if "live s L t" "t \<notin> {curthread s}" for t
      by (rule live_switch [OF c a(8) _ _ _ _ _ that, where t = n]) (use a p busy cur in auto)
    then show "\<exists>r s' L'. thread_switch S_SLEEP w (Wlock k) s = Inr (r, s') \<and> sched_inv s' W T L' \<and>
      (\<forall>v. L' (Wchan v) = (if v = w then L (Wchan w) @ [curthread s] else L (Wchan v))) \<and> spins s' = {} \<and> keeps {curthread s} s L s' L'"
      using a sp p by (intro exI [of _ Switched] exI [of _ s'] exI [of _ ?L']) (simp add: keeps_def)
  qed (use w sp in auto)
qed

lemma thread_yield_ok:
  assumes inv: "sched_inv s W T L" and busy: "\<not> c_isidle s (curcpu s)" and sp: "spins s = {}"
  shows "\<exists>r s' L'. thread_yield s = Inr (r, s') \<and> sched_inv s' W T L' \<and> (\<forall>v. L' (Wchan v) = L (Wchan v)) \<and> spins s' = {} \<and>
    keeps {} s L s' L'"
proof (cases "L (RunQ (curcpu s))")
  case Nil
  have "thread_yield s = Inr (Unchanged, s)"
    using Nil count_ok(2) [OF queues_okD(1) [OF sched_invD(1) [OF inv]], of "RunQ (curcpu s)"] sched_invD(3) [OF inv] busy sp
    by (cases s) (simp add: thread_yield_def thread_switch_def Let_def)
  then show ?thesis using inv sp by (auto simp: keeps_def)
next
  case (Cons n ns)
  let ?c = "curcpu s"
  have p: "placed s S_READY 0 L = L(RunQ ?c := n # ns @ [curthread s])"
    using Cons by (simp add: placed_def place_list_def Let_def)
  have c: "?c < numcpus s" by (rule sched_invD(3) [OF inv])
  have cur: "c_curthread s ?c = curthread s" by (simp add: curthread_def)
  show ?thesis
    unfolding thread_yield_def
  proof (rule thread_switch_ok [OF inv busy, of "Wlock 0" S_READY 0])
    fix s' n' ns' assume a: "thread_switch S_READY 0 (Wlock 0) s = Inr (Switched, s')" "placed s S_READY 0 L (RunQ ?c) = n' # ns'"
      "sched_inv s' W T ((placed s S_READY 0 L)(RunQ ?c := ns', Zombies ?c := []))"
      "spins s' = (if S_READY = S_SLEEP then spins s - {Wlock 0} else spins s)"
      "c_isidle s' = c_isidle s" "c_curthread s' = (c_curthread s)(?c := n')" "in_interrupt s' = in_interrupt s" "numcpus s' = numcpus s"
    let ?L' = "(placed s S_READY 0 L)(RunQ ?c := ns', Zombies ?c := [])"
    have "live s' ?L' t" if "live s L t" "t \<notin> {}" for t
      by (rule live_switch [OF c a(8) _ _ _ _ _ that, where t = n]) (use a p busy cur Cons in auto)
    then show "\<exists>r s' L'. thread_switch S_READY 0 (Wlock 0) s = Inr (r, s') \<and> sched_inv s' W T L' \<and> (\<forall>v. L' (Wchan v) = L (Wchan v)) \<and>
        spins s' = {} \<and> keeps {} s L s' L'"
      using a sp p by (intro exI [of _ Switched] exI [of _ s'] exI [of _ ?L']) (simp add: keeps_def)
  qed (use sp p Cons in auto)
qed

lemma thread_unidle_keeps:
  assumes inv: "sched_inv s W T L" and idle: "c_isidle s (curcpu s)" and sp: "spins s = {}"
  shows "\<exists>r s' L'. thread_unidle s = Inr (r, s') \<and> sched_inv s' W T L' \<and> (\<forall>v. L' (Wchan v) = L (Wchan v)) \<and> spins s' = {} \<and>
    keeps {} s L s' L'"
proof -
  let ?c = "curcpu s"
  have lk: "Runqueue_lock ?c \<notin> spins s" using sp by simp
  note un = thread_unidle_ok [OF inv idle lk]
  have c: "?c < numcpus s" by (rule sched_invD(3) [OF inv])
  show ?thesis
  proof (cases "L (RunQ ?c)")
    case Nil
    then show ?thesis using un(1) inv sp by (auto simp: keeps_def)
  next
    case (Cons n ns)
    let ?L' = "L(RunQ ?c := ns, Zombies ?c := [])"
    obtain s' where a: "thread_unidle s = Inr (Switched, s')" "sched_inv s' W T ?L'" "c_isidle s' = (c_isidle s)(?c := False)"
      "c_curthread s' = (c_curthread s)(?c := n)" "spins s' = spins s" "in_interrupt s' = in_interrupt s" "numcpus s' = numcpus s"
      using un(2) [OF Cons] by blast
    have "live s' ?L' t" if "live s L t" "t \<notin> {}" for t
      by (rule live_switch [OF c a(7) _ _ _ _ _ that, where t = n]) (use a idle Cons in auto)
    then show ?thesis using a sp by (intro exI [of _ Switched] exI [of _ s'] exI [of _ ?L']) (simp add: keeps_def)
  qed
qed

lemma migration_keeps:
  assumes inv: "sched_inv s W T L" and sp: "spins s = {}"
  shows "\<exists>s' L'. thread_consider_migration s = Inr s' \<and> sched_inv s' W T L' \<and> (\<forall>v \<in> W. L' (Wchan v) = L (Wchan v)) \<and> spins s' = {} \<and>
    keeps {} s L s' L'"
proof -
  obtain s' L' where a: "thread_consider_migration s = Inr s'" "sched_inv s' W T L'" "same_rest s s'"
    "ready (numcpus s) L' = ready (numcpus s) L" "\<forall>l \<in> klists (numcpus s) W. (\<forall>c. l \<noteq> RunQ c) \<longrightarrow> L' l = L l"
    using thread_consider_migration_ok [OF inv] sp by auto
  then show ?thesis using sp by (intro exI [of _ s'] exI [of _ L']) (auto simp: keeps_def live_def same_rest_def)
qed

lemma wchan_wakeone_keeps:
  assumes inv: "sched_inv s W T L" and w: "w \<in> W" and sp: "Wlock k \<in> spins s" "spins s \<subseteq> range Wlock"
  shows "\<exists>s' L'. wchan_wakeone w (Wlock k) s = Inr s' \<and> sched_inv s' W T L' \<and> spins s' = spins s \<and> curthread s' = curthread s \<and>
    curcpu s' = curcpu s \<and> c_isidle s' = c_isidle s \<and>
    (\<forall>v. L' (Wchan v) = (if v = w then drop 1 (L (Wchan w)) else L (Wchan v))) \<and> keeps {} s L s' L' \<and>
    (\<forall>t \<in> set (take 1 (L (Wchan w))). live s' L' t)"
proof (cases "L (Wchan w)")
  case Nil
  have "\<forall>c. Runqueue_lock c \<notin> spins s \<and> Ipi_lock c \<notin> spins s" using sp(2) by auto
  then show ?thesis using wchan_wakeone_ok(1) [OF inv w sp(1) _ Nil] inv Nil
    by (intro exI [of _ s] exI [of _ L]) (auto simp: keeps_def)
next
  case (Cons t ts)
  let ?c = "t_cpu s t"
  let ?L' = "L(Wchan w := ts, RunQ ?c := L (RunQ ?c) @ [t])"
  have "\<forall>c. Runqueue_lock c \<notin> spins s \<and> Ipi_lock c \<notin> spins s" using sp(2) by auto
  then obtain s' where a: "wchan_wakeone w (Wlock k) s = Inr s'" "same_rest s s'" "sched_inv s' W T ?L'"
    using wchan_wakeone_ok(2) [OF inv w sp(1) _ Cons] by blast
  note same = a(2) [unfolded same_rest_def]
  have "t \<in> T" using tl_repD(2) [OF queues_okD(1) [OF sched_invD(1) [OF inv]], of "Wchan w"] Cons w by auto
  then have c: "?c < numcpus s" by (rule queues_okD(5) [OF sched_invD(1) [OF inv]])
  have "live s' ?L' u" if "live s L u" for u
    using that
  proof (cases rule: live_cases)
    case (queued d)
    then show ?thesis using live_queued [of d s' u ?L'] same by (cases "d = ?c") simp_all
  next
    case (running d)
    then show ?thesis using live_running [of d s' u ?L'] same by auto
  qed
  moreover have "live s' ?L' t" using live_queued [of ?c s' t ?L'] same c by simp
  ultimately show ?thesis using a(1,3) same Cons by (intro exI [of _ s'] exI [of _ ?L']) (simp add: keeps_def curthread_def)
qed

text \<open>Waking under a spinlock that is taken and released around it.\<close>

lemma wake_section:
  assumes inv: "sched_inv s W T L" and w: "w \<in> W" and sp: "Wlock k \<notin> spins s" "spins s \<subseteq> range Wlock"
  shows "\<exists>s1 s' L'. wchan_wakeone w (Wlock k) (s\<lparr>spins := insert (Wlock k) (spins s)\<rparr>) = Inr s1 \<and>
    Wlock k \<in> spins s1 \<and> s' = s1\<lparr>spins := spins s1 - {Wlock k}\<rparr> \<and> sched_inv s' W T L' \<and> spins s' = spins s \<and>
    curthread s' = curthread s \<and> curcpu s' = curcpu s \<and> c_isidle s' = c_isidle s \<and>
    (\<forall>v. L' (Wchan v) = (if v = w then drop 1 (L (Wchan w)) else L (Wchan v))) \<and> keeps {} s L s' L' \<and>
    (\<forall>t \<in> set (take 1 (L (Wchan w))). live s' L' t)"
proof -
  let ?s0 = "s\<lparr>spins := insert (Wlock k) (spins s)\<rparr>"
  have i0: "sched_inv ?s0 W T L" "Wlock k \<in> spins ?s0" "spins ?s0 \<subseteq> range Wlock" using inv sp(2) by (simp_all add: sched_spins)
  obtain s1 L' where a: "wchan_wakeone w (Wlock k) ?s0 = Inr s1" "sched_inv s1 W T L'" "spins s1 = spins ?s0"
    "curthread s1 = curthread ?s0" "curcpu s1 = curcpu ?s0" "c_isidle s1 = c_isidle ?s0"
    "\<forall>v. L' (Wchan v) = (if v = w then drop 1 (L (Wchan w)) else L (Wchan v))" "keeps {} ?s0 L s1 L'"
    "\<forall>t \<in> set (take 1 (L (Wchan w))). live s1 L' t"
    using wchan_wakeone_keeps [OF i0(1) w i0(2,3)] by blast
  then show ?thesis using sp(1)
    by (intro exI [of _ s1] exI [of _ "s1\<lparr>spins := spins s1 - {Wlock k}\<rparr>"] exI [of _ L'])
      (auto simp: sched_spins keeps_def)
qed

lemma wakeall_section:
  assumes inv: "sched_inv s W T L" and w: "w \<in> W" and sp: "spins s = {}"
  shows "\<exists>s1 s' L'. wchan_wakeall w (Wlock k) (s\<lparr>spins := {Wlock k}\<rparr>) = Inr s1 \<and> spins s1 = {Wlock k} \<and> s' = s1\<lparr>spins := {}\<rparr> \<and>
    sched_inv s' W T L' \<and> (\<forall>v. L' (Wchan v) = (if v = w then [] else L (Wchan v))) \<and> (\<forall>t \<in> set (L (Wchan w)). live s' L' t)"
proof -
  let ?s0 = "s\<lparr>spins := {Wlock k}\<rparr>" and ?L' = "woken (t_cpu s) (L (Wchan w)) (L(Wchan w := []))"
  have i0: "sched_inv ?s0 W T L" "Wlock k \<in> spins ?s0" "\<forall>c. Runqueue_lock c \<notin> spins ?s0 \<and> Ipi_lock c \<notin> spins ?s0"
    using inv by (simp_all add: sched_spins)
  obtain s1 where a: "wchan_wakeall w (Wlock k) ?s0 = Inr s1" "sched_inv s1 W T (woken (t_cpu ?s0) (L (Wchan w)) (L(Wchan w := [])))" "same_rest ?s0 s1"
    using wchan_wakeall_ok [OF i0(1) w i0(2,3)] by blast
  have "live s1 ?L' t" if "t \<in> set (L (Wchan w))" for t
  proof -
    have "t \<in> T" using tl_repD(2) [OF queues_okD(1) [OF sched_invD(1) [OF inv]], of "Wchan w"] that w by auto
    then have "t_cpu s t < numcpus s" by (rule queues_okD(5) [OF sched_invD(1) [OF inv]])
    then show ?thesis using live_queued [of "t_cpu s t" s1 t ?L'] that a(3) by (simp add: same_rest_def)
  qed
  then show ?thesis using a by (intro exI [of _ s1] exI [of _ "s1\<lparr>spins := {}\<rparr>"] exI [of _ ?L']) (simp add: sched_spins same_rest_def)
qed

end
