(* ===== verification/Synch.thy ===== *)
theory Synch
  imports Runnable
begin

text \<open>
  Semaphores, locks and condition variables, \<^verbatim>\<open>kern/thread/synch.c\<close>, on top of the scheduler.
  A critical section under the object's spinlock is one function; a thread that has to wait
  sleeps at the end of such a section and, when woken, runs the section again from the top of
  its loop. Each function therefore says whether the thread got through. Threads on all
  processors run these sections in any order; the step relation below also lets them yield,
  migrate and wake up from the idle loop.
\<close>

section \<open>Objects\<close>

record semaphore =
  sem_wchan :: nat
  sem_lock :: splk
  sem_count :: u32

record lock =
  lk_wchan :: "nat option"
  lk_spin :: splk
  owner :: "thread option"

record cv =
  cv_wchan :: "nat option"
  cv_spin :: splk

definition sem_create :: "bool \<Rightarrow> bool \<Rightarrow> bool \<Rightarrow> nat \<Rightarrow> splk \<Rightarrow> u32 \<Rightarrow> 'f sched \<Rightarrow> semaphore option \<times> 'f sched" where
  "sem_create ok1 ok2 ok3 w lk initial_count s =
     (if \<not> ok1 then (None, s)
      else if \<not> ok2 then (None, s)
      else let (made, s) = wchan_create ok3 w s in
      if \<not> made then (None, s) else (Some \<lparr>sem_wchan = w, sem_lock = lk, sem_count = initial_count\<rparr>, s))"

text \<open>\<^verbatim>\<open>spinlock_cleanup\<close> asserts that the spinlock is free.\<close>

definition spinlock_cleanup :: "splk \<Rightarrow> 'f sched \<Rightarrow> unit res" where
  "spinlock_cleanup lk s = (if lk \<in> spins s then Inl Kassert else Inr ())"

definition sem_destroy :: "semaphore option \<Rightarrow> 'f sched \<Rightarrow> unit res" where
  "sem_destroy sem0 s =
     (case sem0 of None \<Rightarrow> Inl Kassert
      | Some sem \<Rightarrow> bindR (spinlock_cleanup (sem_lock sem) s) (\<lambda>_. wchan_destroy (sem_wchan sem) s))"

section \<open>Semaphores\<close>

text \<open>The loop of \<^verbatim>\<open>P\<close> with the spinlock held, and its two entries: the call, and the return from \<^verbatim>\<open>wchan_sleep\<close>.\<close>

definition P_loop :: "semaphore \<Rightarrow> 'f sched \<Rightarrow> (bool \<times> semaphore \<times> 'f sched) res" where
  "P_loop sem s =
     (if sem_count sem = 0
      then bindR (wchan_sleep (sem_wchan sem) (sem_lock sem) s) (\<lambda>(_, s). Inr (False, sem, s))
      else if \<not> sem_count sem > 0 then Inl Kassert
      else bindR (sp_release (sem_lock sem) s) (\<lambda>s. Inr (True, sem\<lparr>sem_count := sem_count sem - 1\<rparr>, s)))"

definition P :: "semaphore \<Rightarrow> 'f sched \<Rightarrow> (bool \<times> semaphore \<times> 'f sched) res" where
  "P sem s = (if in_interrupt s then Inl Kassert else bindR (sp_acquire (sem_lock sem) s) (P_loop sem))"

definition P_resume :: "semaphore \<Rightarrow> 'f sched \<Rightarrow> (bool \<times> semaphore \<times> 'f sched) res" where
  "P_resume sem s = bindR (sp_acquire (sem_lock sem) s) (P_loop sem)"

definition V :: "semaphore \<Rightarrow> 'f sched \<Rightarrow> (semaphore \<times> 'f sched) res" where
  "V sem s =
     bindR (sp_acquire (sem_lock sem) s) (\<lambda>s.
     let sem = sem\<lparr>sem_count := sem_count sem + 1\<rparr> in
     if \<not> sem_count sem > 0 then Inl Kassert
     else bindR (wchan_wakeone (sem_wchan sem) (sem_lock sem) s) (\<lambda>s.
     bindR (sp_release (sem_lock sem) s) (\<lambda>s. Inr (sem, s))))"

section \<open>Locks\<close>

text \<open>\<^verbatim>\<open>lock_create\<close> does not look at the result of \<^verbatim>\<open>wchan_create\<close>; a NULL wait channel is followed later.\<close>

definition lock_create :: "bool \<Rightarrow> bool \<Rightarrow> bool \<Rightarrow> nat \<Rightarrow> splk \<Rightarrow> 'f sched \<Rightarrow> lock option \<times> 'f sched" where
  "lock_create ok1 ok2 ok3 w lk s =
     (if \<not> ok1 then (None, s)
      else if \<not> ok2 then (None, s)
      else let (made, s) = wchan_create ok3 w s
           in (Some \<lparr>lk_wchan = (if made then Some w else None), lk_spin = lk, owner = None\<rparr>, s))"

definition on_wchan :: "nat option \<Rightarrow> (nat \<Rightarrow> 'a res) \<Rightarrow> 'a res" where
  "on_wchan w0 f = (case w0 of None \<Rightarrow> Inl NullDeref | Some w \<Rightarrow> f w)"

definition lock_destroy :: "lock option \<Rightarrow> 'f sched \<Rightarrow> unit res" where
  "lock_destroy lock0 s =
     (case lock0 of None \<Rightarrow> Inl Kassert
      | Some lk \<Rightarrow> bindR (spinlock_cleanup (lk_spin lk) s) (\<lambda>_. on_wchan (lk_wchan lk) (\<lambda>w. wchan_destroy w s)))"

definition lock_do_i_hold :: "lock \<Rightarrow> 'f sched \<Rightarrow> bool" where
  "lock_do_i_hold lk s = (owner lk = Some (curthread s))"

text \<open>The loop of \<^verbatim>\<open>lock_acquire\<close>; a woken thread runs it again after taking the spinlock, as in the call.\<close>

definition lock_acquire :: "lock \<Rightarrow> 'f sched \<Rightarrow> (bool \<times> lock \<times> 'f sched) res" where
  "lock_acquire lk s =
     bindR (sp_acquire (lk_spin lk) s) (\<lambda>s.
     if owner lk \<noteq> None
     then bindR (on_wchan (lk_wchan lk) (\<lambda>w. wchan_sleep w (lk_spin lk) s)) (\<lambda>(_, s). Inr (False, lk, s))
     else bindR (sp_release (lk_spin lk) s) (\<lambda>s'. Inr (True, lk\<lparr>owner := Some (curthread s)\<rparr>, s')))"

definition lock_release :: "lock \<Rightarrow> 'f sched \<Rightarrow> (lock \<times> 'f sched) res" where
  "lock_release lk s =
     (if \<not> lock_do_i_hold lk s then Inr (lk, s)
      else bindR (sp_acquire (lk_spin lk) s) (\<lambda>s.
      let lk = lk\<lparr>owner := None\<rparr> in
      bindR (on_wchan (lk_wchan lk) (\<lambda>w. wchan_wakeone w (lk_spin lk) s)) (\<lambda>s.
      bindR (sp_release (lk_spin lk) s) (\<lambda>s. Inr (lk, s)))))"

section \<open>Condition variables\<close>

definition cv_create :: "bool \<Rightarrow> bool \<Rightarrow> bool \<Rightarrow> nat \<Rightarrow> splk \<Rightarrow> 'f sched \<Rightarrow> cv option \<times> 'f sched" where
  "cv_create ok1 ok2 ok3 w lk s =
     (if \<not> ok1 then (None, s)
      else if \<not> ok2 then (None, s)
      else let (made, s) = wchan_create ok3 w s
           in (Some \<lparr>cv_wchan = (if made then Some w else None), cv_spin = lk\<rparr>, s))"

definition cv_destroy :: "cv option \<Rightarrow> 'f sched \<Rightarrow> unit res" where
  "cv_destroy cv0 s =
     (case cv0 of None \<Rightarrow> Inl Kassert
      | Some cv \<Rightarrow> bindR (spinlock_cleanup (cv_spin cv) s) (\<lambda>_. on_wchan (cv_wchan cv) (\<lambda>w. wchan_destroy w s)))"

text \<open>Taking the lock first when it is not held; the thread may have to wait there.\<close>

definition cv_need_lock :: "lock \<Rightarrow> 'f sched \<Rightarrow> (bool \<times> lock \<times> 'f sched) res" where
  "cv_need_lock lk s = (if \<not> lock_do_i_hold lk s then lock_acquire lk s else Inr (True, lk, s))"

text \<open>Where a thread stops: it went through, it waits for the lock, or it waits for a signal.\<close>

datatype cv_result = Passed | At_lock | At_cv

definition cv_wait :: "cv \<Rightarrow> lock \<Rightarrow> 'f sched \<Rightarrow> (cv_result \<times> lock \<times> 'f sched) res" where
  "cv_wait cv lk s =
     bindR (cv_need_lock lk s) (\<lambda>(got, lk, s).
     if \<not> got then Inr (At_lock, lk, s)
     else bindR (sp_acquire (cv_spin cv) s) (\<lambda>s.
     bindR (lock_release lk s) (\<lambda>(lk, s).
     bindR (on_wchan (cv_wchan cv) (\<lambda>w. wchan_sleep w (cv_spin cv) s)) (\<lambda>(_, s). Inr (At_cv, lk, s)))))"

text \<open>The part of \<^verbatim>\<open>cv_wait\<close> after the signal.\<close>

definition cv_wait_resume :: "cv \<Rightarrow> lock \<Rightarrow> 'f sched \<Rightarrow> (bool \<times> lock \<times> 'f sched) res" where
  "cv_wait_resume cv lk s =
     bindR (sp_acquire (cv_spin cv) s) (\<lambda>s. bindR (sp_release (cv_spin cv) s) (lock_acquire lk))"

definition cv_signal :: "cv \<Rightarrow> lock \<Rightarrow> 'f sched \<Rightarrow> (cv_result \<times> lock \<times> 'f sched) res" where
  "cv_signal cv lk s =
     bindR (cv_need_lock lk s) (\<lambda>(got, lk, s).
     if \<not> got then Inr (At_lock, lk, s)
     else bindR (sp_acquire (cv_spin cv) s) (\<lambda>s.
     bindR (on_wchan (cv_wchan cv) (\<lambda>w. wchan_wakeone w (cv_spin cv) s)) (\<lambda>s.
     bindR (sp_release (cv_spin cv) s) (\<lambda>s. Inr (Passed, lk, s)))))"

definition cv_broadcast :: "cv \<Rightarrow> lock \<Rightarrow> 'f sched \<Rightarrow> (cv_result \<times> lock \<times> 'f sched) res" where
  "cv_broadcast cv lk s =
     bindR (cv_need_lock lk s) (\<lambda>(got, lk, s).
     if \<not> got then Inr (At_lock, lk, s)
     else bindR (sp_acquire (cv_spin cv) s) (\<lambda>s.
     bindR (on_wchan (cv_wchan cv) (\<lambda>w. wchan_wakeall w (cv_spin cv) s)) (\<lambda>s.
     bindR (sp_release (cv_spin cv) s) (\<lambda>s. Inr (Passed, lk, s)))))"

section \<open>Interleaved execution\<close>

text \<open>
  A system of threads that share one object \<open>gmon\<close> with an operation to get through (\<open>enter\<close>, and \<open>resume\<close>
  after a sleep) and one to let others through (\<open>leave\<close>). A thread is running, asleep inside \<open>enter\<close>, or woken
  but not yet resumed. The log records who got through (\<open>True\<close>) and who left (\<open>False\<close>), latest first.
\<close>

datatype wait_pc = Running | Asleep | Woken

record ('m, 'f) gsys =
  gmon :: 'm
  gsch :: "'f sched"
  gpc :: "thread \<Rightarrow> wait_pc"
  glog :: "(thread \<times> bool) list"

inductive gstep :: "('m \<Rightarrow> 'f sched \<Rightarrow> (bool \<times> 'm \<times> 'f sched) res) \<Rightarrow> ('m \<Rightarrow> 'f sched \<Rightarrow> (bool \<times> 'm \<times> 'f sched) res)
    \<Rightarrow> ('m \<Rightarrow> 'f sched \<Rightarrow> ('m \<times> 'f sched) res) \<Rightarrow> ('m, 'f) gsys \<Rightarrow> ('m, 'f) gsys \<Rightarrow> bool"
  for enter resume leave where
  Enter: "\<lbrakk>c < numcpus (gsch g); \<not> c_isidle (gsch g) c; t = c_curthread (gsch g) c;
      (if gpc g t = Woken then resume else enter) (gmon g) ((gsch g)\<lparr>curcpu := c\<rparr>) = Inr (got, m', s')\<rbrakk> \<Longrightarrow>
    gstep enter resume leave g (g\<lparr>gmon := m', gsch := s', gpc := (gpc g)(t := if got then Running else Asleep),
      glog := (if got then (t, True) # glog g else glog g)\<rparr>)"
| Leave: "\<lbrakk>c < numcpus (gsch g); \<not> c_isidle (gsch g) c; t = c_curthread (gsch g) c; gpc g t = Running;
      leave (gmon g) ((gsch g)\<lparr>curcpu := c\<rparr>) = Inr (m', s')\<rbrakk> \<Longrightarrow>
    gstep enter resume leave g (g\<lparr>gmon := m', gsch := s',
      gpc := (\<lambda>u. if gpc g u = Asleep \<and> t_state s' u \<noteq> S_SLEEP then Woken else gpc g u), glog := (t, False) # glog g\<rparr>)"
| Yield: "\<lbrakk>c < numcpus (gsch g); \<not> c_isidle (gsch g) c; thread_yield ((gsch g)\<lparr>curcpu := c\<rparr>) = Inr (r, s')\<rbrakk> \<Longrightarrow>
    gstep enter resume leave g (g\<lparr>gsch := s'\<rparr>)"
| Unidle: "\<lbrakk>c < numcpus (gsch g); c_isidle (gsch g) c; thread_unidle ((gsch g)\<lparr>curcpu := c\<rparr>) = Inr (r, s')\<rbrakk> \<Longrightarrow>
    gstep enter resume leave g (g\<lparr>gsch := s'\<rparr>)"
| Migrate: "\<lbrakk>c < numcpus (gsch g); thread_consider_migration ((gsch g)\<lparr>curcpu := c\<rparr>) = Inr s'\<rbrakk> \<Longrightarrow>
    gstep enter resume leave g (g\<lparr>gsch := s'\<rparr>)"

text \<open>
  The invariant: the sleepers are the threads on the wait channel, every other thread can run, and
  there are at least as many woken threads as units to be had, unless nobody sleeps.
\<close>

definition ginv :: "('m \<Rightarrow> bool) \<Rightarrow> ('m \<Rightarrow> nat) \<Rightarrow> nat \<Rightarrow> thread set \<Rightarrow> ('m, 'f) gsys \<Rightarrow> (listid \<Rightarrow> thread list) \<Rightarrow> bool" where
  "ginv good units w T g L \<longleftrightarrow> sched_inv (gsch g) {w} T L \<and> spins (gsch g) = {} \<and> \<not> in_interrupt (gsch g) \<and> good (gmon g) \<and>
     (\<forall>t \<in> T. gpc g t = Asleep \<longleftrightarrow> t \<in> set (L (Wchan w))) \<and> (\<forall>t \<in> T. gpc g t = Asleep \<or> live (gsch g) L t) \<and>
     (L (Wchan w) = [] \<or> units (gmon g) \<le> card {t \<in> T. gpc g t = Woken})"

locale gate =
  fixes enter :: "'m \<Rightarrow> 'f sched \<Rightarrow> (bool \<times> 'm \<times> 'f sched) res"
    and resume :: "'m \<Rightarrow> 'f sched \<Rightarrow> (bool \<times> 'm \<times> 'f sched) res"
    and leave :: "'m \<Rightarrow> 'f sched \<Rightarrow> ('m \<times> 'f sched) res"
    and units :: "'m \<Rightarrow> nat" and good :: "'m \<Rightarrow> bool" and w :: nat
  assumes resume_law: "\<not> in_interrupt s \<Longrightarrow> resume m s = enter m s"
    and blocked_law: "\<lbrakk>sched_inv s {w} T L; \<not> c_isidle s (curcpu s); spins s = {}; \<not> in_interrupt s; good m; units m = 0\<rbrakk> \<Longrightarrow>
      \<exists>s' L'. enter m s = Inr (False, m, s') \<and> sched_inv s' {w} T L' \<and> L' (Wchan w) = L (Wchan w) @ [curthread s] \<and>
        spins s' = {} \<and> keeps {curthread s} s L s' L'"
    and free_law: "\<lbrakk>sched_inv s {w} T L; \<not> c_isidle s (curcpu s); spins s = {}; \<not> in_interrupt s; good m; 0 < units m\<rbrakk> \<Longrightarrow>
      \<exists>m'. enter m s = Inr (True, m', s) \<and> good m' \<and> units m' = units m - 1"
    and leave_law: "\<lbrakk>sched_inv s {w} T L; \<not> c_isidle s (curcpu s); spins s = {}; \<not> in_interrupt s; good m; leave m s = Inr (m', s')\<rbrakk> \<Longrightarrow>
      good m' \<and> (m' = m \<and> s' = s \<or> units m' = units m + 1 \<and> (\<exists>L'. sched_inv s' {w} T L' \<and> L' (Wchan w) = drop 1 (L (Wchan w)) \<and>
        spins s' = {} \<and> keeps {} s L s' L' \<and> (\<forall>t \<in> set (take 1 (L (Wchan w))). live s' L' t)))"
begin

lemma ginvD:
  assumes "ginv good units w T g L"
  shows "sched_inv (gsch g) {w} T L" "spins (gsch g) = {}" "\<not> in_interrupt (gsch g)" "good (gmon g)"
    "t \<in> T \<Longrightarrow> gpc g t = Asleep \<longleftrightarrow> t \<in> set (L (Wchan w))" "t \<in> T \<Longrightarrow> gpc g t = Asleep \<or> live (gsch g) L t"
    "L (Wchan w) = [] \<or> units (gmon g) \<le> card {t \<in> T. gpc g t = Woken}" "finite T"
    "c < numcpus (gsch g) \<Longrightarrow> sched_inv ((gsch g)\<lparr>curcpu := c\<rparr>) {w} T L"
    "t \<in> set (L (Wchan w)) \<Longrightarrow> t \<in> T"
proof -
  show s: "sched_inv (gsch g) {w} T L" using assms unfolding ginv_def by blast
  show "finite T" by (rule tl_repD(6) [OF queues_okD(1) [OF sched_invD(1) [OF s]]])
  show "c < numcpus (gsch g) \<Longrightarrow> sched_inv ((gsch g)\<lparr>curcpu := c\<rparr>) {w} T L" using sched_inv_cpu s by blast
  show "t \<in> set (L (Wchan w)) \<Longrightarrow> t \<in> T"
    using tl_repD(2) [OF queues_okD(1) [OF sched_invD(1) [OF s]], of "Wchan w"] by auto
qed (use assms in \<open>unfold ginv_def, blast+\<close>)

text \<open>A change of the schedule alone.\<close>

lemma ginv_sched:
  assumes g: "ginv good units w T g L" and s: "sched_inv s' {w} T L'" "L' (Wchan w) = L (Wchan w)" "spins s' = {}" "keeps {} (gsch g) L s' L'"
  shows "ginv good units w T (g\<lparr>gsch := s'\<rparr>) L'"
  unfolding ginv_def
proof (intro conjI ballI)
  note G = ginvD [OF g]
  show "gpc (g\<lparr>gsch := s'\<rparr>) t = Asleep \<or> live (gsch (g\<lparr>gsch := s'\<rparr>)) L' t" if "t \<in> T" for t
    using G(6) [OF that] s(4) by (auto simp: keeps_def)
  show "(gpc (g\<lparr>gsch := s'\<rparr>) t = Asleep) = (t \<in> set (L' (Wchan w)))" if "t \<in> T" for t
    using G(5) [OF that] s(2) by simp
  show "\<not> in_interrupt (gsch (g\<lparr>gsch := s'\<rparr>))" using G(3) s(4) by (simp add: keeps_def)
qed (use ginvD(4,7) [OF g] s in simp_all)

lemma ginv_enter:
  assumes g: "ginv good units w T g L" and c: "c < numcpus (gsch g)" "\<not> c_isidle (gsch g) c" "t = c_curthread (gsch g) c"
    and e: "(if gpc g t = Woken then resume else enter) (gmon g) ((gsch g)\<lparr>curcpu := c\<rparr>) = Inr (got, m', s')"
  shows "\<exists>L'. ginv good units w T (g\<lparr>gmon := m', gsch := s', gpc := (gpc g)(t := if got then Running else Asleep), glog := l\<rparr>) L'"
proof -
  note G = ginvD [OF g]
  let ?s = "(gsch g)\<lparr>curcpu := c\<rparr>" and ?W = "{u \<in> T. gpc g u = Woken}"
  have i: "\<not> in_interrupt ?s" and b: "\<not> c_isidle ?s (curcpu ?s)" and sp: "spins ?s = {}" and t: "curthread ?s = t"
    using G(2,3) c by (simp_all add: curthread_def)
  note inv = G(9) [OF c(1)] and run = running_okD [OF sched_invD(2) [OF G(1)] c(1,2), folded c(3)]
  have tw: "t \<notin> set (L (Wchan w))" using run(4) by auto
  have ent: "enter (gmon g) ?s = Inr (got, m', s')" using e resume_law [OF i] by (simp split: if_splits)
  show ?thesis
  proof (cases "units (gmon g) = 0")
    case True
    obtain L' where a: "\<not> got" "m' = gmon g" "sched_inv s' {w} T L'" "L' (Wchan w) = L (Wchan w) @ [t]" "spins s' = {}"
      "keeps {t} (gsch g) L s' L'"
      using blocked_law [OF inv b sp i G(4) True] ent t by (auto simp: keeps_def)
    have "ginv good units w T (g\<lparr>gmon := m', gsch := s', gpc := (gpc g)(t := Asleep), glog := l\<rparr>) L'"
      unfolding ginv_def
    proof (intro conjI ballI)
      fix u assume u: "u \<in> T"
      show "(gpc (g\<lparr>gmon := m', gsch := s', gpc := (gpc g)(t := Asleep), glog := l\<rparr>) u = Asleep) = (u \<in> set (L' (Wchan w)))"
        using G(5) [OF u] a(4) by simp
      show "gpc (g\<lparr>gmon := m', gsch := s', gpc := (gpc g)(t := Asleep), glog := l\<rparr>) u = Asleep \<or>
          live (gsch (g\<lparr>gmon := m', gsch := s', gpc := (gpc g)(t := Asleep), glog := l\<rparr>)) L' u"
        using G(6) [OF u] a(6) by (auto simp: keeps_def)
    qed (use a G(3,4) True in \<open>simp_all add: keeps_def\<close>)
    then show ?thesis using a(1) by auto
  next
    case False
    then have pos: "0 < units (gmon g)" by simp
    have a: "got" "s' = ?s" "good m'" "units m' = units (gmon g) - 1" using free_law [OF inv b sp i G(4) pos] ent by auto
    have fin: "finite ?W" using G(8) by simp
    have W: "{u \<in> T. ((gpc g)(t := Running)) u = Woken} = ?W - {t}" by auto
    have "card ?W - 1 \<le> card (?W - {t})" using fin by (cases "t \<in> ?W") (simp_all add: card_Diff_singleton_if)
    then have "L (Wchan w) = [] \<or> units m' \<le> card {u \<in> T. ((gpc g)(t := Running)) u = Woken}"
      unfolding W using G(7) a(4) by linarith
    moreover have "t \<in> T \<Longrightarrow> live (gsch g) L t" using live_running [OF c(1,2), of t L] c(3) by simp
    ultimately have "ginv good units w T (g\<lparr>gmon := m', gsch := s', gpc := (gpc g)(t := Running), glog := l\<rparr>) L"
      unfolding ginv_def using a inv sp i G(5,6) tw by auto
    then show ?thesis using a(1) by auto
  qed
qed

text \<open>Who sleeps after a wake-up, and how many are woken.\<close>

lemma leave_pcs:
  assumes g: "ginv good units w T g L" and s: "sched_inv s' {w} T L'" "L' (Wchan w) = drop 1 (L (Wchan w))"
    and l: "\<forall>t \<in> set (take 1 (L (Wchan w))). live s' L' t"
  defines "pc \<equiv> (\<lambda>u. if gpc g u = Asleep \<and> t_state s' u \<noteq> S_SLEEP then Woken else gpc g u)"
  shows "u \<in> T \<Longrightarrow> pc u = Asleep \<longleftrightarrow> u \<in> set (L' (Wchan w))"
    and "L (Wchan w) \<noteq> [] \<Longrightarrow> card {u \<in> T. pc u = Woken} = card {u \<in> T. gpc g u = Woken} + 1"
    and "L (Wchan w) = [] \<Longrightarrow> u \<in> T \<Longrightarrow> pc u = gpc g u"
proof -
  note G = ginvD [OF g]
  have slp: "t_state s' u = S_SLEEP" if "u \<in> set (L' (Wchan w))" for u
    using queues_okD(4) [OF sched_invD(1) [OF s(1)] _ that] by simp
  have d: "distinct (L (Wchan w))"
    using tl_repD(1) [OF queues_okD(1) [OF sched_invD(1) [OF G(1)]], of "Wchan w"] by (simp add: is_list_def)
  show "L (Wchan w) = [] \<Longrightarrow> u \<in> T \<Longrightarrow> pc u = gpc g u" using G(5) [of u] by (simp add: pc_def)
  show 1: "pc u = Asleep \<longleftrightarrow> u \<in> set (L' (Wchan w))" if u: "u \<in> T" for u
  proof (cases "L (Wchan w)")
    case Nil
    then show ?thesis using G(5) [OF u] s(2) by (simp add: pc_def)
  next
    case (Cons x xs)
    have "t_state s' x \<noteq> S_SLEEP" using l Cons live_state [OF s(1), of x] by simp
    then show ?thesis using G(5) [OF u] s(2) Cons slp [of u] d by (auto simp: pc_def)
  qed
  assume ne: "L (Wchan w) \<noteq> []"
  obtain x xs where Cons: "L (Wchan w) = x # xs" using ne by (cases "L (Wchan w)") auto
  have x: "x \<in> T" "gpc g x = Asleep" "pc x = Woken"
    using G(10) [of x] G(5) [of x] Cons l live_state [OF s(1), of x] by (auto simp: pc_def)
  have "pc u = Woken \<longleftrightarrow> u = x \<or> gpc g u = Woken" if "u \<in> T" for u
    using 1 [OF that] G(5) [OF that] x s(2) Cons by (auto simp: pc_def)
  then have "{u \<in> T. pc u = Woken} = insert x {u \<in> T. gpc g u = Woken}" using x(1) by auto
  then show "card {u \<in> T. pc u = Woken} = card {u \<in> T. gpc g u = Woken} + 1" using G(8) x(2) by simp
qed

lemma ginv_leave:
  assumes g: "ginv good units w T g L" and c: "c < numcpus (gsch g)" "\<not> c_isidle (gsch g) c"
    and e: "leave (gmon g) ((gsch g)\<lparr>curcpu := c\<rparr>) = Inr (m', s')"
  shows "\<exists>L'. ginv good units w T (g\<lparr>gmon := m', gsch := s',
    gpc := (\<lambda>u. if gpc g u = Asleep \<and> t_state s' u \<noteq> S_SLEEP then Woken else gpc g u), glog := l\<rparr>) L'"
proof -
  note G = ginvD [OF g]
  let ?s = "(gsch g)\<lparr>curcpu := c\<rparr>" and ?pc = "\<lambda>u. if gpc g u = Asleep \<and> t_state s' u \<noteq> S_SLEEP then Woken else gpc g u"
  have i: "\<not> in_interrupt ?s" and b: "\<not> c_isidle ?s (curcpu ?s)" and sp: "spins ?s = {}"
    using G(2,3) c by simp_all
  note inv = G(9) [OF c(1)]
  note law = leave_law [OF inv b sp i G(4) e]
  from law consider (same) "m' = gmon g" "s' = ?s" | (gave) L' where "units m' = units (gmon g) + 1" "sched_inv s' {w} T L'"
      "L' (Wchan w) = drop 1 (L (Wchan w))" "spins s' = {}" "keeps {} (gsch g) L s' L'" "\<forall>t \<in> set (take 1 (L (Wchan w))). live s' L' t"
    by (auto simp: keeps_def)
  then show ?thesis
  proof cases
    case same
    have st: "t_state s' u = S_SLEEP" if "u \<in> set (L (Wchan w))" for u
      using queues_okD(4) [OF sched_invD(1) [OF inv] _ that] same by simp
    define pc where "pc = ?pc"
    have eq: "pc u = gpc g u" if "u \<in> T" for u using G(5) [OF that] st by (auto simp: pc_def)
    have W: "{u \<in> T. pc u = Woken} = {u \<in> T. gpc g u = Woken}" using eq by auto
    have "ginv good units w T (g\<lparr>gmon := m', gsch := s', gpc := pc, glog := l\<rparr>) L"
      unfolding ginv_def using same inv sp i G(4-7) W eq by simp
    then show ?thesis unfolding pc_def by blast
  next
    case gave
    note p = leave_pcs [OF g gave(2,3,6)]
    have "ginv good units w T (g\<lparr>gmon := m', gsch := s', gpc := ?pc, glog := l\<rparr>) L'"
      unfolding ginv_def
    proof (intro conjI ballI)
      show "L' (Wchan w) = [] \<or> units (gmon (g\<lparr>gmon := m', gsch := s', gpc := ?pc, glog := l\<rparr>)) \<le>
          card {t \<in> T. gpc (g\<lparr>gmon := m', gsch := s', gpc := ?pc, glog := l\<rparr>) t = Woken}"
        using G(7) p(2) gave(1,3) by (cases "L (Wchan w)") auto
      fix u assume u: "u \<in> T"
      show "(gpc (g\<lparr>gmon := m', gsch := s', gpc := ?pc, glog := l\<rparr>) u = Asleep) = (u \<in> set (L' (Wchan w)))" using p(1) [OF u] by simp
      have "?pc u \<noteq> Asleep \<Longrightarrow> gpc g u = Asleep \<Longrightarrow> u \<in> set (take 1 (L (Wchan w)))"
        using p(1) [OF u] G(5) [OF u] gave(3) by (cases "L (Wchan w)") auto
      then show "gpc (g\<lparr>gmon := m', gsch := s', gpc := ?pc, glog := l\<rparr>) u = Asleep \<or>
          live (gsch (g\<lparr>gmon := m', gsch := s', gpc := ?pc, glog := l\<rparr>)) L' u"
        using G(6) [OF u] gave(5,6) by (auto simp: keeps_def)
    qed (use gave G(3) law in \<open>simp_all add: keeps_def\<close>)
    then show ?thesis by blast
  qed
qed

lemma gstep_ginv:
  assumes "gstep enter resume leave g g'" "ginv good units w T g L"
  shows "\<exists>L'. ginv good units w T g' L'"
  using assms(1)
proof (cases rule: gstep.cases)
  note g = assms(2) and G = ginvD [OF assms(2)]
  case (Enter c t got m' s')
  then show ?thesis using ginv_enter [OF g Enter(2-5)] by simp
next
  case (Leave c t m' s')
  then show ?thesis using ginv_leave [OF assms(2) Leave(2,3,6)] by simp
next
  case (Yield c r s')
  have b: "\<not> c_isidle ((gsch g)\<lparr>curcpu := c\<rparr>) (curcpu ((gsch g)\<lparr>curcpu := c\<rparr>))" "spins ((gsch g)\<lparr>curcpu := c\<rparr>) = {}"
    using Yield(3) ginvD(2) [OF assms(2)] by simp_all
  then obtain L' where "sched_inv s' {w} T L'" "L' (Wchan w) = L (Wchan w)" "spins s' = {}" "keeps {} (gsch g) L s' L'"
    using thread_yield_ok [OF ginvD(9) [OF assms(2) Yield(2)] b] Yield(4) by (auto simp: keeps_def)
  then show ?thesis using ginv_sched [OF assms(2)] Yield(1) by blast
next
  case (Unidle c r s')
  have b: "c_isidle ((gsch g)\<lparr>curcpu := c\<rparr>) (curcpu ((gsch g)\<lparr>curcpu := c\<rparr>))" "spins ((gsch g)\<lparr>curcpu := c\<rparr>) = {}"
    using Unidle(3) ginvD(2) [OF assms(2)] by simp_all
  then obtain L' where "sched_inv s' {w} T L'" "L' (Wchan w) = L (Wchan w)" "spins s' = {}" "keeps {} (gsch g) L s' L'"
    using thread_unidle_keeps [OF ginvD(9) [OF assms(2) Unidle(2)] b] Unidle(4) by (auto simp: keeps_def)
  then show ?thesis using ginv_sched [OF assms(2)] Unidle(1) by blast
next
  case (Migrate c s')
  have b: "spins ((gsch g)\<lparr>curcpu := c\<rparr>) = {}" using ginvD(2) [OF assms(2)] by simp
  then obtain L' where "sched_inv s' {w} T L'" "L' (Wchan w) = L (Wchan w)" "spins s' = {}" "keeps {} (gsch g) L s' L'"
    using migration_keeps [OF ginvD(9) [OF assms(2) Migrate(2)] b] Migrate(3) by (auto simp: keeps_def)
  then show ?thesis using ginv_sched [OF assms(2)] Migrate(1) by blast
qed

lemma reach_ginv:
  assumes "(gstep enter resume leave)\<^sup>*\<^sup>* g g'" "ginv good units w T g L"
  shows "\<exists>L'. ginv good units w T g' L'"
  using assms
proof (induction arbitrary: L rule: converse_rtranclp_induct)
  case (step g h)
  then show ?case using gstep_ginv by blast
qed blast

text \<open>When no thread can run, nobody sleeps while there are units to be had.\<close>

lemma no_stuck_sleeper:
  assumes g: "ginv good units w T g L" and stuck: "\<And>t. t \<in> T \<Longrightarrow> \<not> live (gsch g) L t" and t: "t \<in> T" "gpc g t = Asleep"
  shows "units (gmon g) = 0"
proof -
  note G = ginvD [OF g]
  have "gpc g u = Asleep" if "u \<in> T" for u using G(6) [OF that] stuck [OF that] by blast
  then have e: "{u \<in> T. gpc g u = Woken} = {}" by auto
  have "L (Wchan w) \<noteq> []" using G(5) [OF t(1)] t(2) by auto
  then show ?thesis using G(7) unfolding e by simp
qed

end

section \<open>Semaphores and locks are gates\<close>

definition sem_units :: "semaphore \<Rightarrow> nat" where
  "sem_units sem = unat (sem_count sem)"

definition sem_good :: "nat \<Rightarrow> semaphore \<Rightarrow> bool" where
  "sem_good w sem \<longleftrightarrow> sem_wchan sem = w \<and> (\<exists>k. sem_lock sem = Wlock k)"

definition lock_units :: "lock \<Rightarrow> nat" where
  "lock_units lk = (if owner lk = None then 1 else 0)"

definition lock_good :: "nat \<Rightarrow> lock \<Rightarrow> bool" where
  "lock_good w lk \<longleftrightarrow> lk_wchan lk = Some w \<and> (\<exists>k. lk_spin lk = Wlock k)"

text \<open>The two branches of a section that may sleep, from a state in which no spinlock is held.\<close>

lemma sleep_section:
  assumes inv: "sched_inv s W T L" and busy: "\<not> c_isidle s (curcpu s)" and w: "w \<in> W" and sp: "spins s = {}" and i: "\<not> in_interrupt s"
  shows "\<exists>r s' L'. wchan_sleep w (Wlock k) (s\<lparr>spins := {Wlock k}\<rparr>) = Inr (r, s') \<and> sched_inv s' W T L' \<and>
    (\<forall>v. L' (Wchan v) = (if v = w then L (Wchan w) @ [curthread s] else L (Wchan v))) \<and> spins s' = {} \<and>
    keeps {curthread s} s L s' L'"
  using wchan_sleep_ok [of "s\<lparr>spins := {Wlock k}\<rparr>" W T L w k, unfolded sched_spins keeps_def] assms unfolding keeps_def by simp

lemma spins_id: "spins s = {} \<Longrightarrow> s\<lparr>spins := {}\<rparr> = s"
  by simp

interpretation sem: gate P P_resume V sem_units "sem_good w" w for w
proof unfold_locales
  fix s :: "'b sched" and m T L
  assume a: "sched_inv s {w} T L" "\<not> c_isidle s (curcpu s)" "spins s = {}" "\<not> in_interrupt s" "sem_good w m"
  obtain k where k: "sem_wchan m = w" "sem_lock m = Wlock k" using a(5) by (auto simp: sem_good_def)
  show "\<exists>s' L'. P m s = Inr (False, m, s') \<and> sched_inv s' {w} T L' \<and> L' (Wchan w) = L (Wchan w) @ [curthread s] \<and>
      spins s' = {} \<and> keeps {curthread s} s L s' L'" if "sem_units m = 0"
  proof -
    obtain r s' L' where x: "wchan_sleep w (Wlock k) (s\<lparr>spins := {Wlock k}\<rparr>) = Inr (r, s')" "sched_inv s' {w} T L'"
      "\<forall>v. L' (Wchan v) = (if v = w then L (Wchan w) @ [curthread s] else L (Wchan v))" "spins s' = {}" "keeps {curthread s} s L s' L'"
      using sleep_section [OF a(1,2) _ a(3,4), of w k] by blast
    then show ?thesis using k a(3,4) that
      by (intro exI [of _ s'] exI [of _ L']) (simp add: P_def P_loop_def sem_units_def unat_eq_zero)
  qed
  show "\<exists>m'. P m s = Inr (True, m', s) \<and> sem_good w m' \<and> sem_units m' = sem_units m - 1" if "0 < sem_units m"
    using that k a(3,4) by (auto simp: P_def P_loop_def sem_units_def sem_good_def unat_minus_one word_gt_0_no spins_id unat_eq_zero word_neq_0_conv)
  fix m' s' assume v: "V m s = Inr (m', s')"
  obtain s1 s2 L' where x: "wchan_wakeone w (Wlock k) (s\<lparr>spins := {Wlock k}\<rparr>) = Inr s1" "Wlock k \<in> spins s1"
    "s2 = s1\<lparr>spins := spins s1 - {Wlock k}\<rparr>" "sched_inv s2 {w} T L'" "spins s2 = {}" "L' (Wchan w) = drop 1 (L (Wchan w))"
    "keeps {} s L s2 L'" "\<forall>t \<in> set (take 1 (L (Wchan w))). live s2 L' t"
    using wake_section [OF a(1), of w k] a(3) by auto
  have n: "sem_count m + 1 \<noteq> 0" using v k a(3) by (auto simp: V_def Let_def split: if_splits)
  then have m': "m' = m\<lparr>sem_count := sem_count m + 1\<rparr>" "s' = s2" using v k x(1-3) a(3) by (auto simp: V_def Let_def word_gt_0)
  have "unat (sem_count m + 1) = unat (sem_count m) + 1" using n unatSuc [of "sem_count m"] by (simp add: add.commute)
  then show "sem_good w m' \<and> (m' = m \<and> s' = s \<or> sem_units m' = sem_units m + 1 \<and> (\<exists>L'. sched_inv s' {w} T L' \<and>
      L' (Wchan w) = drop 1 (L (Wchan w)) \<and> spins s' = {} \<and> keeps {} s L s' L' \<and> (\<forall>t \<in> set (take 1 (L (Wchan w))). live s' L' t)))"
    using m' x k by (auto simp: sem_good_def sem_units_def)
qed (simp add: P_def P_resume_def)

interpretation lk: gate lock_acquire lock_acquire lock_release lock_units "lock_good w" w for w
proof unfold_locales
  fix s :: "'b sched" and m T L
  assume a: "sched_inv s {w} T L" "\<not> c_isidle s (curcpu s)" "spins s = {}" "\<not> in_interrupt s" "lock_good w m"
  obtain k where k: "lk_wchan m = Some w" "lk_spin m = Wlock k" using a(5) by (auto simp: lock_good_def)
  show "\<exists>s' L'. lock_acquire m s = Inr (False, m, s') \<and> sched_inv s' {w} T L' \<and> L' (Wchan w) = L (Wchan w) @ [curthread s] \<and>
      spins s' = {} \<and> keeps {curthread s} s L s' L'" if "lock_units m = 0"
  proof -
    obtain r s' L' where x: "wchan_sleep w (Wlock k) (s\<lparr>spins := {Wlock k}\<rparr>) = Inr (r, s')" "sched_inv s' {w} T L'"
      "\<forall>v. L' (Wchan v) = (if v = w then L (Wchan w) @ [curthread s] else L (Wchan v))" "spins s' = {}" "keeps {curthread s} s L s' L'"
      using sleep_section [OF a(1,2) _ a(3,4), of w k] by blast
    then show ?thesis using k a(3,4) that
      by (intro exI [of _ s'] exI [of _ L']) (auto simp: lock_acquire_def lock_units_def on_wchan_def split: if_splits)
  qed
  show "\<exists>m'. lock_acquire m s = Inr (True, m', s) \<and> lock_good w m' \<and> lock_units m' = lock_units m - 1" if "0 < lock_units m"
    using that k a(3) by (auto simp: lock_acquire_def lock_units_def lock_good_def spins_id split: if_splits)
  fix m' s' assume v: "lock_release m s = Inr (m', s')"
  obtain s1 s2 L' where x: "wchan_wakeone w (Wlock k) (s\<lparr>spins := {Wlock k}\<rparr>) = Inr s1" "Wlock k \<in> spins s1"
    "s2 = s1\<lparr>spins := spins s1 - {Wlock k}\<rparr>" "sched_inv s2 {w} T L'" "spins s2 = {}" "L' (Wchan w) = drop 1 (L (Wchan w))"
    "keeps {} s L s2 L'" "\<forall>t \<in> set (take 1 (L (Wchan w))). live s2 L' t"
    using wake_section [OF a(1), of w k] a(3) by auto
  show "lock_good w m' \<and> (m' = m \<and> s' = s \<or> lock_units m' = lock_units m + 1 \<and> (\<exists>L'. sched_inv s' {w} T L' \<and>
      L' (Wchan w) = drop 1 (L (Wchan w)) \<and> spins s' = {} \<and> keeps {} s L s' L' \<and> (\<forall>t \<in> set (take 1 (L (Wchan w))). live s' L' t)))"
  proof (cases "lock_do_i_hold m s")
    case True
    then have "m' = m\<lparr>owner := None\<rparr>" "s' = s2" using v k x(1-3) a(3) by (auto simp: lock_release_def on_wchan_def Let_def)
    then show ?thesis using x k True by (auto simp: lock_good_def lock_units_def lock_do_i_hold_def)
  qed (use v a(5) in \<open>simp add: lock_release_def\<close>)
qed simp

end
