(* ===== verification/Thread_Properties.thy ===== *)
theory Thread_Properties
  imports Migration Sample
begin

text \<open>
  Properties of the scheduler: round robin between the threads of a processor, first-in first-out
  wait channels, and migration between processors. The examples are states with two processors.
\<close>

section \<open>Two processors and five threads\<close>

lemma empty_lists: "finite D \<Longrightarrow> finite T \<Longrightarrow> card T < 2 ^ 32 \<Longrightarrow> \<exists>st. tl_rep st D T (\<lambda>_. [])"
proof (induction D rule: finite_induct)
  case empty
  then show ?case using no_lists_rep by blast
next
  case (insert l D)
  have e: "(\<lambda>_. [])(l := []) = (\<lambda>_. [] :: thread list)" by auto
  obtain st where "tl_rep st D T (\<lambda>_. [])" using insert by blast
  from threadlist_init_ok [OF this insert.hyps(2)] show ?case unfolding e by blast
qed

definition five_lists :: "listid \<Rightarrow> thread list" where
  "five_lists = (\<lambda>_. [])(RunQ 0 := [2, 5], Wchan 0 := [3, 4])"

text \<open>Thread 1 runs on processor 0, where threads 2 and 5 wait for their turn; threads 3 and 4 sleep; processor 1 is idle.\<close>

definition five_sched :: "splk set \<Rightarrow> tlstore \<Rightarrow> (vnode \<Rightarrow> byte list) sched" where
  "five_sched S st = \<lparr>tls = st, t_state = (\<lambda>t. if t = 1 then S_RUN else if t = 2 \<or> t = 5 then S_READY else S_SLEEP),
     t_cpu = (\<lambda>_. 0), t_proc = (\<lambda>_. Some 0), t_space = (\<lambda>_. (None, 1)), c_isidle = (\<lambda>c. c \<noteq> 0), c_curthread = (\<lambda>_. 1),
     c_ipi_pending = (\<lambda>_. 0), c_shootdown = (\<lambda>_. []), numcpus = 2, curcpu = 0, spins = S, in_interrupt = False, vm = sample_machine\<rparr>"

lemma five_store: "\<exists>st. tl_rep st (klists 2 {0}) {1, 2, 3, 4, 5} five_lists"
proof -
  let ?D = "klists 2 {0}" and ?T = "{1, 2, 3, 4, 5} :: thread set"
  have D: "finite ?D" "RunQ 0 \<in> ?D" "Wchan 0 \<in> ?D" by (simp_all add: klists_def)
  obtain st0 where s0: "tl_rep st0 ?D ?T (\<lambda>_. [])" using empty_lists [OF D(1), of ?T] by auto
  obtain st1 where s1: "tl_rep st1 ?D ?T ((\<lambda>_. [])(RunQ 0 := [2]))"
    using threadlist_addtail_ok [OF s0 D(2), of 2] by auto
  obtain st2 where s2: "tl_rep st2 ?D ?T ((\<lambda>_. [])(RunQ 0 := [2, 5]))"
    using threadlist_addtail_ok [OF s1 D(2), of 5] by auto
  obtain st3 where s3: "tl_rep st3 ?D ?T ((\<lambda>_. [])(RunQ 0 := [2, 5], Wchan 0 := [3]))"
    using threadlist_addtail_ok [OF s2 D(3), of 3] by auto
  have "\<forall>l \<in> ?D. (4 :: thread) \<notin> set (((\<lambda>_. [])(RunQ 0 := [2, 5], Wchan 0 := [3])) l)" by simp
  then obtain st4 where "tl_rep st4 ?D ?T (((\<lambda>_. [])(RunQ 0 := [2, 5], Wchan 0 := [3]))
      (Wchan 0 := ((\<lambda>_. [])(RunQ 0 := [2, 5], Wchan 0 := [3])) (Wchan 0) @ [4]))"
    using threadlist_addtail_ok [OF s3 D(3), of 4] by blast
  then show ?thesis by (auto simp: five_lists_def)
qed

lemma five_inv: "tl_rep st (klists 2 {0}) {1, 2, 3, 4, 5} five_lists \<Longrightarrow> sched_inv (five_sched S st) {0} {1, 2, 3, 4, 5} five_lists"
  by (auto simp: sched_inv_def queues_ok_def running_ok_def five_sched_def five_lists_def klists_def)

section \<open>Properties\<close>

text \<open>C23. A running thread that yields goes to the end of the run queue of its processor and the
  thread at the head runs next, in its own address space; the invariant of the scheduler is kept,
  so the threads of a processor run in turn. With an empty run queue the thread goes on.\<close>

theorem thread_yield_round_robin:
  assumes "sched_inv s W T L" "\<not> c_isidle s (curcpu s)" "spins s = {}"
  shows "(L (RunQ (curcpu s)) = [] \<longrightarrow> thread_yield s = Inr (Unchanged, s)) \<and>
    (\<forall>n ns. L (RunQ (curcpu s)) = n # ns \<longrightarrow> (\<exists>s'. thread_yield s = Inr (Switched, s') \<and> curthread s' = n \<and>
       sched_inv s' W T (L(RunQ (curcpu s) := ns @ [curthread s], Zombies (curcpu s) := [])) \<and>
       vm s' = as_activate (fst (t_space s n)) (snd (t_space s n)) (vm s) \<and> spins s' = {}))"
proof (intro conjI impI allI)
  note I = sched_invD [OF assms(1)]
  show "thread_yield s = Inr (Unchanged, s)" if "L (RunQ (curcpu s)) = []"
    using that count_ok(2) [OF queues_okD(1) [OF I(1)], of "RunQ (curcpu s)"] I(3) assms(2,3)
    by (cases s) (simp add: thread_yield_def thread_switch_def Let_def)
  fix n ns assume L: "L (RunQ (curcpu s)) = n # ns"
  have p: "placed s S_READY 0 L = L(RunQ (curcpu s) := n # ns @ [curthread s])"
    using L by (simp add: placed_def place_list_def Let_def)
  show "\<exists>s'. thread_yield s = Inr (Switched, s') \<and> curthread s' = n \<and>
       sched_inv s' W T (L(RunQ (curcpu s) := ns @ [curthread s], Zombies (curcpu s) := [])) \<and>
       vm s' = as_activate (fst (t_space s n)) (snd (t_space s n)) (vm s) \<and> spins s' = {}"
    by (rule thread_switch_ok [OF assms(1,2), of "Wlock 0" S_READY 0])
      (use assms(3) L p in \<open>auto simp: thread_yield_def\<close>)
qed

theorem thread_yield_round_robin_witness:
  "\<exists>st s'. thread_yield (five_sched {} st) = Inr (Switched, s') \<and> curthread s' = 2 \<and>
     sched_inv s' {0} {1, 2, 3, 4, 5} (five_lists(RunQ 0 := [5, 1], Zombies 0 := []))"
proof -
  obtain st where "tl_rep st (klists 2 {0}) {1, 2, 3, 4, 5} five_lists" using five_store by blast
  from thread_yield_round_robin [OF five_inv [OF this, of "{}"]] show ?thesis
    by (auto simp: five_sched_def five_lists_def curthread_def)
qed

text \<open>C24. Wait channels are first-in first-out: a thread that sleeps with the channel's spinlock
  held goes to the end of the channel and another thread (or the idle loop) takes over with the
  spinlock released; waking one takes the head of the channel to the run queue of its processor;
  waking all empties the channel in order; waking an empty channel does nothing.\<close>

theorem wait_channel_fifo:
  assumes "sched_inv s W T L" "\<not> c_isidle s (curcpu s)" "w \<in> W" "spins s = {Wlock k}" "\<not> in_interrupt s"
  shows "(\<exists>r s' L'. wchan_sleep w (Wlock k) s = Inr (r, s') \<and> r \<noteq> Unchanged \<and> sched_inv s' W T L' \<and>
       L' (Wchan w) = L (Wchan w) @ [curthread s] \<and> spins s' = {}) \<and>
    (L (Wchan w) = [] \<longrightarrow> wchan_wakeone w (Wlock k) s = Inr s) \<and>
    (\<forall>t ts. L (Wchan w) = t # ts \<longrightarrow> (\<exists>s'. wchan_wakeone w (Wlock k) s = Inr s' \<and> t_state s' t = S_READY \<and>
       sched_inv s' W T (L(Wchan w := ts, RunQ (t_cpu s t) := L (RunQ (t_cpu s t)) @ [t])))) \<and>
    (\<exists>s'. wchan_wakeall w (Wlock k) s = Inr s' \<and> sched_inv s' W T (woken (t_cpu s) (L (Wchan w)) (L(Wchan w := []))))"
proof (intro conjI impI allI)
  have lk: "\<forall>c. Runqueue_lock c \<notin> spins s \<and> Ipi_lock c \<notin> spins s" "Wlock k \<in> spins s" using assms(4) by auto
  note wake = wchan_wakeone_ok [OF assms(1,3) lk(2,1)]
  have ws: "wchan_sleep w (Wlock k) s = thread_switch S_SLEEP w (Wlock k) s" using assms(4,5) by (simp add: wchan_sleep_def)
  show "\<exists>r s' L'. wchan_sleep w (Wlock k) s = Inr (r, s') \<and> r \<noteq> Unchanged \<and> sched_inv s' W T L' \<and>
       L' (Wchan w) = L (Wchan w) @ [curthread s] \<and> spins s' = {}"
    unfolding ws
  proof (rule thread_switch_ok [OF assms(1,2), of "Wlock k" S_SLEEP w])
    have p: "placed s S_SLEEP w L (Wchan w) = L (Wchan w) @ [curthread s]" by (simp add: placed_def place_list_def Let_def)
    fix s' n ns assume "thread_switch S_SLEEP w (Wlock k) s = Inr (Switched, s')"
      "sched_inv s' W T ((placed s S_SLEEP w L)(RunQ (curcpu s) := ns, Zombies (curcpu s) := []))"
      "spins s' = (if S_SLEEP = S_SLEEP then spins s - {Wlock k} else spins s)"
    then show "\<exists>r s' L'. thread_switch S_SLEEP w (Wlock k) s = Inr (r, s') \<and> r \<noteq> Unchanged \<and> sched_inv s' W T L' \<and>
       L' (Wchan w) = L (Wchan w) @ [curthread s] \<and> spins s' = {}"
      using assms(4) p by (intro exI [of _ Switched] exI [of _ s'] exI [of _ "(placed s S_SLEEP w L)(RunQ (curcpu s) := ns, Zombies (curcpu s) := [])"]) simp
  qed (use assms(3,4) in \<open>auto simp: placed_def place_list_def Let_def\<close>)
  show "wchan_wakeone w (Wlock k) s = Inr s" if "L (Wchan w) = []" by (rule wake(1) [OF that])
  show "\<exists>s'. wchan_wakeone w (Wlock k) s = Inr s' \<and> t_state s' t = S_READY \<and>
       sched_inv s' W T (L(Wchan w := ts, RunQ (t_cpu s t) := L (RunQ (t_cpu s t)) @ [t]))" if "L (Wchan w) = t # ts" for t ts
    using wake(2) [OF that] by blast
  show "\<exists>s'. wchan_wakeall w (Wlock k) s = Inr s' \<and> sched_inv s' W T (woken (t_cpu s) (L (Wchan w)) (L(Wchan w := [])))"
    using wchan_wakeall_ok [OF assms(1,3) lk(2,1)] by blast
qed

theorem wait_channel_fifo_witness:
  "\<exists>st s'. wchan_wakeone 0 (Wlock 7) (five_sched {Wlock 7} st) = Inr s' \<and> t_state s' 3 = S_READY \<and>
     sched_inv s' {0} {1, 2, 3, 4, 5} (five_lists(Wchan 0 := [4], RunQ 0 := [2, 5, 3]))"
proof -
  obtain st where "tl_rep st (klists 2 {0}) {1, 2, 3, 4, 5} five_lists" using five_store by blast
  from wait_channel_fifo [OF five_inv [OF this, of "{Wlock 7}"], of 0 7] show ?thesis
    by (auto simp: five_sched_def five_lists_def)
qed

text \<open>C25. Migration loses and duplicates no thread: it returns with the invariant of the scheduler,
  the ready threads of all processors together are the same as before, every thread is in the run
  queue of the processor recorded in it, and sleeping and dead threads, the current threads of the
  processors and the spinlocks are untouched.\<close>

theorem migration_conserves_threads:
  assumes "sched_inv s W T L" "\<forall>c. Runqueue_lock c \<notin> spins s \<and> Ipi_lock c \<notin> spins s"
  shows "\<exists>s' L'. thread_consider_migration s = Inr s' \<and> sched_inv s' W T L' \<and> same_rest s s' \<and>
    ready (numcpus s) L' = ready (numcpus s) L \<and>
    t_state s' = t_state s \<and> (\<forall>l \<in> klists (numcpus s) W. (\<forall>c. l \<noteq> RunQ c) \<longrightarrow> L' l = L l)"
  by (rule thread_consider_migration_ok [OF assms])

theorem migration_conserves_threads_witness:
  "\<exists>st s' L'. thread_consider_migration (five_sched {} st) = Inr s' \<and> sched_inv s' {0} {1, 2, 3, 4, 5} L' \<and> ready 2 L' = {2, 5}"
proof -
  obtain st where st: "tl_rep st (klists 2 {0}) {1, 2, 3, 4, 5} five_lists" using five_store by blast
  have "ready 2 five_lists = {2, 5}" by (auto simp: ready_def five_lists_def)
  moreover have "\<forall>c. Runqueue_lock c \<notin> spins (five_sched {} st) \<and> Ipi_lock c \<notin> spins (five_sched {} st)" "numcpus (five_sched {} st) = 2"
    by (simp_all add: five_sched_def)
  ultimately show ?thesis using migration_conserves_threads [OF five_inv [OF st, of "{}"]] by metis
qed

end
