(* ===== verification/Synch_Properties.thy ===== *)
theory Synch_Properties
  imports Synch Thread_Properties
begin

text \<open>
  Properties of semaphores, locks and condition variables under every interleaving of the
  threads of all processors.
\<close>

section \<open>Counting\<close>

lemma P_count:
  "P m s = Inr (got, m', s') \<Longrightarrow> unat (sem_count m) = unat (sem_count m') + of_bool got"
  "P_resume m s = Inr (got, m', s') \<Longrightarrow> unat (sem_count m) = unat (sem_count m') + of_bool got"
proof -
  have "unat (sem_count m) = unat (sem_count m') + of_bool got" if "P_loop m s = Inr (got, m', s')" for s
    using that unat_minus_one [of "sem_count m"] unat_gt_0 [of "sem_count m"]
    by (cases "sem_count m = 0") (auto simp: P_loop_def bindR_eq_Inr split: prod.splits if_splits)
  then show "P m s = Inr (got, m', s') \<Longrightarrow> unat (sem_count m) = unat (sem_count m') + of_bool got"
    "P_resume m s = Inr (got, m', s') \<Longrightarrow> unat (sem_count m) = unat (sem_count m') + of_bool got"
    by (auto simp: P_def P_resume_def bindR_eq_Inr split: if_splits)
qed

lemma V_count: "V m s = Inr (m', s') \<Longrightarrow> unat (sem_count m') = unat (sem_count m) + 1"
  using unatSuc [of "sem_count m"]
  by (auto simp: V_def Let_def bindR_eq_Inr add.commute word_gt_0 split: if_splits)

definition passes :: "(thread \<times> bool) list \<Rightarrow> nat" where "passes l = length (filter snd l)"
definition leaves :: "(thread \<times> bool) list \<Rightarrow> nat" where "leaves l = length (filter (Not \<circ> snd) l)"

lemma sem_balance:
  "(gstep P P_resume V)\<^sup>*\<^sup>* g g' \<Longrightarrow> unat (sem_count (gmon g)) + passes (glog g) = n + leaves (glog g) \<Longrightarrow>
   unat (sem_count (gmon g')) + passes (glog g') = n + leaves (glog g')"
proof (induction rule: converse_rtranclp_induct)
  case (step g h)
  from step.hyps(1) have "unat (sem_count (gmon h)) + passes (glog h) = n + leaves (glog h)"
  proof (cases rule: gstep.cases)
    case (Enter c t got m' s')
    then have "unat (sem_count (gmon g)) = unat (sem_count m') + of_bool got"
      using P_count(1) [of "gmon g" _ got m' s'] P_count(2) [of "gmon g" _ got m' s'] by (cases "gpc g t = Woken") simp_all
    then show ?thesis using Enter(1) step.prems by (cases got) (simp_all add: passes_def leaves_def)
  next
    case (Leave c t m' s')
    then show ?thesis using V_count [OF Leave(6)] step.prems by (simp add: passes_def leaves_def)
  qed (use step.prems in simp_all)
  then show ?case by (rule step.IH)
qed

text \<open>The threads inside the critical section, according to the log.\<close>

fun crit :: "(thread \<times> bool) list \<Rightarrow> thread set" where
  "crit [] = {}"
| "crit ((t, got) # l) = (if got then insert t (crit l) else crit l - {t})"

lemma lock_acquire_owner:
  "lock_acquire m s = Inr (got, m', s') \<Longrightarrow> if got then owner m = None \<and> owner m' = Some (curthread s) else owner m' = owner m"
  by (auto simp: lock_acquire_def on_wchan_def sp_acquire_def curthread_def bindR_eq_Inr split: if_splits option.splits prod.splits)

lemma lock_release_owner:
  "lock_release m s = Inr (m', s') \<Longrightarrow> owner m' = (if owner m = Some (curthread s) then None else owner m)"
  by (auto simp: lock_release_def lock_do_i_hold_def on_wchan_def Let_def bindR_eq_Inr split: if_splits option.splits prod.splits)

lemma lock_crit:
  "(gstep lock_acquire lock_acquire lock_release)\<^sup>*\<^sup>* g g' \<Longrightarrow> crit (glog g) = set_option (owner (gmon g)) \<Longrightarrow>
   crit (glog g') = set_option (owner (gmon g'))"
proof (induction rule: converse_rtranclp_induct)
  case (step g h)
  from step.hyps(1) have "crit (glog h) = set_option (owner (gmon h))"
  proof (cases rule: gstep.cases)
    case (Enter c t got m' s')
    then show ?thesis using lock_acquire_owner [of "gmon g" "(gsch g)\<lparr>curcpu := c\<rparr>" got m' s'] step.prems
      by (auto simp: curthread_def split: if_splits)
  next
    case (Leave c t m' s')
    then show ?thesis using lock_release_owner [of "gmon g" "(gsch g)\<lparr>curcpu := c\<rparr>" m' s'] step.prems
      by (auto simp: curthread_def split: if_splits option.splits)
  qed (use step.prems in simp_all)
  then show ?case by (rule step.IH)
qed

section \<open>Properties\<close>

text \<open>C28. Semaphores, from a state in which nobody waits, after any interleaving of \<open>P\<close>, \<open>V\<close>, context
  switches and migrations on all processors: the count is the initial count plus the number of
  completed \<open>V\<close> minus the number of completed \<open>P\<close>; the threads asleep in \<open>P\<close> are those on the wait channel
  and all others can run; and no wake-up is lost: while threads sleep, at least as many threads are
  woken and on their way as the count says, so when no thread can run and one sleeps, the count is 0.\<close>

theorem semaphore_no_lost_wakeup:
  assumes "sched_inv s {w} T L" "L (Wchan w) = []" "spins s = {}" "\<not> in_interrupt s" "\<forall>t \<in> T. live s L t"
    and "(gstep P P_resume V)\<^sup>*\<^sup>* \<lparr>gmon = \<lparr>sem_wchan = w, sem_lock = Wlock k, sem_count = n\<rparr>, gsch = s, gpc = (\<lambda>_. Running), glog = []\<rparr> g"
  shows "unat (sem_count (gmon g)) + passes (glog g) = unat n + leaves (glog g) \<and>
    (\<exists>L'. sched_inv (gsch g) {w} T L' \<and> (\<forall>t \<in> T. gpc g t = Asleep \<longleftrightarrow> t \<in> set (L' (Wchan w))) \<and>
       (\<forall>t \<in> T. gpc g t = Asleep \<or> live (gsch g) L' t) \<and>
       (L' (Wchan w) \<noteq> [] \<longrightarrow> unat (sem_count (gmon g)) \<le> card {t \<in> T. gpc g t = Woken}) \<and>
       ((\<forall>t \<in> T. \<not> live (gsch g) L' t) \<longrightarrow> (\<exists>t \<in> T. gpc g t = Asleep) \<longrightarrow> sem_count (gmon g) = 0))"
proof -
  let ?g = "\<lparr>gmon = \<lparr>sem_wchan = w, sem_lock = Wlock k, sem_count = n\<rparr>, gsch = s, gpc = (\<lambda>_. Running), glog = []\<rparr>"
  have "ginv (sem_good w) sem_units w T ?g L" using assms(1-5) by (simp add: ginv_def sem_good_def)
  then obtain L' where L': "ginv (sem_good w) sem_units w T g L'" using sem.reach_ginv [OF assms(6)] by blast
  note G = sem.ginvD [OF L']
  have stuck: "sem_count (gmon g) = 0" if "\<forall>t \<in> T. \<not> live (gsch g) L' t" "\<exists>t \<in> T. gpc g t = Asleep"
    using sem.no_stuck_sleeper [OF L'] that by (auto simp: sem_units_def unat_eq_zero)
  have "unat (sem_count (gmon g)) + passes (glog g) = unat n + leaves (glog g)"
    using sem_balance [OF assms(6), of "unat n"] by (simp add: passes_def leaves_def)
  moreover have "L' (Wchan w) \<noteq> [] \<longrightarrow> unat (sem_count (gmon g)) \<le> card {t \<in> T. gpc g t = Woken}"
    using G(7) by (auto simp: sem_units_def)
  ultimately show ?thesis using G(1,5,6) stuck by (intro conjI exI [of _ L']) blast+
qed

text \<open>C29. Locks give mutual exclusion under every interleaving: the threads that have acquired the lock
  and not released it are exactly the recorded owner, so there is at most one; releases by other
  threads change nothing. No wake-up is lost: while the lock is free and threads sleep on it, one
  of them is woken and can run.\<close>

theorem lock_mutual_exclusion:
  assumes "sched_inv s {w} T L" "L (Wchan w) = []" "spins s = {}" "\<not> in_interrupt s" "\<forall>t \<in> T. live s L t"
    and "(gstep lock_acquire lock_acquire lock_release)\<^sup>*\<^sup>*
      \<lparr>gmon = \<lparr>lk_wchan = Some w, lk_spin = Wlock k, owner = None\<rparr>, gsch = s, gpc = (\<lambda>_. Running), glog = []\<rparr> g"
  shows "crit (glog g) = set_option (owner (gmon g)) \<and> card (crit (glog g)) \<le> 1 \<and>
    (\<exists>L'. sched_inv (gsch g) {w} T L' \<and> (\<forall>t \<in> T. gpc g t = Asleep \<longleftrightarrow> t \<in> set (L' (Wchan w))) \<and>
       (L' (Wchan w) \<noteq> [] \<longrightarrow> owner (gmon g) = None \<longrightarrow> (\<exists>t \<in> T. gpc g t = Woken \<and> live (gsch g) L' t)))"
proof -
  let ?g = "\<lparr>gmon = \<lparr>lk_wchan = Some w, lk_spin = Wlock k, owner = None\<rparr>, gsch = s, gpc = (\<lambda>_. Running), glog = []\<rparr>"
  have "ginv (lock_good w) lock_units w T ?g L" using assms(1-5) by (simp add: ginv_def lock_good_def)
  then obtain L' where L': "ginv (lock_good w) lock_units w T g L'" using lk.reach_ginv [OF assms(6)] by blast
  note G = lk.ginvD [OF L']
  have c: "crit (glog g) = set_option (owner (gmon g))" using lock_crit [OF assms(6)] by simp
  have "\<exists>t \<in> T. gpc g t = Woken \<and> live (gsch g) L' t" if "L' (Wchan w) \<noteq> []" "owner (gmon g) = None"
  proof -
    have "card {t \<in> T. gpc g t = Woken} \<noteq> 0" using G(7) that by (auto simp: lock_units_def)
    then have "{t \<in> T. gpc g t = Woken} \<noteq> {}" by (intro notI) simp
    then obtain t where "t \<in> T" "gpc g t = Woken" by blast
    then show ?thesis using G(6) [of t] by auto
  qed
  then show ?thesis using c G(1,5) by (cases "owner (gmon g)") auto
qed

text \<open>The example: the two sleeping threads are left out, thread 1 runs and threads 2 and 5 are ready.\<close>

definition three_lists :: "listid \<Rightarrow> thread list" where
  "three_lists = (\<lambda>_. [])(RunQ 0 := [2, 5])"

lemma three_store: "finite W \<Longrightarrow> \<exists>st. tl_rep st (klists 2 W) {1, 2, 5} three_lists"
proof -
  assume W: "finite W"
  let ?D = "klists 2 W" and ?T = "{1, 2, 5} :: thread set"
  have D: "finite ?D" "RunQ 0 \<in> ?D" using W by (simp_all add: klists_def)
  obtain st0 where s0: "tl_rep st0 ?D ?T (\<lambda>_. [])" using empty_lists [OF D(1), of ?T] by auto
  obtain st1 where s1: "tl_rep st1 ?D ?T ((\<lambda>_. [])(RunQ 0 := [2]))"
    using threadlist_addtail_ok [OF s0 D(2), of 2] by auto
  show ?thesis using threadlist_addtail_ok [OF s1 D(2), of 5] by (auto simp: three_lists_def)
qed

lemma three_inv:
  assumes "tl_rep st (klists 2 W) {1, 2, 5} three_lists"
  shows "sched_inv (five_sched {} st) W {1, 2, 5} three_lists" "\<forall>t \<in> {1, 2, 5}. live (five_sched {} st) three_lists t"
proof -
  show "sched_inv (five_sched {} st) W {1, 2, 5} three_lists"
    using assms by (auto simp: sched_inv_def queues_ok_def running_ok_def five_sched_def three_lists_def klists_def)
  have "live (five_sched {} st) three_lists 1" by (rule live_running [of 0]) (simp_all add: five_sched_def)
  moreover have "live (five_sched {} st) three_lists 2" "live (five_sched {} st) three_lists 5"
    by (rule live_queued [of 0]; simp add: five_sched_def three_lists_def)+
  ultimately show "\<forall>t \<in> {1, 2, 5}. live (five_sched {} st) three_lists t" by simp
qed

text \<open>Thread 1 does a \<open>P\<close> on a semaphore with count 1, and on a semaphore with count 0 it goes to sleep.\<close>

theorem semaphore_no_lost_wakeup_witness:
  "\<exists>st g L'. (gstep P P_resume V)\<^sup>*\<^sup>* \<lparr>gmon = \<lparr>sem_wchan = 0, sem_lock = Wlock 7, sem_count = 1\<rparr>, gsch = five_sched {} st,
       gpc = (\<lambda>_. Running), glog = []\<rparr> g \<and> glog g = [(1, True)] \<and> unat (sem_count (gmon g)) + 1 = 1 \<and> sched_inv (gsch g) {0} {1, 2, 5} L'"
proof -
  obtain st where st: "tl_rep st (klists 2 {0}) {1, 2, 5} three_lists" using three_store [of "{0}"] by auto
  let ?s = "five_sched {} st" and ?m = "\<lparr>sem_wchan = 0, sem_lock = Wlock 7, sem_count = 1\<rparr>"
  let ?g = "\<lparr>gmon = ?m, gsch = ?s, gpc = (\<lambda>_. Running), glog = []\<rparr>"
  let ?h = "\<lparr>gmon = ?m\<lparr>sem_count := 0\<rparr>, gsch = ?s, gpc = (\<lambda>_. Running)(1 := Running), glog = [(1, True)]\<rparr>"
  have p: "P ?m (?s\<lparr>curcpu := 0\<rparr>) = Inr (True, ?m\<lparr>sem_count := 0\<rparr>, ?s)"
    by (simp add: P_def P_loop_def five_sched_def)
  have "gstep P P_resume V ?g (?g\<lparr>gmon := ?m\<lparr>sem_count := 0\<rparr>, gsch := ?s, gpc := (gpc ?g)(1 := if True then Running else Asleep),
      glog := (if True then (1, True) # glog ?g else glog ?g)\<rparr>)"
    by (rule gstep.Enter [of 0]) (use p in \<open>simp_all add: five_sched_def\<close>)
  then have r: "(gstep P P_resume V)\<^sup>*\<^sup>* ?g ?h" by simp
  have c: "three_lists (Wchan 0) = []" "spins ?s = {}" "\<not> in_interrupt ?s" by (simp_all add: three_lists_def five_sched_def)
  note t = semaphore_no_lost_wakeup [OF three_inv(1) [OF st] c three_inv(2) [OF st] r]
  obtain L' where "sched_inv ?s {0} {1, 2, 5} L'" using t by auto
  then show ?thesis using r t by (intro exI [of _ st] exI [of _ ?h] exI [of _ L']) (simp add: passes_def leaves_def)
qed

theorem lock_mutual_exclusion_witness:
  "\<exists>st g. (gstep lock_acquire lock_acquire lock_release)\<^sup>*\<^sup>* \<lparr>gmon = \<lparr>lk_wchan = Some 0, lk_spin = Wlock 7, owner = None\<rparr>,
       gsch = five_sched {} st, gpc = (\<lambda>_. Running), glog = []\<rparr> g \<and> crit (glog g) = {1} \<and> owner (gmon g) = Some 1 \<and> card (crit (glog g)) \<le> 1"
proof -
  obtain st where st: "tl_rep st (klists 2 {0}) {1, 2, 5} three_lists" using three_store [of "{0}"] by auto
  let ?s = "five_sched {} st" and ?m = "\<lparr>lk_wchan = Some 0, lk_spin = Wlock 7, owner = None\<rparr>"
  let ?g = "\<lparr>gmon = ?m, gsch = ?s, gpc = (\<lambda>_. Running), glog = []\<rparr>"
  let ?h = "\<lparr>gmon = ?m\<lparr>owner := Some 1\<rparr>, gsch = ?s, gpc = (\<lambda>_. Running)(1 := Running), glog = [(1, True)]\<rparr>"
  have p: "lock_acquire ?m (?s\<lparr>curcpu := 0\<rparr>) = Inr (True, ?m\<lparr>owner := Some 1\<rparr>, ?s)"
    by (simp add: lock_acquire_def five_sched_def curthread_def)
  have "gstep lock_acquire lock_acquire lock_release ?g (?g\<lparr>gmon := ?m\<lparr>owner := Some 1\<rparr>, gsch := ?s,
      gpc := (gpc ?g)(1 := if True then Running else Asleep), glog := (if True then (1, True) # glog ?g else glog ?g)\<rparr>)"
    by (rule gstep.Enter [of 0]) (use p in \<open>simp_all add: five_sched_def\<close>)
  then have r: "(gstep lock_acquire lock_acquire lock_release)\<^sup>*\<^sup>* ?g ?h" by simp
  have c: "three_lists (Wchan 0) = []" "spins ?s = {}" "\<not> in_interrupt ?s" by (simp_all add: three_lists_def five_sched_def)
  from lock_mutual_exclusion [OF three_inv(1) [OF st] c three_inv(2) [OF st] r] show ?thesis
    using r by (intro exI [of _ st] exI [of _ ?h]) simp
qed

text \<open>C30. Condition variables. A thread that holds the lock and waits gives up the lock and is on the
  wait channel in the same critical section, so a later signal cannot miss it; the lock's first
  waiter is woken. A signal takes the first waiter of the condition variable to a run queue, a
  broadcast all of them, and both keep the lock. A signal without the lock takes the lock and
  does not give it back.\<close>

theorem cv_wait_and_signal:
  assumes "sched_inv s W T L" "\<not> c_isidle s (curcpu s)" "wl \<in> W" "wc \<in> W" "wl \<noteq> wc" "spins s = {}" "\<not> in_interrupt s" "j \<noteq> k"
  defines "cv \<equiv> \<lparr>cv_wchan = Some wc, cv_spin = Wlock k\<rparr>" and "lk \<equiv> \<lambda>ow. \<lparr>lk_wchan = Some wl, lk_spin = Wlock j, owner = ow\<rparr>"
  shows "(\<exists>s' L'. cv_wait cv (lk (Some (curthread s))) s = Inr (At_cv, lk None, s') \<and> sched_inv s' W T L' \<and> spins s' = {} \<and>
      L' (Wchan wc) = L (Wchan wc) @ [curthread s] \<and> L' (Wchan wl) = drop 1 (L (Wchan wl)) \<and>
      (\<forall>t \<in> set (take 1 (L (Wchan wl))) - {curthread s}. live s' L' t)) \<and>
    (\<exists>s' L'. cv_signal cv (lk (Some (curthread s))) s = Inr (Passed, lk (Some (curthread s)), s') \<and> sched_inv s' W T L' \<and> spins s' = {} \<and>
      L' (Wchan wc) = drop 1 (L (Wchan wc)) \<and> L' (Wchan wl) = L (Wchan wl) \<and> (\<forall>t \<in> set (take 1 (L (Wchan wc))). live s' L' t)) \<and>
    (\<exists>s' L'. cv_broadcast cv (lk (Some (curthread s))) s = Inr (Passed, lk (Some (curthread s)), s') \<and> sched_inv s' W T L' \<and> spins s' = {} \<and>
      L' (Wchan wc) = [] \<and> L' (Wchan wl) = L (Wchan wl) \<and> (\<forall>t \<in> set (L (Wchan wc)). live s' L' t)) \<and>
    (\<exists>s'. cv_signal cv (lk None) s = Inr (Passed, lk (Some (curthread s)), s'))"
proof (intro conjI)
  obtain s1 s2 L2 where x: "wchan_wakeone wc (Wlock k) (s\<lparr>spins := {Wlock k}\<rparr>) = Inr s1" "Wlock k \<in> spins s1"
    "s2 = s1\<lparr>spins := spins s1 - {Wlock k}\<rparr>" "sched_inv s2 W T L2" "spins s2 = {}"
    "\<forall>v. L2 (Wchan v) = (if v = wc then drop 1 (L (Wchan wc)) else L (Wchan v))" "\<forall>t \<in> set (take 1 (L (Wchan wc))). live s2 L2 t"
    using wake_section [OF assms(1,4), of k] assms(6) by auto
  have "cv_signal cv (lk (Some (curthread s))) s = Inr (Passed, lk (Some (curthread s)), s2)"
    using x(1-3) assms(6) by (simp add: cv_signal_def cv_need_lock_def lock_do_i_hold_def cv_def lk_def on_wchan_def)
  then show "\<exists>s' L'. cv_signal cv (lk (Some (curthread s))) s = Inr (Passed, lk (Some (curthread s)), s') \<and> sched_inv s' W T L' \<and> spins s' = {} \<and>
      L' (Wchan wc) = drop 1 (L (Wchan wc)) \<and> L' (Wchan wl) = L (Wchan wl) \<and> (\<forall>t \<in> set (take 1 (L (Wchan wc))). live s' L' t)"
    using x assms(5) by (intro exI [of _ s2] exI [of _ L2]) simp
  have "lock_acquire (lk None) s = Inr (True, lk (Some (curthread s)), s)"
    using assms(6) by (simp add: lock_acquire_def lk_def sched_spins spins_id)
  then show "\<exists>s'. cv_signal cv (lk None) s = Inr (Passed, lk (Some (curthread s)), s')"
    using x(1-3) assms(6) by (simp add: cv_signal_def cv_need_lock_def lock_do_i_hold_def cv_def lk_def on_wchan_def)
next
  obtain s1 s2 L2 where x: "wchan_wakeall wc (Wlock k) (s\<lparr>spins := {Wlock k}\<rparr>) = Inr s1" "spins s1 = {Wlock k}" "s2 = s1\<lparr>spins := {}\<rparr>"
    "sched_inv s2 W T L2" "\<forall>v. L2 (Wchan v) = (if v = wc then [] else L (Wchan v))" "\<forall>t \<in> set (L (Wchan wc)). live s2 L2 t"
    using wakeall_section [OF assms(1,4,6), of k] by blast
  then show "\<exists>s' L'. cv_broadcast cv (lk (Some (curthread s))) s = Inr (Passed, lk (Some (curthread s)), s') \<and> sched_inv s' W T L' \<and> spins s' = {} \<and>
      L' (Wchan wc) = [] \<and> L' (Wchan wl) = L (Wchan wl) \<and> (\<forall>t \<in> set (L (Wchan wc)). live s' L' t)"
    using assms(5,6) by (intro exI [of _ s2] exI [of _ L2])
      (simp add: cv_broadcast_def cv_need_lock_def lock_do_i_hold_def cv_def lk_def on_wchan_def)
next
  let ?s0 = "s\<lparr>spins := {Wlock k}\<rparr>"
  have i0: "sched_inv ?s0 W T L" "Wlock j \<notin> spins ?s0" "spins ?s0 \<subseteq> range Wlock" using assms(1,8) by (simp_all add: sched_spins)
  obtain s1 s2 L2 where x: "wchan_wakeone wl (Wlock j) (?s0\<lparr>spins := insert (Wlock j) (spins ?s0)\<rparr>) = Inr s1" "Wlock j \<in> spins s1"
    "s2 = s1\<lparr>spins := spins s1 - {Wlock j}\<rparr>" "sched_inv s2 W T L2" "spins s2 = {Wlock k}" "curthread s2 = curthread s" "curcpu s2 = curcpu s"
    "c_isidle s2 = c_isidle s" "\<forall>v. L2 (Wchan v) = (if v = wl then drop 1 (L (Wchan wl)) else L (Wchan v))"
    "keeps {} ?s0 L s2 L2" "\<forall>t \<in> set (take 1 (L (Wchan wl))). live s2 L2 t"
    using wake_section [OF i0(1) assms(3) i0(2,3)] by (auto simp: sched_spins)
  have rel: "lock_release (lk (Some (curthread s))) ?s0 = Inr (lk None, s2)"
    using x(1-3) i0(2) by (simp add: lock_release_def lock_do_i_hold_def lk_def on_wchan_def sched_spins)
  have b: "\<not> c_isidle s2 (curcpu s2)" "\<not> in_interrupt s2" using assms(2,7) x(7,8,10) by (simp_all add: keeps_def)
  obtain r s3 L3 where y: "wchan_sleep wc (Wlock k) s2 = Inr (r, s3)" "sched_inv s3 W T L3"
    "\<forall>v. L3 (Wchan v) = (if v = wc then L2 (Wchan wc) @ [curthread s2] else L2 (Wchan v))" "spins s3 = {}" "keeps {curthread s2} s2 L2 s3 L3"
    using wchan_sleep_ok [OF x(4) b(1) assms(4) x(5) b(2)] by blast
  have "cv_wait cv (lk (Some (curthread s))) s = Inr (At_cv, lk None, s3)"
    using rel y(1) assms(6) by (simp add: cv_wait_def cv_need_lock_def lock_do_i_hold_def cv_def lk_def on_wchan_def)
  then show "\<exists>s' L'. cv_wait cv (lk (Some (curthread s))) s = Inr (At_cv, lk None, s') \<and> sched_inv s' W T L' \<and> spins s' = {} \<and>
      L' (Wchan wc) = L (Wchan wc) @ [curthread s] \<and> L' (Wchan wl) = drop 1 (L (Wchan wl)) \<and>
      (\<forall>t \<in> set (take 1 (L (Wchan wl))) - {curthread s}. live s' L' t)"
    using x y assms(5) by (intro exI [of _ s3] exI [of _ L3]) (auto simp: keeps_def)
qed

theorem cv_wait_and_signal_witness:
  "\<exists>st s' L'. cv_wait \<lparr>cv_wchan = Some 1, cv_spin = Wlock 8\<rparr> \<lparr>lk_wchan = Some 0, lk_spin = Wlock 7, owner = Some 1\<rparr> (five_sched {} st) =
       Inr (At_cv, \<lparr>lk_wchan = Some 0, lk_spin = Wlock 7, owner = None\<rparr>, s') \<and>
     sched_inv s' {0, 1} {1, 2, 5} L' \<and> L' (Wchan 1) = [1]"
proof -
  obtain st where st: "tl_rep st (klists 2 {0, 1}) {1, 2, 5} three_lists" using three_store [of "{0, 1}"] by auto
  let ?s = "five_sched {} st"
  have c: "\<not> c_isidle ?s (curcpu ?s)" "(0 :: nat) \<in> {0, 1}" "(1 :: nat) \<in> {0, 1}" "(0 :: nat) \<noteq> 1" "spins ?s = {}" "\<not> in_interrupt ?s" "(7 :: nat) \<noteq> 8"
    and t: "curthread ?s = 1" "three_lists (Wchan 1) = []" by (simp_all add: five_sched_def three_lists_def curthread_def)
  from cv_wait_and_signal [OF three_inv(1) [OF st] c] show ?thesis unfolding t by auto
qed

end
