(* ===== verification/Loadelf.thy ===== *)
theory Loadelf
  imports Sample
begin

text \<open>
  Starting a program: \<^verbatim>\<open>load_elf\<close> of \<^verbatim>\<open>kern/syscall/loadelf.c\<close> (with demand paging: it only defines
  the regions) and \<^verbatim>\<open>runprogram\<close> of \<^verbatim>\<open>kern/syscall/runprogram.c\<close>. The headers are decoded from the
  bytes of the file, in the big-endian order of the machine. What \<^verbatim>\<open>vfs_open\<close> returns is an
  argument, as is the success of every \<^verbatim>\<open>kmalloc\<close>.
\<close>

section \<open>Headers\<close>

definition ELFMAG0 :: byte where "ELFMAG0 = 0x7f"
definition ELFMAG1 :: byte where "ELFMAG1 = 0x45"
definition ELFMAG2 :: byte where "ELFMAG2 = 0x4c"
definition ELFMAG3 :: byte where "ELFMAG3 = 0x46"
definition ELFCLASS32 :: byte where "ELFCLASS32 = 1"
definition ELFDATA2MSB :: byte where "ELFDATA2MSB = 2"
definition EV_CURRENT :: nat where "EV_CURRENT = 1"
definition ET_EXEC :: "16 word" where "ET_EXEC = 2"
definition EM_MACHINE :: "16 word" where "EM_MACHINE = 8"
definition PT_NULL :: u32 where "PT_NULL = 0"
definition PT_LOAD :: u32 where "PT_LOAD = 1"
definition PT_PHDR :: u32 where "PT_PHDR = 6"
definition PT_MIPS_REGINFO :: u32 where "PT_MIPS_REGINFO = 0x70000000"
definition PF_R :: u32 where "PF_R = 4"
definition PF_W :: u32 where "PF_W = 2"
definition PF_X :: u32 where "PF_X = 1"

record Elf_Ehdr =
  e_ident :: "byte list"
  e_type :: "16 word"
  e_machine :: "16 word"
  e_version :: u32
  e_entry :: u32
  e_phoff :: u32
  e_shoff :: u32
  e_flags :: u32
  e_ehsize :: "16 word"
  e_phentsize :: "16 word"
  e_phnum :: "16 word"
  e_shentsize :: "16 word"
  e_shnum :: "16 word"
  e_shstrndx :: "16 word"

record Elf_Phdr =
  p_type :: u32
  p_offset :: u32
  p_vaddr :: u32
  p_paddr :: u32
  p_filesz :: u32
  p_memsz :: u32
  p_flags :: u32
  p_align :: u32

definition be16 :: "byte list \<Rightarrow> nat \<Rightarrow> 16 word" where
  "be16 bs i = push_bit 8 (ucast (bs ! i)) OR ucast (bs ! (i + 1))"

definition be32 :: "byte list \<Rightarrow> nat \<Rightarrow> u32" where
  "be32 bs i = push_bit 24 (ucast (bs ! i)) OR push_bit 16 (ucast (bs ! (i + 1))) OR
     push_bit 8 (ucast (bs ! (i + 2))) OR ucast (bs ! (i + 3))"

definition ehdr_size :: nat where "ehdr_size = 52"
definition phdr_size :: nat where "phdr_size = 32"

definition ehdr_of :: "byte list \<Rightarrow> Elf_Ehdr" where
  "ehdr_of bs = \<lparr>e_ident = take 16 bs, e_type = be16 bs 16, e_machine = be16 bs 18, e_version = be32 bs 20,
     e_entry = be32 bs 24, e_phoff = be32 bs 28, e_shoff = be32 bs 32, e_flags = be32 bs 36,
     e_ehsize = be16 bs 40, e_phentsize = be16 bs 42, e_phnum = be16 bs 44, e_shentsize = be16 bs 46,
     e_shnum = be16 bs 48, e_shstrndx = be16 bs 50\<rparr>"

definition phdr_of :: "byte list \<Rightarrow> Elf_Phdr" where
  "phdr_of bs = \<lparr>p_type = be32 bs 0, p_offset = be32 bs 4, p_vaddr = be32 bs 8, p_paddr = be32 bs 12,
     p_filesz = be32 bs 16, p_memsz = be32 bs 20, p_flags = be32 bs 24, p_align = be32 bs 28\<rparr>"

text \<open>Reading a header: an error of the file, a short read, or the bytes.\<close>

definition read_header :: "'f vnode_ops \<Rightarrow> 'f machine \<Rightarrow> vnode \<Rightarrow> int \<Rightarrow> nat \<Rightarrow> (int + byte list) res" where
  "read_header ops s v off n =
     (if held s \<noteq> {} then Inl Kassert
      else let (result, bs) = vop_read ops (files s) v off n
           in Inr (if result \<noteq> 0 then Inl result else if n - length bs \<noteq> 0 then Inl ENOEXEC else Inr bs))"

definition elf_check :: "Elf_Ehdr \<Rightarrow> bool" where
  "elf_check eh \<longleftrightarrow> \<not> (e_ident eh ! 0 \<noteq> ELFMAG0 \<or> e_ident eh ! 1 \<noteq> ELFMAG1 \<or> e_ident eh ! 2 \<noteq> ELFMAG2 \<or>
     e_ident eh ! 3 \<noteq> ELFMAG3 \<or> e_ident eh ! 4 \<noteq> ELFCLASS32 \<or> e_ident eh ! 5 \<noteq> ELFDATA2MSB \<or>
     e_ident eh ! 6 \<noteq> of_nat EV_CURRENT \<or> e_version eh \<noteq> of_nat EV_CURRENT \<or> e_type eh \<noteq> ET_EXEC \<or>
     e_machine eh \<noteq> EM_MACHINE)"

section \<open>Loading\<close>

text \<open>The offset of program header \<open>i\<close>, computed in 32 bits.\<close>

definition phdr_offset :: "Elf_Ehdr \<Rightarrow> nat \<Rightarrow> int" where
  "phdr_offset eh i = uint (e_phoff eh + of_nat i * ucast (e_phentsize eh))"

text \<open>The loop over the program headers; \<open>oks i\<close> are the results of the two \<^verbatim>\<open>kmalloc\<close> calls in round \<open>i\<close>.\<close>

fun load_loop :: "'f vnode_ops \<Rightarrow> (nat \<Rightarrow> bool \<times> bool) \<Rightarrow> 'f machine \<Rightarrow> vnode \<Rightarrow> Elf_Ehdr \<Rightarrow> nat list \<Rightarrow> addrspace \<Rightarrow> (int \<times> addrspace) res" where
  "load_loop ops oks s v eh [] as = Inr (0, as)"
| "load_loop ops oks s v eh (i # js) as =
     bindR (read_header ops s v (phdr_offset eh i) phdr_size) (\<lambda>h.
     case h of Inl result \<Rightarrow> Inr (result, as)
     | Inr bs \<Rightarrow> let ph = phdr_of bs in
         if p_type ph = PT_NULL \<or> p_type ph = PT_PHDR \<or> p_type ph = PT_MIPS_REGINFO then load_loop ops oks s v eh js as
         else if p_type ph \<noteq> PT_LOAD then Inr (ENOEXEC, as)
         else bindR (as_define_region (fst (oks i)) (snd (oks i)) as s (p_vaddr ph) (p_memsz ph) (uint (p_offset ph)) (Some v)
                (uint (p_flags ph AND PF_R)) (uint (p_flags ph AND PF_W)) (uint (p_flags ph AND PF_X))) (\<lambda>(result, as).
              if result \<noteq> 0 then Inr (result, as) else load_loop ops oks s v eh js as))"

definition load_elf :: "'f vnode_ops \<Rightarrow> (nat \<Rightarrow> bool \<times> bool) \<Rightarrow> 'f machine \<Rightarrow> vnode \<Rightarrow> addrspace \<Rightarrow> vaddr_t \<Rightarrow> (int \<times> vaddr_t \<times> addrspace) res" where
  "load_elf ops oks s v as entrypoint =
     bindR (read_header ops s v 0 ehdr_size) (\<lambda>h.
     case h of Inl result \<Rightarrow> Inr (result, entrypoint, as)
     | Inr bs \<Rightarrow> let eh = ehdr_of bs in
         if \<not> elf_check eh then Inr (ENOEXEC, entrypoint, as)
         else bindR (load_loop ops oks s v eh [0..<unat (e_phnum eh)] as) (\<lambda>(result, as).
           if result \<noteq> 0 then Inr (result, entrypoint, as)
           else let result = as_prepare_load as in
           if result \<noteq> 0 then Inr (result, entrypoint, as) else Inr (0, e_entry eh, as)))"

text \<open>
  \<^verbatim>\<open>runprogram\<close>: it either returns an error number or enters user mode at an address with a stack
  pointer. A successful \<^verbatim>\<open>vfs_open\<close> hands out one reference to the vnode.
\<close>

datatype run_result = Returned int | Entered vaddr_t vaddr_t

definition runprogram :: "'f vnode_ops \<Rightarrow> int + vnode \<Rightarrow> bool \<Rightarrow> (nat \<Rightarrow> bool \<times> bool) \<Rightarrow> bool \<times> bool \<Rightarrow> pid_t
    \<Rightarrow> addrspace option \<Rightarrow> 'f machine \<Rightarrow> (run_result \<times> addrspace option \<times> 'f machine) res" where
  "runprogram ops opened ok oks stackok pid curas s =
     (case opened of Inl result \<Rightarrow> Inr (Returned result, curas, s)
      | Inr v \<Rightarrow>
          let s = vnode_incref v s in
          if curas \<noteq> None then Inl Kassert
          else case as_create ok of
            None \<Rightarrow> bindR (vfs_close v s) (\<lambda>s. Inr (Returned ENOMEM, curas, s))
          | Some as \<Rightarrow>
              let s = as_activate (Some as) pid s in
              bindR (load_elf ops oks s v as 0) (\<lambda>(result, entrypoint, as).
              if result \<noteq> 0 then bindR (vfs_close v s) (\<lambda>s. Inr (Returned result, Some as, s))
              else bindR (as_define_stack (fst stackok) (snd stackok) as) (\<lambda>(result, stackptr, as).
              if result \<noteq> 0 then Inr (Returned result, Some as, s) else Inr (Entered entrypoint stackptr, Some as, s))))"

section \<open>What is loaded\<close>

text \<open>The file \<open>v\<close> has a valid header and the program headers \<open>phs\<close>.\<close>

definition elf_image :: "'f vnode_ops \<Rightarrow> 'f \<Rightarrow> vnode \<Rightarrow> Elf_Ehdr \<Rightarrow> Elf_Phdr list \<Rightarrow> bool" where
  "elf_image ops fs v eh phs \<longleftrightarrow>
     (\<exists>bs. vop_read ops fs v 0 ehdr_size = (0, bs) \<and> length bs = ehdr_size \<and> ehdr_of bs = eh) \<and> elf_check eh \<and>
     length phs = unat (e_phnum eh) \<and>
     (\<forall>i < length phs. \<exists>bs. vop_read ops fs v (phdr_offset eh i) phdr_size = (0, bs) \<and> length bs = phdr_size \<and> phdr_of bs = phs ! i)"

definition skipped :: "Elf_Phdr \<Rightarrow> bool" where
  "skipped ph \<longleftrightarrow> p_type ph \<in> {PT_NULL, PT_PHDR, PT_MIPS_REGINFO}"

definition loads :: "Elf_Phdr list \<Rightarrow> Elf_Phdr list" where
  "loads = filter (\<lambda>ph. p_type ph = PT_LOAD)"

definition known :: "Elf_Phdr list \<Rightarrow> bool" where
  "known phs \<longleftrightarrow> (\<forall>ph \<in> set phs. skipped ph \<or> p_type ph = PT_LOAD)"

definition ph_region :: "vnode \<Rightarrow> Elf_Phdr \<Rightarrow> segment" where
  "ph_region v ph = new_region (p_vaddr ph) (p_memsz ph) (uint (p_offset ph)) (Some v)
     (uint (p_flags ph AND PF_R)) (uint (p_flags ph AND PF_W)) (uint (p_flags ph AND PF_X))"

text \<open>The effect of the program headers on the address space.\<close>

fun define_regions :: "vnode \<Rightarrow> Elf_Phdr list \<Rightarrow> addrspace \<Rightarrow> int \<times> addrspace" where
  "define_regions v [] as = (0, as)"
| "define_regions v (ph # phs) as =
     (if skipped ph then define_regions v phs as
      else if p_type ph \<noteq> PT_LOAD then (ENOEXEC, as)
      else if seg1 as = None then define_regions v phs (as\<lparr>seg1 := Some (ph_region v ph)\<rparr>)
      else if seg2 as = None then define_regions v phs (as\<lparr>seg2 := Some (ph_region v ph)\<rparr>)
      else (ENOSYS, as))"

lemma load_loop_ok:
  assumes img: "elf_image ops (files s) v eh phs" and h: "held s = {}" and ok: "\<And>i. oks i = (True, True)"
  shows "(\<forall>i \<in> set js. i < length phs) \<Longrightarrow>
    load_loop ops oks s v eh js as = Inr (define_regions v (map ((!) phs) js) as)"
proof (induction js arbitrary: as)
  case (Cons i js)
  then obtain bs where "vop_read ops (files s) v (phdr_offset eh i) phdr_size = (0, bs)" "length bs = phdr_size" "phdr_of bs = phs ! i"
    using img unfolding elf_image_def by auto
  then show ?case using Cons h ok
    by (simp add: read_header_def as_define_region_ok ph_region_def [symmetric] skipped_def Let_def ENOSYS_def)
qed simp

lemma load_elf_ok:
  assumes img: "elf_image ops (files s) v eh phs" and h: "held s = {}" and ok: "\<And>i. oks i = (True, True)"
  shows "load_elf ops oks s v as ep = (case define_regions v phs as of (r, as') \<Rightarrow> Inr (r, if r = 0 then e_entry eh else ep, as'))"
proof -
  obtain bs where "vop_read ops (files s) v 0 ehdr_size = (0, bs)" "length bs = ehdr_size" "ehdr_of bs = eh"
    and n: "elf_check eh" "unat (e_phnum eh) = length phs"
    using img unfolding elf_image_def by auto
  moreover have "load_loop ops oks s v eh [0..<length phs] as = Inr (define_regions v phs as)"
    using load_loop_ok [OF assms, where js = "[0..<length phs]"] by (simp add: map_nth)
  ultimately show ?thesis
    using h by (simp add: load_elf_def read_header_def as_prepare_load_def split: prod.split)
qed

text \<open>Two regions fit, a third is refused.\<close>

lemma define_regions_full: "known phs \<Longrightarrow> seg1 as \<noteq> None \<Longrightarrow> seg2 as \<noteq> None \<Longrightarrow>
  define_regions v phs as = (if loads phs = [] then 0 else ENOSYS, as)"
  by (induction phs) (auto simp: known_def loads_def skipped_def PT_LOAD_def PT_NULL_def PT_PHDR_def PT_MIPS_REGINFO_def)

lemma define_regions_half: "known phs \<Longrightarrow> loads phs = b # rest \<Longrightarrow> seg1 as \<noteq> None \<Longrightarrow> seg2 as = None \<Longrightarrow>
  define_regions v phs as = (if rest = [] then 0 else ENOSYS, as\<lparr>seg2 := Some (ph_region v b)\<rparr>)"
  by (induction phs arbitrary: as)
    (auto simp: known_def loads_def skipped_def PT_LOAD_def PT_NULL_def PT_PHDR_def PT_MIPS_REGINFO_def
      define_regions_full [unfolded known_def loads_def skipped_def PT_LOAD_def PT_NULL_def PT_PHDR_def PT_MIPS_REGINFO_def] split: if_splits)

lemma define_regions_two: "known phs \<Longrightarrow> loads phs = a # b # rest \<Longrightarrow> seg1 as = None \<Longrightarrow> seg2 as = None \<Longrightarrow>
  define_regions v phs as = (if rest = [] then 0 else ENOSYS, as\<lparr>seg1 := Some (ph_region v a), seg2 := Some (ph_region v b)\<rparr>)"
  by (induction phs arbitrary: as)
    (auto simp: known_def loads_def skipped_def PT_LOAD_def PT_NULL_def PT_PHDR_def PT_MIPS_REGINFO_def
      define_regions_half [unfolded known_def loads_def skipped_def PT_LOAD_def PT_NULL_def PT_PHDR_def PT_MIPS_REGINFO_def] split: if_splits)

section \<open>The address space of a new program\<close>




definition stack_segment :: segment where
  "stack_segment = \<lparr>numpages = STACKPAGES, elfdata = None, loadedelf = Some (replicate 18 0), elfoffset = 0,
     startaddr = USERSTACK - STACKPAGES * word_of_nat PAGE_SIZE, stackseg = True, permissions = 6\<rparr>"

lemma as_define_stack_ok: "as_define_stack True True as = Inr (0, USERSTACK, as\<lparr>segstack := Some stack_segment\<rparr>)"
  by (simp add: as_define_stack_def segdef_def segcreate_def seg_flags_def stack_segment_def STACKPAGES_def RDFLAG_def WRFLAG_def)


definition loaded_as :: "vnode \<Rightarrow> Elf_Phdr \<Rightarrow> Elf_Phdr \<Rightarrow> addrspace" where
  "loaded_as v a b = \<lparr>seg1 = Some (ph_region v a), seg2 = Some (ph_region v b), segstack = Some stack_segment\<rparr>"


section \<open>Properties\<close>

text \<open>Taking a reference leaves the memory system alone.\<close>

lemma incref_frame:
  "cm_inv ops (vnode_incref v s) = cm_inv ops s" "page_contents ops (vnode_incref v s) = page_contents ops s"
  "exclusive ops K (vnode_incref v s) = exclusive ops K s" "files (vnode_incref v s) = files s" "held (vnode_incref v s) = held s"
  by (simp_all add: vnode_incref_def page_contents_def [abs_def] exclusive_def cm_inv_refs cong: option.case_cong)

lemma activate_frame: "files (as_activate as pid s) = files s" "held (as_activate as pid s) = held s"
    "vn_refcount (as_activate as pid s) = vn_refcount s"
  by (simp_all add: as_activate_def split: option.split prod.split)

lemma runprogram_load:
  assumes img: "elf_image ops (files s) v eh phs" "known phs" "loads phs = a # b # rest" and h: "held s = {}"
  shows "runprogram ops (Inr v) True (\<lambda>_. (True, True)) (True, True) pid None s =
    (let s' = as_activate (Some \<lparr>seg1 = None, seg2 = None, segstack = None\<rparr>) pid (vnode_incref v s) in
     if rest = [] then Inr (Entered (e_entry eh) USERSTACK, Some (loaded_as v a b), s')
     else Inr (Returned ENOSYS, Some ((loaded_as v a b)\<lparr>segstack := None\<rparr>), s'\<lparr>vn_refcount := vn_refcount s\<rparr>))"
proof -
  let ?e = "\<lparr>seg1 = None, seg2 = None, segstack = None\<rparr>"
  define s' where "s' = as_activate (Some ?e) pid (vnode_incref v s)"
  have f: "files s' = files s" "held s' = {}" "vn_refcount s' = (vn_refcount s)(v := vn_refcount s v + 1)"
    using h by (simp_all add: s'_def activate_frame incref_frame) (simp add: vnode_incref_def)
  have "load_elf ops (\<lambda>_. (True, True)) s' v ?e 0 = Inr (if rest = [] then 0 else ENOSYS, if rest = [] then e_entry eh else 0,
      \<lparr>seg1 = Some (ph_region v a), seg2 = Some (ph_region v b), segstack = None\<rparr>)"
    using load_elf_ok [of ops s' v eh phs "\<lambda>_. (True, True)" ?e 0] img f define_regions_two [OF img(2,3), of ?e v] by (simp add: ENOSYS_def)
  moreover have "vfs_close v s' = Inr (s'\<lparr>vn_refcount := vn_refcount s\<rparr>)"
    using f(3) by (auto simp: vfs_close_def vnode_decref_def fun_upd_idem)
  ultimately show ?thesis
    using as_define_stack_ok by (simp add: runprogram_def as_create_def s'_def [symmetric] Let_def loaded_as_def ENOSYS_def)
qed



definition sample_ph :: "nat \<Rightarrow> Elf_Phdr" where "sample_ph i = phdr_of (take 32 (drop (52 + 32 * i) sample_elf))"

lemma sample_ph_simps:
  "p_type (sample_ph 0) = 1" "p_vaddr (sample_ph 0) = 0x400000" "p_memsz (sample_ph 0) = 0x1000"
  "p_type (sample_ph (Suc 0)) = 1" "p_vaddr (sample_ph (Suc 0)) = 0x10000000" "p_memsz (sample_ph (Suc 0)) = 0x2000"
  by (simp_all add: sample_ph_def phdr_of_def be32_def sample_elf_def)





text \<open>C27. An executable with a third loadable segment is refused with \<open>ENOSYS\<close>, and the half-built
  address space stays with the process: its first region still names the file, whose reference
  has been given back, and it has no stack, so destroying it with the process faults.\<close>

theorem refused_program_breaks_destroy:
  assumes "elf_image ops (files s) v eh phs" "known phs" "loads phs = a # b # c # rest" "held s = {}"
  shows "\<exists>as s'. runprogram ops (Inr v) True (\<lambda>_. (True, True)) (True, True) pid None s = Inr (Returned ENOSYS, Some as, s') \<and>
    vn_refcount s' = vn_refcount s \<and> (\<exists>sg. seg1 as = Some sg \<and> elfdata sg = Some v) \<and>
    as_destroy as pid s' = Inl (if vn_refcount s v = 0 then Kassert else NullDeref)"
proof -
  let ?as = "(loaded_as v a b)\<lparr>segstack := None\<rparr>"
  let ?s = "(as_activate (Some \<lparr>seg1 = None, seg2 = None, segstack = None\<rparr>) pid (vnode_incref v s))\<lparr>vn_refcount := vn_refcount s\<rparr>"
  have "elfdata (ph_region v a) = Some v" by (simp add: ph_region_def new_region_def)
  then have "as_destroy ?as pid ?s = Inl (if vn_refcount s v = 0 then Kassert else NullDeref)"
    by (simp add: as_destroy_def loaded_as_def vfs_close_def vnode_decref_def segdes_def)
  then show ?thesis using runprogram_load [OF assms, of pid]
    by (intro exI [of _ ?as] exI [of _ ?s]) (simp add: loaded_as_def ph_region_def new_region_def Let_def)
qed

theorem refused_program_breaks_destroy_witness:
  "\<exists>as s'. runprogram mem_ops (Inr 3) True (\<lambda>_. (True, True)) (True, True) 5 None sample_machine = Inr (Returned ENOSYS, Some as, s') \<and>
     as_destroy as 5 s' = Inl Kassert"
proof -
  let ?f = "sample_elf[43 := 0, 45 := 3]" and ?phs = "[sample_ph 0, sample_ph 0, sample_ph 0]"
  define eh where "eh = ehdr_of (take 52 ?f)"
  have l: "length sample_elf = 116" by (simp add: sample_elf_def)
  have eh: "elf_check eh" "e_phnum eh = 3" "e_phoff eh = 52" "e_phentsize eh = 0"
    by (simp_all add: eh_def ehdr_of_def be16_def be32_def sample_elf_def elf_check_def ELFMAG0_def ELFMAG1_def ELFMAG2_def
      ELFMAG3_def ELFCLASS32_def ELFDATA2MSB_def EV_CURRENT_def ET_EXEC_def EM_MACHINE_def)
  have d: "take 32 (drop 52 ?f) = take 32 (drop 52 sample_elf)" by (simp add: drop_update_cancel)
  have ph: "\<exists>bs. vop_read mem_ops sample_files 3 (phdr_offset eh i) phdr_size = (0, bs) \<and> length bs = phdr_size \<and>
      phdr_of bs = ?phs ! i" if "i < 3" for i
  proof -
    have "i = 0 \<or> i = 1 \<or> i = 2" using that by auto
    then show ?thesis using d l
      by (auto simp: phdr_offset_def eh mem_ops_def mem_read_def sample_files_def sample_ph_def phdr_size_def)
  qed
  have "elf_image mem_ops (files sample_machine) 3 eh ?phs"
    using l ph by (auto simp: elf_image_def eh(1,2) mem_ops_def mem_read_def sample_files_def ehdr_size_def eh_def [symmetric] sample_simps)
  moreover have "known ?phs" "loads ?phs = [sample_ph 0, sample_ph 0, sample_ph 0]"
    by (simp_all add: known_def loads_def sample_ph_simps PT_LOAD_def)
  moreover have "vn_refcount sample_machine 3 = 0" by (simp add: sample_machine_def)
  ultimately show ?thesis
    using refused_program_breaks_destroy [where pid = 5, of mem_ops sample_machine 3 eh ?phs] sample_simps(7) by auto
qed

end
