(* ===== verification/Copyinout.thy ===== *)
theory Copyinout
  imports Sample
begin

text \<open>
  Copying between the kernel and user memory, \<^verbatim>\<open>kern/vm/copyinout.c\<close>. User memory is accessed through
  the TLB and \<^verbatim>\<open>vm_fault\<close> as in the user theory, but a fault that cannot be served resumes at
  \<^verbatim>\<open>copyfail\<close> and makes the function return \<open>EFAULT\<close>. \<^verbatim>\<open>memcpy\<close> is modelled byte by byte; copying aligned
  words at a time has the same effect on the bytes. The kernel buffer is a list of bytes.
\<close>

section \<open>Kernel-mode accesses\<close>

definition USERSPACETOP :: u32 where "USERSPACETOP = MIPS_KSEG0"

text \<open>A translation, a fatal fault, or the end of the process (a store to a read-only page).\<close>

datatype kacc = Mapped u32 | Bad | Exits int

definition ktouch :: "'f vnode_ops \<Rightarrow> pid_t \<Rightarrow> int \<Rightarrow> vaddr_t \<Rightarrow> addrspace \<Rightarrow> 'f machine \<Rightarrow> (kacc \<times> addrspace \<times> 'f machine) res" where
  "ktouch ops pid ft v as s =
     (case tlb_map (m_tlb s) (v AND PAGE_FRAME) of
        Some lo \<Rightarrow> Inr (Mapped lo, as, s)
      | None \<Rightarrow>
          bindR (vm_fault ops ft v (Some pid) (Some as) s) (\<lambda>(r, as1, s1).
          let as' = (case as1 of None \<Rightarrow> as | Some a \<Rightarrow> a) in
          case r of
            VmExit code \<Rightarrow> Inr (Exits code, as', s1)
          | VmReturn e \<Rightarrow>
              if e \<noteq> 0 then Inr (Bad, as', s1)
              else case tlb_map (m_tlb s1) (v AND PAGE_FRAME) of
                Some lo \<Rightarrow> Inr (Mapped lo, as', s1) | None \<Rightarrow> Inl Diverges))"

definition kload :: "'f vnode_ops \<Rightarrow> pid_t \<Rightarrow> vaddr_t \<Rightarrow> addrspace \<Rightarrow> 'f machine \<Rightarrow> ((kacc + byte) \<times> addrspace \<times> 'f machine) res" where
  "kload ops pid v as s =
     bindR (ktouch ops pid VM_FAULT_READ v as s) (\<lambda>(a, as, s).
     Inr (case a of Mapped lo \<Rightarrow> Inr (ram s (unat (lo AND TLBLO_PPAGE) + offset_of v)) | _ \<Rightarrow> Inl a, as, s))"

text \<open>A store through an entry without the dirty bit traps into \<^verbatim>\<open>vm_fault\<close> with \<^verbatim>\<open>VM_FAULT_READONLY\<close>.\<close>

definition kstore :: "'f vnode_ops \<Rightarrow> pid_t \<Rightarrow> vaddr_t \<Rightarrow> byte \<Rightarrow> addrspace \<Rightarrow> 'f machine \<Rightarrow> ((kacc + unit) \<times> addrspace \<times> 'f machine) res" where
  "kstore ops pid v b as s =
     bindR (ktouch ops pid VM_FAULT_WRITE v as s) (\<lambda>(a, as, s).
     case a of
       Mapped lo \<Rightarrow>
         if lo AND TLBLO_DIRTY = 0
         then bindR (vm_fault ops VM_FAULT_READONLY v (Some pid) (Some as) s) (\<lambda>(r, _, s).
              Inr (Inl (case r of VmExit code \<Rightarrow> Exits code | VmReturn _ \<Rightarrow> Bad), as, s))
         else Inr (Inr (), as, s\<lparr>ram := write_ram (ram s) (unat (lo AND TLBLO_PPAGE) + offset_of v) [b]\<rparr>)
     | _ \<Rightarrow> Inr (Inl a, as, s))"

section \<open>Checking and copying blocks\<close>

definition copycheck :: "u32 \<Rightarrow> u32 \<Rightarrow> int \<times> u32" where
  "copycheck userptr len =
     (let bot = userptr; top = bot + len - 1 in
      if top < bot then (EFAULT, len)
      else if bot \<ge> USERSPACETOP then (EFAULT, len)
      else if top \<ge> USERSPACETOP then (0, USERSPACETOP - bot)
      else (0, len))"

text \<open>What a copy returns: an error number, or the process has gone. The first list is what reached the kernel buffer.\<close>

datatype copy_result = Ret int | Gone int

definition fault_result :: "kacc \<Rightarrow> copy_result" where
  "fault_result a = (case a of Exits code \<Rightarrow> Gone code | _ \<Rightarrow> Ret EFAULT)"

fun memcpy_in :: "'f vnode_ops \<Rightarrow> pid_t \<Rightarrow> vaddr_t \<Rightarrow> nat \<Rightarrow> addrspace \<Rightarrow> 'f machine \<Rightarrow> (copy_result \<times> byte list \<times> addrspace \<times> 'f machine) res" where
  "memcpy_in ops pid v 0 as s = Inr (Ret 0, [], as, s)"
| "memcpy_in ops pid v (Suc n) as s =
     bindR (kload ops pid v as s) (\<lambda>(b0, as, s).
     case b0 of Inl a \<Rightarrow> Inr (fault_result a, [], as, s)
     | Inr b \<Rightarrow> bindR (memcpy_in ops pid (v + 1) n as s) (\<lambda>(r, bs, as, s). Inr (r, b # bs, as, s)))"

fun memcpy_out :: "'f vnode_ops \<Rightarrow> pid_t \<Rightarrow> vaddr_t \<Rightarrow> byte list \<Rightarrow> addrspace \<Rightarrow> 'f machine \<Rightarrow> (copy_result \<times> addrspace \<times> 'f machine) res" where
  "memcpy_out ops pid v [] as s = Inr (Ret 0, as, s)"
| "memcpy_out ops pid v (b # bs) as s =
     bindR (kstore ops pid v b as s) (\<lambda>(r, as, s).
     case r of Inl a \<Rightarrow> Inr (fault_result a, as, s) | Inr _ \<Rightarrow> memcpy_out ops pid (v + 1) bs as s)"

definition copyin :: "'f vnode_ops \<Rightarrow> pid_t \<Rightarrow> u32 \<Rightarrow> u32 \<Rightarrow> addrspace \<Rightarrow> 'f machine \<Rightarrow> (copy_result \<times> byte list \<times> addrspace \<times> 'f machine) res" where
  "copyin ops pid usersrc len as s =
     (let (result, stoplen) = copycheck usersrc len in
      if result \<noteq> 0 then Inr (Ret result, [], as, s)
      else if stoplen \<noteq> len then Inr (Ret EFAULT, [], as, s)
      else memcpy_in ops pid usersrc (unat len) as s)"

definition copyout :: "'f vnode_ops \<Rightarrow> pid_t \<Rightarrow> byte list \<Rightarrow> u32 \<Rightarrow> addrspace \<Rightarrow> 'f machine \<Rightarrow> (copy_result \<times> addrspace \<times> 'f machine) res" where
  "copyout ops pid src userdest as s =
     (let len = word_of_nat (length src); (result, stoplen) = copycheck userdest len in
      if result \<noteq> 0 then Inr (Ret result, as, s)
      else if stoplen \<noteq> len then Inr (Ret EFAULT, as, s)
      else memcpy_out ops pid userdest src as s)"

section \<open>Copying strings\<close>

text \<open>
  The loop of \<^verbatim>\<open>copystr\<close> with the string in user memory or the destination there; \<open>n\<close> is the number of
  rounds left, the smaller of \<open>maxlen\<close> and \<open>stoplen\<close>.
\<close>

definition copystr_end :: "u32 \<Rightarrow> u32 \<Rightarrow> int" where
  "copystr_end maxlen stoplen = (if stoplen < maxlen then EFAULT else ENAMETOOLONG)"

fun copystr_in :: "'f vnode_ops \<Rightarrow> pid_t \<Rightarrow> vaddr_t \<Rightarrow> nat \<Rightarrow> int \<Rightarrow> addrspace \<Rightarrow> 'f machine \<Rightarrow> (copy_result \<times> byte list \<times> addrspace \<times> 'f machine) res" where
  "copystr_in ops pid v 0 e as s = Inr (Ret e, [], as, s)"
| "copystr_in ops pid v (Suc n) e as s =
     bindR (kload ops pid v as s) (\<lambda>(b0, as, s).
     case b0 of Inl a \<Rightarrow> Inr (fault_result a, [], as, s)
     | Inr b \<Rightarrow> if b = 0 then Inr (Ret 0, [0], as, s)
               else bindR (copystr_in ops pid (v + 1) n e as s) (\<lambda>(r, bs, as, s). Inr (r, b # bs, as, s)))"

fun copystr_out :: "'f vnode_ops \<Rightarrow> pid_t \<Rightarrow> (nat \<Rightarrow> byte) \<Rightarrow> nat \<Rightarrow> vaddr_t \<Rightarrow> nat \<Rightarrow> int \<Rightarrow> addrspace \<Rightarrow> 'f machine \<Rightarrow> (copy_result \<times> nat \<times> addrspace \<times> 'f machine) res" where
  "copystr_out ops pid src i v 0 e as s = Inr (Ret e, i, as, s)"
| "copystr_out ops pid src i v (Suc n) e as s =
     bindR (kstore ops pid v (src i) as s) (\<lambda>(r, as, s).
     case r of Inl a \<Rightarrow> Inr (fault_result a, i, as, s)
     | Inr _ \<Rightarrow> if src i = 0 then Inr (Ret 0, i + 1, as, s) else copystr_out ops pid src (i + 1) (v + 1) n e as s)"

definition copyinstr :: "'f vnode_ops \<Rightarrow> pid_t \<Rightarrow> u32 \<Rightarrow> u32 \<Rightarrow> addrspace \<Rightarrow> 'f machine \<Rightarrow> (copy_result \<times> byte list \<times> addrspace \<times> 'f machine) res" where
  "copyinstr ops pid usersrc len as s =
     (let (result, stoplen) = copycheck usersrc len in
      if result \<noteq> 0 then Inr (Ret result, [], as, s)
      else copystr_in ops pid usersrc (min (unat len) (unat stoplen)) (copystr_end len stoplen) as s)"

definition copyoutstr :: "'f vnode_ops \<Rightarrow> pid_t \<Rightarrow> (nat \<Rightarrow> byte) \<Rightarrow> u32 \<Rightarrow> u32 \<Rightarrow> addrspace \<Rightarrow> 'f machine \<Rightarrow> (copy_result \<times> nat \<times> addrspace \<times> 'f machine) res" where
  "copyoutstr ops pid src userdest len as s =
     (let (result, stoplen) = copycheck userdest len in
      if result \<noteq> 0 then Inr (Ret result, 0, as, s)
      else copystr_out ops pid src 0 userdest (min (unat len) (unat stoplen)) (copystr_end len stoplen) as s)"

section \<open>Copies that need no page fault\<close>

lemma copycheck_iff: "copycheck v n = (0, n) \<longleftrightarrow> n \<noteq> 0 \<and> unat v + unat n \<le> 2 ^ 31"
    and copycheck_error: "\<not> (n \<noteq> 0 \<and> unat v + unat n \<le> 2 ^ 31) \<Longrightarrow> fst (copycheck v n) = EFAULT \<or> snd (copycheck v n) \<noteq> n"
proof -
  have t: "unat USERSPACETOP = 2 ^ 31" by (simp add: USERSPACETOP_def MIPS_KSEG0_def)
  have e: "EFAULT \<noteq> 0" by (simp add: EFAULT_def)
  have bound: "unat v < 2 ^ 32" "unat n < 2 ^ 32"
    using unsigned_less [of v, where ?'a = nat] unsigned_less [of n, where ?'a = nat] by simp_all
  show iff: "copycheck v n = (0, n) \<longleftrightarrow> n \<noteq> 0 \<and> unat v + unat n \<le> 2 ^ 31"
  proof (cases "n = 0")
    case True
    have "v - 1 < v \<or> USERSPACETOP \<le> v - 1" by (cases "v = 0") (simp_all add: USERSPACETOP_def MIPS_KSEG0_def word_less_nat_alt unat_minus_one unat_gt_0)
    then show ?thesis using True e by (auto simp: copycheck_def Let_def USERSPACETOP_def MIPS_KSEG0_def)
  next
    case False
    then have n: "0 < unat n" by (simp add: unat_gt_0)
    have top: "unat (v + n - 1) = (unat v + unat n - 1) mod 2 ^ 32"
    proof -
      have "unat (v + n - 1) = unat (v + (n - 1))" by (simp add: algebra_simps)
      also have "\<dots> = (unat v + (unat n - 1)) mod 2 ^ 32" using False by (simp add: unat_word_ariths(1) unat_minus_one)
      finally show ?thesis using n by simp
    qed
    show ?thesis
    proof (cases "unat v + unat n \<le> 2 ^ 32")
      case True
      then have u: "unat (v + n - 1) = unat v + unat n - 1" using top n by simp
      have "\<not> v + n - 1 < v" "v \<ge> USERSPACETOP \<longleftrightarrow> unat v \<ge> 2 ^ 31" "v + n - 1 \<ge> USERSPACETOP \<longleftrightarrow> unat v + unat n > 2 ^ 31"
        using u n t by (auto simp: word_less_nat_alt word_le_nat_alt)
      moreover have "USERSPACETOP - v = n \<Longrightarrow> unat v < 2 ^ 31 \<Longrightarrow> unat v + unat n \<le> 2 ^ 31"
        using t by (auto simp: unat_sub word_le_nat_alt)
      ultimately show ?thesis using False e n by (auto simp: copycheck_def Let_def)
    next
      case False
      then have "(unat v + unat n - 1) mod 2 ^ 32 = unat v + unat n - 1 - 2 ^ 32"
        using bound by (subst mod_if) (simp add: le_mod_geq)
      then have "v + n - 1 < v" using top False bound n by (simp add: word_less_nat_alt)
      then show ?thesis using False e by (simp add: copycheck_def Let_def)
    qed
  qed
  show "fst (copycheck v n) = EFAULT \<or> snd (copycheck v n) \<noteq> n" if "\<not> (n \<noteq> 0 \<and> unat v + unat n \<le> 2 ^ 31)"
  proof -
    have "copycheck v n \<noteq> (0, n)" using iff that by blast
    then show ?thesis by (auto simp: copycheck_def Let_def split: if_splits)
  qed
qed

text \<open>The byte a process has at an address.\<close>

definition user_byte :: "'f vnode_ops \<Rightarrow> pid_t \<Rightarrow> 'f machine \<Rightarrow> vaddr_t \<Rightarrow> byte" where
  "user_byte ops pid s v = the (page_contents ops s (pid, v AND PAGE_FRAME)) ! offset_of v"

definition writable_at :: "'f machine \<Rightarrow> vaddr_t \<Rightarrow> bool" where
  "writable_at s v \<longleftrightarrow> (\<exists>lo. tlb_map (m_tlb s) (v AND PAGE_FRAME) = Some lo \<and> lo AND TLBLO_DIRTY \<noteq> 0)"

lemma ktouch_hit: "tlb_map (m_tlb s) (v AND PAGE_FRAME) = Some lo \<Longrightarrow> ktouch ops pid ft v as s = Inr (Mapped lo, as, s)"
    "tlb_map (m_tlb s) (v AND PAGE_FRAME) = Some lo \<Longrightarrow> touch ops pid ft v as s = Some (lo, as, s)"
  by (simp_all add: ktouch_def touch_def)

lemma kload_hit:
  assumes ops: "vnode_ops_ok ops" "disk_ok ops" and vi: "vm_inv ops pid as s" and w: "writable_at s v"
  shows "kload ops pid v as s = Inr (Inr (user_byte ops pid s v), as, s)"
proof -
  obtain lo where lo: "tlb_map (m_tlb s) (v AND PAGE_FRAME) = Some lo" using w by (auto simp: writable_at_def)
  let ?b = "ram s (unat (lo AND TLBLO_PPAGE) + offset_of v)"
  have ct: "can_touch ops v as s" using lo by (simp add: can_touch_def)
  have "user_load ops pid v as s = Some (?b, as, s)" using ktouch_hit(2) [OF lo] by (simp add: user_load_def)
  from user_load_ok [OF ops vi ct this] obtain c where "?b = c ! offset_of v"
    "page_contents ops s = (page_contents ops s)((pid, v AND PAGE_FRAME) \<mapsto> c)" by auto
  then have "?b = user_byte ops pid s v" unfolding user_byte_def by (metis fun_upd_same option.sel)
  then show ?thesis using ktouch_hit(1) [OF lo] by (simp add: kload_def)
qed

lemma kstore_hit:
  assumes ops: "vnode_ops_ok ops" "disk_ok ops" and vi: "vm_inv ops pid as s" and w: "writable_at s v"
  shows "\<exists>s'. kstore ops pid v b as s = Inr (Inr (), as, s') \<and> vm_inv ops pid as s' \<and> m_tlb s' = m_tlb s \<and>
    (\<forall>v'. page_contents ops s (pid, v' AND PAGE_FRAME) \<noteq> None \<longrightarrow> user_byte ops pid s' v' = (if v' = v then b else user_byte ops pid s v')) \<and>
    (\<forall>k. page_contents ops s k \<noteq> None \<longrightarrow> page_contents ops s' k \<noteq> None)"
proof -
  let ?K = "(pid, v AND PAGE_FRAME)"
  obtain lo where lo: "tlb_map (m_tlb s) (v AND PAGE_FRAME) = Some lo" "lo AND TLBLO_DIRTY \<noteq> 0" using w by (auto simp: writable_at_def)
  let ?s = "s\<lparr>ram := write_ram (ram s) (unat (lo AND TLBLO_PPAGE) + offset_of v) [b]\<rparr>"
  have ct: "can_touch ops v as s" using lo by (simp add: can_touch_def)
  have "user_store ops pid v b as s = Some (as, ?s)" using ktouch_hit(2) [OF lo(1)] lo(2) by (simp add: user_store_def)
  from user_store_ok [OF ops vi ct this] obtain c where c: "vm_inv ops pid as ?s" "length c = PAGE_SIZE"
    "page_contents ops s ?K = None \<or> page_contents ops s ?K = Some c"
    "page_contents ops ?s = (page_contents ops s)(?K \<mapsto> c[offset_of v := b])" by auto
  have "user_byte ops pid ?s v' = (if v' = v then b else user_byte ops pid s v')"
    if "page_contents ops s (pid, v' AND PAGE_FRAME) \<noteq> None" for v'
  proof (cases "v' AND PAGE_FRAME = v AND PAGE_FRAME")
    case True
    then have "v' = v \<longleftrightarrow> offset_of v' = offset_of v" using same_page_offset [of v' v] by auto
    then show ?thesis using True that c(2-4) offset_less [of v] by (auto simp: user_byte_def nth_list_update)
  next
    case False
    then show ?thesis using c(4) by (auto simp: user_byte_def)
  qed
  moreover have "kstore ops pid v b as s = Inr (Inr (), as, ?s)" using ktouch_hit(1) [OF lo(1)] lo(2) by (simp add: kstore_def)
  ultimately show ?thesis using c(1,4) by (intro exI [of _ ?s]) auto
qed

lemma writable_present:
  assumes vi: "vm_inv ops pid as s" and w: "writable_at s v"
  shows "page_contents ops s (pid, v AND PAGE_FRAME) \<noteq> None"
proof -
  note V = vm_invD [OF vi]
  obtain lo where lo: "tlb_map (m_tlb s) (v AND PAGE_FRAME) = Some lo" using w by (auto simp: writable_at_def)
  then have "lastpid (m_tlb s) = pid" using V(6) by auto
  then obtain f where "resident (m_pt s) (pid, v AND PAGE_FRAME) = Some f"
    using cm_invD(6) [OF V(1)] lo unfolding tlb_coherent_def by blast
  then show ?thesis by (simp add: page_contents_def)
qed

lemma memcpy_in_ok:
  assumes ops: "vnode_ops_ok ops" "disk_ok ops" and vi: "vm_inv ops pid as s"
  shows "\<forall>i < n. writable_at s (v + of_nat i) \<Longrightarrow>
    memcpy_in ops pid v n as s = Inr (Ret 0, map (\<lambda>i. user_byte ops pid s (v + of_nat i)) [0..<n], as, s)"
proof (induction n arbitrary: v)
  case (Suc n)
  have w: "writable_at s v" using Suc.prems [rule_format, of 0] by simp
  have w': "\<forall>i < n. writable_at s (v + 1 + of_nat i)"
    using Suc.prems by (auto simp: add.assoc dest: spec [of _ "Suc _"])
  have "map (\<lambda>i. user_byte ops pid s (v + of_nat i)) [0..<Suc n] =
      user_byte ops pid s v # map (\<lambda>i. user_byte ops pid s (v + 1 + of_nat i)) [0..<n]"
    by (simp add: map_upt_Suc add.assoc del: upt_Suc)
  then show ?case using Suc.IH [OF w'] kload_hit [OF ops vi w] by (simp del: upt_Suc)
qed simp

lemma memcpy_out_ok:
  assumes ops: "vnode_ops_ok ops" "disk_ok ops"
  shows "vm_inv ops pid as s \<Longrightarrow> \<forall>i < length bs. writable_at s (v + of_nat i) \<Longrightarrow> length bs < 2 ^ 32 \<Longrightarrow>
    \<exists>s'. memcpy_out ops pid v bs as s = Inr (Ret 0, as, s') \<and> vm_inv ops pid as s' \<and> m_tlb s' = m_tlb s \<and>
      (\<forall>i < length bs. user_byte ops pid s' (v + of_nat i) = bs ! i) \<and>
      (\<forall>v'. page_contents ops s (pid, v' AND PAGE_FRAME) \<noteq> None \<longrightarrow> (\<forall>i < length bs. v' \<noteq> v + of_nat i) \<longrightarrow>
         user_byte ops pid s' v' = user_byte ops pid s v')"
proof (induction bs arbitrary: s v)
  case (Cons b bs)
  have w: "writable_at s v" using Cons.prems(2) [rule_format, of 0] by simp
  obtain s1 where s1: "kstore ops pid v b as s = Inr (Inr (), as, s1)" "vm_inv ops pid as s1" "m_tlb s1 = m_tlb s"
    "\<And>v'. page_contents ops s (pid, v' AND PAGE_FRAME) \<noteq> None \<Longrightarrow> user_byte ops pid s1 v' = (if v' = v then b else user_byte ops pid s v')"
    "\<And>k. page_contents ops s k \<noteq> None \<Longrightarrow> page_contents ops s1 k \<noteq> None"
    using kstore_hit [OF ops Cons.prems(1) w] by blast
  have w': "\<forall>i < length bs. writable_at s1 (v + 1 + of_nat i)"
    using Cons.prems(2) s1(3) by (auto simp: add.assoc writable_at_def dest: spec [of _ "Suc _"])
  have l: "length bs < 2 ^ 32" using Cons.prems(3) by simp
  obtain s2 where s2: "memcpy_out ops pid (v + 1) bs as s1 = Inr (Ret 0, as, s2)" "vm_inv ops pid as s2" "m_tlb s2 = m_tlb s1"
    "\<And>i. i < length bs \<Longrightarrow> user_byte ops pid s2 (v + 1 + of_nat i) = bs ! i"
    "\<And>v'. page_contents ops s1 (pid, v' AND PAGE_FRAME) \<noteq> None \<Longrightarrow> \<forall>i < length bs. v' \<noteq> v + 1 + of_nat i \<Longrightarrow>
         user_byte ops pid s2 v' = user_byte ops pid s1 v'"
    using Cons.IH [OF s1(2) w' l] by blast
  have ne: "\<forall>i < length bs. v \<noteq> v + 1 + of_nat i"
  proof (intro allI impI notI)
    fix i assume i: "i < length bs" and "v = v + 1 + of_nat i"
    then have "(of_nat (Suc i) :: u32) = 0" by (simp add: add.assoc)
    moreover have "unat (of_nat (Suc i) :: u32) = Suc i" using i Cons.prems(3) by (simp add: unat_of_nat take_bit_nat_eq_self del: of_nat_Suc)
    ultimately show False by simp
  qed
  note pv = writable_present [OF Cons.prems(1) w]
  have hd: "user_byte ops pid s2 v = b" using s2(5) [OF s1(5) [OF pv] ne] s1(4) [OF pv] by simp
  have "user_byte ops pid s2 (v + of_nat i) = (b # bs) ! i" if "i < length (b # bs)" for i
    using that hd s2(4) by (cases i) (simp_all add: add.assoc)
  moreover have "user_byte ops pid s2 v' = user_byte ops pid s v'"
    if p: "page_contents ops s (pid, v' AND PAGE_FRAME) \<noteq> None" and o: "\<forall>i < length (b # bs). v' \<noteq> v + of_nat i" for v'
  proof -
    have "v' \<noteq> v" "\<forall>i < length bs. v' \<noteq> v + 1 + of_nat i"
      using o [rule_format, of 0] o by (auto simp: add.assoc dest: spec [of _ "Suc _"])
    then show ?thesis using s2(5) [OF s1(5) [OF p]] s1(4) [OF p] by simp
  qed
  ultimately show ?case using s1(1,3) s2(1-3) by auto
qed simp

lemma copystr_in_ok:
  assumes ops: "vnode_ops_ok ops" "disk_ok ops" and vi: "vm_inv ops pid as s"
  shows "\<forall>i < n. writable_at s (v + of_nat i) \<Longrightarrow> copystr_in ops pid v n e as s =
    (let bs = map (\<lambda>i. user_byte ops pid s (v + of_nat i)) [0..<n] in
     if 0 \<in> set bs then Inr (Ret 0, takeWhile (\<lambda>b. b \<noteq> 0) bs @ [0], as, s) else Inr (Ret e, bs, as, s))"
proof (induction n arbitrary: v)
  case (Suc n)
  have w: "writable_at s v" using Suc.prems [rule_format, of 0] by simp
  have w': "\<forall>i < n. writable_at s (v + 1 + of_nat i)"
    using Suc.prems by (auto simp: add.assoc dest: spec [of _ "Suc _"])
  have "map (\<lambda>i. user_byte ops pid s (v + of_nat i)) [0..<Suc n] =
      user_byte ops pid s v # map (\<lambda>i. user_byte ops pid s (v + 1 + of_nat i)) [0..<n]"
    by (simp add: map_upt_Suc add.assoc del: upt_Suc)
  then show ?case using Suc.IH [OF w'] kload_hit [OF ops vi w] by (simp add: Let_def del: upt_Suc)
qed simp

section \<open>Properties\<close>

text \<open>C31. Copying between the kernel and user memory that is mapped and writable: what \<^verbatim>\<open>copyout\<close> stores
  \<^verbatim>\<open>copyin\<close> reads back, no other byte of the process changes, and \<^verbatim>\<open>copyinstr\<close> returns the string up to and
  including its terminator, or \<open>ENAMETOOLONG\<close> if there is none within the length. A block that reaches
  into the kernel half of the address space, and also any empty block, is refused with \<open>EFAULT\<close> before
  memory is touched.\<close>

theorem copy_user_memory:
  assumes "vnode_ops_ok ops" "disk_ok ops" "vm_inv ops pid as s" "bs \<noteq> []" "unat v + length bs \<le> 2 ^ 31"
    and "\<forall>i < length bs. writable_at s (v + of_nat i)"
  shows "(\<exists>s'. copyout ops pid bs v as s = Inr (Ret 0, as, s') \<and> vm_inv ops pid as s' \<and>
      copyin ops pid v (of_nat (length bs)) as s' = Inr (Ret 0, bs, as, s') \<and>
      copyinstr ops pid v (of_nat (length bs)) as s' =
        (if 0 \<in> set bs then Inr (Ret 0, takeWhile (\<lambda>b. b \<noteq> 0) bs @ [0], as, s') else Inr (Ret ENAMETOOLONG, bs, as, s')) \<and>
      (\<forall>v'. page_contents ops s (pid, v' AND PAGE_FRAME) \<noteq> None \<longrightarrow> (\<forall>i < length bs. v' \<noteq> v + of_nat i) \<longrightarrow>
         user_byte ops pid s' v' = user_byte ops pid s v')) \<and>
    (\<forall>u n. n = 0 \<or> 2 ^ 31 < unat u + unat n \<longrightarrow> copyin ops pid u n as s = Inr (Ret EFAULT, [], as, s)) \<and>
    (\<forall>u cs. length cs < 2 ^ 32 \<longrightarrow> cs = [] \<or> 2 ^ 31 < unat u + length cs \<longrightarrow> copyout ops pid cs u as s = Inr (Ret EFAULT, as, s))"
proof (intro conjI allI impI)
  let ?n = "of_nat (length bs) :: u32"
  have l: "unat ?n = length bs" using assms(5) by (simp add: unat_of_nat take_bit_nat_eq_self)
  have cc: "copycheck v ?n = (0, ?n)" unfolding copycheck_iff using l assms(4,5) by (metis length_0_conv unat_0)
  obtain s' where s': "memcpy_out ops pid v bs as s = Inr (Ret 0, as, s')" "vm_inv ops pid as s'" "m_tlb s' = m_tlb s"
    "\<forall>i < length bs. user_byte ops pid s' (v + of_nat i) = bs ! i"
    "\<forall>v'. page_contents ops s (pid, v' AND PAGE_FRAME) \<noteq> None \<longrightarrow> (\<forall>i < length bs. v' \<noteq> v + of_nat i) \<longrightarrow>
         user_byte ops pid s' v' = user_byte ops pid s v'"
    using memcpy_out_ok [OF assms(1-3,6)] assms(5) by auto
  have m: "map (\<lambda>i. user_byte ops pid s' (v + of_nat i)) [0..<length bs] = bs" using s'(4) by (auto intro: nth_equalityI)
  have w: "\<forall>i < length bs. writable_at s' (v + of_nat i)" using assms(6) s'(3) by (simp add: writable_at_def)
  have "copyout ops pid bs v as s = Inr (Ret 0, as, s')" using cc s'(1) by (simp add: copyout_def)
  moreover have "copyin ops pid v ?n as s' = Inr (Ret 0, bs, as, s')"
    using cc l m memcpy_in_ok [OF assms(1,2) s'(2) w] by (simp add: copyin_def)
  moreover have "copyinstr ops pid v ?n as s' =
      (if 0 \<in> set bs then Inr (Ret 0, takeWhile (\<lambda>b. b \<noteq> 0) bs @ [0], as, s') else Inr (Ret ENAMETOOLONG, bs, as, s'))"
    using cc l m copystr_in_ok [OF assms(1,2) s'(2) w, of ENAMETOOLONG] by (simp add: copyinstr_def copystr_end_def Let_def)
  ultimately show "\<exists>s'. copyout ops pid bs v as s = Inr (Ret 0, as, s') \<and> vm_inv ops pid as s' \<and>
      copyin ops pid v ?n as s' = Inr (Ret 0, bs, as, s') \<and>
      copyinstr ops pid v ?n as s' =
        (if 0 \<in> set bs then Inr (Ret 0, takeWhile (\<lambda>b. b \<noteq> 0) bs @ [0], as, s') else Inr (Ret ENAMETOOLONG, bs, as, s')) \<and>
      (\<forall>v'. page_contents ops s (pid, v' AND PAGE_FRAME) \<noteq> None \<longrightarrow> (\<forall>i < length bs. v' \<noteq> v + of_nat i) \<longrightarrow>
         user_byte ops pid s' v' = user_byte ops pid s v')"
    using s'(2,5) by blast
next
  fix u n :: u32 assume "n = 0 \<or> 2 ^ 31 < unat u + unat n"
  then have "fst (copycheck u n) = EFAULT \<or> snd (copycheck u n) \<noteq> n" by (intro copycheck_error) auto
  moreover have "fst (copycheck u n) = 0 \<or> fst (copycheck u n) = EFAULT" by (simp add: copycheck_def Let_def)
  ultimately show "copyin ops pid u n as s = Inr (Ret EFAULT, [], as, s)" by (auto simp: copyin_def EFAULT_def split: prod.split)
next
  fix u :: u32 and cs :: "byte list" assume a: "length cs < 2 ^ 32" "cs = [] \<or> 2 ^ 31 < unat u + length cs"
  let ?n = "of_nat (length cs) :: u32"
  have "unat ?n = length cs" using a(1) by (simp add: unat_of_nat take_bit_nat_eq_self)
  then have "fst (copycheck u ?n) = EFAULT \<or> snd (copycheck u ?n) \<noteq> ?n" using a(2) by (intro copycheck_error) auto
  moreover have "fst (copycheck u ?n) = 0 \<or> fst (copycheck u ?n) = EFAULT" by (simp add: copycheck_def Let_def)
  ultimately show "copyout ops pid cs u as s = Inr (Ret EFAULT, as, s)" by (auto simp: copyout_def EFAULT_def Let_def split: prod.split)
qed

text \<open>The top page of the stack after it was touched.\<close>

lemma sample_writable: "\<exists>as s. vm_inv mem_ops 5 as s \<and> (\<forall>v. v AND PAGE_FRAME = 0x7ffff000 \<longrightarrow> writable_at s v)"
proof -
  let ?as = "sample_as [0, 0]" and ?v = "0x7ffffffc :: vaddr_t"
  have w: "seg_writable (the (getseg ?as Segstack))" by (simp add: sample_as_def sample_seg_def seg_writable_def WRFLAG_def)
  have t: "tlb_map (m_tlb sample_machine) (?v AND PAGE_FRAME) = None" using sample_tlb_ok(2) by (simp add: sample_simps)
  have e: "elf_ok mem_ops ?as (the (getseg ?as Segstack)) (?v AND PAGE_FRAME) sample_machine" by (rule sample_elf_ok(3))
  obtain as1 s1 where st: "user_store mem_ops 5 ?v 9 ?as sample_machine = Some (as1, s1)"
    using user_store_happens [OF mem_ops_ok disk_ok_mem sample_vm_inv(1) sample_available(3) t sample_seg_of(2) e w] by blast
  have c: "can_touch mem_ops ?v ?as sample_machine"
    using sample_available(3) sample_seg_of(2) e by (simp add: can_touch_def)
  have vi: "vm_inv mem_ops 5 as1 s1" using user_store_ok [OF mem_ops_ok disk_ok_mem sample_vm_inv(1) c st] by simp
  obtain lo s0 where "touch mem_ops 5 VM_FAULT_WRITE ?v ?as sample_machine = Some (lo, as1, s0)" "lo AND TLBLO_DIRTY \<noteq> 0" "m_tlb s1 = m_tlb s0"
    using st by (auto simp: user_store_def split: option.splits if_splits)
  then have "writable_at s1 ?v" using touch_hit by (fastforce simp: writable_at_def)
  moreover have "?v AND PAGE_FRAME = 0x7ffff000" by (simp add: PAGE_FRAME_def)
  ultimately have "\<forall>v. v AND PAGE_FRAME = 0x7ffff000 \<longrightarrow> writable_at s1 v" by (simp add: writable_at_def)
  then show ?thesis using vi by blast
qed

theorem copy_user_memory_witness:
  "\<exists>as s s'. copyout mem_ops 5 [1, 2, 0] 0x7fffff00 as s = Inr (Ret 0, as, s') \<and>
     copyin mem_ops 5 0x7fffff00 3 as s' = Inr (Ret 0, [1, 2, 0], as, s') \<and> copyin mem_ops 5 0x7fffff00 0 as s = Inr (Ret EFAULT, [], as, s)"
proof -
  obtain as s where s: "vm_inv mem_ops 5 as s" "\<And>v. v AND PAGE_FRAME = 0x7ffff000 \<Longrightarrow> writable_at s v" using sample_writable by blast
  have "writable_at s (0x7fffff00 + of_nat i)" if "i < 3" for i
  proof -
    have "i = 0 \<or> i = 1 \<or> i = 2" using that by auto
    then have "(0x7fffff00 + of_nat i :: vaddr_t) AND PAGE_FRAME = 0x7ffff000" by (auto simp: PAGE_FRAME_def)
    then show ?thesis by (rule s(2))
  qed
  then have w: "\<forall>i < length [1, 2, 0 :: byte]. writable_at s (0x7fffff00 + of_nat i)" by simp
  note c = copy_user_memory [OF mem_ops_ok disk_ok_mem s(1) _ _ w]
  have z: "copyin mem_ops 5 0x7fffff00 0 as s = Inr (Ret EFAULT, [], as, s)" using c by simp
  obtain s' where "copyout mem_ops 5 [1, 2, 0] 0x7fffff00 as s = Inr (Ret 0, as, s')"
    "copyin mem_ops 5 0x7fffff00 3 as s' = Inr (Ret 0, [1, 2, 0], as, s')" using c by auto
  then show ?thesis using z by blast
qed

end
