(* ===== verification/Uio.thy ===== *)
theory Uio
  imports Copyinout
begin

text \<open>
  Data transfer descriptors, \<^verbatim>\<open>kern/lib/uio.c\<close>. A descriptor has a list of buffers, in kernel or in
  user memory. Kernel memory is a function from addresses to bytes; user buffers are reached with
  \<^verbatim>\<open>copyin\<close> and \<^verbatim>\<open>copyout\<close>.
\<close>

section \<open>Descriptors\<close>

datatype uio_rw = UIO_READ | UIO_WRITE
datatype uio_seg = UIO_USERISPACE | UIO_USERSPACE | UIO_SYSSPACE

record iovec =
  iov_base :: u32
  iov_len :: u32

record uio =
  uio_iov :: "iovec list"
  uio_iovcnt :: u32
  uio_offset :: int
  uio_resid :: u32
  uio_segflg :: uio_seg
  uio_rw :: uio_rw
  uio_space :: "nat option"

text \<open>The memory a transfer works on; the address space of the process comes with the address of its
  structure, which is what \<^verbatim>\<open>proc_getas\<close> returns and descriptors are compared with.\<close>

record 'f kstate =
  kmem :: "u32 \<Rightarrow> byte"
  k_as :: "(nat \<times> addrspace) option"
  k_mach :: "'f machine"

definition curas_ptr :: "'f kstate \<Rightarrow> nat option" where
  "curas_ptr k = map_option fst (k_as k)"

definition kread :: "(u32 \<Rightarrow> byte) \<Rightarrow> u32 \<Rightarrow> nat \<Rightarrow> byte list" where
  "kread m a n = map (\<lambda>i. m (a + of_nat i)) [0..<n]"

definition kwrite :: "(u32 \<Rightarrow> byte) \<Rightarrow> u32 \<Rightarrow> byte list \<Rightarrow> u32 \<Rightarrow> byte" where
  "kwrite m a bs = (\<lambda>x. if unat (x - a) < length bs then bs ! unat (x - a) else m x)"

text \<open>Moving \<open>sz\<close> bytes between the kernel buffer at \<open>ptr\<close> and the first data block. Without an address
  space the fault handler refuses every user address.\<close>

definition uio_block :: "'f vnode_ops \<Rightarrow> pid_t \<Rightarrow> u32 \<Rightarrow> u32 \<Rightarrow> uio_seg \<Rightarrow> uio_rw \<Rightarrow> u32 \<Rightarrow> 'f kstate \<Rightarrow> (copy_result \<times> 'f kstate) res" where
  "uio_block ops pid ptr base seg rw sz k =
     (case seg of
        UIO_SYSSPACE \<Rightarrow>
          Inr (Ret 0, if rw = UIO_READ then k\<lparr>kmem := kwrite (kmem k) base (kread (kmem k) ptr (unat sz))\<rparr>
                      else k\<lparr>kmem := kwrite (kmem k) ptr (kread (kmem k) base (unat sz))\<rparr>)
      | _ \<Rightarrow>
          (case k_as k of None \<Rightarrow> Inr (Ret EFAULT, k)
           | Some (a, as) \<Rightarrow>
               if rw = UIO_READ then
                 bindR (copyout ops pid (kread (kmem k) ptr (unat sz)) base as (k_mach k)) (\<lambda>(r, as, s).
                 Inr (r, k\<lparr>k_as := Some (a, as), k_mach := s\<rparr>))
               else
                 bindR (copyin ops pid base sz as (k_mach k)) (\<lambda>(r, bs, as, s).
                 Inr (r, k\<lparr>kmem := kwrite (kmem k) ptr bs, k_as := Some (a, as), k_mach := s\<rparr>))))"

text \<open>The loop of \<^verbatim>\<open>uiomove\<close>: each round moves some bytes or goes to the next data block.\<close>

function uiomove_loop :: "'f vnode_ops \<Rightarrow> pid_t \<Rightarrow> u32 \<Rightarrow> u32 \<Rightarrow> uio \<Rightarrow> 'f kstate \<Rightarrow> (copy_result \<times> uio \<times> 'f kstate) res" where
  "uiomove_loop ops pid ptr n u k =
     (if \<not> (n > 0 \<and> uio_resid u > 0) then Inr (Ret 0, u, k)
      else case uio_iov u of
        [] \<Rightarrow> Inl OutOfBounds
      | iov # rest \<Rightarrow>
          let sz = (if iov_len iov > n then n else iov_len iov) in
          if sz = 0 then
            let u = u\<lparr>uio_iov := rest, uio_iovcnt := uio_iovcnt u - 1\<rparr> in
            if uio_iovcnt u = 0 then Inl (Panic ''uiomove: ran out of buffers'')
            else uiomove_loop ops pid ptr n u k
          else
            bindR (uio_block ops pid ptr (iov_base iov) (uio_segflg u) (uio_rw u) sz k) (\<lambda>(r, k).
            if r \<noteq> Ret 0 then Inr (r, u, k)
            else uiomove_loop ops pid (ptr + sz) (n - sz)
              (u\<lparr>uio_iov := iov\<lparr>iov_base := iov_base iov + sz, iov_len := iov_len iov - sz\<rparr> # rest,
                 uio_resid := uio_resid u - sz, uio_offset := uio_offset u + int (unat sz)\<rparr>) k))"
  by pat_completeness auto
termination
proof (relation "measure (\<lambda>(ops, pid, ptr, n, u, k). unat n + length (uio_iov u))", goal_cases)
  case (3 ops pid ptr n u k iov rest sz r k')
  then have "unat sz \<le> unat n" "0 < unat sz" by (auto simp: word_le_nat_alt unat_gt_0 word_less_nat_alt split: if_splits)
  then have "unat (n - sz) < unat n" by (simp add: unat_sub word_le_nat_alt)
  then show ?case using 3(2) by simp
qed auto

declare uiomove_loop.simps [simp del]

definition uiomove :: "'f vnode_ops \<Rightarrow> pid_t \<Rightarrow> u32 \<Rightarrow> u32 \<Rightarrow> uio \<Rightarrow> 'f kstate \<Rightarrow> (copy_result \<times> uio \<times> 'f kstate) res" where
  "uiomove ops pid ptr n u k =
     (if uio_segflg u = UIO_SYSSPACE \<and> uio_space u \<noteq> None then Inl Kassert
      else if uio_segflg u \<noteq> UIO_SYSSPACE \<and> uio_space u \<noteq> curas_ptr k then Inl Kassert
      else uiomove_loop ops pid ptr n u k)"

text \<open>\<^verbatim>\<open>uiomovezeros\<close>: sixteen zero bytes at address \<open>zeros\<close> are moved again and again.\<close>

function uiomovezeros :: "'f vnode_ops \<Rightarrow> pid_t \<Rightarrow> u32 \<Rightarrow> u32 \<Rightarrow> uio \<Rightarrow> 'f kstate \<Rightarrow> (copy_result \<times> uio \<times> 'f kstate) res" where
  "uiomovezeros ops pid zeros n u k =
     (if uio_rw u \<noteq> UIO_READ then Inl Kassert
      else if \<not> n > 0 then Inr (Ret 0, u, k)
      else let amt = (if 16 > n then n else 16) in
      bindR (uiomove ops pid zeros amt u k) (\<lambda>(r, u, k).
      if r \<noteq> Ret 0 then Inr (r, u, k) else uiomovezeros ops pid zeros (n - amt) u k))"
  by pat_completeness auto
termination
proof (relation "measure (\<lambda>(ops, pid, zeros, n, u, k). unat n)", goal_cases)
  case (2 ops pid zeros n u k amt r u' k')
  then have "unat amt \<le> unat n" "0 < unat amt" by (auto simp: word_le_nat_alt unat_gt_0 word_less_nat_alt split: if_splits)
  then show ?case by (simp add: unat_sub word_le_nat_alt)
qed auto

declare uiomovezeros.simps [simp del]

definition uio_kinit :: "u32 \<Rightarrow> u32 \<Rightarrow> int \<Rightarrow> uio_rw \<Rightarrow> uio" where
  "uio_kinit kbuf len pos rw =
     \<lparr>uio_iov = [\<lparr>iov_base = kbuf, iov_len = len\<rparr>], uio_iovcnt = 1, uio_offset = pos, uio_resid = len,
      uio_segflg = UIO_SYSSPACE, uio_rw = rw, uio_space = None\<rparr>"

section \<open>Addresses of a descriptor\<close>

text \<open>A descriptor stands for the sequence of the addresses of its bytes.\<close>

definition addrs :: "u32 \<Rightarrow> nat \<Rightarrow> u32 list" where
  "addrs a n = map (\<lambda>i. a + of_nat i) [0..<n]"

definition iov_addrs :: "iovec list \<Rightarrow> u32 list" where
  "iov_addrs vs = concat (map (\<lambda>v. addrs (iov_base v) (unat (iov_len v))) vs)"

definition uio_ok :: "uio \<Rightarrow> bool" where
  "uio_ok u \<longleftrightarrow> uio_segflg u = UIO_SYSSPACE \<and> uio_space u = None \<and> length (uio_iov u) < 2 ^ 32 \<and>
     unat (uio_iovcnt u) = length (uio_iov u) \<and> unat (uio_resid u) = length (iov_addrs (uio_iov u))"

definition put :: "(u32 \<Rightarrow> byte) \<Rightarrow> u32 list \<Rightarrow> byte list \<Rightarrow> u32 \<Rightarrow> byte" where
  "put m xs bs = fold (\<lambda>(a, b) m. m(a := b)) (zip xs bs) m"

lemma length_addrs [simp]: "length (addrs a n) = n"
  by (simp add: addrs_def)

lemma addrs_0 [simp]: "addrs a 0 = []"
  by (simp add: addrs_def)

lemma addrs_add: "addrs a (m + n) = addrs a m @ addrs (a + of_nat m) n"
  by (auto simp: addrs_def nth_append add.assoc intro!: nth_equalityI)

lemma addrs_split: "m \<le> n \<Longrightarrow> addrs a n = addrs a m @ addrs (a + of_nat m) (n - m)"
  using addrs_add [of a m "n - m"] by simp

lemma take_addrs [simp]: "take m (addrs a n) = addrs a (min m n)"
  by (auto simp: addrs_def intro!: nth_equalityI)

lemma drop_addrs [simp]: "drop m (addrs a n) = addrs (a + of_nat m) (n - m)"
  by (auto simp: addrs_def algebra_simps intro!: nth_equalityI)

lemma distinct_addrs:
  assumes "n \<le> 2 ^ 32"
  shows "distinct (addrs a n)"
proof -
  have "i = j" if "i < n" "j < n" "(of_nat i :: u32) = of_nat j" for i j
    using arg_cong [OF that(3), of unat] that(1,2) assms by (simp add: unat_of_nat take_bit_nat_eq_self)
  then have "inj_on (\<lambda>i. a + of_nat i :: u32) (set [0..<n])" by (auto intro: inj_onI)
  then show ?thesis by (simp add: addrs_def distinct_map)
qed

lemma kread_addrs: "kread m a n = map m (addrs a n)"
  by (simp add: kread_def addrs_def)

lemma iov_addrs_simps [simp]: "iov_addrs [] = []" "iov_addrs (v # vs) = addrs (iov_base v) (unat (iov_len v)) @ iov_addrs vs"
  by (simp_all add: iov_addrs_def)

lemma put_Nil [simp]: "put m [] bs = m"
  by (simp add: put_def)

lemma put_append: "length xs = length bs \<Longrightarrow> put m (xs @ ys) (bs @ cs) = put (put m xs bs) ys cs"
  by (simp add: put_def)

lemma put_other: "x \<notin> set xs \<Longrightarrow> put m xs bs x = m x"
  unfolding put_def by (induction xs arbitrary: m bs) (simp, case_tac bs, auto)

lemma map_put_other: "set ys \<inter> set xs = {} \<Longrightarrow> map (put m xs bs) ys = map m ys"
  by (auto intro!: put_other)

lemma map_put: "distinct xs \<Longrightarrow> length xs = length bs \<Longrightarrow> map (put m xs bs) xs = bs"
proof (induction xs bs arbitrary: m rule: list_induct2')
  case (4 x xs b bs)
  have "put m (x # xs) (b # bs) = put (m(x := b)) xs bs" by (simp add: put_def)
  then show ?case using 4 by (simp add: put_other)
qed simp_all

lemma kwrite_put: "length bs \<le> 2 ^ 32 \<Longrightarrow> kwrite m a bs = put m (addrs a (length bs)) bs"
proof (induction bs rule: rev_induct)
  case (snoc b bs)
  have l: "unat (of_nat (length bs) :: u32) = length bs" using snoc.prems by (simp add: unat_of_nat take_bit_nat_eq_self)
  have "x = a + of_nat (length bs) \<longleftrightarrow> unat (x - a) = length bs" for x
    using l by (metis add_diff_cancel_left' diff_add_cancel add.commute word_unat_eq_iff)
  then have "kwrite m a (bs @ [b]) = (kwrite m a bs)(a + of_nat (length bs) := b)"
    by (auto simp: kwrite_def fun_eq_iff nth_append less_Suc_eq)
  also have "\<dots> = put m (addrs a (length (bs @ [b]))) (bs @ [b])"
    using snoc by (simp add: addrs_add [of a "length bs" 1, simplified] put_append) (simp add: put_def addrs_def)
  finally show ?case .
qed (simp add: kwrite_def)

section \<open>Transfers within the kernel\<close>

text \<open>One block: the bytes go from the source to the destination addresses.\<close>

definition uio_dst :: "u32 \<Rightarrow> nat \<Rightarrow> uio \<Rightarrow> u32 list" where
  "uio_dst ptr n u = (if uio_rw u = UIO_READ then iov_addrs (uio_iov u) else addrs ptr n)"

definition uio_src :: "u32 \<Rightarrow> nat \<Rightarrow> uio \<Rightarrow> u32 list" where
  "uio_src ptr n u = (if uio_rw u = UIO_READ then addrs ptr n else iov_addrs (uio_iov u))"

lemma uio_block_kernel:
  "uio_block ops pid ptr base UIO_SYSSPACE rw sz k =
     Inr (Ret 0, k\<lparr>kmem := (if rw = UIO_READ then put (kmem k) (addrs base (unat sz)) (map (kmem k) (addrs ptr (unat sz)))
                            else put (kmem k) (addrs ptr (unat sz)) (map (kmem k) (addrs base (unat sz))))\<rparr>)"
  using kwrite_put [of "kread (kmem k) ptr (unat sz)"] kwrite_put [of "kread (kmem k) base (unat sz)"]
    unsigned_less [of sz, where ?'a = nat]
  by (simp add: uio_block_def kread_addrs)

text \<open>What a transfer of \<open>m\<close> bytes leaves: the descriptor stands for the addresses not yet used.\<close>

definition moved :: "uio \<Rightarrow> nat \<Rightarrow> uio \<Rightarrow> bool" where
  "moved u m u' \<longleftrightarrow> uio_ok u' \<and> iov_addrs (uio_iov u') = drop m (iov_addrs (uio_iov u)) \<and> uio_rw u' = uio_rw u \<and>
     unat (uio_resid u') = unat (uio_resid u) - m \<and> uio_offset u' = uio_offset u + int m"

lemma moved_0: "uio_ok u \<Longrightarrow> moved u 0 u"
  by (simp add: moved_def)

lemma moved_trans: "moved u m u1 \<Longrightarrow> moved u1 m' u2 \<Longrightarrow> moved u (m + m') u2"
  by (auto simp: moved_def add.commute)

text \<open>Copying \<open>m\<close> bytes first and the rest afterwards is copying all.\<close>

lemma put_split:
  assumes "set dst \<inter> set src = {}" "m \<le> n" "m \<le> length dst" "m \<le> length src"
  shows "put (put f (take m dst) (map f (take m src))) (take (n - m) (drop m dst))
      (map (put f (take m dst) (map f (take m src))) (take (n - m) (drop m src))) =
    put f (take n dst) (map f (take n src))"
proof -
  have "set (take (n - m) (drop m src)) \<inter> set (take m dst) = {}"
    using assms(1) by (meson disjoint_iff in_set_dropD in_set_takeD)
  then show ?thesis
    using assms(2-4) take_add [of m "n - m" dst] take_add [of m "n - m" src]
    by (simp add: map_put_other flip: put_append map_append)
qed

text \<open>Skipping an empty data block, and the state after moving part of the first one.\<close>

lemma moved_skip:
  assumes "uio_ok u" "uio_iov u = iov # rest" "iov_len iov = 0" "0 < uio_resid u"
  shows "moved u 0 (u\<lparr>uio_iov := rest, uio_iovcnt := uio_iovcnt u - 1\<rparr>)" "uio_iovcnt u - 1 \<noteq> 0"
proof -
  have r: "rest \<noteq> []" using assms by (auto simp: uio_ok_def unat_eq_zero)
  have c: "unat (uio_iovcnt u) = Suc (length rest)" using assms(1,2) by (simp add: uio_ok_def)
  then have "unat (uio_iovcnt u - 1) = length rest" using unat_sub [of 1 "uio_iovcnt u"] by (simp add: word_le_nat_alt)
  then show "moved u 0 (u\<lparr>uio_iov := rest, uio_iovcnt := uio_iovcnt u - 1\<rparr>)" "uio_iovcnt u - 1 \<noteq> 0"
    using assms r by (auto simp: moved_def uio_ok_def)
qed

lemma moved_block:
  assumes "uio_ok u" "uio_iov u = iov # rest" "sz \<le> iov_len iov"
  shows "moved u (unat sz) (u\<lparr>uio_iov := iov\<lparr>iov_base := iov_base iov + sz, iov_len := iov_len iov - sz\<rparr> # rest,
    uio_resid := uio_resid u - sz, uio_offset := uio_offset u + int (unat sz)\<rparr>)"
proof -
  have "unat sz \<le> unat (iov_len iov)" using assms(3) by (simp add: word_le_nat_alt)
  moreover have "unat (uio_resid u) = unat (iov_len iov) + length (iov_addrs rest)" using assms(1,2) by (simp add: uio_ok_def)
  ultimately show ?thesis
    using assms unat_sub [of sz "iov_len iov"] unat_sub [of sz "uio_resid u"]
    by (simp add: moved_def uio_ok_def word_le_nat_alt)
qed

lemma uio_dst_src_moved:
  assumes "moved u m u'" "m \<le> n"
  shows "uio_dst (ptr + of_nat m) (n - m) u' = drop m (uio_dst ptr n u)"
    "uio_src (ptr + of_nat m) (n - m) u' = drop m (uio_src ptr n u)"
  using assms by (auto simp: moved_def uio_dst_def uio_src_def)

lemma uio_dst_src_disjoint:
  "set (uio_dst ptr n u) \<inter> set (uio_src ptr n u) = {} \<longleftrightarrow> set (addrs ptr n) \<inter> set (iov_addrs (uio_iov u)) = {}"
  by (auto simp: uio_dst_def uio_src_def)

lemma uiomove_loop_kernel:
  assumes "uio_ok u" "set (uio_dst ptr (unat n) u) \<inter> set (uio_src ptr (unat n) u) = {}"
  shows "\<exists>u'. uiomove_loop ops pid ptr n u k = Inr (Ret 0, u', k\<lparr>kmem :=
      put (kmem k) (take (min (unat n) (unat (uio_resid u))) (uio_dst ptr (unat n) u))
        (map (kmem k) (take (min (unat n) (unat (uio_resid u))) (uio_src ptr (unat n) u)))\<rparr>) \<and>
    moved u (min (unat n) (unat (uio_resid u))) u'"
  using assms
proof (induction ops pid ptr n u k rule: uiomove_loop.induct)
  case (1 ops pid ptr n u k)
  show ?case
  proof (cases "n > 0 \<and> uio_resid u > 0")
    case False
    then have "min (unat n) (unat (uio_resid u)) = 0" by (auto simp: word_less_nat_alt)
    then show ?thesis using False 1(3) by (subst uiomove_loop.simps) (simp add: moved_0)
  next
    case True
    then have "iov_addrs (uio_iov u) \<noteq> []" using 1(3) by (auto simp: uio_ok_def word_less_nat_alt)
    then obtain iov rest where iov: "uio_iov u = iov # rest" by (cases "uio_iov u") auto
    define sz where "sz = (if iov_len iov > n then n else iov_len iov)"
    show ?thesis
    proof (cases "sz = 0")
      case z: True
      then have e: "iov_len iov = 0" using True by (auto simp: sz_def split: if_splits)
      note sk = moved_skip [OF 1(3) iov e]
      have "moved u 0 (u\<lparr>uio_iov := rest, uio_iovcnt := uio_iovcnt u - 1\<rparr>)" using sk True by blast
      note mv = this uio_dst_src_moved [OF this, of "unat n" ptr]
      have "uiomove_loop ops pid ptr n u k =
          uiomove_loop ops pid ptr n (u\<lparr>uio_iov := rest, uio_iovcnt := uio_iovcnt u - 1\<rparr>) k"
        using True iov z sk(2) by (subst uiomove_loop.simps) (simp add: sz_def)
      then show ?thesis
        using 1(1) [OF _ iov sz_def z refl] True sk(2) 1(4) mv
        by (simp add: moved_def)
    next
      case nz: False
      define u1 where "u1 = u\<lparr>uio_iov := iov\<lparr>iov_base := iov_base iov + sz, iov_len := iov_len iov - sz\<rparr> # rest,
        uio_resid := uio_resid u - sz, uio_offset := uio_offset u + int (unat sz)\<rparr>"
      define k1 where "k1 = k\<lparr>kmem := put (kmem k) (take (unat sz) (uio_dst ptr (unat n) u))
        (map (kmem k) (take (unat sz) (uio_src ptr (unat n) u)))\<rparr>"
      have le: "sz \<le> iov_len iov" "sz \<le> n" "sz \<le> uio_resid u"
        using 1(3) iov by (auto simp: sz_def uio_ok_def word_le_nat_alt word_less_nat_alt)
      then have le': "unat sz \<le> unat (iov_len iov)" "unat sz \<le> unat n" "unat sz \<le> unat (uio_resid u)"
        by (simp_all add: word_le_nat_alt)
      have b: "uio_block ops pid ptr (iov_base iov) (uio_segflg u) (uio_rw u) sz k = Inr (Ret 0, k1)"
        using 1(3) iov le' by (simp add: uio_ok_def uio_block_kernel k1_def uio_dst_def uio_src_def min_absorb1)
      note mv = moved_block [OF 1(3) iov le(1), folded u1_def]
      note ds = uio_dst_src_moved [OF mv le'(2), of ptr, simplified]
      have n1: "unat (n - sz) = unat n - unat sz" using le(2) by (simp add: unat_sub word_le_nat_alt)
      have "set (uio_dst (ptr + sz) (unat (n - sz)) u1) \<inter> set (uio_src (ptr + sz) (unat (n - sz)) u1) = {}"
        unfolding n1 ds using 1(4) by (meson disjoint_iff in_set_dropD)
      then obtain u' where u': "uiomove_loop ops pid (ptr + sz) (n - sz) u1 k1 = Inr (Ret 0, u', k1\<lparr>kmem :=
          put (kmem k1) (take (min (unat (n - sz)) (unat (uio_resid u1))) (uio_dst (ptr + sz) (unat (n - sz)) u1))
            (map (kmem k1) (take (min (unat (n - sz)) (unat (uio_resid u1))) (uio_src (ptr + sz) (unat (n - sz)) u1)))\<rparr>)"
        "moved u1 (min (unat (n - sz)) (unat (uio_resid u1))) u'"
        using 1(2) [OF _ iov sz_def nz b refl, folded u1_def] True mv by (auto simp: moved_def)
      have e: "unat sz + min (unat (n - sz)) (unat (uio_resid u1)) = min (unat n) (unat (uio_resid u))"
        "min (unat (n - sz)) (unat (uio_resid u1)) = min (unat n) (unat (uio_resid u)) - unat sz"
        using le' n1 mv by (auto simp: moved_def)
      have l: "unat sz \<le> length (uio_dst ptr (unat n) u)" "unat sz \<le> length (uio_src ptr (unat n) u)"
        using le' iov by (simp_all add: uio_dst_def uio_src_def)
      have "k1\<lparr>kmem := put (kmem k1) (take (min (unat (n - sz)) (unat (uio_resid u1))) (uio_dst (ptr + sz) (unat (n - sz)) u1))
            (map (kmem k1) (take (min (unat (n - sz)) (unat (uio_resid u1))) (uio_src (ptr + sz) (unat (n - sz)) u1)))\<rparr> =
          k\<lparr>kmem := put (kmem k) (take (min (unat n) (unat (uio_resid u))) (uio_dst ptr (unat n) u))
            (map (kmem k) (take (min (unat n) (unat (uio_resid u))) (uio_src ptr (unat n) u)))\<rparr>"
        unfolding e(2) unfolding n1 ds k1_def
        using put_split [OF 1(4) _ l, of "min (unat n) (unat (uio_resid u))" "kmem k"] le' by simp
      moreover have "uiomove_loop ops pid ptr n u k = uiomove_loop ops pid (ptr + sz) (n - sz) u1 k1"
        using True iov nz b by (subst uiomove_loop.simps) (simp add: sz_def [symmetric] u1_def)
      ultimately show ?thesis using u' moved_trans [OF mv u'(2)] e(1) by metis
    qed
  qed
qed

lemma uiomove_kernel:
  assumes "uio_ok u" "set (addrs ptr (unat n)) \<inter> set (iov_addrs (uio_iov u)) = {}"
  shows "\<exists>u'. uiomove ops pid ptr n u k = Inr (Ret 0, u', k\<lparr>kmem :=
      put (kmem k) (take (min (unat n) (unat (uio_resid u))) (uio_dst ptr (unat n) u))
        (map (kmem k) (take (min (unat n) (unat (uio_resid u))) (uio_src ptr (unat n) u)))\<rparr>) \<and>
    moved u (min (unat n) (unat (uio_resid u))) u'"
  using uiomove_loop_kernel [OF assms(1), unfolded uio_dst_src_disjoint, OF assms(2)] assms(1)
  by (simp add: uiomove_def uio_ok_def)

lemma zeros_step:
  assumes "map f zs = replicate (length zs) 0" "a \<le> length zs" "a' = min a (length xs)" "set zs \<inter> set xs = {}"
  shows "put f (take a' xs) (map f (take a' zs)) = put f (take a' xs) (replicate a' 0)"
    "map (put f (take a' xs) (replicate a' 0)) zs = replicate (length zs) 0"
proof -
  have "map f (take a' zs) = replicate a' 0"
    using assms(1-3) by (metis min.cobounded1 min.commute min_absorb1 order.trans take_map take_replicate)
  then show "put f (take a' xs) (map f (take a' zs)) = put f (take a' xs) (replicate a' 0)" by simp
  have "set zs \<inter> set (take a' xs) = {}" using assms(4) by (meson disjoint_iff in_set_takeD)
  then show "map (put f (take a' xs) (replicate a' 0)) zs = replicate (length zs) 0"
    using assms(1) by (simp add: map_put_other)
qed

lemma uiomovezeros_kernel:
  assumes "uio_ok u" "uio_rw u = UIO_READ" "map (kmem k) (addrs zeros 16) = replicate 16 0"
    and "set (addrs zeros 16) \<inter> set (iov_addrs (uio_iov u)) = {}"
  shows "\<exists>u'. uiomovezeros ops pid zeros n u k = Inr (Ret 0, u', k\<lparr>kmem :=
      put (kmem k) (take (min (unat n) (unat (uio_resid u))) (iov_addrs (uio_iov u)))
        (replicate (min (unat n) (unat (uio_resid u))) 0)\<rparr>) \<and>
    moved u (min (unat n) (unat (uio_resid u))) u'"
  using assms
proof (induction ops pid zeros n u k rule: uiomovezeros.induct)
  case (1 ops pid zeros n u k)
  show ?case
  proof (cases "n > 0")
    case False
    then have "n = 0" by (simp add: word_gt_0)
    then show ?thesis using 1(2,3) by (subst uiomovezeros.simps) (simp add: moved_0)
  next
    case True
    define amt where "amt = (if 16 > n then n else 16)"
    define a where "a = min (unat amt) (unat (uio_resid u))"
    have am: "unat amt \<le> 16" "amt \<le> n" "unat (n - amt) = unat n - unat amt"
      by (auto simp: amt_def word_less_nat_alt unat_sub word_le_nat_alt)
    let ?xs = "iov_addrs (uio_iov u)"
    have r: "unat (uio_resid u) = length ?xs" using 1(2) by (simp add: uio_ok_def)
    have h: "map (kmem k) (addrs zeros 16) = replicate (length (addrs zeros 16)) 0" "unat amt \<le> length (addrs zeros 16)"
      using 1(4) am(1) by simp_all
    note z = zeros_step [OF h a_def [unfolded r] 1(5), unfolded length_addrs]
    define k1 where "k1 = k\<lparr>kmem := put (kmem k) (take a ?xs) (replicate a 0)\<rparr>"
    have "set (addrs zeros (unat amt)) \<subseteq> set (addrs zeros 16)"
      using set_take_subset [of "unat amt" "addrs zeros 16"] am(1) by (simp add: min_absorb1)
    then have "set (addrs zeros (unat amt)) \<inter> set ?xs = {}" using 1(5) by blast
    have a: "a \<le> unat amt" "a \<le> 16" using am(1) by (simp_all add: a_def)
    from uiomove_kernel [OF 1(2) \<open>set (addrs zeros (unat amt)) \<inter> set ?xs = {}\<close>, of ops pid k, folded a_def] obtain u1
      where u1: "uiomove ops pid zeros amt u k = Inr (Ret 0, u1, k1)" "moved u a u1"
      using z(1) a 1(3) by (auto simp: k1_def uio_dst_def uio_src_def min_absorb1)
    define b where "b = min (unat (n - amt)) (unat (uio_resid u1))"
    have ab: "a + b = min (unat n) (unat (uio_resid u))"
      using am u1(2) by (auto simp: b_def a_def moved_def word_le_nat_alt)
    have "set (addrs zeros 16) \<inter> set (iov_addrs (uio_iov u1)) = {}"
      using 1(5) u1(2) by (auto simp: moved_def dest: in_set_dropD)
    then obtain u' where u': "uiomovezeros ops pid zeros (n - amt) u1 k1 =
        Inr (Ret 0, u', k1\<lparr>kmem := put (kmem k1) (take b (drop a ?xs)) (replicate b 0)\<rparr>)" "moved u1 b u'"
      using 1(1) [OF _ _ amt_def u1(1) refl refl] True 1(3) u1(2) z(2) by (auto simp: moved_def b_def k1_def)
    have "put (kmem k1) (take b (drop a ?xs)) (replicate b 0) = put (kmem k) (take (a + b) ?xs) (replicate (a + b) 0)"
      using put_append [of "take a ?xs" "replicate a 0" "kmem k" "take b (drop a ?xs)" "replicate b 0"] r
      by (simp add: k1_def take_add replicate_add a_def)
    moreover have "uiomovezeros ops pid zeros n u k = uiomovezeros ops pid zeros (n - amt) u1 k1"
      using True 1(3) u1(1) by (subst uiomovezeros.simps) (simp add: amt_def [symmetric])
    ultimately show ?thesis using u' moved_trans [OF u1(2) u'(2)] by (simp add: ab k1_def)
  qed
qed

text \<open>C32. A kernel transfer moves exactly as many bytes as asked for and available, in order across the
  data blocks of the descriptor: reading scatters the kernel buffer over them, writing gathers them into
  it, and no other byte changes. Afterwards the descriptor stands for the addresses that are left, and
  its residue and offset have moved by that amount, so that transfers can be chained;
  \<^verbatim>\<open>uiomovezeros\<close> does the same with zeros.\<close>

theorem uiomove_scatter_gather:
  assumes "uio_ok u" "distinct (iov_addrs (uio_iov u))" "m = min (unat n) (unat (uio_resid u))"
  shows "(set (addrs ptr (unat n)) \<inter> set (iov_addrs (uio_iov u)) = {} \<longrightarrow>
      (\<exists>u' k'. uiomove ops pid ptr n u k = Inr (Ret 0, u', k') \<and> moved u m u' \<and>
        (uio_rw u = UIO_READ \<longrightarrow> map (kmem k') (take m (iov_addrs (uio_iov u))) = kread (kmem k) ptr m) \<and>
        (uio_rw u = UIO_WRITE \<longrightarrow> kread (kmem k') ptr m = map (kmem k) (take m (iov_addrs (uio_iov u)))) \<and>
        (\<forall>x. x \<notin> set (take m (uio_dst ptr (unat n) u)) \<longrightarrow> kmem k' x = kmem k x))) \<and>
    (uio_rw u = UIO_READ \<and> map (kmem k) (addrs zeros 16) = replicate 16 0 \<and>
       set (addrs zeros 16) \<inter> set (iov_addrs (uio_iov u)) = {} \<longrightarrow>
      (\<exists>u' k'. uiomovezeros ops pid zeros n u k = Inr (Ret 0, u', k') \<and> moved u m u' \<and>
        map (kmem k') (take m (iov_addrs (uio_iov u))) = replicate m 0 \<and>
        (\<forall>x. x \<notin> set (take m (iov_addrs (uio_iov u))) \<longrightarrow> kmem k' x = kmem k x)))"
proof (intro conjI impI)
  have r: "unat (uio_resid u) = length (iov_addrs (uio_iov u))" using assms(1) by (simp add: uio_ok_def)
  have n: "unat n < 2 ^ 32" using unsigned_less [of n, where ?'a = nat] by simp
  have mm: "m \<le> unat n" "m \<le> length (iov_addrs (uio_iov u))" using assms(3) r by simp_all
  assume d: "set (addrs ptr (unat n)) \<inter> set (iov_addrs (uio_iov u)) = {}"
  obtain u' where u': "moved u m u'" "uiomove ops pid ptr n u k = Inr (Ret 0, u', k\<lparr>kmem :=
      put (kmem k) (take m (uio_dst ptr (unat n) u)) (map (kmem k) (take m (uio_src ptr (unat n) u)))\<rparr>)"
    using uiomove_kernel [OF assms(1) d, of ops pid k, folded assms(3)] by blast
  have "distinct (take m (uio_dst ptr (unat n) u))" using assms(2) n by (simp add: uio_dst_def distinct_addrs)
  then have "map (put (kmem k) (take m (uio_dst ptr (unat n) u)) (map (kmem k) (take m (uio_src ptr (unat n) u))))
      (take m (uio_dst ptr (unat n) u)) = map (kmem k) (take m (uio_src ptr (unat n) u))"
    by (rule map_put) (use mm in \<open>simp add: uio_dst_def uio_src_def\<close>)
  then show "\<exists>u' k'. uiomove ops pid ptr n u k = Inr (Ret 0, u', k') \<and> moved u m u' \<and>
        (uio_rw u = UIO_READ \<longrightarrow> map (kmem k') (take m (iov_addrs (uio_iov u))) = kread (kmem k) ptr m) \<and>
        (uio_rw u = UIO_WRITE \<longrightarrow> kread (kmem k') ptr m = map (kmem k) (take m (iov_addrs (uio_iov u)))) \<and>
        (\<forall>x. x \<notin> set (take m (uio_dst ptr (unat n) u)) \<longrightarrow> kmem k' x = kmem k x)"
    using u' put_other mm by (cases "uio_rw u") (simp_all add: uio_dst_def uio_src_def kread_addrs min_absorb1)
next
  assume z: "uio_rw u = UIO_READ \<and> map (kmem k) (addrs zeros 16) = replicate 16 0 \<and>
    set (addrs zeros 16) \<inter> set (iov_addrs (uio_iov u)) = {}"
  have l: "length (take m (iov_addrs (uio_iov u))) = length (replicate m 0)" using assms(1,3) by (simp add: uio_ok_def)
  show "\<exists>u' k'. uiomovezeros ops pid zeros n u k = Inr (Ret 0, u', k') \<and> moved u m u' \<and>
        map (kmem k') (take m (iov_addrs (uio_iov u))) = replicate m 0 \<and>
        (\<forall>x. x \<notin> set (take m (iov_addrs (uio_iov u))) \<longrightarrow> kmem k' x = kmem k x)"
    using uiomovezeros_kernel [OF assms(1), of k zeros ops pid n, folded assms(3)] z
      map_put [OF distinct_take [OF assms(2)] l] put_other by fastforce
qed

theorem uiomove_scatter_gather_witness:
  "\<exists>u' k'. uiomove mem_ops 5 0x80003000 4
     \<lparr>uio_iov = [\<lparr>iov_base = 0x80001000, iov_len = 2\<rparr>, \<lparr>iov_base = 0, iov_len = 0\<rparr>, \<lparr>iov_base = 0x80002000, iov_len = 3\<rparr>],
      uio_iovcnt = 3, uio_offset = 10, uio_resid = 5, uio_segflg = UIO_SYSSPACE, uio_rw = UIO_READ, uio_space = None\<rparr>
     \<lparr>kmem = (\<lambda>a. if a = 0x80003002 then 9 else 0), k_as = None, k_mach = sample_machine\<rparr> = Inr (Ret 0, u', k') \<and>
   kmem k' 0x80002000 = 9 \<and> unat (uio_resid u') = 1 \<and> uio_offset u' = 14 \<and> iov_addrs (uio_iov u') = [0x80002002]"
  (is "\<exists>u' k'. uiomove _ _ _ _ ?u ?k = _ \<and> _")
proof -
  have a: "iov_addrs (uio_iov ?u) = [0x80001000, 0x80001001, 0x80002000, 0x80002001, 0x80002002]"
    "addrs 0x80003000 (unat (4 :: u32)) = [0x80003000, 0x80003001, 0x80003002, 0x80003003]"
    by (simp_all add: addrs_def upt_conv_Cons)
  then have h: "uio_ok ?u" "distinct (iov_addrs (uio_iov ?u))" "4 = min (unat (4 :: u32)) (unat (uio_resid ?u))"
    "set (addrs 0x80003000 (unat (4 :: u32))) \<inter> set (iov_addrs (uio_iov ?u)) = {}" "uio_rw ?u = UIO_READ"
    by (simp_all add: uio_ok_def)
  obtain u' k' where r: "uiomove mem_ops 5 0x80003000 4 ?u ?k = Inr (Ret 0, u', k')" "moved ?u 4 u'"
    "map (kmem k') (take 4 (iov_addrs (uio_iov ?u))) = kread (kmem ?k) 0x80003000 4"
    using mp [OF conjunct1 [OF uiomove_scatter_gather [OF h(1-3)]] h(4), of mem_ops 5 ?k] h(5) by blast
  moreover from r(3) have "kmem k' 0x80002000 = 9" unfolding a by (simp add: kread_def upt_conv_Cons)
  moreover from r(2) have "unat (uio_resid u') = 1 \<and> uio_offset u' = 14 \<and> iov_addrs (uio_iov u') = [0x80002002]"
    unfolding moved_def a by simp
  ultimately show ?thesis by blast
qed

end
