(* ===== verification/Libc.thy ===== *)
theory Libc
  imports Uio
begin

text \<open>
  The memory and string functions that the kernel shares with the C library, \<^verbatim>\<open>common/libc/string\<close> and
  \<^verbatim>\<open>common/libc/stdlib/atoi.c\<close>, on kernel memory as a function from addresses to bytes. A long is four
  bytes. Loops that stop at a terminator are partial functions: without one they do not return.
\<close>

section \<open>Blocks of memory\<close>

type_synonym kmemory = "u32 \<Rightarrow> byte"

definition sizeof_long :: nat where "sizeof_long = 4"

text \<open>The loops of \<^verbatim>\<open>memcpy\<close> and \<^verbatim>\<open>memmove\<close>: \<open>n\<close> elements of \<open>c\<close> bytes, forwards from index \<open>i\<close> or backwards.\<close>

fun copy_forwards :: "nat \<Rightarrow> u32 \<Rightarrow> u32 \<Rightarrow> nat \<Rightarrow> nat \<Rightarrow> kmemory \<Rightarrow> kmemory" where
  "copy_forwards c d s i 0 m = m"
| "copy_forwards c d s i (Suc n) m =
     copy_forwards c d s (i + 1) n (kwrite m (d + of_nat (c * i)) (kread m (s + of_nat (c * i)) c))"

fun copy_backwards :: "nat \<Rightarrow> u32 \<Rightarrow> u32 \<Rightarrow> nat \<Rightarrow> kmemory \<Rightarrow> kmemory" where
  "copy_backwards c d s 0 m = m"
| "copy_backwards c d s (Suc n) m =
     copy_backwards c d s n (kwrite m (d + of_nat (c * n)) (kread m (s + of_nat (c * n)) c))"

definition word_aligned :: "u32 \<Rightarrow> u32 \<Rightarrow> nat \<Rightarrow> bool" where
  "word_aligned dst src len \<longleftrightarrow> unat dst mod sizeof_long = 0 \<and> unat src mod sizeof_long = 0 \<and> len mod sizeof_long = 0"

definition memcpy :: "u32 \<Rightarrow> u32 \<Rightarrow> u32 \<Rightarrow> kmemory \<Rightarrow> kmemory" where
  "memcpy dst src len m =
     (if word_aligned dst src (unat len) then copy_forwards sizeof_long dst src 0 (unat len div sizeof_long) m
      else copy_forwards 1 dst src 0 (unat len) m)"

definition memmove :: "u32 \<Rightarrow> u32 \<Rightarrow> u32 \<Rightarrow> kmemory \<Rightarrow> kmemory" where
  "memmove dst src len m =
     (if dst < src then memcpy dst src len m
      else if word_aligned dst src (unat len) then copy_backwards sizeof_long dst src (unat len div sizeof_long) m
      else copy_backwards 1 dst src (unat len) m)"

fun fill :: "nat \<Rightarrow> byte \<Rightarrow> u32 \<Rightarrow> nat \<Rightarrow> nat \<Rightarrow> kmemory \<Rightarrow> kmemory" where
  "fill c b p i 0 m = m"
| "fill c b p i (Suc n) m = fill c b p (i + 1) n (kwrite m (p + of_nat (c * i)) (replicate c b))"

definition memset :: "u32 \<Rightarrow> int \<Rightarrow> u32 \<Rightarrow> kmemory \<Rightarrow> kmemory" where
  "memset ptr ch len m = fill 1 (word_of_int ch) ptr 0 (unat len) m"

definition bzero :: "u32 \<Rightarrow> u32 \<Rightarrow> kmemory \<Rightarrow> kmemory" where
  "bzero vblock len m =
     (if unat vblock mod sizeof_long = 0 \<and> unat len mod sizeof_long = 0
      then fill sizeof_long 0 vblock 0 (unat len div sizeof_long) m
      else fill 1 0 vblock 0 (unat len) m)"

section \<open>Strings\<close>

partial_function (option) strlen_loop :: "kmemory \<Rightarrow> u32 \<Rightarrow> u32 \<Rightarrow> u32 option" where
  "strlen_loop m str ret = (if m (str + ret) \<noteq> 0 then strlen_loop m str (ret + 1) else Some ret)"

definition strlen :: "kmemory \<Rightarrow> u32 \<Rightarrow> u32 option" where
  "strlen m str = strlen_loop m str 0"

partial_function (option) strcpy_loop :: "u32 \<Rightarrow> u32 \<Rightarrow> u32 \<Rightarrow> kmemory \<Rightarrow> kmemory option" where
  "strcpy_loop dest src i m =
     (if m (src + i) \<noteq> 0 then strcpy_loop dest src (i + 1) (m(dest + i := m (src + i)))
      else Some (m(dest + i := 0)))"

definition strcpy :: "u32 \<Rightarrow> u32 \<Rightarrow> kmemory \<Rightarrow> kmemory option" where
  "strcpy dest src m = strcpy_loop dest src 0 m"

definition strcat :: "u32 \<Rightarrow> u32 \<Rightarrow> kmemory \<Rightarrow> kmemory option" where
  "strcat dest src m = (case strlen m dest of None \<Rightarrow> None | Some offset \<Rightarrow> strcpy (dest + offset) src m)"

partial_function (option) strcmp_loop :: "kmemory \<Rightarrow> u32 \<Rightarrow> u32 \<Rightarrow> u32 \<Rightarrow> u32 option" where
  "strcmp_loop m a b i =
     (if m (a + i) \<noteq> 0 \<and> m (a + i) = m (b + i) then strcmp_loop m a b (i + 1) else Some i)"

definition strcmp :: "kmemory \<Rightarrow> u32 \<Rightarrow> u32 \<Rightarrow> int option" where
  "strcmp m a b =
     (case strcmp_loop m a b 0 of None \<Rightarrow> None
      | Some i \<Rightarrow> Some (if m (a + i) > m (b + i) then 1 else if m (a + i) = m (b + i) then 0 else -1))"

text \<open>\<open>Some None\<close> is the NULL pointer.\<close>

partial_function (option) strchr_loop :: "kmemory \<Rightarrow> byte \<Rightarrow> u32 \<Rightarrow> u32 option option" where
  "strchr_loop m ch s =
     (if m s \<noteq> 0 then (if m s = ch then Some (Some s) else strchr_loop m ch (s + 1))
      else if m s = ch then Some (Some s) else Some None)"

definition strchr :: "kmemory \<Rightarrow> u32 \<Rightarrow> int \<Rightarrow> u32 option option" where
  "strchr m s ch_arg = strchr_loop m (word_of_int ch_arg) s"

fun strrchr_loop :: "kmemory \<Rightarrow> u32 \<Rightarrow> byte \<Rightarrow> nat \<Rightarrow> u32 option" where
  "strrchr_loop m s ch 0 = None"
| "strrchr_loop m s ch (Suc i) = (if m (s + of_nat i) = ch then Some (s + of_nat i) else strrchr_loop m s ch i)"

definition strrchr :: "kmemory \<Rightarrow> u32 \<Rightarrow> int \<Rightarrow> u32 option option" where
  "strrchr m s ch_arg =
     (case strlen m s of None \<Rightarrow> None | Some l \<Rightarrow> Some (strrchr_loop m s (word_of_int ch_arg) (unat (l + 1))))"

text \<open>\<^verbatim>\<open>strtok_r\<close>: skipping separators, skipping the word, and cutting it off.\<close>

partial_function (option) skip_while :: "bool \<Rightarrow> kmemory \<Rightarrow> u32 \<Rightarrow> u32 \<Rightarrow> u32 option" where
  "skip_while sep m seps p =
     (if m p = 0 then Some p
      else case strchr m seps (sint (m p)) of None \<Rightarrow> None
      | Some r \<Rightarrow> if (r \<noteq> None) = sep then skip_while sep m seps (p + 1) else Some p)"

definition strtok_r :: "u32 option \<Rightarrow> u32 \<Rightarrow> u32 option \<Rightarrow> kmemory \<Rightarrow> (u32 option \<times> u32 option \<times> kmemory) option" where
  "strtok_r string seps context m =
     (case (if string \<noteq> None then string else context) of
        None \<Rightarrow> Some (None, None, m)
      | Some start \<Rightarrow>
          (case skip_while True m seps start of None \<Rightarrow> None
           | Some head \<Rightarrow>
               if m head = 0 then Some (None, None, m)
               else (case skip_while False m seps head of None \<Rightarrow> None
                 | Some tail \<Rightarrow>
                     if m tail = 0 then Some (Some head, None, m)
                     else Some (Some head, Some (tail + 1), m(tail := 0)))))"

section \<open>Numbers\<close>

definition digit_of :: "byte \<Rightarrow> nat option" where
  "digit_of b = (if b \<noteq> 0 \<and> 48 \<le> b \<and> b \<le> 57 then Some (unat b - 48) else None)"

partial_function (option) skip_blanks :: "kmemory \<Rightarrow> u32 \<Rightarrow> u32 option" where
  "skip_blanks m s = (if m s = 32 \<or> m s = 9 then skip_blanks m (s + 1) else Some s)"

partial_function (option) atoi_loop :: "kmemory \<Rightarrow> u32 \<Rightarrow> u32 \<Rightarrow> u32 option" where
  "atoi_loop m s val =
     (if m s = 0 then Some val
      else case digit_of (m s) of None \<Rightarrow> Some val
      | Some digit \<Rightarrow> atoi_loop m (s + 1) (val * 10 + of_nat digit))"

definition atoi :: "kmemory \<Rightarrow> u32 \<Rightarrow> int option" where
  "atoi m s0 =
     (case skip_blanks m s0 of None \<Rightarrow> None
      | Some s \<Rightarrow>
          let neg = (m s = 45); s = (if m s = 45 \<or> m s = 43 then s + 1 else s) in
          case atoi_loop m s 0 of None \<Rightarrow> None
          | Some val \<Rightarrow> Some (sint (if neg then - val else val)))"

section \<open>Copying is simultaneous\<close>

lemma unat_plus: "unat a + k < 2 ^ 32 \<Longrightarrow> unat (a + of_nat k :: u32) = unat a + k"
  by (simp add: unat_word_ariths unat_of_nat)

lemma addrs_range:
  assumes "unat a + n \<le> 2 ^ 32"
  shows "x \<in> set (addrs a n) \<longleftrightarrow> unat a \<le> unat x \<and> unat x < unat a + n"
proof
  assume "x \<in> set (addrs a n)"
  then obtain i where i: "x = a + of_nat i" "i < n" by (auto simp: addrs_def)
  then have "unat x = unat a + i" using assms by (simp add: unat_word_ariths unat_of_nat)
  then show "unat a \<le> unat x \<and> unat x < unat a + n" using i(2) by simp
next
  assume r: "unat a \<le> unat x \<and> unat x < unat a + n"
  then have "x = a + of_nat (unat x - unat a)" by (simp add: of_nat_diff)
  moreover have "unat x - unat a < n" using r by linarith
  ultimately show "x \<in> set (addrs a n)" by (auto simp: addrs_def)
qed

lemma kread_add: "kread m a (j + k) = kread m a j @ kread m (a + of_nat j) k"
  by (simp add: kread_addrs addrs_add)

lemma length_kread [simp]: "length (kread m a n) = n"
  by (simp add: kread_addrs)

lemma kread_0 [simp]: "kread m a 0 = []"
  by (simp add: kread_addrs)

lemma kwrite_Nil [simp]: "kwrite m a [] = m"
  by (simp add: kwrite_def)

lemma put_commute:
  assumes "set xs \<inter> set ys = {}" "distinct xs" "distinct ys" "length xs = length bs" "length ys = length cs"
  shows "put (put m xs bs) ys cs = put (put m ys cs) xs bs"
proof
  fix x
  have "map (put (put m xs bs) ys cs) ys = map (put (put m ys cs) xs bs) ys"
    using map_put [OF assms(3,5)] map_put_other [of ys xs "put m ys cs" bs] assms(1) by (simp add: inf_commute)
  moreover have "map (put (put m xs bs) ys cs) xs = map (put (put m ys cs) xs bs) xs"
    using map_put [OF assms(2,4)] map_put_other [of xs ys "put m xs bs" cs] assms(1) by simp
  ultimately show "put (put m xs bs) ys cs x = put (put m ys cs) xs bs x"
    by (cases "x \<in> set xs \<or> x \<in> set ys") (auto simp: put_other)
qed

lemma kwrite_append:
  assumes "length xs + length ys \<le> 2 ^ 32"
  shows "kwrite m a (xs @ ys) = kwrite (kwrite m a xs) (a + of_nat (length xs)) ys"
    "kwrite m a (xs @ ys) = kwrite (kwrite m (a + of_nat (length xs)) ys) a xs"
proof -
  let ?a1 = "addrs a (length xs)" and ?a2 = "addrs (a + of_nat (length xs)) (length ys)"
  show 1: "kwrite m a (xs @ ys) = kwrite (kwrite m a xs) (a + of_nat (length xs)) ys"
    using assms by (simp add: kwrite_put addrs_add put_append)
  have "distinct (?a1 @ ?a2)" using distinct_addrs [OF assms, of a] by (simp add: addrs_add)
  then show "kwrite m a (xs @ ys) = kwrite (kwrite m (a + of_nat (length xs)) ys) a xs"
    unfolding 1 using assms put_commute [of ?a1 ?a2 xs ys m] by (simp add: kwrite_put)
qed

lemma kread_kwrite_other:
  assumes "set (addrs a n) \<inter> set (addrs b (length bs)) = {}" "length bs \<le> 2 ^ 32"
  shows "kread (kwrite m b bs) a n = kread m a n"
  using assms by (simp add: kwrite_put kread_addrs map_put_other)

lemma copy_forwards_shift: "copy_forwards c d s (i + j) n m = copy_forwards c (d + of_nat (c * j)) (s + of_nat (c * j)) i n m"
proof (induction n arbitrary: i m)
  case (Suc n)
  show ?case using Suc [of "Suc i"] by (simp add: algebra_simps)
qed simp

text \<open>Copying forwards is right when the destination does not start inside the source, backwards when the
  source does not start inside the destination.\<close>

lemma copy_forwards_ok:
  assumes "unat d + c * n \<le> 2 ^ 32" "unat s + c * n \<le> 2 ^ 32"
    and "unat d \<le> unat s \<or> unat s + c * n \<le> unat d" "0 < c"
  shows "copy_forwards c d s 0 n m = kwrite m d (kread m s (c * n))"
  using assms
proof (induction n arbitrary: d s m)
  case (Suc n)
  show ?case
  proof (cases "n = 0")
    case True
    then show ?thesis by simp
  next
    case False
    let ?m1 = "kwrite m d (kread m s c)" and ?d = "d + of_nat c" and ?s = "s + of_nat c"
    have "c < c * Suc n" using False Suc.prems(4) by simp
    then have c: "c < 2 ^ 32" "unat d + c < 2 ^ 32" "unat s + c < 2 ^ 32" using Suc.prems(1,2) by linarith+
    have u: "unat ?d = unat d + c" "unat ?s = unat s + c" using c(2,3) by (simp_all add: unat_plus)
    have "copy_forwards c d s 0 (Suc n) m = copy_forwards c ?d ?s 0 n ?m1"
      using copy_forwards_shift [of c d s 0 1] by simp
    also have "\<dots> = kwrite ?m1 ?d (kread ?m1 ?s (c * n))"
      by (rule Suc.IH) (use Suc.prems u in auto)
    also have "kread ?m1 ?s (c * n) = kread m ?s (c * n)"
    proof (rule kread_kwrite_other)
      have "unat ?s + c * n \<le> 2 ^ 32" "unat d + c \<le> 2 ^ 32" using u(2) Suc.prems(2) c(2) by simp_all
      then show "set (addrs ?s (c * n)) \<inter> set (addrs d (length (kread m s c))) = {}"
        using Suc.prems(3) u(2) by (auto simp: addrs_range)
    qed (use c(1) in simp)
    finally show ?thesis
      using kwrite_append(1) [of "kread m s c" "kread m ?s (c * n)" m d] Suc.prems(1) by (simp add: kread_add)
  qed
qed simp

lemma copy_backwards_ok:
  assumes "unat d + c * n \<le> 2 ^ 32" "unat s + c * n \<le> 2 ^ 32" "unat s \<le> unat d"
  shows "copy_backwards c d s n m = kwrite m d (kread m s (c * n))"
  using assms
proof (induction n arbitrary: m)
  case (Suc n)
  show ?case
  proof (cases "c = 0")
    case False
    let ?k = "c * n"
    let ?m1 = "kwrite m (d + of_nat ?k) (kread m (s + of_nat ?k) c)"
    have le: "unat d + ?k + c \<le> 2 ^ 32" "unat s + ?k + c \<le> 2 ^ 32" using Suc.prems(1,2) by simp_all
    then have c: "c \<le> 2 ^ 32" "unat d + ?k < 2 ^ 32" using False by linarith+
    have u: "unat (d + of_nat ?k) = unat d + ?k" using c(2) by (rule unat_plus)
    have "copy_backwards c d s (Suc n) m = kwrite ?m1 d (kread ?m1 s ?k)"
      using Suc.IH [of ?m1] le Suc.prems(3) by simp
    also have "kread ?m1 s ?k = kread m s ?k"
    proof (rule kread_kwrite_other)
      have "unat s + ?k \<le> 2 ^ 32" "unat (d + of_nat ?k) + c \<le> 2 ^ 32" using le u by simp_all
      then show "set (addrs s ?k) \<inter> set (addrs (d + of_nat ?k) (length (kread m (s + of_nat ?k) c))) = {}"
        using Suc.prems(3) u by (auto simp: addrs_range)
    qed (use c(1) in simp)
    finally have "copy_backwards c d s (Suc n) m = kwrite m d (kread m s ?k @ kread m (s + of_nat ?k) c)"
      using kwrite_append(2) [of "kread m s ?k" "kread m (s + of_nat ?k) c" m d] le by simp
    also have "kread m s ?k @ kread m (s + of_nat ?k) c = kread m s (c * Suc n)"
      using kread_add [of m s ?k c] by (simp add: add.commute)
    finally show ?thesis .
  qed (use Suc in simp)
qed simp

lemma fill_shift: "fill c b p (i + j) n m = fill c b (p + of_nat (c * j)) i n m"
proof (induction n arbitrary: i m)
  case (Suc n)
  show ?case using Suc [of "Suc i"] by (simp add: algebra_simps)
qed simp

lemma fill_ok: "c * n \<le> 2 ^ 32 \<Longrightarrow> fill c b p 0 n m = kwrite m p (replicate (c * n) b)"
proof (induction n arbitrary: p m)
  case (Suc n)
  have "fill c b p 0 (Suc n) m = fill c b (p + of_nat c) 0 n (kwrite m p (replicate c b))" using fill_shift [of c b p 0 1] by simp
  then show ?case
    using Suc kwrite_append(1) [of "replicate c b" "replicate (c * n) b" m p] by (simp add: replicate_add)
qed simp

lemma aligned_div: "word_aligned d s n \<Longrightarrow> sizeof_long * (n div sizeof_long) = n"
  by (auto simp: word_aligned_def)

text \<open>C39. The block functions of the C library, which work on words when everything is aligned and on bytes
  otherwise, are equivalent to reading the whole block first and then writing it: \<^verbatim>\<open>memmove\<close> for any two
  blocks that do not wrap around the end of memory, also overlapping ones, and \<^verbatim>\<open>memcpy\<close> for blocks that
  do not overlap or whose destination lies below the source. \<^verbatim>\<open>memset\<close> and \<^verbatim>\<open>bzero\<close> fill exactly the block.\<close>

theorem block_copy_equivalence:
  assumes "unat dst + unat len \<le> 2 ^ 32" "unat src + unat len \<le> 2 ^ 32"
  shows "memmove dst src len m = kwrite m dst (kread m src (unat len)) \<and>
    (unat dst \<le> unat src \<or> unat src + unat len \<le> unat dst \<longrightarrow> memcpy dst src len m = kwrite m dst (kread m src (unat len))) \<and>
    memset dst ch len m = kwrite m dst (replicate (unat len) (word_of_int ch)) \<and>
    bzero dst len m = kwrite m dst (replicate (unat len) 0)"
proof -
  have f: "memcpy dst src len m = kwrite m dst (kread m src (unat len))"
    if "unat dst \<le> unat src \<or> unat src + unat len \<le> unat dst"
    using copy_forwards_ok [of dst sizeof_long "unat len div sizeof_long" src m] copy_forwards_ok [of dst 1 "unat len" src m]
      assms that aligned_div [of dst src "unat len"]
    by (simp add: memcpy_def sizeof_long_def)
  have b: "memmove dst src len m = kwrite m dst (kread m src (unat len))"
    using copy_backwards_ok [of dst sizeof_long "unat len div sizeof_long" src m] copy_backwards_ok [of dst 1 "unat len" src m]
      assms f aligned_div [of dst src "unat len"]
    by (auto simp: memmove_def word_less_nat_alt sizeof_long_def)
  have l: "unat len \<le> 2 ^ 32" using assms(1) by linarith
  then have "memset dst ch len m = kwrite m dst (replicate (unat len) (word_of_int ch))"
    using fill_ok [of 1 "unat len"] by (simp add: memset_def)
  moreover have "bzero dst len m = kwrite m dst (replicate (unat len) 0)"
    using fill_ok [of 1 "unat len"] fill_ok [of 4 "unat len div 4"] l by (auto simp: bzero_def sizeof_long_def)
  ultimately show ?thesis using f b by blast
qed

theorem block_copy_equivalence_witness:
  "memmove 0x80001002 0x80001000 5 (\<lambda>a. if a = 0x80001004 then 9 else 0) 0x80001006 = 9 \<and>
   memmove 0x80001002 0x80001000 5 (\<lambda>a. if a = 0x80001000 then 7 else 0) 0x80001004 = 0"
proof -
  have h: "unat (0x80001002 :: u32) + unat (5 :: u32) \<le> 2 ^ 32" "unat (0x80001000 :: u32) + unat (5 :: u32) \<le> 2 ^ 32" by simp_all
  show ?thesis unfolding block_copy_equivalence [OF h, THEN conjunct1] by (simp add: kwrite_def kread_def upt_conv_Cons)
qed

section \<open>Strings in memory\<close>

definition cstr :: "kmemory \<Rightarrow> u32 \<Rightarrow> byte list \<Rightarrow> bool" where
  "cstr m a s \<longleftrightarrow> 0 \<notin> set s \<and> length s < 2 ^ 32 \<and> kread m a (length s + 1) = s @ [0]"

lemma kread_Suc: "kread m a (Suc n) = m a # kread m (a + 1) n"
  using kread_add [of m a 1 n] by (simp add: kread_def)

lemma cstr_Nil: "cstr m a [] \<longleftrightarrow> m a = 0"
  by (simp add: cstr_def kread_Suc)

lemma cstr_Cons: "cstr m a (x # s) \<Longrightarrow> x \<noteq> 0 \<and> m a = x \<and> cstr m (a + 1) s"
  by (auto simp: cstr_def kread_Suc)

lemma cstr_nth:
  assumes "cstr m a s" "i \<le> length s"
  shows "m (a + of_nat i) = (s @ [0]) ! i"
proof -
  have "kread m a (length s + 1) ! i = m (a + of_nat i)" using assms(2) by (simp add: kread_def nth_map del: upt_Suc)
  then show ?thesis using assms(1) by (simp add: cstr_def)
qed

lemma strlen_loop_ok: "cstr m (str + ret) s \<Longrightarrow> strlen_loop m str ret = Some (ret + of_nat (length s))"
proof (induction s arbitrary: ret)
  case Nil
  then show ?case by (subst strlen_loop.simps) (simp add: cstr_Nil)
next
  case (Cons x s)
  then have "strlen_loop m str (ret + 1) = Some (ret + 1 + of_nat (length s))" using cstr_Cons by (metis add.assoc)
  then show ?case using cstr_Cons [OF Cons.prems] by (subst strlen_loop.simps) (simp add: algebra_simps)
qed

lemma strcmp_loop_ok:
  "cstr m (a + i) s \<Longrightarrow> cstr m (b + i) t \<Longrightarrow>
    \<exists>j. strcmp_loop m a b i = Some j \<and> (if m (a + j) > m (b + j) then 1 else if m (a + j) = m (b + j) then 0 else (-1 :: int)) =
      (if s = t then 0 else if ord_class.lexordp s t then -1 else 1)"
proof (induction s arbitrary: i t)
  case Nil
  then have "m (a + i) = 0" by (simp add: cstr_Nil)
  moreover have "m (b + i) = 0 \<longleftrightarrow> t = []" using Nil.prems(2) cstr_Cons by (cases t) (auto simp: cstr_Nil)
  ultimately show ?case by (subst strcmp_loop.simps) (auto simp: word_gt_0 lexordp_simps)
next
  case (Cons x s)
  note x = cstr_Cons [OF Cons.prems(1)]
  show ?case
  proof (cases "t \<noteq> [] \<and> hd t = x")
    case True
    then obtain t' where t: "t = x # t'" by (cases t) auto
    note y = cstr_Cons [OF Cons.prems(2) [unfolded t]]
    have "strcmp_loop m a b i = strcmp_loop m a b (i + 1)" using x y by (subst strcmp_loop.simps) simp
    moreover obtain j where "strcmp_loop m a b (i + 1) = Some j"
      "(if m (a + j) > m (b + j) then 1 else if m (a + j) = m (b + j) then 0 else (-1 :: int)) =
        (if s = t' then 0 else if ord_class.lexordp s t' then -1 else 1)"
      using Cons.IH [of "i + 1" t'] x y by (auto simp: add.assoc)
    moreover have "(if x # s = t then 0 else if ord_class.lexordp (x # s) t then -1 else (1 :: int)) =
        (if s = t' then 0 else if ord_class.lexordp s t' then -1 else 1)" by (simp add: t)
    ultimately show ?thesis by (intro exI [of _ j]) (simp only: refl conj_absorb)
  next
    case False
    have y: "m (b + i) = (if t = [] then 0 else hd t)" using Cons.prems(2) cstr_Cons by (cases t) (auto simp: cstr_Nil)
    have "strcmp_loop m a b i = Some i" using x y False by (subst strcmp_loop.simps) auto
    then show ?thesis using x y False by (cases t) (auto simp: word_gt_0)
  qed
qed

lemma strchr_loop_ok:
  "cstr m a s \<Longrightarrow> strchr_loop m ch a =
    Some (if ch \<in> set (s @ [0]) then Some (a + of_nat (length (takeWhile (\<lambda>x. x \<noteq> ch) (s @ [0])))) else None)"
proof (induction s arbitrary: a)
  case Nil
  then show ?case by (subst strchr_loop.simps) (auto simp: cstr_Nil)
next
  case (Cons x s)
  then show ?case using cstr_Cons [OF Cons.prems] by (subst strchr_loop.simps) (auto simp: algebra_simps)
qed

lemma strrchr_loop_ok: "strrchr_loop m a ch n =
    (if \<exists>i < n. m (a + of_nat i) = ch then Some (a + of_nat (Max {i. i < n \<and> m (a + of_nat i) = ch})) else None)"
proof (induction n)
  case (Suc n)
  show ?case
  proof (cases "m (a + of_nat n) = ch")
    case True
    have "Max {i. i < Suc n \<and> m (a + of_nat i) = ch} = n" by (rule Max_eqI) (use True in auto)
    then show ?thesis using True by auto
  next
    case False
    then have "{i. i < Suc n \<and> m (a + of_nat i) = ch} = {i. i < n \<and> m (a + of_nat i) = ch}" by (auto simp: less_Suc_eq)
    then show ?thesis using False Suc by (auto simp: less_Suc_eq)
  qed
qed simp

lemma addrs_Suc: "addrs a (Suc n) = a # addrs (a + 1) n"
  using addrs_add [of a 1 n] by (simp add: addrs_def)

lemma kwrite_Cons: "length bs < 2 ^ 32 \<Longrightarrow> kwrite m a (b # bs) = kwrite (m(a := b)) (a + 1) bs"
  using kwrite_append(1) [of "[b]" bs m a] by (simp add: kwrite_put put_def addrs_def)

lemma kread_upd: "x \<notin> set (addrs a n) \<Longrightarrow> kread (m(x := b)) a n = kread m a n"
  by (auto simp: kread_addrs)

lemma strcpy_loop_ok:
  "cstr m (a + i) s \<Longrightarrow> set (addrs (d + i) (length s + 1)) \<inter> set (addrs (a + i) (length s + 1)) = {} \<Longrightarrow>
    strcpy_loop d a i m = Some (kwrite m (d + i) (s @ [0]))"
proof (induction s arbitrary: i m)
  case Nil
  then show ?case by (subst strcpy_loop.simps) (simp add: cstr_Nil kwrite_Cons)
next
  case (Cons x s)
  note x = cstr_Cons [OF Cons.prems(1)]
  let ?m = "m(d + i := x)"
  have out: "d + i \<notin> set (addrs (a + (i + 1)) (length s + 1))"
    "set (addrs (d + (i + 1)) (length s + 1)) \<inter> set (addrs (a + (i + 1)) (length s + 1)) = {}"
    using Cons.prems(2) by (auto simp: addrs_Suc add.assoc)
  have "cstr ?m (a + (i + 1)) s" using x kread_upd [OF out(1)] by (simp add: cstr_def add.assoc)
  then have "strcpy_loop d a (i + 1) ?m = Some (kwrite ?m (d + (i + 1)) (s @ [0]))" using Cons.IH out(2) by blast
  moreover have "strcpy_loop d a i m = strcpy_loop d a (i + 1) ?m" using x by (subst strcpy_loop.simps) simp
  moreover have "length (s @ [0]) < 2 ^ 32" using Cons.prems(1) by (simp add: cstr_def)
  ultimately show ?case by (simp add: kwrite_Cons add.assoc)
qed

lemma cstr_kwrite: "0 \<notin> set s \<Longrightarrow> length s + 1 < 2 ^ 32 \<Longrightarrow> cstr (kwrite m d (s @ [0])) d s"
  unfolding cstr_def using map_put [OF distinct_addrs [of "length s + 1" d], of "s @ [0]" m] by (simp add: kwrite_put kread_addrs)

lemma strcat_ok:
  assumes "cstr m d u" "cstr m a s" "set (addrs d (length u + length s + 1)) \<inter> set (addrs a (length s + 1)) = {}" "length u + length s + 1 < 2 ^ 32"
  shows "strcat d a m = Some (kwrite m d (u @ s @ [0]))"
proof -
  let ?d = "d + of_nat (length u)"
  have "strlen m d = Some (of_nat (length u))" using strlen_loop_ok [of m d 0 u] assms(1) by (simp add: strlen_def)
  moreover have "set (addrs ?d (length s + 1)) \<inter> set (addrs a (length s + 1)) = {}"
    using assms(3) addrs_add [of d "length u" "length s + 1"] by auto
  then have "strcpy ?d a m = Some (kwrite m ?d (s @ [0]))" using strcpy_loop_ok [of m a 0 s ?d] assms(2) by (simp add: strcpy_def)
  moreover have "kwrite m d u = m"
  proof -
    have "u = kread m d (length u)"
      using assms(1) kread_add [of m d "length u" 1] by (simp add: cstr_def)
    then have "kwrite m d (kread m d (length u)) = kwrite m d u" by simp
    moreover have "kwrite m d (kread m d (length u)) = m"
      using assms(4) by (auto simp: kwrite_def kread_def fun_eq_iff)
    ultimately show ?thesis by simp
  qed
  ultimately show ?thesis using kwrite_append(1) [of u "s @ [0]" m d] assms(4) by (simp add: strcat_def)
qed

section \<open>Decimal numbers\<close>

function digits :: "nat \<Rightarrow> byte list" where
  "digits n = (if n < 10 then [48 + of_nat n] else digits (n div 10) @ [48 + of_nat (n mod 10)])"
  by pat_completeness auto
termination by (relation "measure id") auto

declare digits.simps [simp del]

lemma digit_of_digit: "d < 10 \<Longrightarrow> digit_of (48 + of_nat d) = Some d" "d < 10 \<Longrightarrow> (48 + of_nat d :: byte) \<notin> {0, 9, 32, 43, 45}"
proof -
  have u: "d < 10 \<Longrightarrow> unat (48 + of_nat d :: byte) = 48 + d" by (simp add: unat_word_ariths unat_of_nat)
  show "d < 10 \<Longrightarrow> digit_of (48 + of_nat d) = Some d" using u by (simp add: digit_of_def word_le_nat_alt unat_eq_zero [symmetric])
  show "d < 10 \<Longrightarrow> (48 + of_nat d :: byte) \<notin> {0, 9, 32, 43, 45}"
  proof
    assume d: "d < 10" and e: "(48 + of_nat d :: byte) \<in> {0, 9, 32, 43, 45}"
    have "unat (48 + of_nat d :: byte) \<in> unat ` {0 :: byte, 9, 32, 43, 45}" by (rule imageI [OF e])
    then show False using u [OF d] by simp
  qed
qed

lemma digits_split: "digits n = (if n < 10 then [] else digits (n div 10)) @ [48 + of_nat (n mod 10)]"
  by (subst digits.simps) auto

lemma atoi_loop_append:
  "cstr m a (s @ t) \<Longrightarrow> \<forall>b \<in> set s. digit_of b \<noteq> None \<Longrightarrow>
    atoi_loop m a v = atoi_loop m (a + of_nat (length s)) (fold (\<lambda>b v. v * 10 + of_nat (the (digit_of b))) s v)"
proof (induction s arbitrary: a v)
  case (Cons x s)
  have x: "x \<noteq> 0" "m a = x" "cstr m (a + 1) (s @ t)" using cstr_Cons [of m a x "s @ t"] Cons.prems(1) by simp_all
  then have "atoi_loop m a v = atoi_loop m (a + 1) (v * 10 + of_nat (the (digit_of x)))"
    using Cons.prems(2) by (subst atoi_loop.simps) auto
  then show ?case using Cons.IH [OF x(3)] Cons.prems(2) by (simp add: algebra_simps)
qed simp

lemma fold_digits: "fold (\<lambda>b v. v * 10 + of_nat (the (digit_of b))) (digits n) 0 = (of_nat n :: u32)"
proof (induction n rule: digits.induct)
  case (1 n)
  have d: "digit_of (48 + of_nat (n mod 10)) = Some (n mod 10)" by (rule digit_of_digit) simp
  show ?case
  proof (cases "n < 10")
    case True
    then show ?thesis using d by (subst digits_split) simp
  next
    case False
    have "(of_nat (n div 10) * 10 + of_nat (n mod 10) :: u32) = of_nat n"
      by (metis mod_div_mult_eq add.commute of_nat_add of_nat_mult of_nat_numeral)
    then show ?thesis using 1 False d by (subst digits_split) simp
  qed
qed

lemma digits_set: "b \<in> set (digits n) \<Longrightarrow> digit_of b \<noteq> None \<and> b \<notin> {0, 9, 32, 43, 45}"
proof (induction n rule: digits.induct)
  case (1 n)
  have "b \<in> set (if n < 10 then [] else digits (n div 10)) \<or> b = 48 + of_nat (n mod 10)" using 1(2) by (subst (asm) digits_split) auto
  then show ?case using 1(1) digit_of_digit [of "n mod 10"] by (auto split: if_splits)
qed

lemma digits_nonempty: "digits n \<noteq> []"
  by (subst digits_split) simp

lemma skip_blanks_ok: "cstr m a (replicate k 32 @ t) \<Longrightarrow> t = [] \<or> hd t \<noteq> 32 \<and> hd t \<noteq> 9 \<Longrightarrow> skip_blanks m a = Some (a + of_nat k)"
proof (induction k arbitrary: a)
  case 0
  have "m a \<noteq> 32 \<and> m a \<noteq> 9" using 0 cstr_Cons by (cases t) (auto simp: cstr_Nil)
  then show ?case by (subst skip_blanks.simps) simp
next
  case (Suc k)
  have x: "m a = 32" "cstr m (a + 1) (replicate k 32 @ t)" using cstr_Cons [of m a 32 "replicate k 32 @ t"] Suc.prems(1) by simp_all
  then show ?case using Suc.IH [OF x(2) Suc.prems(2)] by (subst skip_blanks.simps) (simp add: algebra_simps)
qed

lemma cstr_append: "cstr m a (s @ t) \<Longrightarrow> cstr m (a + of_nat (length s)) t"
proof (induction s arbitrary: a)
  case (Cons x s)
  then have "cstr m (a + 1 + of_nat (length s)) t" using cstr_Cons [of m a x "s @ t"] by simp
  then show ?case by (simp add: algebra_simps)
qed simp

lemma atoi_loop_digits: "cstr m a (digits n) \<Longrightarrow> atoi_loop m a 0 = Some (of_nat n)"
proof -
  assume c: "cstr m a (digits n)"
  have "m (a + of_nat (length (digits n))) = 0" using cstr_append [of m a "digits n" "[]"] c by (simp add: cstr_Nil)
  then have "atoi_loop m (a + of_nat (length (digits n))) (of_nat n) = Some (of_nat n)" by (subst atoi_loop.simps) simp
  then show ?thesis using atoi_loop_append [of m a "digits n" "[]" 0] c digits_set [of _ n] fold_digits [of n] by simp
qed

section \<open>What the string functions compute\<close>

text \<open>C40. On zero-terminated strings \<open>s\<close> at \<open>a\<close> and \<open>t\<close> at \<open>b\<close> of kernel memory the string functions
  return and agree with the list operations: \<^verbatim>\<open>strlen\<close> is the length, \<^verbatim>\<open>strcmp\<close> the sign of the
  lexicographic comparison by unsigned bytes, \<^verbatim>\<open>strchr\<close> the first and \<^verbatim>\<open>strrchr\<close> the last position of a
  character (the terminator included) or NULL. Where the blocks are disjoint, \<^verbatim>\<open>strcpy\<close> writes exactly the
  string and its terminator, and \<^verbatim>\<open>strcat\<close> leaves exactly the concatenation at \<open>b\<close>.\<close>

theorem string_functions:
  assumes "cstr m a s" "cstr m b t" "length s + length t + 1 < 2 ^ 32"
  shows "strlen m a = Some (of_nat (length s)) \<and>
    strcmp m a b = Some (if s = t then 0 else if ord_class.lexordp s t then -1 else 1) \<and>
    strchr m a ch = Some (if word_of_int ch \<in> set (s @ [0])
      then Some (a + of_nat (length (takeWhile (\<lambda>x. x \<noteq> word_of_int ch) (s @ [0])))) else None) \<and>
    strrchr m a ch = Some (if word_of_int ch \<in> set (s @ [0])
      then Some (a + of_nat (Max {i. i \<le> length s \<and> (s @ [0]) ! i = word_of_int ch})) else None) \<and>
    (set (addrs d (length s + 1)) \<inter> set (addrs a (length s + 1)) = {} \<longrightarrow> strcpy d a m = Some (kwrite m d (s @ [0]))) \<and>
    (set (addrs b (length t + length s + 1)) \<inter> set (addrs a (length s + 1)) = {} \<longrightarrow>
      strcat b a m = Some (kwrite m b (t @ s @ [0])))"
proof -
  let ?c = "word_of_int ch :: byte"
  have len: "strlen m a = Some (of_nat (length s))" using strlen_loop_ok [of m a 0 s] assms(1) by (simp add: strlen_def)
  have cmp: "strcmp m a b = Some (if s = t then 0 else if ord_class.lexordp s t then -1 else 1)"
    using strcmp_loop_ok [of m a 0 s b t] assms(1,2) by (auto simp: strcmp_def)
  have "unat (of_nat (length s) + 1 :: u32) = length s + 1" using assms(3) by (simp add: unat_word_ariths unat_of_nat)
  moreover have nth: "m (a + of_nat i) = (s @ [0]) ! i" if "i < length s + 1" for i using cstr_nth [OF assms(1)] that by simp
  moreover have "(\<exists>i < length s + 1. m (a + of_nat i) = ?c) \<longleftrightarrow> ?c \<in> set (s @ [0])"
    using nth unfolding in_set_conv_nth by (metis length_append_singleton Suc_eq_plus1)
  moreover have "{i. i < length s + 1 \<and> m (a + of_nat i) = ?c} = {i. i \<le> length s \<and> (s @ [0]) ! i = ?c}"
    using nth by (auto simp: less_Suc_eq_le)
  ultimately have rchr: "strrchr m a ch = Some (if ?c \<in> set (s @ [0])
      then Some (a + of_nat (Max {i. i \<le> length s \<and> (s @ [0]) ! i = ?c})) else None)"
    using len by (simp add: strrchr_def strrchr_loop_ok)
  have cpy: "set (addrs d (length s + 1)) \<inter> set (addrs a (length s + 1)) = {} \<longrightarrow> strcpy d a m = Some (kwrite m d (s @ [0]))"
    using strcpy_loop_ok [of m a 0 s d] assms(1) by (simp add: strcpy_def)
  have cat: "set (addrs b (length t + length s + 1)) \<inter> set (addrs a (length s + 1)) = {} \<longrightarrow>
      strcat b a m = Some (kwrite m b (t @ s @ [0]))"
    using strcat_ok [OF assms(2,1)] assms(3) by (simp add: add.commute)
  show ?thesis using len cmp strchr_loop_ok [OF assms(1), of ?c] rchr cpy cat by (simp only: strchr_def)
qed

theorem string_functions_witness:
  "strcmp (kwrite (\<lambda>_. 0) 0x80001000 [97, 98]) 0x80001000 0x80002000 = Some 1 \<and>
   strrchr (kwrite (\<lambda>_. 0) 0x80001000 [97, 98]) 0x80001000 120 = Some None"
proof -
  let ?m = "kwrite (\<lambda>_. 0) 0x80001000 [97, 98]"
  have h: "cstr ?m 0x80001000 [97, 98]" "cstr ?m 0x80002000 []" "length [97 :: byte, 98] + length [] + 1 < 2 ^ 32"
    by (simp_all add: cstr_def kread_def kwrite_def upt_conv_Cons)
  show ?thesis using string_functions [OF h, of 120 0] by (simp add: lexordp_simps)
qed

text \<open>Parsing a printed number gives it back: for every \<open>n\<close> below 2 to the 31, \<^verbatim>\<open>atoi\<close> on any number of
  blanks, an optional sign and the decimal digits of \<open>n\<close> returns \<open>n\<close>, negated exactly when the sign is a minus.\<close>

theorem atoi_roundtrip:
  assumes "cstr m a (replicate k 32 @ sg @ digits n)" "sg \<in> {[], [43], [45]}" "n < 2 ^ 31"
  shows "atoi m a = Some (if sg = [45] then - int n else int n)"
proof -
  let ?b = "a + of_nat k"
  have "sg @ digits n \<noteq> []" "hd (sg @ digits n) \<notin> {32, 9}"
    using assms(2) digits_nonempty digits_set [of "hd (digits n)" n] by (auto simp: hd_append)
  then have sb: "skip_blanks m a = Some ?b" using skip_blanks_ok [OF assms(1)] by auto
  have c: "cstr m ?b (sg @ digits n)" using cstr_append [OF assms(1)] by simp
  have hd: "m ?b = hd (sg @ digits n)" using c cstr_Cons [of m ?b "hd (sg @ digits n)" "tl (sg @ digits n)"] \<open>sg @ digits n \<noteq> []\<close> by simp
  have s: "sint (of_nat n :: u32) = int n" "sint (- of_nat n :: u32) = - int n"
    using assms(3) sint_sbintrunc' [of "int n", where ?'a = 32] sint_sbintrunc' [of "- int n", where ?'a = 32]
    by (simp_all add: signed_take_bit_int_eq_self)
  show ?thesis
  proof (cases "sg = []")
    case True
    then have "m ?b \<noteq> 45 \<and> m ?b \<noteq> 43" using hd digits_set [of "m ?b" n] digits_nonempty by auto
    then show ?thesis using sb s c True atoi_loop_digits by (simp add: atoi_def)
  next
    case False
    then have "m ?b = hd sg" "cstr m (?b + 1) (digits n)" using assms(2) hd c cstr_append [of m ?b sg "digits n"] by auto
    then show ?thesis using sb s False assms(2) atoi_loop_digits by (auto simp: atoi_def)
  qed
qed

theorem atoi_roundtrip_witness:
  "atoi (kwrite (\<lambda>_. 0) 0x80001000 [32, 45, 52, 50]) 0x80001000 = Some (- 42)"
proof -
  have "digits 42 = [52, 50]" by (simp add: digits.simps)
  then have "cstr (kwrite (\<lambda>_. 0) 0x80001000 [32, 45, 52, 50]) 0x80001000 (replicate 1 32 @ [45] @ digits 42)"
    by (simp add: cstr_def kread_def kwrite_def upt_conv_Cons)
  from atoi_roundtrip [OF this] show ?thesis by simp
qed

end
