(* ===== verification/Proc.thy ===== *)
theory Proc
  imports Synch Uio
begin

text \<open>
  Processes, \<^verbatim>\<open>kern/proc/proc.c\<close>, with the creation and the exit of threads from
  \<^verbatim>\<open>kern/thread/thread.c\<close>. Process structures are records in a store, reached by their address; the
  process table maps pids to addresses. The spinlocks \<^verbatim>\<open>p_lock\<close> and \<^verbatim>\<open>processTable.lk\<close> are held over
  straight-line code only, so each such section is one step here. Addresses of new structures and the
  success of every \<^verbatim>\<open>kmalloc\<close> are arguments.
\<close>

section \<open>State\<close>

definition MAX_PROC :: nat where "MAX_PROC = 100"
definition OPEN_MAX :: nat where "OPEN_MAX = 128"

record openfile =
  of_vn :: "vnode option"
  of_offset :: int
  countRef :: u32

record proc =
  p_name :: string
  p_numthreads :: u32
  p_addrspace :: "(nat \<times> addrspace) option"
  p_cwd :: "vnode option"
  p_status :: int
  p_pid :: pid_t
  p_sem :: "semaphore option"
  fileTable :: "nat option list"

record 'f psys =
  procs :: "nat \<Rightarrow> proc option"
  proctab :: "nat option list"
  last_i :: nat
  pt_active :: bool
  kproc :: "nat option"
  systemFileTable :: "openfile list"
  kmemory :: "u32 \<Rightarrow> byte"
  psch :: "'f sched"

definition with_proc :: "nat \<Rightarrow> 'f psys \<Rightarrow> (proc \<Rightarrow> 'b res) \<Rightarrow> 'b res" where
  "with_proc a S f = (case procs S a of None \<Rightarrow> Inl NullDeref | Some p \<Rightarrow> f p)"

definition put_proc :: "nat \<Rightarrow> proc \<Rightarrow> 'f psys \<Rightarrow> 'f psys" where
  "put_proc a p S = S\<lparr>procs := (procs S)(a \<mapsto> p)\<rparr>"

definition on_vm :: "('f machine \<Rightarrow> 'f machine res) \<Rightarrow> 'f psys \<Rightarrow> 'f psys res" where
  "on_vm f S = bindR (f (vm (psch S))) (\<lambda>m. Inr (S\<lparr>psch := (psch S)\<lparr>vm := m\<rparr>\<rparr>))"

text \<open>\<^verbatim>\<open>curproc\<close> is the process of the current thread.\<close>

definition curproc :: "'f psys \<Rightarrow> nat option" where
  "curproc S = t_proc (psch S) (curthread (psch S))"

text \<open>The scheduler keeps the address space to activate with each thread.\<close>

definition set_space :: "thread \<Rightarrow> addrspace option \<times> pid_t \<Rightarrow> 'f psys \<Rightarrow> 'f psys" where
  "set_space t sp S = S\<lparr>psch := (psch S)\<lparr>t_space := (t_space (psch S))(t := sp)\<rparr>\<rparr>"

section \<open>Process identifiers\<close>

definition proc_search_pid :: "pid_t \<Rightarrow> 'f psys \<Rightarrow> nat res" where
  "proc_search_pid pid S =
     (if \<not> (0 \<le> pid \<and> pid < int MAX_PROC) then Inl Kassert
      else case proctab S ! nat pid of None \<Rightarrow> Inl NullDeref
      | Some a \<Rightarrow> with_proc a S (\<lambda>p. if p_pid p \<noteq> pid then Inl Kassert else Inr a))"

definition pid_next :: "nat \<Rightarrow> nat" where
  "pid_next i = (if i + 1 > MAX_PROC then 1 else i + 1)"

text \<open>
  The circular search. It ends when it is back at the last allocated pid; \<open>None\<close> says that it would go on
  for ever, after more rounds than there are pids.
\<close>

fun pid_loop :: "nat \<Rightarrow> nat \<Rightarrow> nat \<Rightarrow> nat option list \<Rightarrow> nat option option" where
  "pid_loop fuel i li tab =
     (if i = li then Some None
      else if tab ! i = None then Some (Some i)
      else case fuel of 0 \<Rightarrow> None | Suc f \<Rightarrow> pid_loop f (pid_next i) li tab)"

declare pid_loop.simps [simp del]

definition proc_init_waitpid :: "bool \<times> bool \<times> bool \<Rightarrow> nat \<Rightarrow> splk \<Rightarrow> nat \<Rightarrow> proc \<Rightarrow> 'f psys \<Rightarrow> 'f psys res" where
  "proc_init_waitpid oks w lk a p S =
     (case pid_loop MAX_PROC (pid_next (last_i S)) (last_i S) (proctab S) of
        None \<Rightarrow> Inl Diverges
      | Some None \<Rightarrow> Inl (Panic ''too many processes. proc table is full'')
      | Some (Some i) \<Rightarrow>
          let (ok1, ok2, ok3) = oks;
              (sem, s) = sem_create ok1 ok2 ok3 w lk 0 (psch S)
          in Inr (put_proc a (p\<lparr>p_pid := int i, p_status := 0, p_sem := sem\<rparr>)
               (S\<lparr>proctab := (proctab S)[i := Some a], last_i := i, psch := s\<rparr>)))"

definition proc_end_waitpid :: "proc \<Rightarrow> 'f psys \<Rightarrow> 'f psys res" where
  "proc_end_waitpid p S =
     (if \<not> (0 < p_pid p \<and> p_pid p \<le> int MAX_PROC) then Inl Kassert
      else bindR (sem_destroy (p_sem p) (psch S)) (\<lambda>_.
      Inr (S\<lparr>proctab := (proctab S)[nat (p_pid p) := None]\<rparr>)))"

section \<open>Creating and destroying processes\<close>

definition proc_create :: "bool \<times> bool \<Rightarrow> bool \<times> bool \<times> bool \<Rightarrow> nat \<Rightarrow> nat \<Rightarrow> splk \<Rightarrow> string \<Rightarrow> 'f psys \<Rightarrow> (nat option \<times> 'f psys) res" where
  "proc_create oks semoks a w lk name S =
     (if \<not> fst oks then Inr (None, S)
      else if \<not> snd oks then Inr (None, S)
      else bindR (proc_init_waitpid semoks w lk a
          \<lparr>p_name = name, p_numthreads = 0, p_addrspace = None, p_cwd = None, p_status = 0, p_pid = 0, p_sem = None,
           fileTable = replicate OPEN_MAX None\<rparr> S) (\<lambda>S. Inr (Some a, S)))"

definition proc_setas :: "(nat \<times> addrspace) option \<Rightarrow> 'f psys \<Rightarrow> ((nat \<times> addrspace) option \<times> 'f psys) res" where
  "proc_setas newas S =
     (case curproc S of None \<Rightarrow> Inl Kassert
      | Some a \<Rightarrow> with_proc a S (\<lambda>p.
          Inr (p_addrspace p, set_space (curthread (psch S)) (map_option snd newas, p_pid p)
            (put_proc a (p\<lparr>p_addrspace := newas\<rparr>) S))))"

definition proc_getas :: "'f psys \<Rightarrow> (nat \<times> addrspace) option res" where
  "proc_getas S =
     (case curproc S of None \<Rightarrow> Inr None | Some a \<Rightarrow> with_proc a S (\<lambda>p. Inr (p_addrspace p)))"

definition proc_destroy :: "nat \<Rightarrow> 'f psys \<Rightarrow> 'f psys res" where
  "proc_destroy a S =
     (if kproc S = Some a then Inl Kassert
      else with_proc a S (\<lambda>p.
      bindR (case p_cwd p of None \<Rightarrow> Inr S
             | Some v \<Rightarrow> on_vm (vnode_decref v) (put_proc a (p\<lparr>p_cwd := None\<rparr>) S)) (\<lambda>S.
      bindR (case p_addrspace p of None \<Rightarrow> Inr S
             | Some (_, as) \<Rightarrow>
                 bindR (if curproc S = Some a
                        then bindR (proc_setas None S) (\<lambda>(_, S). Inr (S\<lparr>psch := (psch S)\<lparr>vm := as_deactivate (vm (psch S))\<rparr>\<rparr>))
                        else with_proc a S (\<lambda>p. Inr (put_proc a (p\<lparr>p_addrspace := None\<rparr>) S)))
                   (on_vm (as_destroy as (p_pid p)))) (\<lambda>S.
      if p_numthreads p \<noteq> 0 then Inl Kassert
      else bindR (proc_end_waitpid p S) (\<lambda>S. Inr (S\<lparr>procs := (procs S)(a := None)\<rparr>))))))"

definition proc_bootstrap :: "bool \<times> bool \<Rightarrow> bool \<times> bool \<times> bool \<Rightarrow> nat \<Rightarrow> nat \<Rightarrow> splk \<Rightarrow> 'f psys \<Rightarrow> 'f psys res" where
  "proc_bootstrap oks semoks a w lk S =
     bindR (proc_create oks semoks a w lk ''[kernel]'' S) (\<lambda>(kp, S).
     if kp = None then Inl (Panic ''proc_create for kproc failed'')
     else Inr (S\<lparr>kproc := kp, pt_active := True\<rparr>))"

definition proc_create_runprogram :: "bool \<times> bool \<Rightarrow> bool \<times> bool \<times> bool \<Rightarrow> nat \<Rightarrow> nat \<Rightarrow> splk \<Rightarrow> string \<Rightarrow> 'f psys \<Rightarrow> (nat option \<times> 'f psys) res" where
  "proc_create_runprogram oks semoks a w lk name S =
     bindR (proc_create oks semoks a w lk name S) (\<lambda>(np, S).
     if np = None then Inr (None, S)
     else case curproc S of None \<Rightarrow> Inl NullDeref
     | Some c \<Rightarrow> with_proc c S (\<lambda>cp. with_proc a S (\<lambda>p.
         case p_cwd cp of None \<Rightarrow> Inr (Some a, S)
         | Some v \<Rightarrow> bindR (on_vm (\<lambda>m. Inr (vnode_incref v m)) S) (\<lambda>S. Inr (Some a, put_proc a (p\<lparr>p_cwd := Some v\<rparr>) S)))))"

section \<open>Threads of a process\<close>

definition proc_addthread :: "nat \<Rightarrow> thread \<Rightarrow> 'f psys \<Rightarrow> (int \<times> 'f psys) res" where
  "proc_addthread a t S =
     (if t_proc (psch S) t \<noteq> None then Inl Kassert
      else with_proc a S (\<lambda>p.
      Inr (0, set_space t (map_option snd (p_addrspace p), p_pid p)
        (put_proc a (p\<lparr>p_numthreads := p_numthreads p + 1\<rparr>)
          (S\<lparr>psch := (psch S)\<lparr>t_proc := (t_proc (psch S))(t := Some a)\<rparr>\<rparr>)))))"

definition proc_remthread :: "thread \<Rightarrow> 'f psys \<Rightarrow> 'f psys res" where
  "proc_remthread t S =
     (case t_proc (psch S) t of None \<Rightarrow> Inl Kassert
      | Some a \<Rightarrow> with_proc a S (\<lambda>p.
          if \<not> p_numthreads p > 0 then Inl Kassert
          else Inr (set_space t (None, 0) (put_proc a (p\<lparr>p_numthreads := p_numthreads p - 1\<rparr>)
            (S\<lparr>psch := (psch S)\<lparr>t_proc := (t_proc (psch S))(t := None)\<rparr>\<rparr>)))))"

definition thread_create :: "bool \<times> bool \<Rightarrow> thread \<Rightarrow> 'f sched \<Rightarrow> (thread option \<times> 'f sched) res" where
  "thread_create oks t s =
     (if \<not> fst oks then Inr (None, s)
      else if \<not> snd oks then Inr (None, s)
      else bindR (threadlistnode_init (tls s) (Some t)) (\<lambda>st.
      Inr (Some t, s\<lparr>t_state := (t_state s)(t := S_READY), tls := st, t_proc := (t_proc s)(t := None)\<rparr>)))"

definition thread_fork :: "bool \<times> bool \<Rightarrow> bool \<Rightarrow> thread \<Rightarrow> nat option \<Rightarrow> 'f psys \<Rightarrow> (int \<times> 'f psys) res" where
  "thread_fork oks stackok t proc S =
     bindR (thread_create oks t (psch S)) (\<lambda>(newthread, s).
     let S = S\<lparr>psch := s\<rparr> in
     if newthread = None then Inr (ENOMEM, S)
     else if \<not> stackok then bindR (thread_destroy t (psch S)) (\<lambda>s. Inr (ENOMEM, S\<lparr>psch := s\<rparr>))
     else
       let S = S\<lparr>psch := (psch S)\<lparr>t_cpu := (t_cpu (psch S))(t := t_cpu (psch S) (curthread (psch S)))\<rparr>\<rparr> in
       case (if proc = None then curproc S else proc) of None \<Rightarrow> Inl NullDeref
       | Some a \<Rightarrow>
           bindR (proc_addthread a t S) (\<lambda>(result, S).
           if result \<noteq> 0 then bindR (thread_destroy t (psch S)) (\<lambda>s. Inr (result, S\<lparr>psch := s\<rparr>))
           else bindR (thread_make_runnable t False (psch S)) (\<lambda>s. Inr (0, S\<lparr>psch := s\<rparr>))))"

text \<open>\<^verbatim>\<open>thread_exit\<close> ends in the context switch away from the thread.\<close>

definition thread_exit :: "'f psys \<Rightarrow> (switch_result \<times> 'f psys) res" where
  "thread_exit S =
     (let cur = curthread (psch S) in
      bindR (if t_proc (psch S) cur \<noteq> None then proc_remthread cur S else Inr S) (\<lambda>S.
      if t_proc (psch S) cur \<noteq> None then Inl Kassert
      else bindR (thread_switch S_ZOMBIE 0 (Wlock 0) (psch S)) (\<lambda>(r, s). Inr (r, S\<lparr>psch := s\<rparr>))))"

section \<open>Waiting for the end of a process\<close>

text \<open>\<open>None\<close> says that the caller sleeps on the semaphore.\<close>

definition proc_wait :: "nat \<Rightarrow> 'f psys \<Rightarrow> (int option \<times> 'f psys) res" where
  "proc_wait a S =
     (if kproc S = Some a then Inl Kassert
      else with_proc a S (\<lambda>p.
      case p_sem p of None \<Rightarrow> Inl Kassert
      | Some sem \<Rightarrow>
          bindR (P sem (psch S)) (\<lambda>(got, sem, s).
          let S = put_proc a (p\<lparr>p_sem := Some sem\<rparr>) (S\<lparr>psch := s\<rparr>) in
          if \<not> got then Inr (None, S)
          else bindR (proc_destroy a S) (\<lambda>S. Inr (Some (p_status p), S)))))"

definition proc_signal_end :: "nat \<Rightarrow> 'f psys \<Rightarrow> 'f psys res" where
  "proc_signal_end a S =
     with_proc a S (\<lambda>p.
     case p_sem p of None \<Rightarrow> Inl Kassert
     | Some sem \<Rightarrow> bindR (V sem (psch S)) (\<lambda>(sem, s).
         Inr (put_proc a (p\<lparr>p_sem := Some sem\<rparr>) (S\<lparr>psch := s\<rparr>))))"

section \<open>File tables\<close>

definition openfileIncrRefCount :: "nat option \<Rightarrow> openfile list \<Rightarrow> openfile list" where
  "openfileIncrRefCount f T =
     (case f of None \<Rightarrow> T | Some i \<Rightarrow> T[i := (T ! i)\<lparr>countRef := countRef (T ! i) + 1\<rparr>])"

text \<open>The loop of \<^verbatim>\<open>proc_file_table_copy\<close> over the file descriptors.\<close>

fun table_copy_loop :: "nat \<Rightarrow> nat option list \<Rightarrow> nat option list \<Rightarrow> openfile list \<Rightarrow> nat option list \<times> openfile list" where
  "table_copy_loop 0 src dst T = (dst, T)"
| "table_copy_loop (Suc n) src dst T =
     (let fd = OPEN_MAX - Suc n in
      table_copy_loop n src (dst[fd := src ! fd]) (openfileIncrRefCount (src ! fd) T))"

definition proc_file_table_copy :: "nat \<Rightarrow> nat \<Rightarrow> 'f psys \<Rightarrow> 'f psys res" where
  "proc_file_table_copy psrc pdest S =
     with_proc psrc S (\<lambda>p. with_proc pdest S (\<lambda>q.
     let (dst, T) = table_copy_loop OPEN_MAX (fileTable p) (fileTable q) (systemFileTable S)
     in Inr (put_proc pdest (q\<lparr>fileTable := dst\<rparr>) (S\<lparr>systemFileTable := T\<rparr>))))"

end
