(* ===== verification/Syscalls.thy ===== *)
theory Syscalls
  imports Proc
begin

text \<open>
  The system calls on files and processes, \<^verbatim>\<open>kern/syscall/file_syscalls.c\<close> and
  \<^verbatim>\<open>kern/syscall/proc_syscalls.c\<close>, as the configuration compiles them (files, waitpid and fork on, no
  kernel buffer). \<^verbatim>\<open>VOP_READ\<close> and \<^verbatim>\<open>VOP_WRITE\<close> on a descriptor are arguments, as is the result of
  \<^verbatim>\<open>vfs_open\<close>. A result \<^verbatim>\<open>Gone\<close> means that the process was ended by a write to read-only memory.
\<close>

section \<open>Open files\<close>

definition SYSTEM_OPEN_MAX :: nat where "SYSTEM_OPEN_MAX = 10 * OPEN_MAX"
definition STDIN_FILENO :: int where "STDIN_FILENO = 0"
definition STDOUT_FILENO :: int where "STDOUT_FILENO = 1"
definition STDERR_FILENO :: int where "STDERR_FILENO = 2"

type_synonym 'f vop = "vnode \<Rightarrow> uio \<Rightarrow> 'f kstate \<Rightarrow> (copy_result \<times> uio \<times> 'f kstate) res"

definition kstate_of :: "proc \<Rightarrow> 'f psys \<Rightarrow> 'f kstate" where
  "kstate_of p S = \<lparr>kmem = kmemory S, k_as = p_addrspace p, k_mach = vm (psch S)\<rparr>"

definition put_kstate :: "nat \<Rightarrow> proc \<Rightarrow> 'f kstate \<Rightarrow> 'f psys \<Rightarrow> 'f psys" where
  "put_kstate c p k S = put_proc c (p\<lparr>p_addrspace := k_as k\<rparr>) (S\<lparr>kmemory := kmem k, psch := (psch S)\<lparr>vm := k_mach k\<rparr>\<rparr>)"

text \<open>Looking up a descriptor. The check lets \<^verbatim>\<open>OPEN_MAX\<close> itself through, which is past the end of the table.\<close>

definition fd_lookup :: "int \<Rightarrow> proc \<Rightarrow> nat option res" where
  "fd_lookup fd p =
     (if fd < 0 \<or> fd > int OPEN_MAX then Inr None
      else if length (fileTable p) \<le> nat fd then Inl OutOfBounds
      else Inr (fileTable p ! nat fd))"

text \<open>Reading and writing differ in the direction of the descriptor only.\<close>

definition file_rw :: "uio_rw \<Rightarrow> 'f vop \<Rightarrow> int \<Rightarrow> u32 \<Rightarrow> u32 \<Rightarrow> 'f psys \<Rightarrow> (copy_result \<times> 'f psys) res" where
  "file_rw rw vop fd buf_ptr sz S =
     (case curproc S of None \<Rightarrow> Inl NullDeref
      | Some c \<Rightarrow> with_proc c S (\<lambda>p.
          bindR (fd_lookup fd p) (\<lambda>f.
          case f of None \<Rightarrow> Inr (Ret (-1), S)
          | Some i \<Rightarrow>
              let f = systemFileTable S ! i in
              case of_vn f of None \<Rightarrow> Inr (Ret (-1), S)
              | Some vn \<Rightarrow>
                  let u = \<lparr>uio_iov = [\<lparr>iov_base = buf_ptr, iov_len = sz\<rparr>], uio_iovcnt = 1, uio_offset = of_offset f,
                    uio_resid = sz, uio_segflg = UIO_USERISPACE, uio_rw = rw, uio_space = map_option fst (p_addrspace p)\<rparr> in
                  bindR (vop vn u (kstate_of p S)) (\<lambda>(result, u, k).
                  let S = put_kstate c p k S in
                  if result \<noteq> Ret 0 then Inr (result, S)
                  else Inr (Ret (sint (sz - uio_resid u)),
                    S\<lparr>systemFileTable := (systemFileTable S)[i := f\<lparr>of_offset := uio_offset u\<rparr>]\<rparr>)))))"

definition file_read :: "'f vop \<Rightarrow> int \<Rightarrow> u32 \<Rightarrow> u32 \<Rightarrow> 'f psys \<Rightarrow> (copy_result \<times> 'f psys) res" where
  "file_read = file_rw UIO_READ"

definition file_write :: "'f vop \<Rightarrow> int \<Rightarrow> u32 \<Rightarrow> u32 \<Rightarrow> 'f psys \<Rightarrow> (copy_result \<times> 'f psys) res" where
  "file_write = file_rw UIO_WRITE"

text \<open>The two searches of \<^verbatim>\<open>sys_open\<close>.\<close>

fun free_slot :: "openfile list \<Rightarrow> nat option" where
  "free_slot [] = None"
| "free_slot (f # fs) = (if of_vn f = None then Some 0 else map_option Suc (free_slot fs))"

fun free_fd :: "nat option list \<Rightarrow> nat option" where
  "free_fd [] = None"
| "free_fd (x # xs) = (if x = None then Some 0 else map_option Suc (free_fd xs))"

text \<open>The result, the error number for the caller, and the state.\<close>

definition sys_open :: "int + vnode \<Rightarrow> 'f psys \<Rightarrow> (int \<times> int \<times> 'f psys) res" where
  "sys_open opened S =
     (case opened of Inl _ \<Rightarrow> Inr (-1, ENOENT, S)
      | Inr v \<Rightarrow>
          bindR (on_vm (\<lambda>m. Inr (vnode_incref v m)) S) (\<lambda>S.
          case free_slot (systemFileTable S) of
            None \<Rightarrow> bindR (on_vm (vfs_close v) S) (\<lambda>S. Inr (-1, ENFILE, S))
          | Some i \<Rightarrow>
              let S = S\<lparr>systemFileTable := (systemFileTable S)[i := \<lparr>of_vn = Some v, of_offset = 0, countRef = 1\<rparr>]\<rparr> in
              case curproc S of None \<Rightarrow> Inl NullDeref
              | Some c \<Rightarrow> with_proc c S (\<lambda>p.
                  let first = nat STDERR_FILENO + 1 in
                  case free_fd (drop first (fileTable p)) of
                    Some j \<Rightarrow> Inr (int (first + j), 0, put_proc c (p\<lparr>fileTable := (fileTable p)[first + j := Some i]\<rparr>) S)
                  | None \<Rightarrow> bindR (on_vm (vfs_close v) S) (\<lambda>S. Inr (-1, EMFILE, S)))))"

definition sys_close :: "int \<Rightarrow> 'f psys \<Rightarrow> (int \<times> 'f psys) res" where
  "sys_close fd S =
     (case curproc S of None \<Rightarrow> Inl NullDeref
      | Some c \<Rightarrow> with_proc c S (\<lambda>p.
          bindR (fd_lookup fd p) (\<lambda>f.
          case f of None \<Rightarrow> Inr (-1, S)
          | Some i \<Rightarrow>
              let S = put_proc c (p\<lparr>fileTable := (fileTable p)[nat fd := None]\<rparr>) S;
                  f = systemFileTable S ! i;
                  f = f\<lparr>countRef := countRef f - 1\<rparr> in
              if countRef f > 0 then Inr (0, S\<lparr>systemFileTable := (systemFileTable S)[i := f]\<rparr>)
              else
                let S = S\<lparr>systemFileTable := (systemFileTable S)[i := f\<lparr>of_vn := None\<rparr>]\<rparr> in
                case of_vn f of None \<Rightarrow> Inr (-1, S)
                | Some vn \<Rightarrow> bindR (on_vm (vfs_close vn) S) (\<lambda>S. Inr (0, S)))))"

section \<open>Dereferencing user pointers in the kernel\<close>

text \<open>
  The console path and \<^verbatim>\<open>sys_waitpid\<close> use user pointers directly. An address of the directly mapped kernel
  segments reaches kernel memory; a fault there is fatal.
\<close>

definition MIPS_KSEG2 :: u32 where "MIPS_KSEG2 = 0xc0000000"

definition uload :: "'f vnode_ops \<Rightarrow> u32 \<Rightarrow> 'f psys \<Rightarrow> ((int + byte) \<times> 'f psys) res" where
  "uload ops a S =
     (if a \<ge> MIPS_KSEG2 then Inl (Panic ''Fatal exception'')
      else if a \<ge> USERSPACETOP then Inr (Inr (kmemory S a), S)
      else case curproc S of None \<Rightarrow> Inl (Panic ''Fatal exception'')
      | Some c \<Rightarrow> with_proc c S (\<lambda>p.
          case p_addrspace p of None \<Rightarrow> Inl (Panic ''Fatal exception'')
          | Some (q, as) \<Rightarrow>
              bindR (kload ops (p_pid p) a as (vm (psch S))) (\<lambda>(r, as, m).
              let S = put_kstate c p ((kstate_of p S)\<lparr>k_as := Some (q, as), k_mach := m\<rparr>) S in
              case r of Inr b \<Rightarrow> Inr (Inr b, S)
              | Inl (Exits e) \<Rightarrow> Inr (Inl e, S)
              | Inl _ \<Rightarrow> Inl (Panic ''Fatal exception''))))"

definition ustore :: "'f vnode_ops \<Rightarrow> u32 \<Rightarrow> byte \<Rightarrow> 'f psys \<Rightarrow> ((int + unit) \<times> 'f psys) res" where
  "ustore ops a b S =
     (if a \<ge> MIPS_KSEG2 then Inl (Panic ''Fatal exception'')
      else if a \<ge> USERSPACETOP then Inr (Inr (), S\<lparr>kmemory := (kmemory S)(a := b)\<rparr>)
      else case curproc S of None \<Rightarrow> Inl (Panic ''Fatal exception'')
      | Some c \<Rightarrow> with_proc c S (\<lambda>p.
          case p_addrspace p of None \<Rightarrow> Inl (Panic ''Fatal exception'')
          | Some (q, as) \<Rightarrow>
              bindR (kstore ops (p_pid p) a b as (vm (psch S))) (\<lambda>(r, as, m).
              let S = put_kstate c p ((kstate_of p S)\<lparr>k_as := Some (q, as), k_mach := m\<rparr>) S in
              case r of Inr _ \<Rightarrow> Inr (Inr (), S)
              | Inl (Exits e) \<Rightarrow> Inr (Inl e, S)
              | Inl _ \<Rightarrow> Inl (Panic ''Fatal exception''))))"

fun ustores :: "'f vnode_ops \<Rightarrow> u32 \<Rightarrow> byte list \<Rightarrow> 'f psys \<Rightarrow> ((int + unit) \<times> 'f psys) res" where
  "ustores ops a [] S = Inr (Inr (), S)"
| "ustores ops a (b # bs) S =
     bindR (ustore ops a b S) (\<lambda>(r, S). case r of Inl e \<Rightarrow> Inr (Inl e, S) | Inr _ \<Rightarrow> ustores ops (a + 1) bs S)"

section \<open>Reading and writing\<close>

text \<open>The console: the bytes written so far, and the characters that \<^verbatim>\<open>getch\<close> will return.\<close>

fun putch_loop :: "'f vnode_ops \<Rightarrow> nat \<Rightarrow> u32 \<Rightarrow> byte list \<Rightarrow> 'f psys \<Rightarrow> ((int + unit) \<times> byte list \<times> 'f psys) res" where
  "putch_loop ops 0 p out S = Inr (Inr (), out, S)"
| "putch_loop ops (Suc n) p out S =
     bindR (uload ops p S) (\<lambda>(r, S).
     case r of Inl e \<Rightarrow> Inr (Inl e, out, S) | Inr b \<Rightarrow> putch_loop ops n (p + 1) (out @ [b]) S)"

definition sys_write :: "'f vnode_ops \<Rightarrow> 'f vop \<Rightarrow> int \<Rightarrow> u32 \<Rightarrow> u32 \<Rightarrow> 'f psys \<Rightarrow> (copy_result \<times> byte list \<times> 'f psys) res" where
  "sys_write ops vop fd buf_ptr sz S =
     (if fd \<noteq> STDOUT_FILENO \<and> fd \<noteq> STDERR_FILENO
      then bindR (file_write vop fd buf_ptr sz S) (\<lambda>(r, S). Inr (r, [], S))
      else bindR (putch_loop ops (nat (sint sz)) buf_ptr [] S) (\<lambda>(r, out, S).
        Inr (case r of Inl e \<Rightarrow> Gone e | Inr _ \<Rightarrow> Ret (sint sz), out, S)))"

text \<open>Characters are signed, so a byte of 128 or more ends the loop.\<close>

fun getch_loop :: "'f vnode_ops \<Rightarrow> (nat \<Rightarrow> byte) \<Rightarrow> nat \<Rightarrow> nat \<Rightarrow> u32 \<Rightarrow> 'f psys \<Rightarrow> ((int + nat) \<times> 'f psys) res" where
  "getch_loop ops inp i 0 p S = Inr (Inr i, S)"
| "getch_loop ops inp i (Suc n) p S =
     bindR (ustore ops p (inp i) S) (\<lambda>(r, S).
     case r of Inl e \<Rightarrow> Inr (Inl e, S)
     | Inr _ \<Rightarrow> if sint (inp i) < 0 then Inr (Inr i, S) else getch_loop ops inp (i + 1) n (p + 1) S)"

definition sys_read :: "'f vnode_ops \<Rightarrow> 'f vop \<Rightarrow> (nat \<Rightarrow> byte) \<Rightarrow> int \<Rightarrow> u32 \<Rightarrow> u32 \<Rightarrow> 'f psys \<Rightarrow> (copy_result \<times> 'f psys) res" where
  "sys_read ops vop inp fd buf_ptr sz S =
     (if fd \<noteq> STDIN_FILENO then file_read vop fd buf_ptr sz S
      else bindR (getch_loop ops inp 0 (nat (sint sz)) buf_ptr S) (\<lambda>(r, S).
        Inr (case r of Inl e \<Rightarrow> Gone e | Inr i \<Rightarrow> Ret (if i < nat (sint sz) then int i else sint sz), S)))"

section \<open>Processes\<close>

definition sys__exit :: "int \<Rightarrow> 'f psys \<Rightarrow> (switch_result \<times> 'f psys) res" where
  "sys__exit status S =
     (case curproc S of None \<Rightarrow> Inl NullDeref
      | Some c \<Rightarrow> with_proc c S (\<lambda>p.
          bindR (proc_remthread (curthread (psch S)) (put_proc c (p\<lparr>p_status := status mod 256\<rparr>) S)) (\<lambda>S.
          bindR (proc_signal_end c S) thread_exit)))"

text \<open>\<open>None\<close> as the result says that the caller sleeps; the status is stored as a big-endian word.\<close>

definition sys_waitpid :: "'f vnode_ops \<Rightarrow> pid_t \<Rightarrow> u32 \<Rightarrow> 'f psys \<Rightarrow> (copy_result option \<times> 'f psys) res" where
  "sys_waitpid ops pid statusp S =
     bindR (proc_search_pid pid S) (\<lambda>a.
     bindR (proc_wait a S) (\<lambda>(r, S).
     case r of None \<Rightarrow> Inr (None, S)
     | Some st \<Rightarrow>
         if statusp = 0 then Inr (Some (Ret pid), S)
         else if statusp AND 3 \<noteq> 0 then Inl (Panic ''Fatal exception'')
         else bindR (ustores ops statusp [0, 0, 0, word_of_int st] S) (\<lambda>(r, S).
           Inr (Some (case r of Inl e \<Rightarrow> Gone e | Inr _ \<Rightarrow> Ret pid), S))))"

definition sys_getpid :: "'f psys \<Rightarrow> pid_t res" where
  "sys_getpid S = (case curproc S of None \<Rightarrow> Inl Kassert | Some c \<Rightarrow> with_proc c S (\<lambda>p. Inr (p_pid p)))"

text \<open>What the allocations of \<^verbatim>\<open>sys_fork\<close> return.\<close>

record fork_env =
  fe_proc :: "bool \<times> bool"
  fe_sem :: "bool \<times> bool \<times> bool"
  fe_a :: nat
  fe_w :: nat
  fe_lk :: splk
  fe_as :: bool
  fe_segs :: "nat \<Rightarrow> bool"
  fe_q :: nat
  fe_tf :: bool
  fe_thread :: "bool \<times> bool"
  fe_stack :: bool
  fe_t :: thread

definition sys_fork :: "fork_env \<Rightarrow> 'f psys \<Rightarrow> (int \<times> pid_t \<times> 'f psys) res" where
  "sys_fork e S =
     (case curproc S of None \<Rightarrow> Inl Kassert
      | Some c \<Rightarrow> with_proc c S (\<lambda>cp.
          bindR (proc_create_runprogram (fe_proc e) (fe_sem e) (fe_a e) (fe_w e) (fe_lk e) (p_name cp) S) (\<lambda>(newp, S).
          if newp = None then Inr (ENOMEM, 0, S)
          else case p_addrspace cp of None \<Rightarrow> Inl NullDeref
          | Some (_, old) \<Rightarrow>
              bindR (as_copy (fe_as e) (fe_segs e) old) (\<lambda>(_, newas).
              with_proc (fe_a e) S (\<lambda>np.
              case newas of None \<Rightarrow> bindR (proc_destroy (fe_a e) S) (\<lambda>S. Inr (ENOMEM, 0, S))
              | Some as \<Rightarrow>
                  let S = put_proc (fe_a e) (np\<lparr>p_addrspace := Some (fe_q e, as)\<rparr>) S in
                  bindR (proc_file_table_copy (fe_a e) c S) (\<lambda>S.
                  if \<not> fe_tf e then bindR (proc_destroy (fe_a e) S) (\<lambda>S. Inr (ENOMEM, 0, S))
                  else bindR (thread_fork (fe_thread e) (fe_stack e) (fe_t e) (Some (fe_a e)) S) (\<lambda>(result, S).
                  if result \<noteq> 0 then bindR (proc_destroy (fe_a e) S) (\<lambda>S. Inr (ENOMEM, 0, S))
                  else Inr (0, p_pid np, S))))))))"

end
