(* ===== verification/Proc_Threads.thy ===== *)
theory Proc_Threads
  imports Syscalls
begin

text \<open>
  New wait channels and new threads keep the invariant of the scheduler; the pieces of \<^verbatim>\<open>sys_fork\<close>.
\<close>

section \<open>New channels and threads\<close>

lemma sched_inv_vm:
  "sched_inv s W T L \<Longrightarrow> sched_inv (s\<lparr>vm := m\<rparr>) W T L"
  by (simp add: sched_inv_def queues_ok_def running_ok_def)

lemma klists_insert: "klists n (insert w W) = insert (Wchan w) (klists n W)"
  by (auto simp: klists_def)

lemma wchan_create_ok:
  assumes "sched_inv s W T L" "w \<notin> W"
  shows "\<exists>s'. wchan_create True w s = (True, s') \<and> sched_inv s' (insert w W) T (L(Wchan w := [])) \<and> same_rest s s' \<and> t_cpu s' = t_cpu s"
proof -
  note I = sched_invD [OF assms(1)] and Q = queues_okD [OF sched_invD(1) [OF assms(1)]]
  let ?s = "s\<lparr>tls := threadlist_init (tls s) (Wchan w)\<rparr>" and ?L = "L(Wchan w := [])"
  have "tl_rep (tls ?s) (klists (numcpus ?s) (insert w W)) T ?L"
    using threadlist_init_ok [OF Q(1), of "Wchan w"] assms(2) by (simp add: klists_insert)
  then have "queues_ok ?s (insert w W) T ?L"
    unfolding queues_ok_def using Q(2-5) assms(2) by auto
  moreover have "running_ok ?s (insert w W) T ?L"
    using I(2) by (auto simp: running_ok_def klists_insert)
  ultimately show ?thesis using assms(1) by (auto simp: wchan_create_def sched_inv_def same_rest_def)
qed

lemma thread_create_ok:
  assumes "sched_inv s W T L" "t \<notin> T" "card T + 1 < 2 ^ 32" "c < numcpus s"
  shows "\<exists>st. thread_create (True, True) t s = Inr (Some t, s\<lparr>t_state := (t_state s)(t := S_READY), tls := st, t_proc := (t_proc s)(t := None)\<rparr>) \<and>
    sched_inv (s\<lparr>t_state := (t_state s)(t := S_READY), tls := st, t_proc := (t_proc s)(t := p), t_space := x, t_cpu := (t_cpu s)(t := c)\<rparr>) W (insert t T) L"
proof -
  note I = sched_invD [OF assms(1)] and Q = queues_okD [OF sched_invD(1) [OF assms(1)]]
  obtain st where st: "threadlistnode_init (tls s) (Some t) = Inr st" "tl_rep st (klists (numcpus s) W) (insert t T) L"
    using threadlistnode_init_ok [OF Q(1) assms(2,3)] by blast
  have off: "t \<notin> set (L l)" if "l \<in> klists (numcpus s) W" for l using tl_repD(2) [OF Q(1) that] assms(2) by blast
  let ?s = "s\<lparr>t_state := (t_state s)(t := S_READY), tls := st, t_proc := (t_proc s)(t := p), t_space := x, t_cpu := (t_cpu s)(t := c)\<rparr>"
  have ne: "u \<noteq> t" if "l \<in> klists (numcpus s) W" "u \<in> set (L l)" for l u using off [OF that(1)] that(2) by blast
  have 1: "t_state ?s u = S_READY \<and> t_cpu ?s u = d" if "d < numcpus s" "u \<in> set (L (RunQ d))" for d u
    using Q(2) [OF that] ne [of "RunQ d" u] that by simp
  have 2: "t_state ?s u = S_ZOMBIE \<and> t_proc ?s u = None" if "d < numcpus s" "u \<in> set (L (Zombies d))" for d u
    using Q(3) [OF that] ne [of "Zombies d" u] that by simp
  have 3: "t_state ?s u = S_SLEEP" if "w \<in> W" "u \<in> set (L (Wchan w))" for w u
    using Q(4) [OF that] ne [of "Wchan w" u] that by simp
  have 4: "t_cpu ?s u < numcpus s" if "u \<in> insert t T" for u using Q(5) [of u] assms(4) that by auto
  have "queues_ok ?s W (insert t T) L" unfolding queues_ok_def using 1 2 3 4 st(2) by simp
  moreover have "running_ok ?s W (insert t T) L"
    using running_okD [OF I(2)] assms(2) unfolding running_ok_def by auto
  ultimately show ?thesis using assms(1) st(1) by (intro exI [of _ st]) (simp add: thread_create_def sched_inv_def)
qed

lemma make_runnable_inv:
  assumes "sched_inv s W T L" "t \<in> T" "\<forall>l \<in> klists (numcpus s) W. t \<notin> set (L l)" "t_state s t \<noteq> S_RUN"
    and "\<forall>c. Runqueue_lock c \<notin> spins s \<and> Ipi_lock c \<notin> spins s"
  shows "\<exists>s'. thread_make_runnable t False s = Inr s' \<and> sched_inv s' W T (L(RunQ (t_cpu s t) := L (RunQ (t_cpu s t)) @ [t])) \<and>
    same_rest s s' \<and> t_cpu s' = t_cpu s"
proof -
  note I = sched_invD [OF assms(1)] and Q = queues_okD [OF sched_invD(1) [OF assms(1)]]
  let ?D = "klists (numcpus s) W" and ?c = "t_cpu s t"
  let ?L = "L(RunQ ?c := L (RunQ ?c) @ [t])"
  have c: "?c < numcpus s" using Q(5) [OF assms(2)] .
  obtain s' where s': "thread_make_runnable t False s = Inr s'" "tl_rep (tls s') ?D T ?L"
    "t_state s' = (t_state s)(t := S_READY)" "t_cpu s' = t_cpu s" "same_rest s s'"
    using thread_make_runnable_ok [OF Q(1) _ assms(2,3), of False] c assms(5) by auto
  have "queues_ok s' W T ?L"
    using s' c assms(3) by (intro queues_ok_add [OF I(1)]) (auto simp: same_rest_def)
  moreover have "running_ok s' W T ?L"
    unfolding running_ok_def
  proof (intro allI impI)
    fix d assume "d < numcpus s'" "\<not> c_isidle s' d"
    then have d: "d < numcpus s" "\<not> c_isidle s d" using s'(5) by (simp_all add: same_rest_def)
    note R = running_okD [OF I(2) d]
    have "c_curthread s d \<noteq> t" using R(2) assms(4) by auto
    moreover have "c_curthread s' d = c_curthread s d" "numcpus s' = numcpus s" using s'(5) by (simp_all add: same_rest_def)
    ultimately show "c_curthread s' d \<in> T \<and> t_state s' (c_curthread s' d) = S_RUN \<and> t_cpu s' (c_curthread s' d) = d \<and>
        (\<forall>l \<in> klists (numcpus s') W. c_curthread s' d \<notin> set (?L l))"
      using R s'(3,4) c by auto
  qed
  ultimately show ?thesis using s' assms(1) by (auto simp: sched_inv_def same_rest_def)
qed

lemma thread_fork_ok:
  assumes "sched_inv (psch S) W T L" "\<not> c_isidle (psch S) (curcpu (psch S))" "spins (psch S) = {}" "t \<notin> T" "card T + 1 < 2 ^ 32"
    and "procs S a = Some p"
  shows "\<exists>s'. thread_fork (True, True) True t (Some a) S =
      Inr (0, S\<lparr>procs := (procs S)(a \<mapsto> p\<lparr>p_numthreads := p_numthreads p + 1\<rparr>), psch := s'\<rparr>) \<and>
    sched_inv s' W (insert t T) (L(RunQ (curcpu (psch S)) := L (RunQ (curcpu (psch S))) @ [t])) \<and>
    t_proc s' = (t_proc (psch S))(t := Some a) \<and> curthread s' = curthread (psch S) \<and> vm s' = vm (psch S) \<and> spins s' = {}"
proof -
  define s where "s = psch S"
  note I = sched_invD [OF assms(1)] and Q = queues_okD [OF sched_invD(1) [OF assms(1)]]
  have cur: "t_cpu s (curthread s) = curcpu s" "curthread s \<in> T"
    using running_okD [OF I(2,3) assms(2)] by (simp_all add: s_def curthread_def)
  let ?x = "(t_space s)(t := (map_option snd (p_addrspace p), p_pid p))"
  obtain st where st: "thread_create (True, True) t s = Inr (Some t, s\<lparr>t_state := (t_state s)(t := S_READY), tls := st, t_proc := (t_proc s)(t := None)\<rparr>)"
    "sched_inv (s\<lparr>t_state := (t_state s)(t := S_READY), tls := st, t_proc := (t_proc s)(t := Some a), t_space := ?x, t_cpu := (t_cpu s)(t := curcpu s)\<rparr>) W (insert t T) L"
    (is "sched_inv ?s1 W _ L")
    using thread_create_ok [OF assms(1,4,5) I(3)] unfolding s_def by blast
  have off: "\<forall>l \<in> klists (numcpus ?s1) W. t \<notin> set (L l)" using tl_repD(2) [OF Q(1)] assms(4) by (auto simp: s_def)
  obtain s' where s': "thread_make_runnable t False ?s1 = Inr s'"
    "sched_inv s' W (insert t T) (L(RunQ (t_cpu ?s1 t) := L (RunQ (t_cpu ?s1 t)) @ [t]))" "same_rest ?s1 s'" "t_cpu s' = t_cpu ?s1"
    using make_runnable_inv [OF st(2) insertI1 off] assms(3) by (auto simp: s_def)
  have e: "s\<lparr>t_state := (t_state s)(t := S_READY), tls := st, t_cpu := (t_cpu s)(t := curcpu s), t_proc := (t_proc s)(t := Some a), t_space := ?x\<rparr> = ?s1"
    by simp
  have "thread_fork (True, True) True t (Some a) S =
      Inr (0, S\<lparr>procs := (procs S)(a \<mapsto> p\<lparr>p_numthreads := p_numthreads p + 1\<rparr>), psch := s'\<rparr>)"
    using st(1) s'(1) cur assms(6)
    by (simp add: thread_fork_def proc_addthread_def with_proc_def set_space_def put_proc_def curthread_def e flip: s_def)
  then show ?thesis using s' assms(3) by (auto simp: same_rest_def curthread_def simp flip: s_def)
qed

section \<open>Exit\<close>

lemma V_ok:
  assumes "sched_inv s W T L" "sem_wchan sem \<in> W" "sem_lock sem = Wlock k" "spins s = {}" "unat (sem_count sem) + 1 < 2 ^ 32"
  shows "\<exists>s' L'. V sem s = Inr (sem\<lparr>sem_count := sem_count sem + 1\<rparr>, s') \<and> sched_inv s' W T L' \<and> same_rest s s' \<and>
    L' (Wchan (sem_wchan sem)) = drop 1 (L (Wchan (sem_wchan sem)))"
proof -
  let ?s0 = "s\<lparr>spins := {Wlock k}\<rparr>" and ?w = "sem_wchan sem"
  have i0: "sched_inv ?s0 W T L" using assms(1) by (simp add: sched_spins)
  have lk: "\<forall>c. Runqueue_lock c \<notin> spins ?s0 \<and> Ipi_lock c \<notin> spins ?s0" by simp
  have "unat (sem_count sem + 1) = unat (sem_count sem) + 1" using assms(5) by (simp add: unat_word_ariths)
  then have pos: "sem_count sem + 1 > 0" by (simp add: word_less_nat_alt)
  obtain s1 L' where s1: "wchan_wakeone ?w (Wlock k) ?s0 = Inr s1" "sched_inv s1 W T L'" "same_rest ?s0 s1" "L' (Wchan ?w) = drop 1 (L (Wchan ?w))"
  proof (cases "L (Wchan ?w)")
    case Nil
    then show ?thesis using that [of ?s0 L] wchan_wakeone_ok(1) [OF i0 assms(2) _ lk Nil, of "Wlock k"] i0 by simp
  next
    case (Cons t ts)
    then show ?thesis using that wchan_wakeone_ok(2) [OF i0 assms(2) _ lk Cons, of "Wlock k"] by fastforce
  qed
  let ?s2 = "s1\<lparr>spins := spins s1 - {Wlock k}\<rparr>"
  have "V sem s = Inr (sem\<lparr>sem_count := sem_count sem + 1\<rparr>, ?s2)"
    using s1(1,3) pos assms(3,4) by (simp add: V_def same_rest_def)
  moreover have "sched_inv ?s2 W T L'" using s1(2) by (simp add: sched_spins)
  moreover have "same_rest s ?s2" using s1(3) assms(4) by (simp add: same_rest_def)
  ultimately show ?thesis using s1(4) by blast
qed

lemma sched_inv_detach:
  "sched_inv s W T L \<Longrightarrow> sched_inv (s\<lparr>t_proc := (t_proc s)(t := None), t_space := x\<rparr>) W T L"
  by (auto simp: sched_inv_def queues_ok_def running_ok_def)

lemma sys__exit_ok:
  assumes "sched_inv (psch S) W T L" "\<not> c_isidle (psch S) (curcpu (psch S))" "spins (psch S) = {}"
    and "curproc S = Some c" "procs S c = Some p" "p_numthreads p = 1"
    and "p_sem p = Some sem" "sem_wchan sem \<in> W" "sem_lock sem = Wlock k" "unat (sem_count sem) + 1 < 2 ^ 32"
  shows "\<exists>r S' L'. sys__exit status S = Inr (r, S') \<and> r \<noteq> Unchanged \<and> sched_inv (psch S') W T L' \<and>
    L' (Wchan (sem_wchan sem)) = drop 1 (L (Wchan (sem_wchan sem))) \<and>
    procs S' = (procs S)(c \<mapsto> p\<lparr>p_status := status mod 256, p_numthreads := 0, p_sem := Some (sem\<lparr>sem_count := sem_count sem + 1\<rparr>)\<rparr>) \<and>
    (\<exists>s'. S' = S\<lparr>procs := procs S', psch := s'\<rparr>)"
proof -
  define s where "s = psch S"
  let ?cur = "curthread s"
  let ?s1 = "s\<lparr>t_proc := (t_proc s)(?cur := None), t_space := (t_space s)(?cur := (None, 0))\<rparr>"
  have tp: "t_proc s ?cur = Some c" using assms(4) by (simp add: curproc_def s_def)
  obtain s2 L2 where s2: "V sem ?s1 = Inr (sem\<lparr>sem_count := sem_count sem + 1\<rparr>, s2)" "sched_inv s2 W T L2" "same_rest ?s1 s2"
    "L2 (Wchan (sem_wchan sem)) = drop 1 (L (Wchan (sem_wchan sem)))"
    using V_ok [OF sched_inv_detach [OF assms(1) [folded s_def], where t = ?cur and x = "(t_space s)(?cur := (None, 0))"] assms(8,9)] assms(3,10)
    by (auto simp: s_def)
  have cur2: "curthread s2 = ?cur" "t_proc s2 ?cur = None" "\<not> c_isidle s2 (curcpu s2)" "spins s2 = {}"
    using s2(3) assms(2,3) by (simp_all add: same_rest_def curthread_def s_def)
  let ?P = "(procs S)(c \<mapsto> p\<lparr>p_status := status mod 256, p_numthreads := 0, p_sem := Some (sem\<lparr>sem_count := sem_count sem + 1\<rparr>)\<rparr>)"
  have ex: "sys__exit status S = bindR (thread_switch S_ZOMBIE 0 (Wlock 0) s2) (\<lambda>(r, s). Inr (r, S\<lparr>procs := ?P, psch := s\<rparr>))"
    using assms(4-7) s2(1) cur2(1,2) tp
    by (simp add: sys__exit_def with_proc_def put_proc_def proc_remthread_def set_space_def proc_signal_end_def thread_exit_def Let_def
      flip: s_def)
  have h: "Runqueue_lock (curcpu s2) \<notin> spins s2" "Ipi_lock (curcpu s2) \<notin> spins s2" using cur2(4) by simp_all
  have "\<exists>r s3 L3. thread_switch S_ZOMBIE 0 (Wlock 0) s2 = Inr (r, s3) \<and> r \<noteq> Unchanged \<and> sched_inv s3 W T L3 \<and>
    L3 (Wchan (sem_wchan sem)) = L2 (Wchan (sem_wchan sem))"
  proof (cases rule: thread_switch_ok [OF s2(2) cur2(3) h, of "Wlock 0" S_ZOMBIE 0])
    case (6 s3)
    then show ?thesis by (intro exI [of _ Idling] exI [of _ s3] exI [of _ "placed s2 S_ZOMBIE 0 L2"]) (simp add: placed_def place_list_def Let_def)
  next
    case (7 s3 n ns)
    then show ?thesis
      by (intro exI [of _ Switched] exI [of _ s3] exI [of _ "(placed s2 S_ZOMBIE 0 L2)(RunQ (curcpu s2) := ns, Zombies (curcpu s2) := [])"])
        (simp add: placed_def place_list_def Let_def)
  qed (use cur2(1,2) in simp_all)
  then show ?thesis using ex s2(4) by fastforce
qed

end
