(* ===== verification/Proc_Properties.thy ===== *)
theory Proc_Properties
  imports Proc_Threads Synch_Properties
begin

text \<open>
  What the process table, the file tables and the system calls on them guarantee.
\<close>

section \<open>The process table\<close>

definition ptab_ok :: "'f psys \<Rightarrow> bool" where
  "ptab_ok S \<longleftrightarrow> length (proctab S) = MAX_PROC + 1 \<and> proctab S ! 0 = None \<and> last_i S \<le> MAX_PROC \<and>
     (last_i S = 0 \<longrightarrow> proctab S ! 1 = None) \<and>
     (\<forall>i \<le> MAX_PROC. \<forall>a. proctab S ! i = Some a \<longrightarrow> (\<exists>p. procs S a = Some p \<and> p_pid p = int i)) \<and>
     (\<forall>a p. procs S a = Some p \<longrightarrow> (\<exists>i. 1 \<le> i \<and> i \<le> MAX_PROC \<and> p_pid p = int i \<and> proctab S ! i = Some a))"

definition pids :: "'f psys \<Rightarrow> nat set" where
  "pids S = {i. 1 \<le> i \<and> i \<le> MAX_PROC \<and> proctab S ! i \<noteq> None}"

text \<open>The pids in the order of the circular search.\<close>

definition pid_after :: "nat \<Rightarrow> nat \<Rightarrow> nat" where
  "pid_after li k = (li + k) mod MAX_PROC + 1"

lemma pid_after_0: "li \<le> MAX_PROC \<Longrightarrow> pid_next li = pid_after li 0"
  by (cases "li = MAX_PROC") (auto simp: pid_next_def pid_after_def MAX_PROC_def)

lemma pid_next_after: "pid_next (pid_after li k) = pid_after li (Suc k)"
proof -
  have "(li + k) mod MAX_PROC < MAX_PROC" by (simp add: MAX_PROC_def)
  then show ?thesis by (auto simp: pid_next_def pid_after_def mod_Suc)
qed

lemma pid_after_range: "1 \<le> pid_after li k" "pid_after li k \<le> MAX_PROC"
  by (simp_all add: pid_after_def MAX_PROC_def Suc_le_eq)

lemma pid_after_last:
  assumes "1 \<le> li" "li \<le> MAX_PROC" "k < MAX_PROC"
  shows "pid_after li k = li \<longleftrightarrow> k = MAX_PROC - 1"
  using assms le_mod_geq [of MAX_PROC "li + k"] by (cases "li + k < MAX_PROC") (auto simp: pid_after_def MAX_PROC_def)

lemma pid_after_surj:
  assumes "1 \<le> i" "i \<le> MAX_PROC" "li \<le> MAX_PROC"
  shows "\<exists>k < MAX_PROC. i = pid_after li k"
proof (cases "li < i")
  case True
  then show ?thesis using assms by (intro exI [of _ "i - li - 1"]) (auto simp: pid_after_def)
next
  case False
  then show ?thesis using assms
    by (intro exI [of _ "MAX_PROC + i - 1 - li"]) (auto simp: pid_after_def le_mod_geq)
qed

lemma pid_loop_found:
  "k \<le> fuel + j \<Longrightarrow> j \<le> k \<Longrightarrow> \<forall>m. j \<le> m \<and> m \<le> k \<longrightarrow> pid_after li m \<noteq> li \<Longrightarrow> \<forall>m. j \<le> m \<and> m < k \<longrightarrow> tab ! pid_after li m \<noteq> None \<Longrightarrow>
    tab ! pid_after li k = None \<Longrightarrow> pid_loop fuel (pid_after li j) li tab = Some (Some (pid_after li k))"
proof (induction fuel arbitrary: j)
  case 0
  then show ?case by (subst pid_loop.simps) simp
next
  case (Suc fuel)
  show ?case
  proof (cases "j = k")
    case True
    then show ?thesis using Suc.prems by (subst pid_loop.simps) simp
  next
    case False
    then have "tab ! pid_after li j \<noteq> None" "pid_after li j \<noteq> li" using Suc.prems(2-4) by auto
    then have "pid_loop (Suc fuel) (pid_after li j) li tab = pid_loop fuel (pid_after li (Suc j)) li tab"
      by (subst pid_loop.simps) (auto simp: pid_next_after)
    then show ?thesis using Suc.IH [of "Suc j"] Suc.prems False by simp
  qed
qed

lemma pid_loop_full:
  "k \<le> fuel + j \<Longrightarrow> j \<le> k \<Longrightarrow> pid_after li k = li \<Longrightarrow> \<forall>m. j \<le> m \<and> m < k \<longrightarrow> tab ! pid_after li m \<noteq> None \<Longrightarrow>
    pid_loop fuel (pid_after li j) li tab = Some None"
proof (induction fuel arbitrary: j)
  case 0
  then show ?case by (subst pid_loop.simps) simp
next
  case (Suc fuel)
  show ?case
  proof (cases "pid_after li j = li")
    case True
    then show ?thesis by (subst pid_loop.simps) simp
  next
    case False
    then have "j \<noteq> k" using Suc.prems(3) by auto
    then have "tab ! pid_after li j \<noteq> None" using Suc.prems(2,4) by auto
    then have "pid_loop (Suc fuel) (pid_after li j) li tab = pid_loop fuel (pid_after li (Suc j)) li tab"
      using False by (subst pid_loop.simps) (auto simp: pid_next_after)
    then show ?thesis using Suc.IH [of "Suc j"] Suc.prems \<open>j \<noteq> k\<close> by simp
  qed
qed

lemma pid_search_found:
  assumes "li \<le> MAX_PROC" "1 \<le> i" "i \<le> MAX_PROC" "i \<noteq> li" "tab ! i = None"
  shows "\<exists>k. pid_loop MAX_PROC (pid_next li) li tab = Some (Some (pid_after li k)) \<and>
     tab ! pid_after li k = None \<and> pid_after li k \<noteq> li \<and> (\<forall>m < k. tab ! pid_after li m \<noteq> None)"
proof -
  obtain k0 where k0: "k0 < MAX_PROC" "i = pid_after li k0" using pid_after_surj [OF assms(2,3,1)] by blast
  let ?P = "\<lambda>k. tab ! pid_after li k = None"
  define k where "k = (LEAST k. ?P k)"
  have h: "?P k0" using assms(5) k0(2) by simp
  have k: "?P k" "k \<le> k0" "\<forall>m < k. \<not> ?P m"
    unfolding k_def using LeastI [of ?P, OF h] Least_le [of ?P, OF h] not_less_Least [of _ ?P] by blast+
  have nl: "pid_after li m \<noteq> li" if "m \<le> k" for m
  proof (cases "li = 0")
    case True
    then show ?thesis using pid_after_range(1) [of li m] by auto
  next
    case False
    then show ?thesis using pid_after_last [of li m] pid_after_last [of li k0] k0 k(2) that assms(1,4) by auto
  qed
  have h: "k \<le> MAX_PROC + 0" "\<forall>m. 0 \<le> m \<and> m \<le> k \<longrightarrow> pid_after li m \<noteq> li" "\<forall>m. 0 \<le> m \<and> m < k \<longrightarrow> \<not> ?P m"
    using k(2,3) k0(1) nl by (linarith, blast, blast)
  show ?thesis
    unfolding pid_after_0 [OF assms(1)] using pid_loop_found [OF h(1) le0 h(2,3) k(1)] k(1,3) nl [OF le_refl] by blast
qed

lemma pid_search_full:
  assumes "li \<le> MAX_PROC" "li \<noteq> 0" "\<forall>i. 1 \<le> i \<longrightarrow> i \<le> MAX_PROC \<longrightarrow> tab ! i = None \<longrightarrow> i = li"
  shows "pid_loop MAX_PROC (pid_next li) li tab = Some None"
proof -
  have l: "pid_after li m = li \<longleftrightarrow> m = MAX_PROC - 1" if "m < MAX_PROC" for m
    using pid_after_last [of li m] assms(1,2) that by simp
  have n: "tab ! pid_after li m \<noteq> None" if "m < MAX_PROC - 1" for m
  proof
    assume "tab ! pid_after li m = None"
    then have "pid_after li m = li" using assms(3) pid_after_range [of li m] by blast
    then show False using l [of m] that by linarith
  qed
  have h: "MAX_PROC - 1 \<le> MAX_PROC + 0" "MAX_PROC - 1 < MAX_PROC" "\<forall>m. 0 \<le> m \<and> m < MAX_PROC - 1 \<longrightarrow> tab ! pid_after li m \<noteq> None"
    using n by (simp, simp add: MAX_PROC_def, blast)
  have "pid_loop MAX_PROC (pid_after li 0) li tab = Some None"
    using pid_loop_full [OF h(1) le0 _ h(3)] l [OF h(2)] by blast
  then show ?thesis by (simp add: pid_after_0 [OF assms(1)])
qed

lemma ptab_okD:
  assumes "ptab_ok S"
  shows "length (proctab S) = MAX_PROC + 1" "proctab S ! 0 = None" "last_i S \<le> MAX_PROC" "last_i S = 0 \<Longrightarrow> proctab S ! 1 = None"
    "i \<le> MAX_PROC \<Longrightarrow> proctab S ! i = Some b \<Longrightarrow> \<exists>p. procs S b = Some p \<and> p_pid p = int i"
    "procs S b = Some p \<Longrightarrow> \<exists>i. 1 \<le> i \<and> i \<le> MAX_PROC \<and> p_pid p = int i \<and> proctab S ! i = Some b"
  using assms unfolding ptab_ok_def by blast+


text \<open>Registering a new process, and removing one.\<close>

lemma ptab_ok_register:
  assumes "ptab_ok S" "procs S a = None" "1 \<le> i" "i \<le> MAX_PROC" "proctab S ! i = None" "p_pid p = int i"
  shows "ptab_ok (put_proc a p (S\<lparr>proctab := (proctab S)[i := Some a], last_i := i, psch := s\<rparr>))" (is "ptab_ok ?S")
    "pids (put_proc a p (S\<lparr>proctab := (proctab S)[i := Some a], last_i := i, psch := s\<rparr>)) = insert i (pids S)"
proof -
  note D = ptab_okD [OF assms(1)]
  have t: "proctab ?S ! j = (if j = i then Some a else proctab S ! j)" if "j \<le> MAX_PROC" for j
    using that D(1) assms(4) by (simp add: put_proc_def nth_list_update)
  have q: "procs ?S b = (if b = a then Some p else procs S b)" for b by (simp add: put_proc_def)
  show "pids ?S = insert i (pids S)" using t assms(3,4) by (auto simp: pids_def)
  have 1: "\<exists>q. procs ?S b = Some q \<and> p_pid q = int j" if "j \<le> MAX_PROC" "proctab ?S ! j = Some b" for j b
    using that t [OF that(1)] q [of b] D(5) [of j b] assms(2,6) by (auto split: if_splits)
  have 2: "\<exists>j. 1 \<le> j \<and> j \<le> MAX_PROC \<and> p_pid r = int j \<and> proctab ?S ! j = Some b" if "procs ?S b = Some r" for b r
  proof (cases "b = a")
    case True
    then show ?thesis using that q [of b] t [OF assms(4)] assms(3,4,6) by (intro exI [of _ i]) simp
  next
    case False
    then have "procs S b = Some r" using that q [of b] by metis
    then obtain j where "1 \<le> j" "j \<le> MAX_PROC" "p_pid r = int j" "proctab S ! j = Some b" using D(6) by blast
    then show ?thesis using t [of j] assms(5) by (intro exI [of _ j]) auto
  qed
  show "ptab_ok ?S"
    unfolding ptab_ok_def using 1 2 t [of 0] D(1,2) assms(3,4) by (simp add: put_proc_def)
qed


lemma proc_create_ok:
  assumes "ptab_ok S" "procs S a = None" "1 \<le> i" "i \<le> MAX_PROC" "i \<notin> pids S" "i \<noteq> last_i S"
  shows "\<exists>S' k. proc_create (True, True) semoks a w lk nm S = Inr (Some a, S') \<and> ptab_ok S' \<and>
    pid_after (last_i S) k \<notin> pids S \<and> (\<forall>m < k. pid_after (last_i S) m \<in> pids S) \<and>
    pids S' = insert (pid_after (last_i S) k) (pids S) \<and> map_option p_pid (procs S' a) = Some (int (pid_after (last_i S) k))"
proof -
  note D = ptab_okD [OF assms(1)]
  have "proctab S ! i = None" using assms(3-5) by (simp add: pids_def)
  from pid_search_found [OF D(3) assms(3,4,6) this] obtain k
    where k: "pid_loop MAX_PROC (pid_next (last_i S)) (last_i S) (proctab S) = Some (Some (pid_after (last_i S) k))"
      "proctab S ! pid_after (last_i S) k = None" "\<forall>m < k. proctab S ! pid_after (last_i S) m \<noteq> None" by blast
  obtain b1 b2 b3 where b: "semoks = (b1, b2, b3)" by (cases semoks)
  obtain sem s where s: "sem_create b1 b2 b3 w lk 0 (psch S) = (sem, s)" by fastforce
  let ?j = "pid_after (last_i S) k"
  let ?p = "\<lparr>p_name = nm, p_numthreads = 0, p_addrspace = None, p_cwd = None, p_status = 0, p_pid = int ?j, p_sem = sem,
     fileTable = replicate OPEN_MAX None\<rparr>"
  let ?S = "put_proc a ?p (S\<lparr>proctab := (proctab S)[?j := Some a], last_i := ?j, psch := s\<rparr>)"
  have "proc_create (True, True) semoks a w lk nm S = Inr (Some a, ?S)"
    by (simp add: proc_create_def proc_init_waitpid_def k(1) b s)
  moreover have "ptab_ok ?S" "pids ?S = insert ?j (pids S)"
    using ptab_ok_register [OF assms(1,2) pid_after_range k(2), of ?p s] by simp_all
  moreover have "?j \<notin> pids S" "\<forall>m < k. pid_after (last_i S) m \<in> pids S"
    using k(2,3) pid_after_range by (simp_all add: pids_def)
  moreover have "map_option p_pid (procs ?S a) = Some (int ?j)" by (simp add: put_proc_def)
  ultimately show ?thesis by blast
qed

lemma proc_search_pid_eq:
  assumes "ptab_ok S"
  shows "proc_search_pid pid S =
    (if pid < 0 \<or> int MAX_PROC \<le> pid then Inl Kassert
     else if nat pid \<in> pids S then Inr (the (proctab S ! nat pid)) else Inl NullDeref)"
proof (cases "0 \<le> pid \<and> pid < int MAX_PROC")
  case True
  then have n: "nat pid \<le> MAX_PROC" by linarith
  have "pid = 0 \<Longrightarrow> proctab S ! nat pid = None" using ptab_okD(2) [OF assms] by simp
  then show ?thesis
    using True n ptab_okD(5) [OF assms n]
    by (cases "proctab S ! nat pid") (auto simp: proc_search_pid_def pids_def with_proc_def Suc_le_eq)
qed (auto simp: proc_search_pid_def)

text \<open>C33. Process identifiers. A new process gets the first pid that is free in circular order after the
  last one given out, different from every pid in use. When no other pid than the last one given out is
  free the kernel panics, even if that one is free. A pid finds its process if it is in use and less
  than 100; every other argument of \<^verbatim>\<open>waitpid\<close>, including pid 100 in use, stops the kernel.\<close>

theorem pid_allocation:
  assumes "ptab_ok S" "procs S a = None"
  shows "(\<forall>i. 1 \<le> i \<and> i \<le> MAX_PROC \<and> i \<notin> pids S \<and> i \<noteq> last_i S \<longrightarrow>
      (\<exists>S' k. proc_create (True, True) semoks a w lk nm S = Inr (Some a, S') \<and> ptab_ok S' \<and>
        pid_after (last_i S) k \<notin> pids S \<and> (\<forall>m < k. pid_after (last_i S) m \<in> pids S) \<and>
        pids S' = insert (pid_after (last_i S) k) (pids S) \<and> map_option p_pid (procs S' a) = Some (int (pid_after (last_i S) k)))) \<and>
    (last_i S \<noteq> 0 \<and> {1..MAX_PROC} - {last_i S} \<subseteq> pids S \<longrightarrow>
      proc_create (True, True) semoks a w lk nm S = Inl (Panic ''too many processes. proc table is full'')) \<and>
    (\<forall>pid. 0 \<le> pid \<and> pid < int MAX_PROC \<and> nat pid \<in> pids S \<longrightarrow> proc_search_pid pid S = Inr (the (proctab S ! nat pid))) \<and>
    (\<forall>pid statusp. pid < 0 \<or> int MAX_PROC \<le> pid \<or> nat pid \<notin> pids S \<longrightarrow>
      sys_waitpid ops pid statusp S = Inl (if pid < 0 \<or> int MAX_PROC \<le> pid then Kassert else NullDeref))"
proof (intro conjI allI impI)
  assume f: "last_i S \<noteq> 0 \<and> {1..MAX_PROC} - {last_i S} \<subseteq> pids S"
  then have "\<forall>i. 1 \<le> i \<longrightarrow> i \<le> MAX_PROC \<longrightarrow> proctab S ! i = None \<longrightarrow> i = last_i S" by (force simp: pids_def)
  then show "proc_create (True, True) semoks a w lk nm S = Inl (Panic ''too many processes. proc table is full'')"
    using pid_search_full [OF ptab_okD(3) [OF assms(1)]] f by (simp add: proc_create_def proc_init_waitpid_def)
next
  fix pid statusp assume "pid < 0 \<or> int MAX_PROC \<le> pid \<or> nat pid \<notin> pids S"
  then show "sys_waitpid ops pid statusp S = Inl (if pid < 0 \<or> int MAX_PROC \<le> pid then Kassert else NullDeref)"
    by (auto simp: sys_waitpid_def proc_search_pid_eq [OF assms(1)])
next
  fix i assume "1 \<le> i \<and> i \<le> MAX_PROC \<and> i \<notin> pids S \<and> i \<noteq> last_i S"
  then show "\<exists>S' k. proc_create (True, True) semoks a w lk nm S = Inr (Some a, S') \<and> ptab_ok S' \<and>
        pid_after (last_i S) k \<notin> pids S \<and> (\<forall>m < k. pid_after (last_i S) m \<in> pids S) \<and>
        pids S' = insert (pid_after (last_i S) k) (pids S) \<and> map_option p_pid (procs S' a) = Some (int (pid_after (last_i S) k))"
    using proc_create_ok [OF assms] by blast
qed (simp add: proc_search_pid_eq [OF assms(1)])

section \<open>File tables\<close>


definition slots :: "openfile list \<Rightarrow> vnode \<Rightarrow> nat set" where
  "slots T v = {i. i < length T \<and> of_vn (T ! i) = Some v}"



lemma finite_slots [simp]: "finite (slots T v)"
  by (simp add: slots_def)


















section \<open>Fork\<close>







section \<open>Exit and wait\<close>




lemma ptab_kmemory [simp]: "ptab_ok (X\<lparr>kmemory := z\<rparr>) = ptab_ok X" "pids (X\<lparr>kmemory := z\<rparr>) = pids X"
  by (simp_all add: ptab_ok_def pids_def)




section \<open>A sample system\<close>

text \<open>Process 5 at address 0 has one open file, descriptor 3.\<close>

definition sample_proc :: proc where
  "sample_proc = \<lparr>p_name = ''sh'', p_numthreads = 1, p_addrspace = Some (9, sample_as [1, 0]), p_cwd = None, p_status = 0, p_pid = 5,
     p_sem = Some \<lparr>sem_wchan = 0, sem_lock = Wlock 7, sem_count = 0\<rparr>, fileTable = (replicate OPEN_MAX None)[3 := Some 0]\<rparr>"

definition sample_psys :: "'f sched \<Rightarrow> 'f psys" where
  "sample_psys s = \<lparr>procs = [0 \<mapsto> sample_proc], proctab = (replicate (MAX_PROC + 1) None)[5 := Some 0], last_i = 5, pt_active = True,
     kproc = None, systemFileTable = (replicate SYSTEM_OPEN_MAX \<lparr>of_vn = None, of_offset = 0, countRef = 0\<rparr>)[0 := \<lparr>of_vn = Some 1, of_offset = 0, countRef = 1\<rparr>],
     kmemory = (\<lambda>_. 0), psch = s\<rparr>"

lemma sample_psys_simps [simp]: "procs (sample_psys s) = [0 \<mapsto> sample_proc]" "last_i (sample_psys s) = 5" "psch (sample_psys s) = s"
  by (simp_all add: sample_psys_def)

lemma sample_tab: "i \<le> MAX_PROC \<Longrightarrow> proctab (sample_psys s) ! i = (if i = 5 then Some 0 else None)"
  by (simp add: sample_psys_def nth_list_update MAX_PROC_def)

lemma sample_ptab: "ptab_ok (sample_psys s)" "pids (sample_psys s) = {5}"
proof -
  have 1: "\<exists>p. procs (sample_psys s) a = Some p \<and> p_pid p = int i" if "i \<le> MAX_PROC" "proctab (sample_psys s) ! i = Some a" for i a
    using that sample_tab [OF that(1), of s] by (auto simp: sample_proc_def split: if_splits)
  have 2: "\<exists>i. 1 \<le> i \<and> i \<le> MAX_PROC \<and> p_pid p = int i \<and> proctab (sample_psys s) ! i = Some a" if "procs (sample_psys s) a = Some p" for a p
    using that sample_tab [of 5 s] by (intro exI [of _ 5]) (auto simp: sample_proc_def MAX_PROC_def split: if_splits)
  have "length (proctab (sample_psys s)) = MAX_PROC + 1" "proctab (sample_psys s) ! 0 = None"
    using sample_tab [of 0 s] by (simp_all add: sample_psys_def)
  then show "ptab_ok (sample_psys s)" unfolding ptab_ok_def using 1 2 by (simp add: MAX_PROC_def)
  show "pids (sample_psys s) = {5}" using sample_tab [of _ s] by (auto simp: pids_def MAX_PROC_def split: if_splits)
qed



theorem pid_allocation_witness:
  "\<exists>st S'. proc_create (True, True) (True, True, True) 1 3 (Wlock 8) ''cat'' (sample_psys (five_sched {} st)) = Inr (Some 1, S') \<and>
     pids S' = {5, 6} \<and> sys_waitpid mem_ops 8 0 (sample_psys (five_sched {} st)) = Inl NullDeref \<and>
     sys_waitpid mem_ops 500 0 (sample_psys (five_sched {} st)) = Inl Kassert"
proof -
  obtain st where "tl_rep st (klists 2 {0}) {1, 2, 5} three_lists" using three_store [of "{0}"] by auto
  let ?S = "sample_psys (five_sched {} st)"
  have n: "procs ?S 1 = None" by simp
  note t = pid_allocation [OF sample_ptab(1) n, of "(True, True, True)" 3 "Wlock 8" "''cat''" mem_ops, unfolded sample_ptab sample_psys_simps]
  have i: "1 \<le> (6 :: nat) \<and> 6 \<le> MAX_PROC \<and> 6 \<notin> {5 :: nat} \<and> 6 \<noteq> (5 :: nat)" by (simp add: MAX_PROC_def)
  obtain S' k where S': "proc_create (True, True) (True, True, True) 1 3 (Wlock 8) ''cat'' ?S = Inr (Some 1, S')"
    "pids S' = insert (pid_after 5 k) {5}" "\<forall>m < k. pid_after 5 m \<in> {5}"
    using conjunct1 [OF t, rule_format, OF i] by blast
  have "k = 0" using S'(3) by (cases k) (auto simp: pid_after_def MAX_PROC_def)
  then have "pids S' = {5, 6}" using S'(2) by (auto simp: pid_after_def MAX_PROC_def)
  moreover have "sys_waitpid mem_ops 8 0 ?S = Inl NullDeref" "sys_waitpid mem_ops 500 0 ?S = Inl Kassert"
    using t by (simp_all add: MAX_PROC_def)
  ultimately show ?thesis using S'(1) by blast
qed






end
