(* ===== verification/Lhd.thy ===== *)
theory Lhd
  imports Uio
begin

text \<open>
  The disk driver, \<^verbatim>\<open>kern/dev/lamebus/lhd.c\<close>. Its requests are transfer descriptors with one buffer,
  as all callers build them; here a descriptor carries the contents of its buffer. The hardware
  is an array of sectors; the status it reports for each operation comes from a list of status
  values, and every operation succeeds once the list is used up. One request is served at a time,
  so the semaphores that guard the card do not appear.
\<close>

section \<open>Descriptors with one buffer\<close>

text \<open>\<open>x_mem\<close> is the buffer and \<open>x_pos\<close> the part already moved. A buffer in user memory may be accessible
  only up to \<open>x_limit\<close>; moving beyond it fails with \<open>EFAULT\<close>.\<close>

record uio1 =
  x_mem :: "byte list"
  x_pos :: nat
  x_offset :: int
  x_resid :: u32
  x_rw :: uio_rw
  x_limit :: "nat option"

definition overwrite :: "'a list \<Rightarrow> nat \<Rightarrow> 'a list \<Rightarrow> 'a list" where
  "overwrite xs i ys = take i xs @ ys @ drop (i + length ys) xs"

text \<open>\<^verbatim>\<open>uiomove\<close> between a kernel buffer \<open>bs\<close> and the descriptor; returns the new contents of the buffer.\<close>

definition uiomove1 :: "byte list \<Rightarrow> uio1 \<Rightarrow> (int \<times> byte list \<times> uio1) res" where
  "uiomove1 bs u =
     (if bs = [] \<or> x_resid u = 0 then Inr (0, bs, u)
      else let sz = min (length (x_mem u) - x_pos u) (length bs) in
      if sz = 0 then Inl (Panic ''uiomove: ran out of buffers'')
      else if x_limit u \<noteq> None \<and> the (x_limit u) < x_pos u + sz then Inr (EFAULT, bs, u)
      else let
          bs' = (if x_rw u = UIO_READ then bs else overwrite bs 0 (take sz (drop (x_pos u) (x_mem u))));
          u' = u\<lparr>x_mem := if x_rw u = UIO_READ then overwrite (x_mem u) (x_pos u) (take sz bs) else x_mem u,
                 x_pos := x_pos u + sz, x_offset := x_offset u + int sz, x_resid := x_resid u - of_nat sz\<rparr> in
      if sz < length bs \<and> x_resid u' > 0 then Inl (Panic ''uiomove: ran out of buffers'')
      else Inr (0, bs', u'))"

function uiomovezeros1 :: "nat \<Rightarrow> uio1 \<Rightarrow> (int \<times> uio1) res" where
  "uiomovezeros1 n u =
     (if x_rw u \<noteq> UIO_READ then Inl Kassert
      else if n = 0 then Inr (0, u)
      else let amt = min 16 n in
      bindR (uiomove1 (replicate amt 0) u) (\<lambda>(r, _, u).
      if r \<noteq> 0 then Inr (r, u) else uiomovezeros1 (n - amt) u))"
  by pat_completeness auto
termination by (relation "measure fst") auto

declare uiomovezeros1.simps [simp del]

definition uio1_kinit :: "byte list \<Rightarrow> int \<Rightarrow> uio_rw \<Rightarrow> uio1" where
  "uio1_kinit data pos rw =
     \<lparr>x_mem = data, x_pos = 0, x_offset = pos, x_resid = of_nat (length data), x_rw = rw, x_limit = None\<rparr>"

section \<open>The disk\<close>

definition LHD_SECTSIZE :: nat where "LHD_SECTSIZE = 512"
definition LHD_IDLE :: u32 where "LHD_IDLE = 0"
definition LHD_WORKING :: u32 where "LHD_WORKING = 1"
definition LHD_OK :: u32 where "LHD_OK = 4"
definition LHD_INVSECT :: u32 where "LHD_INVSECT = 12"
definition LHD_MEDIA :: u32 where "LHD_MEDIA = 20"
definition LHD_ISWRITE :: u32 where "LHD_ISWRITE = 2"
definition LHD_STATEMASK :: u32 where "LHD_STATEMASK = 0x1d"
definition EAGAIN :: int where "EAGAIN = 4"

record device =
  d_blocks :: u32
  d_blocksize :: u32
  sectors :: "u32 \<Rightarrow> byte list"
  statuses :: "u32 list"

definition lhd_code_to_errno :: "u32 \<Rightarrow> int" where
  "lhd_code_to_errno code =
     (let st = code AND LHD_STATEMASK in
      if st = LHD_OK then 0 else if st = LHD_INVSECT then EINVAL else if st = LHD_MEDIA then EIO else EAGAIN)"

text \<open>The interrupt handler: the result it saves for the waiting driver, if the operation is over.\<close>

definition lhd_irq :: "u32 \<Rightarrow> int option" where
  "lhd_irq val =
     (let st = val AND LHD_STATEMASK in
      if st = LHD_IDLE \<or> st = LHD_WORKING then None
      else if st = LHD_OK \<or> st = LHD_INVSECT \<or> st = LHD_MEDIA then Some (lhd_code_to_errno val)
      else None)"

text \<open>The card carries out the operation started with \<open>statval\<close> on a sector: the status it ends with,
  its buffer, and the disk. Without a status that the handler acts on the driver waits forever.\<close>

definition lhd_operation :: "u32 \<Rightarrow> u32 \<Rightarrow> byte list \<Rightarrow> device \<Rightarrow> (int \<times> byte list \<times> device) res" where
  "lhd_operation statval sect buf d =
     (let val = (case statuses d of [] \<Rightarrow> LHD_OK | st # _ \<Rightarrow> st);
          d = d\<lparr>statuses := tl (statuses d)\<rparr>;
          ok = (val AND LHD_STATEMASK = LHD_OK);
          wr = (statval AND LHD_ISWRITE \<noteq> 0) in
      case lhd_irq val of
        None \<Rightarrow> Inl Diverges
      | Some result \<Rightarrow>
          Inr (result, if ok \<and> \<not> wr then sectors d sect else buf,
               if ok \<and> wr then d\<lparr>sectors := (sectors d)(sect := buf)\<rparr> else d))"

text \<open>The loop over the sectors of a request.\<close>

fun lhd_io_loop :: "nat \<Rightarrow> u32 \<Rightarrow> u32 \<Rightarrow> byte list \<Rightarrow> uio1 \<Rightarrow> device \<Rightarrow> (int \<times> uio1 \<times> device) res" where
  "lhd_io_loop 0 statval sect buf u d = Inr (0, u, d)"
| "lhd_io_loop (Suc n) statval sect buf u d =
     bindR (if x_rw u = UIO_WRITE then uiomove1 buf u else Inr (0, buf, u)) (\<lambda>(result, buf, u).
     if result \<noteq> 0 then Inr (result, u, d)
     else bindR (lhd_operation statval sect buf d) (\<lambda>(result, buf, d).
     bindR (if result = 0 \<and> x_rw u = UIO_READ then uiomove1 buf u else Inr (result, buf, u)) (\<lambda>(result, buf, u).
     if result \<noteq> 0 then Inr (result, u, d)
     else lhd_io_loop n statval (sect + 1) buf u d)))"

definition lhd_io :: "uio1 \<Rightarrow> device \<Rightarrow> (int \<times> uio1 \<times> device) res" where
  "lhd_io u d =
     (let sector = word_of_int (x_offset u div int LHD_SECTSIZE); sectoff = x_offset u mod int LHD_SECTSIZE;
          len = unat (x_resid u) div LHD_SECTSIZE; lenoff = unat (x_resid u) mod LHD_SECTSIZE in
      if sectoff \<noteq> 0 \<or> lenoff \<noteq> 0 then Inr (EINVAL, u, d)
      else if sector + of_nat len > d_blocks d then Inr (EINVAL, u, d)
      else lhd_io_loop len (LHD_WORKING OR (if x_rw u = UIO_WRITE then LHD_ISWRITE else 0)) sector
             (replicate LHD_SECTSIZE 0) u d)"

section \<open>Moving whole buffers\<close>

lemma length_overwrite [simp]: "i + length ys \<le> length xs \<Longrightarrow> length (overwrite xs i ys) = length xs"
  by (simp add: overwrite_def)

lemma overwrite_all: "length ys = length xs \<Longrightarrow> overwrite xs 0 ys = ys"
  by (simp add: overwrite_def)

lemma nth_overwrite: "i + length ys \<le> length xs \<Longrightarrow> k < length xs \<Longrightarrow>
    overwrite xs i ys ! k = (if i \<le> k \<and> k < i + length ys then ys ! (k - i) else xs ! k)"
  by (auto simp: overwrite_def nth_append min_def)

text \<open>A descriptor with room for \<open>n\<close> more bytes.\<close>

definition room :: "nat \<Rightarrow> uio1 \<Rightarrow> bool" where
  "room n u \<longleftrightarrow> n \<le> unat (x_resid u) \<and> x_pos u + unat (x_resid u) \<le> length (x_mem u) \<and>
     (x_limit u = None \<or> x_pos u + n \<le> the (x_limit u))"

definition moved :: "nat \<Rightarrow> uio1 \<Rightarrow> uio1" where
  "moved n u = u\<lparr>x_pos := x_pos u + n, x_offset := x_offset u + int n, x_resid := x_resid u - of_nat n\<rparr>"

lemma uiomove1_read:
  assumes "room (length bs) u" "x_rw u = UIO_READ"
  shows "uiomove1 bs u = Inr (0, bs, (moved (length bs) u)\<lparr>x_mem := overwrite (x_mem u) (x_pos u) bs\<rparr>)"
proof (cases "bs = []")
  case True
  then show ?thesis by (cases u) (simp add: uiomove1_def moved_def overwrite_def)
next
  case False
  then have "x_resid u \<noteq> 0" "min (length (x_mem u) - x_pos u) (length bs) = length bs"
    using assms by (auto simp: room_def)
  then show ?thesis using False assms by (auto simp: uiomove1_def moved_def room_def Let_def)
qed

lemma uiomove1_write:
  assumes "room (length bs) u" "x_rw u = UIO_WRITE"
  shows "uiomove1 bs u = Inr (0, take (length bs) (drop (x_pos u) (x_mem u)), moved (length bs) u)"
proof (cases "bs = []")
  case True
  then show ?thesis by (cases u) (simp add: uiomove1_def moved_def)
next
  case False
  then have sz: "x_resid u \<noteq> 0" "min (length (x_mem u) - x_pos u) (length bs) = length bs"
    using assms by (auto simp: room_def)
  then have "length (take (length bs) (drop (x_pos u) (x_mem u))) = length bs" by simp
  then show ?thesis using False assms sz by (auto simp: uiomove1_def moved_def room_def overwrite_all Let_def)
qed

lemma unat_minus_nat: "k \<le> unat a \<Longrightarrow> unat (a - of_nat k :: u32) = unat a - k"
proof -
  assume k: "k \<le> unat a"
  then have "k < 2 ^ 32" using unsigned_less [of a, where ?'a = nat] by simp
  then have "unat (of_nat k :: u32) = k" by (simp add: unat_of_nat)
  then show ?thesis using k by (simp add: unat_sub word_le_nat_alt)
qed

lemma room_moved: "room (k + n) u \<Longrightarrow> room n (moved k u)"
proof -
  assume a: "room (k + n) u"
  then have "k \<le> unat (x_resid u)" by (simp add: room_def)
  note unat_minus_nat [OF this]
  then show ?thesis using a by (auto simp: room_def moved_def)
qed

section \<open>Requests for one sector\<close>

lemma lhd_irq_ok: "lhd_irq LHD_OK = Some 0"
  by (simp add: lhd_irq_def lhd_code_to_errno_def LHD_OK_def LHD_IDLE_def LHD_WORKING_def LHD_STATEMASK_def)

lemma ok_state: "LHD_OK AND LHD_STATEMASK = LHD_OK"
  by (simp add: LHD_OK_def LHD_STATEMASK_def)

lemma write_bit: "(LHD_WORKING OR LHD_ISWRITE) AND LHD_ISWRITE \<noteq> 0" "LHD_WORKING AND LHD_ISWRITE = 0" "LHD_ISWRITE \<noteq> 0"
  by (simp_all add: LHD_WORKING_def LHD_ISWRITE_def)

definition wf_disk :: "device \<Rightarrow> bool" where
  "wf_disk d \<longleftrightarrow> (\<forall>n. length (sectors d n) = LHD_SECTSIZE)"

text \<open>A request for the sector \<open>n\<close>.\<close>

definition for_sector :: "u32 \<Rightarrow> uio1 \<Rightarrow> device \<Rightarrow> bool" where
  "for_sector n u d \<longleftrightarrow> x_offset u = 512 * int (unat n) \<and> x_resid u = 512 \<and> n < d_blocks d"

lemma lhd_io_one:
  assumes "for_sector n u d"
  shows "lhd_io u d = lhd_io_loop 1 (LHD_WORKING OR (if x_rw u = UIO_WRITE then LHD_ISWRITE else 0)) n (replicate 512 0) u d"
proof -
  have "\<not> d_blocks d < n + 1" using assms by (simp add: for_sector_def inc_le leD)
  moreover have "word_of_int (512 * int (unat n) div int 512) = n" by simp
  ultimately show ?thesis using assms by (simp add: lhd_io_def for_sector_def LHD_SECTSIZE_def leD Let_def del: lhd_io_loop.simps)
qed

lemma lhd_io_read:
  assumes "for_sector n u d" "room 512 u" "x_rw u = UIO_READ" "statuses d = []" "wf_disk d"
  shows "lhd_io u d = Inr (0, (moved 512 u)\<lparr>x_mem := overwrite (x_mem u) (x_pos u) (sectors d n)\<rparr>, d)"
proof -
  have "length (sectors d n) = 512" using assms(5) by (simp add: wf_disk_def LHD_SECTSIZE_def)
  then have "uiomove1 (sectors d n) u = Inr (0, sectors d n, (moved 512 u)\<lparr>x_mem := overwrite (x_mem u) (x_pos u) (sectors d n)\<rparr>)"
    using uiomove1_read [of "sectors d n" u] assms(2,3) by simp
  moreover have "d\<lparr>statuses := []\<rparr> = d" using assms(4) by (cases d) simp
  ultimately show ?thesis
    using assms(3,4) by (simp add: lhd_io_one [OF assms(1)] lhd_operation_def lhd_irq_ok ok_state write_bit)
qed

lemma lhd_io_write:
  assumes "for_sector n u d" "room 512 u" "x_rw u = UIO_WRITE" "statuses d = []"
  shows "lhd_io u d = Inr (0, moved 512 u, d\<lparr>sectors := (sectors d)(n := take 512 (drop (x_pos u) (x_mem u)))\<rparr>)"
proof -
  have "uiomove1 (replicate 512 0) u = Inr (0, take 512 (drop (x_pos u) (x_mem u)), moved 512 u)"
    using uiomove1_write [of "replicate 512 0" u] assms(2,3) by simp
  moreover have "d\<lparr>statuses := []\<rparr> = d" using assms(4) by (cases d) simp
  ultimately show ?thesis
    using assms(3,4) by (simp add: lhd_io_one [OF assms(1)] lhd_operation_def lhd_irq_ok ok_state write_bit moved_def Let_def)
qed

end
