(* ===== verification/Bitmap.thy ===== *)
theory Bitmap
  imports Prelude
begin

text \<open>
  Fixed-size bit arrays (\<^verbatim>\<open>kern/lib/bitmap.c\<close>), used by the file system to keep track of free
  blocks. The contract is that of a finite set of numbers below \<open>nbits\<close>.
\<close>

unbundle bit_operations_syntax

definition BITS_PER_WORD :: nat where "BITS_PER_WORD = 8"
definition WORD_ALLBITS :: byte where "WORD_ALLBITS = 0xff"

record bitmap =
  nbits :: u32
  bm_v :: "byte list"

text \<open>Marking the leftover bits of the last byte.\<close>

fun mark_leftover :: "nat \<Rightarrow> nat \<Rightarrow> byte \<Rightarrow> byte" where
  "mark_leftover 0 j w = w"
| "mark_leftover (Suc n) j w = mark_leftover n (Suc j) (w OR push_bit j 1)"

definition bitmap_create :: "bool \<Rightarrow> bool \<Rightarrow> u32 \<Rightarrow> bitmap option res" where
  "bitmap_create ok1 ok2 n =
     (let words = unat (DIVROUNDUP n 8) in
      if \<not> ok1 then Inr None
      else if \<not> ok2 then Inr None
      else let b = \<lparr>nbits = n, bm_v = replicate words 0\<rparr> in
      if unat n div BITS_PER_WORD < words then
        let ix = words - 1; overbits = unat n - ix * BITS_PER_WORD in
        if unat n div BITS_PER_WORD \<noteq> words - 1 then Inl Kassert
        else if \<not> (0 < overbits \<and> overbits < BITS_PER_WORD) then Inl Kassert
        else Inr (Some (b\<lparr>bm_v := (bm_v b)[ix := mark_leftover (BITS_PER_WORD - overbits) overbits (bm_v b ! ix)]\<rparr>))
      else Inr (Some b))"

definition bitmap_getdata :: "bitmap \<Rightarrow> byte list" where
  "bitmap_getdata b = bm_v b"

text \<open>The inner loop of \<^verbatim>\<open>bitmap_alloc\<close>: the first clear bit of a byte.\<close>

fun clear_offset :: "nat \<Rightarrow> byte \<Rightarrow> nat \<Rightarrow> nat option" where
  "clear_offset 0 w offset = None"
| "clear_offset (Suc n) w offset =
     (if w AND push_bit offset 1 = 0 then Some offset else clear_offset n w (Suc offset))"

fun bitmap_alloc_loop :: "nat \<Rightarrow> nat \<Rightarrow> bitmap \<Rightarrow> (int \<times> nat \<times> bitmap) res" where
  "bitmap_alloc_loop 0 ix b = Inr (ENOSPC, 0, b)"
| "bitmap_alloc_loop (Suc n) ix b =
     (if length (bm_v b) \<le> ix then Inl OutOfBounds
      else if bm_v b ! ix \<noteq> WORD_ALLBITS then
        (case clear_offset BITS_PER_WORD (bm_v b ! ix) 0 of
           None \<Rightarrow> Inl Kassert
         | Some offset \<Rightarrow>
             let index = ix * BITS_PER_WORD + offset;
                 b' = b\<lparr>bm_v := (bm_v b)[ix := bm_v b ! ix OR push_bit offset 1]\<rparr> in
             if unat (nbits b) \<le> index then Inl Kassert else Inr (0, index, b'))
      else bitmap_alloc_loop n (Suc ix) b)"

definition bitmap_alloc :: "bitmap \<Rightarrow> (int \<times> nat \<times> bitmap) res" where
  "bitmap_alloc b = bitmap_alloc_loop (unat (DIVROUNDUP (nbits b) 8)) 0 b"

definition bitmap_translate :: "nat \<Rightarrow> nat \<times> byte" where
  "bitmap_translate bitno = (bitno div BITS_PER_WORD, push_bit (bitno mod BITS_PER_WORD) 1)"

definition bitmap_mark :: "bitmap \<Rightarrow> nat \<Rightarrow> bitmap res" where
  "bitmap_mark b index =
     (if unat (nbits b) \<le> index then Inl Kassert
      else let (ix, mask) = bitmap_translate index in
      if length (bm_v b) \<le> ix then Inl OutOfBounds
      else if bm_v b ! ix AND mask \<noteq> 0 then Inl Kassert
      else Inr (b\<lparr>bm_v := (bm_v b)[ix := bm_v b ! ix OR mask]\<rparr>))"

definition bitmap_unmark :: "bitmap \<Rightarrow> nat \<Rightarrow> bitmap res" where
  "bitmap_unmark b index =
     (if unat (nbits b) \<le> index then Inl Kassert
      else let (ix, mask) = bitmap_translate index in
      if length (bm_v b) \<le> ix then Inl OutOfBounds
      else if bm_v b ! ix AND mask = 0 then Inl Kassert
      else Inr (b\<lparr>bm_v := (bm_v b)[ix := bm_v b ! ix AND NOT mask]\<rparr>))"

definition bitmap_isset :: "bitmap \<Rightarrow> nat \<Rightarrow> int res" where
  "bitmap_isset b index =
     (let (ix, mask) = bitmap_translate index in
      if length (bm_v b) \<le> ix then Inl OutOfBounds else Inr (uint (bm_v b ! ix AND mask)))"

section \<open>Sets of numbers\<close>

text \<open>The bit of a number, the marked numbers, and the invariant: the bytes cover \<open>nbits\<close> exactly and
  the bits past the end are set.\<close>

definition bm_bit :: "bitmap \<Rightarrow> nat \<Rightarrow> bool" where
  "bm_bit b i \<longleftrightarrow> i div 8 < length (bm_v b) \<and> bit (bm_v b ! (i div 8)) (i mod 8)"

definition marked :: "bitmap \<Rightarrow> nat set" where
  "marked b = {i. i < unat (nbits b) \<and> bm_bit b i}"

definition bitmap_inv :: "bitmap \<Rightarrow> bool" where
  "bitmap_inv b \<longleftrightarrow> unat (nbits b) + 7 < 2 ^ 32 \<and> length (bm_v b) = (unat (nbits b) + 7) div 8 \<and>
     (\<forall>i. unat (nbits b) \<le> i \<and> i < 8 * length (bm_v b) \<longrightarrow> bm_bit b i)"

lemma bitmap_words: "unat n + 7 < 2 ^ 32 \<Longrightarrow> unat (DIVROUNDUP n 8) = (unat n + 7) div 8"
proof -
  assume a: "unat n + 7 < 2 ^ 32"
  have "n + 8 - 1 = n + 7" by simp
  then show ?thesis using a by (simp add: DIVROUNDUP_def unat_div unat_word_ariths)
qed

lemma and_single_bit: "w AND push_bit k 1 = 0 \<longleftrightarrow> \<not> bit w k" if "k < 8" for w :: byte
proof -
  have "bit (w AND push_bit k 1) n \<longleftrightarrow> bit w n \<and> n = k" for n
    using that by (auto simp: bit_simps)
  then show ?thesis by (metis bit_0_eq bit_eq_iff bot_apply bot_bool_def)
qed

lemma marked_less: "i \<in> marked b \<Longrightarrow> i < unat (nbits b)"
  by (simp add: marked_def)

lemma bit_in_range: "bitmap_inv b \<Longrightarrow> i < unat (nbits b) \<Longrightarrow> i div 8 < length (bm_v b)"
  by (auto simp: bitmap_inv_def)

text \<open>Setting or clearing one bit of the bytes.\<close>

lemma bm_bit_upd:
  assumes "i div 8 < length (bm_v b)" "\<And>n. n < 8 \<Longrightarrow> bit w n \<longleftrightarrow> (if n = i mod 8 then x else bit (bm_v b ! (i div 8)) n)"
  shows "bm_bit (b\<lparr>bm_v := (bm_v b)[i div 8 := w]\<rparr>) j \<longleftrightarrow> (if j = i then x else bm_bit b j)"
proof -
  have "j = i \<longleftrightarrow> j div 8 = i div 8 \<and> j mod 8 = i mod 8" by (metis div_mult_mod_eq)
  then show ?thesis using assms by (auto simp: bm_bit_def nth_list_update)
qed

lemma marked_upd:
  assumes inv: "bitmap_inv b" and i: "i < unat (nbits b)"
    and w: "\<And>n. n < 8 \<Longrightarrow> bit w n \<longleftrightarrow> (if n = i mod 8 then x else bit (bm_v b ! (i div 8)) n)"
  shows "bitmap_inv (b\<lparr>bm_v := (bm_v b)[i div 8 := w]\<rparr>)"
    and "marked (b\<lparr>bm_v := (bm_v b)[i div 8 := w]\<rparr>) = (if x then insert i (marked b) else marked b - {i})"
proof -
  note u = bm_bit_upd [OF bit_in_range [OF inv i] w]
  show "marked (b\<lparr>bm_v := (bm_v b)[i div 8 := w]\<rparr>) = (if x then insert i (marked b) else marked b - {i})"
    using i by (auto simp: marked_def u split: if_splits)
  show "bitmap_inv (b\<lparr>bm_v := (bm_v b)[i div 8 := w]\<rparr>)"
    using inv i by (auto simp: bitmap_inv_def u)
qed

lemma bit_set: "n < 8 \<Longrightarrow> bit (w OR push_bit k 1 :: byte) n \<longleftrightarrow> (if n = k then True else bit w n)"
  by (auto simp: bit_simps)

lemma bit_clear: "n < 8 \<Longrightarrow> bit (w AND NOT (push_bit k 1) :: byte) n \<longleftrightarrow> (if n = k then False else bit w n)"
  by (auto simp: bit_simps)

lemma bitmap_isset_ok:
  assumes "bitmap_inv b" "i < unat (nbits b)"
  shows "\<exists>r. bitmap_isset b i = Inr r \<and> (r \<noteq> 0 \<longleftrightarrow> i \<in> marked b)"
proof -
  note l = bit_in_range [OF assms]
  have "uint (bm_v b ! (i div 8) AND push_bit (i mod 8) 1) \<noteq> 0 \<longleftrightarrow> i \<in> marked b"
    unfolding uint_0_iff using and_single_bit [of "i mod 8" "bm_v b ! (i div 8)"] assms(2) l
    by (auto simp: marked_def bm_bit_def)
  then show ?thesis using l by (simp add: bitmap_isset_def bitmap_translate_def BITS_PER_WORD_def)
qed

lemma bitmap_mark_ok:
  assumes "bitmap_inv b" "i < unat (nbits b)"
  shows "i \<notin> marked b \<Longrightarrow> \<exists>b'. bitmap_mark b i = Inr b' \<and> bitmap_inv b' \<and> nbits b' = nbits b \<and> marked b' = insert i (marked b)"
    and "i \<in> marked b \<Longrightarrow> bitmap_mark b i = Inl Kassert"
proof -
  note l = bit_in_range [OF assms]
  have "bm_v b ! (i div 8) AND push_bit (i mod 8) 1 = 0 \<longleftrightarrow> i \<notin> marked b"
    using and_single_bit [of "i mod 8" "bm_v b ! (i div 8)"] assms(2) l by (auto simp: marked_def bm_bit_def)
  moreover note marked_upd [OF assms bit_set]
  ultimately show "i \<notin> marked b \<Longrightarrow> \<exists>b'. bitmap_mark b i = Inr b' \<and> bitmap_inv b' \<and> nbits b' = nbits b \<and> marked b' = insert i (marked b)"
    "i \<in> marked b \<Longrightarrow> bitmap_mark b i = Inl Kassert"
    using l assms(2) by (simp_all add: bitmap_mark_def bitmap_translate_def BITS_PER_WORD_def)
qed

lemma bitmap_unmark_ok:
  assumes "bitmap_inv b" "i < unat (nbits b)"
  shows "i \<in> marked b \<Longrightarrow> \<exists>b'. bitmap_unmark b i = Inr b' \<and> bitmap_inv b' \<and> nbits b' = nbits b \<and> marked b' = marked b - {i}"
    and "i \<notin> marked b \<Longrightarrow> bitmap_unmark b i = Inl Kassert"
proof -
  note l = bit_in_range [OF assms]
  have "bm_v b ! (i div 8) AND push_bit (i mod 8) 1 = 0 \<longleftrightarrow> i \<notin> marked b"
    using and_single_bit [of "i mod 8" "bm_v b ! (i div 8)"] assms(2) l by (auto simp: marked_def bm_bit_def)
  moreover note marked_upd [OF assms bit_clear]
  ultimately show "i \<in> marked b \<Longrightarrow> \<exists>b'. bitmap_unmark b i = Inr b' \<and> bitmap_inv b' \<and> nbits b' = nbits b \<and> marked b' = marked b - {i}"
    "i \<notin> marked b \<Longrightarrow> bitmap_unmark b i = Inl Kassert"
    using l assms(2) by (simp_all add: bitmap_unmark_def bitmap_translate_def BITS_PER_WORD_def)
qed

section \<open>Allocation\<close>

lemma clear_offset_spec:
  "k + n \<le> 8 \<Longrightarrow>
    (case clear_offset n w k of None \<Rightarrow> \<forall>j. k \<le> j \<and> j < k + n \<longrightarrow> bit w j
     | Some m \<Rightarrow> k \<le> m \<and> m < k + n \<and> \<not> bit w m \<and> (\<forall>j. k \<le> j \<and> j < m \<longrightarrow> bit w j))"
proof (induction n w k rule: clear_offset.induct)
  case (2 n w k)
  have k: "w AND push_bit k 1 = 0 \<longleftrightarrow> \<not> bit w k" using 2(2) by (intro and_single_bit) simp
  show ?case
  proof (cases "bit w k")
    case True
    have s: "k \<le> j \<longleftrightarrow> j = k \<or> Suc k \<le> j" for j by auto
    show ?thesis using 2 True k by (auto simp: s split: option.splits)
  qed (use k in auto)
qed auto

lemma byte_full_iff: "w = WORD_ALLBITS \<longleftrightarrow> (\<forall>j < 8. bit w j)" for w :: byte
proof -
  have m: "WORD_ALLBITS = mask 8" by (simp add: WORD_ALLBITS_def mask_eq_exp_minus_1)
  have "bit WORD_ALLBITS j \<longleftrightarrow> j < 8" for j unfolding m bit_mask_iff possible_bit_word by simp
  then show ?thesis by (auto intro: bit_word_eqI)
qed

lemma bitmap_alloc_loop_ok:
  assumes inv: "bitmap_inv b"
  shows "ix + n = length (bm_v b) \<Longrightarrow> (\<forall>i < 8 * ix. bm_bit b i) \<Longrightarrow>
    (\<exists>i b'. i < unat (nbits b) \<and> i \<notin> marked b \<and> (\<forall>j < i. j \<in> marked b) \<and>
       bitmap_alloc_loop n ix b = Inr (0, i, b') \<and> bitmap_inv b' \<and> nbits b' = nbits b \<and> marked b' = insert i (marked b)) \<or>
    (marked b = {..<unat (nbits b)} \<and> bitmap_alloc_loop n ix b = Inr (ENOSPC, 0, b))"
proof (induction n arbitrary: ix)
  case 0
  have "i < 8 * ix" if "i < unat (nbits b)" for i using bit_in_range [OF inv that] 0(1) by auto
  then show ?case using 0 by (auto simp: marked_def)
next
  case (Suc n)
  let ?w = "bm_v b ! ix"
  have bitix: "bm_bit b (8 * ix + j) \<longleftrightarrow> bit ?w j" if "j < 8" for j
    using that Suc.prems(1) by (simp add: bm_bit_def)
  have split8: "i < 8 * Suc ix \<longleftrightarrow> i < 8 * ix \<or> (\<exists>j < 8. i = 8 * ix + j)" for i
    by (cases "i < 8 * ix") (auto intro: exI [of _ "i - 8 * ix"])
  show ?case
  proof (cases "?w = WORD_ALLBITS")
    case True
    then have "\<forall>i < 8 * Suc ix. bm_bit b i" using Suc.prems(2) bitix byte_full_iff unfolding split8 by auto
    then show ?thesis using Suc.IH [of "Suc ix"] Suc.prems(1) True by simp
  next
    case False
    then obtain m where m: "clear_offset 8 ?w 0 = Some m" "m < 8" "\<not> bit ?w m" "\<forall>j < m. bit ?w j"
      using clear_offset_spec [of 0 8 ?w] byte_full_iff [of ?w] by (auto split: option.splits)
    let ?i = "8 * ix + m"
    have below: "bm_bit b j" if "j < ?i" for j
    proof (cases "j < 8 * ix")
      case True then show ?thesis using Suc.prems(2) by blast
    next
      case False
      then have "j = 8 * ix + (j - 8 * ix)" "j - 8 * ix < m" using that by auto
      then show ?thesis using m(2,4) bitix [of "j - 8 * ix"] by (metis less_trans)
    qed
    have ni: "\<not> bm_bit b ?i" using bitix m(2,3) by blast
    have "?i < 8 * length (bm_v b)" using m(2) Suc.prems(1) by (simp flip: Suc.prems(1))
    then have i: "?i < unat (nbits b)" using inv ni unfolding bitmap_inv_def by (meson linorder_not_less)
    have d: "?i div 8 = ix" "?i mod 8 = m" using m(2) by simp_all
    note u = marked_upd [OF inv i, where x = True and w = "?w OR push_bit m 1", unfolded d, OF bit_set]
    have "bitmap_alloc_loop (Suc n) ix b = Inr (0, ?i, b\<lparr>bm_v := (bm_v b)[ix := ?w OR push_bit m 1]\<rparr>)"
      using Suc.prems(1) False m(1) i by (simp add: BITS_PER_WORD_def mult.commute)
    then show ?thesis using u i ni below by (intro disjI1 exI [of _ ?i] exI) (auto simp: marked_def)
  qed
qed

lemma bitmap_length: "bitmap_inv b \<Longrightarrow> unat (DIVROUNDUP (nbits b) 8) = length (bm_v b)"
  using bitmap_words by (simp add: bitmap_inv_def)

lemma bitmap_alloc_ok:
  assumes "bitmap_inv b" "marked b \<noteq> {..<unat (nbits b)}"
  shows "\<exists>i b'. bitmap_alloc b = Inr (0, i, b') \<and> i < unat (nbits b) \<and> i \<notin> marked b \<and> (\<forall>j < i. j \<in> marked b) \<and>
    bitmap_inv b' \<and> nbits b' = nbits b \<and> marked b' = insert i (marked b)"
  using bitmap_alloc_loop_ok [OF assms(1), of 0 "length (bm_v b)"] assms(2) bitmap_length [OF assms(1)]
  by (auto simp: bitmap_alloc_def)

lemma bitmap_alloc_full:
  assumes "bitmap_inv b" "marked b = {..<unat (nbits b)}"
  shows "bitmap_alloc b = Inr (ENOSPC, 0, b)"
  using bitmap_alloc_loop_ok [OF assms(1), of 0 "length (bm_v b)"] assms(2) bitmap_length [OF assms(1)]
  by (auto simp: bitmap_alloc_def)

lemma mark_leftover_bit: "bit (mark_leftover n j w) m \<longleftrightarrow> bit w m \<or> (j \<le> m \<and> m < j + n \<and> m < 8)"
  by (induction n j w rule: mark_leftover.induct) (auto simp: bit_simps)

lemma bitmap_create_ok:
  assumes "unat n + 7 < 2 ^ 32"
  shows "\<exists>b. bitmap_create True True n = Inr (Some b) \<and> nbits b = n \<and> bitmap_inv b \<and> marked b = {}"
proof -
  let ?k = "(unat n + 7) div 8" and ?r = "unat n mod 8"
  note w = bitmap_words [OF assms]
  have div: "unat n = 8 * (unat n div 8) + ?r" by simp
  show ?thesis
  proof (cases "?r = 0")
    case True
    then obtain q where q: "unat n = 8 * q" by blast
    then have k: "?k = q" by simp
    let ?b = "\<lparr>nbits = n, bm_v = replicate q 0\<rparr>"
    have "bitmap_create True True n = Inr (Some ?b)" using w k q by (simp add: bitmap_create_def Let_def BITS_PER_WORD_def)
    then show ?thesis using assms q k by (auto simp: bitmap_inv_def marked_def bm_bit_def)
  next
    case False
    have r: "?r < 8" by simp
    define q where "q = unat n div 8"
    have q: "unat n = 8 * q + ?r" using div by (simp add: q_def)
    have k: "?k = Suc q" using q False r by linarith
    let ?b = "\<lparr>nbits = n, bm_v = (replicate (Suc q) 0)[q := mark_leftover (8 - ?r) ?r 0]\<rparr>"
    have e: "unat n - q * 8 = ?r" "unat n div 8 = q" "replicate (Suc q) (0::byte) ! q = 0"
      by (simp_all add: q_def minus_div_mult_eq_mod del: replicate_Suc)
    have "bitmap_create True True n = Inr (Some ?b)"
      using w k False r e by (simp add: bitmap_create_def Let_def BITS_PER_WORD_def del: replicate_Suc)
    moreover have bits: "bm_bit ?b i \<longleftrightarrow> i div 8 = q \<and> ?r \<le> i mod 8" if "i < 8 * Suc q" for i
    proof -
      have iq: "i div 8 < Suc q" using that by auto
      then have "bm_v ?b ! (i div 8) = (if i div 8 = q then mark_leftover (8 - ?r) ?r 0 else 0)"
        by (auto simp: nth_list_update simp del: replicate_Suc)
      then show ?thesis using iq r by (auto simp: bm_bit_def mark_leftover_bit simp del: replicate_Suc)
    qed
    moreover have "i div 8 = q \<and> ?r \<le> i mod 8 \<longleftrightarrow> unat n \<le> i" if "i < 8 * Suc q" for i
    proof -
      have "d = q \<and> x \<le> m \<longleftrightarrow> 8 * q + x \<le> d * 8 + m" if "d * 8 + m < 8 * Suc q" "m < 8" "x < 8" for d m x
        using that by (cases "d = q") auto
      from this [of "i div 8" "i mod 8" ?r] show ?thesis using that q r by simp
    qed
    moreover have "i < 8 * Suc q" if "i < unat n" for i using that q r by simp
    ultimately show ?thesis using assms k by (auto simp: bitmap_inv_def marked_def simp del: replicate_Suc)
  qed
qed

section \<open>Contract\<close>

text \<open>A number of allocations in a row.\<close>

fun take_all :: "('b \<Rightarrow> (int \<times> nat \<times> 'b) res) \<Rightarrow> nat \<Rightarrow> 'b \<Rightarrow> (nat list \<times> 'b) option" where
  "take_all alloc 0 b = Some ([], b)"
| "take_all alloc (Suc n) b =
     (case alloc b of
        Inr (e, i, b1) \<Rightarrow> if e = 0 then map_option (\<lambda>(is, b2). (i # is, b2)) (take_all alloc n b1) else None
      | Inl _ \<Rightarrow> None)"

text \<open>
  What the file system relies on: a finite set of numbers that can be allocated, marked and
  released.
\<close>

locale number_pool =
  fixes inv :: "'b \<Rightarrow> bool"
    and used :: "'b \<Rightarrow> nat set"
    and capacity :: "'b \<Rightarrow> nat"
    and alloc :: "'b \<Rightarrow> (int \<times> nat \<times> 'b) res"
    and unmark :: "'b \<Rightarrow> nat \<Rightarrow> 'b res"
  assumes used_sub: "inv b \<Longrightarrow> used b \<subseteq> {..<capacity b}"
    and alloc_ok: "inv b \<Longrightarrow> used b \<noteq> {..<capacity b} \<Longrightarrow>
      \<exists>i b'. alloc b = Inr (0, i, b') \<and> i < capacity b \<and> i \<notin> used b \<and> (\<forall>j < i. j \<in> used b) \<and>
        inv b' \<and> capacity b' = capacity b \<and> used b' = insert i (used b)"
    and alloc_full: "inv b \<Longrightarrow> used b = {..<capacity b} \<Longrightarrow> alloc b = Inr (ENOSPC, 0, b)"
    and unmark_ok: "inv b \<Longrightarrow> i \<in> used b \<Longrightarrow>
      \<exists>b'. unmark b i = Inr b' \<and> inv b' \<and> capacity b' = capacity b \<and> used b' = used b - {i}"
begin

text \<open>A number that was allocated and released is available again.\<close>

lemma alloc_unmark:
  assumes "inv b" "used b \<noteq> {..<capacity b}"
  shows "\<exists>i b1 b2. alloc b = Inr (0, i, b1) \<and> unmark b1 i = Inr b2 \<and> inv b2 \<and> used b2 = used b"
proof -
  obtain i b1 where 1: "alloc b = Inr (0, i, b1)" "i \<notin> used b" "inv b1" "used b1 = insert i (used b)"
    using alloc_ok [OF assms] by blast
  then obtain b2 where "unmark b1 i = Inr b2" "inv b2" "used b2 = used b1 - {i}"
    using unmark_ok [OF 1(3), of i] by auto
  then show ?thesis using 1 by auto
qed

text \<open>As many allocations succeed as there are free numbers, and they return distinct ones.\<close>

lemma take_all_ok:
  "inv b \<Longrightarrow> n \<le> capacity b - card (used b) \<Longrightarrow>
   \<exists>is b'. take_all alloc n b = Some (is, b') \<and> inv b' \<and> length is = n \<and> distinct is \<and> set is \<inter> used b = {} \<and>
     used b' = used b \<union> set is"
proof (induction n arbitrary: b)
  case (Suc n)
  have fin: "finite (used b)" using used_sub [OF Suc.prems(1)] finite_subset by blast
  have "used b \<noteq> {..<capacity b}" using Suc.prems(2) by (intro notI) simp
  from alloc_ok [OF Suc.prems(1) this] obtain i b1 where
    1: "alloc b = Inr (0, i, b1)" "i \<notin> used b" "inv b1" "capacity b1 = capacity b" "used b1 = insert i (used b)" by blast
  have "n \<le> capacity b1 - card (used b1)" using Suc.prems(2) 1(2,4,5) fin by simp
  then obtain "is" b' where "take_all alloc n b1 = Some (is, b')" "inv b'" "length is = n" "distinct is"
    "set is \<inter> used b1 = {}" "used b' = used b1 \<union> set is" using Suc.IH [OF 1(3)] by blast
  then show ?case using 1 by auto
qed simp

end

interpretation bm: number_pool bitmap_inv marked "\<lambda>b. unat (nbits b)" bitmap_alloc bitmap_unmark
proof unfold_locales
  fix b i
  assume a: "bitmap_inv b" "i \<in> marked b"
  show "\<exists>b'. bitmap_unmark b i = Inr b' \<and> bitmap_inv b' \<and> unat (nbits b') = unat (nbits b) \<and> marked b' = marked b - {i}"
    using bitmap_unmark_ok(1) [OF a(1) marked_less [OF a(2)] a(2)] by metis
next
  fix b assume a: "bitmap_inv b" "marked b \<noteq> {..<unat (nbits b)}"
  show "\<exists>i b'. bitmap_alloc b = Inr (0, i, b') \<and> i < unat (nbits b) \<and> i \<notin> marked b \<and> (\<forall>j < i. j \<in> marked b) \<and>
        bitmap_inv b' \<and> unat (nbits b') = unat (nbits b) \<and> marked b' = insert i (marked b)"
    using bitmap_alloc_ok [OF a] by metis
next
  fix b assume "bitmap_inv b" "marked b = {..<unat (nbits b)}"
  then show "bitmap_alloc b = Inr (ENOSPC, 0, b)" by (rule bitmap_alloc_full)
qed (auto simp: marked_def)

section \<open>Properties\<close>

text \<open>A new bitmap has every bit below \<open>nbits\<close> clear and the leftover bits of its last byte set.
  This needs \<open>nbits\<close> to be at most \<open>2^32 - 8\<close>: above that the number of bytes wraps around to 0
  and the bitmap has no bytes at all.\<close>

theorem bitmap_create_bounds:
  "\<exists>b. bitmap_create True True n = Inr (Some b) \<and> nbits b = n \<and>
    (if unat n + 7 < 2 ^ 32 then bitmap_inv b \<and> marked b = {} else bm_v b = [] \<and> bitmap_alloc b = Inr (ENOSPC, 0, b))"
proof (cases "unat n + 7 < 2 ^ 32")
  case True
  then show ?thesis using bitmap_create_ok by simp
next
  case False
  have "unat (n + 7) = (unat n + 7) mod 2 ^ 32" by (simp add: unat_word_ariths)
  also have "\<dots> = unat n + 7 - 2 ^ 32" using False unsigned_less [of n, where ?'a = nat] by (simp add: mod_if)
  also have "\<dots> < 8" using unsigned_less [of n, where ?'a = nat] by simp
  finally have "unat ((n + 7) div 8) = 0" unfolding unat_div by simp
  moreover have "n + 8 - 1 = n + 7" by simp
  ultimately have "DIVROUNDUP n 8 = 0" unfolding DIVROUNDUP_def by (simp only: unat_eq_zero)
  then show ?thesis using False by (simp add: bitmap_create_def bitmap_alloc_def)
qed

text \<open>C19. Allocation returns the lowest clear bit and sets it, exactly when there is one, and
  otherwise the error \<open>ENOSPC\<close>; releasing the bit restores the set of marked bits. From any
  state, as many allocations succeed as there are clear bits, all with different results.\<close>

theorem bitmap_allocator:
  assumes "bitmap_inv b"
  shows "(if marked b = {..<unat (nbits b)} then bitmap_alloc b = Inr (ENOSPC, 0, b)
     else \<exists>i b1 b2. bitmap_alloc b = Inr (0, i, b1) \<and> i \<notin> marked b \<and> {..<i} \<subseteq> marked b \<and> bitmap_inv b1 \<and>
       marked b1 = insert i (marked b) \<and> bitmap_unmark b1 i = Inr b2 \<and> bitmap_inv b2 \<and> marked b2 = marked b) \<and>
    (\<forall>n \<le> unat (nbits b) - card (marked b). \<exists>is b'. take_all bitmap_alloc n b = Some (is, b') \<and>
       length is = n \<and> distinct is \<and> set is \<inter> marked b = {})"
proof (intro conjI allI impI)
  show "if marked b = {..<unat (nbits b)} then bitmap_alloc b = Inr (ENOSPC, 0, b)
     else \<exists>i b1 b2. bitmap_alloc b = Inr (0, i, b1) \<and> i \<notin> marked b \<and> {..<i} \<subseteq> marked b \<and> bitmap_inv b1 \<and>
       marked b1 = insert i (marked b) \<and> bitmap_unmark b1 i = Inr b2 \<and> bitmap_inv b2 \<and> marked b2 = marked b"
  proof (cases "marked b = {..<unat (nbits b)}")
    case False
    obtain i b1 where 1: "bitmap_alloc b = Inr (0, i, b1)" "i \<notin> marked b" "\<forall>j < i. j \<in> marked b" "bitmap_inv b1"
      "marked b1 = insert i (marked b)" using bm.alloc_ok [OF assms False] by blast
    obtain b2 where "bitmap_unmark b1 i = Inr b2" "bitmap_inv b2" "marked b2 = marked b"
      using bm.alloc_unmark [OF assms False] 1(1) by auto
    then show ?thesis using 1 False by auto
  qed (use bm.alloc_full [OF assms] in simp)
  show "\<exists>is b'. take_all bitmap_alloc n b = Some (is, b') \<and> length is = n \<and> distinct is \<and> set is \<inter> marked b = {}"
    if "n \<le> unat (nbits b) - card (marked b)" for n
    using bm.take_all_ok [OF assms that] by blast
qed

theorem bitmap_allocator_witness:
  "\<exists>b i b1. bitmap_create True True 10 = Inr (Some b) \<and> bitmap_alloc b = Inr (0, i, b1) \<and> marked b1 = {i}"
proof -
  have u: "unat (10 :: u32) = 10" by simp
  obtain b where b: "bitmap_create True True 10 = Inr (Some b)" "nbits b = 10" "bitmap_inv b" "marked b = {}"
    using bitmap_create_ok [of 10] by auto
  have "(0::nat) \<in> {..<unat (nbits b)}" unfolding b(2) u by simp
  then show ?thesis using bitmap_allocator [OF b(3)] b by (metis empty_iff)
qed

end
