(* ===== verification/Sfs.thy ===== *)
theory Sfs
  imports Lhd Bitmap
begin

text \<open>
  The simple file system, \<^verbatim>\<open>kern/fs/sfs\<close>. A volume is a structure with the in-memory superblock, the
  free map, the table of loaded vnodes and the device; vnodes are kept in a store indexed by
  their addresses. Static buffers and structures that are read or written as a block are byte
  lists. The VFS big lock, which only nests here, is a counter. \<^verbatim>\<open>kmalloc\<close> results are arguments.
\<close>

section \<open>On-disk structures\<close>

definition SFS_MAGIC :: u32 where "SFS_MAGIC = 0xabadf001"
definition SFS_BLOCKSIZE :: nat where "SFS_BLOCKSIZE = 512"
definition SFS_NDIRECT :: nat where "SFS_NDIRECT = 15"
definition SFS_NINDIRECT :: nat where "SFS_NINDIRECT = 1"
definition SFS_DBPERIDB :: nat where "SFS_DBPERIDB = 128"
definition SFS_NAMELEN :: nat where "SFS_NAMELEN = 60"
definition SFS_SUPER_BLOCK :: u32 where "SFS_SUPER_BLOCK = 0"
definition SFS_FREEMAP_START :: u32 where "SFS_FREEMAP_START = 2"
definition SFS_NOINO :: u32 where "SFS_NOINO = 0"
definition SFS_ROOTDIR_INO :: u32 where "SFS_ROOTDIR_INO = 1"
definition SFS_BITSPERBLOCK :: u32 where "SFS_BITSPERBLOCK = 4096"
definition SFS_TYPE_INVAL :: "16 word" where "SFS_TYPE_INVAL = 0"
definition SFS_TYPE_FILE :: "16 word" where "SFS_TYPE_FILE = 1"
definition SFS_TYPE_DIR :: "16 word" where "SFS_TYPE_DIR = 2"

definition SFS_FREEMAPBITS :: "u32 \<Rightarrow> u32" where
  "SFS_FREEMAPBITS nblocks = (nblocks + SFS_BITSPERBLOCK - 1) div SFS_BITSPERBLOCK * SFS_BITSPERBLOCK"

definition SFS_FREEMAPBLOCKS :: "u32 \<Rightarrow> u32" where
  "SFS_FREEMAPBLOCKS nblocks = SFS_FREEMAPBITS nblocks div SFS_BITSPERBLOCK"

record sfs_superblock =
  sb_magic :: u32
  sb_nblocks :: u32
  sb_volname :: "byte list"
  sb_reserved :: "byte list"

record sfs_dinode =
  sfi_size :: u32
  sfi_type :: "16 word"
  sfi_linkcount :: "16 word"
  sfi_direct :: "u32 list"
  sfi_indirect :: u32
  sfi_waste :: "u32 list"

record sfs_direntry =
  sfd_ino :: u32
  sfd_name :: "byte list"

text \<open>Words in memory are big-endian.\<close>

definition word_bytes :: "u32 \<Rightarrow> byte list" where
  "word_bytes w = map (\<lambda>i. ucast (drop_bit i w)) [24, 16, 8, 0]"

fun words_of :: "byte list \<Rightarrow> u32 list" where
  "words_of (a # b # c # d # bs) =
     (push_bit 24 (ucast a) OR push_bit 16 (ucast b) OR push_bit 8 (ucast c) OR ucast d) # words_of bs"
| "words_of _ = []"

definition bytes_of :: "u32 list \<Rightarrow> byte list" where
  "bytes_of ws = concat (map word_bytes ws)"

definition super_of :: "byte list \<Rightarrow> sfs_superblock" where
  "super_of bs = \<lparr>sb_magic = words_of bs ! 0, sb_nblocks = words_of bs ! 1,
     sb_volname = take 32 (drop 8 bs), sb_reserved = drop 40 bs\<rparr>"

definition super_bytes :: "sfs_superblock \<Rightarrow> byte list" where
  "super_bytes sb = bytes_of [sb_magic sb, sb_nblocks sb] @ sb_volname sb @ sb_reserved sb"

definition dinode_of :: "byte list \<Rightarrow> sfs_dinode" where
  "dinode_of bs = (let ws = words_of bs in
     \<lparr>sfi_size = ws ! 0, sfi_type = ucast (drop_bit 16 (ws ! 1)), sfi_linkcount = ucast (ws ! 1),
      sfi_direct = take SFS_NDIRECT (drop 2 ws), sfi_indirect = ws ! 17, sfi_waste = drop 18 ws\<rparr>)"

definition dinode_bytes :: "sfs_dinode \<Rightarrow> byte list" where
  "dinode_bytes di = bytes_of ([sfi_size di, push_bit 16 (ucast (sfi_type di)) OR ucast (sfi_linkcount di)] @
     sfi_direct di @ [sfi_indirect di] @ sfi_waste di)"

definition direntry_of :: "byte list \<Rightarrow> sfs_direntry" where
  "direntry_of bs = \<lparr>sfd_ino = words_of bs ! 0, sfd_name = drop 4 bs\<rparr>"

definition direntry_bytes :: "sfs_direntry \<Rightarrow> byte list" where
  "direntry_bytes sd = bytes_of [sfd_ino sd] @ sfd_name sd"

definition SIZEOF_DIRENTRY :: nat where "SIZEOF_DIRENTRY = 64"

section \<open>In-memory structures\<close>

datatype sfs_ops = sfs_fileops | sfs_dirops

record sfs_vnode =
  vn_refcount :: int
  vn_ops :: sfs_ops
  sv_i :: sfs_dinode
  sv_ino :: u32
  sv_dirty :: bool

record sfs_fs =
  sfs_sb :: sfs_superblock
  sfs_superdirty :: bool
  sfs_device :: device
  sfs_vnodes :: "nat list"
  sfs_freemap :: bitmap
  sfs_freemapdirty :: bool
  sfs_heap :: "nat \<Rightarrow> sfs_vnode option"
  biglock :: nat

definition vfs_biglock_acquire :: "sfs_fs \<Rightarrow> sfs_fs" where
  "vfs_biglock_acquire sfs = sfs\<lparr>biglock := biglock sfs + 1\<rparr>"

definition vfs_biglock_release :: "sfs_fs \<Rightarrow> sfs_fs res" where
  "vfs_biglock_release sfs = (if biglock sfs = 0 then Inl Kassert else Inr (sfs\<lparr>biglock := biglock sfs - 1\<rparr>))"

definition vfs_biglock_do_i_hold :: "sfs_fs \<Rightarrow> bool" where
  "vfs_biglock_do_i_hold sfs \<longleftrightarrow> biglock sfs > 0"

text \<open>Returning a result after releasing the big lock.\<close>

definition unlocked :: "'a \<Rightarrow> sfs_fs \<Rightarrow> ('a \<times> sfs_fs) res" where
  "unlocked r sfs = bindR (vfs_biglock_release sfs) (\<lambda>sfs. Inr (r, sfs))"

definition the_vnode :: "sfs_fs \<Rightarrow> nat \<Rightarrow> sfs_vnode res" where
  "the_vnode sfs sv = (case sfs_heap sfs sv of None \<Rightarrow> Inl NullDeref | Some s \<Rightarrow> Inr s)"

definition set_vnode :: "nat \<Rightarrow> sfs_vnode \<Rightarrow> sfs_fs \<Rightarrow> sfs_fs" where
  "set_vnode sv s sfs = sfs\<lparr>sfs_heap := (sfs_heap sfs)(sv \<mapsto> s)\<rparr>"

text \<open>Changing the inode of a vnode marks it dirty.\<close>

definition set_inode :: "nat \<Rightarrow> (sfs_dinode \<Rightarrow> sfs_dinode) \<Rightarrow> sfs_fs \<Rightarrow> sfs_fs" where
  "set_inode sv f sfs = (case sfs_heap sfs sv of None \<Rightarrow> sfs
     | Some s \<Rightarrow> set_vnode sv (s\<lparr>sv_i := f (sv_i s), sv_dirty := True\<rparr>) sfs)"

section \<open>Block input and output (sfs_io.c)\<close>

fun rwblock_retry :: "nat \<Rightarrow> uio1 \<Rightarrow> sfs_fs \<Rightarrow> (int \<times> uio1 \<times> sfs_fs) res" where
  "rwblock_retry tries u sfs =
     bindR (lhd_io u (sfs_device sfs)) (\<lambda>(result, u, d).
     let sfs = sfs\<lparr>sfs_device := d\<rparr> in
     if result = EINVAL then Inl (Panic ''sfs: DEVOP_IO returned EINVAL'')
     else if result = EIO then
       (case tries of 0 \<Rightarrow> Inr (result, u, sfs) | Suc tries \<Rightarrow> rwblock_retry tries u sfs)
     else Inr (result, u, sfs))"

definition sfs_rwblock :: "uio1 \<Rightarrow> sfs_fs \<Rightarrow> (int \<times> uio1 \<times> sfs_fs) res" where
  "sfs_rwblock u sfs = (if \<not> vfs_biglock_do_i_hold sfs then Inl Kassert else rwblock_retry 10 u sfs)"

definition sfs_readblock :: "sfs_fs \<Rightarrow> u32 \<Rightarrow> byte list \<Rightarrow> (int \<times> byte list \<times> sfs_fs) res" where
  "sfs_readblock sfs block data =
     (if length data \<noteq> SFS_BLOCKSIZE then Inl Kassert
      else bindR (sfs_rwblock (uio1_kinit data (int (unat block) * int SFS_BLOCKSIZE) UIO_READ) sfs)
        (\<lambda>(result, u, sfs). Inr (result, x_mem u, sfs)))"

definition sfs_writeblock :: "sfs_fs \<Rightarrow> u32 \<Rightarrow> byte list \<Rightarrow> (int \<times> sfs_fs) res" where
  "sfs_writeblock sfs block data =
     (if length data \<noteq> SFS_BLOCKSIZE then Inl Kassert
      else bindR (sfs_rwblock (uio1_kinit data (int (unat block) * int SFS_BLOCKSIZE) UIO_WRITE) sfs)
        (\<lambda>(result, u, sfs). Inr (result, sfs)))"

section \<open>Block allocation (sfs_balloc.c)\<close>

definition zeros :: "byte list" where "zeros = replicate SFS_BLOCKSIZE 0"

definition sfs_clearblock :: "sfs_fs \<Rightarrow> u32 \<Rightarrow> (int \<times> sfs_fs) res" where
  "sfs_clearblock sfs block = sfs_writeblock sfs block zeros"

definition sfs_balloc :: "sfs_fs \<Rightarrow> (int \<times> u32 \<times> sfs_fs) res" where
  "sfs_balloc sfs =
     bindR (bitmap_alloc (sfs_freemap sfs)) (\<lambda>(result, ix, bm).
     if result \<noteq> 0 then Inr (result, 0, sfs)
     else let diskblock = of_nat ix; sfs = sfs\<lparr>sfs_freemap := bm, sfs_freemapdirty := True\<rparr> in
     if diskblock \<ge> sb_nblocks (sfs_sb sfs) then Inl (Panic ''sfs: balloc: invalid block'')
     else bindR (sfs_clearblock sfs diskblock) (\<lambda>(result, sfs).
     if result \<noteq> 0 then
       bindR (bitmap_unmark (sfs_freemap sfs) (unat diskblock)) (\<lambda>bm. Inr (result, diskblock, sfs\<lparr>sfs_freemap := bm\<rparr>))
     else Inr (0, diskblock, sfs)))"

definition sfs_bfree :: "sfs_fs \<Rightarrow> u32 \<Rightarrow> sfs_fs res" where
  "sfs_bfree sfs diskblock =
     bindR (bitmap_unmark (sfs_freemap sfs) (unat diskblock)) (\<lambda>bm.
     Inr (sfs\<lparr>sfs_freemap := bm, sfs_freemapdirty := True\<rparr>))"

definition sfs_bused :: "sfs_fs \<Rightarrow> u32 \<Rightarrow> bool res" where
  "sfs_bused sfs diskblock =
     (if diskblock \<ge> sb_nblocks (sfs_sb sfs) then Inl (Panic ''sfs_bused called on out of range block'')
      else bindR (bitmap_isset (sfs_freemap sfs) (unat diskblock)) (\<lambda>r. Inr (r \<noteq> 0)))"

section \<open>Block mapping (sfs_bmap.c)\<close>

text \<open>The check before a block is handed back.\<close>

definition hand_back :: "u32 \<Rightarrow> sfs_fs \<Rightarrow> (int \<times> u32 \<times> sfs_fs) res" where
  "hand_back block sfs =
     (if block = 0 then Inr (0, block, sfs)
      else bindR (sfs_bused sfs block) (\<lambda>used.
      if \<not> used then Inl (Panic ''sfs: Data block marked free'') else Inr (0, block, sfs)))"

definition bmap_direct :: "sfs_fs \<Rightarrow> nat \<Rightarrow> u32 \<Rightarrow> bool \<Rightarrow> (int \<times> u32 \<times> sfs_fs) res" where
  "bmap_direct sfs sv fileblock doalloc =
     bindR (the_vnode sfs sv) (\<lambda>s.
     let block = sfi_direct (sv_i s) ! unat fileblock in
     if block = 0 \<and> doalloc then
       bindR (sfs_balloc sfs) (\<lambda>(result, block, sfs).
       if result \<noteq> 0 then Inr (result, 0, sfs)
       else hand_back block
              (set_inode sv (\<lambda>i. i\<lparr>sfi_direct := (sfi_direct i)[unat fileblock := block]\<rparr>) sfs))
     else hand_back block sfs)"

text \<open>The indirect block: its number and its contents, allocated if necessary.\<close>

definition bmap_idblock :: "sfs_fs \<Rightarrow> nat \<Rightarrow> (int \<times> u32 \<times> u32 list \<times> sfs_fs) res" where
  "bmap_idblock sfs sv =
     bindR (the_vnode sfs sv) (\<lambda>s.
     let idblock = sfi_indirect (sv_i s) in
     if idblock = 0 then
       bindR (sfs_balloc sfs) (\<lambda>(result, idblock, sfs).
       if result \<noteq> 0 then Inr (result, 0, [], sfs)
       else Inr (0, idblock, words_of zeros, set_inode sv (\<lambda>i. i\<lparr>sfi_indirect := idblock\<rparr>) sfs))
     else bindR (sfs_readblock sfs idblock zeros) (\<lambda>(result, idbuf, sfs). Inr (result, idblock, words_of idbuf, sfs)))"

definition bmap_indirect :: "sfs_fs \<Rightarrow> nat \<Rightarrow> nat \<Rightarrow> bool \<Rightarrow> (int \<times> u32 \<times> sfs_fs) res" where
  "bmap_indirect sfs sv idoff doalloc =
     bindR (bmap_idblock sfs sv) (\<lambda>(result, idblock, idbuf, sfs).
     if result \<noteq> 0 then Inr (result, 0, sfs)
     else let block = idbuf ! idoff in
     if block = 0 \<and> doalloc then
       bindR (sfs_balloc sfs) (\<lambda>(result, block, sfs).
       if result \<noteq> 0 then Inr (result, 0, sfs)
       else bindR (sfs_writeblock sfs idblock (bytes_of (idbuf[idoff := block]))) (\<lambda>(result, sfs).
       if result \<noteq> 0 then Inr (result, 0, sfs) else hand_back block sfs))
     else hand_back block sfs)"

definition sfs_bmap :: "sfs_fs \<Rightarrow> nat \<Rightarrow> u32 \<Rightarrow> bool \<Rightarrow> (int \<times> u32 \<times> sfs_fs) res" where
  "sfs_bmap sfs sv fileblock doalloc =
     (if \<not> vfs_biglock_do_i_hold sfs then Inl Kassert
      else if unat fileblock < SFS_NDIRECT then bmap_direct sfs sv fileblock doalloc
      else let fileblock = unat fileblock - SFS_NDIRECT;
          idnum = fileblock div SFS_DBPERIDB; idoff = fileblock mod SFS_DBPERIDB in
      if idnum \<ge> SFS_NINDIRECT then Inr (EFBIG, 0, sfs)
      else bindR (the_vnode sfs sv) (\<lambda>s.
      if sfi_indirect (sv_i s) = 0 \<and> \<not> doalloc then Inr (0, 0, sfs)
      else bmap_indirect sfs sv idoff doalloc))"

text \<open>\<^verbatim>\<open>sfs_itrunc\<close>: the loop over the direct blocks, the loop over the indirect block, and the rest.\<close>

fun trunc_direct :: "nat \<Rightarrow> nat \<Rightarrow> nat \<Rightarrow> u32 \<Rightarrow> sfs_fs \<Rightarrow> sfs_fs res" where
  "trunc_direct 0 i sv blocklen sfs = Inr sfs"
| "trunc_direct (Suc n) i sv blocklen sfs =
     bindR (the_vnode sfs sv) (\<lambda>s.
     let block = sfi_direct (sv_i s) ! i in
     bindR (if unat blocklen \<le> i \<and> block \<noteq> 0 then
              bindR (sfs_bfree sfs block) (\<lambda>sfs.
              Inr (set_inode sv (\<lambda>di. di\<lparr>sfi_direct := (sfi_direct di)[i := 0]\<rparr>) sfs))
            else Inr sfs)
     (\<lambda>sfs. trunc_direct n (Suc i) sv blocklen sfs))"

fun trunc_indirect :: "nat \<Rightarrow> nat \<Rightarrow> u32 \<Rightarrow> u32 list \<Rightarrow> bool \<Rightarrow> bool \<Rightarrow> sfs_fs \<Rightarrow> (u32 list \<times> bool \<times> bool \<times> sfs_fs) res" where
  "trunc_indirect 0 j blocklen idbuf hasnonzero iddirty sfs = Inr (idbuf, hasnonzero, iddirty, sfs)"
| "trunc_indirect (Suc n) j blocklen idbuf hasnonzero iddirty sfs =
     (if unat blocklen < SFS_NDIRECT + j \<and> idbuf ! j \<noteq> 0 then
        bindR (sfs_bfree sfs (idbuf ! j)) (\<lambda>sfs.
        trunc_indirect n (Suc j) blocklen (idbuf[j := 0]) hasnonzero True sfs)
      else trunc_indirect n (Suc j) blocklen idbuf (hasnonzero \<or> idbuf ! j \<noteq> 0) iddirty sfs)"

definition trunc_idblock :: "sfs_fs \<Rightarrow> nat \<Rightarrow> u32 \<Rightarrow> u32 \<Rightarrow> (int \<times> sfs_fs) res" where
  "trunc_idblock sfs sv blocklen idblock =
     bindR (sfs_readblock sfs idblock zeros) (\<lambda>(result, idbuf, sfs).
     if result \<noteq> 0 then Inr (result, sfs)
     else bindR (trunc_indirect SFS_DBPERIDB 0 blocklen (words_of idbuf) False False sfs) (\<lambda>(idbuf, hasnonzero, iddirty, sfs).
     if \<not> hasnonzero then
       bindR (sfs_bfree sfs idblock) (\<lambda>sfs. Inr (0, set_inode sv (\<lambda>di. di\<lparr>sfi_indirect := 0\<rparr>) sfs))
     else if iddirty then sfs_writeblock sfs idblock (bytes_of idbuf)
     else Inr (0, sfs)))"

definition sfs_itrunc :: "sfs_fs \<Rightarrow> nat \<Rightarrow> int \<Rightarrow> (int \<times> sfs_fs) res" where
  "sfs_itrunc sfs sv len =
     (let blocklen = word_of_int ((len + int SFS_BLOCKSIZE - 1) div int SFS_BLOCKSIZE) in
      bindR (trunc_direct SFS_NDIRECT 0 sv blocklen (vfs_biglock_acquire sfs)) (\<lambda>sfs.
      bindR (the_vnode sfs sv) (\<lambda>s.
      let idblock = sfi_indirect (sv_i s); highblock = SFS_NDIRECT + SFS_DBPERIDB - 1 in
      bindR (if unat blocklen < highblock \<and> idblock \<noteq> 0 then trunc_idblock sfs sv blocklen idblock else Inr (0, sfs))
      (\<lambda>(result, sfs).
      if result \<noteq> 0 then unlocked result sfs
      else unlocked 0 (set_inode sv (\<lambda>di. di\<lparr>sfi_size := word_of_int len\<rparr>) sfs)))))"

section \<open>File input and output (sfs_io.c)\<close>

definition sfs_partialio :: "nat \<Rightarrow> uio1 \<Rightarrow> nat \<Rightarrow> nat \<Rightarrow> sfs_fs \<Rightarrow> (int \<times> uio1 \<times> sfs_fs) res" where
  "sfs_partialio sv u skipstart len sfs =
     (let doalloc = (x_rw u = UIO_WRITE) in
      if \<not> skipstart + len \<le> SFS_BLOCKSIZE then Inl Kassert
      else if \<not> vfs_biglock_do_i_hold sfs then Inl Kassert
      else bindR (sfs_bmap sfs sv (word_of_int (x_offset u div int SFS_BLOCKSIZE)) doalloc) (\<lambda>(result, diskblock, sfs).
      if result \<noteq> 0 then Inr (result, u, sfs)
      else if diskblock = 0 \<and> x_rw u \<noteq> UIO_READ then Inl Kassert
      else bindR (if diskblock = 0 then Inr (0, zeros, sfs) else sfs_readblock sfs diskblock zeros) (\<lambda>(result, iobuf, sfs).
      if result \<noteq> 0 then Inr (result, u, sfs)
      else bindR (uiomove1 (take len (drop skipstart iobuf)) u) (\<lambda>(result, part, u).
      if result \<noteq> 0 then Inr (result, u, sfs)
      else if x_rw u = UIO_WRITE then
        bindR (sfs_writeblock sfs diskblock (overwrite iobuf skipstart part)) (\<lambda>(result, sfs). Inr (result, u, sfs))
      else Inr (0, u, sfs)))))"

text \<open>\<^verbatim>\<open>sfs_blockio\<close> computes the disk offset in 32 bits.\<close>

definition sfs_blockio :: "nat \<Rightarrow> uio1 \<Rightarrow> sfs_fs \<Rightarrow> (int \<times> uio1 \<times> sfs_fs) res" where
  "sfs_blockio sv u sfs =
     (let doalloc = (x_rw u = UIO_WRITE) in
      bindR (sfs_bmap sfs sv (word_of_int (x_offset u div int SFS_BLOCKSIZE)) doalloc) (\<lambda>(result, diskblock, sfs).
      if result \<noteq> 0 then Inr (result, u, sfs)
      else if diskblock = 0 then
        (if x_rw u \<noteq> UIO_READ then Inl Kassert
         else bindR (uiomovezeros1 SFS_BLOCKSIZE u) (\<lambda>(result, u). Inr (result, u, sfs)))
      else let saveoff = x_offset u; diskoff = int (unat (diskblock * of_nat SFS_BLOCKSIZE)) in
      if \<not> unat (x_resid u) \<ge> SFS_BLOCKSIZE then Inl Kassert
      else let saveres = x_resid u; diskres = of_nat SFS_BLOCKSIZE in
      bindR (sfs_rwblock (u\<lparr>x_offset := diskoff, x_resid := diskres\<rparr>) sfs) (\<lambda>(result, u, sfs).
      Inr (result, u\<lparr>x_offset := x_offset u - diskoff + saveoff, x_resid := x_resid u - diskres + saveres\<rparr>, sfs))))"

fun blockio_loop :: "nat \<Rightarrow> nat \<Rightarrow> uio1 \<Rightarrow> sfs_fs \<Rightarrow> (int \<times> uio1 \<times> sfs_fs) res" where
  "blockio_loop 0 sv u sfs = Inr (0, u, sfs)"
| "blockio_loop (Suc n) sv u sfs =
     bindR (sfs_blockio sv u sfs) (\<lambda>(result, u, sfs).
     if result \<noteq> 0 then Inr (result, u, sfs) else blockio_loop n sv u sfs)"

text \<open>The body of \<^verbatim>\<open>sfs_io\<close> up to its label \<^verbatim>\<open>out\<close>.\<close>

definition sfs_io_body :: "nat \<Rightarrow> uio1 \<Rightarrow> sfs_fs \<Rightarrow> (int \<times> uio1 \<times> sfs_fs) res" where
  "sfs_io_body sv u sfs =
     (let blkoff = nat (x_offset u mod int SFS_BLOCKSIZE) in
      bindR (if blkoff \<noteq> 0 then sfs_partialio sv u blkoff (min (SFS_BLOCKSIZE - blkoff) (unat (x_resid u))) sfs
             else Inr (0, u, sfs)) (\<lambda>(result, u, sfs).
      if result \<noteq> 0 then Inr (result, u, sfs)
      else if x_resid u = 0 then Inr (0, u, sfs)
      else if x_offset u mod int SFS_BLOCKSIZE \<noteq> 0 then Inl Kassert
      else bindR (blockio_loop (unat (x_resid u) div SFS_BLOCKSIZE) sv u sfs) (\<lambda>(result, u, sfs).
      if result \<noteq> 0 then Inr (result, u, sfs)
      else if \<not> unat (x_resid u) < SFS_BLOCKSIZE then Inl Kassert
      else if x_resid u > 0 then sfs_partialio sv u 0 (unat (x_resid u)) sfs
      else Inr (0, u, sfs))))"

definition sfs_io :: "nat \<Rightarrow> uio1 \<Rightarrow> sfs_fs \<Rightarrow> (int \<times> uio1 \<times> sfs_fs) res" where
  "sfs_io sv u sfs =
     bindR (the_vnode sfs sv) (\<lambda>s.
     let origresid = x_resid u; fsize = int (unat (sfi_size (sv_i s)));
         endpos = x_offset u + int (unat (x_resid u)) in
     if x_rw u = UIO_READ \<and> x_offset u \<ge> fsize then Inr (0, u, sfs)
     else let extraresid = (if x_rw u = UIO_READ \<and> endpos > fsize then word_of_int (endpos - fsize) else 0) in
     if extraresid \<noteq> 0 \<and> \<not> x_resid u > extraresid then Inl Kassert
     else bindR (sfs_io_body sv (u\<lparr>x_resid := x_resid u - extraresid\<rparr>) sfs) (\<lambda>(result, u, sfs).
     bindR (the_vnode sfs sv) (\<lambda>s.
     let sfs = (if x_resid u \<noteq> origresid \<and> x_rw u = UIO_WRITE \<and> x_offset u > int (unat (sfi_size (sv_i s)))
                then set_inode sv (\<lambda>di. di\<lparr>sfi_size := word_of_int (x_offset u)\<rparr>) sfs else sfs) in
     Inr (result, u\<lparr>x_resid := x_resid u + extraresid\<rparr>, sfs))))"

text \<open>Metadata of \<open>len\<close> bytes at \<open>actualpos\<close>; \<open>data\<close> is what is written, or what a read starts from.\<close>

definition sfs_metaio :: "sfs_fs \<Rightarrow> nat \<Rightarrow> int \<Rightarrow> byte list \<Rightarrow> uio_rw \<Rightarrow> (int \<times> byte list \<times> sfs_fs) res" where
  "sfs_metaio sfs sv actualpos data rw =
     (if \<not> vfs_biglock_do_i_hold sfs then Inl Kassert
      else let vnblock = word_of_int (actualpos div int SFS_BLOCKSIZE);
          blockoffset = nat (actualpos mod int SFS_BLOCKSIZE) in
      bindR (sfs_bmap sfs sv vnblock (rw = UIO_WRITE)) (\<lambda>(result, diskblock, sfs).
      if result \<noteq> 0 then Inr (result, data, sfs)
      else if diskblock = 0 then
        (if rw \<noteq> UIO_READ then Inl Kassert else Inr (0, replicate (length data) 0, sfs))
      else bindR (sfs_readblock sfs diskblock zeros) (\<lambda>(result, metaiobuf, sfs).
      if result \<noteq> 0 then Inr (result, data, sfs)
      else if SFS_BLOCKSIZE < blockoffset + length data then Inl OutOfBounds
      else if rw = UIO_READ then Inr (0, take (length data) (drop blockoffset metaiobuf), sfs)
      else bindR (sfs_writeblock sfs diskblock (overwrite metaiobuf blockoffset data)) (\<lambda>(result, sfs).
      if result \<noteq> 0 then Inr (result, data, sfs)
      else bindR (the_vnode sfs sv) (\<lambda>s.
      let endpos = actualpos + int (length data) in
      Inr (0, data, if endpos > int (unat (sfi_size (sv_i s)))
                    then set_inode sv (\<lambda>di. di\<lparr>sfi_size := word_of_int endpos\<rparr>) sfs else sfs))))))"

section \<open>Directories (sfs_dir.c)\<close>

definition slot_pos :: "nat \<Rightarrow> int" where
  "slot_pos slot = int (unat (of_nat slot * of_nat SIZEOF_DIRENTRY :: u32))"

definition sfs_readdir :: "sfs_fs \<Rightarrow> nat \<Rightarrow> nat \<Rightarrow> (int \<times> sfs_direntry \<times> sfs_fs) res" where
  "sfs_readdir sfs sv slot =
     bindR (sfs_metaio sfs sv (slot_pos slot) (replicate SIZEOF_DIRENTRY 0) UIO_READ) (\<lambda>(result, bs, sfs).
     Inr (result, direntry_of bs, sfs))"

definition sfs_writedir :: "sfs_fs \<Rightarrow> nat \<Rightarrow> nat \<Rightarrow> sfs_direntry \<Rightarrow> (int \<times> sfs_fs) res" where
  "sfs_writedir sfs sv slot sd =
     bindR (sfs_metaio sfs sv (slot_pos slot) (direntry_bytes sd) UIO_WRITE) (\<lambda>(result, _, sfs). Inr (result, sfs))"

definition sfs_dir_nentries :: "sfs_fs \<Rightarrow> nat \<Rightarrow> nat res" where
  "sfs_dir_nentries sfs sv =
     bindR (the_vnode sfs sv) (\<lambda>s.
     if sfi_type (sv_i s) \<noteq> SFS_TYPE_DIR then Inl Kassert
     else let fsize = unat (sfi_size (sv_i s)) in
     if fsize mod SIZEOF_DIRENTRY \<noteq> 0 then Inl (Panic ''sfs: directory: Invalid size'')
     else Inr (fsize div SIZEOF_DIRENTRY))"

text \<open>The string in a field of characters.\<close>

definition string_of :: "byte list \<Rightarrow> byte list" where
  "string_of bs = takeWhile (\<lambda>b. b \<noteq> 0) bs"

fun findname_loop :: "nat \<Rightarrow> nat \<Rightarrow> nat \<Rightarrow> byte list \<Rightarrow> (u32 \<times> nat) option \<Rightarrow> nat option \<Rightarrow> sfs_fs \<Rightarrow>
    (int \<times> (u32 \<times> nat) option \<times> nat option \<times> sfs_fs) res" where
  "findname_loop 0 i sv name found emptyslot sfs =
     Inr (if found \<noteq> None then 0 else ENOENT, found, emptyslot, sfs)"
| "findname_loop (Suc n) i sv name found emptyslot sfs =
     bindR (sfs_readdir sfs sv i) (\<lambda>(result, tsd, sfs).
     if result \<noteq> 0 then Inr (result, found, emptyslot, sfs)
     else if sfd_ino tsd = SFS_NOINO then findname_loop n (Suc i) sv name found (Some i) sfs
     else if string_of ((sfd_name tsd)[SFS_NAMELEN - 1 := 0]) = name then
       (if found \<noteq> None then Inl Kassert
        else findname_loop n (Suc i) sv name (Some (sfd_ino tsd, i)) emptyslot sfs)
     else findname_loop n (Suc i) sv name found emptyslot sfs)"

definition sfs_dir_findname :: "sfs_fs \<Rightarrow> nat \<Rightarrow> byte list \<Rightarrow> (int \<times> (u32 \<times> nat) option \<times> nat option \<times> sfs_fs) res" where
  "sfs_dir_findname sfs sv name =
     bindR (sfs_dir_nentries sfs sv) (\<lambda>nentries. findname_loop nentries 0 sv name None None sfs)"

definition sfs_dir_link :: "sfs_fs \<Rightarrow> nat \<Rightarrow> byte list \<Rightarrow> u32 \<Rightarrow> (int \<times> nat \<times> sfs_fs) res" where
  "sfs_dir_link sfs sv name ino =
     bindR (sfs_dir_findname sfs sv name) (\<lambda>(result, _, emptyslot, sfs).
     if result \<noteq> 0 \<and> result \<noteq> ENOENT then Inr (result, 0, sfs)
     else if result = 0 then Inr (EEXIST, 0, sfs)
     else if length name + 1 > SFS_NAMELEN then Inr (ENAMETOOLONG, 0, sfs)
     else bindR (case emptyslot of None \<Rightarrow> sfs_dir_nentries sfs sv | Some e \<Rightarrow> Inr e) (\<lambda>emptyslot.
     bindR (sfs_writedir sfs sv emptyslot
              \<lparr>sfd_ino = ino, sfd_name = overwrite (replicate SFS_NAMELEN 0) 0 (name @ [0])\<rparr>) (\<lambda>(result, sfs).
     Inr (result, emptyslot, sfs))))"

definition sfs_dir_unlink :: "sfs_fs \<Rightarrow> nat \<Rightarrow> nat \<Rightarrow> (int \<times> sfs_fs) res" where
  "sfs_dir_unlink sfs sv slot =
     sfs_writedir sfs sv slot \<lparr>sfd_ino = SFS_NOINO, sfd_name = replicate SFS_NAMELEN 0\<rparr>"

section \<open>Inodes and vnodes (sfs_inode.c, vnode.c)\<close>

definition sfs_sync_inode :: "sfs_fs \<Rightarrow> nat \<Rightarrow> (int \<times> sfs_fs) res" where
  "sfs_sync_inode sfs sv =
     bindR (the_vnode sfs sv) (\<lambda>s.
     if sv_dirty s then
       bindR (sfs_writeblock sfs (sv_ino s) (dinode_bytes (sv_i s))) (\<lambda>(result, sfs).
       if result \<noteq> 0 then Inr (result, sfs) else Inr (0, set_vnode sv (s\<lparr>sv_dirty := False\<rparr>) sfs))
     else Inr (0, sfs))"

definition sv_incref :: "nat \<Rightarrow> sfs_fs \<Rightarrow> sfs_fs res" where
  "sv_incref v sfs = bindR (the_vnode sfs v) (\<lambda>s. Inr (set_vnode v (s\<lparr>vn_refcount := vn_refcount s + 1\<rparr>) sfs))"

definition sfs_reclaim :: "nat \<Rightarrow> sfs_fs \<Rightarrow> (int \<times> sfs_fs) res" where
  "sfs_reclaim v sfs =
     (let sfs = vfs_biglock_acquire sfs in
      bindR (the_vnode sfs v) (\<lambda>s.
      if vn_refcount s \<noteq> 1 then
        (if \<not> vn_refcount s > 1 then Inl Kassert
         else unlocked EBUSY (set_vnode v (s\<lparr>vn_refcount := vn_refcount s - 1\<rparr>) sfs))
      else
      bindR (if sfi_linkcount (sv_i s) = 0 then sfs_itrunc sfs v 0 else Inr (0, sfs)) (\<lambda>(result, sfs).
      if result \<noteq> 0 then unlocked result sfs
      else bindR (sfs_sync_inode sfs v) (\<lambda>(result, sfs).
      if result \<noteq> 0 then unlocked result sfs
      else bindR (if sfi_linkcount (sv_i s) = 0 then sfs_bfree sfs (sv_ino s) else Inr sfs) (\<lambda>sfs.
      if v \<notin> set (sfs_vnodes sfs) then Inl (Panic ''sfs: reclaim vnode not in vnode pool'')
      else unlocked 0 (sfs\<lparr>sfs_vnodes := remove1 v (sfs_vnodes sfs), sfs_heap := (sfs_heap sfs)(v := None)\<rparr>))))))"

definition sv_decref :: "nat \<Rightarrow> sfs_fs \<Rightarrow> sfs_fs res" where
  "sv_decref v sfs =
     bindR (the_vnode sfs v) (\<lambda>s.
     if \<not> vn_refcount s > 0 then Inl Kassert
     else if vn_refcount s > 1 then Inr (set_vnode v (s\<lparr>vn_refcount := vn_refcount s - 1\<rparr>) sfs)
     else bindR (sfs_reclaim v sfs) (\<lambda>(_, sfs). Inr sfs))"

text \<open>The search in the table of vnodes, with its check of every vnode passed.\<close>

fun vnode_search :: "nat list \<Rightarrow> u32 \<Rightarrow> sfs_fs \<Rightarrow> nat option res" where
  "vnode_search [] ino sfs = Inr None"
| "vnode_search (v # vs) ino sfs =
     bindR (the_vnode sfs v) (\<lambda>s.
     bindR (sfs_bused sfs (sv_ino s)) (\<lambda>used.
     if \<not> used then Inl (Panic ''sfs: Found inode in unallocated block'')
     else if sv_ino s = ino then Inr (Some v)
     else vnode_search vs ino sfs))"

text \<open>\<open>sv\<close> is the structure \<^verbatim>\<open>kmalloc\<close> provides and \<open>ok\<close> tells whether the table of vnodes can grow.\<close>

definition sfs_loadvnode :: "nat option \<Rightarrow> bool \<Rightarrow> sfs_fs \<Rightarrow> u32 \<Rightarrow> 16 word \<Rightarrow> (int \<times> nat \<times> sfs_fs) res" where
  "sfs_loadvnode sv ok sfs ino forcetype =
     bindR (vnode_search (sfs_vnodes sfs) ino sfs) (\<lambda>f.
     case f of
       Some v \<Rightarrow>
         if forcetype \<noteq> SFS_TYPE_INVAL then Inl Kassert
         else bindR (sv_incref v sfs) (\<lambda>sfs. Inr (0, v, sfs))
     | None \<Rightarrow>
         (case sv of None \<Rightarrow> Inr (ENOMEM, 0, sfs)
          | Some sv \<Rightarrow>
              bindR (sfs_bused sfs ino) (\<lambda>used.
              if \<not> used then Inl (Panic ''sfs: Tried to load inode from unallocated block'')
              else bindR (sfs_readblock sfs ino zeros) (\<lambda>(result, bs, sfs).
              if result \<noteq> 0 then Inr (result, 0, sfs)
              else let di = dinode_of bs in
              if forcetype \<noteq> SFS_TYPE_INVAL \<and> sfi_type di \<noteq> SFS_TYPE_INVAL then Inl Kassert
              else let
                  di = (if forcetype \<noteq> SFS_TYPE_INVAL then di\<lparr>sfi_type := forcetype\<rparr> else di);
                  dirty = (forcetype \<noteq> SFS_TYPE_INVAL) in
              if sfi_type di \<noteq> SFS_TYPE_FILE \<and> sfi_type di \<noteq> SFS_TYPE_DIR then
                Inl (Panic ''sfs: loadvnode: Invalid inode type'')
              else if \<not> ok then Inr (ENOMEM, 0, sfs)
              else Inr (0, sv,
                (set_vnode sv \<lparr>vn_refcount = 1,
                   vn_ops = if sfi_type di = SFS_TYPE_FILE then sfs_fileops else sfs_dirops,
                   sv_i = di, sv_ino = ino, sv_dirty = dirty\<rparr> sfs)\<lparr>sfs_vnodes := sfs_vnodes sfs @ [sv]\<rparr>)))))"

definition sfs_makeobj :: "nat option \<Rightarrow> bool \<Rightarrow> sfs_fs \<Rightarrow> 16 word \<Rightarrow> (int \<times> nat \<times> sfs_fs) res" where
  "sfs_makeobj sv ok sfs type =
     bindR (sfs_balloc sfs) (\<lambda>(result, ino, sfs).
     if result \<noteq> 0 then Inr (result, 0, sfs)
     else bindR (sfs_loadvnode sv ok sfs ino type) (\<lambda>(result, v, sfs).
     if result \<noteq> 0 then bindR (sfs_bfree sfs ino) (\<lambda>sfs. Inr (result, v, sfs))
     else Inr (0, v, sfs)))"

definition sfs_getroot :: "nat option \<Rightarrow> bool \<Rightarrow> sfs_fs \<Rightarrow> ((int \<times> nat) \<times> sfs_fs) res" where
  "sfs_getroot sv ok sfs =
     bindR (sfs_loadvnode sv ok (vfs_biglock_acquire sfs) SFS_ROOTDIR_INO SFS_TYPE_INVAL) (\<lambda>(result, v, sfs).
     if result \<noteq> 0 then unlocked (result, 0) sfs
     else bindR (the_vnode sfs v) (\<lambda>s.
     if sfi_type (sv_i s) \<noteq> SFS_TYPE_DIR then unlocked (EINVAL, 0) sfs
     else unlocked (0, v) sfs))"

definition sfs_lookonce :: "nat option \<Rightarrow> bool \<Rightarrow> sfs_fs \<Rightarrow> nat \<Rightarrow> byte list \<Rightarrow> (int \<times> nat \<times> nat \<times> sfs_fs) res" where
  "sfs_lookonce nsv ok sfs sv name =
     bindR (sfs_dir_findname sfs sv name) (\<lambda>(result, found, _, sfs).
     if result \<noteq> 0 then Inr (result, 0, 0, sfs)
     else case found of None \<Rightarrow> Inl NullDeref
     | Some (ino, slot) \<Rightarrow>
         bindR (sfs_loadvnode nsv ok sfs ino SFS_TYPE_INVAL) (\<lambda>(result, v, sfs).
         if result \<noteq> 0 then Inr (result, 0, 0, sfs)
         else bindR (the_vnode sfs v) (\<lambda>s.
         if sfi_linkcount (sv_i s) = 0 then Inl (Panic ''sfs: name has linkcount 0'')
         else Inr (0, v, slot, sfs))))"

section \<open>Vnode operations (sfs_vnops.c)\<close>

definition O_ACCMODE :: u32 where "O_ACCMODE = 3"
definition O_RDONLY :: u32 where "O_RDONLY = 0"
definition O_APPEND :: u32 where "O_APPEND = 32"
definition S_IFREG :: u32 where "S_IFREG = 0x1000"
definition S_IFDIR :: u32 where "S_IFDIR = 0x2000"

definition sfs_eachopen :: "u32 \<Rightarrow> int" where
  "sfs_eachopen openflags = 0"

definition sfs_eachopendir :: "u32 \<Rightarrow> int" where
  "sfs_eachopendir openflags =
     (if openflags AND O_ACCMODE \<noteq> O_RDONLY then EISDIR
      else if openflags AND O_APPEND \<noteq> 0 then EISDIR else 0)"

definition sfs_read :: "nat \<Rightarrow> uio1 \<Rightarrow> sfs_fs \<Rightarrow> ((int \<times> uio1) \<times> sfs_fs) res" where
  "sfs_read v u sfs =
     (if x_rw u \<noteq> UIO_READ then Inl Kassert
      else bindR (sfs_io v u (vfs_biglock_acquire sfs)) (\<lambda>(result, u, sfs). unlocked (result, u) sfs))"

definition sfs_write :: "nat \<Rightarrow> uio1 \<Rightarrow> sfs_fs \<Rightarrow> ((int \<times> uio1) \<times> sfs_fs) res" where
  "sfs_write v u sfs =
     (if x_rw u \<noteq> UIO_WRITE then Inl Kassert
      else bindR (sfs_io v u (vfs_biglock_acquire sfs)) (\<lambda>(result, u, sfs). unlocked (result, u) sfs))"

definition sfs_ioctl :: int where "sfs_ioctl = EINVAL"

definition sfs_gettype :: "nat \<Rightarrow> sfs_fs \<Rightarrow> ((int \<times> u32) \<times> sfs_fs) res" where
  "sfs_gettype v sfs =
     (let sfs = vfs_biglock_acquire sfs in
      bindR (the_vnode sfs v) (\<lambda>s.
      if sfi_type (sv_i s) = SFS_TYPE_FILE then unlocked (0, S_IFREG) sfs
      else if sfi_type (sv_i s) = SFS_TYPE_DIR then unlocked (0, S_IFDIR) sfs
      else Inl (Panic ''sfs: gettype: Invalid inode type'')))"

text \<open>The mode, the size and the number of links; the other fields are zero.\<close>

definition sfs_stat :: "nat \<Rightarrow> sfs_fs \<Rightarrow> ((int \<times> u32 \<times> u32 \<times> 16 word) \<times> sfs_fs) res" where
  "sfs_stat v sfs =
     bindR (sfs_gettype v sfs) (\<lambda>((result, mode), sfs).
     if result \<noteq> 0 then Inr ((result, mode, 0, 0), sfs)
     else bindR (the_vnode sfs v) (\<lambda>s. Inr ((0, mode, sfi_size (sv_i s), sfi_linkcount (sv_i s)), sfs)))"

definition sfs_isseekable :: bool where "sfs_isseekable = True"

definition sfs_fsync :: "nat \<Rightarrow> sfs_fs \<Rightarrow> (int \<times> sfs_fs) res" where
  "sfs_fsync v sfs = bindR (sfs_sync_inode (vfs_biglock_acquire sfs) v) (\<lambda>(result, sfs). unlocked result sfs)"

definition sfs_mmap :: int where "sfs_mmap = ENOSYS"

definition sfs_truncate :: "nat \<Rightarrow> int \<Rightarrow> sfs_fs \<Rightarrow> (int \<times> sfs_fs) res" where
  "sfs_truncate v len sfs = sfs_itrunc sfs v len"

definition sfs_namefile :: "nat \<Rightarrow> sfs_fs \<Rightarrow> int res" where
  "sfs_namefile v sfs = bindR (the_vnode sfs v) (\<lambda>s. if sv_ino s \<noteq> SFS_ROOTDIR_INO then Inl Kassert else Inr 0)"

definition sfs_creat :: "nat option \<Rightarrow> bool \<Rightarrow> nat \<Rightarrow> byte list \<Rightarrow> bool \<Rightarrow> sfs_fs \<Rightarrow> ((int \<times> nat) \<times> sfs_fs) res" where
  "sfs_creat nsv ok v name excl sfs =
     bindR (sfs_dir_findname (vfs_biglock_acquire sfs) v name) (\<lambda>(result, found, _, sfs).
     if result \<noteq> 0 \<and> result \<noteq> ENOENT then unlocked (result, 0) sfs
     else if result = 0 \<and> excl then unlocked (EEXIST, 0) sfs
     else if result = 0 then
       (case found of None \<Rightarrow> Inl NullDeref
        | Some (ino, _) \<Rightarrow>
            bindR (sfs_loadvnode nsv ok sfs ino SFS_TYPE_INVAL) (\<lambda>(result, newguy, sfs).
            if result \<noteq> 0 then unlocked (result, 0) sfs else unlocked (0, newguy) sfs))
     else bindR (sfs_makeobj nsv ok sfs SFS_TYPE_FILE) (\<lambda>(result, newguy, sfs).
     if result \<noteq> 0 then unlocked (result, 0) sfs
     else bindR (the_vnode sfs newguy) (\<lambda>n.
     bindR (sfs_dir_link sfs v name (sv_ino n)) (\<lambda>(result, _, sfs).
     if result \<noteq> 0 then bindR (sv_decref newguy sfs) (\<lambda>sfs. unlocked (result, 0) sfs)
     else unlocked (0, newguy)
            (set_inode newguy (\<lambda>di. di\<lparr>sfi_linkcount := sfi_linkcount di + 1\<rparr>) sfs)))))"

definition sfs_link :: "nat \<Rightarrow> byte list \<Rightarrow> nat \<Rightarrow> sfs_fs \<Rightarrow> (int \<times> sfs_fs) res" where
  "sfs_link dir name file sfs =
     (let sfs = vfs_biglock_acquire sfs in
      bindR (the_vnode sfs file) (\<lambda>f.
      if sfi_type (sv_i f) = SFS_TYPE_DIR then unlocked EINVAL sfs
      else bindR (sfs_dir_link sfs dir name (sv_ino f)) (\<lambda>(result, _, sfs).
      if result \<noteq> 0 then unlocked result sfs
      else unlocked 0 (set_inode file (\<lambda>di. di\<lparr>sfi_linkcount := sfi_linkcount di + 1\<rparr>) sfs))))"

definition sfs_remove :: "nat option \<Rightarrow> bool \<Rightarrow> nat \<Rightarrow> byte list \<Rightarrow> sfs_fs \<Rightarrow> (int \<times> sfs_fs) res" where
  "sfs_remove nsv ok dir name sfs =
     bindR (sfs_lookonce nsv ok (vfs_biglock_acquire sfs) dir name) (\<lambda>(result, victim, slot, sfs).
     if result \<noteq> 0 then unlocked result sfs
     else bindR (sfs_dir_unlink sfs dir slot) (\<lambda>(result, sfs).
     bindR (the_vnode sfs victim) (\<lambda>s.
     if result = 0 \<and> \<not> sfi_linkcount (sv_i s) > 0 then Inl Kassert
     else let sfs = (if result = 0 then set_inode victim (\<lambda>di. di\<lparr>sfi_linkcount := sfi_linkcount di - 1\<rparr>) sfs else sfs) in
     bindR (sv_decref victim sfs) (\<lambda>sfs. unlocked result sfs))))"

text \<open>The error exit of \<^verbatim>\<open>sfs_rename\<close> after the new name has been entered.\<close>

definition puke_harder :: "nat \<Rightarrow> nat \<Rightarrow> nat \<Rightarrow> int \<Rightarrow> sfs_fs \<Rightarrow> (int \<times> sfs_fs) res" where
  "puke_harder sv g1 slot2 result sfs =
     bindR (sfs_dir_unlink sfs sv slot2) (\<lambda>(result2, sfs).
     if result2 \<noteq> 0 then Inl (Panic ''sfs: rename: Cannot recover'')
     else bindR (the_vnode sfs g1) (\<lambda>g.
     let sfs = set_vnode g1 (g\<lparr>sv_i := (sv_i g)\<lparr>sfi_linkcount := sfi_linkcount (sv_i g) - 1\<rparr>\<rparr>) sfs in
     bindR (sv_decref g1 sfs) (\<lambda>sfs. unlocked result sfs)))"

definition sfs_rename :: "nat option \<Rightarrow> bool \<Rightarrow> nat \<Rightarrow> byte list \<Rightarrow> nat \<Rightarrow> byte list \<Rightarrow> sfs_fs \<Rightarrow> (int \<times> sfs_fs) res" where
  "sfs_rename nsv ok d1 n1 d2 n2 sfs =
     (let sfs = vfs_biglock_acquire sfs in
      if d1 \<noteq> d2 then Inl Kassert
      else bindR (the_vnode sfs d1) (\<lambda>d.
      if sv_ino d \<noteq> SFS_ROOTDIR_INO then Inl Kassert
      else bindR (sfs_lookonce nsv ok sfs d1 n1) (\<lambda>(result, g1, slot1, sfs).
      if result \<noteq> 0 then unlocked result sfs
      else bindR (the_vnode sfs g1) (\<lambda>g.
      if sfi_type (sv_i g) \<noteq> SFS_TYPE_FILE then Inl Kassert
      else bindR (sfs_dir_link sfs d1 n2 (sv_ino g)) (\<lambda>(result, slot2, sfs).
      if result \<noteq> 0 then bindR (sv_decref g1 sfs) (\<lambda>sfs. unlocked result sfs)
      else let sfs = set_inode g1 (\<lambda>di. di\<lparr>sfi_linkcount := sfi_linkcount di + 1\<rparr>) sfs in
      bindR (sfs_dir_unlink sfs d1 slot1) (\<lambda>(result, sfs).
      if result \<noteq> 0 then puke_harder d1 g1 slot2 result sfs
      else bindR (the_vnode sfs g1) (\<lambda>g.
      if \<not> sfi_linkcount (sv_i g) > 0 then Inl Kassert
      else bindR (sv_decref g1 (set_inode g1 (\<lambda>di. di\<lparr>sfi_linkcount := sfi_linkcount di - 1\<rparr>) sfs)) (\<lambda>sfs.
      unlocked 0 sfs))))))))"

definition sfs_lookparent :: "nat \<Rightarrow> byte list \<Rightarrow> nat \<Rightarrow> sfs_fs \<Rightarrow> ((int \<times> nat \<times> byte list) \<times> sfs_fs) res" where
  "sfs_lookparent v nm buflen sfs =
     (let sfs = vfs_biglock_acquire sfs in
      bindR (the_vnode sfs v) (\<lambda>s.
      if sfi_type (sv_i s) \<noteq> SFS_TYPE_DIR then unlocked (ENOTDIR, 0, []) sfs
      else if length nm + 1 > buflen then unlocked (ENAMETOOLONG, 0, []) sfs
      else bindR (sv_incref v sfs) (\<lambda>sfs. unlocked (0, v, nm @ [0]) sfs)))"

definition sfs_lookup :: "nat option \<Rightarrow> bool \<Rightarrow> nat \<Rightarrow> byte list \<Rightarrow> sfs_fs \<Rightarrow> ((int \<times> nat) \<times> sfs_fs) res" where
  "sfs_lookup nsv ok v nm sfs =
     (let sfs = vfs_biglock_acquire sfs in
      bindR (the_vnode sfs v) (\<lambda>s.
      if sfi_type (sv_i s) \<noteq> SFS_TYPE_DIR then unlocked (ENOTDIR, 0) sfs
      else bindR (sfs_lookonce nsv ok sfs v nm) (\<lambda>(result, final, _, sfs).
      if result \<noteq> 0 then unlocked (result, 0) sfs else unlocked (0, final) sfs)))"

section \<open>File system operations (sfs_fsops.c)\<close>

fun freemapio_loop :: "nat \<Rightarrow> nat \<Rightarrow> uio_rw \<Rightarrow> sfs_fs \<Rightarrow> (int \<times> sfs_fs) res" where
  "freemapio_loop 0 j rw sfs = Inr (0, sfs)"
| "freemapio_loop (Suc n) j rw sfs =
     (let ptr = take SFS_BLOCKSIZE (drop (j * SFS_BLOCKSIZE) (bitmap_getdata (sfs_freemap sfs)));
          block = SFS_FREEMAP_START + of_nat j in
      bindR (if rw = UIO_READ then
               bindR (sfs_readblock sfs block ptr) (\<lambda>(result, bs, sfs).
               Inr (result, sfs\<lparr>sfs_freemap := (sfs_freemap sfs)\<lparr>bm_v := overwrite (bm_v (sfs_freemap sfs)) (j * SFS_BLOCKSIZE) bs\<rparr>\<rparr>))
             else sfs_writeblock sfs block ptr) (\<lambda>(result, sfs).
      if result \<noteq> 0 then Inr (result, sfs) else freemapio_loop n (Suc j) rw sfs))"

definition sfs_freemapio :: "uio_rw \<Rightarrow> sfs_fs \<Rightarrow> (int \<times> sfs_fs) res" where
  "sfs_freemapio rw sfs = freemapio_loop (unat (SFS_FREEMAPBLOCKS (sb_nblocks (sfs_sb sfs)))) 0 rw sfs"

fun sync_loop :: "nat list \<Rightarrow> sfs_fs \<Rightarrow> sfs_fs res" where
  "sync_loop [] sfs = Inr sfs"
| "sync_loop (v # vs) sfs = bindR (sfs_fsync v sfs) (\<lambda>(_, sfs). sync_loop vs sfs)"

definition sfs_sync_vnodes :: "sfs_fs \<Rightarrow> (int \<times> sfs_fs) res" where
  "sfs_sync_vnodes sfs = bindR (sync_loop (sfs_vnodes sfs) sfs) (\<lambda>sfs. Inr (0, sfs))"

definition sfs_sync_freemap :: "sfs_fs \<Rightarrow> (int \<times> sfs_fs) res" where
  "sfs_sync_freemap sfs =
     (if sfs_freemapdirty sfs then
        bindR (sfs_freemapio UIO_WRITE sfs) (\<lambda>(result, sfs).
        if result \<noteq> 0 then Inr (result, sfs) else Inr (0, sfs\<lparr>sfs_freemapdirty := False\<rparr>))
      else Inr (0, sfs))"

definition sfs_sync_superblock :: "sfs_fs \<Rightarrow> (int \<times> sfs_fs) res" where
  "sfs_sync_superblock sfs =
     (if sfs_superdirty sfs then
        bindR (sfs_writeblock sfs SFS_SUPER_BLOCK (super_bytes (sfs_sb sfs))) (\<lambda>(result, sfs).
        if result \<noteq> 0 then Inr (result, sfs) else Inr (0, sfs\<lparr>sfs_superdirty := False\<rparr>))
      else Inr (0, sfs))"

definition sfs_sync :: "sfs_fs \<Rightarrow> (int \<times> sfs_fs) res" where
  "sfs_sync sfs =
     bindR (sfs_sync_vnodes (vfs_biglock_acquire sfs)) (\<lambda>(result, sfs).
     if result \<noteq> 0 then unlocked result sfs
     else bindR (sfs_sync_freemap sfs) (\<lambda>(result, sfs).
     if result \<noteq> 0 then unlocked result sfs
     else bindR (sfs_sync_superblock sfs) (\<lambda>(result, sfs).
     if result \<noteq> 0 then unlocked result sfs else unlocked 0 sfs)))"

definition sfs_getvolname :: "sfs_fs \<Rightarrow> byte list" where
  "sfs_getvolname sfs = sb_volname (sfs_sb sfs)"

text \<open>Unmounting; the volume is gone (None) when the result is 0.\<close>

definition sfs_unmount :: "sfs_fs \<Rightarrow> (int \<times> sfs_fs option) res" where
  "sfs_unmount sfs =
     (let sfs = vfs_biglock_acquire sfs in
      if length (sfs_vnodes sfs) > 0 then bindR (vfs_biglock_release sfs) (\<lambda>sfs. Inr (EBUSY, Some sfs))
      else if sfs_superdirty sfs \<noteq> False then Inl Kassert
      else if sfs_freemapdirty sfs \<noteq> False then Inl Kassert
      else Inr (0, None))"

text \<open>\<open>depth\<close> is the nesting of the big lock; \<open>ok1\<close> to \<open>ok3\<close> tell whether the allocations of the volume, of the
  bitmap and of its bytes succeed.\<close>

definition sfs_domount :: "bool \<Rightarrow> bool \<Rightarrow> bool \<Rightarrow> nat \<Rightarrow> device \<Rightarrow> (int \<times> sfs_fs option \<times> device) res" where
  "sfs_domount ok1 ok2 ok3 depth dev =
     (if unat (d_blocksize dev) \<noteq> SFS_BLOCKSIZE then Inr (ENXIO, None, dev)
      else if \<not> ok1 then Inr (ENOMEM, None, dev)
      else let sfs = \<lparr>sfs_sb = super_of zeros, sfs_superdirty = False, sfs_device = dev, sfs_vnodes = [],
              sfs_freemap = \<lparr>nbits = 0, bm_v = []\<rparr>, sfs_freemapdirty = False, sfs_heap = (\<lambda>_. None), biglock = depth + 1\<rparr> in
      bindR (sfs_readblock sfs SFS_SUPER_BLOCK zeros) (\<lambda>(result, bs, sfs).
      if result \<noteq> 0 then Inr (result, None, sfs_device sfs)
      else let sb = super_of bs in
      if sb_magic sb \<noteq> SFS_MAGIC then Inr (EINVAL, None, sfs_device sfs)
      else let sb = sb\<lparr>sb_volname := (sb_volname sb)[31 := 0]\<rparr>; sfs = sfs\<lparr>sfs_sb := sb\<rparr> in
      bindR (bitmap_create ok2 ok3 (SFS_FREEMAPBITS (sb_nblocks sb))) (\<lambda>bm.
      case bm of None \<Rightarrow> Inr (ENOMEM, None, sfs_device sfs)
      | Some bm \<Rightarrow>
          bindR (sfs_freemapio UIO_READ (sfs\<lparr>sfs_freemap := bm\<rparr>)) (\<lambda>(result, sfs).
          if result \<noteq> 0 then Inr (result, None, sfs_device sfs)
          else bindR (vfs_biglock_release sfs) (\<lambda>sfs. Inr (0, Some sfs, sfs_device sfs))))))"

end
