(* ===== verification/Sfs_Blocks.thy ===== *)
theory Sfs_Blocks
  imports Sfs
begin

text \<open>
  The layout of the on-disk structures, block input and output on a disk that works, and the
  allocation of blocks.
\<close>

section \<open>Layout\<close>

lemma word_join:
  "push_bit 24 (ucast (ucast (drop_bit 24 w) :: byte)) OR push_bit 16 (ucast (ucast (drop_bit 16 w) :: byte)) OR
   push_bit 8 (ucast (ucast (drop_bit 8 w) :: byte)) OR ucast (ucast w :: byte) = (w :: u32)"
proof (rule bit_word_eqI)
  fix n assume "n < LENGTH(32)"
  then consider "n < 8" | "8 \<le> n" "n < 16" | "16 \<le> n" "n < 24" | "24 \<le> n" "n < 32" by fastforce
  then show "bit (push_bit 24 (ucast (ucast (drop_bit 24 w) :: byte)) OR push_bit 16 (ucast (ucast (drop_bit 16 w) :: byte)) OR
   push_bit 8 (ucast (ucast (drop_bit 8 w) :: byte)) OR ucast (ucast w :: byte) :: u32) n = bit w n"
    by cases (auto simp: bit_simps)
qed

lemma words_of_word_bytes: "words_of (word_bytes w @ bs) = w # words_of bs"
  by (simp add: word_bytes_def word_join)

lemma words_of_bytes_of_append: "words_of (bytes_of ws @ bs) = ws @ words_of bs"
proof (induction ws)
  case (Cons w ws)
  then show ?case by (simp add: bytes_of_def words_of_word_bytes)
qed (simp add: bytes_of_def)

lemma words_of_bytes_of [simp]: "words_of (bytes_of ws) = ws"
  using words_of_bytes_of_append [of ws "[]"] by simp

lemma length_bytes_of [simp]: "length (bytes_of ws) = 4 * length ws"
  by (induction ws) (simp_all add: bytes_of_def word_bytes_def)

lemma length_words_of: "length (words_of bs) = length bs div 4"
  by (induction bs rule: words_of.induct) auto

lemma words_of_zeros_n: "words_of (replicate (4 * n) 0) = replicate n 0"
proof (induction n)
  case (Suc n)
  have "replicate (4 * Suc n) (0::byte) = 0 # 0 # 0 # 0 # replicate (4 * n) 0" by (simp add: numeral_eq_Suc)
  then show ?case using Suc by simp
qed simp

lemma length_zeros [simp]: "length zeros = 512"
  by (simp add: zeros_def SFS_BLOCKSIZE_def)

lemma words_of_zeros: "words_of zeros = replicate 128 0"
  using words_of_zeros_n [of 128] by (simp add: zeros_def SFS_BLOCKSIZE_def)

definition wf_dinode :: "sfs_dinode \<Rightarrow> bool" where
  "wf_dinode di \<longleftrightarrow> length (sfi_direct di) = SFS_NDIRECT \<and> length (sfi_waste di) = 110"

lemma length_dinode_bytes: "wf_dinode di \<Longrightarrow> length (dinode_bytes di) = 512"
  by (simp add: wf_dinode_def dinode_bytes_def SFS_NDIRECT_def)

lemma halves: "ucast (drop_bit 16 (push_bit 16 (ucast a) OR ucast b :: u32)) = (a :: 16 word)"
  "ucast (push_bit 16 (ucast a) OR ucast b :: u32) = (b :: 16 word)"
proof -
  show "ucast (drop_bit 16 (push_bit 16 (ucast a) OR ucast b :: u32)) = (a :: 16 word)"
    by (rule bit_word_eqI) (auto simp: bit_simps dest: bit_imp_le_length)
  show "ucast (push_bit 16 (ucast a) OR ucast b :: u32) = (b :: 16 word)"
    by (rule bit_word_eqI) (auto simp: bit_simps)
qed

lemma dinode_roundtrip: "wf_dinode di \<Longrightarrow> dinode_of (dinode_bytes di) = di"
  by (cases di) (auto simp: wf_dinode_def dinode_bytes_def dinode_of_def halves SFS_NDIRECT_def nth_append simp del: drop_bit_or)

lemma wf_dinode_of: "length bs = 512 \<Longrightarrow> wf_dinode (dinode_of bs)"
  by (simp add: wf_dinode_def dinode_of_def Let_def length_words_of SFS_NDIRECT_def)

lemma direntry_roundtrip: "direntry_of (direntry_bytes sd) = sd"
proof -
  have "bytes_of [sfd_ino sd] = word_bytes (sfd_ino sd)" by (simp add: bytes_of_def)
  moreover have "drop 4 (word_bytes (sfd_ino sd) @ sfd_name sd) = sfd_name sd" by (simp add: word_bytes_def)
  ultimately show ?thesis by (cases sd) (simp add: direntry_of_def direntry_bytes_def words_of_word_bytes)
qed

lemma length_direntry_bytes: "length (direntry_bytes sd) = 4 + length (sfd_name sd)"
  by (simp add: direntry_bytes_def)

lemma super_roundtrip: "length (sb_volname sb) = 32 \<Longrightarrow> super_of (super_bytes sb) = sb"
  by (cases sb) (simp add: super_of_def super_bytes_def words_of_bytes_of_append)

section \<open>Blocks on a disk that works\<close>

definition wsec :: "u32 \<Rightarrow> byte list \<Rightarrow> sfs_fs \<Rightarrow> sfs_fs" where
  "wsec b data sfs = sfs\<lparr>sfs_device := (sfs_device sfs)\<lparr>sectors := (sectors (sfs_device sfs))(b := data)\<rparr>\<rparr>"

abbreviation secs :: "sfs_fs \<Rightarrow> u32 \<Rightarrow> byte list" where
  "secs sfs \<equiv> sectors (sfs_device sfs)"

abbreviation nblocks :: "sfs_fs \<Rightarrow> u32" where
  "nblocks sfs \<equiv> sb_nblocks (sfs_sb sfs)"

text \<open>The disk works and is large enough, and the free map covers it.\<close>

definition vol_ok :: "sfs_fs \<Rightarrow> bool" where
  "vol_ok sfs \<longleftrightarrow> statuses (sfs_device sfs) = [] \<and> wf_disk (sfs_device sfs) \<and>
     nblocks sfs \<le> d_blocks (sfs_device sfs) \<and> unat (nblocks sfs) \<le> 2 ^ 23 \<and>
     bitmap_inv (sfs_freemap sfs) \<and> unat (nblocks sfs) \<le> unat (nbits (sfs_freemap sfs)) \<and>
     (\<forall>i. unat (nblocks sfs) \<le> i \<and> i < unat (nbits (sfs_freemap sfs)) \<longrightarrow> i \<in> marked (sfs_freemap sfs))"

lemma wsec_simps [simp]:
  "sfs_sb (wsec b data sfs) = sfs_sb sfs" "sfs_freemap (wsec b data sfs) = sfs_freemap sfs"
  "sfs_vnodes (wsec b data sfs) = sfs_vnodes sfs" "sfs_heap (wsec b data sfs) = sfs_heap sfs"
  "biglock (wsec b data sfs) = biglock sfs" "secs (wsec b data sfs) = (secs sfs)(b := data)"
  "statuses (sfs_device (wsec b data sfs)) = statuses (sfs_device sfs)"
  "d_blocks (sfs_device (wsec b data sfs)) = d_blocks (sfs_device sfs)"
  by (simp_all add: wsec_def)

lemma vol_ok_wsec [simp]: "vol_ok sfs \<Longrightarrow> length data = 512 \<Longrightarrow> vol_ok (wsec b data sfs)"
  by (simp add: vol_ok_def wf_disk_def LHD_SECTSIZE_def)

lemma vol_ok_length: "vol_ok sfs \<Longrightarrow> length (secs sfs b) = 512"
  by (simp add: vol_ok_def wf_disk_def LHD_SECTSIZE_def)

lemma block_request:
  assumes "length data = 512"
  shows "room 512 (uio1_kinit data p rw)"
    and "b < d_blocks d \<Longrightarrow> for_sector b (uio1_kinit data (int (unat b) * 512) rw) d"
  using assms by (simp_all add: room_def uio1_kinit_def for_sector_def)

lemma rwblock_one: "lhd_io u (sfs_device sfs) = Inr (0, u', d) \<Longrightarrow> biglock sfs > 0 \<Longrightarrow>
    sfs_rwblock u sfs = Inr (0, u', sfs\<lparr>sfs_device := d\<rparr>)"
  by (simp add: sfs_rwblock_def vfs_biglock_do_i_hold_def EINVAL_def EIO_def numeral_eq_Suc Let_def)

lemma readblock_ok:
  assumes "vol_ok sfs" "biglock sfs > 0" "b < nblocks sfs" "length data = 512"
  shows "sfs_readblock sfs b data = Inr (0, secs sfs b, sfs)"
proof -
  let ?u = "uio1_kinit data (int (unat b) * 512) UIO_READ"
  have d: "statuses (sfs_device sfs) = []" "wf_disk (sfs_device sfs)" "b < d_blocks (sfs_device sfs)"
    using assms(1,3) by (auto simp: vol_ok_def)
  have io: "lhd_io ?u (sfs_device sfs) = Inr (0, (moved 512 ?u)\<lparr>x_mem := overwrite (x_mem ?u) (x_pos ?u) (secs sfs b)\<rparr>, sfs_device sfs)"
    using block_request [OF assms(4)] d by (intro lhd_io_read) (auto simp: uio1_kinit_def)
  have "overwrite (x_mem ?u) (x_pos ?u) (secs sfs b) = secs sfs b"
    using vol_ok_length [OF assms(1), of b] assms(4) by (simp add: uio1_kinit_def overwrite_all)
  then show ?thesis using rwblock_one [OF io assms(2)] assms(4) by (simp add: sfs_readblock_def SFS_BLOCKSIZE_def)
qed

lemma writeblock_ok:
  assumes "vol_ok sfs" "biglock sfs > 0" "b < nblocks sfs" "length data = 512"
  shows "sfs_writeblock sfs b data = Inr (0, wsec b data sfs)"
proof -
  let ?u = "uio1_kinit data (int (unat b) * 512) UIO_WRITE"
  have d: "statuses (sfs_device sfs) = []" "b < d_blocks (sfs_device sfs)" using assms(1,3) by (auto simp: vol_ok_def)
  have io: "lhd_io ?u (sfs_device sfs) = Inr (0, moved 512 ?u,
      (sfs_device sfs)\<lparr>sectors := (secs sfs)(b := take 512 (drop (x_pos ?u) (x_mem ?u)))\<rparr>)"
    using block_request [OF assms(4)] d by (intro lhd_io_write) (auto simp: uio1_kinit_def)
  have "take 512 (drop (x_pos ?u) (x_mem ?u)) = data" using assms(4) by (simp add: uio1_kinit_def)
  then show ?thesis using rwblock_one [OF io assms(2)] assms(4) by (simp add: sfs_writeblock_def SFS_BLOCKSIZE_def wsec_def)
qed

section \<open>Allocation\<close>

abbreviation used :: "sfs_fs \<Rightarrow> nat set" where
  "used sfs \<equiv> marked (sfs_freemap sfs)"

definition set_map :: "bitmap \<Rightarrow> sfs_fs \<Rightarrow> sfs_fs" where
  "set_map bm sfs = sfs\<lparr>sfs_freemap := bm, sfs_freemapdirty := True\<rparr>"

lemma set_map_simps [simp]:
  "sfs_sb (set_map bm sfs) = sfs_sb sfs" "sfs_freemap (set_map bm sfs) = bm"
  "sfs_vnodes (set_map bm sfs) = sfs_vnodes sfs" "sfs_heap (set_map bm sfs) = sfs_heap sfs"
  "biglock (set_map bm sfs) = biglock sfs" "sfs_device (set_map bm sfs) = sfs_device sfs"
  by (simp_all add: set_map_def)

lemma balloc_cases:
  assumes "vol_ok sfs" "biglock sfs > 0"
  obtains (full) "sfs_balloc sfs = Inr (ENOSPC, 0, sfs)" "used sfs = {..<unat (nbits (sfs_freemap sfs))}"
  | (block) b bm where "sfs_balloc sfs = Inr (0, b, wsec b zeros (set_map bm sfs))" "b < nblocks sfs"
      "unat b \<notin> used sfs" "\<forall>j < unat b. j \<in> used sfs" "marked bm = insert (unat b) (used sfs)"
      "vol_ok (wsec b zeros (set_map bm sfs))"
proof (cases "used sfs = {..<unat (nbits (sfs_freemap sfs))}")
  case True
  then have "bitmap_alloc (sfs_freemap sfs) = Inr (ENOSPC, 0, sfs_freemap sfs)"
    using bm.alloc_full assms(1) by (simp add: vol_ok_def)
  then show ?thesis using True by (intro full) (simp_all add: sfs_balloc_def ENOSPC_def)
next
  case False
  have v: "bitmap_inv (sfs_freemap sfs)" "\<forall>i. unat (nblocks sfs) \<le> i \<and> i < unat (nbits (sfs_freemap sfs)) \<longrightarrow> i \<in> used sfs"
    using assms(1) by (simp_all add: vol_ok_def)
  obtain i bm where 1: "bitmap_alloc (sfs_freemap sfs) = Inr (0, i, bm)" "i < unat (nbits (sfs_freemap sfs))" "i \<notin> used sfs"
    "\<forall>j < i. j \<in> used sfs" "bitmap_inv bm" "nbits bm = nbits (sfs_freemap sfs)" "marked bm = insert i (used sfs)"
    using bitmap_alloc_ok [OF v(1) False] by blast
  have ib: "i < unat (nblocks sfs)" using v(2) 1(2,3) by (meson not_less)
  then have u: "unat (of_nat i :: u32) = i" using unsigned_less [of "nblocks sfs", where ?'a = nat] by (simp add: unat_of_nat)
  let ?s = "set_map bm sfs"
  have ok: "vol_ok ?s" using assms(1) 1(5,6,7) by (auto simp: vol_ok_def)
  have lt: "(of_nat i :: u32) < nblocks sfs" using ib u by (simp add: word_less_nat_alt)
  have "sfs_clearblock ?s (of_nat i) = Inr (0, wsec (of_nat i) zeros ?s)"
    unfolding sfs_clearblock_def using assms(2) lt by (intro writeblock_ok ok) simp_all
  then have "sfs_balloc sfs = Inr (0, of_nat i, wsec (of_nat i) zeros ?s)"
    using 1(1) lt by (simp add: sfs_balloc_def set_map_def not_le [symmetric] Let_def)
  then show ?thesis using lt 1(3,4,7) u ok by (intro block [of "of_nat i" bm]) simp_all
qed

lemma bfree_ok:
  assumes "vol_ok sfs" "unat b \<in> used sfs" "b < nblocks sfs"
  obtains bm where "sfs_bfree sfs b = Inr (set_map bm sfs)" "marked bm = used sfs - {unat b}" "vol_ok (set_map bm sfs)"
proof -
  have v: "bitmap_inv (sfs_freemap sfs)" using assms(1) by (simp add: vol_ok_def)
  obtain bm where bm: "bitmap_unmark (sfs_freemap sfs) (unat b) = Inr bm" "bitmap_inv bm"
    "nbits bm = nbits (sfs_freemap sfs)" "marked bm = used sfs - {unat b}"
    using bitmap_unmark_ok(1) [OF v marked_less [OF assms(2)] assms(2)] by blast
  have "vol_ok (set_map bm sfs)" using assms(1,3) bm by (auto simp: vol_ok_def word_less_nat_alt)
  then show ?thesis using bm that [of bm] by (simp add: sfs_bfree_def set_map_def)
qed

lemma bused_ok:
  assumes "vol_ok sfs" "b < nblocks sfs"
  shows "sfs_bused sfs b = Inr (unat b \<in> used sfs)"
proof -
  have "unat b < unat (nbits (sfs_freemap sfs))" "bitmap_inv (sfs_freemap sfs)"
    using assms by (auto simp: vol_ok_def word_less_nat_alt)
  then obtain r where "bitmap_isset (sfs_freemap sfs) (unat b) = Inr r" "r \<noteq> 0 \<longleftrightarrow> unat b \<in> used sfs"
    using bitmap_isset_ok by blast
  then show ?thesis using assms(2) by (simp add: sfs_bused_def leD)
qed

lemma hand_back_ok:
  assumes "vol_ok sfs" "b \<noteq> 0 \<Longrightarrow> b < nblocks sfs \<and> unat b \<in> used sfs"
  shows "hand_back b sfs = Inr (0, b, sfs)"
  using assms bused_ok [OF assms(1), of b] by (auto simp: hand_back_def)

section \<open>Inodes and the blocks they own\<close>

text \<open>The vnode of an inode, if it is loaded, and the current contents of the inode.\<close>

definition loaded :: "sfs_fs \<Rightarrow> u32 \<Rightarrow> nat option" where
  "loaded sfs ino = find (\<lambda>v. map_option sv_ino (sfs_heap sfs v) = Some ino) (sfs_vnodes sfs)"

definition inode :: "sfs_fs \<Rightarrow> u32 \<Rightarrow> sfs_dinode" where
  "inode sfs ino = (case loaded sfs ino of Some v \<Rightarrow> sv_i (the (sfs_heap sfs v)) | None \<Rightarrow> dinode_of (secs sfs ino))"

text \<open>The block numbers an inode holds: 15 direct ones, that of the indirect block, and the 128 in it.\<close>

definition inode_ptr :: "(u32 \<Rightarrow> byte list) \<Rightarrow> sfs_dinode \<Rightarrow> nat \<Rightarrow> u32" where
  "inode_ptr sec di k =
     (if k < 15 then sfi_direct di ! k else if k = 15 then sfi_indirect di
      else if sfi_indirect di = 0 then 0 else words_of (sec (sfi_indirect di)) ! (k - 16))"

definition ptr :: "sfs_fs \<Rightarrow> u32 \<Rightarrow> nat \<Rightarrow> u32" where
  "ptr sfs ino k = inode_ptr (secs sfs) (inode sfs ino) k"

definition reserved :: "sfs_fs \<Rightarrow> nat set" where
  "reserved sfs = {0} \<union> {2..<2 + unat (SFS_FREEMAPBLOCKS (nblocks sfs))}"

text \<open>Blocks in use have one use each: reserved, an inode, or one pointer of one inode.\<close>

definition owns :: "(u32 \<Rightarrow> nat \<Rightarrow> u32) \<Rightarrow> nat set \<Rightarrow> nat set \<Rightarrow> u32 \<Rightarrow> u32 set \<Rightarrow> bool" where
  "owns P U R nb I \<longleftrightarrow> R \<subseteq> U \<and> 0 \<in> R \<and>
     (\<forall>ino \<in> I. unat ino \<in> U - R \<and> ino < nb) \<and>
     (\<forall>ino \<in> I. \<forall>k < 144. P ino k \<noteq> 0 \<longrightarrow> unat (P ino k) \<in> U - R \<and> P ino k < nb \<and> P ino k \<notin> I) \<and>
     (\<forall>ino \<in> I. \<forall>ino' \<in> I. \<forall>k < 144. \<forall>k' < 144. P ino k \<noteq> 0 \<and> P ino k = P ino' k' \<longrightarrow> ino = ino' \<and> k = k')"

definition own_ok :: "sfs_fs \<Rightarrow> u32 set \<Rightarrow> bool" where
  "own_ok sfs I \<longleftrightarrow> owns (ptr sfs) (used sfs) (reserved sfs) (nblocks sfs) I"

definition vnodes_ok :: "sfs_fs \<Rightarrow> u32 set \<Rightarrow> bool" where
  "vnodes_ok sfs I \<longleftrightarrow> distinct (sfs_vnodes sfs) \<and>
     (\<forall>v \<in> set (sfs_vnodes sfs). \<exists>s. sfs_heap sfs v = Some s \<and> sv_ino s \<in> I \<and> wf_dinode (sv_i s) \<and>
        (\<not> sv_dirty s \<longrightarrow> dinode_of (secs sfs (sv_ino s)) = sv_i s)) \<and>
     inj_on (\<lambda>v. sv_ino (the (sfs_heap sfs v))) (set (sfs_vnodes sfs))"

definition fs_inv :: "sfs_fs \<Rightarrow> u32 set \<Rightarrow> bool" where
  "fs_inv sfs I \<longleftrightarrow> vol_ok sfs \<and> vnodes_ok sfs I \<and> own_ok sfs I"

lemma ownsD:
  assumes "owns P U R nb I"
  shows "R \<subseteq> U" "0 \<in> R" "ino \<in> I \<Longrightarrow> unat ino \<in> U" "ino \<in> I \<Longrightarrow> unat ino \<notin> R" "ino \<in> I \<Longrightarrow> ino < nb"
    and "ino \<in> I \<Longrightarrow> k < 144 \<Longrightarrow> P ino k \<noteq> 0 \<Longrightarrow> unat (P ino k) \<in> U"
    and "ino \<in> I \<Longrightarrow> k < 144 \<Longrightarrow> P ino k \<noteq> 0 \<Longrightarrow> unat (P ino k) \<notin> R"
    and "ino \<in> I \<Longrightarrow> k < 144 \<Longrightarrow> P ino k \<noteq> 0 \<Longrightarrow> P ino k < nb"
    and "ino \<in> I \<Longrightarrow> k < 144 \<Longrightarrow> P ino k \<noteq> 0 \<Longrightarrow> P ino k \<notin> I"
    and "ino \<in> I \<Longrightarrow> ino' \<in> I \<Longrightarrow> k < 144 \<Longrightarrow> k' < 144 \<Longrightarrow> P ino k \<noteq> 0 \<Longrightarrow> P ino k = P ino' k' \<Longrightarrow> ino = ino' \<and> k = k'"
  using assms unfolding owns_def by (blast+)

lemma owns_cong:
  assumes o: "owns P U R nb I" and q: "\<And>ino k. ino \<in> I \<Longrightarrow> k < 144 \<Longrightarrow> Q ino k = P ino k"
  shows "owns Q U R nb I"
  unfolding owns_def
proof (intro conjI ballI allI impI)
  fix ino ino' k k' assume a: "ino \<in> I" "ino' \<in> I" "k < 144" "k' < 144" "Q ino k \<noteq> 0 \<and> Q ino k = Q ino' k'"
  show "ino = ino'" "k = k'" using ownsD(10) [OF o a(1-4)] a(5) q [OF a(1,3)] q [OF a(2,4)] by auto
qed (use ownsD [OF o] q in simp_all)

lemma owns_grow:
  assumes o: "owns P U R nb I" and b: "unat b \<notin> U" "b < nb" and i: "i0 \<in> I" "k0 < 144"
  shows "owns (\<lambda>ino k. if ino = i0 \<and> k = k0 then b else P ino k) (insert (unat b) U) R nb I"
proof -
  have bR: "unat b \<notin> R" "b \<notin> I" "b \<noteq> 0" using ownsD(1,2,3) [OF o] b(1) by auto
  have neq: "P ino k \<noteq> b" if "ino \<in> I" "k < 144" for ino k
    using ownsD(6) [OF o that] b(1) bR(3) by auto
  show ?thesis unfolding owns_def
  proof (intro conjI ballI allI impI)
    fix ino ino' k k' assume a: "ino \<in> I" "ino' \<in> I" "k < 144" "k' < 144"
      "(if ino = i0 \<and> k = k0 then b else P ino k) \<noteq> 0 \<and>
       (if ino = i0 \<and> k = k0 then b else P ino k) = (if ino' = i0 \<and> k' = k0 then b else P ino' k')"
    show "ino = ino'" "k = k'"
      using a neq [OF a(1,3)] neq [OF a(2,4)] ownsD(10) [OF o a(1-4)] by (auto split: if_splits)
  next
    fix ino assume a: "ino \<in> I"
    show "unat ino \<in> insert (unat b) U - R" "ino < nb" using ownsD(3,4,5) [OF o a] by auto
  next
    fix ino k assume a: "ino \<in> I" "k < 144" "(if ino = i0 \<and> k = k0 then b else P ino k) \<noteq> 0"
    show "unat (if ino = i0 \<and> k = k0 then b else P ino k) \<in> insert (unat b) U - R"
      "(if ino = i0 \<and> k = k0 then b else P ino k) < nb" "(if ino = i0 \<and> k = k0 then b else P ino k) \<notin> I"
      using a(3) ownsD(6,7,8,9) [OF o a(1,2)] bR b(2) by (auto split: if_splits)
  qed (use ownsD(1,2) [OF o] in auto)
qed

lemma owns_shrink:
  assumes o: "owns P U R nb I" and i: "i0 \<in> I" "k0 < 144" "P i0 k0 \<noteq> 0"
  shows "owns (\<lambda>ino k. if ino = i0 \<and> k = k0 then 0 else P ino k) (U - {unat (P i0 k0)}) R nb I"
proof -
  let ?b = "P i0 k0"
  have bR: "unat ?b \<notin> R" "?b \<notin> I" using ownsD(7,9) [OF o i] by auto
  have neq: "P ino k \<noteq> ?b" if "ino \<in> I" "k < 144" "\<not> (ino = i0 \<and> k = k0)" for ino k
    using ownsD(10) [OF o i(1) that(1) i(2) that(2) i(3)] that(3) by metis
  have sub: "R \<subseteq> U - {unat ?b}" using ownsD(1) [OF o] bR(1) by blast
  show ?thesis unfolding owns_def
  proof (intro conjI ballI allI impI sub ownsD(2) [OF o])
    fix ino ino' k k' assume a: "ino \<in> I" "ino' \<in> I" "k < 144" "k' < 144"
      "(if ino = i0 \<and> k = k0 then 0 else P ino k) \<noteq> 0 \<and>
       (if ino = i0 \<and> k = k0 then 0 else P ino k) = (if ino' = i0 \<and> k' = k0 then 0 else P ino' k')"
    show "ino = ino'" "k = k'" using a ownsD(10) [OF o a(1-4)] by (auto split: if_splits)
  next
    fix ino assume a: "ino \<in> I"
    show "unat ino \<in> U - {unat ?b} - R" "ino < nb" using ownsD(3,4,5) [OF o a] bR(2) a by (auto simp: word_unat_eq_iff [symmetric])
  next
    fix ino k assume a: "ino \<in> I" "k < 144" "(if ino = i0 \<and> k = k0 then 0 else P ino k) \<noteq> 0"
    then have n: "\<not> (ino = i0 \<and> k = k0)" "P ino k \<noteq> 0" by (auto split: if_splits)
    show "unat (if ino = i0 \<and> k = k0 then 0 else P ino k) \<in> U - {unat ?b} - R"
      "(if ino = i0 \<and> k = k0 then 0 else P ino k) < nb" "(if ino = i0 \<and> k = k0 then 0 else P ino k) \<notin> I"
      using n ownsD(6,7,8,9) [OF o a(1,2) n(2)] neq [OF a(1,2) n(1)] by (auto simp: word_unat_eq_iff [symmetric])
  qed
qed

text \<open>The contents of block \<open>n\<close> of a file; missing blocks read as zeros.\<close>

definition slot_of :: "nat \<Rightarrow> nat" where
  "slot_of n = (if n < 15 then n else n + 1)"

definition file_block :: "sfs_fs \<Rightarrow> u32 \<Rightarrow> nat \<Rightarrow> byte list" where
  "file_block sfs ino n = (let b = ptr sfs ino (slot_of n) in if b = 0 then zeros else secs sfs b)"

lemma slot_of_less: "n < 143 \<Longrightarrow> slot_of n < 144" "slot_of n \<noteq> 15"
  by (auto simp: slot_of_def)

end
