(* ===== verification/Sfs_Bmap.thy ===== *)
theory Sfs_Bmap
  imports Sfs_Blocks
begin

text \<open>
  Block mapping keeps the ownership of blocks and the contents of all files: a block that is
  allocated on demand was a hole, which reads as zeros, and starts with zeros.
\<close>

section \<open>Loaded vnodes\<close>

definition at_vnode :: "sfs_fs \<Rightarrow> nat \<Rightarrow> sfs_vnode \<Rightarrow> bool" where
  "at_vnode sfs v s \<longleftrightarrow> v \<in> set (sfs_vnodes sfs) \<and> sfs_heap sfs v = Some s"

lemma vnodes_okD:
  assumes "vnodes_ok sfs I" "at_vnode sfs v s"
  shows "sv_ino s \<in> I" "wf_dinode (sv_i s)" "\<not> sv_dirty s \<Longrightarrow> dinode_of (secs sfs (sv_ino s)) = sv_i s"
  using assms by (auto simp: vnodes_ok_def at_vnode_def)

lemma at_vnode_unique:
  assumes "vnodes_ok sfs I" "at_vnode sfs v s" "at_vnode sfs w t" "sv_ino s = sv_ino t"
  shows "v = w"
proof -
  have "inj_on (\<lambda>v. sv_ino (the (sfs_heap sfs v))) (set (sfs_vnodes sfs))" using assms(1) by (simp add: vnodes_ok_def)
  then show ?thesis by (rule inj_onD) (use assms(2-4) in \<open>simp_all add: at_vnode_def\<close>)
qed

lemma loaded_at:
  assumes "vnodes_ok sfs I"
  shows "loaded sfs ino = Some v \<longleftrightarrow> (\<exists>s. at_vnode sfs v s \<and> sv_ino s = ino)"
proof -
  have "find (\<lambda>v. map_option sv_ino (sfs_heap sfs v) = Some ino) (sfs_vnodes sfs) = Some v \<longleftrightarrow>
      v \<in> set (sfs_vnodes sfs) \<and> map_option sv_ino (sfs_heap sfs v) = Some ino"
  proof (rule find_unique_iff)
    fix a b assume "map_option sv_ino (sfs_heap sfs a) = Some ino" "a \<in> set (sfs_vnodes sfs)"
      "map_option sv_ino (sfs_heap sfs b) = Some ino" "b \<in> set (sfs_vnodes sfs)"
    then obtain s t where "at_vnode sfs a s" "at_vnode sfs b t" "sv_ino s = ino" "sv_ino t = ino"
      by (auto simp: at_vnode_def)
    then show "a = b" using at_vnode_unique [OF assms] by metis
  qed
  then show ?thesis by (auto simp: loaded_def at_vnode_def)
qed

lemma inode_at: "vnodes_ok sfs I \<Longrightarrow> at_vnode sfs v s \<Longrightarrow> inode sfs (sv_ino s) = sv_i s"
proof -
  assume a: "vnodes_ok sfs I" "at_vnode sfs v s"
  then have "loaded sfs (sv_ino s) = Some v" using loaded_at [OF a(1)] by blast
  then show ?thesis using a(2) by (simp add: inode_def at_vnode_def)
qed

lemma wf_inode: "fs_inv sfs I \<Longrightarrow> wf_dinode (inode sfs ino)"
proof -
  assume a: "fs_inv sfs I"
  then have v: "vnodes_ok sfs I" "vol_ok sfs" by (simp_all add: fs_inv_def)
  show ?thesis
  proof (cases "loaded sfs ino")
    case None
    then show ?thesis using wf_dinode_of [OF vol_ok_length [OF v(2)]] by (simp add: inode_def)
  next
    case (Some w)
    then obtain s where "at_vnode sfs w s" "sv_ino s = ino" using loaded_at [OF v(1)] by blast
    then show ?thesis using inode_at [OF v(1)] vnodes_okD(2) [OF v(1)] by metis
  qed
qed

text \<open>A change of one vnode and of blocks that are not inodes.\<close>

lemma vnodes_upd:
  assumes v: "vnodes_ok sfs I" and a: "at_vnode sfs v s"
    and h: "sfs_heap sfs' = (sfs_heap sfs)(v \<mapsto> s')" "sfs_vnodes sfs' = sfs_vnodes sfs"
    and s': "sv_ino s' = sv_ino s" "wf_dinode (sv_i s')" "\<not> sv_dirty s' \<Longrightarrow> dinode_of (secs sfs' (sv_ino s)) = sv_i s'"
    and sec: "\<And>ino. ino \<in> I \<Longrightarrow> ino \<noteq> sv_ino s \<Longrightarrow> secs sfs' ino = secs sfs ino"
  shows "vnodes_ok sfs' I" "at_vnode sfs' v s'"
    "ino \<in> I \<Longrightarrow> inode sfs' ino = (if ino = sv_ino s then sv_i s' else inode sfs ino)"
proof -
  show at': "at_vnode sfs' v s'" using a h by (simp add: at_vnode_def)
  have inos: "sv_ino (the (sfs_heap sfs' w)) = sv_ino (the (sfs_heap sfs w))" for w
    using a h(1) s'(1) by (simp add: at_vnode_def)
  have other: "at_vnode sfs' w t \<longleftrightarrow> at_vnode sfs w t" if "w \<noteq> v" for w t using that h by (simp add: at_vnode_def)
  have ne: "sv_ino t \<noteq> sv_ino s" if "w \<noteq> v" "at_vnode sfs w t" for w t using at_vnode_unique [OF v that(2) a] that(1) by blast
  have "\<exists>t. sfs_heap sfs' w = Some t \<and> sv_ino t \<in> I \<and> wf_dinode (sv_i t) \<and>
      (\<not> sv_dirty t \<longrightarrow> dinode_of (secs sfs' (sv_ino t)) = sv_i t)" if w: "w \<in> set (sfs_vnodes sfs')" for w
  proof (cases "w = v")
    case True
    then show ?thesis using h(1) s' vnodes_okD(1) [OF v a] by simp
  next
    case False
    then obtain t where t: "at_vnode sfs w t" using v w h(2) by (auto simp: vnodes_ok_def at_vnode_def)
    then show ?thesis using False h(1) vnodes_okD [OF v t] sec [OF _ ne [OF False t]] by (auto simp: at_vnode_def)
  qed
  then show ok: "vnodes_ok sfs' I" using v h(2) by (simp add: vnodes_ok_def inos)
  assume i: "ino \<in> I"
  show "inode sfs' ino = (if ino = sv_ino s then sv_i s' else inode sfs ino)"
  proof (cases "ino = sv_ino s")
    case True
    then show ?thesis using inode_at [OF ok at'] s'(1) by simp
  next
    case False
    have "loaded sfs' ino = loaded sfs ino"
    proof -
      have "map_option sv_ino (sfs_heap sfs' w) = map_option sv_ino (sfs_heap sfs w)" for w
        using a h(1) s'(1) by (simp add: at_vnode_def)
      then show ?thesis by (simp add: loaded_def h(2))
    qed
    moreover have "w \<noteq> v" if "loaded sfs ino = Some w" for w using that loaded_at [OF v] a False by (auto simp: at_vnode_def)
    ultimately show ?thesis using False h(1) sec [OF i] by (simp add: inode_def split: option.splits)
  qed
qed

section \<open>Allocating a block for a pointer\<close>

definition same_files :: "sfs_fs \<Rightarrow> sfs_fs \<Rightarrow> u32 set \<Rightarrow> bool" where
  "same_files sfs sfs' I \<longleftrightarrow> (\<forall>ino \<in> I. (\<forall>n < 143. file_block sfs' ino n = file_block sfs ino n) \<and>
     sfi_size (inode sfs' ino) = sfi_size (inode sfs ino) \<and> sfi_type (inode sfs' ino) = sfi_type (inode sfs ino) \<and>
     sfi_linkcount (inode sfs' ino) = sfi_linkcount (inode sfs ino))"

lemma same_files_refl [simp]: "same_files sfs sfs I"
  by (simp add: same_files_def)

lemma same_filesD:
  assumes "same_files sfs sfs' I" "ino \<in> I"
  shows "n < 143 \<Longrightarrow> file_block sfs' ino n = file_block sfs ino n" "sfi_size (inode sfs' ino) = sfi_size (inode sfs ino)"
    "sfi_type (inode sfs' ino) = sfi_type (inode sfs ino)" "sfi_linkcount (inode sfs' ino) = sfi_linkcount (inode sfs ino)"
  using bspec [OF assms(1) [unfolded same_files_def] assms(2)] by auto

lemma same_files_trans:
  assumes "same_files a b I" "same_files b c I"
  shows "same_files a c I"
  unfolding same_files_def
  by (intro ballI conjI allI impI)
    (simp_all add: same_filesD [OF assms(1)] same_filesD [OF assms(2)])

lemma reserved_cong: "sfs_sb sfs' = sfs_sb sfs \<Longrightarrow> reserved sfs' = reserved sfs"
  by (simp add: reserved_def)

lemma grow_step:
  assumes inv: "fs_inv sfs I" and i: "i0 \<in> I" "k0 < 144" "ptr sfs i0 k0 = 0" and b: "unat b \<notin> used sfs" "b < nblocks sfs"
    and n: "vol_ok sfs'" "vnodes_ok sfs' I" "sfs_sb sfs' = sfs_sb sfs" "used sfs' = insert (unat b) (used sfs)"
    and P: "\<And>ino k. ino \<in> I \<Longrightarrow> k < 144 \<Longrightarrow> ptr sfs' ino k = (if ino = i0 \<and> k = k0 then b else ptr sfs ino k)"
    and S: "\<And>c. unat c \<in> used sfs \<Longrightarrow> c \<noteq> ptr sfs i0 15 \<Longrightarrow> secs sfs' c = secs sfs c" "secs sfs' b = zeros"
  shows "fs_inv sfs' I" "ino \<in> I \<Longrightarrow> m < 143 \<Longrightarrow> file_block sfs' ino m = file_block sfs ino m"
proof -
  have o: "owns (ptr sfs) (used sfs) (reserved sfs) (nblocks sfs) I" using inv by (simp add: fs_inv_def own_ok_def)
  have "owns (ptr sfs') (used sfs') (reserved sfs') (nblocks sfs') I"
    unfolding n(3,4) reserved_cong [OF n(3)] by (rule owns_cong [OF owns_grow [OF o b i(1,2)] P])
  then show "fs_inv sfs' I" using n by (simp add: fs_inv_def own_ok_def)
  assume a: "ino \<in> I" "m < 143"
  let ?k = "slot_of m" and ?c = "ptr sfs ino (slot_of m)"
  note k = slot_of_less(1) [OF a(2)] slot_of_less(2) [of m]
  have "b \<noteq> 0" using ownsD(1,2) [OF o] b(1) by auto
  show "file_block sfs' ino m = file_block sfs ino m"
  proof (cases "ino = i0 \<and> ?k = k0")
    case True
    then show ?thesis using P [OF a(1) k(1)] i(3) S(2) \<open>b \<noteq> 0\<close> by (auto simp: file_block_def)
  next
    case False
    then have e: "ptr sfs' ino ?k = ?c" using P [OF a(1) k(1)] by auto
    have "secs sfs' ?c = secs sfs ?c" if "?c \<noteq> 0"
      using ownsD(6) [OF o a(1) k(1) that] ownsD(10) [OF o a(1) i(1) k(1), of 15] that k(2) by (intro S(1)) auto
    then show ?thesis by (simp add: file_block_def e Let_def)
  qed
qed

text \<open>What operations on one file leave alone in memory.\<close>

definition only_vnode :: "sfs_fs \<Rightarrow> sfs_fs \<Rightarrow> nat \<Rightarrow> bool" where
  "only_vnode sfs sfs' v \<longleftrightarrow> sfs_sb sfs' = sfs_sb sfs \<and> sfs_vnodes sfs' = sfs_vnodes sfs \<and> biglock sfs' = biglock sfs \<and>
     (\<forall>w. w \<noteq> v \<longrightarrow> sfs_heap sfs' w = sfs_heap sfs w) \<and>
     (\<exists>s s'. sfs_heap sfs v = Some s \<and> sfs_heap sfs' v = Some s' \<and> vn_refcount s' = vn_refcount s \<and>
        vn_ops s' = vn_ops s \<and> sv_ino s' = sv_ino s)"

lemma only_vnode_refl: "sfs_heap sfs v = Some s \<Longrightarrow> only_vnode sfs sfs v"
  by (simp add: only_vnode_def)

lemma only_vnode_trans: "only_vnode a b v \<Longrightarrow> only_vnode b c v \<Longrightarrow> only_vnode a c v"
  by (auto simp: only_vnode_def)

lemma only_vnode_at: "only_vnode sfs sfs' v \<Longrightarrow> at_vnode sfs v s \<Longrightarrow> \<exists>s'. at_vnode sfs' v s' \<and> sv_ino s' = sv_ino s"
  by (auto simp: only_vnode_def at_vnode_def)

lemma set_inode_simps:
  assumes "sfs_heap sfs v = Some s"
  shows "sfs_heap (set_inode v f sfs) = (sfs_heap sfs)(v \<mapsto> s\<lparr>sv_i := f (sv_i s), sv_dirty := True\<rparr>)"
    "sfs_sb (set_inode v f sfs) = sfs_sb sfs" "sfs_vnodes (set_inode v f sfs) = sfs_vnodes sfs"
    "sfs_device (set_inode v f sfs) = sfs_device sfs" "sfs_freemap (set_inode v f sfs) = sfs_freemap sfs"
    "biglock (set_inode v f sfs) = biglock sfs"
  using assms by (simp_all add: set_inode_def set_vnode_def)

lemma vol_ok_cong: "sfs_device sfs' = sfs_device sfs \<Longrightarrow> sfs_freemap sfs' = sfs_freemap sfs \<Longrightarrow> sfs_sb sfs' = sfs_sb sfs \<Longrightarrow>
    vol_ok sfs' = vol_ok sfs"
  by (simp add: vol_ok_def)

lemma inode_ptr_cong:
  "(sfi_indirect di \<noteq> 0 \<Longrightarrow> sec' (sfi_indirect di) = sec (sfi_indirect di)) \<Longrightarrow> inode_ptr sec' di k = inode_ptr sec di k"
  by (simp add: inode_ptr_def)

lemma fs_invD:
  assumes "fs_inv sfs I"
  shows "vol_ok sfs" "vnodes_ok sfs I" "owns (ptr sfs) (used sfs) (reserved sfs) (nblocks sfs) I"
  using assms by (simp_all add: fs_inv_def own_ok_def)

lemma ptr_15: "ptr sfs ino 15 = sfi_indirect (inode sfs ino)"
  by (simp add: ptr_def inode_ptr_def)

lemma ptr_write_free:
  assumes "fs_inv sfs I" "ino \<in> I" "unat b \<notin> used sfs"
  shows "inode_ptr ((secs sfs)(b := z)) (inode sfs ino) k = ptr sfs ino k"
proof -
  have "sfi_indirect (inode sfs ino) \<noteq> b" if "sfi_indirect (inode sfs ino) \<noteq> 0"
    using ownsD(6) [OF fs_invD(3) [OF assms(1)] assms(2), of 15] that assms(3) by (auto simp: ptr_15)
  then show ?thesis unfolding ptr_def by (intro inode_ptr_cong) simp
qed

text \<open>Storing a new block in a pointer of a loaded inode: a direct one or that of the indirect block.\<close>

lemma alloc_in_inode:
  assumes inv: "fs_inv sfs I" and a: "at_vnode sfs v s" and k: "k \<le> 15" "ptr sfs (sv_ino s) k = 0"
    and b: "unat b \<notin> used sfs" "b < nblocks sfs" "marked bm = insert (unat b) (used sfs)" "vol_ok (wsec b zeros (set_map bm sfs))"
    and f: "wf_dinode (f (sv_i s))" "sfi_size (f (sv_i s)) = sfi_size (sv_i s)" "sfi_type (f (sv_i s)) = sfi_type (sv_i s)"
      "sfi_linkcount (f (sv_i s)) = sfi_linkcount (sv_i s)"
      "\<And>j. j < 144 \<Longrightarrow> inode_ptr ((secs sfs)(b := zeros)) (f (sv_i s)) j = (if j = k then b else ptr sfs (sv_ino s) j)"
    and sfs': "sfs' = set_inode v f (wsec b zeros (set_map bm sfs))"
  shows "fs_inv sfs' I" "same_files sfs sfs' I" "only_vnode sfs sfs' v" "ptr sfs' (sv_ino s) k = b" "b \<noteq> 0"
proof -
  let ?s = "wsec b zeros (set_map bm sfs)"
  note o = fs_invD(3) [OF inv]
  have h: "sfs_heap ?s v = Some s" using a by (simp add: at_vnode_def)
  note n = set_inode_simps [OF h, of f, folded sfs']
  have bI: "b \<notin> I" "b \<noteq> 0" using ownsD(1,2,3) [OF o] b(1) by auto
  have sec: "secs sfs' = (secs sfs)(b := zeros)" by (simp add: n)
  have i: "sv_ino s \<in> I" using vnodes_okD(1) [OF fs_invD(2) [OF inv] a] .
  let ?t = "s\<lparr>sv_i := f (sv_i s), sv_dirty := True\<rparr>"
  have "sfs_heap sfs' = (sfs_heap sfs)(v \<mapsto> ?t)" "sfs_vnodes sfs' = sfs_vnodes sfs" "sv_ino ?t = sv_ino s"
    "wf_dinode (sv_i ?t)" "\<not> sv_dirty ?t \<Longrightarrow> dinode_of (secs sfs' (sv_ino s)) = sv_i ?t" using n f(1) by simp_all
  moreover have "secs sfs' ino = secs sfs ino" if "ino \<in> I" for ino using sec bI(1) that by auto
  ultimately have u: "vnodes_ok sfs' I" "\<And>ino. ino \<in> I \<Longrightarrow> inode sfs' ino = (if ino = sv_ino s then f (sv_i s) else inode sfs ino)"
    using vnodes_upd(1,3) [OF fs_invD(2) [OF inv] a, of sfs' ?t] by simp_all
  have P: "ptr sfs' ino j = (if ino = sv_ino s \<and> j = k then b else ptr sfs ino j)" if "ino \<in> I" "j < 144" for ino j
    using f(5) [OF that(2)] ptr_write_free [OF inv that(1) b(1)] u(2) [OF that(1)] by (auto simp: ptr_def [of sfs'] sec)
  have v: "vol_ok sfs'" "sfs_sb sfs' = sfs_sb sfs" "used sfs' = insert (unat b) (used sfs)" "k < 144" "secs sfs' b = zeros"
    using b(3,4) vol_ok_cong [of sfs' ?s] n k(1) by simp_all
  have S: "secs sfs' c = secs sfs c" if "unat c \<in> used sfs" for c using that b(1) sec by auto
  note g = grow_step [OF inv i v(4) k(2) b(1,2) v(1) u(1) v(2,3) P S v(5)]
  show "fs_inv sfs' I" by (rule g(1))
  show "same_files sfs sfs' I" unfolding same_files_def
    using g(2) u(2) f(2-4) inode_at [OF fs_invD(2) [OF inv] a] by simp
  show "only_vnode sfs sfs' v" using n a by (simp add: only_vnode_def at_vnode_def)
  show "ptr sfs' (sv_ino s) k = b" "b \<noteq> 0" using P [OF i, of k] k(1) bI by simp_all
qed

text \<open>Storing a new block in an entry of the indirect block.\<close>

lemma inode_ptr_entry:
  assumes "sfi_indirect di = d" "d \<noteq> 0" "length (words_of (sec d)) = 128" "j < 128" "k < 144"
  shows "inode_ptr (sec(b := z, d := bytes_of ((words_of (sec d))[j := x]))) di k = (if k = 16 + j then x else inode_ptr sec di k)"
proof -
  show ?thesis
  proof (cases "k < 16")
    case False
    then obtain i where "k = 16 + i" using le_Suc_ex [of 16 k] by auto
    then show ?thesis using assms by (simp add: inode_ptr_def nth_list_update)
  qed (simp add: inode_ptr_def)
qed

lemma alloc_in_indirect:
  assumes inv: "fs_inv sfs I" and a: "at_vnode sfs v s" and d: "d = ptr sfs (sv_ino s) 15" "d \<noteq> 0"
    and j: "j < 128" "ptr sfs (sv_ino s) (16 + j) = 0"
    and b: "unat b \<notin> used sfs" "b < nblocks sfs" "marked bm = insert (unat b) (used sfs)" "vol_ok (wsec b zeros (set_map bm sfs))"
    and sfs': "sfs' = wsec d (bytes_of ((words_of (secs sfs d))[j := b])) (wsec b zeros (set_map bm sfs))"
  shows "fs_inv sfs' I" "same_files sfs sfs' I" "only_vnode sfs sfs' v" "ptr sfs' (sv_ino s) (16 + j) = b" "b \<noteq> 0"
proof -
  let ?i = "sv_ino s" and ?w = "words_of (secs sfs d)"
  note o = fs_invD(3) [OF inv]
  have lw: "length ?w = 128" using vol_ok_length [OF fs_invD(1) [OF inv], of d] by (simp add: length_words_of)
  have i: "?i \<in> I" using vnodes_okD(1) [OF fs_invD(2) [OF inv] a] .
  have du: "unat d \<in> used sfs" "d \<notin> I" using ownsD(6,9) [OF o i, of 15] d by auto
  have bI: "b \<notin> I" "b \<noteq> 0" "b \<noteq> d" using ownsD(1,2,3) [OF o] b(1) du by auto
  have sec: "secs sfs' = (secs sfs)(b := zeros, d := bytes_of (?w[j := b]))" by (simp add: sfs')
  have h: "sfs_heap sfs' = (sfs_heap sfs)(v \<mapsto> s)" "sfs_vnodes sfs' = sfs_vnodes sfs" using a by (auto simp: sfs' at_vnode_def)
  have secI: "secs sfs' ino = secs sfs ino" if "ino \<in> I" for ino using sec bI(1) du(2) that by auto
  have cl: "\<not> sv_dirty s \<Longrightarrow> dinode_of (secs sfs' ?i) = sv_i s"
    using vnodes_okD(3) [OF fs_invD(2) [OF inv] a] secI [OF i] by simp
  note vu = vnodes_upd [OF fs_invD(2) [OF inv] a h refl vnodes_okD(2) [OF fs_invD(2) [OF inv] a] cl secI]
  have u: "vnodes_ok sfs' I" "\<And>ino. ino \<in> I \<Longrightarrow> inode sfs' ino = inode sfs ino"
    using vu(1,3) inode_at [OF fs_invD(2) [OF inv] a] by simp_all
  have P: "ptr sfs' ino k = (if ino = ?i \<and> k = 16 + j then b else ptr sfs ino k)" if "ino \<in> I" "k < 144" for ino k
  proof (cases "ino = ?i")
    case True
    have "sfi_indirect (inode sfs ?i) = d" using d(1) by (simp add: ptr_15)
    note e = inode_ptr_entry [where sec = "secs sfs", OF this d(2) lw j(1) that(2), of b zeros b]
    have "ptr sfs' ?i k = inode_ptr (secs sfs') (inode sfs ?i) k" by (simp only: ptr_def u(2) [OF i])
    also have "\<dots> = (if k = 16 + j then b else ptr sfs ?i k)" by (simp only: sec e ptr_def)
    finally show ?thesis using True by simp
  next
    case False
    then have "ptr sfs ?i 15 \<noteq> ptr sfs ino 15" using ownsD(10) [OF o i that(1), of 15 15] d(2) unfolding d(1) by auto
    then have "sfi_indirect (inode sfs ino) \<noteq> d" unfolding d(1) by (simp add: ptr_15)
    then have "inode_ptr (secs sfs') (inode sfs ino) k = inode_ptr ((secs sfs)(b := zeros)) (inode sfs ino) k"
      unfolding sec by (intro inode_ptr_cong) simp
    then show ?thesis using False ptr_write_free [OF inv that(1) b(1)] u(2) [OF that(1)] by (simp add: ptr_def [of sfs'])
  qed
  have v: "vol_ok sfs'" "sfs_sb sfs' = sfs_sb sfs" "used sfs' = insert (unat b) (used sfs)" "16 + j < 144" "secs sfs' b = zeros"
    using b(3,4) j(1) lw bI(3) by (simp_all add: sfs')
  have S: "secs sfs' c = secs sfs c" if "unat c \<in> used sfs" "c \<noteq> ptr sfs ?i 15" for c using that b(1) sec d by auto
  note g = grow_step [OF inv i v(4) j(2) b(1,2) v(1) u(1) v(2,3) P S v(5)]
  show "fs_inv sfs' I" by (rule g(1))
  show "same_files sfs sfs' I" unfolding same_files_def using g(2) u(2) by simp
  show "only_vnode sfs sfs' v" using a h by (simp add: only_vnode_def at_vnode_def sfs')
  show "ptr sfs' ?i (16 + j) = b" "b \<noteq> 0" using P [OF i v(4)] bI by simp_all
qed

section \<open>sfs\_bmap\<close>

lemma unat_block: "n < 2 ^ 32 \<Longrightarrow> unat (of_nat n :: u32) = n"
  by (simp add: unat_of_nat)

lemma ptr_handed_back:
  assumes "fs_inv sfs I" "ino \<in> I" "k < 144"
  shows "hand_back (ptr sfs ino k) sfs = Inr (0, ptr sfs ino k, sfs)"
  using ownsD(6,8) [OF fs_invD(3) [OF assms(1)] assms(2,3)] by (intro hand_back_ok fs_invD(1) [OF assms(1)]) auto

text \<open>Without allocation, the pointer of the block is returned and nothing changes.\<close>

lemma bmap_lookup:
  assumes inv: "fs_inv sfs I" and l: "biglock sfs > 0" and a: "at_vnode sfs v s" and n: "n < 143"
  shows "sfs_bmap sfs v (of_nat n) False = Inr (0, ptr sfs (sv_ino s) (slot_of n), sfs)"
proof -
  have u: "unat (of_nat n :: u32) = n" using n by (simp add: unat_block)
  have i: "sv_ino s \<in> I" "inode sfs (sv_ino s) = sv_i s" "the_vnode sfs v = Inr s" "vfs_biglock_do_i_hold sfs"
    using vnodes_okD(1) [OF fs_invD(2) [OF inv] a] inode_at [OF fs_invD(2) [OF inv] a] a l
    by (simp_all add: the_vnode_def at_vnode_def vfs_biglock_do_i_hold_def)
  note hb = ptr_handed_back [OF inv i(1) slot_of_less(1) [OF n]]
  show ?thesis
  proof (cases "n < 15")
    case True
    then have "ptr sfs (sv_ino s) (slot_of n) = sfi_direct (sv_i s) ! n" by (simp add: ptr_def inode_ptr_def slot_of_def i)
    then show ?thesis using True hb i u by (simp add: sfs_bmap_def bmap_direct_def SFS_NDIRECT_def)
  next
    case False
    then obtain j where j: "n = 15 + j" "j < 128" using n le_Suc_ex [of 15 n] by auto
    let ?d = "sfi_indirect (sv_i s)"
    have p: "ptr sfs (sv_ino s) (slot_of n) = (if ?d = 0 then 0 else words_of (secs sfs ?d) ! j)"
      using j by (simp add: ptr_def inode_ptr_def slot_of_def i)
    have "?d < nblocks sfs" if "?d \<noteq> 0" using ownsD(8) [OF fs_invD(3) [OF inv] i(1), of 15] that by (simp add: ptr_15 i)
    then have "sfs_readblock sfs ?d zeros = Inr (0, secs sfs ?d, sfs)" if "?d \<noteq> 0"
      using readblock_ok [OF fs_invD(1) [OF inv] l] that by simp
    then show ?thesis using False j hb i u p
      by (auto simp: sfs_bmap_def bmap_indirect_def bmap_idblock_def SFS_NDIRECT_def SFS_DBPERIDB_def SFS_NINDIRECT_def Let_def)
  qed
qed

lemma bmap_too_big:
  assumes "biglock sfs > 0" "143 \<le> n" "n < 2 ^ 32"
  shows "sfs_bmap sfs v (of_nat n) al = Inr (EFBIG, 0, sfs)"
proof -
  have "1 \<le> (n - 15) div 128" using div_le_mono [of 128 "n - 15" 128] assms(2) by simp
  then show ?thesis using assms by (simp add: sfs_bmap_def vfs_biglock_do_i_hold_def unat_block SFS_NDIRECT_def SFS_DBPERIDB_def SFS_NINDIRECT_def Let_def)
qed

text \<open>With allocation, the block exists afterwards, unless the volume is full. No file changes.\<close>

definition full :: "sfs_fs \<Rightarrow> bool" where
  "full sfs \<longleftrightarrow> used sfs = {..<unat (nbits (sfs_freemap sfs))}"

definition kept :: "sfs_fs \<Rightarrow> sfs_fs \<Rightarrow> u32 set \<Rightarrow> nat \<Rightarrow> bool" where
  "kept sfs sfs' I v \<longleftrightarrow> fs_inv sfs' I \<and> same_files sfs sfs' I \<and> only_vnode sfs sfs' v"

lemma kept_refl: "fs_inv sfs I \<Longrightarrow> at_vnode sfs v s \<Longrightarrow> kept sfs sfs I v"
  by (simp add: kept_def at_vnode_def only_vnode_refl)

lemma kept_trans: "kept a b I v \<Longrightarrow> kept b c I v \<Longrightarrow> kept a c I v"
  unfolding kept_def using same_files_trans only_vnode_trans by blast

lemma the_vnode_at: "at_vnode sfs v s \<Longrightarrow> the_vnode sfs v = Inr s"
  by (simp add: at_vnode_def the_vnode_def)

lemma bmap_direct_alloc:
  assumes inv: "fs_inv sfs I" and l: "biglock sfs > 0" and a: "at_vnode sfs v s" and n: "n < 15"
  obtains (full) "bmap_direct sfs v (of_nat n) True = Inr (ENOSPC, 0, sfs)" "full sfs"
  | (ok) sfs' where "kept sfs sfs' I v" "ptr sfs' (sv_ino s) n \<noteq> 0"
      "bmap_direct sfs v (of_nat n) True = Inr (0, ptr sfs' (sv_ino s) n, sfs')"
proof -
  have u: "unat (of_nat n :: u32) = n" using n by (simp add: unat_block)
  have i: "sv_ino s \<in> I" "inode sfs (sv_ino s) = sv_i s" "wf_dinode (sv_i s)"
    using vnodes_okD(1,2) [OF fs_invD(2) [OF inv] a] inode_at [OF fs_invD(2) [OF inv] a] by simp_all
  have p: "ptr sfs (sv_ino s) n = sfi_direct (sv_i s) ! n" using n by (simp add: ptr_def inode_ptr_def i)
  show ?thesis
  proof (cases "sfi_direct (sv_i s) ! n = 0")
    case False
    then show ?thesis using ok [OF kept_refl [OF inv a]] ptr_handed_back [OF inv i(1), of n] p n u
      by (simp add: bmap_direct_def the_vnode_at [OF a])
  next
    case True
    show ?thesis
    proof (rule balloc_cases [OF fs_invD(1) [OF inv] l])
      assume f: "sfs_balloc sfs = Inr (ENOSPC, 0, sfs)" "used sfs = {..<unat (nbits (sfs_freemap sfs))}"
      then show ?thesis using full True u by (simp add: bmap_direct_def the_vnode_at [OF a] ENOSPC_def full_def)
    next
      fix b bm
      assume b: "sfs_balloc sfs = Inr (0, b, wsec b zeros (set_map bm sfs))" "b < nblocks sfs" "unat b \<notin> used sfs"
        "marked bm = insert (unat b) (used sfs)" "vol_ok (wsec b zeros (set_map bm sfs))"
      let ?f = "\<lambda>i. i\<lparr>sfi_direct := (sfi_direct i)[n := b]\<rparr>"
      define sfs' where "sfs' = set_inode v ?f (wsec b zeros (set_map bm sfs))"
      have "wf_dinode (?f (sv_i s))" using i(3) by (simp add: wf_dinode_def)
      moreover have "inode_ptr ((secs sfs)(b := zeros)) (?f (sv_i s)) j = (if j = n then b else ptr sfs (sv_ino s) j)" if "j < 144" for j
        using ptr_write_free [OF inv i(1) b(3), of zeros j] n i(3) by (auto simp: inode_ptr_def i(2) wf_dinode_def SFS_NDIRECT_def nth_list_update)
      ultimately have k: "fs_inv sfs' I" "same_files sfs sfs' I" "only_vnode sfs sfs' v" "ptr sfs' (sv_ino s) n = b" "b \<noteq> 0"
        using alloc_in_inode [OF inv a _ _ b(3,2,4,5), of n ?f sfs'] n p True sfs'_def by simp_all
      have "hand_back b sfs' = Inr (0, b, sfs')" using ptr_handed_back [OF k(1) i(1), of n] n k(4) by simp
      then show ?thesis using ok [of sfs'] k b(1) True u
        by (simp add: bmap_direct_def the_vnode_at [OF a] kept_def sfs'_def [symmetric])
    qed
  qed
qed

lemma bmap_idblock_alloc:
  assumes inv: "fs_inv sfs I" and l: "biglock sfs > 0" and a: "at_vnode sfs v s"
  obtains (full) "bmap_idblock sfs v = Inr (ENOSPC, 0, [], sfs)" "full sfs"
  | (ok) sfs' where "kept sfs sfs' I v" "ptr sfs' (sv_ino s) 15 \<noteq> 0"
      "bmap_idblock sfs v = Inr (0, ptr sfs' (sv_ino s) 15, words_of (secs sfs' (ptr sfs' (sv_ino s) 15)), sfs')"
proof -
  have i: "sv_ino s \<in> I" "inode sfs (sv_ino s) = sv_i s" "wf_dinode (sv_i s)"
    using vnodes_okD(1,2) [OF fs_invD(2) [OF inv] a] inode_at [OF fs_invD(2) [OF inv] a] by simp_all
  have p: "ptr sfs (sv_ino s) 15 = sfi_indirect (sv_i s)" by (simp add: ptr_15 i)
  show ?thesis
  proof (cases "sfi_indirect (sv_i s) = 0")
    case False
    then have "sfi_indirect (sv_i s) < nblocks sfs" using ownsD(8) [OF fs_invD(3) [OF inv] i(1), of 15] p by simp
    then have "sfs_readblock sfs (sfi_indirect (sv_i s)) zeros = Inr (0, secs sfs (sfi_indirect (sv_i s)), sfs)"
      using readblock_ok [OF fs_invD(1) [OF inv] l] by simp
    then show ?thesis using ok [OF kept_refl [OF inv a]] False p
      by (simp add: bmap_idblock_def the_vnode_at [OF a] Let_def)
  next
    case True
    show ?thesis
    proof (rule balloc_cases [OF fs_invD(1) [OF inv] l])
      assume f: "sfs_balloc sfs = Inr (ENOSPC, 0, sfs)" "used sfs = {..<unat (nbits (sfs_freemap sfs))}"
      then show ?thesis using full True by (simp add: bmap_idblock_def the_vnode_at [OF a] ENOSPC_def full_def)
    next
      fix b bm
      assume b: "sfs_balloc sfs = Inr (0, b, wsec b zeros (set_map bm sfs))" "b < nblocks sfs" "unat b \<notin> used sfs"
        "marked bm = insert (unat b) (used sfs)" "vol_ok (wsec b zeros (set_map bm sfs))"
      let ?f = "\<lambda>i. i\<lparr>sfi_indirect := b\<rparr>"
      define sfs' where "sfs' = set_inode v ?f (wsec b zeros (set_map bm sfs))"
      have "wf_dinode (?f (sv_i s))" using i(3) by (simp add: wf_dinode_def)
      moreover have "inode_ptr ((secs sfs)(b := zeros)) (?f (sv_i s)) j = (if j = 15 then b else ptr sfs (sv_ino s) j)" if "j < 144" for j
        using True that by (auto simp: inode_ptr_def ptr_def i(2) words_of_zeros)
      ultimately have k: "fs_inv sfs' I" "same_files sfs sfs' I" "only_vnode sfs sfs' v" "ptr sfs' (sv_ino s) 15 = b" "b \<noteq> 0"
        using alloc_in_inode [OF inv a _ _ b(3,2,4,5), of 15 ?f sfs'] p True sfs'_def by simp_all
      have "secs sfs' b = zeros" using a by (simp add: sfs'_def set_inode_simps(4) at_vnode_def)
      then show ?thesis using ok [of sfs'] k b(1) True
        by (simp add: bmap_idblock_def the_vnode_at [OF a] kept_def sfs'_def [symmetric])
    qed
  qed
qed

lemma bmap_indirect_alloc:
  assumes inv: "fs_inv sfs I" and l: "biglock sfs > 0" and a: "at_vnode sfs v s" and j: "j < 128"
  obtains (full) sfs' where "kept sfs sfs' I v" "bmap_indirect sfs v j True = Inr (ENOSPC, 0, sfs')" "full sfs'"
  | (ok) sfs' where "kept sfs sfs' I v" "ptr sfs' (sv_ino s) (16 + j) \<noteq> 0"
      "bmap_indirect sfs v j True = Inr (0, ptr sfs' (sv_ino s) (16 + j), sfs')"
proof (rule bmap_idblock_alloc [OF inv l a])
  assume f: "bmap_idblock sfs v = Inr (ENOSPC, 0, [], sfs)" "full sfs"
  then show ?thesis using full [OF kept_refl [OF inv a]] by (simp add: bmap_indirect_def ENOSPC_def)
next
  fix s1
  let ?i = "sv_ino s" and ?d = "ptr s1 (sv_ino s) 15"
  assume k1: "kept sfs s1 I v" and d: "?d \<noteq> 0" "bmap_idblock sfs v = Inr (0, ?d, words_of (secs s1 ?d), s1)"
  have inv1: "fs_inv s1 I" and ov: "only_vnode sfs s1 v" using k1 by (simp_all add: kept_def)
  obtain t where t: "at_vnode s1 v t" "sv_ino t = ?i" using only_vnode_at [OF ov a] by blast
  have i: "?i \<in> I" using vnodes_okD(1) [OF fs_invD(2) [OF inv] a] .
  have l1: "biglock s1 > 0" using ov l by (simp add: only_vnode_def)
  have p: "ptr s1 ?i (16 + j) = words_of (secs s1 ?d) ! j" using d(1) by (simp add: ptr_def inode_ptr_def ptr_15)
  show ?thesis
  proof (cases "words_of (secs s1 ?d) ! j = 0")
    case False
    then show ?thesis using ok [OF k1] ptr_handed_back [OF inv1 i, of "16 + j"] j p d
      by (simp add: bmap_indirect_def Let_def)
  next
    case True
    show ?thesis
    proof (rule balloc_cases [OF fs_invD(1) [OF inv1] l1])
      assume f: "sfs_balloc s1 = Inr (ENOSPC, 0, s1)" "used s1 = {..<unat (nbits (sfs_freemap s1))}"
      then show ?thesis using full [OF k1] True d by (simp add: bmap_indirect_def ENOSPC_def full_def Let_def)
    next
      fix b bm
      assume b: "sfs_balloc s1 = Inr (0, b, wsec b zeros (set_map bm s1))" "b < nblocks s1" "unat b \<notin> used s1"
        "marked bm = insert (unat b) (used s1)" "vol_ok (wsec b zeros (set_map bm s1))"
      define s2 where "s2 = wsec ?d (bytes_of ((words_of (secs s1 ?d))[j := b])) (wsec b zeros (set_map bm s1))"
      note al = alloc_in_indirect [OF inv1 t(1) _ d(1) j _ b(3,2,4,5), unfolded t(2), OF refl _ s2_def]
      have k: "fs_inv s2 I" "same_files s1 s2 I" "only_vnode s1 s2 v" "ptr s2 ?i (16 + j) = b" "b \<noteq> 0"
        using al p True by simp_all
      have w: "sfs_writeblock (wsec b zeros (set_map bm s1)) ?d (bytes_of ((words_of (secs s1 ?d))[j := b])) = Inr (0, s2)"
        unfolding s2_def using ownsD(8) [OF fs_invD(3) [OF inv1] i _ d(1)] b(5) l1 vol_ok_length [OF fs_invD(1) [OF inv1], of ?d]
        by (intro writeblock_ok) (simp_all add: length_words_of)
      have "hand_back b s2 = Inr (0, b, s2)" using ptr_handed_back [OF k(1) i, of "16 + j"] j k(4) by simp
      then show ?thesis using ok [of s2] kept_trans [OF k1, of s2] k b(1) True d w
        by (simp add: bmap_indirect_def kept_def Let_def)
    qed
  qed
qed

lemma bmap_alloc:
  assumes inv: "fs_inv sfs I" and l: "biglock sfs > 0" and a: "at_vnode sfs v s" and n: "n < 143"
  obtains (full) sfs' where "kept sfs sfs' I v" "sfs_bmap sfs v (of_nat n) True = Inr (ENOSPC, 0, sfs')" "full sfs'"
  | (ok) sfs' where "kept sfs sfs' I v" "ptr sfs' (sv_ino s) (slot_of n) \<noteq> 0"
      "sfs_bmap sfs v (of_nat n) True = Inr (0, ptr sfs' (sv_ino s) (slot_of n), sfs')"
proof -
  have u: "unat (of_nat n :: u32) = n" using n by (simp add: unat_block)
  have h: "vfs_biglock_do_i_hold sfs" using l by (simp add: vfs_biglock_do_i_hold_def)
  show ?thesis
  proof (cases "n < 15")
    case True
    then have "sfs_bmap sfs v (of_nat n) True = bmap_direct sfs v (of_nat n) True" "slot_of n = n"
      using h u by (simp_all add: sfs_bmap_def SFS_NDIRECT_def slot_of_def)
    then show ?thesis using bmap_direct_alloc [OF inv l a True] full [OF kept_refl [OF inv a]] ok by metis
  next
    case False
    then obtain j where j: "n = 15 + j" "j < 128" using n le_Suc_ex [of 15 n] by auto
    then have "sfs_bmap sfs v (of_nat n) True = bmap_indirect sfs v j True" "slot_of n = 16 + j"
      using h u False the_vnode_at [OF a]
      by (simp_all add: sfs_bmap_def SFS_NDIRECT_def SFS_DBPERIDB_def SFS_NINDIRECT_def slot_of_def Let_def)
    then show ?thesis using bmap_indirect_alloc [OF inv l a j(2)] full ok by metis
  qed
qed

end
