(* ===== verification/Sfs_Files.thy ===== *)
theory Sfs_Files
  imports Sfs_Bmap
begin

text \<open>
  File input and output. The contents of a file are a sequence of bytes; reading and writing
  through the block map, the partial blocks at both ends and the whole blocks in between, are
  reading and writing of that sequence.
\<close>

section \<open>Contents\<close>

definition MAXFILE :: nat where "MAXFILE = 143 * 512"

definition contents :: "sfs_fs \<Rightarrow> u32 \<Rightarrow> byte list" where
  "contents sfs ino = concat (map (file_block sfs ino) [0..<143])"

lemma length_file_block: "vol_ok sfs \<Longrightarrow> length (file_block sfs ino n) = 512"
  by (simp add: file_block_def vol_ok_length Let_def)

lemma length_concat_blocks: "(\<And>i. i < n \<Longrightarrow> length (f i) = 512) \<Longrightarrow> length (concat (map f [0..<n])) = n * 512"
  by (induction n) auto

lemma nth_concat_blocks:
  "(\<And>i. i < n \<Longrightarrow> length (f i) = 512) \<Longrightarrow> p < n * 512 \<Longrightarrow> concat (map f [0..<n]) ! p = f (p div 512) ! (p mod 512)"
proof (induction n)
  case (Suc n)
  have l: "length (concat (map f [0..<n])) = n * 512" using Suc.prems(1) by (intro length_concat_blocks) simp
  show ?case
  proof (cases "p < n * 512")
    case True
    then show ?thesis using Suc l by (simp add: nth_append)
  next
    case False
    then obtain q where q: "p = n * 512 + q" using le_Suc_ex [of "n * 512" p] by auto
    then have "q < 512" using Suc.prems(2) by simp
    then have "p div 512 = n" "p mod 512 = q" using q by simp_all
    then show ?thesis using l q by (simp add: nth_append)
  qed
qed simp

lemma length_contents: "vol_ok sfs \<Longrightarrow> length (contents sfs ino) = MAXFILE"
  unfolding contents_def MAXFILE_def by (rule length_concat_blocks) (rule length_file_block)

lemma nth_contents: "vol_ok sfs \<Longrightarrow> p < MAXFILE \<Longrightarrow> contents sfs ino ! p = file_block sfs ino (p div 512) ! (p mod 512)"
  unfolding contents_def MAXFILE_def by (rule nth_concat_blocks) (simp_all add: length_file_block)

lemma contents_cong: "(\<And>n. n < 143 \<Longrightarrow> file_block sfs' ino' n = file_block sfs ino n) \<Longrightarrow> contents sfs' ino' = contents sfs ino"
  unfolding contents_def by (intro arg_cong [where f = concat] map_cong) auto

lemma slice_contents:
  assumes "vol_ok sfs" "n < 143" "skip + len \<le> 512"
  shows "take len (drop (n * 512 + skip) (contents sfs ino)) = take len (drop skip (file_block sfs ino n))"
proof (rule nth_equalityI)
  show "length (take len (drop (n * 512 + skip) (contents sfs ino))) = length (take len (drop skip (file_block sfs ino n)))"
    using assms by (simp add: length_contents length_file_block MAXFILE_def)
  fix i assume "i < length (take len (drop (n * 512 + skip) (contents sfs ino)))"
  then have i: "i < len" by simp
  have "(n * 512 + (skip + i)) div 512 = n" "(n * 512 + (skip + i)) mod 512 = skip + i" using assms(3) i by simp_all
  then show "take len (drop (n * 512 + skip) (contents sfs ino)) ! i = take len (drop skip (file_block sfs ino n)) ! i"
    using i assms nth_contents [OF assms(1), of "n * 512 + (skip + i)" ino]
    by (simp add: length_contents length_file_block MAXFILE_def add.assoc)
qed

text \<open>Writing in one block of a file.\<close>

lemma overwrite_contents:
  assumes v: "vol_ok sfs" "vol_ok sfs'" and n: "n < 143" "skip + length bs \<le> 512"
    and b: "\<And>m. m < 143 \<Longrightarrow> file_block sfs' ino m = (if m = n then overwrite (file_block sfs ino n) skip bs else file_block sfs ino m)"
  shows "contents sfs' ino = overwrite (contents sfs ino) (n * 512 + skip) bs"
proof (rule nth_equalityI)
  have l: "n * 512 + skip + length bs \<le> MAXFILE" using n by (simp add: MAXFILE_def)
  then show "length (contents sfs' ino) = length (overwrite (contents sfs ino) (n * 512 + skip) bs)"
    using v by (simp add: length_contents)
  fix p assume "p < length (contents sfs' ino)"
  then have p: "p < MAXFILE" using v by (simp add: length_contents)
  let ?m = "p div 512" and ?r = "p mod 512"
  have m: "?m < 143" "?r < 512" "p = ?m * 512 + ?r" using p by (simp_all add: MAXFILE_def)
  have inr: "n * 512 + skip \<le> p \<and> p < n * 512 + skip + length bs \<longleftrightarrow> ?m = n \<and> skip \<le> ?r \<and> ?r < skip + length bs"
  proof -
    have "n * 512 + skip \<le> q * 512 + r \<and> q * 512 + r < n * 512 + skip + length bs \<longleftrightarrow> q = n \<and> skip \<le> r \<and> r < skip + length bs"
      if "r < 512" for q r
      using n(2) that by (cases q n rule: linorder_cases) auto
    from this [OF m(2), of ?m] show ?thesis by simp
  qed
  have e: "p - (?m * 512 + skip) = ?r - skip" by (metis diff_diff_left minus_div_mult_eq_mod)
  have "contents sfs' ino ! p = (if ?m = n then overwrite (file_block sfs ino n) skip bs ! ?r else file_block sfs ino ?m ! ?r)"
    using nth_contents [OF v(2) p] b [OF m(1)] by auto
  also have "\<dots> = (if ?m = n \<and> skip \<le> ?r \<and> ?r < skip + length bs then bs ! (?r - skip) else file_block sfs ino ?m ! ?r)"
    using n(2) m(2) length_file_block [OF v(1)] by (auto simp: nth_overwrite)
  also have "\<dots> = overwrite (contents sfs ino) (n * 512 + skip) bs ! p"
    using l p nth_contents [OF v(1) p] inr m(3) length_contents [OF v(1)] e by (auto simp: nth_overwrite)
  finally show "contents sfs' ino ! p = overwrite (contents sfs ino) (n * 512 + skip) bs ! p" .
qed

lemma overwrite_append:
  assumes "i + length xs + length ys \<le> length zs"
  shows "overwrite (overwrite zs i xs) (i + length xs) ys = overwrite zs i (xs @ ys)"
proof (cases "xs = []")
  case False
  then have "i < length zs" using assms by (cases xs) auto
  then show ?thesis using assms by (auto simp: overwrite_def min_def ac_simps)
qed (use assms in \<open>simp add: overwrite_def\<close>)

lemma overwrite_Nil [simp]: "i \<le> length zs \<Longrightarrow> overwrite zs i [] = zs"
  by (simp add: overwrite_def)

section \<open>Writing data blocks\<close>

lemma write_data:
  assumes inv: "fs_inv sfs I" and i: "ino \<in> I" and n: "n < 143"
    and b: "ptr sfs ino (slot_of n) = b" "b \<noteq> 0" "length data = 512"
  shows "fs_inv (wsec b data sfs) I" "j \<in> I \<Longrightarrow> inode (wsec b data sfs) j = inode sfs j"
    "j \<in> I \<Longrightarrow> m < 143 \<Longrightarrow> file_block (wsec b data sfs) j m = (if j = ino \<and> m = n then data else file_block sfs j m)"
proof -
  let ?s = "wsec b data sfs"
  note o = fs_invD(3) [OF inv]
  note k = slot_of_less(1) [OF n] slot_of_less(2) [of n]
  have bI: "b \<notin> I" using ownsD(9) [OF o i k(1)] b by simp
  have secI: "secs ?s j = secs sfs j" if "j \<in> I" for j using that bI by auto
  have ld: "loaded ?s j = loaded sfs j" for j by (simp add: loaded_def)
  have nd: "inode ?s j = inode sfs j" if "j \<in> I" for j using secI [OF that] by (simp add: inode_def ld split: option.splits)
  have "sfi_indirect (inode sfs j) \<noteq> b" if "j \<in> I" for j
    using ownsD(10) [OF o i that k(1), of 15] b k(2) by (auto simp: ptr_15)
  then have P: "ptr ?s j k = ptr sfs j k" if "j \<in> I" for j k
    unfolding ptr_def nd [OF that] by (intro inode_ptr_cong) (use that in auto)
  have "vnodes_ok ?s I" using fs_invD(2) [OF inv] secI unfolding vnodes_ok_def by fastforce
  moreover have "owns (ptr ?s) (used ?s) (reserved ?s) (nblocks ?s) I"
    using owns_cong [OF o P] by (simp add: reserved_def)
  ultimately show "fs_inv ?s I" using fs_invD(1) [OF inv] b(3) by (simp add: fs_inv_def own_ok_def)
  assume j: "j \<in> I"
  show "inode ?s j = inode sfs j" by (rule nd [OF j])
  assume m: "m < 143"
  show "file_block ?s j m = (if j = ino \<and> m = n then data else file_block sfs j m)"
  proof (cases "ptr sfs j (slot_of m) = b")
    case True
    then have "ino = j \<and> slot_of n = slot_of m" using ownsD(10) [OF o i j k(1) slot_of_less(1) [OF m]] b by simp
    then have "j = ino \<and> m = n" by (auto simp: slot_of_def split: if_splits)
    then show ?thesis using True b(2) P [OF j] by (simp add: file_block_def)
  next
    case False
    then have "\<not> (j = ino \<and> m = n)" using b(1) by auto
    then show ?thesis using False P [OF j] by (auto simp: file_block_def Let_def)
  qed
qed

definition same_attrs :: "sfs_fs \<Rightarrow> sfs_fs \<Rightarrow> u32 set \<Rightarrow> bool" where
  "same_attrs sfs sfs' I \<longleftrightarrow> (\<forall>j \<in> I. sfi_size (inode sfs' j) = sfi_size (inode sfs j) \<and>
     sfi_type (inode sfs' j) = sfi_type (inode sfs j) \<and> sfi_linkcount (inode sfs' j) = sfi_linkcount (inode sfs j))"

text \<open>The bytes \<open>ds\<close> have been written at position \<open>p\<close> of the file, and nothing else.\<close>

definition wrote :: "sfs_fs \<Rightarrow> sfs_fs \<Rightarrow> u32 set \<Rightarrow> nat \<Rightarrow> u32 \<Rightarrow> nat \<Rightarrow> byte list \<Rightarrow> bool" where
  "wrote sfs sfs' I v ino p ds \<longleftrightarrow> fs_inv sfs' I \<and> only_vnode sfs sfs' v \<and> same_attrs sfs sfs' I \<and>
     contents sfs' ino = overwrite (contents sfs ino) p ds \<and> (\<forall>j \<in> I. j \<noteq> ino \<longrightarrow> contents sfs' j = contents sfs j)"

lemma same_files_contents: "same_files sfs sfs' I \<Longrightarrow> j \<in> I \<Longrightarrow> contents sfs' j = contents sfs j"
  using same_filesD(1) by (intro contents_cong) blast

lemma same_files_attrs: "same_files sfs sfs' I \<Longrightarrow> same_attrs sfs sfs' I"
  by (simp add: same_files_def same_attrs_def)

lemma kept_wrote:
  assumes "kept sfs sfs' I v" "vol_ok sfs" "ino \<in> I" "p \<le> MAXFILE"
  shows "wrote sfs sfs' I v ino p []"
  using assms same_files_contents same_files_attrs length_contents
  by (auto simp: wrote_def kept_def)

lemma wrote_trans:
  assumes "wrote a b I v ino p xs" "wrote b c I v ino (p + length xs) ys" "vol_ok a" "p + length xs + length ys \<le> MAXFILE"
  shows "wrote a c I v ino p (xs @ ys)"
proof -
  have "overwrite (overwrite (contents a ino) p xs) (p + length xs) ys = overwrite (contents a ino) p (xs @ ys)"
    using assms(3,4) by (intro overwrite_append) (simp add: length_contents)
  moreover have "same_attrs a c I" using assms(1,2) by (simp add: wrote_def same_attrs_def)
  ultimately show ?thesis using assms(1,2) only_vnode_trans [of a b v c] by (simp add: wrote_def)
qed

lemma wrote_inv: "wrote sfs sfs' I v ino p ds \<Longrightarrow> fs_inv sfs' I" "wrote sfs sfs' I v ino p ds \<Longrightarrow> only_vnode sfs sfs' v"
  by (simp_all add: wrote_def)

lemma wrote_step:
  assumes inv: "fs_inv sfs I" and i: "ino \<in> I" and k: "kept sfs s1 I v" and n: "n < 143" "skip + length bs \<le> 512"
    and b: "ptr s1 ino (slot_of n) \<noteq> 0"
  shows "wrote sfs (wsec (ptr s1 ino (slot_of n)) (overwrite (file_block s1 ino n) skip bs) s1) I v ino (n * 512 + skip) bs"
proof -
  let ?b = "ptr s1 ino (slot_of n)" and ?d = "overwrite (file_block s1 ino n) skip bs"
  have inv1: "fs_inv s1 I" and sf: "same_files sfs s1 I" and ov: "only_vnode sfs s1 v" using k by (simp_all add: kept_def)
  have len: "length ?d = 512" using n(2) length_file_block [OF fs_invD(1) [OF inv1]] by simp
  note w = write_data [OF inv1 i n(1) refl b len]
  have "contents (wsec ?b ?d s1) ino = overwrite (contents s1 ino) (n * 512 + skip) bs"
    using w(3) [OF i] by (intro overwrite_contents fs_invD(1) [OF inv1] fs_invD(1) [OF w(1)] n) auto
  moreover have "contents (wsec ?b ?d s1) j = contents s1 j" if "j \<in> I" "j \<noteq> ino" for j
    using w(3) [OF that(1)] that(2) by (intro contents_cong) auto
  moreover have "same_attrs sfs (wsec ?b ?d s1) I" using same_files_attrs [OF sf] w(2) by (simp add: same_attrs_def)
  moreover have "only_vnode sfs (wsec ?b ?d s1) v" using ov by (simp add: only_vnode_def)
  ultimately show ?thesis using w(1) same_files_contents [OF sf] i by (simp add: wrote_def)
qed

section \<open>One block\<close>

lemma block_number: "x_offset u = int p \<Longrightarrow> word_of_int (x_offset u div int SFS_BLOCKSIZE) = (of_nat (p div 512) :: u32)"
proof -
  assume "x_offset u = int p"
  then have "x_offset u div int SFS_BLOCKSIZE = int (p div 512)" by (simp add: SFS_BLOCKSIZE_def zdiv_int)
  then show ?thesis by simp
qed

lemma partial_write:
  assumes inv: "fs_inv sfs I" and l: "biglock sfs > 0" and a: "at_vnode sfs v s"
    and u: "x_rw u = UIO_WRITE" "x_offset u = int p" "room len u" and p: "p < MAXFILE" "p mod 512 + len \<le> 512"
  obtains (full) sfs' where "kept sfs sfs' I v" "sfs_partialio v u (p mod 512) len sfs = Inr (ENOSPC, u, sfs')" "full sfs'"
  | (ok) sfs' where "wrote sfs sfs' I v (sv_ino s) p (take len (drop (x_pos u) (x_mem u)))"
      "sfs_partialio v u (p mod 512) len sfs = Inr (0, moved len u, sfs')"
proof -
  let ?n = "p div 512" and ?i = "sv_ino s" and ?ds = "take len (drop (x_pos u) (x_mem u))"
  have n: "?n < 143" using p(1) by (simp add: MAXFILE_def)
  have i: "?i \<in> I" using vnodes_okD(1) [OF fs_invD(2) [OF inv] a] .
  have lds: "length ?ds = len" using u(3) by (auto simp: room_def)
  have h: "vfs_biglock_do_i_hold sfs" using l by (simp add: vfs_biglock_do_i_hold_def)
  show ?thesis
  proof (rule bmap_alloc [OF inv l a n])
    fix s1 assume "kept sfs s1 I v" "sfs_bmap sfs v (of_nat ?n) True = Inr (ENOSPC, 0, s1)" "full s1"
    then show ?thesis using full [of s1] u p(2) h block_number [OF u(2)] by (simp add: sfs_partialio_def ENOSPC_def SFS_BLOCKSIZE_def)
  next
    fix s1
    let ?b = "ptr s1 ?i (slot_of ?n)"
    assume k: "kept sfs s1 I v" and b: "?b \<noteq> 0" and m: "sfs_bmap sfs v (of_nat ?n) True = Inr (0, ?b, s1)"
    have inv1: "fs_inv s1 I" and l1: "biglock s1 > 0" using k l by (simp_all add: kept_def only_vnode_def)
    have bn: "?b < nblocks s1" using ownsD(8) [OF fs_invD(3) [OF inv1] i slot_of_less(1) [OF n] b] .
    have fb: "secs s1 ?b = file_block s1 ?i ?n" using b by (simp add: file_block_def)
    have lfb: "length (file_block s1 ?i ?n) = 512" by (rule length_file_block [OF fs_invD(1) [OF inv1]])
    have r: "sfs_readblock s1 ?b zeros = Inr (0, file_block s1 ?i ?n, s1)"
      using readblock_ok [OF fs_invD(1) [OF inv1] l1 bn] fb by simp
    let ?s2 = "wsec ?b (overwrite (file_block s1 ?i ?n) (p mod 512) ?ds) s1"
    have "length (overwrite (file_block s1 ?i ?n) (p mod 512) ?ds) = 512" using lds lfb p(2) by simp
    then have w: "sfs_writeblock s1 ?b (overwrite (file_block s1 ?i ?n) (p mod 512) ?ds) = Inr (0, ?s2)"
      by (rule writeblock_ok [OF fs_invD(1) [OF inv1] l1 bn])
    have "length (take len (drop (p mod 512) (file_block s1 ?i ?n))) = len" using lfb p(2) by simp
    then have mv: "uiomove1 (take len (drop (p mod 512) (file_block s1 ?i ?n))) u = Inr (0, ?ds, moved len u)"
      using uiomove1_write [of "take len (drop (p mod 512) (file_block s1 ?i ?n))" u] u by simp
    have "sfs_partialio v u (p mod 512) len sfs = Inr (0, moved len u, ?s2)"
      using u p(2) h m b r mv w block_number [OF u(2)] by (simp add: sfs_partialio_def SFS_BLOCKSIZE_def moved_def)
    then show ?thesis using ok [of ?s2] wrote_step [OF inv i k n _ b, of "p mod 512" ?ds] lds p(2) by simp
  qed
qed

text \<open>A descriptor after bytes have been delivered to it.\<close>

definition filled :: "byte list \<Rightarrow> uio1 \<Rightarrow> uio1" where
  "filled bs u = (moved (length bs) u)\<lparr>x_mem := overwrite (x_mem u) (x_pos u) bs\<rparr>"

lemma moved_simps [simp]: "x_rw (moved n u) = x_rw u" "x_offset (moved n u) = x_offset u + int n"
    "x_resid (moved n u) = x_resid u - of_nat n" "x_pos (moved n u) = x_pos u + n" "x_mem (moved n u) = x_mem u"
  by (simp_all add: moved_def)

lemma uiomove1_filled: "room (length bs) u \<Longrightarrow> x_rw u = UIO_READ \<Longrightarrow> uiomove1 bs u = Inr (0, bs, filled bs u)"
  by (simp add: filled_def uiomove1_read)

lemma room_mono: "room n u \<Longrightarrow> m \<le> n \<Longrightarrow> room m u"
  by (auto simp: room_def)

lemma filled_append:
  assumes "room (length xs + length ys) u"
  shows "filled ys (filled xs u) = filled (xs @ ys) u"
proof -
  have "overwrite (overwrite (x_mem u) (x_pos u) xs) (x_pos u + length xs) ys = overwrite (x_mem u) (x_pos u) (xs @ ys)"
    using assms by (intro overwrite_append) (auto simp: room_def)
  then show ?thesis by (cases u) (simp add: filled_def moved_def algebra_simps)
qed

lemma room_filled:
  assumes "room (length xs + n) u"
  shows "room n (filled xs u)"
proof -
  have "length (overwrite (x_mem u) (x_pos u) xs) = length (x_mem u)" using assms by (auto simp: room_def)
  then show ?thesis using room_moved [OF assms] by (simp add: filled_def room_def)
qed

lemma filled_simps [simp]: "x_rw (filled bs u) = x_rw u" "x_offset (filled bs u) = x_offset u + int (length bs)"
    "x_resid (filled bs u) = x_resid u - of_nat (length bs)" "x_pos (filled bs u) = x_pos u + length bs"
  by (simp_all add: filled_def moved_def)

lemma moved_moved: "moved m (moved n u) = moved (n + m) u"
  by (cases u) (simp add: moved_def algebra_simps)

lemma uiomovezeros1_ok: "room n u \<Longrightarrow> x_rw u = UIO_READ \<Longrightarrow> uiomovezeros1 n u = Inr (0, filled (replicate n 0) u)"
proof (induction n u rule: uiomovezeros1.induct)
  case (1 n u)
  show ?case
  proof (cases "n = 0")
    case True
    then have "filled [] u = u" using 1(2) by (cases u) (simp add: filled_def moved_def room_def)
    then show ?thesis using True 1(3) by (subst uiomovezeros1.simps) simp
  next
    case False
    let ?a = "min 16 n"
    have n: "replicate ?a 0 @ replicate (n - ?a) 0 = (replicate n 0 :: byte list)" by (simp flip: replicate_add)
    have mv: "uiomove1 (replicate ?a 0) u = Inr (0, replicate ?a 0, filled (replicate ?a 0) u)"
      using 1(2,3) by (intro uiomove1_filled) (auto intro: room_mono)
    have rm: "room (n - ?a) (filled (replicate ?a 0) u)" using 1(2) by (intro room_filled) (auto simp: min_def intro: room_mono)
    have "uiomovezeros1 (n - ?a) (filled (replicate ?a 0) u) = Inr (0, filled (replicate (n - ?a) 0) (filled (replicate ?a 0) u))"
      using 1(1) [OF _ False refl mv refl refl] rm 1(3) by simp
    also have "filled (replicate (n - ?a) 0) (filled (replicate ?a 0) u) = filled (replicate n 0) u"
      using filled_append [of "replicate ?a 0" "replicate (n - ?a) 0" u] n 1(2) by simp
    finally show ?thesis using False 1(3) mv by (subst uiomovezeros1.simps) simp
  qed
qed

lemma partial_read:
  assumes inv: "fs_inv sfs I" and l: "biglock sfs > 0" and a: "at_vnode sfs v s"
    and u: "x_rw u = UIO_READ" "x_offset u = int p" "room len u" and p: "p < MAXFILE" "p mod 512 + len \<le> 512"
  shows "sfs_partialio v u (p mod 512) len sfs = Inr (0, filled (take len (drop p (contents sfs (sv_ino s)))) u, sfs)"
proof -
  let ?n = "p div 512" and ?i = "sv_ino s" and ?b = "ptr sfs (sv_ino s) (slot_of (p div 512))"
  have n: "?n < 143" using p(1) by (simp add: MAXFILE_def)
  have i: "?i \<in> I" using vnodes_okD(1) [OF fs_invD(2) [OF inv] a] .
  have h: "vfs_biglock_do_i_hold sfs" using l by (simp add: vfs_biglock_do_i_hold_def)
  let ?part = "take len (drop (p mod 512) (file_block sfs ?i ?n))"
  have e: "?part = take len (drop p (contents sfs ?i))"
    using slice_contents [OF fs_invD(1) [OF inv] n p(2), of ?i] by simp
  have r: "(if ?b = 0 then Inr (0, zeros, sfs) else sfs_readblock sfs ?b zeros) = Inr (0, file_block sfs ?i ?n, sfs)"
    using readblock_ok [OF fs_invD(1) [OF inv] l ownsD(8) [OF fs_invD(3) [OF inv] i slot_of_less(1) [OF n]]]
    by (simp add: file_block_def)
  have "length ?part = len" using length_file_block [OF fs_invD(1) [OF inv]] p(2) by simp
  then have "uiomove1 ?part u = Inr (0, ?part, filled ?part u)" using u by (intro uiomove1_filled) simp_all
  then show ?thesis using bmap_lookup [OF inv l a n] r u h block_number [OF u(2)] p(2) e
    by (simp add: sfs_partialio_def SFS_BLOCKSIZE_def)
qed

text \<open>Whole blocks go directly between the device and the descriptor, whose position and residue are
  replaced for the time of the request.\<close>

lemma disk_offset:
  assumes "vol_ok sfs" "b < nblocks sfs"
  shows "int (unat (b * of_nat SFS_BLOCKSIZE)) = 512 * int (unat b)"
proof -
  have "unat b * 512 < 2 ^ 32" using assms by (auto simp: vol_ok_def word_less_nat_alt)
  then show ?thesis by (simp add: SFS_BLOCKSIZE_def unat_word_ariths)
qed

definition redirected :: "u32 \<Rightarrow> uio1 \<Rightarrow> uio1" where
  "redirected b u = u\<lparr>x_offset := int (unat (b * of_nat SFS_BLOCKSIZE)), x_resid := of_nat SFS_BLOCKSIZE\<rparr>"

lemma redirected_ok:
  assumes "vol_ok sfs" "b < nblocks sfs" "room 512 u"
  shows "for_sector b (redirected b u) (sfs_device sfs)" "room 512 (redirected b u)" "x_mem (redirected b u) = x_mem u"
    "x_pos (redirected b u) = x_pos u" "x_rw (redirected b u) = x_rw u"
  using assms disk_offset [OF assms(1,2)]
  by (auto simp: for_sector_def redirected_def room_def SFS_BLOCKSIZE_def vol_ok_def)

lemma blockio_eq:
  assumes "sfs_bmap sfs v (word_of_int (x_offset u div int SFS_BLOCKSIZE)) (x_rw u = UIO_WRITE) = Inr (0, b, s1)" "b \<noteq> 0"
    "vol_ok s1" "b < nblocks s1" "room 512 u" "biglock s1 > 0"
    and io: "lhd_io (redirected b u) (sfs_device s1) = Inr (0, u1, d)" "x_offset u1 = x_offset (redirected b u) + 512" "x_resid u1 = 0"
  shows "sfs_blockio v u sfs = Inr (0, u1\<lparr>x_offset := x_offset u + 512, x_resid := x_resid u - 512\<rparr>, s1\<lparr>sfs_device := d\<rparr>)"
proof -
  have "unat (x_resid u) \<ge> SFS_BLOCKSIZE" using assms(5) by (simp add: room_def SFS_BLOCKSIZE_def)
  moreover have "sfs_rwblock (redirected b u) s1 = Inr (0, u1, s1\<lparr>sfs_device := d\<rparr>)" by (rule rwblock_one [OF io(1) assms(6)])
  ultimately show ?thesis using assms(1,2) io(2,3)
    by (simp add: sfs_blockio_def redirected_def SFS_BLOCKSIZE_def Let_def)
qed

lemma block_write:
  assumes inv: "fs_inv sfs I" and l: "biglock sfs > 0" and a: "at_vnode sfs v s"
    and u: "x_rw u = UIO_WRITE" "x_offset u = int p" "room 512 u" and p: "p < MAXFILE" "p mod 512 = 0"
  obtains (full) sfs' where "kept sfs sfs' I v" "sfs_blockio v u sfs = Inr (ENOSPC, u, sfs')" "full sfs'"
  | (ok) sfs' where "wrote sfs sfs' I v (sv_ino s) p (take 512 (drop (x_pos u) (x_mem u)))"
      "sfs_blockio v u sfs = Inr (0, moved 512 u, sfs')"
proof -
  let ?n = "p div 512" and ?i = "sv_ino s" and ?ds = "take 512 (drop (x_pos u) (x_mem u))"
  have n: "?n < 143" using p(1) by (simp add: MAXFILE_def)
  have i: "?i \<in> I" using vnodes_okD(1) [OF fs_invD(2) [OF inv] a] .
  have lds: "length ?ds = 512" using u(3) by (auto simp: room_def)
  show ?thesis
  proof (rule bmap_alloc [OF inv l a n])
    fix s1 assume "kept sfs s1 I v" "sfs_bmap sfs v (of_nat ?n) True = Inr (ENOSPC, 0, s1)" "full s1"
    then show ?thesis using full [of s1] u block_number [OF u(2)] by (simp add: sfs_blockio_def ENOSPC_def)
  next
    fix s1
    let ?b = "ptr s1 ?i (slot_of ?n)"
    assume k: "kept sfs s1 I v" and b: "?b \<noteq> 0" and m: "sfs_bmap sfs v (of_nat ?n) True = Inr (0, ?b, s1)"
    have inv1: "fs_inv s1 I" and l1: "biglock s1 > 0" using k l by (simp_all add: kept_def only_vnode_def)
    note v1 = fs_invD(1) [OF inv1]
    have bn: "?b < nblocks s1" using ownsD(8) [OF fs_invD(3) [OF inv1] i slot_of_less(1) [OF n] b] .
    note rd = redirected_ok [OF v1 bn u(3)]
    have "statuses (sfs_device s1) = []" using v1 by (simp add: vol_ok_def)
    then have io: "lhd_io (redirected ?b u) (sfs_device s1) = Inr (0, moved 512 (redirected ?b u), (sfs_device s1)\<lparr>sectors := (secs s1)(?b := ?ds)\<rparr>)"
      using lhd_io_write [OF rd(1,2)] rd(3-5) u(1) by simp
    have "sfs_blockio v u sfs = Inr (0, moved 512 u, wsec ?b ?ds s1)"
      using blockio_eq [OF _ b v1 bn u(3) l1 io] m u block_number [OF u(2)]
      by (simp add: moved_def redirected_def SFS_BLOCKSIZE_def wsec_def)
    moreover have "overwrite (file_block s1 ?i ?n) 0 ?ds = ?ds" using lds length_file_block [OF v1] by (simp add: overwrite_all)
    moreover have "?n * 512 = p" using p(2) by (metis div_mult_mod_eq add_0_right)
    ultimately show ?thesis using ok [of "wsec ?b ?ds s1"] wrote_step [OF inv i k n _ b, of 0 ?ds] lds by simp
  qed
qed

lemma block_read:
  assumes inv: "fs_inv sfs I" and l: "biglock sfs > 0" and a: "at_vnode sfs v s"
    and u: "x_rw u = UIO_READ" "x_offset u = int p" "room 512 u" and p: "p < MAXFILE" "p mod 512 = 0"
  shows "sfs_blockio v u sfs = Inr (0, filled (take 512 (drop p (contents sfs (sv_ino s)))) u, sfs)"
proof -
  let ?n = "p div 512" and ?i = "sv_ino s" and ?b = "ptr sfs (sv_ino s) (slot_of (p div 512))"
  have n: "?n < 143" using p(1) by (simp add: MAXFILE_def)
  have i: "?i \<in> I" using vnodes_okD(1) [OF fs_invD(2) [OF inv] a] .
  note v1 = fs_invD(1) [OF inv]
  have "?n * 512 = p" using p(2) by (metis div_mult_mod_eq add_0_right)
  then have e: "take 512 (drop p (contents sfs ?i)) = file_block sfs ?i ?n"
    using slice_contents [OF v1 n, of 0 512 ?i] length_file_block [OF v1] by simp
  note bm = bmap_lookup [OF inv l a n]
  show ?thesis
  proof (cases "?b = 0")
    case True
    then have "file_block sfs ?i ?n = replicate 512 0" by (simp add: file_block_def zeros_def SFS_BLOCKSIZE_def)
    then show ?thesis using True e bm u block_number [OF u(2)] uiomovezeros1_ok [OF u(3,1)]
      by (simp add: sfs_blockio_def SFS_BLOCKSIZE_def)
  next
    case False
    have bn: "?b < nblocks sfs" using ownsD(8) [OF fs_invD(3) [OF inv] i slot_of_less(1) [OF n] False] .
    note rd = redirected_ok [OF v1 bn u(3)]
    have d: "statuses (sfs_device sfs) = []" "wf_disk (sfs_device sfs)" using v1 by (simp_all add: vol_ok_def)
    have fb: "file_block sfs ?i ?n = secs sfs ?b" using False by (simp add: file_block_def)
    have io: "lhd_io (redirected ?b u) (sfs_device sfs) =
        Inr (0, (moved 512 (redirected ?b u))\<lparr>x_mem := overwrite (x_mem u) (x_pos u) (secs sfs ?b)\<rparr>, sfs_device sfs)"
      using lhd_io_read [OF rd(1,2)] rd(3-5) u(1) d by simp
    have "sfs_blockio v u sfs = Inr (0, filled (secs sfs ?b) u, sfs)"
      using blockio_eq [OF _ False v1 bn u(3) l io] bm u block_number [OF u(2)] vol_ok_length [OF v1, of ?b]
      by (simp add: moved_def filled_def redirected_def SFS_BLOCKSIZE_def)
    then show ?thesis using e fb by simp
  qed
qed

section \<open>Whole requests\<close>

text \<open>A write of \<open>n\<close> bytes at \<open>p\<close> writes all of them, or a part until the volume is full.\<close>

definition write_outcome :: "sfs_fs \<Rightarrow> u32 set \<Rightarrow> nat \<Rightarrow> u32 \<Rightarrow> uio1 \<Rightarrow> nat \<Rightarrow> nat \<Rightarrow> (int \<times> uio1 \<times> sfs_fs) res \<Rightarrow> bool" where
  "write_outcome sfs I v ino u p n F \<longleftrightarrow> (\<exists>k r sfs'. F = Inr (r, moved k u, sfs') \<and> k \<le> n \<and>
     wrote sfs sfs' I v ino p (take k (drop (x_pos u) (x_mem u))) \<and> (r = 0 \<and> k = n \<or> r = ENOSPC \<and> full sfs'))"

lemma moved_none: "moved 0 u = u"
  by (simp add: moved_def)

lemma outcome_all: "wrote sfs sfs' I v ino p (take n (drop (x_pos u) (x_mem u))) \<Longrightarrow> write_outcome sfs I v ino u p n (Inr (0, moved n u, sfs'))"
  unfolding write_outcome_def by blast

lemma outcome_full:
  assumes "kept sfs sfs' I v" "full sfs'" "vol_ok sfs" "ino \<in> I" "p \<le> MAXFILE"
  shows "write_outcome sfs I v ino u p n (Inr (ENOSPC, u, sfs'))"
  unfolding write_outcome_def using kept_wrote [OF assms(1,3,4,5)] assms(2)
  by (intro exI [of _ 0] exI [of _ ENOSPC] exI [of _ sfs']) (simp add: moved_none)

lemma outcome_seq:
  assumes w: "wrote sfs s1 I v ino p (take n (drop (x_pos u) (x_mem u)))" and r: "room (n + m) u" "p + n + m \<le> MAXFILE" "vol_ok sfs"
    and o: "write_outcome s1 I v ino (moved n u) (p + n) m F"
  shows "write_outcome sfs I v ino u p (n + m) F"
proof -
  let ?d = "drop (x_pos u) (x_mem u)"
  obtain k e sfs' where k: "F = Inr (e, moved k (moved n u), sfs')" "k \<le> m"
    "wrote s1 sfs' I v ino (p + n) (take k (drop (x_pos u + n) (x_mem u)))" "e = 0 \<and> k = m \<or> e = ENOSPC \<and> full sfs'"
    using o unfolding write_outcome_def moved_simps by blast
  have l: "length (take n ?d) = n" using r(1) by (auto simp: room_def)
  have t: "take n ?d @ take k (drop (x_pos u + n) (x_mem u)) = take (n + k) ?d" unfolding take_add drop_drop by (simp add: add.commute)
  have "wrote sfs sfs' I v ino p (take n ?d @ take k (drop (x_pos u + n) (x_mem u)))"
    using w k(2,3) r(2,3) l by (intro wrote_trans [of sfs s1]) simp_all
  then show ?thesis unfolding write_outcome_def t using k(1,2,4)
    by (intro exI [of _ "n + k"] exI [of _ e] exI [of _ sfs']) (auto simp: moved_moved)
qed

lemma wrote_next:
  assumes "wrote sfs s1 I v ino p ds" "at_vnode sfs v s" "biglock sfs > 0"
  obtains t where "fs_inv s1 I" "biglock s1 > 0" "at_vnode s1 v t" "sv_ino t = sv_ino s"
proof -
  have "only_vnode sfs s1 v" using assms(1) by (rule wrote_inv)
  then show ?thesis using that wrote_inv(1) [OF assms(1)] only_vnode_at [OF _ assms(2)] assms(3)
    by (auto simp: only_vnode_def)
qed

lemma wrote_nothing:
  assumes "fs_inv sfs I" "at_vnode sfs v s" "p \<le> MAXFILE"
  shows "write_outcome sfs I v (sv_ino s) u p 0 (Inr (0, u, sfs))"
proof -
  have "wrote sfs sfs I v (sv_ino s) p []"
    using kept_wrote [OF kept_refl [OF assms(1,2)]] fs_invD(1,2) [OF assms(1)] vnodes_okD(1) [OF _ assms(2)] assms(3) by auto
  then show ?thesis using outcome_all [of sfs sfs I v "sv_ino s" p 0 u] by (simp add: moved_none)
qed

lemma blocks_write:
  "fs_inv sfs I \<Longrightarrow> biglock sfs > 0 \<Longrightarrow> at_vnode sfs v s \<Longrightarrow> x_rw u = UIO_WRITE \<Longrightarrow> x_offset u = int p \<Longrightarrow> room (n * 512) u \<Longrightarrow>
    p + n * 512 \<le> MAXFILE \<Longrightarrow> p mod 512 = 0 \<Longrightarrow> write_outcome sfs I v (sv_ino s) u p (n * 512) (blockio_loop n v u sfs)"
proof (induction n arbitrary: sfs s u p)
  case 0
  then show ?case using wrote_nothing [OF 0(1,3), of p u] by simp
next
  case (Suc n)
  have i: "sv_ino s \<in> I" and v1: "vol_ok sfs" using vnodes_okD(1) [OF _ Suc.prems(3)] fs_invD(1,2) [OF Suc.prems(1)] by auto
  have rm: "room 512 u" "p < MAXFILE" using Suc.prems(6,7) by (auto intro: room_mono)
  show ?case
  proof (rule block_write [OF Suc.prems(1-5) rm Suc.prems(8)])
    fix s1 assume "kept sfs s1 I v" "sfs_blockio v u sfs = Inr (ENOSPC, u, s1)" "full s1"
    then show ?thesis using outcome_full [of sfs s1 I v "sv_ino s" p u] i v1 rm(2) by (simp add: ENOSPC_def)
  next
    fix s1 assume w: "wrote sfs s1 I v (sv_ino s) p (take 512 (drop (x_pos u) (x_mem u)))" "sfs_blockio v u sfs = Inr (0, moved 512 u, s1)"
    obtain t where t: "fs_inv s1 I" "biglock s1 > 0" "at_vnode s1 v t" "sv_ino t = sv_ino s" using wrote_next [OF w(1) Suc.prems(3,2)] .
    have "write_outcome s1 I v (sv_ino t) (moved 512 u) (p + 512) (n * 512) (blockio_loop n v (moved 512 u) s1)"
      using Suc.IH [OF t(1-3), of "moved 512 u" "p + 512"] Suc.prems(4-8) room_moved [of 512 "n * 512" u] by simp
    then show ?thesis using outcome_seq [OF w(1), of "n * 512"] Suc.prems(6,7) v1 w(2) t(4) by (simp add: add.commute)
  qed
qed

lemma blocks_read:
  "fs_inv sfs I \<Longrightarrow> biglock sfs > 0 \<Longrightarrow> at_vnode sfs v s \<Longrightarrow> x_rw u = UIO_READ \<Longrightarrow> x_offset u = int p \<Longrightarrow> room (n * 512) u \<Longrightarrow>
    p + n * 512 \<le> MAXFILE \<Longrightarrow> p mod 512 = 0 \<Longrightarrow>
    blockio_loop n v u sfs = Inr (0, filled (take (n * 512) (drop p (contents sfs (sv_ino s)))) u, sfs)"
proof (induction n arbitrary: u p)
  case 0
  then show ?case by (cases u) (simp add: filled_def moved_def room_def)
next
  case (Suc n)
  let ?c = "contents sfs (sv_ino s)"
  let ?x = "take 512 (drop p ?c)" and ?y = "take (n * 512) (drop (p + 512) ?c)"
  have lc: "length ?c = MAXFILE" using length_contents fs_invD(1) [OF Suc.prems(1)] by blast
  have rm: "room 512 u" "p < MAXFILE" using Suc.prems(6,7) by (auto intro: room_mono)
  have lx: "length ?x = 512" "length ?y = n * 512" using Suc.prems(7) lc by simp_all
  have "blockio_loop n v (filled ?x u) sfs = Inr (0, filled ?y (filled ?x u), sfs)"
    using Suc.IH [OF Suc.prems(1-3), of "filled ?x u" "p + 512"] Suc.prems(4-8) room_filled [of ?x "n * 512" u] lx by simp
  moreover have "?x @ ?y = take (Suc n * 512) (drop p ?c)" unfolding mult_Suc take_add drop_drop by (simp add: add.commute)
  ultimately show ?case using block_read [OF Suc.prems(1-5) rm Suc.prems(8)] filled_append [of ?x ?y u] lx Suc.prems(6) by simp
qed

text \<open>The part of \<^verbatim>\<open>sfs_io\<close> after the leading partial block.\<close>

definition io_rest :: "nat \<Rightarrow> uio1 \<Rightarrow> sfs_fs \<Rightarrow> (int \<times> uio1 \<times> sfs_fs) res" where
  "io_rest v u sfs =
     (if x_resid u = 0 then Inr (0, u, sfs)
      else if x_offset u mod int SFS_BLOCKSIZE \<noteq> 0 then Inl Kassert
      else bindR (blockio_loop (unat (x_resid u) div SFS_BLOCKSIZE) v u sfs) (\<lambda>(result, u, sfs).
      if result \<noteq> 0 then Inr (result, u, sfs)
      else if \<not> unat (x_resid u) < SFS_BLOCKSIZE then Inl Kassert
      else if x_resid u > 0 then sfs_partialio v u 0 (unat (x_resid u)) sfs
      else Inr (0, u, sfs)))"

lemma io_body_eq:
  "sfs_io_body v u sfs =
     (let blkoff = nat (x_offset u mod int SFS_BLOCKSIZE) in
      bindR (if blkoff \<noteq> 0 then sfs_partialio v u blkoff (min (SFS_BLOCKSIZE - blkoff) (unat (x_resid u))) sfs
             else Inr (0, u, sfs)) (\<lambda>(result, u, sfs). if result \<noteq> 0 then Inr (result, u, sfs) else io_rest v u sfs))"
  unfolding sfs_io_body_def io_rest_def Let_def by (rule refl)

lemma resid_moved: "n \<le> unat (x_resid u) \<Longrightarrow> unat (x_resid (moved n u)) = unat (x_resid u) - n"
  by (simp add: unat_minus_nat)

lemma word_eq_0_unat: "w = 0 \<longleftrightarrow> unat w = 0" for w :: u32
  by (simp add: unat_eq_zero)

text \<open>A partial block at the end.\<close>

lemma part_write:
  assumes inv: "fs_inv sfs I" and l: "biglock sfs > 0" and a: "at_vnode sfs v s"
    and u: "x_rw u = UIO_WRITE" "x_offset u = int p" "room len u" and p: "p < MAXFILE" "p mod 512 + len \<le> 512"
  shows "write_outcome sfs I v (sv_ino s) u p len (sfs_partialio v u (p mod 512) len sfs)"
proof (rule partial_write [OF inv l a u p])
  have i: "sv_ino s \<in> I" and v1: "vol_ok sfs" using vnodes_okD(1) [OF _ a] fs_invD(1,2) [OF inv] by auto
  fix s1 assume "kept sfs s1 I v" "sfs_partialio v u (p mod 512) len sfs = Inr (ENOSPC, u, s1)" "full s1"
  then show ?thesis using outcome_full [of sfs s1 I v "sv_ino s" p u] i v1 p(1) by simp
qed (simp add: outcome_all)

lemma tail_write:
  assumes inv: "fs_inv sfs I" and l: "biglock sfs > 0" and a: "at_vnode sfs v s"
    and u: "x_rw u = UIO_WRITE" "x_offset u = int p" "room r u" "unat (x_resid u) = r"
    and p: "p + r \<le> MAXFILE" "p mod 512 = 0" "r < 512"
  shows "write_outcome sfs I v (sv_ino s) u p r (if x_resid u > 0 then sfs_partialio v u 0 r sfs else Inr (0, u, sfs))"
proof (cases "r = 0")
  case True
  then have "x_resid u = 0" using u(4) by (simp add: unat_eq_zero)
  then show ?thesis using wrote_nothing [OF inv a, of p u] p(1) True by simp
next
  case False
  then have "x_resid u > 0" using u(4) by (simp add: word_gt_0 unat_eq_zero [symmetric])
  then show ?thesis using part_write [OF inv l a u(1-3)] p False by simp
qed

lemma rest_write:
  assumes inv: "fs_inv sfs I" and l: "biglock sfs > 0" and a: "at_vnode sfs v s"
    and u: "x_rw u = UIO_WRITE" "x_offset u = int p" "room n u" "n = unat (x_resid u)" and p: "p + n \<le> MAXFILE" "n \<noteq> 0 \<Longrightarrow> p mod 512 = 0"
  shows "write_outcome sfs I v (sv_ino s) u p n (io_rest v u sfs)"
proof (cases "n = 0")
  case True
  then show ?thesis using wrote_nothing [OF inv a, of p u] u(4) p(1) by (simp add: io_rest_def word_eq_0_unat)
next
  case False
  let ?q = "n div 512" and ?r = "n mod 512"
  have i: "sv_ino s \<in> I" and v1: "vol_ok sfs" using vnodes_okD(1) [OF _ a] fs_invD(1,2) [OF inv] by auto
  have n: "n = ?q * 512 + ?r" "?r < 512" by simp_all
  have al: "p mod 512 = 0" using p(2) False by simp
  have "int p mod 512 = 0" using al by (metis int_ops(1) of_nat_numeral zmod_int)
  then have eq: "io_rest v u sfs = bindR (blockio_loop ?q v u sfs) (\<lambda>(result, u, sfs).
      if result \<noteq> 0 then Inr (result, u, sfs)
      else if \<not> unat (x_resid u) < 512 then Inl Kassert
      else if x_resid u > 0 then sfs_partialio v u 0 (unat (x_resid u)) sfs else Inr (0, u, sfs))"
    using False u(2,4) unfolding io_rest_def SFS_BLOCKSIZE_def by (simp add: word_eq_0_unat)
  have "write_outcome sfs I v (sv_ino s) u p (?q * 512) (blockio_loop ?q v u sfs)"
    using u(3) p(1) by (intro blocks_write [OF inv l a u(1,2)] al) (auto intro: room_mono)
  then obtain k e s1 where k: "blockio_loop ?q v u sfs = Inr (e, moved k u, s1)" "k \<le> ?q * 512"
    "wrote sfs s1 I v (sv_ino s) p (take k (drop (x_pos u) (x_mem u)))" "e = 0 \<and> k = ?q * 512 \<or> e = ENOSPC \<and> full s1"
    unfolding write_outcome_def by blast
  show ?thesis
  proof (cases "e = 0")
    case False
    then have "io_rest v u sfs = Inr (e, moved k u, s1)" using k(1) eq by simp
    then show ?thesis using k False n unfolding write_outcome_def
      by (intro exI [of _ k] exI [of _ e] exI [of _ s1]) auto
  next
    case True
    then have kq: "k = ?q * 512" using k(4) by (auto simp: ENOSPC_def)
    have rs: "unat (x_resid (moved k u)) = ?r" using resid_moved [of k u] u(4) kq by (simp add: minus_div_mult_eq_mod)
    obtain t where t: "fs_inv s1 I" "biglock s1 > 0" "at_vnode s1 v t" "sv_ino t = sv_ino s" using wrote_next [OF k(3) a l] .
    have rm: "room (k + ?r) u" "p + k + ?r \<le> MAXFILE" using u(3) p(1) kq by simp_all
    have m: "(p + k) mod 512 = 0" using al kq by simp
    have "write_outcome s1 I v (sv_ino t) (moved k u) (p + k) ?r
       (if x_resid (moved k u) > 0 then sfs_partialio v (moved k u) 0 ?r s1 else Inr (0, moved k u, s1))"
      using u(1,2) room_moved [OF rm(1)] rm(2) m rs n(2) by (intro tail_write [OF t(1-3)]) simp_all
    then have "write_outcome sfs I v (sv_ino s) u p (k + ?r)
       (if x_resid (moved k u) > 0 then sfs_partialio v (moved k u) 0 ?r s1 else Inr (0, moved k u, s1))"
      using outcome_seq [OF k(3) rm v1] t(4) by simp
    moreover have "io_rest v u sfs = (if x_resid (moved k u) > 0 then sfs_partialio v (moved k u) 0 ?r s1 else Inr (0, moved k u, s1))"
      unfolding eq k(1) using True rs n(2) by simp
    ultimately show ?thesis using n(1) kq by simp
  qed
qed

lemma rest_read:
  assumes inv: "fs_inv sfs I" and l: "biglock sfs > 0" and a: "at_vnode sfs v s"
    and u: "x_rw u = UIO_READ" "x_offset u = int p" "room n u" "n = unat (x_resid u)" and p: "p + n \<le> MAXFILE" "n \<noteq> 0 \<Longrightarrow> p mod 512 = 0"
  shows "io_rest v u sfs = Inr (0, filled (take n (drop p (contents sfs (sv_ino s)))) u, sfs)"
proof (cases "n = 0")
  case True
  then have "filled [] u = u" using u(3) by (cases u) (simp add: filled_def moved_def room_def)
  then show ?thesis using True u(4) by (simp add: io_rest_def word_eq_0_unat)
next
  case False
  define q r where qr: "q = n div 512" "r = n mod 512"
  let ?q = q and ?r = r and ?c = "contents sfs (sv_ino s)"
  let ?x = "take (?q * 512) (drop p ?c)" and ?y = "take ?r (drop (p + ?q * 512) ?c)"
  have lc: "length ?c = MAXFILE" using length_contents fs_invD(1) [OF inv] by blast
  have n: "n = q * 512 + r" "r < 512" by (simp_all add: qr)
  then have rm: "room (q * 512 + r) u" "room (q * 512) u" using u(3) by (auto intro: room_mono)
  have lx: "length ?x = ?q * 512" "length ?y = ?r" using p(1) lc n(1) by simp_all
  have al: "p mod 512 = 0" using p(2) False by simp
  have i0: "int p mod 512 = 0" using al by (metis int_ops(1) of_nat_numeral zmod_int)
  have bl: "blockio_loop ?q v u sfs = Inr (0, filled ?x u, sfs)"
    using u(3) p(1) n(1) by (intro blocks_read [OF inv l a u(1,2)] al) (auto intro: room_mono)
  have rs: "unat (x_resid (filled ?x u)) = ?r" using unat_minus_nat [of "?q * 512" "x_resid u"] u(4) lx(1) n(1) by simp
  have xy: "filled ?y (filled ?x u) = filled (take n (drop p ?c)) u"
  proof -
    have "?x @ ?y = take n (drop p ?c)" unfolding n(1) take_add drop_drop by (simp add: add.commute)
    then show ?thesis using filled_append [of ?x ?y u] lx rm by simp
  qed
  have "(if x_resid (filled ?x u) > 0 then sfs_partialio v (filled ?x u) 0 ?r sfs else Inr (0, filled ?x u, sfs)) =
      Inr (0, filled ?y (filled ?x u), sfs)"
  proof (cases "?r = 0")
    case True
    then have "x_resid (filled ?x u) = 0" using rs by (simp only: unat_eq_zero)
    moreover have "filled [] (filled ?x u) = filled ?x u" using filled_append [of ?x "[]" u] rm(2) lx(1) by simp
    ultimately show ?thesis using True by simp
  next
    case False
    then have "x_resid (filled ?x u) > 0" using rs by (metis unat_0 word_gt_0)
    moreover have "room ?r (filled ?x u)" using room_filled [of ?x ?r u] rm(1) lx(1) by simp
    ultimately show ?thesis using partial_read [OF inv l a, of "filled ?x u" "p + ?q * 512" ?r] u(1,2) lx(1) p(1) n False al by simp
  qed
  moreover have "io_rest v u sfs = (if x_resid (filled ?x u) > 0 then sfs_partialio v (filled ?x u) 0 ?r sfs else Inr (0, filled ?x u, sfs))"
    using bl rs n(2) i0 False u(2,4) qr(1) unfolding io_rest_def SFS_BLOCKSIZE_def by (simp add: word_eq_0_unat del: filled_simps)
  ultimately show ?thesis using xy by simp
qed

end
