(* ===== verification/Sfs_Io.thy ===== *)
theory Sfs_Io
  imports Sfs_Files
begin

text \<open>
  Read and write requests of any position and length implement the operations on an abstract
  file, a size and a sequence of bytes.
\<close>

section \<open>Requests at any position\<close>

lemma offset_mod: "x_offset u = int p \<Longrightarrow> nat (x_offset u mod int SFS_BLOCKSIZE) = p mod 512"
  by (simp add: SFS_BLOCKSIZE_def nat_mod_distrib)

text \<open>The leading partial block ends at a block boundary, unless the request ends in it.\<close>

lemma first_part:
  fixes n :: nat
  assumes "p mod 512 \<noteq> 0" "len = min (512 - p mod 512) n"
  shows "p mod 512 + len \<le> 512" "n - len \<noteq> 0 \<Longrightarrow> (p + len) mod 512 = 0"
proof -
  have l: "p mod 512 < 512" by simp
  show "p mod 512 + len \<le> 512" using assms(2) l by linarith
  assume "n - len \<noteq> 0"
  then have "p mod 512 + len = 512" using assms(2) l by linarith
  then have "(p mod 512 + len) mod 512 = 0" by simp
  then show "(p + len) mod 512 = 0" by (simp add: mod_add_left_eq)
qed

lemma body_first:
  assumes "p mod 512 \<noteq> 0" "x_offset u = int p"
  shows "sfs_io_body v u sfs = bindR (sfs_partialio v u (p mod 512) (min (512 - p mod 512) (unat (x_resid u))) sfs)
      (\<lambda>(result, u, sfs). if result \<noteq> 0 then Inr (result, u, sfs) else io_rest v u sfs)"
  using assms(1) unfolding io_body_eq offset_mod [OF assms(2)] by (simp add: SFS_BLOCKSIZE_def Let_def)

lemma body_write:
  assumes inv: "fs_inv sfs I" and l: "biglock sfs > 0" and a: "at_vnode sfs v s"
    and u: "x_rw u = UIO_WRITE" "x_offset u = int p" "room n u" "n = unat (x_resid u)" and p: "p + n \<le> MAXFILE" "0 < n"
  shows "write_outcome sfs I v (sv_ino s) u p n (sfs_io_body v u sfs)"
proof (cases "p mod 512 = 0")
  case True
  then show ?thesis using rest_write [OF inv l a u p(1)] by (simp add: io_body_eq offset_mod [OF u(2)])
next
  case False
  let ?l = "min (512 - p mod 512) n"
  note fp = first_part [OF False refl, of n]
  have v1: "vol_ok sfs" using fs_invD(1) [OF inv] .
  have eq: "sfs_io_body v u sfs = bindR (sfs_partialio v u (p mod 512) ?l sfs)
      (\<lambda>(result, u, sfs). if result \<noteq> 0 then Inr (result, u, sfs) else io_rest v u sfs)"
    using body_first [OF False u(2)] u(4) by simp
  have "write_outcome sfs I v (sv_ino s) u p ?l (sfs_partialio v u (p mod 512) ?l sfs)"
    using u(3) p by (intro part_write [OF inv l a u(1,2) _ _ fp(1)]) (auto intro: room_mono)
  then obtain k e s1 where k: "sfs_partialio v u (p mod 512) ?l sfs = Inr (e, moved k u, s1)" "k \<le> ?l"
    "wrote sfs s1 I v (sv_ino s) p (take k (drop (x_pos u) (x_mem u)))" "e = 0 \<and> k = ?l \<or> e = ENOSPC \<and> full s1"
    unfolding write_outcome_def by blast
  show ?thesis
  proof (cases "e = 0")
    case True
    then have kl: "k = ?l" using k(4) by (auto simp: ENOSPC_def)
    obtain t where t: "fs_inv s1 I" "biglock s1 > 0" "at_vnode s1 v t" "sv_ino t = sv_ino s" using wrote_next [OF k(3) a l] .
    have rm: "room (k + (n - k)) u" "p + k + (n - k) \<le> MAXFILE" using u(3) p(1) kl by simp_all
    have kn: "k \<le> n" "n - k \<noteq> 0 \<Longrightarrow> (p + k) mod 512 = 0" using fp(2) unfolding kl by simp_all
    have m: "x_rw (moved k u) = UIO_WRITE" "x_offset (moved k u) = int (p + k)" "n - k = unat (x_resid (moved k u))"
      "p + k + (n - k) \<le> MAXFILE" using u(1,2) resid_moved [of k u] u(4) kn(1) p(1) by simp_all
    have "write_outcome s1 I v (sv_ino t) (moved k u) (p + k) (n - k) (io_rest v (moved k u) s1)"
      by (rule rest_write [OF t(1-3) m(1,2) room_moved [OF rm(1)] m(3,4) kn(2)])
    then have "write_outcome sfs I v (sv_ino s) u p (k + (n - k)) (io_rest v (moved k u) s1)"
      using outcome_seq [OF k(3) rm v1] t(4) by simp
    moreover have "sfs_io_body v u sfs = io_rest v (moved k u) s1" unfolding eq k(1) using True by simp
    ultimately show ?thesis using kn(1) by simp
  next
    case False
    then have "sfs_io_body v u sfs = Inr (e, moved k u, s1)" unfolding eq k(1) by simp
    then show ?thesis using k False unfolding write_outcome_def by (intro exI [of _ k] exI [of _ e] exI [of _ s1]) auto
  qed
qed

lemma body_read:
  assumes inv: "fs_inv sfs I" and l: "biglock sfs > 0" and a: "at_vnode sfs v s"
    and u: "x_rw u = UIO_READ" "x_offset u = int p" "room n u" "n = unat (x_resid u)" and p: "p + n \<le> MAXFILE" "0 < n"
  shows "sfs_io_body v u sfs = Inr (0, filled (take n (drop p (contents sfs (sv_ino s)))) u, sfs)"
proof (cases "p mod 512 = 0")
  case True
  then show ?thesis using rest_read [OF inv l a u p(1)] by (simp add: io_body_eq offset_mod [OF u(2)])
next
  case False
  define k where "k = min (512 - p mod 512) n"
  let ?c = "contents sfs (sv_ino s)"
  let ?x = "take k (drop p ?c)" and ?y = "take (n - k) (drop (p + k) ?c)"
  note fp = first_part [OF False k_def]
  have kn: "k + (n - k) = n" by (simp add: k_def)
  have lc: "length ?c = MAXFILE" using length_contents fs_invD(1) [OF inv] by blast
  have lx: "length ?x = k" "length ?y = n - k" using p(1) lc kn by simp_all
  have rm: "room (k + (n - k)) u" "room k u" using u(3) kn by (auto intro: room_mono)
  have "p < MAXFILE" using p by simp
  then have pr: "sfs_partialio v u (p mod 512) k sfs = Inr (0, filled ?x u, sfs)"
    by (rule partial_read [OF inv l a u(1,2) rm(2) _ fp(1)])
  have "sfs_io_body v u sfs = io_rest v (filled ?x u) sfs"
    unfolding body_first [OF False u(2)] u(4) [symmetric] k_def [symmetric] pr by simp
  also have "\<dots> = Inr (0, filled ?y (filled ?x u), sfs)"
  proof (rule rest_read [OF inv l a _ _ _ _ _ fp(2)])
    show "room (n - k) (filled ?x u)" using room_filled [of ?x "n - k" u] rm lx by simp
    show "n - k = unat (x_resid (filled ?x u))" using unat_minus_nat [of k "x_resid u"] u(4) lx(1) kn by simp
    show "x_rw (filled ?x u) = UIO_READ" "x_offset (filled ?x u) = int (p + k)" "p + k + (n - k) \<le> MAXFILE"
      using u(1,2) lx(1) p(1) kn by simp_all
  qed
  also have "filled ?y (filled ?x u) = filled (?x @ ?y) u" using rm lx by (intro filled_append) simp
  also have "?x @ ?y = take n (drop p ?c)"
    using take_add [of k "n - k" "drop p ?c"] kn by (simp add: add.commute)
  finally show ?thesis .
qed

section \<open>The size of the file\<close>

lemma set_size:
  assumes inv: "fs_inv sfs I" and a: "at_vnode sfs v s" and sfs': "sfs' = set_inode v (\<lambda>di. di\<lparr>sfi_size := z\<rparr>) sfs"
  shows "fs_inv sfs' I" "only_vnode sfs sfs' v" "j \<in> I \<Longrightarrow> contents sfs' j = contents sfs j"
    "j \<in> I \<Longrightarrow> inode sfs' j = (if j = sv_ino s then (inode sfs j)\<lparr>sfi_size := z\<rparr> else inode sfs j)"
    "j \<in> I \<Longrightarrow> ptr sfs' j k = ptr sfs j k" "j \<in> I \<Longrightarrow> file_block sfs' j m = file_block sfs j m"
proof -
  have h: "sfs_heap sfs v = Some s" using a by (simp add: at_vnode_def)
  note n = set_inode_simps [OF h, of "\<lambda>di. di\<lparr>sfi_size := z\<rparr>", folded sfs']
  let ?t = "s\<lparr>sv_i := (sv_i s)\<lparr>sfi_size := z\<rparr>, sv_dirty := True\<rparr>"
  have w: "wf_dinode (sv_i s)" using vnodes_okD(2) [OF fs_invD(2) [OF inv] a] .
  have "sfs_heap sfs' = (sfs_heap sfs)(v \<mapsto> ?t)" "sfs_vnodes sfs' = sfs_vnodes sfs" "sv_ino ?t = sv_ino s"
    "wf_dinode (sv_i ?t)" "\<not> sv_dirty ?t \<Longrightarrow> dinode_of (secs sfs' (sv_ino s)) = sv_i ?t" using n w by (simp_all add: wf_dinode_def)
  moreover have "secs sfs' ino = secs sfs ino" for ino using n by simp
  ultimately have u: "vnodes_ok sfs' I" "\<And>j. j \<in> I \<Longrightarrow> inode sfs' j = (if j = sv_ino s then (sv_i s)\<lparr>sfi_size := z\<rparr> else inode sfs j)"
    using vnodes_upd(1,3) [OF fs_invD(2) [OF inv] a, of sfs' ?t] by simp_all
  show nd: "\<And>j. j \<in> I \<Longrightarrow> inode sfs' j = (if j = sv_ino s then (inode sfs j)\<lparr>sfi_size := z\<rparr> else inode sfs j)"
    using u(2) inode_at [OF fs_invD(2) [OF inv] a] by simp
  show P: "\<And>j k. j \<in> I \<Longrightarrow> ptr sfs' j k = ptr sfs j k" using nd n by (simp add: ptr_def inode_ptr_def)
  have "owns (ptr sfs') (used sfs') (reserved sfs') (nblocks sfs') I"
    using owns_cong [OF fs_invD(3) [OF inv] P] n by (simp add: reserved_def)
  moreover have "vol_ok sfs'" using fs_invD(1) [OF inv] vol_ok_cong [of sfs' sfs] n by simp
  ultimately show "fs_inv sfs' I" using u(1) by (simp add: fs_inv_def own_ok_def)
  show "only_vnode sfs sfs' v" using n h by (simp add: only_vnode_def)
  show fb: "\<And>j m. j \<in> I \<Longrightarrow> file_block sfs' j m = file_block sfs j m" using P n by (simp add: file_block_def Let_def)
  show "contents sfs' j = contents sfs j" if "j \<in> I" using fb [OF that] by (intro contents_cong) simp
qed

section \<open>sfs\_io\<close>

lemma resid_unchanged: "k \<le> unat r \<Longrightarrow> r - of_nat k = r \<longleftrightarrow> k = 0" for r :: u32
proof -
  assume k: "k \<le> unat r"
  then have "k < 2 ^ 32" using unsigned_less [of r, where ?'a = nat] by simp
  then have "(of_nat k :: u32) = 0 \<longleftrightarrow> k = 0" by (simp add: unat_of_nat flip: unat_eq_zero)
  then show ?thesis by simp
qed

lemma uint_less_nat: "uint w < int p + int k \<longleftrightarrow> unat w < p + k" "uint w \<le> int p \<longleftrightarrow> unat w \<le> p" for w :: u32
proof -
  have "int (unat w) = uint w" by simp
  then show "uint w < int p + int k \<longleftrightarrow> unat w < p + k" "uint w \<le> int p \<longleftrightarrow> unat w \<le> p" by linarith+
qed

text \<open>The state after a write: all bytes, or a part until the volume is full; the size grows with the
  last byte written.\<close>

definition file_written :: "sfs_fs \<Rightarrow> sfs_fs \<Rightarrow> u32 set \<Rightarrow> u32 \<Rightarrow> nat \<Rightarrow> byte list \<Rightarrow> bool" where
  "file_written sfs sfs' I ino p ds \<longleftrightarrow> fs_inv sfs' I \<and> contents sfs' ino = overwrite (contents sfs ino) p ds \<and>
     unat (sfi_size (inode sfs' ino)) =
       (if ds = [] then unat (sfi_size (inode sfs ino)) else max (unat (sfi_size (inode sfs ino))) (p + length ds)) \<and>
     sfi_type (inode sfs' ino) = sfi_type (inode sfs ino) \<and> sfi_linkcount (inode sfs' ino) = sfi_linkcount (inode sfs ino) \<and>
     (\<forall>j \<in> I. j \<noteq> ino \<longrightarrow> contents sfs' j = contents sfs j \<and> sfi_size (inode sfs' j) = sfi_size (inode sfs j) \<and>
        sfi_type (inode sfs' j) = sfi_type (inode sfs j) \<and> sfi_linkcount (inode sfs' j) = sfi_linkcount (inode sfs j))"

lemma io_write:
  assumes inv: "fs_inv sfs I" and l: "biglock sfs > 0" and a: "at_vnode sfs v s"
    and u: "x_rw u = UIO_WRITE" "x_offset u = int p" "room n u" "n = unat (x_resid u)" and p: "p + n \<le> MAXFILE" "0 < n"
  obtains k r sfs' where "sfs_io v u sfs = Inr (r, moved k u, sfs')" "k \<le> n" "r = 0 \<and> k = n \<or> r = ENOSPC \<and> full sfs'"
    "file_written sfs sfs' I (sv_ino s) p (take k (drop (x_pos u) (x_mem u)))" "only_vnode sfs sfs' v"
proof -
  let ?i = "sv_ino s" and ?d = "drop (x_pos u) (x_mem u)"
  obtain k r s1 where k: "sfs_io_body v u sfs = Inr (r, moved k u, s1)" "k \<le> n" "wrote sfs s1 I v ?i p (take k ?d)"
    "r = 0 \<and> k = n \<or> r = ENOSPC \<and> full s1" using body_write [OF inv l a u p] unfolding write_outcome_def by blast
  obtain t where t: "fs_inv s1 I" "biglock s1 > 0" "at_vnode s1 v t" "sv_ino t = ?i" using wrote_next [OF k(3) a l] .
  have i: "?i \<in> I" using vnodes_okD(1) [OF fs_invD(2) [OF inv] a] .
  have nt: "inode s1 ?i = sv_i t" using inode_at [OF fs_invD(2) [OF t(1)] t(3)] t(4) by simp
  have at: "same_attrs sfs s1 I" "only_vnode sfs s1 v" "contents s1 ?i = overwrite (contents sfs ?i) p (take k ?d)"
    "\<forall>j \<in> I. j \<noteq> ?i \<longrightarrow> contents s1 j = contents sfs j" using k(3) by (simp_all add: wrote_def)
  have sz: "sfi_size (sv_i t) = sfi_size (inode sfs ?i)" using bspec [OF at(1) [unfolded same_attrs_def] i] nt by simp
  have lk: "length (take k ?d) = k" using k(2) u(3) by (auto simp: room_def)
  have z32: "unat (word_of_int (int (p + k)) :: u32) = p + k" using unat_block [of "p + k"] p(1) k(2) by (simp add: MAXFILE_def)
  let ?grow = "x_resid (moved k u) \<noteq> x_resid u \<and> x_offset (moved k u) > int (unat (sfi_size (sv_i t)))"
  define sfs' where "sfs' = (if ?grow then set_inode v (\<lambda>di. di\<lparr>sfi_size := word_of_int (x_offset (moved k u))\<rparr>) s1 else s1)"
  have gr: "?grow \<longleftrightarrow> k \<noteq> 0 \<and> unat (sfi_size (inode sfs ?i)) < p + k" using resid_unchanged [of k "x_resid u"] k(2) u(2,4) sz uint_less_nat by auto
  have io: "sfs_io v u sfs = Inr (r, moved k u, sfs')"
    using k(1) u(1) by (simp add: sfs_io_def the_vnode_at [OF a] the_vnode_at [OF t(3)] sfs'_def Let_def)
  have ds: "take k ?d = [] \<longleftrightarrow> k = 0" using lk by auto
  have fw: "file_written sfs sfs' I ?i p (take k ?d)" and full: "full s1 \<Longrightarrow> full sfs'" and ov: "only_vnode s1 sfs' v"
  proof -
    show "full s1 \<Longrightarrow> full sfs'" using set_inode_simps(5) [of s1 v t] t(3) by (simp add: full_def sfs'_def at_vnode_def)
    show "only_vnode s1 sfs' v" using set_size(2) [OF t(1,3)] only_vnode_refl [of s1 v t] t(3) by (simp add: sfs'_def at_vnode_def)
    show "file_written sfs sfs' I ?i p (take k ?d)"
    proof (cases ?grow)
      case False
      then show ?thesis using t(1) at gr i ds lk by (auto simp: file_written_def sfs'_def same_attrs_def)
    next
      case True
      define z :: u32 where "z = word_of_int (x_offset (moved k u))"
      have z: "unat z = p + k" using z32 u(2) by (simp add: z_def)
      have e: "sfs' = set_inode v (\<lambda>di. di\<lparr>sfi_size := z\<rparr>) s1" using True by (simp add: sfs'_def z_def)
      note ss = set_size [OF t(1,3) e, unfolded t(4)]
      note sa = bspec [OF at(1) [unfolded same_attrs_def]]
      show ?thesis unfolding file_written_def
        using ss(1) ss(3,4) [OF i] at(3) sa [OF i] z gr True ds lk ss(3,4) at(4) sa by auto
    qed
  qed
  show ?thesis using that [OF io k(2) _ fw only_vnode_trans [OF at(2) ov]] k(4) full by blast
qed

lemma extra_resid:
  assumes "x = (if p + n > z then p + n - z else 0)"
  shows "(if int p + int n > int z then word_of_int (int p + int n - int z) else 0) = (of_nat x :: u32)"
proof (cases "p + n > z")
  case True
  then have "int p + int n - int z = int x" using assms by (simp add: of_nat_diff)
  then show ?thesis using True by simp
qed (use assms in simp)

lemma io_read:
  assumes inv: "fs_inv sfs I" and l: "biglock sfs > 0" and a: "at_vnode sfs v s"
    and u: "x_rw u = UIO_READ" "x_offset u = int p" "room n u" "n = unat (x_resid u)"
    and m: "m = min n (unat (sfi_size (inode sfs (sv_ino s))) - p)" and p: "p + m \<le> MAXFILE" "0 < n"
  shows "sfs_io v u sfs = Inr (0, filled (take m (drop p (contents sfs (sv_ino s)))) u, sfs)"
proof -
  let ?z = "unat (sfi_size (sv_i s))"
  have z: "sfi_size (inode sfs (sv_ino s)) = sfi_size (sv_i s)" using inode_at [OF fs_invD(2) [OF inv] a] by simp
  have lc: "length (contents sfs (sv_ino s)) = MAXFILE" using length_contents fs_invD(1) [OF inv] by blast
  have f0: "filled [] u = u" using u(3) by (cases u) (simp add: filled_def moved_def room_def)
  show ?thesis
  proof (cases "?z \<le> p")
    case True
    then show ?thesis using m z u(1,2) f0 by (simp add: sfs_io_def the_vnode_at [OF a] uint_less_nat Let_def)
  next
    case False
    define x where "x = n - m"
    have mn: "m \<le> n" "0 < m" "m + x = n" using m p(2) False z by (simp_all add: x_def)
    have x: "x = (if p + n > ?z then p + n - ?z else 0)" using m z False unfolding x_def by auto
    have xn: "x \<le> unat (x_resid u)" using mn(3) u(4) by simp
    let ?u = "u\<lparr>x_resid := x_resid u - of_nat x\<rparr>"
    have rs: "m = unat (x_resid ?u)" using unat_minus_nat [OF xn] u(4) mn(3) by simp
    have "room m ?u" using u(3) rs mn(1) unfolding room_def by (auto simp: u(4))
    then have body: "sfs_io_body v ?u sfs = Inr (0, filled (take m (drop p (contents sfs (sv_ino s)))) ?u, sfs)"
      using body_read [OF inv l a, of ?u p m] u(1,2) rs p(1) mn(2) by simp
    have ex: "(if x_rw u = UIO_READ \<and> x_offset u + int (unat (x_resid u)) > int ?z
        then word_of_int (x_offset u + int (unat (x_resid u)) - int ?z) else 0) = (of_nat x :: u32)"
      unfolding u(1,2) u(4) [symmetric] using extra_resid [OF x] by (simp only: simp_thms)
    have lt: "(of_nat x :: u32) \<noteq> 0 \<longrightarrow> x_resid u > of_nat x"
      using mn u(4) unsigned_less [of "x_resid u", where ?'a = nat] by (simp add: word_less_nat_alt unat_of_nat)
    have fl: "(filled ds ?u)\<lparr>x_resid := x_resid (filled ds ?u) + of_nat x\<rparr> = filled ds u" for ds
      by (cases u) (simp add: filled_def moved_def)
    show ?thesis unfolding sfs_io_def the_vnode_at [OF a] bindR_Inr Let_def ex
      using False u(1,2) lt body fl [of "take m (drop p (contents sfs (sv_ino s)))"] by (auto simp: the_vnode_at [OF a] uint_less_nat)
  qed
qed

section \<open>The big lock\<close>

lemma lock_indep [simp]:
  "fs_inv (sfs\<lparr>biglock := n\<rparr>) I = fs_inv sfs I" "at_vnode (sfs\<lparr>biglock := n\<rparr>) v s = at_vnode sfs v s"
  "inode (sfs\<lparr>biglock := n\<rparr>) = inode sfs" "contents (sfs\<lparr>biglock := n\<rparr>) = contents sfs" "full (sfs\<lparr>biglock := n\<rparr>) = full sfs"
  "ptr (sfs\<lparr>biglock := n\<rparr>) = ptr sfs" "file_block (sfs\<lparr>biglock := n\<rparr>) = file_block sfs"
proof -
  let ?s = "sfs\<lparr>biglock := n\<rparr>"
  show nd: "inode ?s = inode sfs" by (rule ext) (simp add: inode_def loaded_def split: option.split)
  show p: "ptr ?s = ptr sfs" by (intro ext) (simp add: ptr_def nd)
  show "file_block ?s = file_block sfs" by (intro ext) (simp add: file_block_def p Let_def)
  show "contents ?s = contents sfs" by (intro ext contents_cong) (simp add: file_block_def p Let_def)
  show "fs_inv ?s I = fs_inv sfs I" by (simp add: fs_inv_def vol_ok_def vnodes_ok_def own_ok_def p reserved_def)
qed (simp_all add: at_vnode_def full_def)

lemma unlocked_ok: "biglock sfs = Suc n \<Longrightarrow> unlocked r sfs = Inr (r, sfs\<lparr>biglock := n\<rparr>)"
  by (simp add: unlocked_def vfs_biglock_release_def)

section \<open>Abstract files\<close>

type_synonym afile = "nat \<times> byte list"

definition file_abs :: "sfs_fs \<Rightarrow> u32 \<Rightarrow> afile" where
  "file_abs sfs ino = (unat (sfi_size (inode sfs ino)), contents sfs ino)"

definition afile_write :: "nat \<Rightarrow> byte list \<Rightarrow> afile \<Rightarrow> afile" where
  "afile_write p ds f = (if ds = [] then f else (max (fst f) (p + length ds), overwrite (snd f) p ds))"

definition afile_read :: "nat \<Rightarrow> nat \<Rightarrow> afile \<Rightarrow> byte list" where
  "afile_read p n f = take (min n (fst f - p)) (drop p (snd f))"

text \<open>A request for all of its residue at position \<open>p\<close>.\<close>

definition request :: "uio_rw \<Rightarrow> nat \<Rightarrow> nat \<Rightarrow> uio1 \<Rightarrow> bool" where
  "request rw p n u \<longleftrightarrow> x_rw u = rw \<and> x_offset u = int p \<and> n = unat (x_resid u) \<and> room n u \<and> 0 < n"

lemma file_written_abs:
  assumes "file_written sfs sfs' I ino p ds" "vol_ok sfs" "p \<le> MAXFILE"
  shows "file_abs sfs' ino = afile_write p ds (file_abs sfs ino)" "j \<in> I \<Longrightarrow> j \<noteq> ino \<Longrightarrow> file_abs sfs' j = file_abs sfs j"
  using assms length_contents [OF assms(2), of ino] by (auto simp: file_written_def file_abs_def afile_write_def)

lemma sfs_write_ok:
  assumes inv: "fs_inv sfs I" and a: "at_vnode sfs v s" and u: "request UIO_WRITE p n u" "p + n \<le> MAXFILE"
  obtains k r sfs' where "sfs_write v u sfs = Inr ((r, moved k u), sfs')" "k \<le> n" "r = 0 \<and> k = n \<or> r = ENOSPC \<and> full sfs'"
    "fs_inv sfs' I" "file_abs sfs' (sv_ino s) = afile_write p (take k (drop (x_pos u) (x_mem u))) (file_abs sfs (sv_ino s))"
    "\<forall>j \<in> I. j \<noteq> sv_ino s \<longrightarrow> file_abs sfs' j = file_abs sfs j" "only_vnode sfs sfs' v"
proof -
  let ?s = "vfs_biglock_acquire sfs" and ?ds = "\<lambda>k. take k (drop (x_pos u) (x_mem u))"
  have q: "x_rw u = UIO_WRITE" "x_offset u = int p" "room n u" "n = unat (x_resid u)" "0 < n" using u(1) by (auto simp: request_def)
  have s: "fs_inv ?s I" "at_vnode ?s v s" "biglock ?s > 0" "inode ?s = inode sfs" "contents ?s = contents sfs"
    using inv a by (simp_all add: vfs_biglock_acquire_def)
  obtain k r s1 where k: "sfs_io v u ?s = Inr (r, moved k u, s1)" "k \<le> n" "r = 0 \<and> k = n \<or> r = ENOSPC \<and> full s1"
    "file_written ?s s1 I (sv_ino s) p (?ds k)" "only_vnode ?s s1 v"
    using io_write [OF s(1,3,2) q(1-4) u(2) q(5)] .
  have b: "biglock s1 = Suc (biglock sfs)" using k(5) by (simp add: only_vnode_def vfs_biglock_acquire_def)
  let ?s1 = "s1\<lparr>biglock := biglock sfs\<rparr>"
  have "sfs_write v u sfs = Inr ((r, moved k u), ?s1)" using k(1) q(1) unlocked_ok [OF b] by (simp add: sfs_write_def)
  moreover have "fs_inv ?s1 I" "full s1 \<Longrightarrow> full ?s1" using k(4) by (simp_all add: file_written_def)
  moreover have "file_abs ?s1 = file_abs s1" "file_abs ?s = file_abs sfs" by (intro ext; simp add: file_abs_def s)+
  moreover have "only_vnode sfs ?s1 v" using k(5) by (simp add: only_vnode_def vfs_biglock_acquire_def)
  ultimately show ?thesis using that [of r k ?s1] k(2,3) file_written_abs [OF k(4) fs_invD(1) [OF s(1)]] u(2) by auto
qed

lemma sfs_read_ok:
  assumes inv: "fs_inv sfs I" and a: "at_vnode sfs v s" and u: "request UIO_READ p n u" "p + n \<le> MAXFILE"
  shows "sfs_read v u sfs = Inr ((0, filled (afile_read p n (file_abs sfs (sv_ino s))) u), sfs)"
proof -
  let ?s = "vfs_biglock_acquire sfs"
  have q: "x_rw u = UIO_READ" "x_offset u = int p" "room n u" "n = unat (x_resid u)" "0 < n" using u(1) by (auto simp: request_def)
  have s: "fs_inv ?s I" "at_vnode ?s v s" "biglock ?s > 0" "inode ?s = inode sfs" "contents ?s = contents sfs" "biglock ?s = Suc (biglock sfs)"
    using inv a by (simp_all add: vfs_biglock_acquire_def)
  have "sfs_io v u ?s = Inr (0, filled (afile_read p n (file_abs sfs (sv_ino s))) u, ?s)"
    using io_read [OF s(1,3,2) q(1-4) refl _ q(5)] u(2) by (simp add: s afile_read_def file_abs_def)
  then show ?thesis using q(1) unlocked_ok [OF s(6)] by (simp add: sfs_read_def) (simp add: vfs_biglock_acquire_def)
qed

end
