(* ===== verification/Sfs_Trunc.thy ===== *)
theory Sfs_Trunc
  imports Sfs_Io
begin

text \<open>
  Truncation (\<^verbatim>\<open>sfs_itrunc\<close>): which blocks it frees, and that the blocks in use stay exactly those that
  files own.
\<close>

section \<open>Clearing pointers\<close>

text \<open>A change of the pointers of one inode to a subset of what they were.\<close>

definition cleared :: "sfs_fs \<Rightarrow> sfs_fs \<Rightarrow> u32 set \<Rightarrow> nat \<Rightarrow> u32 \<Rightarrow> nat set \<Rightarrow> bool" where
  "cleared sfs sfs' I v ino K \<longleftrightarrow> fs_inv sfs' I \<and> only_vnode sfs sfs' v \<and> same_attrs sfs sfs' I \<and>
     (\<forall>j \<in> I. \<forall>k < 144. ptr sfs' j k = (if j = ino \<and> k \<in> K then 0 else ptr sfs j k)) \<and>
     (\<forall>j \<in> I. \<forall>n < 143. file_block sfs' j n = (if j = ino \<and> slot_of n \<in> K then zeros else file_block sfs j n))"

lemma clearedD:
  assumes "cleared sfs sfs' I v ino K"
  shows "fs_inv sfs' I" "only_vnode sfs sfs' v" "same_attrs sfs sfs' I"
    "j \<in> I \<Longrightarrow> k < 144 \<Longrightarrow> ptr sfs' j k = (if j = ino \<and> k \<in> K then 0 else ptr sfs j k)"
    "j \<in> I \<Longrightarrow> n < 143 \<Longrightarrow> file_block sfs' j n = (if j = ino \<and> slot_of n \<in> K then zeros else file_block sfs j n)"
  using assms unfolding cleared_def by (blast+)

lemma clearedI:
  assumes inv: "fs_inv sfs I" and a: "at_vnode sfs v s"
    and n: "vol_ok sfs'" "sfs_sb sfs' = sfs_sb sfs" "sfs_vnodes sfs' = sfs_vnodes sfs" "biglock sfs' = biglock sfs"
    and h: "sfs_heap sfs' = (sfs_heap sfs)(v \<mapsto> t)" "sv_ino t = sv_ino s" "vn_refcount t = vn_refcount s" "vn_ops t = vn_ops s"
      "wf_dinode (sv_i t)" "\<not> sv_dirty t \<Longrightarrow> \<not> sv_dirty s \<and> sv_i t = sv_i s"
      "sfi_size (sv_i t) = sfi_size (sv_i s)" "sfi_type (sv_i t) = sfi_type (sv_i s)" "sfi_linkcount (sv_i t) = sfi_linkcount (sv_i s)"
    and sec: "\<And>c. c \<noteq> ptr sfs (sv_ino s) 15 \<or> ptr sfs (sv_ino s) 15 = 0 \<Longrightarrow> secs sfs' c = secs sfs c"
    and own: "owns (\<lambda>j k. if j = sv_ino s \<and> k \<in> K then 0 else ptr sfs j k) (used sfs') (reserved sfs) (nblocks sfs) I"
    and P: "\<And>k. k < 144 \<Longrightarrow> inode_ptr (secs sfs') (sv_i t) k = (if k \<in> K then 0 else ptr sfs (sv_ino s) k)"
  shows "cleared sfs sfs' I v (sv_ino s) K"
proof -
  let ?i = "sv_ino s" and ?d = "ptr sfs (sv_ino s) 15"
  note o = fs_invD(3) [OF inv] and vk = fs_invD(2) [OF inv]
  have i: "?i \<in> I" using vnodes_okD(1) [OF vk a] .
  have secI: "secs sfs' j = secs sfs j" if "j \<in> I" for j using ownsD(9) [OF o i, of 15] that by (intro sec) auto
  have cl: "\<not> sv_dirty t \<Longrightarrow> dinode_of (secs sfs' ?i) = sv_i t" using h(6) vnodes_okD(3) [OF vk a] secI [OF i] by simp
  have u1: "vnodes_ok sfs' I" by (rule vnodes_upd(1) [OF vk a h(1) n(3) h(2,5)]) (use cl secI in simp_all)
  have u3: "inode sfs' j = (if j = ?i then sv_i t else inode sfs j)" if "j \<in> I" for j
    by (rule vnodes_upd(3) [OF vk a h(1) n(3) h(2,5)]) (use cl secI that in simp_all)
  have Q: "ptr sfs' j k = (if j = ?i \<and> k \<in> K then 0 else ptr sfs j k)" if j: "j \<in> I" "k < 144" for j k
  proof (cases "j = ?i")
    case True
    then show ?thesis using P [OF that(2)] u3 [OF i] by (simp add: ptr_def [of sfs'])
  next
    case False
    have "secs sfs' (sfi_indirect (inode sfs j)) = secs sfs (sfi_indirect (inode sfs j))" if "sfi_indirect (inode sfs j) \<noteq> 0"
      using ownsD(10) [OF o j(1) i, of 15 15] that False by (intro sec) (auto simp: ptr_15)
    then have "inode_ptr (secs sfs') (inode sfs j) k = inode_ptr (secs sfs) (inode sfs j) k" by (rule inode_ptr_cong)
    then show ?thesis using False u3 [OF j(1)] by (simp add: ptr_def)
  qed
  have "owns (ptr sfs') (used sfs') (reserved sfs') (nblocks sfs') I"
    unfolding n(2) reserved_cong [OF n(2)] by (rule owns_cong [OF own Q])
  then have inv': "fs_inv sfs' I" using n(1) u1 by (simp add: fs_inv_def own_ok_def)
  have fb: "file_block sfs' j m = (if j = ?i \<and> slot_of m \<in> K then zeros else file_block sfs j m)" if j: "j \<in> I" "m < 143" for j m
  proof -
    note k = slot_of_less(1) [OF j(2)] slot_of_less(2) [of m]
    have "secs sfs' (ptr sfs j (slot_of m)) = secs sfs (ptr sfs j (slot_of m))" if "ptr sfs j (slot_of m) \<noteq> 0"
      using ownsD(10) [OF o j(1) i k(1), of 15] that k(2) by (intro sec) auto
    then show ?thesis using Q [OF j(1) k(1)] by (simp add: file_block_def Let_def)
  qed
  have "same_attrs sfs sfs' I" using u3 h(7-9) inode_at [OF vk a] by (simp add: same_attrs_def)
  moreover have "only_vnode sfs sfs' v" using n h(1-4) a by (simp add: only_vnode_def at_vnode_def)
  ultimately show ?thesis unfolding cleared_def using inv' Q fb by blast
qed

lemma cleared_trans:
  assumes "cleared a b I v ino K" "cleared b c I v ino L"
  shows "cleared a c I v ino (K \<union> L)"
proof -
  note x = clearedD [OF assms(1)] and y = clearedD [OF assms(2)]
  have "same_attrs a c I" using x(3) y(3) by (simp add: same_attrs_def)
  moreover have "ptr c j k = (if j = ino \<and> k \<in> K \<union> L then 0 else ptr a j k)" if "j \<in> I" "k < 144" for j k
    unfolding y(4) [OF that] x(4) [OF that] by auto
  moreover have "file_block c j n = (if j = ino \<and> slot_of n \<in> K \<union> L then zeros else file_block a j n)" if "j \<in> I" "n < 143" for j n
    unfolding y(5) [OF that] x(5) [OF that] by auto
  ultimately show ?thesis unfolding cleared_def using y(1) only_vnode_trans [OF x(2) y(2)] by blast
qed

lemma cleared_nothing:
  assumes "fs_inv sfs I" "at_vnode sfs v s" "\<And>k. k \<in> K \<Longrightarrow> k < 144 \<Longrightarrow> ptr sfs (sv_ino s) k = 0"
  shows "cleared sfs sfs I v (sv_ino s) K"
proof -
  have "file_block sfs (sv_ino s) n = zeros" if "slot_of n \<in> K" "n < 143" for n
    using assms(3) [OF that(1)] slot_of_less(1) [OF that(2)] by (simp add: file_block_def)
  then show ?thesis using assms by (auto simp: cleared_def same_attrs_def at_vnode_def only_vnode_refl)
qed

section \<open>Direct blocks\<close>

lemma free_direct:
  assumes inv: "fs_inv sfs I" and a: "at_vnode sfs v s" and k: "k < 15" "sfi_direct (sv_i s) ! k \<noteq> 0"
  obtains s1 where "sfs_bfree sfs (sfi_direct (sv_i s) ! k) = Inr s1"
    "cleared sfs (set_inode v (\<lambda>di. di\<lparr>sfi_direct := (sfi_direct di)[k := 0]\<rparr>) s1) I v (sv_ino s) {k}"
proof -
  let ?i = "sv_ino s" and ?f = "\<lambda>di. di\<lparr>sfi_direct := (sfi_direct di)[k := 0]\<rparr>" and ?b = "sfi_direct (sv_i s) ! k"
  note o = fs_invD(3) [OF inv] and vk = fs_invD(2) [OF inv]
  have i: "?i \<in> I" "inode sfs ?i = sv_i s" "wf_dinode (sv_i s)"
    using vnodes_okD(1,2) [OF vk a] inode_at [OF vk a] by simp_all
  have p: "ptr sfs ?i k = ?b" using k(1) by (simp add: ptr_def inode_ptr_def i)
  have k144: "k < 144" "ptr sfs ?i k \<noteq> 0" using k p by simp_all
  have b: "unat ?b \<in> used sfs" "?b < nblocks sfs" using ownsD(6,8) [OF o i(1) k144] p by simp_all
  obtain bm where bm: "sfs_bfree sfs ?b = Inr (set_map bm sfs)" "marked bm = used sfs - {unat ?b}" "vol_ok (set_map bm sfs)"
    using bfree_ok [OF fs_invD(1) [OF inv] b] .
  let ?s = "set_map bm sfs"
  have h: "sfs_heap ?s v = Some s" using a by (simp add: at_vnode_def)
  define sfs' where "sfs' = set_inode v ?f ?s"
  note n = set_inode_simps [OF h, of ?f, folded sfs'_def]
  let ?t = "s\<lparr>sv_i := ?f (sv_i s), sv_dirty := True\<rparr>"
  have own: "owns (\<lambda>j m. if j = ?i \<and> m \<in> {k} then 0 else ptr sfs j m) (used sfs') (reserved sfs) (nblocks sfs) I"
    using owns_shrink [OF o i(1) k144] bm(2) p n by simp
  have P: "inode_ptr (secs sfs') (sv_i ?t) m = (if m \<in> {k} then 0 else ptr sfs ?i m)" if "m < 144" for m
    using k(1) i(3) n by (auto simp: ptr_def inode_ptr_def i(2) wf_dinode_def SFS_NDIRECT_def nth_list_update)
  have vol: "vol_ok sfs'" using bm(3) vol_ok_cong [of sfs' ?s] n by simp
  have "cleared sfs sfs' I v ?i {k}"
    by (rule clearedI [OF inv a vol, of ?t])
      (use n P own i(3) in \<open>simp_all add: wf_dinode_def\<close>)
  then show ?thesis using that bm(1) unfolding sfs'_def by blast
qed

lemma cleared_next:
  assumes "cleared sfs sfs' I v (sv_ino s) K" "at_vnode sfs v s" "biglock sfs > 0"
  obtains t where "fs_inv sfs' I" "biglock sfs' > 0" "at_vnode sfs' v t" "sv_ino t = sv_ino s"
  using assms clearedD(1,2) [OF assms(1)] that by (fastforce simp: only_vnode_def at_vnode_def)

lemma trunc_direct_ok:
  assumes "fs_inv sfs I" "biglock sfs > 0" "at_vnode sfs v s" "i + n = 15"
  shows "\<exists>sfs'. trunc_direct n i v bl sfs = Inr sfs' \<and> cleared sfs sfs' I v (sv_ino s) {k. i \<le> k \<and> k < 15 \<and> unat bl \<le> k}"
  using assms
proof (induction n arbitrary: i s sfs)
  case 0
  then have "cleared sfs sfs I v (sv_ino s) {k. i \<le> k \<and> k < 15 \<and> unat bl \<le> k}" by (intro cleared_nothing [OF 0(1,3)]) auto
  then show ?case by simp
next
  case (Suc n)
  let ?b = "sfi_direct (sv_i s) ! i" and ?K = "\<lambda>i. {k. i \<le> k \<and> k < 15 \<and> unat bl \<le> k}"
  let ?f = "\<lambda>di. di\<lparr>sfi_direct := (sfi_direct di)[i := 0]\<rparr>"
  have i: "i < 15" using Suc.prems(4) by simp
  have p: "ptr sfs (sv_ino s) i = ?b" using i inode_at [OF fs_invD(2) [OF Suc.prems(1)] Suc.prems(3)] by (simp add: ptr_def inode_ptr_def)
  define K where "K = (if unat bl \<le> i then {i} else {})"
  have U: "K \<union> ?K (Suc i) = ?K i" using i by (auto simp: K_def Suc_le_eq intro: le_neq_trans)
  obtain s1 where s1: "(if unat bl \<le> i \<and> ?b \<noteq> 0 then bindR (sfs_bfree sfs ?b) (\<lambda>sfs. Inr (set_inode v ?f sfs)) else Inr sfs) = Inr s1"
    "cleared sfs s1 I v (sv_ino s) K"
  proof (cases "unat bl \<le> i \<and> ?b \<noteq> 0")
    case True
    then have b: "?b \<noteq> 0" by simp
    obtain s1 where "sfs_bfree sfs ?b = Inr s1" "cleared sfs (set_inode v ?f s1) I v (sv_ino s) {i}"
      using free_direct [OF Suc.prems(1,3) i b] .
    then show ?thesis using True that [of "set_inode v ?f s1"] by (simp add: K_def)
  next
    case False
    then have "cleared sfs sfs I v (sv_ino s) K" using p by (intro cleared_nothing [OF Suc.prems(1,3)]) (auto simp: K_def split: if_splits)
    then show ?thesis by (rule that [OF if_not_P [OF False]])
  qed
  obtain t where t: "fs_inv s1 I" "biglock s1 > 0" "at_vnode s1 v t" "sv_ino t = sv_ino s"
    using cleared_next [OF s1(2) Suc.prems(3,2)] .
  have "Suc i + n = 15" using Suc.prems(4) by simp
  from Suc.IH [OF t(1-3) this] obtain s2 where s2: "trunc_direct n (Suc i) v bl s1 = Inr s2" "cleared s1 s2 I v (sv_ino s) (?K (Suc i))"
    using t(4) by auto
  have "trunc_direct (Suc n) i v bl sfs = Inr s2"
    using s2(1) unfolding trunc_direct.simps the_vnode_at [OF Suc.prems(3)] bindR_Inr Let_def s1(1) .
  then show ?case using cleared_trans [OF s1(2) s2(2)] unfolding U by blast
qed

section \<open>The indirect block\<close>

text \<open>The loop over the indirect block only frees blocks: entry \<open>j\<close> is cut when the new length in
  blocks is below its file block number.\<close>

definition past_end :: "u32 \<Rightarrow> nat \<Rightarrow> bool" where
  "past_end bl j \<longleftrightarrow> unat bl < 15 + j"

definition with_map :: "bitmap \<Rightarrow> bool \<Rightarrow> sfs_fs \<Rightarrow> sfs_fs" where
  "with_map bm d sfs = sfs\<lparr>sfs_freemap := bm, sfs_freemapdirty := d\<rparr>"

lemma with_map_simps [simp]:
  "sfs_sb (with_map bm d sfs) = sfs_sb sfs" "sfs_freemap (with_map bm d sfs) = bm"
  "sfs_vnodes (with_map bm d sfs) = sfs_vnodes sfs" "sfs_heap (with_map bm d sfs) = sfs_heap sfs"
  "biglock (with_map bm d sfs) = biglock sfs" "sfs_device (with_map bm d sfs) = sfs_device sfs"
  "with_map bm d (set_map bm' sfs) = with_map bm d sfs" "with_map (sfs_freemap sfs) (sfs_freemapdirty sfs) sfs = sfs"
  "set_map bm' (with_map bm d sfs) = set_map bm' sfs"
  by (simp_all add: with_map_def set_map_def)

text \<open>The result of the loop from entry \<open>j\<close> on: the buffer, whether an entry stays, whether one was cut.\<close>

definition cut_result :: "u32 \<Rightarrow> nat \<Rightarrow> u32 list \<Rightarrow> bool \<Rightarrow> bool \<Rightarrow> u32 list \<times> bool \<times> bool" where
  "cut_result bl j b h di = (map (\<lambda>i. if j \<le> i \<and> past_end bl i then 0 else b ! i) [0..<128],
     h \<or> (\<exists>i < 128. j \<le> i \<and> \<not> past_end bl i \<and> b ! i \<noteq> 0), di \<or> (\<exists>i < 128. j \<le> i \<and> past_end bl i \<and> b ! i \<noteq> 0))"

definition cut_ptr :: "u32 \<Rightarrow> nat \<Rightarrow> u32 \<Rightarrow> (u32 \<Rightarrow> nat \<Rightarrow> u32) \<Rightarrow> u32 \<Rightarrow> nat \<Rightarrow> u32" where
  "cut_ptr bl j i0 P ino k = (if ino = i0 \<and> 16 + j \<le> k \<and> past_end bl (k - 16) then 0 else P ino k)"

lemma split_from: "j \<le> i \<longleftrightarrow> i = j \<or> Suc j \<le> i" for i j :: nat
  by auto

lemma cut_keep:
  assumes "\<not> (past_end bl j \<and> b ! j \<noteq> 0)" "j < 128" "P i0 (16 + j) = b ! j"
  shows "cut_result bl (Suc j) b (h \<or> b ! j \<noteq> 0) di = cut_result bl j b h di"
    "cut_ptr bl (Suc j) i0 P ino k = cut_ptr bl j i0 P ino k"
proof -
  have "(if Suc j \<le> i \<and> past_end bl i then 0 else b ! i) = (if j \<le> i \<and> past_end bl i then 0 else b ! i)" for i
    using assms(1) by (auto simp: split_from [of j])
  then show "cut_result bl (Suc j) b (h \<or> b ! j \<noteq> 0) di = cut_result bl j b h di"
    using assms(1,2) by (auto simp: cut_result_def split_from [of j])
  show "cut_ptr bl (Suc j) i0 P ino k = cut_ptr bl j i0 P ino k" using assms(1,3) by (cases "k = 16 + j") (auto simp: cut_ptr_def)
qed

lemma cut_step:
  assumes "past_end bl j \<and> b ! j \<noteq> 0" "j < 128" "length b = 128"
  shows "cut_result bl (Suc j) (b[j := 0]) h True = cut_result bl j b h di"
    "cut_ptr bl (Suc j) i0 (\<lambda>ino k. if ino = i0 \<and> k = 16 + j then 0 else P ino k) ino k = cut_ptr bl j i0 P ino k"
proof -
  have "(if Suc j \<le> i \<and> past_end bl i then 0 else b[j := 0] ! i) = (if j \<le> i \<and> past_end bl i then 0 else b ! i)" for i
    using assms by (auto simp: split_from [of j] nth_list_update)
  moreover have "(\<exists>i < 128. Suc j \<le> i \<and> \<not> past_end bl i \<and> b[j := 0] ! i \<noteq> 0) = (\<exists>i < 128. j \<le> i \<and> \<not> past_end bl i \<and> b ! i \<noteq> 0)"
    using assms(1) by (auto simp: split_from [of j])
  ultimately show "cut_result bl (Suc j) (b[j := 0]) h True = cut_result bl j b h di"
    using assms(1,2) unfolding cut_result_def by auto
  show "cut_ptr bl (Suc j) i0 (\<lambda>ino k. if ino = i0 \<and> k = 16 + j then 0 else P ino k) ino k = cut_ptr bl j i0 P ino k"
    using assms(1) by (cases "k = 16 + j") (auto simp: cut_ptr_def)
qed

lemma cut_end: "length b = 128 \<Longrightarrow> cut_result bl 128 b h di = (b, h, di)"
proof -
  assume "length b = 128"
  then have "map ((!) b) [0..<128] = b" using map_nth [of b] by simp
  moreover have "map (\<lambda>i. if 128 \<le> i \<and> past_end bl i then 0 else b ! i) [0..<128] = map ((!) b) [0..<128]" by (intro map_cong [OF refl]) auto
  ultimately show ?thesis by (auto simp: cut_result_def)
qed

lemma trunc_indirect_ok:
  assumes "vol_ok sfs" "owns P (used sfs) R (nblocks sfs) I" "i0 \<in> I" "length b = 128" "\<forall>i < 128. P i0 (16 + i) = b ! i"
    "j + n = 128" "cut_result bl j b h di = (b', h', di')"
  shows "\<exists>bm d. trunc_indirect n j bl b h di sfs = Inr (b', h', di', with_map bm d sfs) \<and> vol_ok (with_map bm d sfs) \<and>
    owns (cut_ptr bl j i0 P) (marked bm) R (nblocks sfs) I"
  using assms
proof (induction n arbitrary: j b h di sfs P)
  case 0
  have j: "j = 128" using 0(6) by simp
  have "owns (cut_ptr bl j i0 P) (used sfs) R (nblocks sfs) I"
    by (rule owns_cong [OF 0(2)]) (use j in \<open>auto simp: cut_ptr_def\<close>)
  then show ?case using 0(1,7) cut_end [OF 0(4)] j
    by (intro exI [of _ "sfs_freemap sfs"] exI [of _ "sfs_freemapdirty sfs"]) simp
next
  case (Suc n)
  have j: "j < 128" "Suc j + n = 128" using Suc.prems(6) by simp_all
  have pj: "P i0 (16 + j) = b ! j" using Suc.prems(5) j(1) by simp
  have g: "unat bl < SFS_NDIRECT + j \<and> b ! j \<noteq> 0 \<longleftrightarrow> past_end bl j \<and> b ! j \<noteq> 0" by (simp add: past_end_def SFS_NDIRECT_def)
  show ?case
  proof (cases "past_end bl j \<and> b ! j \<noteq> 0")
    case False
    note c = cut_keep [where P = P, OF False j(1) pj]
    obtain bm d where "trunc_indirect n (Suc j) bl b (h \<or> b ! j \<noteq> 0) di sfs = Inr (b', h', di', with_map bm d sfs)"
      "vol_ok (with_map bm d sfs)" "owns (cut_ptr bl (Suc j) i0 P) (marked bm) R (nblocks sfs) I"
      using Suc.IH [OF Suc.prems(1-5) j(2) trans [OF c(1) Suc.prems(7)]] by blast
    then show ?thesis using owns_cong [of _ _ _ _ _ "cut_ptr bl j i0 P"] c(2) [symmetric] unfolding trunc_indirect.simps g if_not_P [OF False] by blast
  next
    case True
    have k: "16 + j < 144" "P i0 (16 + j) \<noteq> 0" using True j(1) pj by simp_all
    have u: "unat (b ! j) \<in> used sfs" "b ! j < nblocks sfs" using ownsD(6,8) [OF Suc.prems(2,3) k] pj by simp_all
    obtain b1 where b1: "sfs_bfree sfs (b ! j) = Inr (set_map b1 sfs)" "marked b1 = used sfs - {unat (b ! j)}" "vol_ok (set_map b1 sfs)"
      using bfree_ok [OF Suc.prems(1) u] .
    let ?P = "\<lambda>ino k. if ino = i0 \<and> k = 16 + j then 0 else P ino k" and ?b = "b[j := 0]"
    note c = cut_step [OF True j(1) Suc.prems(4)]
    have o1: "owns ?P (used (set_map b1 sfs)) R (nblocks (set_map b1 sfs)) I"
      using owns_shrink [OF Suc.prems(2,3) k] b1(2) pj by simp
    have l: "length ?b = 128" "\<forall>i < 128. ?P i0 (16 + i) = ?b ! i" using Suc.prems(4,5) by (simp_all add: nth_list_update)
    obtain bm d where r: "trunc_indirect n (Suc j) bl ?b h True (set_map b1 sfs) = Inr (b', h', di', with_map bm d (set_map b1 sfs))"
      "vol_ok (with_map bm d (set_map b1 sfs))" "owns (cut_ptr bl (Suc j) i0 ?P) (marked bm) R (nblocks (set_map b1 sfs)) I"
      using Suc.IH [OF b1(3) o1 Suc.prems(3) l j(2) trans [OF c(1) Suc.prems(7)]] by blast
    have "owns (cut_ptr bl j i0 P) (marked bm) R (nblocks sfs) I"
      using owns_cong [OF r(3), of "cut_ptr bl j i0 P"] c(2) [symmetric] by simp
    then show ?thesis using r(1,2) unfolding trunc_indirect.simps g if_P [OF True] b1(1) bindR_Inr by auto
  qed
qed

text \<open>The pointers that the indirect block loses: all past the end and, when no entry is left, the
  pointer to the indirect block itself.\<close>

definition cut_slots :: "sfs_fs \<Rightarrow> u32 \<Rightarrow> u32 \<Rightarrow> nat set" where
  "cut_slots sfs ino bl = {k. 16 \<le> k \<and> past_end bl (k - 16)} \<union>
     (if \<forall>i < 128. past_end bl i \<or> ptr sfs ino (16 + i) = 0 then {15} else {})"

lemma cut_slots_cases:
  "15 \<in> cut_slots sfs i0 bl \<longleftrightarrow> (\<forall>i < 128. past_end bl i \<or> ptr sfs i0 (16 + i) = 0)"
  "15 \<in> cut_slots sfs i0 bl \<Longrightarrow> cut_slots sfs i0 bl = insert 15 {k. 16 \<le> k \<and> past_end bl (k - 16)}"
  "15 \<notin> cut_slots sfs i0 bl \<Longrightarrow> cut_slots sfs i0 bl = {k. 16 \<le> k \<and> past_end bl (k - 16)}"
proof -
  define Q where "Q = (\<forall>i < 128. past_end bl i \<or> ptr sfs i0 (16 + i) = 0)"
  have "cut_slots sfs i0 bl = {k. 16 \<le> k \<and> past_end bl (k - 16)} \<union> (if Q then {15} else {})" unfolding cut_slots_def Q_def ..
  then show "15 \<in> cut_slots sfs i0 bl \<longleftrightarrow> (\<forall>i < 128. past_end bl i \<or> ptr sfs i0 (16 + i) = 0)"
    "15 \<in> cut_slots sfs i0 bl \<Longrightarrow> cut_slots sfs i0 bl = insert 15 {k. 16 \<le> k \<and> past_end bl (k - 16)}"
    "15 \<notin> cut_slots sfs i0 bl \<Longrightarrow> cut_slots sfs i0 bl = {k. 16 \<le> k \<and> past_end bl (k - 16)}"
    unfolding Q_def [symmetric] by (auto split: if_splits)
qed

lemma trunc_idblock_ok:
  assumes inv: "fs_inv sfs I" and l: "biglock sfs > 0" and a: "at_vnode sfs v s" and d: "sfi_indirect (sv_i s) \<noteq> 0"
  shows "\<exists>sfs'. trunc_idblock sfs v bl (sfi_indirect (sv_i s)) = Inr (0, sfs') \<and>
    cleared sfs sfs' I v (sv_ino s) (cut_slots sfs (sv_ino s) bl)"
proof -
  let ?i = "sv_ino s" and ?d = "sfi_indirect (sv_i s)" and ?K = "cut_slots sfs (sv_ino s) bl"
  note vol = fs_invD(1) [OF inv] and vk = fs_invD(2) [OF inv] and o = fs_invD(3) [OF inv]
  have i: "?i \<in> I" "inode sfs ?i = sv_i s" "wf_dinode (sv_i s)" using vnodes_okD(1,2) [OF vk a] inode_at [OF vk a] by simp_all
  have h: "sfs_heap sfs v = Some s" using a by (simp add: at_vnode_def)
  define b where "b = words_of (secs sfs ?d)"
  have p: "ptr sfs ?i 15 = ?d" "ptr sfs ?i (16 + j) = b ! j" "k < 15 \<Longrightarrow> ptr sfs ?i k = sfi_direct (sv_i s) ! k" for j k
    using d i(2) by (simp_all add: ptr_def inode_ptr_def b_def)
  have p16: "ptr sfs ?i k = b ! (k - 16)" if "16 \<le> k" for k using p(2) [of "k - 16"] that by simp
  have dn: "?d < nblocks sfs" "unat ?d \<in> used sfs" using ownsD(6,8) [OF o i(1), of 15] d p(1) by simp_all
  have lb: "length b = 128" using vol_ok_length [OF vol] by (simp add: b_def length_words_of)
  obtain b' h' di' where c: "cut_result bl 0 b False False = (b', h', di')" by (cases "cut_result bl 0 b False False") auto
  have b': "length b' = 128" "i < 128 \<Longrightarrow> b' ! i = (if past_end bl i then 0 else b ! i)" for i using c by (auto simp: cut_result_def)
  have h': "h' \<longleftrightarrow> 15 \<notin> ?K" "di' \<longleftrightarrow> (\<exists>i < 128. past_end bl i \<and> b ! i \<noteq> 0)" using c p(2) by (auto simp: cut_result_def cut_slots_cases(1))
  have "\<forall>i < 128. ptr sfs ?i (16 + i) = b ! i" using p(2) by simp
  from trunc_indirect_ok [OF vol o i(1) lb this _ c, of 128] obtain bm e where bm: "trunc_indirect 128 0 bl b False False sfs = Inr (b', h', di', with_map bm e sfs)"
    "vol_ok (with_map bm e sfs)" "owns (cut_ptr bl 0 ?i (ptr sfs)) (marked bm) (reserved sfs) (nblocks sfs) I" by auto
  have run: "trunc_idblock sfs v bl ?d =
    (if \<not> h' then bindR (sfs_bfree (with_map bm e sfs) ?d) (\<lambda>sfs. Inr (0, set_inode v (\<lambda>di. di\<lparr>sfi_indirect := 0\<rparr>) sfs))
     else if di' then sfs_writeblock (with_map bm e sfs) ?d (bytes_of b') else Inr (0, with_map bm e sfs))"
    using readblock_ok [OF vol l dn(1)] bm(1) by (simp add: trunc_idblock_def b_def SFS_DBPERIDB_def)
  show ?thesis
  proof (cases h')
    case False
    have c15: "cut_ptr bl 0 ?i (ptr sfs) ?i 15 = ?d" using p(1) by (simp add: cut_ptr_def)
    obtain b2 where b2: "sfs_bfree (with_map bm e sfs) ?d = Inr (set_map b2 sfs)" "marked b2 = marked bm - {unat ?d}" "vol_ok (set_map b2 sfs)"
      using bfree_ok [OF bm(2), of ?d] ownsD(6) [OF bm(3) i(1), of 15] c15 d dn(1) by auto
    let ?f = "\<lambda>di. di\<lparr>sfi_indirect := 0\<rparr>"
    have h2: "sfs_heap (set_map b2 sfs) v = Some s" using h by simp
    define sfs' where "sfs' = set_inode v ?f (set_map b2 sfs)"
    note n = set_inode_simps [OF h2, of ?f, folded sfs'_def]
    have K15: "15 \<in> ?K" using False h'(1) by simp
    note K = cut_slots_cases(2) [OF K15]
    have z: "\<forall>i < 128. past_end bl i \<or> b ! i = 0" using cut_slots_cases(1) [THEN iffD1, OF K15] p(2) by simp
    have us: "used sfs' = marked bm - {unat ?d}" using n b2(2) by simp
    have own: "owns (\<lambda>j k. if j = ?i \<and> k \<in> ?K then 0 else ptr sfs j k) (used sfs') (reserved sfs) (nblocks sfs) I"
      unfolding us by (rule owns_cong [OF owns_shrink [OF bm(3) i(1), of 15, unfolded c15]]) (use d in \<open>auto simp: K cut_ptr_def\<close>)
    have P: "inode_ptr (secs sfs') (?f (sv_i s)) k = (if k \<in> ?K then 0 else ptr sfs ?i k)" if "k < 144" for k
      using that p z [rule_format, of "k - 16"] p16 by (auto simp: K inode_ptr_def)
    have vol': "vol_ok sfs'" using b2(3) vol_ok_cong [of sfs' "set_map b2 sfs"] n by simp
    have "cleared sfs sfs' I v ?i ?K"
      by (rule clearedI [OF inv a vol', of "s\<lparr>sv_i := ?f (sv_i s), sv_dirty := True\<rparr>"]) (use n P own i(3) in \<open>simp_all add: wf_dinode_def\<close>)
    then show ?thesis unfolding run using False b2(1) by (simp add: sfs'_def)
  next
    case True
    define sfs' where "sfs' = (if di' then wsec ?d (bytes_of b') (with_map bm e sfs) else with_map bm e sfs)"
    have r: "trunc_idblock sfs v bl ?d = Inr (0, sfs')"
      unfolding run using True writeblock_ok [OF bm(2), of ?d "bytes_of b'"] l dn(1) b'(1) by (simp add: sfs'_def)
    have n: "sfs_sb sfs' = sfs_sb sfs" "sfs_vnodes sfs' = sfs_vnodes sfs" "biglock sfs' = biglock sfs" "sfs_heap sfs' = sfs_heap sfs"
      "used sfs' = marked bm" "secs sfs' = (if di' then (secs sfs)(?d := bytes_of b') else secs sfs)" by (simp_all add: sfs'_def)
    have K15: "15 \<notin> ?K" using True h'(1) by simp
    note K = cut_slots_cases(3) [OF K15]
    have cp: "cut_ptr bl 0 ?i (ptr sfs) = (\<lambda>j k. if j = ?i \<and> k \<in> ?K then 0 else ptr sfs j k)"
      by (intro ext) (simp add: K cut_ptr_def)
    have "cleared sfs sfs' I v ?i ?K"
    proof (rule clearedI [OF inv a, of sfs' s])
      show "vol_ok sfs'" using bm(2) vol_ok_wsec b'(1) by (simp add: sfs'_def)
      show "sfs_heap sfs' = (sfs_heap sfs)(v \<mapsto> s)" using h n(4) by (simp add: fun_upd_idem)
      show "owns (\<lambda>j k. if j = ?i \<and> k \<in> ?K then 0 else ptr sfs j k) (used sfs') (reserved sfs) (nblocks sfs) I"
        using bm(3) n(5) unfolding cp by simp
      show "inode_ptr (secs sfs') (sv_i s) k = (if k \<in> ?K then 0 else ptr sfs ?i k)" if "k < 144" for k
        using that p p16 b'(2) [of "k - 16"] h'(2) d n(6) by (auto simp: K inode_ptr_def b_def)
      show "secs sfs' c = secs sfs c" if "c \<noteq> ptr sfs ?i 15 \<or> ptr sfs ?i 15 = 0" for c using that p(1) d n(6) by auto
    qed (use n i(3) in simp_all)
    then show ?thesis using r by blast
  qed
qed

section \<open>sfs\_itrunc\<close>

text \<open>The blocks that truncation to \<open>len\<close> bytes clears. A block of the indirect area goes only when
  its number is above the length in blocks; a direct block also when it is equal.\<close>

definition trunc_gone :: "nat \<Rightarrow> nat \<Rightarrow> bool" where
  "trunc_gone len n \<longleftrightarrow> (if n < 15 then (len + 511) div 512 \<le> n else (len + 511) div 512 < n)"

definition gone_slots :: "sfs_fs \<Rightarrow> u32 \<Rightarrow> u32 \<Rightarrow> nat set" where
  "gone_slots sfs ino bl = {k. k < 15 \<and> unat bl \<le> k} \<union> (if unat bl < 142 then cut_slots sfs ino bl else {})"

lemma gone_slots_slot:
  assumes "unat bl = (len + 511) div 512" "n < 143"
  shows "slot_of n \<in> gone_slots sfs ino bl \<longleftrightarrow> trunc_gone len n"
proof -
  have "15 < 16 + k" for k :: nat by simp
  then show ?thesis
    using assms by (auto simp: gone_slots_def cut_slots_def trunc_gone_def slot_of_def past_end_def split: if_splits)
qed

lemma itrunc_blocks:
  assumes inv: "fs_inv sfs I" and l: "biglock sfs > 0" and a: "at_vnode sfs v s"
  obtains s1 t s2 where "trunc_direct SFS_NDIRECT 0 v bl sfs = Inr s1" "at_vnode s1 v t" 
    "(if unat bl < SFS_NDIRECT + SFS_DBPERIDB - 1 \<and> sfi_indirect (sv_i t) \<noteq> 0 then trunc_idblock s1 v bl (sfi_indirect (sv_i t))
      else Inr (0, s1)) = Inr (0, s2)" "cleared sfs s2 I v (sv_ino s) (gone_slots sfs (sv_ino s) bl)"
proof -
  let ?i = "sv_ino s" and ?D = "{k. 0 \<le> k \<and> k < 15 \<and> unat bl \<le> k}"
  obtain s1 where s1: "trunc_direct 15 0 v bl sfs = Inr s1" "cleared sfs s1 I v ?i ?D"
    using trunc_direct_ok [OF inv l a, of 0 15 bl] by auto
  obtain t where t: "fs_inv s1 I" "biglock s1 > 0" "at_vnode s1 v t" "sv_ino t = ?i" using cleared_next [OF s1(2) a l] .
  have i: "?i \<in> I" using vnodes_okD(1) [OF fs_invD(2) [OF inv] a] .
  have nt: "inode s1 ?i = sv_i t" using inode_at [OF fs_invD(2) [OF t(1)] t(3)] t(4) by simp
  have same: "ptr s1 ?i (16 + j) = ptr sfs ?i (16 + j)" if "j < 128" for j using clearedD(4) [OF s1(2) i, of "16 + j"] that by simp
  have K: "cut_slots s1 ?i bl = cut_slots sfs ?i bl" using same by (simp add: cut_slots_def)
  let ?L = "if unat bl < 142 then cut_slots sfs ?i bl else {}"
  have "\<exists>s2. (if unat bl < 142 \<and> sfi_indirect (sv_i t) \<noteq> 0 then trunc_idblock s1 v bl (sfi_indirect (sv_i t))
      else Inr (0, s1)) = Inr (0, s2) \<and> cleared s1 s2 I v ?i ?L"
  proof (cases "unat bl < 142 \<and> sfi_indirect (sv_i t) \<noteq> 0")
    case True
    then have d: "sfi_indirect (sv_i t) \<noteq> 0" and L: "?L = cut_slots sfs ?i bl" by simp_all
    show ?thesis unfolding if_P [OF True] L using trunc_idblock_ok [OF t(1-3) d, of bl] unfolding t(4) K .
  next
    case False
    have "ptr s1 (sv_ino t) k = 0" if "k \<in> ?L" for k
      using that False t(4) nt by (auto simp: ptr_def inode_ptr_def cut_slots_def split: if_splits)
    then have "cleared s1 s1 I v (sv_ino t) ?L" by (intro cleared_nothing [OF t(1,3)])
    then show ?thesis unfolding if_not_P [OF False] using t(4) by simp
  qed
  then obtain s2 where s2: "(if unat bl < 142 \<and> sfi_indirect (sv_i t) \<noteq> 0 then trunc_idblock s1 v bl (sfi_indirect (sv_i t))
      else Inr (0, s1)) = Inr (0, s2)" "cleared s1 s2 I v ?i ?L" by blast
  have "cleared sfs s2 I v ?i (gone_slots sfs ?i bl)" using cleared_trans [OF s1(2) s2(2)] by (simp add: gone_slots_def)
  then show ?thesis using that [of s1 t s2] s1(1) t(3) s2(1) by (simp add: SFS_NDIRECT_def SFS_DBPERIDB_def)
qed

lemma sfs_itrunc_ok:
  assumes inv: "fs_inv sfs I" and a: "at_vnode sfs v s" and len: "len < 2 ^ 32"
  obtains sfs' where "sfs_itrunc sfs v (int len) = Inr (0, sfs')" "fs_inv sfs' I" "only_vnode sfs sfs' v"
    "unat (sfi_size (inode sfs' (sv_ino s))) = len" "sfi_type (inode sfs' (sv_ino s)) = sfi_type (inode sfs (sv_ino s))"
    "sfi_linkcount (inode sfs' (sv_ino s)) = sfi_linkcount (inode sfs (sv_ino s))"
    "\<forall>n < 143. file_block sfs' (sv_ino s) n = (if trunc_gone len n then zeros else file_block sfs (sv_ino s) n)"
    "\<forall>j \<in> I. j \<noteq> sv_ino s \<longrightarrow> file_abs sfs' j = file_abs sfs j" "len = 0 \<Longrightarrow> \<forall>k < 144. ptr sfs' (sv_ino s) k = 0"
proof -
  let ?i = "sv_ino s" and ?s = "vfs_biglock_acquire sfs"
  define bl :: u32 where "bl = word_of_int ((int len + int SFS_BLOCKSIZE - 1) div int SFS_BLOCKSIZE)"
  have "(int len + int SFS_BLOCKSIZE - 1) div int SFS_BLOCKSIZE = int ((len + 511) div 512)" by (simp add: SFS_BLOCKSIZE_def zdiv_int)
  then have "bl = of_nat ((len + 511) div 512)" unfolding bl_def by (simp only: of_int_of_nat_eq)
  then have bl: "unat bl = (len + 511) div 512" using len by (simp add: unat_of_nat)
  have s: "fs_inv ?s I" "at_vnode ?s v s" "biglock ?s > 0" "inode ?s = inode sfs" "contents ?s = contents sfs"
    using inv a by (simp_all add: vfs_biglock_acquire_def)
  obtain s1 t s2 where tr: "trunc_direct SFS_NDIRECT 0 v bl ?s = Inr s1" "at_vnode s1 v t"
    "(if unat bl < SFS_NDIRECT + SFS_DBPERIDB - 1 \<and> sfi_indirect (sv_i t) \<noteq> 0 then trunc_idblock s1 v bl (sfi_indirect (sv_i t))
      else Inr (0, s1)) = Inr (0, s2)" "cleared ?s s2 I v ?i (gone_slots ?s ?i bl)" using itrunc_blocks [OF s(1,3,2)] .
  obtain w where w: "fs_inv s2 I" "biglock s2 > 0" "at_vnode s2 v w" "sv_ino w = ?i" using cleared_next [OF tr(4) s(2,3)] .
  define z :: u32 where "z = word_of_int (int len)"
  define s3 where "s3 = set_inode v (\<lambda>di. di\<lparr>sfi_size := z\<rparr>) s2"
  note ss = set_size [OF w(1,3) s3_def, unfolded w(4)] and c = clearedD [OF tr(4)]
  have b: "biglock s3 = Suc (biglock sfs)" using ss(2) c(2) by (simp add: only_vnode_def vfs_biglock_acquire_def)
  define sfs' where "sfs' = s3\<lparr>biglock := biglock sfs\<rparr>"
  have run: "sfs_itrunc sfs v (int len) = Inr (0, sfs')"
    using tr(1) tr(3) unlocked_ok [OF b] unfolding sfs_itrunc_def bl_def [symmetric] Let_def
    by (simp add: the_vnode_at [OF tr(2)] s3_def z_def sfs'_def)
  have i: "?i \<in> I" using vnodes_okD(1) [OF fs_invD(2) [OF inv] a] .
  have fb: "file_block sfs' j n = (if j = ?i \<and> trunc_gone len n then zeros else file_block sfs j n)" if "j \<in> I" "n < 143" for j n
    using ss(6) [OF that(1), of n] c(5) [OF that] gone_slots_slot [OF bl that(2), of ?s ?i] by (simp add: sfs'_def vfs_biglock_acquire_def)
  have nd: "inode sfs' j = (if j = ?i then (inode s2 j)\<lparr>sfi_size := z\<rparr> else inode s2 j)" if "j \<in> I" for j
    using ss(4) [OF that] by (simp add: sfs'_def)
  note at = bspec [OF c(3) [unfolded same_attrs_def]]
  have ab: "file_abs sfs' j = file_abs sfs j" if "j \<in> I" "j \<noteq> ?i" for j
  proof -
    have "contents sfs' j = contents sfs j" using fb [OF that(1)] that(2) by (intro contents_cong) simp
    then show ?thesis using nd [OF that(1)] at [OF that(1)] that(2) s(4) by (simp add: file_abs_def)
  qed
  have z: "unat z = len" using len by (simp add: z_def unat_of_nat)
  have all: "k \<in> gone_slots ?s ?i bl" if "len = 0" "k < 144" for k
    using that bl by (auto simp: gone_slots_def cut_slots_def past_end_def)
  have P: "ptr sfs' ?i k = 0" if "len = 0" "k < 144" for k
    using ss(5) [OF i, of k] c(4) [OF i that(2)] all [OF that] by (simp add: sfs'_def)
  have "only_vnode sfs sfs' v" using only_vnode_trans [OF c(2) ss(2)] by (simp add: only_vnode_def vfs_biglock_acquire_def sfs'_def)
  moreover have "fs_inv sfs' I" using ss(1) by (simp add: sfs'_def)
  ultimately show ?thesis using that [OF run] nd [OF i] at [OF i] z fb [OF i] ab P s(4) by simp
qed

end
