(* ===== verification/Sfs_Errors.thy ===== *)
theory Sfs_Errors
  imports Sfs_Blocks
begin

text \<open>
  Media errors of the disk and the retries of \<^verbatim>\<open>sfs_rwblock\<close>: a read is repeated, a write is not.
\<close>

lemma lhd_irq_media: "lhd_irq LHD_MEDIA = Some EIO" "LHD_MEDIA AND LHD_STATEMASK \<noteq> LHD_OK"
  by (simp_all add: lhd_irq_def lhd_code_to_errno_def LHD_OK_def LHD_IDLE_def LHD_WORKING_def LHD_STATEMASK_def LHD_MEDIA_def
      LHD_INVSECT_def Let_def)

lemma operation_media:
  assumes "statuses d = LHD_MEDIA # st"
  shows "lhd_operation v n buf d = Inr (EIO, buf, d\<lparr>statuses := st\<rparr>)"
  using assms lhd_irq_media by (simp add: lhd_operation_def Let_def)

lemma lhd_io_read_media:
  assumes "for_sector n u d" "x_rw u = UIO_READ" "statuses d = LHD_MEDIA # st"
  shows "lhd_io u d = Inr (EIO, u, d\<lparr>statuses := st\<rparr>)"
  using assms(2) by (simp add: lhd_io_one [OF assms(1)] operation_media [OF assms(3)] EIO_def)

text \<open>The data of a write leave the descriptor before the sector is written.\<close>

lemma lhd_io_write_media:
  assumes "for_sector n u d" "room 512 u" "x_rw u = UIO_WRITE" "statuses d = LHD_MEDIA # st"
  shows "lhd_io u d = Inr (EIO, moved 512 u, d\<lparr>statuses := st\<rparr>)"
proof -
  have "uiomove1 (replicate 512 0) u = Inr (0, take 512 (drop (x_pos u) (x_mem u)), moved 512 u)"
    using uiomove1_write [of "replicate 512 0" u] assms(2,3) by simp
  moreover have "x_rw (moved 512 u) = UIO_WRITE" using assms(3) by (simp add: moved_def)
  ultimately show ?thesis using assms(3) by (simp add: lhd_io_one [OF assms(1)] operation_media [OF assms(4)] EIO_def)
qed

lemma lhd_io_nothing_left:
  assumes "for_sector n u d"
  shows "lhd_io (moved 512 u) d = Inr (0, moved 512 u, d)"
proof -
  have n: "n < d_blocks d" "x_offset u = 512 * int (unat n)" "x_resid u = 512" using assms by (simp_all add: for_sector_def)
  have "x_offset (moved 512 u) = 512 * (int (unat n) + 1)" using n(2) by (simp add: moved_def)
  then have o: "x_offset (moved 512 u) div 512 = int (unat n) + 1" "x_offset (moved 512 u) mod 512 = 0" by simp_all
  have "word_of_int (int (unat n) + 1) = n + 1" by simp
  moreover have "\<not> d_blocks d < n + 1" using n(1) by (simp add: inc_le leD)
  moreover have "x_resid (moved 512 u) = 0" using n(3) by (simp add: moved_def)
  ultimately show ?thesis using o by (simp add: lhd_io_def LHD_SECTSIZE_def Let_def)
qed

section \<open>A failing disk\<close>

text \<open>The next \<open>k\<close> operations fail.\<close>

definition failing :: "nat \<Rightarrow> sfs_fs \<Rightarrow> sfs_fs" where
  "failing k sfs = sfs\<lparr>sfs_device := (sfs_device sfs)\<lparr>statuses := replicate k LHD_MEDIA\<rparr>\<rparr>"

lemma failing_simps [simp]:
  "failing k (failing m sfs) = failing k sfs" "biglock (failing k sfs) = biglock sfs"
  "sfs_device (failing k sfs) = (sfs_device sfs)\<lparr>statuses := replicate k LHD_MEDIA\<rparr>"
  "(failing k sfs)\<lparr>sfs_device := (sfs_device sfs)\<lparr>statuses := replicate m LHD_MEDIA\<rparr>\<rparr> = failing m sfs"
  by (simp_all add: failing_def)

lemma retry_step:
  "lhd_io u (sfs_device sfs) = Inr (EIO, u', d) \<Longrightarrow> rwblock_retry (Suc t) u sfs = rwblock_retry t u' (sfs\<lparr>sfs_device := d\<rparr>)"
  "lhd_io u (sfs_device sfs) = Inr (EIO, u', d) \<Longrightarrow> rwblock_retry 0 u sfs = Inr (EIO, u', sfs\<lparr>sfs_device := d\<rparr>)"
  "lhd_io u (sfs_device sfs) = Inr (0, u', d) \<Longrightarrow> rwblock_retry t u sfs = Inr (0, u', sfs\<lparr>sfs_device := d\<rparr>)"
  by (simp_all add: EIO_def EINVAL_def Let_def)

lemma retry_read:
  assumes u: "for_sector n u (sfs_device sfs)" "x_rw u = UIO_READ"
  shows "k \<le> t \<Longrightarrow> rwblock_retry t u (failing k sfs) = rwblock_retry (t - k) u (failing 0 sfs)"
    "t < k \<Longrightarrow> rwblock_retry t u (failing k sfs) = Inr (EIO, u, failing (k - Suc t) sfs)"
proof (induction t arbitrary: k)
  have io: "lhd_io u (sfs_device (failing (Suc k) sfs)) = Inr (EIO, u, (sfs_device sfs)\<lparr>statuses := replicate k LHD_MEDIA\<rparr>)" for k
    using lhd_io_read_media [of n u "sfs_device (failing (Suc k) sfs)"] u by (simp add: for_sector_def)
  {
    case 0
    case 1
    then show ?case by simp
  next
    case 0
    case 2
    then obtain m where "k = Suc m" by (cases k) auto
    then show ?case using retry_step(2) [OF io] by simp
  next
    case (Suc t)
    case 1
    then show ?case using Suc.IH(1) [of "k - 1"] retry_step(1) [OF io] by (cases k) (simp_all del: rwblock_retry.simps)
  next
    case (Suc t)
    case 2
    then obtain m where "k = Suc m" by (cases k) auto
    then show ?case using 2 Suc.IH(2) [of m] retry_step(1) [OF io] by (simp del: rwblock_retry.simps)
  }
qed

lemma failing_0: "vol_ok sfs \<Longrightarrow> failing 0 sfs = sfs"
  by (cases sfs; cases "sfs_device sfs") (simp add: failing_def vol_ok_def)

lemma read_failing:
  assumes v: "vol_ok sfs" "biglock sfs > 0" "b < nblocks sfs" "length data = 512"
  shows "sfs_readblock (failing k sfs) b data =
    (if k \<le> 10 then Inr (0, secs sfs b, sfs) else Inr (EIO, data, failing (k - 11) sfs))"
proof -
  let ?u = "uio1_kinit data (int (unat b) * 512) UIO_READ"
  have d: "statuses (sfs_device sfs) = []" "wf_disk (sfs_device sfs)" "b < d_blocks (sfs_device sfs)" using v(1,3) by (auto simp: vol_ok_def)
  have fu: "for_sector b ?u (sfs_device sfs)" "x_rw ?u = UIO_READ" using block_request(2) [OF v(4) d(3)] by (simp_all add: uio1_kinit_def)
  have io: "lhd_io ?u (sfs_device sfs) = Inr (0, (moved 512 ?u)\<lparr>x_mem := overwrite (x_mem ?u) (x_pos ?u) (secs sfs b)\<rparr>, sfs_device sfs)"
    using lhd_io_read [OF fu(1) block_request(1) [OF v(4)] fu(2) d(1,2)] .
  have ow: "overwrite (x_mem ?u) (x_pos ?u) (secs sfs b) = secs sfs b"
    using vol_ok_length [OF v(1), of b] v(4) by (simp add: uio1_kinit_def overwrite_all)
  have rb: "sfs_readblock (failing k sfs) b data = bindR (rwblock_retry 10 ?u (failing k sfs)) (\<lambda>(result, u, sfs). Inr (result, x_mem u, sfs))"
    using v(2,4) by (simp add: sfs_readblock_def SFS_BLOCKSIZE_def sfs_rwblock_def vfs_biglock_do_i_hold_def del: rwblock_retry.simps)
  show ?thesis
  proof (cases "k \<le> 10")
    case True
    then show ?thesis unfolding rb using retry_read(1) [OF fu True] retry_step(3) [OF io] ow failing_0 [OF v(1)]
      by (simp del: rwblock_retry.simps)
  next
    case False
    then have "10 < k" by simp
    then show ?thesis unfolding rb retry_read(2) [OF fu \<open>10 < k\<close>] using False by (simp add: uio1_kinit_def)
  qed
qed

lemma write_failing:
  assumes v: "vol_ok sfs" "biglock sfs > 0" "b < nblocks sfs" "length data = 512"
  shows "sfs_writeblock (failing (Suc k) sfs) b data = Inr (0, failing k sfs)"
proof -
  let ?u = "uio1_kinit data (int (unat b) * 512) UIO_WRITE" and ?d = "\<lambda>k. (sfs_device sfs)\<lparr>statuses := replicate k LHD_MEDIA\<rparr>"
  have "b < d_blocks (?d k)" for k using v(1,3) by (auto simp: vol_ok_def)
  then have fu: "for_sector b ?u (?d k)" for k by (rule block_request(2) [OF v(4)])
  have w: "x_rw ?u = UIO_WRITE" by (simp add: uio1_kinit_def)
  have "lhd_io ?u (sfs_device (failing (Suc k) sfs)) = Inr (EIO, moved 512 ?u, ?d k)"
    using lhd_io_write_media [OF fu [of "Suc k"] block_request(1) [OF v(4)] w, of "replicate k LHD_MEDIA"] by simp
  from retry_step(1) [OF this, of 9]
  have "rwblock_retry 10 ?u (failing (Suc k) sfs) = rwblock_retry 9 (moved 512 ?u) (failing k sfs)" by (simp del: rwblock_retry.simps)
  also have "\<dots> = Inr (0, moved 512 ?u, failing k sfs)"
    using retry_step(3) [of "moved 512 ?u" "failing k sfs" "moved 512 ?u" "?d k"] lhd_io_nothing_left [OF fu [of k]] by (simp del: rwblock_retry.simps)
  finally show ?thesis
    using v(2,4) by (simp add: sfs_writeblock_def SFS_BLOCKSIZE_def sfs_rwblock_def vfs_biglock_do_i_hold_def del: rwblock_retry.simps)
qed

end
