(* ===== verification/Sfs_Directory.thy ===== *)
theory Sfs_Directory
  imports Sfs_Io
begin

text \<open>
  Directories of the file system (\<^verbatim>\<open>sfs_dir.c\<close>) and the metadata transfers they rest on
  (\<^verbatim>\<open>sfs_metaio\<close>): a directory implements a finite map from names to inode numbers.
\<close>

section \<open>Metadata transfers\<close>

lemma pos_block: "word_of_int (int p div int SFS_BLOCKSIZE) = (of_nat (p div 512) :: u32)" "nat (int p mod int SFS_BLOCKSIZE) = p mod 512"
proof -
  have "int p div int SFS_BLOCKSIZE = int (p div 512)" "int p mod int SFS_BLOCKSIZE = int (p mod 512)"
    by (simp_all add: SFS_BLOCKSIZE_def zdiv_int zmod_int)
  then show "word_of_int (int p div int SFS_BLOCKSIZE) = (of_nat (p div 512) :: u32)" "nat (int p mod int SFS_BLOCKSIZE) = p mod 512"
    by (simp_all only: of_int_of_nat_eq nat_int)
qed

lemma metaio_read:
  assumes inv: "fs_inv sfs I" and l: "biglock sfs > 0" and a: "at_vnode sfs v s"
    and p: "p < MAXFILE" "p mod 512 + length data \<le> 512"
  shows "sfs_metaio sfs v (int p) data UIO_READ = Inr (0, take (length data) (drop p (contents sfs (sv_ino s))), sfs)"
proof -
  let ?n = "p div 512" and ?i = "sv_ino s" and ?b = "ptr sfs (sv_ino s) (slot_of (p div 512))"
  have n: "?n < 143" using p(1) by (simp add: MAXFILE_def)
  have i: "?i \<in> I" using vnodes_okD(1) [OF fs_invD(2) [OF inv] a] .
  have h: "vfs_biglock_do_i_hold sfs" using l by (simp add: vfs_biglock_do_i_hold_def)
  have e: "take (length data) (drop p (contents sfs ?i)) = take (length data) (drop (p mod 512) (file_block sfs ?i ?n))"
    using slice_contents [OF fs_invD(1) [OF inv] n p(2), of ?i] by simp
  note bm = bmap_lookup [OF inv l a n]
  show ?thesis
  proof (cases "?b = 0")
    case True
    then have "take (length data) (drop (p mod 512) (file_block sfs ?i ?n)) = replicate (length data) 0"
      using p(2) by (auto simp: file_block_def zeros_def SFS_BLOCKSIZE_def min_def)
    then show ?thesis using bm h True e by (simp add: sfs_metaio_def pos_block Let_def)
  next
    case False
    have "sfs_readblock sfs ?b zeros = Inr (0, file_block sfs ?i ?n, sfs)"
      using readblock_ok [OF fs_invD(1) [OF inv] l ownsD(8) [OF fs_invD(3) [OF inv] i slot_of_less(1) [OF n] False]] False
      by (simp add: file_block_def)
    then show ?thesis using bm h False e p(2) unfolding sfs_metaio_def pos_block Let_def by (simp add: SFS_BLOCKSIZE_def)
  qed
qed

lemma grow_file:
  assumes w: "wrote sfs s1 I v ino p ds" and i: "ino \<in> I" and t: "at_vnode s1 v t" "sv_ino t = ino" and ds: "ds \<noteq> []" "p + length ds \<le> MAXFILE"
    and e: "sfs' = (if p + length ds > unat (sfi_size (sv_i t))
      then set_inode v (\<lambda>di. di\<lparr>sfi_size := of_nat (p + length ds)\<rparr>) s1 else s1)"
  shows "file_written sfs sfs' I ino p ds" "only_vnode s1 sfs' v"
proof -
  have inv: "fs_inv s1 I" and at: "same_attrs sfs s1 I" "contents s1 ino = overwrite (contents sfs ino) p ds"
    "\<forall>j \<in> I. j \<noteq> ino \<longrightarrow> contents s1 j = contents sfs j" using w by (simp_all add: wrote_def)
  note sa = bspec [OF at(1) [unfolded same_attrs_def]]
  have nt: "inode s1 ino = sv_i t" using inode_at [OF fs_invD(2) [OF inv] t(1)] t(2) by simp
  have "file_written sfs sfs' I ino p ds \<and> only_vnode s1 sfs' v"
  proof (cases "p + length ds > unat (sfi_size (sv_i t))")
    case False
    then have "max (unat (sfi_size (inode sfs ino))) (p + length ds) = unat (sfi_size (inode sfs ino))" using sa [OF i] nt by simp
    then show ?thesis using False e inv at sa [OF i] sa ds(1) t(1) only_vnode_refl [of s1 v t]
      by (auto simp: file_written_def at_vnode_def)
  next
    case True
    define z :: u32 where "z = of_nat (p + length ds)"
    have z: "unat z = p + length ds" unfolding z_def using ds(2) by (intro unat_block) (simp add: MAXFILE_def)
    have e': "sfs' = set_inode v (\<lambda>di. di\<lparr>sfi_size := z\<rparr>) s1" using True e unfolding z_def by (simp only: if_True)
    note ss = set_size [OF inv t(1) e', unfolded t(2)]
    have "max (unat (sfi_size (inode sfs ino))) (p + length ds) = p + length ds" using True sa [OF i] nt by simp
    then show ?thesis unfolding file_written_def
      using ss(1,2) ss(3,4) [OF i] at(2,3) sa [OF i] z ds(1) ss(3,4) sa by auto
  qed
  then show "file_written sfs sfs' I ino p ds" "only_vnode s1 sfs' v" by simp_all
qed

lemma metaio_write:
  assumes inv: "fs_inv sfs I" and l: "biglock sfs > 0" and a: "at_vnode sfs v s"
    and p: "p < MAXFILE" "p mod 512 + length data \<le> 512" "data \<noteq> []"
  obtains (full) sfs' where "kept sfs sfs' I v" "sfs_metaio sfs v (int p) data UIO_WRITE = Inr (ENOSPC, data, sfs')" "full sfs'"
  | (ok) sfs' where "file_written sfs sfs' I (sv_ino s) p data" "only_vnode sfs sfs' v"
      "sfs_metaio sfs v (int p) data UIO_WRITE = Inr (0, data, sfs')"
proof -
  let ?n = "p div 512" and ?i = "sv_ino s"
  have n: "?n < 143" using p(1) by (simp add: MAXFILE_def)
  have i: "?i \<in> I" using vnodes_okD(1) [OF fs_invD(2) [OF inv] a] .
  have h: "vfs_biglock_do_i_hold sfs" using l by (simp add: vfs_biglock_do_i_hold_def)
  show ?thesis
  proof (rule bmap_alloc [OF inv l a n])
    fix s1 assume "kept sfs s1 I v" "sfs_bmap sfs v (of_nat ?n) True = Inr (ENOSPC, 0, s1)" "full s1"
    then show ?thesis using full [of s1] h by (simp add: sfs_metaio_def pos_block ENOSPC_def)
  next
    fix s1
    let ?b = "ptr s1 ?i (slot_of ?n)"
    assume k: "kept sfs s1 I v" and b: "?b \<noteq> 0" and m: "sfs_bmap sfs v (of_nat ?n) True = Inr (0, ?b, s1)"
    have inv1: "fs_inv s1 I" and l1: "biglock s1 > 0" using k l by (simp_all add: kept_def only_vnode_def)
    have bn: "?b < nblocks s1" using ownsD(8) [OF fs_invD(3) [OF inv1] i slot_of_less(1) [OF n] b] .
    have lfb: "length (file_block s1 ?i ?n) = 512" by (rule length_file_block [OF fs_invD(1) [OF inv1]])
    have r: "sfs_readblock s1 ?b zeros = Inr (0, file_block s1 ?i ?n, s1)"
      using readblock_ok [OF fs_invD(1) [OF inv1] l1 bn] b by (simp add: file_block_def)
    let ?s2 = "wsec ?b (overwrite (file_block s1 ?i ?n) (p mod 512) data) s1"
    have "length (overwrite (file_block s1 ?i ?n) (p mod 512) data) = 512" using lfb p(2) by simp
    then have wb: "sfs_writeblock s1 ?b (overwrite (file_block s1 ?i ?n) (p mod 512) data) = Inr (0, ?s2)"
      by (rule writeblock_ok [OF fs_invD(1) [OF inv1] l1 bn])
    have w: "wrote sfs ?s2 I v ?i p data" using wrote_step [OF inv i k n _ b, of "p mod 512" data] p(2) by simp
    obtain t where t: "at_vnode ?s2 v t" "sv_ino t = ?i" using wrote_next [OF w a l] by blast
    define sfs' where "sfs' = (if p + length data > unat (sfi_size (sv_i t))
      then set_inode v (\<lambda>di. di\<lparr>sfi_size := of_nat (p + length data)\<rparr>) ?s2 else ?s2)"
    have "?n * 512 + p mod 512 = p" by simp
    then have "p + length data \<le> MAXFILE" using n p(2) unfolding MAXFILE_def by linarith
    note g = grow_file [OF w i t p(3) this sfs'_def]
    have c: "int p + int (length data) > int (unat (sfi_size (sv_i t))) \<longleftrightarrow> p + length data > unat (sfi_size (sv_i t))" by linarith
    have "sfs_metaio sfs v (int p) data UIO_WRITE = Inr (0, data, sfs')"
      using h m b r wb p(2) the_vnode_at [OF t(1)] c unfolding sfs'_def sfs_metaio_def pos_block Let_def
      by (simp add: SFS_BLOCKSIZE_def)
    then show ?thesis using ok g only_vnode_trans [OF wrote_inv(2) [OF w] g(2)] by blast
  qed
qed

section \<open>Directories as lists of entries\<close>

definition entry_at :: "byte list \<Rightarrow> nat \<Rightarrow> sfs_direntry" where
  "entry_at bs k = direntry_of (take 64 (drop (64 * k) bs))"

definition entries :: "sfs_fs \<Rightarrow> u32 \<Rightarrow> sfs_direntry list" where
  "entries sfs ino = map (entry_at (contents sfs ino)) [0..<unat (sfi_size (inode sfs ino)) div 64]"

definition entry_name :: "sfs_direntry \<Rightarrow> byte list" where
  "entry_name sd = string_of ((sfd_name sd)[SFS_NAMELEN - 1 := 0])"

text \<open>The slot \<open>k\<close> holds the name; the slot is free.\<close>

definition hit :: "sfs_direntry list \<Rightarrow> byte list \<Rightarrow> nat \<Rightarrow> bool" where
  "hit es name k \<longleftrightarrow> sfd_ino (es ! k) \<noteq> 0 \<and> entry_name (es ! k) = name"

definition free_slot :: "sfs_direntry list \<Rightarrow> nat \<Rightarrow> bool" where
  "free_slot es k \<longleftrightarrow> sfd_ino (es ! k) = 0"

definition names_unique :: "sfs_direntry list \<Rightarrow> bool" where
  "names_unique es \<longleftrightarrow> (\<forall>name i j. i < length es \<and> j < length es \<and> hit es name i \<and> hit es name j \<longrightarrow> i = j)"

definition dir_ok :: "sfs_fs \<Rightarrow> u32 \<Rightarrow> bool" where
  "dir_ok sfs ino \<longleftrightarrow> sfi_type (inode sfs ino) = SFS_TYPE_DIR \<and> unat (sfi_size (inode sfs ino)) mod 64 = 0 \<and>
     unat (sfi_size (inode sfs ino)) \<le> MAXFILE \<and> names_unique (entries sfs ino)"

lemma length_entries: "length (entries sfs ino) = unat (sfi_size (inode sfs ino)) div 64"
  by (simp add: entries_def)

lemma slot_pos_eq: "k < 2 ^ 26 \<Longrightarrow> slot_pos k = int (64 * k)"
  by (simp add: slot_pos_def SIZEOF_DIRENTRY_def unat_word_ariths unat_of_nat)

lemma slot_in_block: "64 * k mod 512 + 64 \<le> (512 :: nat)"
proof -
  have "64 * k mod 512 = 64 * (k mod 8)" using mult_mod_right [of 64 k 8] by simp
  then show ?thesis by simp
qed

lemma readdir_ok:
  assumes inv: "fs_inv sfs I" and l: "biglock sfs > 0" and a: "at_vnode sfs v s" and k: "k < 1144"
  shows "sfs_readdir sfs v k = Inr (0, entry_at (contents sfs (sv_ino s)) k, sfs)"
proof -
  have "64 * k < MAXFILE" using k by (simp add: MAXFILE_def)
  from metaio_read [OF inv l a this, of "replicate 64 0"] show ?thesis
    using slot_in_block [of k] slot_pos_eq [of k] k by (simp add: sfs_readdir_def SIZEOF_DIRENTRY_def entry_at_def)
qed

lemma nentries_ok:
  assumes "dir_ok sfs (sv_ino s)" "vnodes_ok sfs I" "at_vnode sfs v s"
  shows "sfs_dir_nentries sfs v = Inr (length (entries sfs (sv_ino s)))"
  using assms inode_at [OF assms(2,3)] by (simp add: sfs_dir_nentries_def the_vnode_at [OF assms(3)] dir_ok_def length_entries SIZEOF_DIRENTRY_def Let_def)

section \<open>Lookup\<close>

text \<open>The result of the search from slot \<open>i\<close> on, after \<open>found\<close> and the free slot \<open>e\<close>.\<close>

definition found_from :: "sfs_direntry list \<Rightarrow> byte list \<Rightarrow> nat \<Rightarrow> (u32 \<times> nat) option \<Rightarrow> (u32 \<times> nat) option" where
  "found_from es name i found = (case found of Some r \<Rightarrow> Some r
     | None \<Rightarrow> map_option (\<lambda>k. (sfd_ino (es ! k), k)) (find (hit es name) [i..<length es]))"

definition free_from :: "sfs_direntry list \<Rightarrow> nat \<Rightarrow> nat option \<Rightarrow> nat option" where
  "free_from es i e = (case find (free_slot es) (rev [i..<length es]) of Some k \<Rightarrow> Some k | None \<Rightarrow> e)"

lemma find_append: "find P (xs @ ys) = (case find P xs of None \<Rightarrow> find P ys | Some x \<Rightarrow> Some x)"
  by (induction xs) auto

lemma found_from_step:
  assumes "i < length es"
  shows "\<not> hit es name i \<Longrightarrow> found_from es name (Suc i) found = found_from es name i found"
    "hit es name i \<Longrightarrow> found_from es name (Suc i) (Some (sfd_ino (es ! i), i)) = found_from es name i None"
  using upt_conv_Cons [OF assms] by (simp_all add: found_from_def split: option.splits)

lemma free_from_step:
  assumes "i < length es"
  shows "free_slot es i \<Longrightarrow> free_from es (Suc i) (Some i) = free_from es i e" "\<not> free_slot es i \<Longrightarrow> free_from es (Suc i) e = free_from es i e"
  using upt_conv_Cons [OF assms] by (simp_all add: free_from_def find_append split: option.splits)

lemma from_end: "found_from es name (length es) found = found" "free_from es (length es) e = e"
  by (simp_all add: found_from_def free_from_def split: option.splits)

lemma findname_loop_ok:
  assumes inv: "fs_inv sfs I" and l: "biglock sfs > 0" and a: "at_vnode sfs v s"
    and es: "es = entries sfs (sv_ino s)" "length es \<le> 1144" "names_unique es"
  shows "i + n = length es \<Longrightarrow> found \<noteq> None \<longrightarrow> (\<exists>j < i. hit es name j) \<Longrightarrow>
    findname_loop n i v name found e sfs =
      Inr (if found_from es name i found \<noteq> None then 0 else ENOENT, found_from es name i found, free_from es i e, sfs)"
proof (induction n arbitrary: i found e)
  case 0
  then have "i = length es" by simp
  then show ?case by (simp add: from_end)
next
  case (Suc n)
  have i: "i < length es" "i < 1144" "Suc i + n = length es" using Suc.prems(1) es(2) by simp_all
  have r: "sfs_readdir sfs v i = Inr (0, es ! i, sfs)"
    using readdir_ok [OF inv l a i(2)] i(1) by (simp add: es(1) entries_def)
  have nx: "found \<noteq> None \<longrightarrow> (\<exists>j < Suc i. hit es name j)" using Suc.prems(2) less_SucI by blast
  consider (free) "free_slot es i" "\<not> hit es name i" | (hit) "\<not> free_slot es i" "hit es name i" | (other) "\<not> free_slot es i" "\<not> hit es name i"
    by (auto simp: hit_def free_slot_def)
  then show ?case
  proof cases
    case free
    have "findname_loop (Suc n) i v name found e sfs = findname_loop n (Suc i) v name found (Some i) sfs"
      using free r by (simp add: free_slot_def SFS_NOINO_def)
    then show ?thesis unfolding Suc.IH [OF i(3) nx] found_from_step(1) [OF i(1) free(2)] free_from_step(1) [OF i(1) free(1), of e] .
  next
    case hit
    have "j = i" if "j < i" "hit es name j" for j using es(3) hit(2) i(1) that order_less_trans [OF that(1) i(1)] unfolding names_unique_def by blast
    then have nf: "found = None" using Suc.prems(2) by (cases found) auto
    have nx': "Some (sfd_ino (es ! i), i) \<noteq> None \<longrightarrow> (\<exists>j < Suc i. hit es name j)" using hit(2) by blast
    have "findname_loop (Suc n) i v name found e sfs = findname_loop n (Suc i) v name (Some (sfd_ino (es ! i), i)) e sfs"
      using hit r nf by (simp add: free_slot_def hit_def entry_name_def SFS_NOINO_def)
    then show ?thesis unfolding nf Suc.IH [OF i(3) nx'] found_from_step(2) [OF i(1) hit(2)] free_from_step(2) [OF i(1) hit(1)] .
  next
    case other
    then have "findname_loop (Suc n) i v name found e sfs = findname_loop n (Suc i) v name found e sfs"
      using r by (auto simp: free_slot_def hit_def entry_name_def SFS_NOINO_def)
    then show ?thesis unfolding Suc.IH [OF i(3) nx] found_from_step(1) [OF i(1) other(2)] free_from_step(2) [OF i(1) other(1)] .
  qed
qed

text \<open>The map that a directory stands for.\<close>

definition dir_map :: "sfs_direntry list \<Rightarrow> byte list \<Rightarrow> u32 option" where
  "dir_map es name = map_option fst (found_from es name 0 None)"

lemma dir_map_eq:
  assumes "names_unique es"
  shows "dir_map es name = Some ino \<longleftrightarrow> (\<exists>k < length es. hit es name k \<and> sfd_ino (es ! k) = ino)"
    "dir_map es name = None \<longleftrightarrow> (\<forall>k < length es. \<not> hit es name k)"
    "k < length es \<Longrightarrow> hit es name k \<Longrightarrow> found_from es name 0 None = Some (sfd_ino (es ! k), k)"
proof -
  have none: "found_from es name 0 None = None \<longleftrightarrow> (\<forall>k < length es. \<not> hit es name k)"
    by (auto simp: found_from_def find_None_iff)
  show hits: "found_from es name 0 None = Some (sfd_ino (es ! k), k)" if k: "k < length es" "hit es name k" for k
  proof -
    obtain m where m: "find (hit es name) [0..<length es] = Some m" using k none by (auto simp: found_from_def)
    then have "hit es name m" "m < length es" by (auto simp: find_Some_iff)
    then have "m = k" using assms k unfolding names_unique_def by blast
    then show ?thesis using m by (simp add: found_from_def)
  qed
  show "dir_map es name = None \<longleftrightarrow> (\<forall>k < length es. \<not> hit es name k)" using none by (simp add: dir_map_def)
  show "dir_map es name = Some ino \<longleftrightarrow> (\<exists>k < length es. hit es name k \<and> sfd_ino (es ! k) = ino)"
  proof
    assume "dir_map es name = Some ino"
    then obtain k where "found_from es name 0 None = Some (ino, k)" by (auto simp: dir_map_def)
    then show "\<exists>k < length es. hit es name k \<and> sfd_ino (es ! k) = ino" by (auto simp: found_from_def find_Some_iff)
  next
    assume "\<exists>k < length es. hit es name k \<and> sfd_ino (es ! k) = ino"
    then show "dir_map es name = Some ino" using hits by (auto simp: dir_map_def)
  qed
qed

lemma findname_ok:
  assumes inv: "fs_inv sfs I" and l: "biglock sfs > 0" and a: "at_vnode sfs v s" and d: "dir_ok sfs (sv_ino s)"
    and es: "es = entries sfs (sv_ino s)"
  shows "sfs_dir_findname sfs v name =
    Inr (if dir_map es name \<noteq> None then 0 else ENOENT, found_from es name 0 None, free_from es 0 None, sfs)"
proof -
  have n: "length es \<le> 1144" using d div_le_mono [of "unat (sfi_size (inode sfs (sv_ino s)))" MAXFILE 64]
    by (simp add: es length_entries dir_ok_def MAXFILE_def)
  have u: "names_unique es" using d es by (simp add: dir_ok_def)
  show ?thesis
    using findname_loop_ok [OF inv l a es n u, of 0 "length es" None name None] nentries_ok [OF d fs_invD(2) [OF inv] a] es
    by (simp add: sfs_dir_findname_def dir_map_def)
qed

section \<open>Writing entries\<close>

lemma entry_overwrite:
  assumes "length c = MAXFILE" "length bs = 64" "e < 1144" "k < 1144"
  shows "entry_at (overwrite c (64 * e) bs) k = (if k = e then direntry_of bs else entry_at c k)"
proof -
  have l: "64 * e + 64 \<le> MAXFILE" "64 * k + 64 \<le> MAXFILE" using assms(3,4) by (simp_all add: MAXFILE_def)
  have "take 64 (drop (64 * k) (overwrite c (64 * e) bs)) = (if k = e then bs else take 64 (drop (64 * k) c))" (is "?a = ?b")
  proof (rule nth_equalityI)
    show "length ?a = length ?b" using assms(1,2) l by simp
    fix i assume "i < length ?a"
    then have i: "i < 64" by simp
    have "64 * e \<le> 64 * k + i \<and> 64 * k + i < 64 * e + 64 \<longleftrightarrow> k = e" using i by auto
    then show "?a ! i = ?b ! i" using nth_overwrite [of "64 * e" bs c "64 * k + i"] assms(1,2) l i by auto
  qed
  then show ?thesis by (simp add: entry_at_def)
qed

definition dir_put :: "sfs_direntry list \<Rightarrow> nat \<Rightarrow> sfs_direntry \<Rightarrow> sfs_direntry list" where
  "dir_put es k sd = (if k < length es then es[k := sd] else es @ [sd])"

lemma entries_written:
  assumes w: "file_written sfs sfs' I ino (64 * k) (direntry_bytes sd)" and v: "vol_ok sfs" and d: "dir_ok sfs ino"
    and k: "k \<le> length (entries sfs ino)" "k < 1144" "length (sfd_name sd) = 60"
  shows "entries sfs' ino = dir_put (entries sfs ino) k sd"
    "dir_ok sfs' ino \<longleftrightarrow> names_unique (entries sfs' ino)"
proof -
  define n where "n = length (entries sfs ino)"
  have sz: "unat (sfi_size (inode sfs ino)) = 64 * n" using d by (auto simp: dir_ok_def n_def length_entries)
  have len: "length (direntry_bytes sd) = 64" using k(3) by (simp add: length_direntry_bytes)
  then have ne: "direntry_bytes sd \<noteq> []" by auto
  have mx: "max (64 * n) (64 * k + 64) = 64 * max n (Suc k)" by (simp add: max_def)
  have c: "contents sfs' ino = overwrite (contents sfs ino) (64 * k) (direntry_bytes sd)"
    and sz': "unat (sfi_size (inode sfs' ino)) = 64 * max n (Suc k)" and ty: "sfi_type (inode sfs' ino) = sfi_type (inode sfs ino)"
    using w sz len ne mx by (simp_all add: file_written_def)
  have n: "n \<le> 1144" using d sz by (simp add: dir_ok_def MAXFILE_def)
  have E: "entries sfs ino = map (entry_at (contents sfs ino)) [0..<n]" using sz by (simp add: entries_def)
  have E': "entries sfs' ino = map (\<lambda>j. if j = k then sd else entry_at (contents sfs ino) j) [0..<max n (Suc k)]"
  proof -
    have "entries sfs' ino = map (entry_at (contents sfs' ino)) [0..<max n (Suc k)]" using sz' by (simp add: entries_def)
    also have "\<dots> = map (\<lambda>j. if j = k then sd else entry_at (contents sfs ino) j) [0..<max n (Suc k)]"
      using entry_overwrite [OF length_contents [OF v, of ino] len k(2)] n k(2) by (intro map_cong [OF refl]) (auto simp: c direntry_roundtrip)
    finally show ?thesis .
  qed
  show "entries sfs' ino = dir_put (entries sfs ino) k sd"
  proof (cases "k < n")
    case True
    then have "max n (Suc k) = n" by simp
    then show ?thesis unfolding E' dir_put_def E using True by (intro nth_equalityI) (simp_all add: nth_list_update)
  next
    case False
    then have "k = n" using k(1) by (simp add: n_def)
    then show ?thesis unfolding E' dir_put_def E by simp
  qed
  show "dir_ok sfs' ino \<longleftrightarrow> names_unique (entries sfs' ino)"
    using d ty sz' n k(2) by (simp add: dir_ok_def MAXFILE_def max_def)
qed

lemma writedir_ok:
  assumes inv: "fs_inv sfs I" and l: "biglock sfs > 0" and a: "at_vnode sfs v s" and d: "dir_ok sfs (sv_ino s)"
    and k: "k \<le> length (entries sfs (sv_ino s))" "k < 1144" "length (sfd_name sd) = 60"
  obtains (full) sfs' where "kept sfs sfs' I v" "sfs_writedir sfs v k sd = Inr (ENOSPC, sfs')" "full sfs'"
  | (ok) sfs' where "file_written sfs sfs' I (sv_ino s) (64 * k) (direntry_bytes sd)" "only_vnode sfs sfs' v"
      "sfs_writedir sfs v k sd = Inr (0, sfs')" "entries sfs' (sv_ino s) = dir_put (entries sfs (sv_ino s)) k sd"
      "dir_ok sfs' (sv_ino s) \<longleftrightarrow> names_unique (entries sfs' (sv_ino s))"
proof -
  have p: "64 * k < MAXFILE" using k(2) by (simp add: MAXFILE_def)
  have len: "length (direntry_bytes sd) = 64" using k(3) by (simp add: length_direntry_bytes)
  have m: "64 * k mod 512 + length (direntry_bytes sd) \<le> 512" "direntry_bytes sd \<noteq> []" using len slot_in_block [of k] by auto
  have sp: "slot_pos k = int (64 * k)" using slot_pos_eq [of k] k(2) by simp
  show ?thesis
  proof (rule metaio_write [OF inv l a p m])
    fix s1 assume "kept sfs s1 I v" "sfs_metaio sfs v (int (64 * k)) (direntry_bytes sd) UIO_WRITE = Inr (ENOSPC, direntry_bytes sd, s1)" "full s1"
    then show ?thesis by (intro full [of s1]) (simp_all only: sfs_writedir_def sp bindR_Inr prod.case)
  next
    fix s1 assume w: "file_written sfs s1 I (sv_ino s) (64 * k) (direntry_bytes sd)" "only_vnode sfs s1 v"
      "sfs_metaio sfs v (int (64 * k)) (direntry_bytes sd) UIO_WRITE = Inr (0, direntry_bytes sd, s1)"
    have "sfs_writedir sfs v k sd = Inr (0, s1)" using w(3) by (simp only: sfs_writedir_def sp bindR_Inr prod.case)
    then show ?thesis using ok [OF w(1,2)] entries_written [OF w(1) fs_invD(1) [OF inv] d k] by blast
  qed
qed

section \<open>Linking and unlinking\<close>

lemma map_of_hits:
  assumes u: "names_unique es'"
    and h: "\<And>n i. (\<exists>k < length es'. hit es' n k \<and> sfd_ino (es' ! k) = i) \<longleftrightarrow> m n = Some i"
  shows "dir_map es' = m"
  using dir_map_eq(1) [OF u] h by (intro ext) (metis option.exhaust)

lemma hit_put:
  assumes "k \<le> length es" "j < length (dir_put es k sd)"
  shows "hit (dir_put es k sd) n j \<longleftrightarrow> (if j = k then sfd_ino sd \<noteq> 0 \<and> entry_name sd = n else j < length es \<and> hit es n j)"
  using assms by (auto simp: hit_def dir_put_def nth_append nth_list_update split: if_splits)

lemma put_link:
  assumes u: "names_unique es" and k: "k \<le> length es" "k < length es \<Longrightarrow> free_slot es k" and n: "dir_map es name = None"
    and sd: "sfd_ino sd \<noteq> 0" "entry_name sd = name"
  shows "names_unique (dir_put es k sd)" "dir_map (dir_put es k sd) = (dir_map es)(name \<mapsto> sfd_ino sd)"
proof -
  let ?es = "dir_put es k sd"
  have nh: "\<not> hit es name j" if "j < length es" for j using dir_map_eq(2) [OF u, THEN iffD1, OF n] that by simp
  have nk: "\<not> hit es m k" if "k < length es" for m using k(2) [OF that] by (simp add: hit_def free_slot_def)
  have kl: "k < length ?es" "\<And>j. j < length es \<Longrightarrow> j < length ?es" using k(1) by (auto simp: dir_put_def)
  have ino: "sfd_ino (?es ! k) = sfd_ino sd" "\<And>j. j \<noteq> k \<Longrightarrow> j < length es \<Longrightarrow> ?es ! j = es ! j"
    using k(1) by (auto simp: dir_put_def nth_append)
  note hp = hit_put [OF k(1)]
  show u': "names_unique ?es" unfolding names_unique_def
  proof (intro allI impI)
    fix m i j assume a: "i < length ?es \<and> j < length ?es \<and> hit ?es m i \<and> hit ?es m j"
    then show "i = j" using hp [of i sd m] hp [of j sd m] sd(2) nh u unfolding names_unique_def by metis
  qed
  show "dir_map ?es = (dir_map es)(name \<mapsto> sfd_ino sd)"
  proof (rule map_of_hits [OF u'])
    fix m i
    show "(\<exists>j < length ?es. hit ?es m j \<and> sfd_ino (?es ! j) = i) \<longleftrightarrow> ((dir_map es)(name \<mapsto> sfd_ino sd)) m = Some i"
    proof (cases "m = name")
      case True
      have "hit ?es m j \<longleftrightarrow> j = k" if "j < length ?es" for j using hp [OF that, of m] nh sd True by metis
      then show ?thesis using True kl(1) ino(1) by auto
    next
      case False
      have h: "hit ?es m j \<longleftrightarrow> j \<noteq> k \<and> j < length es \<and> hit es m j" if "j < length ?es" for j using hp [OF that, of m] False sd(2) by metis
      have "(\<exists>j < length ?es. hit ?es m j \<and> sfd_ino (?es ! j) = i) \<longleftrightarrow> (\<exists>j < length es. hit es m j \<and> sfd_ino (es ! j) = i)"
        using h ino(2) kl(2) nk by metis
      then show ?thesis using False dir_map_eq(1) [OF u] by simp
    qed
  qed
qed

lemma put_unlink:
  assumes u: "names_unique es" and k: "k < length es" "hit es name k" and sd: "sfd_ino sd = 0"
  shows "names_unique (dir_put es k sd)" "dir_map (dir_put es k sd) = (dir_map es)(name := None)"
proof -
  let ?es = "dir_put es k sd"
  have l: "length ?es = length es" "\<And>j. j \<noteq> k \<Longrightarrow> ?es ! j = es ! j" using k(1) by (simp_all add: dir_put_def)
  have h: "hit ?es m j \<longleftrightarrow> j \<noteq> k \<and> hit es m j" if "j < length es" for m j
    using hit_put [of k es j sd m] that k(1) sd l(1) by auto
  show u': "names_unique ?es" using u h unfolding names_unique_def l(1) by blast
  show "dir_map ?es = (dir_map es)(name := None)"
  proof (rule map_of_hits [OF u'])
    fix m i
    have "hit es m j \<Longrightarrow> j < length es \<Longrightarrow> j \<noteq> k \<longleftrightarrow> m \<noteq> name" for j using u k unfolding names_unique_def hit_def by metis
    then have "(\<exists>j < length ?es. hit ?es m j \<and> sfd_ino (?es ! j) = i) \<longleftrightarrow> m \<noteq> name \<and> (\<exists>j < length es. hit es m j \<and> sfd_ino (es ! j) = i)"
      using h l by metis
    then show "(\<exists>j < length ?es. hit ?es m j \<and> sfd_ino (?es ! j) = i) \<longleftrightarrow> ((dir_map es)(name := None)) m = Some i"
      using dir_map_eq(1) [OF u] by simp
  qed
qed

text \<open>A name as a C string that fits in an entry.\<close>

definition good_name :: "byte list \<Rightarrow> bool" where
  "good_name name \<longleftrightarrow> 0 \<notin> set name \<and> length name < 60"

lemma stored_name:
  assumes "good_name name"
  shows "length (overwrite (replicate SFS_NAMELEN 0) 0 (name @ [0])) = 60"
    "entry_name \<lparr>sfd_ino = ino, sfd_name = overwrite (replicate SFS_NAMELEN 0) 0 (name @ [0])\<rparr> = name"
proof -
  let ?f = "overwrite (replicate SFS_NAMELEN 0) 0 (name @ [0])"
  obtain m where m: "60 = length name + Suc m" using assms less_iff_Suc_add [of "length name" 60] by (auto simp: good_name_def)
  have f: "?f = name @ replicate (Suc m) 0" using m by (simp add: overwrite_def SFS_NAMELEN_def)
  then show "length ?f = 60" using m by simp
  have i: "59 = length name + m" "59 < length ?f" using m f by simp_all
  have "?f ! 59 = 0" unfolding f i(1) nth_append_length_plus by (simp del: replicate.simps)
  then have "?f[59 := 0] = ?f" using i(2) by (simp add: list_update_same_conv)
  then have "entry_name \<lparr>sfd_ino = ino, sfd_name = ?f\<rparr> = takeWhile (\<lambda>b. b \<noteq> 0) ?f" by (simp add: entry_name_def SFS_NAMELEN_def string_of_def)
  also have "\<dots> = name" unfolding f using assms by (subst takeWhile_append2) (auto simp: good_name_def)
  finally show "entry_name \<lparr>sfd_ino = ino, sfd_name = ?f\<rparr> = name" .
qed

lemma find_SomeD: "find P xs = Some x \<Longrightarrow> x \<in> set xs \<and> P x"
  by (induction xs) (auto split: if_splits)

lemma free_from_free:
  assumes "free_from es 0 None = Some k"
  shows "k < length es" "free_slot es k"
  using assms find_SomeD [of "free_slot es" "rev [0..<length es]"] by (auto simp: free_from_def split: option.splits)

lemma writedir_too_big:
  assumes "biglock sfs > 0"
  shows "sfs_writedir sfs v 1144 sd = Inr (EFBIG, sfs)"
proof -
  have sp: "slot_pos 1144 = int 73216" using slot_pos_eq [of 1144] by simp
  have "sfs_bmap sfs v (of_nat (73216 div 512)) True = Inr (EFBIG, 0, sfs)" using bmap_too_big [OF assms, of "73216 div 512"] by simp
  then show ?thesis unfolding sfs_writedir_def sfs_metaio_def sp pos_block Let_def
    using assms by (simp add: vfs_biglock_do_i_hold_def EFBIG_def)
qed

text \<open>The outcome of an update of a directory: the map has changed to \<open>m\<close>, or an error without a change.\<close>

definition dir_outcome :: "sfs_fs \<Rightarrow> u32 set \<Rightarrow> nat \<Rightarrow> u32 \<Rightarrow> (byte list \<Rightarrow> u32 option) \<Rightarrow> int \<Rightarrow> sfs_fs \<Rightarrow> bool" where
  "dir_outcome sfs I v ino m r sfs' \<longleftrightarrow> fs_inv sfs' I \<and> only_vnode sfs sfs' v \<and> dir_ok sfs' ino \<and>
     (\<forall>j \<in> I. j \<noteq> ino \<longrightarrow> file_abs sfs' j = file_abs sfs j) \<and>
     (if r = 0 then dir_map (entries sfs' ino) = m
      else dir_map (entries sfs' ino) = dir_map (entries sfs ino) \<and> (r = ENOSPC \<and> full sfs' \<or> r = EFBIG))"

lemma kept_outcome:
  assumes k: "kept sfs sfs' I v" and "full sfs'" "ino \<in> I" "dir_ok sfs ino"
  shows "dir_outcome sfs I v ino m ENOSPC sfs'"
proof -
  have sf: "same_files sfs sfs' I" using k by (simp add: kept_def)
  have c: "contents sfs' j = contents sfs j" "sfi_size (inode sfs' j) = sfi_size (inode sfs j)" "sfi_type (inode sfs' j) = sfi_type (inode sfs j)"
    if "j \<in> I" for j using same_files_contents [OF sf that] bspec [OF same_files_attrs [OF sf, unfolded same_attrs_def] that] by simp_all
  have "entries sfs' ino = entries sfs ino" using c [OF assms(3)] by (simp add: entries_def)
  then show ?thesis using assms c k by (simp add: dir_outcome_def kept_def dir_ok_def file_abs_def ENOSPC_def)
qed

lemma written_outcome:
  assumes w: "file_written sfs sfs' I ino p ds" "only_vnode sfs sfs' v" and e: "dir_ok sfs' ino" "dir_map (entries sfs' ino) = m"
  shows "dir_outcome sfs I v ino m 0 sfs'"
  using assms by (auto simp: dir_outcome_def file_written_def file_abs_def)

lemma link_ok:
  assumes inv: "fs_inv sfs I" and l: "biglock sfs > 0" and a: "at_vnode sfs v s" and d: "dir_ok sfs (sv_ino s)"
    and es: "es = entries sfs (sv_ino s)" and n: "good_name name" "ino \<noteq> 0" "dir_map es name = None"
  obtains r k sfs' where "sfs_dir_link sfs v name ino = Inr (r, k, sfs')"
    "dir_outcome sfs I v (sv_ino s) ((dir_map es)(name \<mapsto> ino)) r sfs'"
proof -
  let ?sd = "\<lparr>sfd_ino = ino, sfd_name = overwrite (replicate SFS_NAMELEN 0) 0 (name @ [0])\<rparr>"
  define k where "k = (case free_from es 0 None of None \<Rightarrow> length es | Some e \<Rightarrow> e)"
  have i: "sv_ino s \<in> I" using vnodes_okD(1) [OF fs_invD(2) [OF inv] a] .
  have u: "names_unique es" and le: "length es \<le> 1144"
    using d div_le_mono [of "unat (sfi_size (inode sfs (sv_ino s)))" MAXFILE 64] by (simp_all add: dir_ok_def es length_entries MAXFILE_def)
  have k: "k \<le> length es" "k < length es \<Longrightarrow> free_slot es k" using free_from_free [of es] by (auto simp: k_def split: option.splits)
  have slot: "(case free_from es 0 None of None \<Rightarrow> sfs_dir_nentries sfs v | Some e \<Rightarrow> Inr e) = Inr k"
    using nentries_ok [OF d fs_invD(2) [OF inv] a] by (simp add: k_def es split: option.splits)
  have run: "sfs_dir_link sfs v name ino = bindR (sfs_writedir sfs v k ?sd) (\<lambda>(result, sfs). Inr (result, k, sfs))"
    using findname_ok [OF inv l a d es, of name] n slot by (simp add: sfs_dir_link_def good_name_def SFS_NAMELEN_def ENOENT_def)
  show ?thesis
  proof (cases "k < 1144")
    case False
    then have "k = 1144" using k(1) le by simp
    moreover have "dir_outcome sfs I v (sv_ino s) ((dir_map es)(name \<mapsto> ino)) EFBIG sfs"
      using inv d a by (auto simp: dir_outcome_def EFBIG_def at_vnode_def intro: only_vnode_refl)
    ultimately show ?thesis using that run writedir_too_big [OF l] by simp
  next
    case True
    have ln: "length (sfd_name ?sd) = 60" and en: "sfd_ino ?sd \<noteq> 0" "entry_name ?sd = name" using stored_name [OF n(1)] n(2) by simp_all
    note p = put_link [OF u k n(3) en]
    show ?thesis
    proof (rule writedir_ok [OF inv l a d k(1) [unfolded es] True ln])
      fix s1 assume "kept sfs s1 I v" "sfs_writedir sfs v k ?sd = Inr (ENOSPC, s1)" "full s1"
      then show ?thesis using that [of ENOSPC k s1] run kept_outcome [OF _ _ i d] by simp
    next
      fix s1 assume w: "file_written sfs s1 I (sv_ino s) (64 * k) (direntry_bytes ?sd)" "only_vnode sfs s1 v" "sfs_writedir sfs v k ?sd = Inr (0, s1)"
        "entries s1 (sv_ino s) = dir_put (entries sfs (sv_ino s)) k ?sd" "dir_ok s1 (sv_ino s) \<longleftrightarrow> names_unique (entries s1 (sv_ino s))"
      have "dir_outcome sfs I v (sv_ino s) ((dir_map es)(name \<mapsto> ino)) 0 s1"
        using w(4,5) p by (intro written_outcome [OF w(1,2)]) (simp_all add: es)
      then show ?thesis using that [of 0 k s1] run w(3) by simp
    qed
  qed
qed

lemma unlink_ok:
  assumes inv: "fs_inv sfs I" and l: "biglock sfs > 0" and a: "at_vnode sfs v s" and d: "dir_ok sfs (sv_ino s)"
    and es: "es = entries sfs (sv_ino s)" and k: "found_from es name 0 None = Some (ino, k)"
  obtains r sfs' where "sfs_dir_unlink sfs v k = Inr (r, sfs')" "dir_outcome sfs I v (sv_ino s) ((dir_map es)(name := None)) r sfs'"
proof -
  let ?sd = "\<lparr>sfd_ino = SFS_NOINO, sfd_name = replicate SFS_NAMELEN 0\<rparr>"
  have i: "sv_ino s \<in> I" using vnodes_okD(1) [OF fs_invD(2) [OF inv] a] .
  have h: "k < length es" "hit es name k" using k by (auto simp: found_from_def find_Some_iff split: option.splits)
  have u: "names_unique es" and le: "length es \<le> 1144"
    using d div_le_mono [of "unat (sfi_size (inode sfs (sv_ino s)))" MAXFILE 64] by (simp_all add: dir_ok_def es length_entries MAXFILE_def)
  have k': "k \<le> length (entries sfs (sv_ino s))" "k < 1144" "length (sfd_name ?sd) = 60" using h(1) le es by (simp_all add: SFS_NAMELEN_def)
  note p = put_unlink [OF u h, of ?sd]
  show ?thesis
  proof (rule writedir_ok [OF inv l a d k'])
    fix s1 assume "kept sfs s1 I v" "sfs_writedir sfs v k ?sd = Inr (ENOSPC, s1)" "full s1"
    then show ?thesis using that [of ENOSPC s1] kept_outcome [OF _ _ i d] by (simp add: sfs_dir_unlink_def)
  next
    fix s1 assume w: "file_written sfs s1 I (sv_ino s) (64 * k) (direntry_bytes ?sd)" "only_vnode sfs s1 v" "sfs_writedir sfs v k ?sd = Inr (0, s1)"
      "entries s1 (sv_ino s) = dir_put (entries sfs (sv_ino s)) k ?sd" "dir_ok s1 (sv_ino s) \<longleftrightarrow> names_unique (entries s1 (sv_ino s))"
    have "dir_outcome sfs I v (sv_ino s) ((dir_map es)(name := None)) 0 s1"
      using w(4,5) p by (intro written_outcome [OF w(1,2)]) (simp_all add: es SFS_NOINO_def)
    then show ?thesis using that [of 0 s1] w(3) by (simp add: sfs_dir_unlink_def)
  qed
qed

end
