(* ===== verification/Sfs_Properties.thy ===== *)
theory Sfs_Properties
  imports Sfs_Trunc Sfs_Errors Sfs_Directory
begin

text \<open>
  Properties of the file system, and a volume on which they are witnessed.
\<close>

section \<open>A volume\<close>

text \<open>Sixteen blocks. The vnode at 7 is the file of inode 3, which has block 0 in disk block 5 and
  block 20 in disk block 7, named by entry 5 of the indirect block 6. The vnode at 8 is the root
  directory, inode 1, whose two entries in disk block 8 are the name \<^verbatim>\<open>foo\<close> of this file and a free one.\<close>

definition foo :: "byte list" where "foo = [102, 111, 111]"

definition sample_entry :: sfs_direntry where "sample_entry = \<lparr>sfd_ino = 3, sfd_name = overwrite (replicate SFS_NAMELEN 0) 0 (foo @ [0])\<rparr>"

lemma sample_name: "length (sfd_name sample_entry) = 60" "entry_name sample_entry = foo"
proof -
  have "good_name foo" by (simp add: good_name_def foo_def)
  from stored_name [OF this] show "length (sfd_name sample_entry) = 60" "entry_name sample_entry = foo" by (simp_all add: sample_entry_def)
qed

definition sample_sector :: "u32 \<Rightarrow> byte list" where
  "sample_sector b = (if b = 6 then bytes_of ((replicate 128 0)[5 := 7]) else if b = 7 then replicate 512 65
     else if b = 8 then direntry_bytes sample_entry @ replicate 448 0 else zeros)"

definition sample_vnode :: sfs_vnode where
  "sample_vnode = \<lparr>vn_refcount = 1, vn_ops = sfs_fileops, sv_i = \<lparr>sfi_size = 10752, sfi_type = SFS_TYPE_FILE, sfi_linkcount = 1,
     sfi_direct = 5 # replicate 14 0, sfi_indirect = 6, sfi_waste = replicate 110 0\<rparr>, sv_ino = 3, sv_dirty = True\<rparr>"

definition sample_root :: sfs_vnode where
  "sample_root = \<lparr>vn_refcount = 1, vn_ops = sfs_dirops, sv_i = \<lparr>sfi_size = 128, sfi_type = SFS_TYPE_DIR, sfi_linkcount = 1,
     sfi_direct = 8 # replicate 14 0, sfi_indirect = 0, sfi_waste = replicate 110 0\<rparr>, sv_ino = 1, sv_dirty = True\<rparr>"

definition sample_volume :: sfs_fs where
  "sample_volume = \<lparr>sfs_sb = \<lparr>sb_magic = SFS_MAGIC, sb_nblocks = 16, sb_volname = replicate 32 0, sb_reserved = replicate 472 0\<rparr>,
     sfs_superdirty = False, sfs_device = \<lparr>d_blocks = 16, d_blocksize = 512, sectors = sample_sector, statuses = []\<rparr>,
     sfs_vnodes = [7, 8], sfs_freemap = \<lparr>nbits = 4096, bm_v = 0xef # 1 # replicate 510 0xff\<rparr>, sfs_freemapdirty = False,
     sfs_heap = [7 \<mapsto> sample_vnode, 8 \<mapsto> sample_root], biglock = 1\<rparr>"


lemma sample_vol_ok: "vol_ok sample_volume"
proof -
  have "i \<in> used sample_volume" if "16 \<le> i" "i < 4096" for i
  proof -
    have "i div 8 \<ge> 2" "i div 8 < 512" using that by auto
    then have "(0xef # 1 # replicate 510 0xff) ! (i div 8) = (0xff :: byte)" by (simp add: nth_Cons')
    moreover have "bit (0xff :: byte) m" if "m < 8" for m
    proof -
      have "(0xff :: byte) = - 1" by simp
      then show ?thesis using that by (simp only: bit_minus_1_iff) simp
    qed
    ultimately show ?thesis using that(2) by (simp add: marked_def bm_bit_def sample_volume_def)
  qed
  then show ?thesis
    by (auto simp: vol_ok_def wf_disk_def LHD_SECTSIZE_def sample_volume_def sample_sector_def zeros_def SFS_BLOCKSIZE_def
        bitmap_inv_def length_direntry_bytes sample_name)
qed








section \<open>Reading and writing files\<close>



section \<open>Truncation\<close>



section \<open>Disk errors\<close>

text \<open>C11. Media errors. When the next k operations of the disk fail, reading a block still returns its
  contents if k is at most 10, and reports \<^verbatim>\<open>EIO\<close> after eleven attempts otherwise. A write whose first
  attempt fails is reported as successful although the block is unchanged: the driver has already
  taken the data out of the transfer descriptor, and the second attempt finds nothing to do.\<close>

theorem disk_error_retries:
  assumes "vol_ok sfs" "biglock sfs > 0" "b < nblocks sfs" "length data = 512"
  shows "sfs_readblock (failing k sfs) b data =
      (if k \<le> 10 then Inr (0, secs sfs b, sfs) else Inr (EIO, data, failing (k - 11) sfs)) \<and>
    sfs_writeblock (failing (Suc k) sfs) b data = Inr (0, failing k sfs)"
  using read_failing [OF assms] write_failing [OF assms] by blast

theorem disk_error_retries_witness:
  "sfs_readblock (failing 10 sample_volume) 7 zeros =
     Inr (0, replicate 512 65, sample_volume) \<and>
   sfs_writeblock (failing (Suc 0) sample_volume) 7 zeros = Inr (0, failing 0 sample_volume)"
proof -
  let ?s = "sample_volume"
  have "vol_ok ?s" using sample_vol_ok by (simp add: vol_ok_def vfs_biglock_acquire_def)
  moreover have "biglock ?s > 0" "7 < nblocks ?s" "secs ?s 7 = replicate 512 65" "length zeros = 512"
    by (simp_all add: vfs_biglock_acquire_def sample_volume_def sample_sector_def zeros_def SFS_BLOCKSIZE_def)
  ultimately show ?thesis using disk_error_retries [of ?s 7 zeros 10] disk_error_retries [of ?s 7 zeros 0] by simp
qed

section \<open>Directories\<close>



end
