(* ===== verification/Longlong.thy ===== *)
theory Longlong
  imports Prelude "HOL-Library.Signed_Division"
begin

text \<open>
  64-bit arithmetic on a machine with 32-bit registers, \<^verbatim>\<open>common/gcc-millicode\<close>. A \<^verbatim>\<open>long long\<close> is a
  64-bit word in two's complement, signed or not; \<open>HI\<close> and \<open>LO\<close> are the two halves of \<^verbatim>\<open>union uu\<close> and \<open>UU\<close>
  puts them together. Comparisons on signed halves go through \<^const>\<open>sint\<close>.
\<close>

type_synonym u64 = "64 word"

definition HI :: "u64 \<Rightarrow> u32" where "HI x = ucast (drop_bit 32 x)"
definition LO :: "u64 \<Rightarrow> u32" where "LO x = ucast x"
definition UU :: "u32 \<Rightarrow> u32 \<Rightarrow> u64" where "UU h l = push_bit 32 (ucast h) OR ucast l"

definition HHALF :: "u32 \<Rightarrow> u32" where "HHALF x = drop_bit 16 x"
definition LHALF :: "u32 \<Rightarrow> u32" where "LHALF x = x AND 0xffff"
definition LHUP :: "u32 \<Rightarrow> u32" where "LHUP x = push_bit 16 x"

section \<open>Addition, bitwise operations, comparison\<close>

definition adddi3 :: "u64 \<Rightarrow> u64 \<Rightarrow> u64" where
  "adddi3 a b = (let l = LO a + LO b in UU (HI a + HI b + (if l < LO b then 1 else 0)) l)"

definition subdi3 :: "u64 \<Rightarrow> u64 \<Rightarrow> u64" where
  "subdi3 a b = (let l = LO a - LO b in UU (HI a - HI b - (if l > LO a then 1 else 0)) l)"

definition negdi2 :: "u64 \<Rightarrow> u64" where
  "negdi2 a = (let l = - LO a in UU (- HI a - (if l > 0 then 1 else 0)) l)"

definition anddi3 :: "u64 \<Rightarrow> u64 \<Rightarrow> u64" where
  "anddi3 a b = UU (HI a AND HI b) (LO a AND LO b)"

definition iordi3 :: "u64 \<Rightarrow> u64 \<Rightarrow> u64" where
  "iordi3 a b = UU (HI a OR HI b) (LO a OR LO b)"

definition xordi3 :: "u64 \<Rightarrow> u64 \<Rightarrow> u64" where
  "xordi3 a b = UU (HI a XOR HI b) (LO a XOR LO b)"

definition one_cmpldi2 :: "u64 \<Rightarrow> u64" where
  "one_cmpldi2 a = UU (NOT (HI a)) (NOT (LO a))"

definition ucmpdi2 :: "u64 \<Rightarrow> u64 \<Rightarrow> int" where
  "ucmpdi2 a b = (if HI a < HI b then 0 else if HI a > HI b then 2 else if LO a < LO b then 0 else if LO a > LO b then 2 else 1)"

definition cmpdi2 :: "u64 \<Rightarrow> u64 \<Rightarrow> int" where
  "cmpdi2 a b = (if sint (HI a) < sint (HI b) then 0 else if sint (HI a) > sint (HI b) then 2
     else if LO a < LO b then 0 else if LO a > LO b then 2 else 1)"

section \<open>Shifts\<close>

definition ashldi3 :: "u64 \<Rightarrow> nat \<Rightarrow> u64" where
  "ashldi3 a shift =
     (if shift = 0 then a
      else if shift \<ge> 32 then UU (push_bit (shift - 32) (LO a)) 0
      else UU (push_bit shift (HI a) OR drop_bit (32 - shift) (LO a)) (push_bit shift (LO a)))"

definition lshldi3 :: "u64 \<Rightarrow> nat \<Rightarrow> u64" where
  "lshldi3 a shift =
     (if shift = 0 then a
      else if shift \<ge> 32 then UU (push_bit (shift - 32) (LO a)) 0
      else UU (push_bit shift (HI a) OR drop_bit (32 - shift) (LO a)) (push_bit shift (LO a)))"

definition lshrdi3 :: "u64 \<Rightarrow> nat \<Rightarrow> u64" where
  "lshrdi3 a shift =
     (if shift = 0 then a
      else if shift \<ge> 32 then UU 0 (drop_bit (shift - 32) (HI a))
      else UU (drop_bit shift (HI a)) (drop_bit shift (LO a) OR push_bit (32 - shift) (HI a)))"

definition ashrdi3 :: "u64 \<Rightarrow> nat \<Rightarrow> u64" where
  "ashrdi3 a shift =
     (if shift = 0 then a
      else if shift \<ge> 32 then
        UU (signed_drop_bit 1 (signed_drop_bit 31 (HI a))) (signed_drop_bit (shift - 32) (HI a))
      else UU (signed_drop_bit shift (HI a)) (drop_bit shift (LO a) OR push_bit (32 - shift) (HI a)))"

section \<open>Multiplication\<close>

definition lmulq :: "u32 \<Rightarrow> u32 \<Rightarrow> u64" where
  "lmulq u v =
     (let u1 = HHALF u; u0 = LHALF u; v1 = HHALF v; v0 = LHALF v; low = u0 * v0 in
      if u1 = 0 \<and> v1 = 0 then ucast low
      else let
        (udiff, neg) = (if u1 \<ge> u0 then (u1 - u0, False) else (u0 - u1, True));
        (vdiff, neg) = (if v0 \<ge> v1 then (v0 - v1, neg) else (v1 - v0, \<not> neg));
        mid = udiff * vdiff;
        high = u1 * v1;
        prodh = high + HHALF high;
        prodl = LHUP high;
        was = prodl;
        (prodh, prodl) =
          (if neg then let prodl = prodl - LHUP mid in (prodh - (HHALF mid + (if prodl > was then 1 else 0)), prodl)
           else let prodl = prodl + LHUP mid in (prodh + (HHALF mid + (if prodl < was then 1 else 0)), prodl));
        was = prodl;
        prodl = prodl + LHUP low;
        prodh = prodh + (HHALF low + (if prodl < was then 1 else 0));
        prodl = prodl + low;
        prodh = (if prodl < low then prodh + 1 else prodh) in
      UU prodh prodl)"

definition muldi3 :: "u64 \<Rightarrow> u64 \<Rightarrow> u64" where
  "muldi3 a b =
     (let (u, negall) = (if sint a \<ge> 0 then (a, False) else (- a, True));
          (v, negall) = (if sint b \<ge> 0 then (b, negall) else (- b, \<not> negall));
          u1 = HI u; u0 = LO u; v1 = HI v; v0 = LO v;
          prod = (if u1 = 0 \<and> v1 = 0 then lmulq u0 v0
            else let
              low = lmulq u0 v0;
              (negmid, udiff) = (if u1 \<ge> u0 then (False, u1 - u0) else (True, u0 - u1));
              (negmid, vdiff) = (if v0 \<ge> v1 then (negmid, v0 - v1) else (\<not> negmid, v1 - v0));
              mid = udiff * vdiff;
              high = u1 * v1 in
            UU (high + (if negmid then - mid else mid) + LO low + HI low) (LO low)) in
      if negall then - prod else prod)"

section \<open>Division\<close>

type_synonym digit = "16 word"

definition BASE :: u32 where "BASE = 0x10000"

definition COMBINE :: "u32 \<Rightarrow> u32 \<Rightarrow> u32" where "COMBINE a b = push_bit 16 a OR b"

definition digits_of :: "u64 \<Rightarrow> digit list" where
  "digits_of x = [ucast (HHALF (HI x)), ucast (LHALF (HI x)), ucast (HHALF (LO x)), ucast (LHALF (LO x))]"

definition from_digits :: "digit list \<Rightarrow> u64" where
  "from_digits a = UU (COMBINE (ucast (a ! 1)) (ucast (a ! 2))) (COMBINE (ucast (a ! 3)) (ucast (a ! 4)))"

text \<open>Pointers into the arrays of digits are offsets. \<open>shl a p len sh\<close> shifts the digits from \<open>p\<close> to \<open>p + len\<close>.\<close>

fun shl :: "digit list \<Rightarrow> nat \<Rightarrow> nat \<Rightarrow> nat \<Rightarrow> digit list" where
  "shl a p 0 sh = a[p := ucast (LHALF (push_bit sh (ucast (a ! p))))]"
| "shl a p (Suc len) sh =
     shl (a[p := ucast (LHALF (push_bit sh (ucast (a ! p))) OR drop_bit (16 - sh) (ucast (a ! Suc p)))]) (Suc p) len sh"

text \<open>The leading digit of the divisor: its number of digits and the offset of \<^verbatim>\<open>v\<close>, or the offset when
  one digit is left.\<close>

fun lead_v :: "nat \<Rightarrow> nat \<Rightarrow> digit list \<Rightarrow> nat + nat \<times> nat" where
  "lead_v 0 vo v = Inl vo"
| "lead_v (Suc n) vo v =
     (if v ! (vo + 1) \<noteq> 0 then Inr (Suc n, vo) else if n = 1 then Inl vo else lead_v n (vo + 1) v)"

function lead_u :: "int \<Rightarrow> nat \<Rightarrow> digit list \<Rightarrow> (int \<times> nat) res" where
  "lead_u m uo u =
     (if length u \<le> uo + 1 then Inl OutOfBounds
      else if u ! (uo + 1) \<noteq> 0 then Inr (m, uo) else lead_u (m - 1) (uo + 1) u)"
  by pat_completeness auto
termination by (relation "measure (\<lambda>(m, uo, u). length u - uo)") auto

declare lead_u.simps [simp del]

fun norm_loop :: "nat \<Rightarrow> u32 \<Rightarrow> nat \<Rightarrow> nat res" where
  "norm_loop fuel t d =
     (if \<not> t < BASE div 2 then Inr d
      else case fuel of 0 \<Rightarrow> Inl Diverges | Suc fuel \<Rightarrow> norm_loop fuel (push_bit 1 t) (Suc d))"

text \<open>The loop of step D3, from its test and from the label \<^verbatim>\<open>qhat_too_big\<close>.\<close>

fun qhat_loop :: "nat \<Rightarrow> u32 \<Rightarrow> u32 \<Rightarrow> u32 \<Rightarrow> u32 \<Rightarrow> u32 \<Rightarrow> u32 res" and
    qhat_too_big :: "nat \<Rightarrow> u32 \<Rightarrow> u32 \<Rightarrow> u32 \<Rightarrow> u32 \<Rightarrow> u32 \<Rightarrow> u32 res" where
  "qhat_loop fuel v1 v2 uj2 qhat rhat =
     (if v2 * qhat > COMBINE rhat uj2 then
        (case fuel of 0 \<Rightarrow> Inl Diverges | Suc fuel \<Rightarrow> qhat_too_big fuel v1 v2 uj2 qhat rhat)
      else Inr qhat)"
| "qhat_too_big fuel v1 v2 uj2 qhat rhat =
     (let qhat = qhat - 1; rhat = rhat + v1 in
      if rhat \<ge> BASE then Inr qhat else qhat_loop fuel v1 v2 uj2 qhat rhat)"

text \<open>Steps D4 and D6 over the digits \<open>i, ..., 1\<close> of \<^verbatim>\<open>v\<close>; \<open>p\<close> is the offset of \<^verbatim>\<open>u[j]\<close>. They return the borrow or
  carry \<^verbatim>\<open>t\<close>.\<close>

fun mul_sub :: "nat \<Rightarrow> digit list \<Rightarrow> nat \<Rightarrow> digit list \<Rightarrow> nat \<Rightarrow> u32 \<Rightarrow> u32 \<Rightarrow> digit list \<times> u32" where
  "mul_sub 0 u p v vo qhat t = (u, t)"
| "mul_sub (Suc i) u p v vo qhat t =
     (let t = ucast (u ! (p + Suc i)) - ucast (v ! (vo + Suc i)) * qhat - t in
      mul_sub i (u[p + Suc i := ucast (LHALF t)]) p v vo qhat ((BASE - HHALF t) AND (BASE - 1)))"

fun add_back :: "nat \<Rightarrow> digit list \<Rightarrow> nat \<Rightarrow> digit list \<Rightarrow> nat \<Rightarrow> u32 \<Rightarrow> digit list \<times> u32" where
  "add_back 0 u p v vo t = (u, t)"
| "add_back (Suc i) u p v vo t =
     (let t = t + (ucast (u ! (p + Suc i)) + ucast (v ! (vo + Suc i))) in
      add_back i (u[p + Suc i := ucast (LHALF t)]) p v vo (HHALF t))"

text \<open>One round of the loop on \<^verbatim>\<open>j\<close>: the digit of the quotient and the new \<^verbatim>\<open>u\<close>.\<close>

definition div_step :: "nat \<Rightarrow> digit list \<Rightarrow> nat \<Rightarrow> digit list \<Rightarrow> nat \<Rightarrow> (digit \<times> digit list) res" where
  "div_step n u p v vo =
     (let v1 = ucast (v ! (vo + 1)); v2 = ucast (v ! (vo + 2)); uj0 = ucast (u ! p); uj1 = ucast (u ! (p + 1)); uj2 = ucast (u ! (p + 2)) in
      bindR (if uj0 = v1 then qhat_too_big 2 v1 v2 uj2 BASE uj1
             else let nn = COMBINE uj0 uj1 in qhat_loop 2 v1 v2 uj2 (nn div v1) (nn mod v1)) (\<lambda>qhat.
      let (u, t) = mul_sub n u p v vo qhat 0;
          t = ucast (u ! p) - t;
          u = u[p := ucast (LHALF t)] in
      if HHALF t \<noteq> 0 then
        let (u, t) = add_back n u p v vo 0 in
        Inr (ucast (qhat - 1), u[p := ucast (LHALF (ucast (u ! p) + t))])
      else Inr (ucast qhat, u)))"

text \<open>The loop on \<^verbatim>\<open>j\<close>, with \<open>k\<close> more rounds after the first.\<close>

fun div_loop :: "nat \<Rightarrow> nat \<Rightarrow> nat \<Rightarrow> digit list \<Rightarrow> nat \<Rightarrow> digit list \<Rightarrow> nat \<Rightarrow> digit list \<Rightarrow> nat \<Rightarrow> (digit list \<times> digit list) res" where
  "div_loop k j n u uo v vo q qo =
     bindR (div_step n u (uo + j) v vo) (\<lambda>(qd, u).
     let q = q[qo + j := qd] in
     case k of 0 \<Rightarrow> Inr (q, u) | Suc k \<Rightarrow> div_loop k (j + 1) n u uo v vo q qo)"

text \<open>The remainder is shifted back in place, from the last of \<open>k\<close> digits after \<^verbatim>\<open>u[m]\<close>, at \<open>p\<close>, up.\<close>

fun shr_loop :: "nat \<Rightarrow> digit list \<Rightarrow> nat \<Rightarrow> nat \<Rightarrow> digit list" where
  "shr_loop 0 u p d = u[p := 0]"
| "shr_loop (Suc k) u p d =
     shr_loop k (u[p + Suc k := ucast (drop_bit d (ucast (u ! (p + Suc k)) :: u32) OR
       LHALF (push_bit (16 - d) (ucast (u ! (p + k)))))]) p d"

text \<open>Division by one digit.\<close>

definition div_digit :: "digit list \<Rightarrow> u32 \<Rightarrow> u64 \<times> u64" where
  "div_digit u t =
     (let q1 = ucast (ucast (u ! 1) div t :: u32) :: digit;
          rbj = COMBINE (ucast (u ! 1) mod t) (ucast (u ! 2));
          q2 = ucast (rbj div t) :: digit;
          rbj = COMBINE (rbj mod t) (ucast (u ! 3));
          q3 = ucast (rbj div t) :: digit;
          rbj = COMBINE (rbj mod t) (ucast (u ! 4));
          q4 = ucast (rbj div t) :: digit in
      (UU (COMBINE (ucast q1) (ucast q2)) (COMBINE (ucast q3) (ucast q4)), ucast (rbj mod t)))"

text \<open>\<^verbatim>\<open>__qdivrem\<close> returns quotient and remainder, which is computed as if \<^verbatim>\<open>arq\<close> were never null; \<open>g\<close> is what the
  arrays \<^verbatim>\<open>vspace\<close> and \<^verbatim>\<open>qspace\<close> hold before.\<close>

definition qdivrem :: "digit list \<Rightarrow> u64 \<Rightarrow> u64 \<Rightarrow> (u64 \<times> u64) res" where
  "qdivrem g ull vll =
     (if vll = 0 then Inl DivByZero
      else if ull < vll then Inr (0, ull)
      else let u = 0 # digits_of ull; v = g ! 0 # digits_of vll in
      case lead_v 4 0 v of
        Inl vo \<Rightarrow> Inr (div_digit u (ucast (v ! (vo + 2))))
      | Inr (n, vo) \<Rightarrow>
          bindR (lead_u (4 - int n) 0 u) (\<lambda>(m, uo).
          let qo = nat (4 - m); q = replicate qo 0 @ drop qo g in
          bindR (norm_loop 15 (ucast (v ! (vo + 1))) 0) (\<lambda>d.
          let u = (if d > 0 then shl u uo (nat (m + int n)) d else u);
              v = (if d > 0 then shl v (vo + 1) (n - 1) d else v) in
          bindR (div_loop (nat m) 0 n u uo v vo q qo) (\<lambda>(q, u).
          let u = (if d > 0 then shr_loop n u (uo + nat m) d else u) in
          Inr (from_digits q, from_digits u)))))"

definition udivdi3 :: "digit list \<Rightarrow> u64 \<Rightarrow> u64 \<Rightarrow> u64 res" where
  "udivdi3 g a b = bindR (qdivrem g a b) (\<lambda>(q, r). Inr q)"

definition umoddi3 :: "digit list \<Rightarrow> u64 \<Rightarrow> u64 \<Rightarrow> u64 res" where
  "umoddi3 g a b = bindR (qdivrem g a b) (\<lambda>(q, r). Inr r)"

definition divdi3 :: "digit list \<Rightarrow> u64 \<Rightarrow> u64 \<Rightarrow> u64 res" where
  "divdi3 g a b =
     (let (ua, neg) = (if sint a < 0 then (- a, True) else (a, False));
          (ub, neg) = (if sint b < 0 then (- b, \<not> neg) else (b, neg)) in
      bindR (qdivrem g ua ub) (\<lambda>(uq, _). Inr (if neg then - uq else uq)))"

definition moddi3 :: "digit list \<Rightarrow> u64 \<Rightarrow> u64 \<Rightarrow> u64 res" where
  "moddi3 g a b =
     (let (ua, neg) = (if sint a < 0 then (- a, True) else (a, False));
          ub = (if sint b < 0 then - b else b) in
      bindR (qdivrem g ua ub) (\<lambda>(_, ur). Inr (if neg then - ur else ur)))"

end
