(* ===== verification/Longlong_Ops.thy ===== *)
theory Longlong_Ops
  imports Longlong
begin

text \<open>
  The 64-bit operations other than division compute the operations of 64-bit words.
\<close>

section \<open>Halves\<close>

abbreviation wide :: "u32 \<Rightarrow> u64" where "wide x \<equiv> ucast x"

text \<open>A half in the upper position, modulo \<open>2 ^ 64\<close>.\<close>

definition up :: "u32 \<Rightarrow> u64" where "up x = push_bit 32 (wide x)"

lemma up_of_int: "up (of_int a) = of_int (2 ^ 32 * a)"
proof -
  have "wide (of_int a) = of_int (a mod 2 ^ 32)" by (simp add: ucast_eq uint_word_of_int)
  then have "up (of_int a) = of_int (2 ^ 32 * (a mod 2 ^ 32))" by (simp add: up_def push_bit_eq_mult mult.commute)
  also have "2 ^ 32 * (a mod 2 ^ 32) = (2 ^ 32 * a) mod 2 ^ 64" using mult_mod_right [of "2 ^ 32" a "2 ^ 32"] by simp
  also have "(of_int ((2 ^ 32 * a) mod 2 ^ 64) :: u64) = of_int (2 ^ 32 * a)" unfolding word_of_int_eq_iff take_bit_eq_mod by simp
  finally show ?thesis .
qed

lemma wide_of_uint: "wide x = of_int (uint x)"
  by (rule ucast_eq)

lemma up_arith: "up (x + y) = up x + up y" "up (x - y) = up x - up y" "up (- x) = - up x" "up (x * y) = up x * wide y" "up 0 = 0"
  "up 1 = 2 ^ 32" "up x = 2 ^ 32 * wide x"
proof -
  have u: "up z = of_int (2 ^ 32 * uint z)" for z using up_of_int [of "uint z"] by simp
  have up_eq: "up (of_int b) = of_int (2 ^ 32 * b)" for b by (rule up_of_int)
  have d: "up (a - b) = up a - up b" for a b
    using up_eq [of "uint a - uint b"] unfolding u by (simp add: right_diff_distrib)
  show "up (x - y) = up x - up y" by (rule d)
  show z: "up 0 = 0" "up 1 = 2 ^ 32" by (simp_all add: u)
  show "up (- x) = - up x" using d [of 0 x] z(1) by simp
  show "up (x + y) = up x + up y" using up_eq [of "uint x + uint y"] unfolding u by (simp add: distrib_left)
  show "up (x * y) = up x * wide y" using up_eq [of "uint x * uint y"] unfolding u wide_of_uint by (simp add: mult.assoc)
  show "up x = 2 ^ 32 * wide x" unfolding u wide_of_uint by (simp only: of_int_mult of_int_power of_int_numeral)
qed

lemma UU_plus: "UU h l = up h + wide l"
proof -
  have "\<not> bit (up h) n \<or> \<not> bit (wide l) n" for n by (auto simp: up_def bit_simps dest: bit_imp_le_length)
  then show ?thesis by (simp add: UU_def up_def disjunctive_add)
qed

lemma HI_UU [simp]: "HI (UU h l) = h" and LO_UU [simp]: "LO (UU h l) = l" and UU_HI_LO [simp]: "UU (HI x) (LO x) = x"
  by (rule bit_word_eqI; auto simp: HI_def LO_def UU_def bit_simps dest: bit_imp_le_length)+

lemma eq64I: "HI x = HI y \<Longrightarrow> LO x = LO y \<Longrightarrow> x = y"
  by (metis UU_HI_LO)

lemma unat_HI: "unat (HI x) = unat x div 2 ^ 32" and unat_LO: "unat (LO x) = unat x mod 2 ^ 32"
proof -
  have "unat x < 2 ^ 64" using unsigned_less [of x, where ?'a = nat] by simp
  then have "unat x div 2 ^ 32 < 2 ^ 32" by (simp add: less_mult_imp_div_less)
  then show "unat (HI x) = unat x div 2 ^ 32"
    by (simp add: HI_def unsigned_ucast_eq unat_drop_bit_eq drop_bit_eq_div unat_div take_bit_nat_eq_self)
  show "unat (LO x) = unat x mod 2 ^ 32" by (simp add: LO_def unsigned_ucast_eq take_bit_eq_mod)
qed

section \<open>Carries\<close>

lemma wide_add: "wide (x + y) = wide x + wide y - (if x + y < y then 2 ^ 32 else 0)"
proof -
  have r: "uint x < 2 ^ 32" "uint y < 2 ^ 32" "0 \<le> uint x" "0 \<le> uint y" using uint_bounded [of x] uint_bounded [of y] by auto
  have "uint (x + y) = uint x + uint y - (if x + y < y then 2 ^ 32 else 0)"
  proof (cases "uint x + uint y < 2 ^ 32")
    case True
    then have "uint (x + y) = uint x + uint y" using r by (simp add: uint_word_ariths)
    then show ?thesis using r by (simp add: word_less_def)
  next
    case False
    have "(uint x + uint y) mod 2 ^ 32 = (uint x + uint y - 2 ^ 32) mod 2 ^ 32" by simp
    also have "\<dots> = uint x + uint y - 2 ^ 32" using r False by (intro mod_pos_pos_trivial) linarith+
    finally have "uint (x + y) = uint x + uint y - 2 ^ 32" by (simp add: uint_word_ariths)
    then show ?thesis using r by (simp add: word_less_def)
  qed
  then show ?thesis unfolding wide_of_uint by (simp split: if_splits)
qed

lemma wide_diff: "wide (x - y) = wide x - wide y + (if x - y > x then 2 ^ 32 else 0)"
proof -
  have r: "uint x < 2 ^ 32" "uint y < 2 ^ 32" "0 \<le> uint x" "0 \<le> uint y" using uint_bounded [of x] uint_bounded [of y] by auto
  have "uint (x - y) = uint x - uint y + (if x - y > x then 2 ^ 32 else 0)"
  proof (cases "uint y \<le> uint x")
    case True
    then have "(uint x - uint y) mod 2 ^ 32 = uint x - uint y" using r by (intro mod_pos_pos_trivial) linarith+
    then have "uint (x - y) = uint x - uint y" by (simp add: uint_word_ariths)
    then show ?thesis using r by (simp add: word_less_def)
  next
    case False
    have "(uint x - uint y) mod 2 ^ 32 = (uint x - uint y + 2 ^ 32) mod 2 ^ 32" by simp
    also have "\<dots> = uint x - uint y + 2 ^ 32" using r False by (intro mod_pos_pos_trivial) linarith+
    finally have "uint (x - y) = uint x - uint y + 2 ^ 32" by (simp add: uint_word_ariths)
    then show ?thesis using r False by (simp add: word_less_def)
  qed
  then show ?thesis unfolding wide_of_uint by (simp split: if_splits)
qed

lemma pair_add: "UU (h + (h' + (if l + l' < l' then 1 else 0))) (l + l') = UU h l + UU h' l'"
  by (simp add: UU_plus up_arith(1,5,6) wide_add)

lemma pair_add2: "UU (h + (h' + (if l + l' < l then 1 else 0))) (l + l') = UU h l + UU h' l'"
  using pair_add [of h' h l' l] by (simp add: ac_simps)

lemma pair_sub: "UU (h - (h' + (if l - l' > l then 1 else 0))) (l - l') = UU h l - UU h' l'"
  by (simp add: UU_plus up_arith(1,2,5,6) wide_diff)

lemma adddi3_ok: "adddi3 a b = a + b"
  using pair_add [of "HI a" "HI b" "LO a" "LO b"] by (simp add: adddi3_def Let_def add.assoc)

lemma subdi3_ok: "subdi3 a b = a - b"
  using pair_sub [of "HI a" "HI b" "LO a" "LO b"] by (simp add: subdi3_def Let_def diff_diff_eq)

lemma negdi2_ok: "negdi2 a = - a"
  using pair_sub [of 0 "HI a" 0 "LO a"] UU_plus [of 0 0] by (simp add: negdi2_def Let_def up_arith(5) diff_diff_eq)

section \<open>Bits\<close>

lemma bit_HI: "bit (HI x) n \<longleftrightarrow> n < 32 \<and> bit x (n + 32)" and bit_LO: "bit (LO x) n \<longleftrightarrow> n < 32 \<and> bit x n"
  by (auto simp: HI_def LO_def bit_simps add.commute)

lemma bit_UU: "bit (UU h l) n \<longleftrightarrow> (if n < 32 then bit l n else bit h (n - 32))"
  by (auto simp: UU_def bit_simps dest: bit_imp_le_length)

lemmas half_bits = bit_HI bit_LO bit_UU

lemma bitwise_ok: "anddi3 a b = a AND b" "iordi3 a b = a OR b" "xordi3 a b = a XOR b" "one_cmpldi2 a = NOT a"
  by (rule bit_word_eqI; auto simp: anddi3_def iordi3_def xordi3_def one_cmpldi2_def half_bits bit_simps)+

lemma shift_left_ok: "sh < 64 \<Longrightarrow> ashldi3 a sh = push_bit sh a" "sh < 64 \<Longrightarrow> lshldi3 a sh = push_bit sh a"
  by (rule bit_word_eqI; auto simp: ashldi3_def lshldi3_def half_bits bit_simps)+

lemma bit64_less: "bit a n \<Longrightarrow> n < 64" for a :: u64
  using bit_imp_le_length [of a n] by simp

lemma shift_right_ok: "sh < 64 \<Longrightarrow> lshrdi3 a sh = drop_bit sh a"
proof (rule bit_word_eqI)
  fix n assume "sh < 64" "n < LENGTH(64)"
  then show "bit (lshrdi3 a sh) n = bit (drop_bit sh a) n"
    using bit64_less [of a "n + sh"] by (auto simp: lshrdi3_def half_bits bit_simps add.commute)
qed

lemma bit_sdb:
  "bit (signed_drop_bit m x) n \<longleftrightarrow> bit x (if 32 - m \<le> n \<and> n < 32 then 31 else m + n)"
  "bit (signed_drop_bit m a) n \<longleftrightarrow> bit a (if 64 - m \<le> n \<and> n < 64 then 63 else m + n)" for x :: u32 and a :: u64
  using bit_signed_drop_bit_iff [of m x n] bit_signed_drop_bit_iff [of m a n] by simp_all

lemma shift_signed_ok: "sh < 64 \<Longrightarrow> ashrdi3 a sh = signed_drop_bit sh a"
proof (rule bit_word_eqI)
  fix n assume "sh < 64" "n < LENGTH(64)"
  then show "bit (ashrdi3 a sh) n = bit (signed_drop_bit sh a) n"
    by (auto simp: ashrdi3_def half_bits bit_sdb bit_or_iff bit_drop_bit_eq bit_push_bit_iff add.commute)
qed

section \<open>Comparison\<close>

lemma unat_halves: "unat a = unat (HI a) * 2 ^ 32 + unat (LO a)"
  by (simp only: unat_HI unat_LO div_mult_mod_eq)

lemma sint_bit: "sint x = uint x - (if bit x 31 then 2 ^ 32 else 0)" "sint a = uint a - (if bit a 63 then 2 ^ 64 else 0)" for x :: u32 and a :: u64
proof -
  have "sint x = signed_take_bit 31 (uint x)" "sint a = signed_take_bit 63 (uint a)" by (simp_all add: sint_uint)
  moreover have "take_bit 32 (uint x) = uint x" "take_bit 64 (uint a) = uint a"
    using uint_bounded [of x] uint_bounded [of a] by (simp_all add: take_bit_int_eq_self)
  ultimately show "sint x = uint x - (if bit x 31 then 2 ^ 32 else 0)" "sint a = uint a - (if bit a 63 then 2 ^ 64 else 0)"
    by (simp_all add: signed_take_bit_eq_take_bit_minus bit_uint_iff)
qed

lemma sint_halves: "sint a = sint (HI a) * 2 ^ 32 + uint (LO a)"
proof -
  have "uint a = uint (HI a) * 2 ^ 32 + uint (LO a)"
  proof -
    have "int (unat a) = int (unat (HI a) * 2 ^ 32 + unat (LO a))" using unat_halves [of a] by (rule arg_cong)
    then show ?thesis by simp
  qed
  then show ?thesis by (simp add: sint_bit bit_HI)
qed

lemma compare_pairs:
  "0 \<le> la \<Longrightarrow> la < 2 ^ 32 \<Longrightarrow> 0 \<le> lb \<Longrightarrow> lb < 2 ^ 32 \<Longrightarrow>
   (if ha < hb then 0 else if hb < ha then 2 else if la < lb then 0 else if lb < la then 2 else 1) =
   (if ha * 2 ^ 32 + la < hb * 2 ^ 32 + lb then 0 else if ha = hb \<and> la = lb then 1 else 2 :: int)" for la lb ha hb :: int
  by auto

lemma compare_ok:
  "ucmpdi2 a b = (if a < b then 0 else if a = b then 1 else 2)" "cmpdi2 a b = (if sint a < sint b then 0 else if a = b then 1 else 2)"
proof -
  have l: "unat (LO x) < 2 ^ 32" for x using unsigned_less [of "LO x", where ?'a = nat] by simp
  have u: "0 \<le> uint (LO x)" "uint (LO x) < 2 ^ 32" for x using uint_bounded [of "LO x"] by simp_all
  have lt: "HI a < HI b \<longleftrightarrow> unat (HI a) < unat (HI b)" "HI b < HI a \<longleftrightarrow> unat (HI b) < unat (HI a)"
    "LO a < LO b \<longleftrightarrow> unat (LO a) < unat (LO b)" "LO b < LO a \<longleftrightarrow> unat (LO b) < unat (LO a)" "a < b \<longleftrightarrow> unat a < unat b"
    by (simp_all add: word_less_nat_alt)
  have eq: "a = b \<longleftrightarrow> unat (HI a) = unat (HI b) \<and> unat (LO a) = unat (LO b)" by (metis eq64I word_unat_eq_iff)
  show "ucmpdi2 a b = (if a < b then 0 else if a = b then 1 else 2)"
    unfolding ucmpdi2_def lt eq using unat_halves [of a] unat_halves [of b] l [of a] l [of b] by auto
  have eqs: "a = b \<longleftrightarrow> sint (HI a) = sint (HI b) \<and> uint (LO a) = uint (LO b)" by (metis eq64I word_uint_eq_iff signed_word_eqI)
  have ltu: "LO a < LO b \<longleftrightarrow> uint (LO a) < uint (LO b)" "LO b < LO a \<longleftrightarrow> uint (LO b) < uint (LO a)" by (simp_all add: word_less_def)
  show "cmpdi2 a b = (if sint a < sint b then 0 else if a = b then 1 else 2)"
    unfolding cmpdi2_def ltu eqs sint_halves [of a] sint_halves [of b] by (rule compare_pairs [OF u u])
qed

section \<open>Multiplication\<close>

lemma LHALF_take: "LHALF x = take_bit 16 x"
proof -
  have "(0xffff :: u32) = mask 16" by (simp add: mask_eq_exp_minus_1)
  then show ?thesis by (simp add: LHALF_def take_bit_eq_mask)
qed

lemma unat_LHALF: "unat (LHALF x) = unat x mod 2 ^ 16" and unat_HHALF: "unat (HHALF x) = unat x div 2 ^ 16"
  by (simp_all add: LHALF_take HHALF_def take_bit_eq_mod drop_bit_eq_div unat_mod unat_div)

lemma half_less: "unat (HHALF x) < 2 ^ 16" "unat (LHALF x) < 2 ^ 16"
  using less_mult_imp_div_less [of "unat x" "2 ^ 16" "2 ^ 16"] unsigned_less [of x, where ?'a = nat]
  by (simp_all add: unat_LHALF unat_HHALF)

lemma shifted_halves: "UU (HHALF x) (LHUP x) = 2 ^ 16 * wide x"
proof -
  have "UU (HHALF x) (LHUP x) = push_bit 16 (wide x)"
    by (rule bit_word_eqI) (auto simp: HHALF_def LHUP_def half_bits bit_simps dest: bit_imp_le_length)
  then show ?thesis by (simp add: push_bit_eq_mult mult.commute)
qed

lemma wide_halves: "wide x = 2 ^ 16 * wide (HHALF x) + wide (LHALF x)"
proof -
  have n: "\<not> bit (push_bit 16 (wide (HHALF x))) n \<or> \<not> bit (wide (LHALF x)) n" for n
    by (auto simp: HHALF_def LHALF_take bit_simps)
  have "wide x = push_bit 16 (wide (HHALF x)) OR wide (LHALF x)"
    by (rule bit_word_eqI) (auto simp: HHALF_def LHALF_take bit_simps dest: bit_imp_le_length)
  then show ?thesis using disjunctive_add [OF n] by (simp add: push_bit_eq_mult mult.commute)
qed

text \<open>Products of half words do not wrap.\<close>

lemma wide_mult: "unat x < 2 ^ 16 \<Longrightarrow> unat y < 2 ^ 16 \<Longrightarrow> wide (x * y) = wide x * wide y"
proof -
  assume a: "unat x < 2 ^ 16" "unat y < 2 ^ 16"
  then have "unat x * unat y < 2 ^ 16 * 2 ^ 16" by (intro mult_strict_mono') auto
  then have "unat (x * y) = unat x * unat y" by (simp add: unat_word_ariths)
  then have "int (unat (x * y)) = int (unat x) * int (unat y)" by (simp only: of_nat_mult)
  then have "uint (x * y) = uint x * uint y" by simp
  then show ?thesis unfolding wide_of_uint by (simp only: of_int_mult)
qed

lemma wide_le_diff: "y \<le> x \<Longrightarrow> wide (x - y) = wide x - wide y"
proof -
  assume "y \<le> x"
  then have "\<not> x - y > x" by (simp add: word_less_nat_alt unat_sub)
  then show ?thesis using wide_diff [of x y] by simp
qed

text \<open>The absolute difference of two values and its sign.\<close>

lemma signed_diff:
  assumes "(d, neg) = (if y \<le> x then (x - y, n) else (y - x, \<not> n))"
  shows "(if neg then - wide d else wide d) = (if n then - (wide x - wide y) else wide x - wide y)"
    "unat x < k \<Longrightarrow> unat y < k \<Longrightarrow> unat d < k"
  using assms by (auto simp: wide_le_diff unat_sub word_le_nat_alt split: if_splits)

lemma lmulq_ok: "lmulq u v = wide u * wide v"
proof -
  define u1 u0 v1 v0 where "u1 = HHALF u" "u0 = LHALF u" "v1 = HHALF v" "v0 = LHALF v"
  note defs = this
  have b: "unat u1 < 2 ^ 16" "unat u0 < 2 ^ 16" "unat v1 < 2 ^ 16" "unat v0 < 2 ^ 16"
    unfolding defs by (rule half_less)+
  have uv: "wide u = 2 ^ 16 * wide u1 + wide u0" "wide v = 2 ^ 16 * wide v1 + wide v0" unfolding defs by (rule wide_halves)+
  define low where "low = u0 * v0"
  have low: "wide low = wide u0 * wide v0" unfolding low_def by (rule wide_mult [OF b(2,4)])
  obtain udiff neg0 where ud: "(udiff, neg0) = (if u0 \<le> u1 then (u1 - u0, False) else (u0 - u1, \<not> False))" by (metis surj_pair)
  obtain vdiff neg where vd: "(vdiff, neg) = (if v1 \<le> v0 then (v0 - v1, neg0) else (v1 - v0, \<not> neg0))" by (metis surj_pair)
  define mid high where "mid = udiff * vdiff" "high = u1 * v1"
  note defs2 = this
  have mid: "(if neg then - wide mid else wide mid) = (wide u1 - wide u0) * (wide v0 - wide v1)"
  proof -
    have "wide mid = wide udiff * wide vdiff" unfolding defs2 by (rule wide_mult [OF signed_diff(2) [OF ud b(1,2)] signed_diff(2) [OF vd b(4,3)]])
    then have "(if neg then - wide mid else wide mid) = wide udiff * (if neg then - wide vdiff else wide vdiff)" by simp
    also have "\<dots> = (if neg0 then - wide udiff else wide udiff) * (wide v0 - wide v1)" unfolding signed_diff(1) [OF vd] by (simp add: algebra_simps)
    also have "\<dots> = (wide u1 - wide u0) * (wide v0 - wide v1)" unfolding signed_diff(1) [OF ud] by simp
    finally show ?thesis .
  qed
  have high: "wide high = wide u1 * wide v1" unfolding defs2 by (rule wide_mult [OF b(1,3)])
  have s0: "UU (high + HHALF high) (LHUP high) = 2 ^ 32 * wide high + 2 ^ 16 * wide high"
  proof -
    have "UU (high + HHALF high) (LHUP high) = up high + UU (HHALF high) (LHUP high)" by (simp add: UU_plus up_arith(1))
    then show ?thesis unfolding shifted_halves up_arith(7) .
  qed
  define ph pl where "ph = (if neg then high + HHALF high - (HHALF mid + (if LHUP high - LHUP mid > LHUP high then 1 else 0))
      else high + HHALF high + (HHALF mid + (if LHUP high + LHUP mid < LHUP high then 1 else 0)))"
    and "pl = (if neg then LHUP high - LHUP mid else LHUP high + LHUP mid)"
  note defs3 = this
  have "UU ph pl = UU (high + HHALF high) (LHUP high) + (if neg then - UU (HHALF mid) (LHUP mid) else UU (HHALF mid) (LHUP mid))"
    unfolding defs3 by (simp add: pair_sub pair_add2)
  also have "\<dots> = 2 ^ 32 * wide high + 2 ^ 16 * wide high + 2 ^ 16 * (if neg then - wide mid else wide mid)"
    unfolding s0 shifted_halves by simp
  finally have s1: "UU ph pl = 2 ^ 32 * wide high + 2 ^ 16 * wide high + 2 ^ 16 * ((wide u1 - wide u0) * (wide v0 - wide v1))" unfolding mid .
  define ph2 pl2 where "ph2 = ph + (HHALF low + (if pl + LHUP low < pl then 1 else 0))" and "pl2 = pl + LHUP low"
  have s2: "UU ph2 pl2 = UU ph pl + 2 ^ 16 * wide low" unfolding ph2_def pl2_def pair_add2 shifted_halves ..
  have s3: "UU (if pl2 + low < low then ph2 + 1 else ph2) (pl2 + low) = UU ph2 pl2 + wide low"
    using pair_add [of ph2 0 pl2 low] by (simp add: UU_plus [of 0] up_arith(5) split: if_splits)
  have "UU (if pl2 + low < low then ph2 + 1 else ph2) (pl2 + low) = wide u * wide v"
    unfolding s3 s2 s1 high low uv by (simp add: algebra_simps flip: power_add)
  moreover have "lmulq u v = (if u1 = 0 \<and> v1 = 0 then wide low else UU (if pl2 + low < low then ph2 + 1 else ph2) (pl2 + low))"
  proof (cases "u1 = 0 \<and> v1 = 0")
    case True
    then show ?thesis by (simp add: lmulq_def defs [symmetric] low_def [symmetric] Let_def)
  next
    case False
    have "(if u0 \<le> u1 then (u1 - u0, False) else (u0 - u1, True)) = (udiff, neg0)" using ud by simp
    note step = this vd [symmetric]
    show ?thesis
      unfolding lmulq_def Let_def defs [symmetric] low_def [symmetric] if_not_P [OF False] step prod.case defs2 [symmetric] ph2_def pl2_def defs3
      by (cases neg) simp_all
  qed
  moreover have "wide low = wide u * wide v" if "u1 = 0 \<and> v1 = 0" using that low uv by simp
  ultimately show ?thesis by simp
qed

lemma two64: "(2 ^ 32 * 2 ^ 32 :: u64) = 0" "2 ^ 32 * (2 ^ 32 * x) = (0 :: u64)"
proof -
  show z: "(2 ^ 32 * 2 ^ 32 :: u64) = 0" by simp
  have "2 ^ 32 * (2 ^ 32 * x) = (2 ^ 32 * 2 ^ 32) * x" by (simp only: mult.assoc)
  then show "2 ^ 32 * (2 ^ 32 * x) = (0 :: u64)" unfolding z by (simp only: mult_zero_left)
qed

lemma up_LO: "up (LO x) = 2 ^ 32 * x"
proof -
  have "2 ^ 32 * x = 2 ^ 32 * (up (HI x) + wide (LO x))" using UU_plus [of "HI x" "LO x"] by simp
  then show ?thesis unfolding up_arith(7) distrib_left two64(2) by (simp only: add_0_left)
qed

lemma mul_pairs:
  assumes ud: "(negm, udiff) = (if u0 \<le> u1 then (False, u1 - u0) else (True, u0 - u1))"
    and vd: "(neg, vdiff) = (if v1 \<le> v0 then (negm, v0 - v1) else (\<not> negm, v1 - v0))"
    and low: "low = wide u0 * wide v0"
  shows "UU (u1 * v1 + (if neg then - (udiff * vdiff) else udiff * vdiff) + LO low + HI low) (LO low) = UU u1 u0 * UU v1 v0"
proof -
  have d: "(udiff, negm) = (if u0 \<le> u1 then (u1 - u0, False) else (u0 - u1, \<not> False))"
    "(vdiff, neg) = (if v1 \<le> v0 then (v0 - v1, negm) else (v1 - v0, \<not> negm))" using ud vd by (auto split: if_splits)
  have "up (if neg then - (udiff * vdiff) else udiff * vdiff) = 2 ^ 32 * (wide udiff * (if neg then - wide vdiff else wide vdiff))"
    using up_arith(3) [of "udiff * vdiff"] up_arith(4) [of udiff vdiff] up_arith(7) [of udiff] by (simp add: mult.assoc)
  also have "\<dots> = 2 ^ 32 * ((if negm then - wide udiff else wide udiff) * (wide v0 - wide v1))"
    unfolding signed_diff(1) [OF d(2)] by (simp add: algebra_simps)
  also have "\<dots> = 2 ^ 32 * ((wide u1 - wide u0) * (wide v0 - wide v1))" unfolding signed_diff(1) [OF d(1)] by simp
  finally have m: "up (if neg then - (udiff * vdiff) else udiff * vdiff) = 2 ^ 32 * ((wide u1 - wide u0) * (wide v0 - wide v1))" .
  have "UU (u1 * v1 + (if neg then - (udiff * vdiff) else udiff * vdiff) + LO low + HI low) (LO low) =
      up (u1 * v1) + up (if neg then - (udiff * vdiff) else udiff * vdiff) + up (LO low) + UU (HI low) (LO low)"
    by (simp only: UU_plus up_arith(1) add.assoc)
  also have "\<dots> = 2 ^ 32 * (wide u1 * wide v1) + 2 ^ 32 * ((wide u1 - wide u0) * (wide v0 - wide v1)) + 2 ^ 32 * low + low"
    unfolding m up_LO UU_HI_LO up_arith(4) up_arith(7) [of u1] by (simp only: mult.assoc)
  also have "\<dots> = 2 ^ 32 * (wide u1 * wide v0 + wide u0 * wide v1) + wide u0 * wide v0" unfolding low by (simp add: algebra_simps)
  also have "\<dots> = UU u1 u0 * UU v1 v0"
  proof -
    have "UU u1 u0 * UU v1 v0 = 2 ^ 32 * (2 ^ 32 * (wide u1 * wide v1)) + (2 ^ 32 * (wide u1 * wide v0 + wide u0 * wide v1) + wide u0 * wide v0)"
      unfolding UU_plus up_arith(7) by (simp only: distrib_left distrib_right ac_simps)
    then show ?thesis unfolding two64(2) by (simp only: add_0_left)
  qed
  finally show ?thesis .
qed

lemma wide_LO: "HI x = 0 \<Longrightarrow> wide (LO x) = x"
proof -
  assume "HI x = 0"
  then have "UU 0 (LO x) = x" using UU_HI_LO [of x] by simp
  then show ?thesis using UU_plus [of 0 "LO x"] by (simp add: up_arith(5))
qed

lemma muldi3_ok: "muldi3 a b = a * b"
proof -
  obtain u n where u: "(u, n) = (if sint a \<ge> 0 then (a, False) else (- a, True))" by (metis surj_pair)
  obtain v negall where v: "(v, negall) = (if sint b \<ge> 0 then (b, n) else (- b, \<not> n))" by (metis surj_pair)
  obtain negm udiff where ud: "(negm, udiff) = (if LO u \<le> HI u then (False, HI u - LO u) else (True, LO u - HI u))" by (metis surj_pair)
  obtain neg vdiff where vd: "(neg, vdiff) = (if HI v \<le> LO v then (negm, LO v - HI v) else (\<not> negm, HI v - LO v))" by (metis surj_pair)
  have p: "(if HI u = 0 \<and> HI v = 0 then lmulq (LO u) (LO v)
      else UU (HI u * HI v + (if neg then - (udiff * vdiff) else udiff * vdiff) + LO (lmulq (LO u) (LO v)) + HI (lmulq (LO u) (LO v))) (LO (lmulq (LO u) (LO v)))) = u * v"
    (is "?p = _")
  proof (cases "HI u = 0 \<and> HI v = 0")
    case True
    then have "wide (LO u) = u" "wide (LO v) = v" using wide_LO by simp_all
    then show ?thesis using True by (simp add: lmulq_ok)
  next
    case False
    show ?thesis unfolding if_not_P [OF False] using mul_pairs [OF ud vd lmulq_ok] by simp
  qed
  have "muldi3 a b = (if negall then - ?p else ?p)"
    unfolding muldi3_def Let_def u [symmetric] prod.case v [symmetric] ud [symmetric] vd [symmetric] ..
  then have "muldi3 a b = (if negall then - (u * v) else u * v)" unfolding p .
  then show ?thesis using u v by (auto split: if_splits)
qed

end
