(* ===== verification/Qdivrem.thy ===== *)
theory Qdivrem
  imports Longlong_Ops
begin

text \<open>
  The multiple-precision division of \<^verbatim>\<open>qdivrem.c\<close> (algorithm D of Knuth's \<^emph>\<open>Seminumerical Algorithms\<close>)
  computes quotient and remainder of 64-bit words.
\<close>

section \<open>Values of digit sequences\<close>

abbreviation B16 :: int where "B16 \<equiv> 65536"

definition D :: "digit \<Rightarrow> int" where "D d = uint d"

text \<open>The value of \<open>k\<close> digits from position \<open>p\<close>, most significant first.\<close>

fun dval :: "digit list \<Rightarrow> nat \<Rightarrow> nat \<Rightarrow> int" where
  "dval a p 0 = 0"
| "dval a p (Suc k) = dval a p k * B16 + D (a ! (p + k))"

lemma uint_nonneg: "0 \<le> uint w" for w :: u32
  by simp

lemma D_range: "0 \<le> D d" "D d < B16"
  using uint_bounded [of d] by (simp_all add: D_def)

lemma D_0 [simp]: "D 0 = 0" "D d = 0 \<longleftrightarrow> d = 0"
  by (simp_all add: D_def unsigned_eq_0_iff)

lemma dval_range: "0 \<le> dval a p k" "dval a p k < B16 ^ k"
proof (induction k)
  case (Suc k)
  { case 1 show ?case using Suc.IH(1) D_range(1) by simp
  next
    case 2
    have "dval a p k * B16 + D (a ! (p + k)) < (dval a p k + 1) * B16" using D_range(2) by simp
    also have "\<dots> \<le> B16 ^ k * B16" using Suc.IH(2) by (intro mult_right_mono) simp_all
    finally show ?case by simp }
qed simp_all

lemma dval_cong: "(\<And>i. p \<le> i \<Longrightarrow> i < p + k \<Longrightarrow> a ! i = b ! i) \<Longrightarrow> dval a p k = dval b p k"
  by (induction k) simp_all

lemma dval_upd: "i < p \<or> p + k \<le> i \<Longrightarrow> dval (a[i := x]) p k = dval a p k"
  by (rule dval_cong) auto

lemma dval_split: "dval a p (k + l) = dval a p k * B16 ^ l + dval a (p + k) l"
proof (induction l)
  case (Suc l)
  have "dval a p (k + Suc l) = dval a p (k + l) * B16 + D (a ! (p + k + l))" by (simp add: add.assoc)
  then show ?case using Suc by (simp add: algebra_simps)
qed simp

lemma dval_Cons: "dval a p (Suc k) = D (a ! p) * B16 ^ k + dval a (Suc p) k"
  using dval_split [of a p 1 k] by simp

lemma dval_zeros: "(\<And>i. p \<le> i \<Longrightarrow> i < p + k \<Longrightarrow> a ! i = 0) \<Longrightarrow> dval a p k = 0"
  by (induction k) simp_all

text \<open>A value that fits in fewer digits has leading zeros.\<close>

lemma dval_small:
  assumes "dval a p (k + l) < B16 ^ l"
  shows "dval a p k = 0" "dval a (p + k) l = dval a p (k + l)"
proof -
  have "dval a p k * B16 ^ l < 1 * B16 ^ l" using assms dval_range(1) [of a "p + k" l] dval_split [of a p k l] by linarith
  then have "dval a p k < 1" by (rule mult_right_less_imp_less) simp
  then show "dval a p k = 0" using dval_range(1) [of a p k] by simp
  then show "dval a (p + k) l = dval a p (k + l)" using dval_split [of a p k l] by simp
qed

lemma dval_0_digits: "dval a p k = 0 \<Longrightarrow> i < k \<Longrightarrow> a ! (p + i) = 0"
proof (induction k)
  case (Suc k)
  have "dval a p k * B16 + D (a ! (p + k)) = 0" using Suc.prems(1) by simp
  then have "dval a p k = 0" "D (a ! (p + k)) = 0" using dval_range(1) [of a p k] D_range(1) [of "a ! (p + k)"] by linarith+
  then show ?case using Suc.IH Suc.prems(2) by (cases "i = k") auto
qed simp

section \<open>Half words\<close>

lemma uint_HHALF: "uint (HHALF t) = uint t div B16" and uint_LHALF: "uint (LHALF t) = uint t mod B16"
  by (simp_all add: HHALF_def LHALF_take drop_bit_eq_div take_bit_eq_mod uint_div uint_mod)

lemma D_ucast: "D (ucast t) = uint t mod B16" for t :: u32
  by (simp add: D_def unsigned_ucast_eq take_bit_eq_mod)

lemma uint_digit: "uint (ucast d :: u32) = D d"
  by (simp add: D_def unsigned_ucast_eq take_bit_int_eq_self_iff uint_bounded) (use uint_bounded [of d] in simp)

lemma D_LHALF: "D (ucast (LHALF t)) = uint t mod B16"
  by (simp add: D_ucast uint_LHALF)

lemma uint_mod32: "uint (of_int x :: u32) = x mod 2 ^ 32"
  by (simp add: uint_word_of_int)

section \<open>Multiply and subtract\<close>

lemma mod_square: "x mod 2 ^ 32 div B16 = x div B16 mod B16" "x mod 2 ^ 32 mod B16 = x mod B16" for x :: int
proof -
  have "x mod (B16 * B16) = B16 * (x div B16 mod B16) + x mod B16" by (rule zmod_zmult2_eq) simp
  then show "x mod 2 ^ 32 div B16 = x div B16 mod B16" "x mod 2 ^ 32 mod B16 = x mod B16" by simp_all
qed

lemma mul_sub_digit:
  assumes q: "uint qhat < B16" "uint t0 < B16" and t: "t = ucast ud - ucast vd * qhat - t0"
    and X: "X = D ud - D vd * uint qhat - uint t0"
  shows "D (ucast (LHALF t)) = X mod B16" "uint ((BASE - HHALF t) AND (BASE - 1)) = - (X div B16)"
    "uint ((BASE - HHALF t) AND (BASE - 1)) < B16"
proof -
  have "t = of_int X" unfolding t X by (simp flip: uint_digit)
  then have ut: "uint t = X mod 2 ^ 32" using uint_mod32 by simp
  show "D (ucast (LHALF t)) = X mod B16" unfolding D_LHALF ut by (rule mod_square(2))
  have r: "0 \<le> D ud" "D ud < B16" "0 \<le> D vd" "D vd \<le> B16 - 1" "0 \<le> uint qhat" "uint qhat \<le> B16 - 1" "0 \<le> uint t0"
    using D_range [of ud] D_range [of vd] q by simp_all
  have p: "D vd * uint qhat \<le> (B16 - 1) * (B16 - 1)" using r(3-6) by (intro mult_mono) simp_all
  have p0: "0 \<le> D vd * uint qhat" using r(3,5) by simp
  have b1: "- ((B16 - 1) * B16) \<le> X" using p r(1) q(2) by (simp add: X)
  have b2: "X < B16" using p0 r(2,7) unfolding X by linarith
  note b = b1 b2
  have z: "- (B16 - 1) \<le> X div B16" "X div B16 \<le> 0" using b by auto
  define h where "h = HHALF t"
  have h: "uint h = X div B16 mod B16" unfolding h_def uint_HHALF ut by (rule mod_square(1))
  have hr: "0 \<le> uint h" "uint h < B16" unfolding h by simp_all
  have "uint (BASE - h) = (B16 - uint h) mod 4294967296" by (simp add: BASE_def uint_word_ariths)
  also have "\<dots> = B16 - uint h" using hr by (intro mod_pos_pos_trivial) linarith+
  finally have d: "uint (BASE - h) = B16 - uint h" .
  have "BASE - 1 = 0xffff" by (simp add: BASE_def)
  then have "(BASE - h) AND (BASE - 1) = LHALF (BASE - h)" by (simp only: LHALF_def)
  then have "uint ((BASE - h) AND (BASE - 1)) = (B16 - uint h) mod B16" by (simp only: uint_LHALF d)
  also have "\<dots> = (- (X div B16)) mod B16" unfolding h by (simp add: mod_simps)
  also have "\<dots> = - (X div B16)" using z by (intro mod_pos_pos_trivial) linarith+
  finally show "uint ((BASE - HHALF t) AND (BASE - 1)) = - (X div B16)" unfolding h_def .
  then show "uint ((BASE - HHALF t) AND (BASE - 1)) < B16" using z by linarith
qed

lemma mul_sub_ok:
  assumes "p + i < length u" "uint qhat < B16" "uint t < B16" "mul_sub i u p v vo qhat t = (u', t')"
  shows "length u' = length u \<and> uint t' < B16 \<and> (\<forall>k. k \<le> p \<or> p + i < k \<longrightarrow> u' ! k = u ! k) \<and>
    dval u (p + 1) i - uint qhat * dval v (vo + 1) i - uint t = dval u' (p + 1) i - B16 ^ i * uint t'"
  using assms
proof (induction i arbitrary: u t)
  case (Suc i)
  let ?d = "u ! (p + Suc i)" and ?e = "v ! (vo + Suc i)"
  define t1 where "t1 = ucast ?d - ucast ?e * qhat - t"
  define X where "X = D ?d - D ?e * uint qhat - uint t"
  define u1 where "u1 = u[p + Suc i := ucast (LHALF t1)]"
  define t2 where "t2 = (BASE - HHALF t1) AND (BASE - 1)"
  note m = mul_sub_digit [OF Suc.prems(2,3) t1_def X_def, folded t2_def]
  have run: "mul_sub i u1 p v vo qhat t2 = (u', t')" using Suc.prems(4) by (simp add: u1_def t2_def t1_def Let_def)
  have l: "p + i < length u1" "length u1 = length u" using Suc.prems(1) by (simp_all add: u1_def)
  have IH: "length u' = length u1" "uint t' < B16" "\<forall>k. k \<le> p \<or> p + i < k \<longrightarrow> u' ! k = u1 ! k"
    "dval u1 (p + 1) i - uint qhat * dval v (vo + 1) i - uint t2 = dval u' (p + 1) i - B16 ^ i * uint t'"
    using Suc.IH [OF l(1) Suc.prems(2) m(3) run] by simp_all
  have d1: "dval u1 (p + 1) i = dval u (p + 1) i" unfolding u1_def by (rule dval_upd) simp
  have nth: "D (u' ! (p + Suc i)) = X mod B16" using IH(3) m(1) Suc.prems(1) by (simp add: u1_def)
  have "X = X div B16 * B16 + X mod B16" by simp
  then have X': "X = X mod B16 - B16 * uint t2" using m(2) by simp
  have "dval u (p + 1) (Suc i) - uint qhat * dval v (vo + 1) (Suc i) - uint t =
      (dval u (p + 1) i - uint qhat * dval v (vo + 1) i) * B16 + X" by (simp add: X_def algebra_simps)
  also have "\<dots> = (dval u' (p + 1) i - B16 ^ i * uint t' + uint t2) * B16 + X" using IH(4) d1 by simp
  also have "\<dots> = dval u' (p + 1) i * B16 + X mod B16 - B16 ^ Suc i * uint t'" using X' by (simp add: algebra_simps)
  also have "\<dots> = dval u' (p + 1) (Suc i) - B16 ^ Suc i * uint t'" using nth by simp
  finally have "dval u (p + 1) (Suc i) - uint qhat * dval v (vo + 1) (Suc i) - uint t = dval u' (p + 1) (Suc i) - B16 ^ Suc i * uint t'" .
  moreover have "u' ! k = u ! k" if "k \<le> p \<or> p + Suc i < k" for k using that IH(3) by (auto simp: u1_def)
  ultimately show ?case using IH(1,2) l(2) by simp
qed simp

lemma add_back_ok:
  assumes "p + i < length u" "uint t \<le> 1" "add_back i u p v vo t = (u', t')"
  shows "length u' = length u \<and> uint t' \<le> 1 \<and> (\<forall>k. k \<le> p \<or> p + i < k \<longrightarrow> u' ! k = u ! k) \<and>
    dval u (p + 1) i + dval v (vo + 1) i + uint t = dval u' (p + 1) i + B16 ^ i * uint t'"
  using assms
proof (induction i arbitrary: u t)
  case (Suc i)
  let ?d = "u ! (p + Suc i)" and ?e = "v ! (vo + Suc i)"
  define t1 where "t1 = t + (ucast ?d + ucast ?e)"
  define X where "X = uint t + (D ?d + D ?e)"
  define u1 where "u1 = u[p + Suc i := ucast (LHALF t1)]"
  have X: "0 \<le> X" "X < 2 * B16" using D_range [of ?d] D_range [of ?e] Suc.prems(2) by (auto simp: X_def)
  have "t1 = of_int X" unfolding t1_def X_def by (simp flip: uint_digit)
  then have ut: "uint t1 = X" using uint_mod32 [of X] X by (simp add: mod_pos_pos_trivial)
  have run: "add_back i u1 p v vo (HHALF t1) = (u', t')" using Suc.prems(3) by (simp add: u1_def t1_def Let_def)
  have l: "p + i < length u1" "length u1 = length u" using Suc.prems(1) by (simp_all add: u1_def)
  have h: "uint (HHALF t1) = X div B16" "uint (HHALF t1) \<le> 1" using X by (simp_all add: uint_HHALF ut)
  have IH: "length u' = length u1" "uint t' \<le> 1" "\<forall>k. k \<le> p \<or> p + i < k \<longrightarrow> u' ! k = u1 ! k"
    "dval u1 (p + 1) i + dval v (vo + 1) i + X div B16 = dval u' (p + 1) i + B16 ^ i * uint t'"
    using Suc.IH [OF l(1) h(2) run] h(1) by simp_all
  have d1: "dval u1 (p + 1) i = dval u (p + 1) i" unfolding u1_def by (rule dval_upd) simp
  have nth: "D (u' ! (p + Suc i)) = X mod B16" using IH(3) Suc.prems(1) D_LHALF [of t1] ut by (simp add: u1_def)
  have "dval u (p + 1) (Suc i) + dval v (vo + 1) (Suc i) + uint t =
      (dval u (p + 1) i + dval v (vo + 1) i + X div B16) * B16 + X mod B16"
    using div_mult_mod_eq [of X B16] by (simp add: X_def algebra_simps)
  also have "\<dots> = dval u' (p + 1) (Suc i) + B16 ^ Suc i * uint t'" using IH(4) d1 nth by (simp add: algebra_simps)
  finally have "dval u (p + 1) (Suc i) + dval v (vo + 1) (Suc i) + uint t = dval u' (p + 1) (Suc i) + B16 ^ Suc i * uint t'" .
  moreover have "u' ! k = u ! k" if "k \<le> p \<or> p + Suc i < k" for k using that IH(3) by (auto simp: u1_def)
  ultimately show ?case using IH(1,2) l(2) by simp
qed simp

section \<open>The estimate of a digit\<close>

lemma uint_COMBINE:
  assumes "uint a < B16" "uint b < B16"
  shows "uint (COMBINE a b) = uint a * B16 + uint b"
proof -
  have nb: "\<not> bit b n" if "16 \<le> n" for n
  proof
    assume "bit b n"
    then have "bit (uint b) n" using bit_imp_le_length [of b n] by (simp add: bit_uint_iff)
    moreover have "take_bit 16 (uint b) = uint b" using assms(2) by (simp add: take_bit_int_eq_self_iff)
    ultimately have "bit (take_bit 16 (uint b)) n" by simp
    then show False using that by (simp add: bit_take_bit_iff)
  qed
  have n: "\<not> bit (push_bit 16 a) n \<or> \<not> bit b n" for n using nb [of n] by (auto simp: bit_simps)
  have c: "COMBINE a b = of_int (uint a * B16 + uint b)"
    unfolding COMBINE_def disjunctive_add [OF n, symmetric] by (simp add: push_bit_eq_mult)
  have "uint (COMBINE a b) = (uint a * B16 + uint b) mod 4294967296" unfolding c uint_mod32 by simp
  also have "\<dots> = uint a * B16 + uint b" using assms uint_bounded [of a] uint_bounded [of b] by (intro mod_pos_pos_trivial) auto
  finally show ?thesis .
qed

lemma uint_pred: "0 < uint q \<Longrightarrow> uint (q - 1) = uint q - 1" for q :: u32
proof -
  assume a: "0 < uint q"
  have "uint (q - 1) = (uint q - 1) mod 4294967296" by (simp add: uint_word_ariths)
  also have "\<dots> = uint q - 1" using a uint_bounded [of q] by (intro mod_pos_pos_trivial) auto
  finally show ?thesis .
qed

lemma uint_small_mult: "uint v < B16 \<Longrightarrow> uint q \<le> B16 \<Longrightarrow> uint (v * q) = uint v * uint q" for v q :: u32
proof -
  assume a: "uint v < B16" "uint q \<le> B16"
  have r: "0 \<le> uint v" "0 \<le> uint q" using uint_bounded [of v] uint_bounded [of q] by simp_all
  have "uint v * uint q \<le> (B16 - 1) * B16" using a r by (intro mult_mono) auto
  moreover have "0 \<le> uint v * uint q" using r by simp
  ultimately have "(uint v * uint q) mod 4294967296 = uint v * uint q" by (intro mod_pos_pos_trivial) auto
  then show ?thesis by (simp add: uint_word_ariths)
qed

lemma qhat_loop_ok:
  assumes v: "uint v1 < B16" "B16 \<le> 2 * uint v1" "uint v2 < B16" "uint u2 < B16" and q0: "0 \<le> q0"
    and too_big: "\<And>q. N * B16 + uint u2 < q * (uint v1 * B16 + uint v2) \<Longrightarrow> q0 < q"
  shows "uint q * uint v1 + uint r = N \<Longrightarrow> uint r < B16 \<Longrightarrow> uint q \<le> B16 \<Longrightarrow> q0 \<le> uint q \<Longrightarrow> B16 \<le> uint r + int f * uint v1 \<Longrightarrow>
    \<exists>q'. qhat_loop f v1 v2 u2 q r = Inr q' \<and> q0 \<le> uint q' \<and> uint q' \<le> uint q \<and> uint q' * (uint v1 * B16 + uint v2) \<le> N * B16 + uint u2"
proof (induction f arbitrary: q r)
  case 0
  then show ?case by simp
next
  case (Suc f)
  have cond: "v2 * q > COMBINE r u2 \<longleftrightarrow> uint r * B16 + uint u2 < uint v2 * uint q"
    using uint_COMBINE [OF Suc.prems(2) v(4)] uint_small_mult [OF v(3) Suc.prems(3)] by (simp add: word_less_def)
  have eq: "uint q * (uint v1 * B16 + uint v2) = (N - uint r) * B16 + uint v2 * uint q" using Suc.prems(1) by (simp add: algebra_simps)
  show ?case
  proof (cases "v2 * q > COMBINE r u2")
    case False
    then have "uint q * (uint v1 * B16 + uint v2) \<le> N * B16 + uint u2" using cond eq by (simp add: algebra_simps)
    then show ?thesis using False Suc.prems(4) by simp
  next
    case True
    then have "N * B16 + uint u2 < uint q * (uint v1 * B16 + uint v2)" using cond eq by (simp add: algebra_simps)
    then have gt: "q0 < uint q" by (rule too_big)
    have q1: "uint (q - 1) = uint q - 1" using gt q0 by (intro uint_pred) simp
    have "uint (r + v1) = (uint r + uint v1) mod 4294967296" by (simp add: uint_word_ariths)
    also have "\<dots> = uint r + uint v1" using Suc.prems(2) v(1) uint_bounded [of r] uint_bounded [of v1] by (intro mod_pos_pos_trivial) auto
    finally have r1: "uint (r + v1) = uint r + uint v1" .
    have N: "uint (q - 1) * uint v1 + uint (r + v1) = N" using Suc.prems(1) unfolding q1 r1 by (simp add: algebra_simps)
    have run: "qhat_loop (Suc f) v1 v2 u2 q r = (if r + v1 \<ge> BASE then Inr (q - 1) else qhat_loop f v1 v2 u2 (q - 1) (r + v1))"
      using True by (simp add: Let_def)
    have ge: "r + v1 \<ge> BASE \<longleftrightarrow> B16 \<le> uint (r + v1)" by (simp add: word_le_def BASE_def)
    show ?thesis
    proof (cases "B16 \<le> uint (r + v1)")
      case True
      have "uint v2 * uint (q - 1) \<le> B16 * B16" using v(3) Suc.prems(3) q1 gt q0 by (intro mult_mono) auto
      also have "\<dots> \<le> uint (r + v1) * B16" using True by simp
      finally have "uint (q - 1) * (uint v1 * B16 + uint v2) \<le> N * B16" using N by (simp add: algebra_simps)
      then have "uint (q - 1) * (uint v1 * B16 + uint v2) \<le> N * B16 + uint u2" by (rule order_trans) simp
      then show ?thesis using True ge run gt q1 by simp
    next
      case False
      have p: "uint (r + v1) < B16" "uint (q - 1) \<le> B16" "q0 \<le> uint (q - 1)" using False q1 gt Suc.prems(3) by auto
      have "B16 \<le> uint (r + v1) + int f * uint v1" using Suc.prems(5) r1 by (simp add: algebra_simps)
      from Suc.IH [OF N p this] obtain q' where "qhat_loop f v1 v2 u2 (q - 1) (r + v1) = Inr q'" "q0 \<le> uint q'" "uint q' \<le> uint (q - 1)"
        "uint q' * (uint v1 * B16 + uint v2) \<le> N * B16 + uint u2" by blast
      then show ?thesis using False ge run q1 by simp
    qed
  qed
qed

lemma div_mult_le: "0 < v \<Longrightarrow> r div v * v \<le> r" for v r :: int
  using div_mult_mod_eq [of r v] pos_mod_sign [of v r] by linarith

lemma div_lessI: "0 < v \<Longrightarrow> r < q * v \<Longrightarrow> r div v < q" for v r q :: int
proof -
  assume "0 < v" "r < q * v"
  then have "r div v * v < q * v" using div_mult_le [of v r] by linarith
  then show ?thesis by (rule mult_right_less_imp_less) (use \<open>0 < v\<close> in simp)
qed

lemma div_le_less: "0 < v \<Longrightarrow> r div v \<le> q \<Longrightarrow> r < (q + 1) * v" for v r q :: int
proof -
  assume a: "0 < v" "r div v \<le> q"
  have "r div v * v \<le> q * v" using a by (intro mult_right_mono) simp_all
  then have "r < q * v + v" using div_mult_mod_eq [of r v] pos_mod_bound [OF a(1), of r] by linarith
  then show ?thesis by (simp add: algebra_simps)
qed

text \<open>The leading digits of dividend and divisor: \<open>R\<close> is the part of the dividend that is divided, \<open>V\<close> the
  divisor, \<open>X\<close> the weight of the digits that the estimate does not see.\<close>

lemma quotient_bounds:
  assumes V: "V = (v1 * B16 + v2) * X + v'" "0 \<le> v'" "v' < X" "0 \<le> v2" "1 \<le> v1"
    and R: "R = (N * B16 + u2) * X + u'" "0 \<le> u'" "u' < X" "0 \<le> u2" "u2 < B16" "0 \<le> N"
  shows "N * B16 + u2 < q * (v1 * B16 + v2) \<Longrightarrow> R div V < q"
    "R div V * v1 \<le> N"
    "0 \<le> q \<Longrightarrow> q < B16 \<Longrightarrow> q * (v1 * B16 + v2) \<le> N * B16 + u2 \<Longrightarrow> q \<le> R div V + 1"
proof -
  define W where "W = v1 * B16 + v2"
  have X: "0 < X" using V(2,3) by simp
  have W: "B16 \<le> W" using V(4,5) by (simp add: W_def)
  have VX: "V = W * X + v'" using V(1) by (simp add: W_def)
  have "0 < W * X" using W X by simp
  then have Vpos: "0 < V" using VX V(2) by simp
  have Rlt: "R < (N * B16 + u2 + 1) * X" using R(1,3) by (simp add: algebra_simps)
  show "R div V < q" if "N * B16 + u2 < q * (v1 * B16 + v2)"
  proof -
    have "0 \<le> N * B16 + u2" using R(4,6) by simp
    then have "0 < q * W" using that by (simp add: W_def)
    then have q: "0 \<le> q" using W by (simp add: zero_less_mult_iff)
    have "R < (N * B16 + u2 + 1) * X" by (rule Rlt)
    also have "\<dots> \<le> q * W * X" using that X by (intro mult_right_mono) (simp_all add: W_def)
    also have "\<dots> \<le> q * V" using q V(2) by (simp add: VX distrib_left mult.assoc)
    finally show ?thesis by (rule div_lessI [OF Vpos])
  qed
  show "R div V * v1 \<le> N"
  proof -
    let ?q = "R div V"
    have q: "0 \<le> ?q" using R X Vpos by (simp add: pos_imp_zdiv_nonneg_iff)
    have "?q * (v1 * B16 * X) \<le> ?q * V" using q V(1,2,4) X by (intro mult_left_mono) (simp_all add: algebra_simps)
    also have "\<dots> \<le> R" by (rule div_mult_le [OF Vpos])
    also have "\<dots> < (N * B16 + u2 + 1) * X" by (rule Rlt)
    also have "\<dots> \<le> (N + 1) * B16 * X" using R(5) X by (intro mult_right_mono) (simp_all add: algebra_simps)
    finally have "(?q * v1) * (B16 * X) < (N + 1) * (B16 * X)" by (simp only: mult.assoc)
    then have "?q * v1 < N + 1" by (rule mult_right_less_imp_less) (use X in simp)
    then show ?thesis by simp
  qed
  show "q \<le> R div V + 1" if q: "0 \<le> q" "q < B16" "q * (v1 * B16 + v2) \<le> N * B16 + u2"
  proof -
    have "q * V = (q * W) * X + q * v'" by (simp add: VX algebra_simps)
    also have "\<dots> \<le> (N * B16 + u2) * X + q * v'" using q(3) X by (simp add: W_def)
    also have "\<dots> \<le> R + q * v'" using R(1,2) by simp
    also have "q * v' \<le> B16 * v'" using q(2) V(2) by (intro mult_right_mono) simp_all
    also have "B16 * v' < B16 * X" using V(3) by simp
    also have "B16 * X \<le> V" using mult_right_mono [OF W, of X] X V(2) unfolding VX by linarith
    finally have "q * V < R + V" by simp
    then have "(q - 1) * V < R" by (simp add: algebra_simps)
    then have "(q - 1) * V div V \<le> R div V" using Vpos by (intro zdiv_mono1) simp_all
    then show ?thesis using Vpos by simp
  qed
qed

lemma estimate_ok:
  assumes d: "uint u0 < B16" "uint u1 < B16" "uint u2 < B16" "uint v1 < B16" "uint v2 < B16" "B16 \<le> 2 * uint v1"
    and V: "V = (uint v1 * B16 + uint v2) * X + v'" "0 \<le> v'" "v' < X"
    and R: "R = ((uint u0 * B16 + uint u1) * B16 + uint u2) * X + u'" "0 \<le> u'" "u' < X" "R < B16 * V"
  shows "\<exists>q. (if u0 = v1 then qhat_too_big 2 v1 v2 u2 BASE u1
      else let nn = COMBINE u0 u1 in qhat_loop 2 v1 v2 u2 (nn div v1) (nn mod v1)) = Inr q \<and>
    R div V \<le> uint q \<and> uint q \<le> R div V + 1 \<and> uint q < B16"
proof -
  define N where "N = uint u0 * B16 + uint u1"
  have nn: "0 \<le> uint v2" "1 \<le> uint v1" "0 \<le> uint u2" "0 \<le> N" using d(6) by (simp_all add: N_def)
  note qb = quotient_bounds [OF V nn(1,2) R(1) [folded N_def] R(2,3) nn(3) d(3) nn(4)]
  have X: "0 < X" using V(2,3) by simp
  have Vpos: "0 < V" using V(1,2) nn(1,2) X by (simp add: add_pos_nonneg)
  have q0: "0 \<le> R div V" using R(1-3) X Vpos by (simp add: pos_imp_zdiv_nonneg_iff)
  have q0B: "R div V < B16" by (rule div_lessI [OF Vpos R(4)])
  have fin: "uint q \<le> R div V + 1" if "uint q < B16" "uint q * (uint v1 * B16 + uint v2) \<le> N * B16 + uint u2" for q :: u32
    using qb(3) [of "uint q"] that by simp
  have result: "\<exists>q'. qhat_loop 2 v1 v2 u2 q r = Inr q' \<and> R div V \<le> uint q' \<and> uint q' \<le> R div V + 1 \<and> uint q' < B16"
    if "uint q * uint v1 + uint r = N" "uint r < B16" "uint q < B16" "R div V \<le> uint q" for q r
  proof -
    have "B16 \<le> uint r + int 2 * uint v1" using d(6) by (simp add: add_increasing)
    then have "\<exists>q'. qhat_loop 2 v1 v2 u2 q r = Inr q' \<and> R div V \<le> uint q' \<and> uint q' \<le> uint q \<and>
      uint q' * (uint v1 * B16 + uint v2) \<le> N * B16 + uint u2"
      by (intro qhat_loop_ok [OF d(4,6,5,3) q0 _ that(1,2) _ that(4)] qb(1)) (use that(3) in simp_all)
    then obtain q' where "qhat_loop 2 v1 v2 u2 q r = Inr q'" "R div V \<le> uint q'" "uint q' \<le> uint q"
      "uint q' * (uint v1 * B16 + uint v2) \<le> N * B16 + uint u2" by blast
    then show ?thesis using fin [of q'] that(3) by auto
  qed
  show ?thesis
  proof (cases "u0 = v1")
    case True
    have b: "uint (BASE - 1) = B16 - 1" by (simp add: BASE_def)
    have "uint (u1 + v1) = (uint u1 + uint v1) mod 4294967296" by (simp add: uint_word_ariths)
    also have "\<dots> = uint u1 + uint v1" using d(2,4) by (intro mod_pos_pos_trivial) (simp_all add: add_nonneg_nonneg)
    finally have r: "uint (u1 + v1) = uint u1 + uint v1" .
    have eq: "uint (BASE - 1) * uint v1 + uint (u1 + v1) = N" unfolding b r N_def True by (simp add: algebra_simps)
    have ge: "u1 + v1 \<ge> BASE \<longleftrightarrow> B16 \<le> uint (u1 + v1)" by (simp add: word_le_def BASE_def)
    show ?thesis
    proof (cases "B16 \<le> uint (u1 + v1)")
      case big: True
      have "uint v2 * (B16 - 1) \<le> B16 * B16" using d(5) by simp
      also have "\<dots> \<le> uint (u1 + v1) * B16" using big by simp
      finally have "uint (BASE - 1) * (uint v1 * B16 + uint v2) \<le> N * B16" using eq unfolding b by (simp add: algebra_simps)
      then have "uint (BASE - 1) * (uint v1 * B16 + uint v2) \<le> N * B16 + uint u2" by (rule order_trans) simp
      then show ?thesis using True big ge fin [of "BASE - 1"] q0B b by (simp add: Let_def)
    next
      case False
      then show ?thesis using True ge result [OF eq] q0B b by (simp add: Let_def)
    qed
  next
    case False
    have u0: "uint u0 < uint v1"
    proof (rule ccontr)
      assume "\<not> uint u0 < uint v1"
      then have "uint v1 + 1 \<le> uint u0" using False by (simp add: word_uint_eq_iff)
      then have "(uint v1 + 1) * (B16 * B16 * X) \<le> uint u0 * (B16 * B16 * X)" using X by (intro mult_right_mono) simp_all
      also have "\<dots> \<le> R" using R(1,2) X d by (simp add: algebra_simps add_nonneg_nonneg)
      also have "\<dots> < B16 * V" by (rule R(4))
      also have "\<dots> \<le> B16 * ((uint v1 * B16 + uint v2 + 1) * X)" using V(1,3) by (simp add: algebra_simps)
      also have "\<dots> \<le> B16 * ((uint v1 * B16 + B16) * X)" using d(5) X by simp
      finally show False by (simp add: algebra_simps)
    qed
    have c: "uint (COMBINE u0 u1) = N" using uint_COMBINE [OF d(1,2)] by (simp add: N_def)
    have w: "uint (COMBINE u0 u1 div v1) = N div uint v1" "uint (COMBINE u0 u1 mod v1) = N mod uint v1" by (simp_all add: uint_div uint_mod c)
    have eq: "uint (COMBINE u0 u1 div v1) * uint v1 + uint (COMBINE u0 u1 mod v1) = N" unfolding w by simp
    have m: "N mod uint v1 < uint v1" using nn(2) by simp
    have "N < B16 * uint v1" using u0 d(2) unfolding N_def by linarith
    then have dv: "N div uint v1 < B16" using nn(2) by (intro div_lessI) simp_all
    have "R div V * uint v1 div uint v1 \<le> N div uint v1" using qb(2) nn(2) by (intro zdiv_mono1) simp_all
    then have le: "R div V \<le> N div uint v1" using nn(2) by simp
    show ?thesis using False result [OF eq] m dv le d(4) unfolding w by (simp add: Let_def)
  qed
qed

section \<open>One digit of the quotient\<close>

lemma last_borrow:
  assumes "uint t1 < B16" and Y: "Y = D d - uint t1" and t: "t = ucast d - t1"
  shows "D (ucast (LHALF t)) = (if Y < 0 then Y + B16 else Y)" "HHALF t \<noteq> 0 \<longleftrightarrow> Y < 0" "- B16 < Y" "Y < B16"
proof -
  have "t = of_int Y" unfolding t Y by (simp flip: uint_digit)
  then have ut: "uint t = Y mod 2 ^ 32" using uint_mod32 by simp
  show b1: "- B16 < Y" using D_range [of d] assms(1) Y by linarith
  show b2: "Y < B16" using D_range [of d] uint_nonneg [of t1] Y by linarith
  note b = b1 b2
  have y: "Y mod B16 = (if Y < 0 then Y + B16 else Y)"
  proof (cases "Y < 0")
    case True
    have "Y mod B16 = (Y + B16) mod B16" by simp
    also have "\<dots> = Y + B16" using b True by (intro mod_pos_pos_trivial) auto
    finally show ?thesis using True by simp
  qed (use b in simp)
  then show "D (ucast (LHALF t)) = (if Y < 0 then Y + B16 else Y)" unfolding D_LHALF ut mod_square(2) .
  have "HHALF t \<noteq> 0 \<longleftrightarrow> uint (HHALF t) \<noteq> 0" by (simp add: unsigned_eq_0_iff)
  also have "uint (HHALF t) = Y div B16 mod B16" unfolding uint_HHALF ut by (rule mod_square(1))
  also have "\<dots> \<noteq> 0 \<longleftrightarrow> Y < 0"
  proof (cases "Y < 0")
    case True
    then have "Y div B16 = - 1" using b by auto
    then show ?thesis using True by simp
  qed (use b in simp)
  finally show "HHALF t \<noteq> 0 \<longleftrightarrow> Y < 0" .
qed

lemma quotient_exact:
  fixes q V R :: int
  assumes "0 < V" "q * V \<le> R" "R < (q + 1) * V"
  shows "R div V = q" "R mod V = R - q * V"
proof -
  have "R - q * V < V" using assms(3) by (simp add: algebra_simps)
  then have "(R - q * V) div V = 0" using assms(1,2) by (intro div_pos_pos_trivial) simp_all
  moreover have "R div V = q + (R - q * V) div V" using assms(1) div_mult_self3 [of V q "R - q * V"] by simp
  ultimately show "R div V = q" by simp
  then show "R mod V = R - q * V" by (simp add: minus_div_mult_eq_mod [symmetric])
qed

lemma div_step_ok:
  assumes n: "2 \<le> n" "p + n < length u" and v1: "B16 \<le> 2 * D (v ! (vo + 1))"
    and R: "R = dval u p (Suc n)" and V: "V = dval v (vo + 1) n" and RV: "R < B16 * V"
  shows "\<exists>qd u'. div_step n u p v vo = Inr (qd, u') \<and> D qd = R div V \<and> dval u' p (Suc n) = R mod V \<and>
    length u' = length u \<and> (\<forall>k. k < p \<or> p + n < k \<longrightarrow> u' ! k = u ! k)"
proof -
  let ?d = "\<lambda>x :: digit. ucast x :: u32"
  obtain n0 where n0: "n = 2 + n0" using n(1) le_Suc_ex by blast
  define X where "X = B16 ^ n0"
  have Vs: "V = (D (v ! (vo + 1)) * B16 + D (v ! (vo + 2))) * X + dval v (vo + 3) n0"
    using dval_split [of v "vo + 1" 2 n0] by (simp add: V n0 X_def numeral_2_eq_2 numeral_3_eq_3)
  have Rs: "R = ((D (u ! p) * B16 + D (u ! (p + 1))) * B16 + D (u ! (p + 2))) * X + dval u (p + 3) n0"
    using dval_split [of u p 3 n0] by (simp add: R n0 X_def numeral_3_eq_3 numeral_2_eq_2)
  have xr: "dval v (vo + 3) n0 < X" "dval u (p + 3) n0 < X" unfolding X_def by (rule dval_range)+
  have Dr: "uint (?d x) < B16" for x unfolding uint_digit by (rule D_range)
  have Vpos: "0 < V" using RV dval_range(1) [of u p "Suc n"] R by linarith
  have q0: "0 \<le> R div V" using dval_range(1) [of u p "Suc n"] R Vpos by (simp add: pos_imp_zdiv_nonneg_iff)
  obtain q where q: "(if ?d (u ! p) = ?d (v ! (vo + 1)) then qhat_too_big 2 (?d (v ! (vo + 1))) (?d (v ! (vo + 2))) (?d (u ! (p + 2))) BASE (?d (u ! (p + 1)))
      else let nn = COMBINE (?d (u ! p)) (?d (u ! (p + 1))) in
        qhat_loop 2 (?d (v ! (vo + 1))) (?d (v ! (vo + 2))) (?d (u ! (p + 2))) (nn div ?d (v ! (vo + 1))) (nn mod ?d (v ! (vo + 1)))) = Inr q"
    "R div V \<le> uint q" "uint q \<le> R div V + 1" "uint q < B16"
    using estimate_ok [OF Dr [of "u ! p"] Dr [of "u ! (p + 1)"] Dr [of "u ! (p + 2)"] Dr [of "v ! (vo + 1)"] Dr [of "v ! (vo + 2)"] _ _ _ _ _ _ _ RV,
        unfolded uint_digit, OF v1 Vs dval_range(1) xr(1) Rs dval_range(1) xr(2)] by blast
  obtain u1 t1 where m: "mul_sub n u p v vo q 0 = (u1, t1)" by fastforce
  have m1: "length u1 = length u" "uint t1 < B16" "\<forall>k. k \<le> p \<or> p + n < k \<longrightarrow> u1 ! k = u ! k"
    "dval u (p + 1) n - uint q * V = dval u1 (p + 1) n - B16 ^ n * uint t1"
    using mul_sub_ok [OF n(2) q(4) _ m] V by simp_all
  define t where "t = ?d (u1 ! p) - t1"
  define Y where "Y = D (u1 ! p) - uint t1"
  define u2 where "u2 = u1[p := ucast (LHALF t)]"
  note lb = last_borrow [OF m1(2) Y_def t_def]
  have pl: "p < length u1" using n(2) m1(1) by simp
  have RY: "R - uint q * V = Y * B16 ^ n + dval u1 (p + 1) n"
    using m1(3,4) dval_Cons [of u p n] by (simp add: R Y_def algebra_simps)
  have d1: "dval u2 (p + 1) n = dval u1 (p + 1) n" unfolding u2_def by (rule dval_upd) simp
  have d2: "dval u2 p (Suc n) = (if Y < 0 then Y + B16 else Y) * B16 ^ n + dval u1 (p + 1) n"
    using dval_Cons [of u2 p n] d1 lb(1) pl by (simp add: u2_def)
  have step: "div_step n u p v vo = (if Y < 0 then
        let (u, t) = add_back n u2 p v vo 0 in Inr (ucast (q - 1), u[p := ucast (LHALF (?d (u ! p) + t))])
      else Inr (ucast q, u2))"
    unfolding div_step_def Let_def q(1) [unfolded Let_def] bindR_Inr m prod.case t_def [symmetric] u2_def [symmetric] lb(2) ..
  have dq: "D (ucast x) = uint x" if "uint x < B16" for x :: u32 using that by (simp add: D_ucast)
  show ?thesis
  proof (cases "Y < 0")
    case False
    then have r: "dval u2 p (Suc n) = R - uint q * V" using d2 RY by simp
    then have "uint q * V \<le> R" using dval_range(1) [of u2 p "Suc n"] by linarith
    moreover have "R < (uint q + 1) * V" by (rule div_le_less [OF Vpos q(2)])
    ultimately have "R div V = uint q" "R mod V = R - uint q * V" by (rule quotient_exact [OF Vpos])+
    then show ?thesis using False step r dq [OF q(4)] m1(1,3) by (auto simp: u2_def)
  next
    case True
    obtain u3 t3 where a: "add_back n u2 p v vo 0 = (u3, t3)" by fastforce
    have l2: "length u2 = length u" using m1(1) by (simp add: u2_def)
    have a1: "length u3 = length u" "uint t3 \<le> 1" "\<forall>k. k \<le> p \<or> p + n < k \<longrightarrow> u3 ! k = u2 ! k"
      "dval u2 (p + 1) n + V = dval u3 (p + 1) n + B16 ^ n * uint t3"
      using add_back_ok [of p n u2 0, OF _ _ a] n(2) l2 V by simp_all
    have neg: "R - uint q * V < 0"
    proof -
      have "Y * B16 ^ n \<le> (- 1) * B16 ^ n" using True by (intro mult_right_mono) simp_all
      then show ?thesis using RY dval_range(2) [of u1 "p + 1" n] by linarith
    qed
    have q1: "uint q = R div V + 1"
    proof (rule ccontr)
      assume "uint q \<noteq> R div V + 1"
      then have "uint q = R div V" using q(2,3) by linarith
      then show False using neg div_mult_le [OF Vpos, of R] by simp
    qed
    have Rm: "R mod V = R - uint q * V + V" by (simp add: q1 algebra_simps minus_div_mult_eq_mod [symmetric])
    have Vn: "V < B16 ^ n" unfolding V by (rule dval_range)
    define Z where "Z = Y + B16 + uint t3"
    have eq: "Z * B16 ^ n + dval u3 (p + 1) n = R mod V + B16 * B16 ^ n"
      using RY a1(4) d1 unfolding Rm Z_def by (simp add: algebra_simps)
    have rm: "0 \<le> R mod V" "R mod V < B16 ^ n" using pos_mod_bound [OF Vpos, of R] pos_mod_sign [OF Vpos, of R] Vn by linarith+
    have "Z = B16"
    proof -
      have "Z = (Z * B16 ^ n + dval u3 (p + 1) n) div B16 ^ n" using dval_range [of u3 "p + 1" n] by (simp add: div_pos_pos_trivial)
      also have "\<dots> = (R mod V + B16 * B16 ^ n) div B16 ^ n" by (simp only: eq)
      also have "\<dots> = B16" using rm by (simp add: div_pos_pos_trivial)
      finally show ?thesis .
    qed
    then have v3: "dval u3 (p + 1) n = R mod V" using eq by simp
    define u4 where "u4 = u3[p := ucast (LHALF (?d (u3 ! p) + t3))]"
    have "D (u2 ! p) = Y + B16" using lb(1) True pl by (simp add: u2_def)
    then have "uint (?d (u3 ! p) + t3) = B16"
      using a1(3) \<open>Z = B16\<close> uint_digit [of "u3 ! p"] by (simp add: uint_word_ariths Z_def)
    then have "D (u4 ! p) = 0" using n(2) a1(1) D_LHALF [of "?d (u3 ! p) + t3"] by (simp add: u4_def)
    moreover have "dval u4 (p + 1) n = dval u3 (p + 1) n" unfolding u4_def by (rule dval_upd) simp
    ultimately have "dval u4 p (Suc n) = R mod V" using dval_Cons [of u4 p n] v3 by simp
    moreover have "D (ucast (q - 1)) = R div V" using q(4) q1 uint_pred [of q] dq [of "q - 1"] q0 by simp
    moreover have "div_step n u p v vo = Inr (ucast (q - 1), u4)" unfolding step a u4_def using True by simp
    moreover have "u4 ! k = u ! k" if "k < p \<or> p + n < k" for k using that a1(3) m1(3) by (auto simp: u4_def u2_def)
    moreover have "length u4 = length u" using a1(1) by (simp add: u4_def)
    ultimately show ?thesis by blast
  qed
qed

end
