(* ===== verification/Division.thy ===== *)
theory Division
  imports Qdivrem
begin

text \<open>
  The loops around one digit of the division: normalisation by shifts, the loop over the digits,
  and the whole of \<^verbatim>\<open>__qdivrem\<close>, with the signed and unsigned operations built on it.
\<close>

section \<open>The loop over the digits\<close>

lemma div_loop_ok:
  assumes n: "2 \<le> n" and v1: "B16 \<le> 2 * D (v ! (vo + 1))" and V: "V = dval v (vo + 1) n"
  shows "uo + j + n + k < length u \<Longrightarrow> qo + j + k < length q \<Longrightarrow> dval u (uo + j) (Suc n) < B16 * V \<Longrightarrow>
    N = dval u (uo + j) (Suc n + k) \<Longrightarrow>
    \<exists>q' u'. div_loop k j n u uo v vo q qo = Inr (q', u') \<and> length q' = length q \<and> length u' = length u \<and>
      dval q' (qo + j) (Suc k) = N div V \<and> dval u' (uo + j) (Suc n + k) = N mod V \<and>
      (\<forall>i < qo + j. q' ! i = q ! i) \<and> (\<forall>i < uo + j. u' ! i = u ! i)"
proof (induction k arbitrary: j u q N)
  case 0
  have len: "uo + j + n < length u" using 0(1) by simp
  obtain qd u' where s: "div_step n u (uo + j) v vo = Inr (qd, u')" "D qd = N div V" "dval u' (uo + j) (Suc n) = N mod V" "length u' = length u"
    "\<forall>i. i < uo + j \<or> uo + j + n < i \<longrightarrow> u' ! i = u ! i"
    using div_step_ok [OF n len v1 refl V 0(3)] 0(4) by auto
  have "dval (q[qo + j := qd]) (qo + j) (Suc 0) = N div V" using 0(2) s(2) by simp
  then show ?case using s by (simp add: Let_def)
next
  case (Suc k)
  let ?p = "uo + j"
  define R where "R = dval u ?p (Suc n)"
  have len: "?p + n < length u" using Suc.prems(1) by simp
  have RV: "R < B16 * V" using Suc.prems(3) by (simp add: R_def)
  have Vpos: "0 < V" using RV dval_range(1) [of u ?p "Suc n"] unfolding R_def by linarith
  obtain qd u1 where s: "div_step n u ?p v vo = Inr (qd, u1)" "D qd = R div V" "dval u1 ?p (Suc n) = R mod V" "length u1 = length u"
    "\<forall>i. i < ?p \<or> ?p + n < i \<longrightarrow> u1 ! i = u ! i"
    using div_step_ok [OF n len v1 R_def V RV] by auto
  define L where "L = dval u (?p + Suc n) (Suc k)"
  have N: "N = R * B16 ^ Suc k + L" using Suc.prems(4) dval_split [of u ?p "Suc n" "Suc k"] by (simp add: R_def L_def)
  have L1: "dval u1 (?p + Suc n) (Suc k) = L" unfolding L_def by (rule dval_cong) (use s(5) in simp)
  have rV: "R mod V < V" by (rule pos_mod_bound [OF Vpos])
  have "V < B16 ^ n" unfolding V by (rule dval_range)
  then have sm: "dval u1 ?p (1 + n) < B16 ^ n" using s(3) rV by simp
  have top: "dval u1 (?p + 1) n = R mod V" "D (u1 ! ?p) = 0" using dval_small [OF sm] s(3) by simp_all
  have N1: "dval u1 (uo + Suc j) (Suc n + k) = (R mod V) * B16 ^ Suc k + L"
    using dval_split [of u1 "?p + 1" n "Suc k"] top(1) L1 by simp
  have "dval u1 (uo + Suc j) (Suc n) = R mod V * B16 + D (u1 ! (?p + 1 + n))" using top(1) by simp
  also have "\<dots> < (R mod V + 1) * B16" using D_range(2) by simp
  also have "\<dots> \<le> B16 * V" using rV by simp
  finally have RV1: "dval u1 (uo + Suc j) (Suc n) < B16 * V" .
  let ?q = "q[qo + j := qd]"
  obtain q' u' where IH: "div_loop k (Suc j) n u1 uo v vo ?q qo = Inr (q', u')" "length q' = length q" "length u' = length u1"
    "dval q' (qo + Suc j) (Suc k) = ((R mod V) * B16 ^ Suc k + L) div V" "dval u' (uo + Suc j) (Suc n + k) = ((R mod V) * B16 ^ Suc k + L) mod V"
    "\<forall>i < qo + Suc j. q' ! i = ?q ! i" "\<forall>i < uo + Suc j. u' ! i = u1 ! i"
    using Suc.IH [of "Suc j" u1 ?q, OF _ _ RV1 N1 [symmetric]] Suc.prems(1,2) s(4) unfolding length_list_update by (simp del: dval.simps div_loop.simps) blast
  have Ns: "N = R div V * B16 ^ Suc k * V + ((R mod V) * B16 ^ Suc k + L)"
  proof -
    have "N = (R div V * V + R mod V) * B16 ^ Suc k + L" unfolding N by (simp only: div_mult_mod_eq)
    then show ?thesis by (simp only: distrib_right ac_simps)
  qed
  have "dval q' (qo + j) (Suc (Suc k)) = D (q' ! (qo + j)) * B16 ^ Suc k + dval q' (qo + Suc j) (Suc k)" using dval_Cons [of q' "qo + j" "Suc k"] by simp
  also have "\<dots> = R div V * B16 ^ Suc k + ((R mod V) * B16 ^ Suc k + L) div V" using IH(4,6) s(2) Suc.prems(2) by simp
  also have "\<dots> = N div V" unfolding Ns using Vpos by simp
  finally have Q: "dval q' (qo + j) (Suc (Suc k)) = N div V" .
  have "dval u' ?p (Suc n + Suc k) = D (u' ! ?p) * B16 ^ (Suc n + k) + dval u' (uo + Suc j) (Suc n + k)" using dval_Cons [of u' ?p "Suc n + k"] by simp
  also have "\<dots> = ((R mod V) * B16 ^ Suc k + L) mod V" using IH(5,7) top(2) by simp
  also have "\<dots> = N mod V" unfolding Ns by simp
  finally have U: "dval u' ?p (Suc n + Suc k) = N mod V" .
  have "div_loop (Suc k) j n u uo v vo q qo = Inr (q', u')" using s(1) IH(1) by (simp add: Let_def)
  then show ?case using Q U IH(2,3,6,7) s(4,5) by auto
qed

section \<open>Shifting digit sequences\<close>

lemma D_shift:
  assumes "sh \<le> 16"
  shows "D (ucast (LHALF (push_bit sh (ucast a :: u32)) OR drop_bit (16 - sh) (ucast b))) = (D a * 2 ^ sh) mod B16 + D b div 2 ^ (16 - sh)"
proof -
  let ?x = "LHALF (push_bit sh (ucast a :: u32))" and ?y = "drop_bit (16 - sh) (ucast b :: u32)"
  have "uint (push_bit sh (ucast a :: u32)) = take_bit 32 (push_bit sh (uint (ucast a :: u32)))" by (simp add: unsigned_push_bit_eq)
  then have "uint (push_bit sh (ucast a :: u32)) = (D a * 2 ^ sh) mod 2 ^ 32" unfolding uint_digit by (simp add: take_bit_eq_mod push_bit_eq_mult)
  then have x: "uint ?x = (D a * 2 ^ sh) mod B16" by (simp add: uint_LHALF mod_mod_cancel)
  have "take_bit 32 (D b) = D b" using D_range [of b] by (simp add: take_bit_int_eq_self_iff)
  then have y: "uint ?y = D b div 2 ^ (16 - sh)" unfolding unsigned_drop_bit_eq uint_digit by (simp add: drop_bit_eq_div)
  have n: "\<not> bit (uint ?x) n \<or> \<not> bit (uint ?y) n" for n
    using assms by (auto simp: bit_uint_iff LHALF_take bit_simps dest: bit_imp_le_length)
  have "0 \<le> D b div 2 ^ (16 - sh)" "D b div 2 ^ (16 - sh) \<le> D b" using D_range [of b] zdiv_mono2 [of "D b" 1 "2 ^ (16 - sh)"] by (simp_all add: pos_imp_zdiv_nonneg_iff)
  then have s: "take_bit 16 (uint ?x) = uint ?x" "take_bit 16 (uint ?y) = uint ?y"
    unfolding x y using D_range [of b] by (auto simp: take_bit_int_eq_self_iff)
  have "D (ucast (?x OR ?y)) = take_bit 16 (uint ?x OR uint ?y)" by (simp add: D_def unsigned_ucast_eq uint_or)
  also have "\<dots> = uint ?x OR uint ?y" unfolding take_bit_or s ..
  also have "\<dots> = uint ?x + uint ?y" by (rule disjunctive_add [OF n, symmetric])
  finally show ?thesis unfolding x y .
qed

lemma pow16: "k \<le> 16 \<Longrightarrow> (B16 :: int) = 2 ^ k * 2 ^ (16 - k)"
proof -
  assume "k \<le> 16"
  then have "(2 :: int) ^ k * 2 ^ (16 - k) = 2 ^ (k + (16 - k))" by (simp only: power_add)
  then show ?thesis using \<open>k \<le> 16\<close> by simp
qed

lemma shift_digit:
  assumes "sh \<le> 16" "0 \<le> c" "c < 2 ^ sh"
  shows "(A * 2 ^ sh + c) mod B16 = (A * 2 ^ sh) mod B16 + c"
proof -
  have h: "(2 ^ sh * A + c) div 2 ^ sh = A" using assms by simp
  have r: "(2 ^ sh * A + c) mod 2 ^ sh = c" using assms by simp
  have z: "x mod B16 = 2 ^ sh * (x div 2 ^ sh mod 2 ^ (16 - sh)) + x mod 2 ^ sh" for x :: int
    unfolding pow16 [OF assms(1)] by (rule zmod_zmult2_eq) simp
  show ?thesis using z [of "2 ^ sh * A + c"] z [of "2 ^ sh * A"] h r by (simp add: mult.commute [of A])
qed

lemma shift_carry:
  assumes "sh \<le> 16" "0 \<le> R" "R < X"
  shows "((b * X + R) * 2 ^ sh) div (B16 * X) = b div 2 ^ (16 - sh)"
proof -
  have "((b * X + R) * 2 ^ sh) div (B16 * X) = (2 ^ sh * (b * X + R)) div (2 ^ sh * (X * 2 ^ (16 - sh)))"
    unfolding pow16 [OF assms(1)] by (simp only: ac_simps)
  also have "\<dots> = (b * X + R) div X div 2 ^ (16 - sh)" using assms by (simp add: zdiv_zmult2_eq)
  also have "(b * X + R) div X = b" using assms by simp
  finally show ?thesis .
qed

lemma shl_ok:
  assumes sh: "sh \<le> 16"
  shows "p + len < length a \<Longrightarrow> length (shl a p len sh) = length a \<and> (\<forall>i. i < p \<or> p + len < i \<longrightarrow> shl a p len sh ! i = a ! i) \<and>
    dval (shl a p len sh) p (Suc len) = (dval a p (Suc len) * 2 ^ sh) mod B16 ^ Suc len"
proof (induction len arbitrary: a p)
  case 0
  then show ?case using D_shift [OF sh, of "a ! p" 0] by simp
next
  case (Suc len)
  let ?b = "D (a ! Suc p)" and ?A = "D (a ! p)" and ?T = "dval a (Suc p) (Suc len)" and ?K = "B16 ^ Suc len"
  define x :: digit where "x = ucast (LHALF (push_bit sh (ucast (a ! p))) OR drop_bit (16 - sh) (ucast (a ! Suc p)))"
  let ?r = "shl (a[p := x]) (Suc p) len sh"
  have IH: "length ?r = length a" "\<forall>i. i < Suc p \<or> Suc p + len < i \<longrightarrow> ?r ! i = a[p := x] ! i"
    "dval ?r (Suc p) (Suc len) = (dval (a[p := x]) (Suc p) (Suc len) * 2 ^ sh) mod ?K"
    using Suc.IH [of "Suc p" "a[p := x]"] Suc.prems by simp_all
  have T: "dval (a[p := x]) (Suc p) (Suc len) = ?T" by (rule dval_upd) simp
  have c: "?T * 2 ^ sh div ?K = ?b div 2 ^ (16 - sh)"
    using shift_carry [OF sh dval_range [of a "Suc (Suc p)" len], of ?b] dval_Cons [of a "Suc p" len] by simp
  have b: "0 \<le> ?b div 2 ^ (16 - sh)" using D_range [of "a ! Suc p"] by (simp add: pos_imp_zdiv_nonneg_iff)
  have b2: "?b div 2 ^ (16 - sh) < 2 ^ sh" by (rule div_lessI) (use D_range(2) [of "a ! Suc p"] pow16 [OF sh] in simp_all)
  have x: "D x = (?A * 2 ^ sh + ?b div 2 ^ (16 - sh)) mod B16" unfolding x_def D_shift [OF sh] shift_digit [OF sh b b2] ..
  have "?r ! p = x" using IH(2) Suc.prems by simp
  then have "dval ?r p (Suc (Suc len)) = D x * ?K + (?T * 2 ^ sh) mod ?K" using dval_Cons [of ?r p "Suc len"] IH(3) T by simp
  also have "\<dots> = (?A * ?K + ?T) * 2 ^ sh mod (?K * B16)"
  proof -
    have w: "(?A * ?K + ?T) * 2 ^ sh = ?T * 2 ^ sh + ?A * 2 ^ sh * ?K" by (simp only: distrib_right distrib_left ac_simps)
    have K: "?K \<noteq> 0" by simp
    have "(?A * ?K + ?T) * 2 ^ sh div ?K = ?A * 2 ^ sh + ?b div 2 ^ (16 - sh)" unfolding w div_mult_self1 [OF K] c by simp
    moreover have "(?A * ?K + ?T) * 2 ^ sh mod ?K = ?T * 2 ^ sh mod ?K" unfolding w by (rule mod_mult_self1)
    ultimately show ?thesis using zmod_zmult2_eq [of B16 "(?A * ?K + ?T) * 2 ^ sh" ?K] x by (simp only: mult.commute)
  qed
  also have "?A * ?K + ?T = dval a p (Suc (Suc len))" using dval_Cons [of a p "Suc len"] by simp
  finally have "dval ?r p (Suc (Suc len)) = (dval a p (Suc (Suc len)) * 2 ^ sh) mod B16 ^ Suc (Suc len)" by (simp only: power_Suc2)
  then show ?case using IH(1,2) by (simp add: x_def [symmetric] del: dval.simps)
qed

lemma norm_loop_ok: "B16 \<le> 2 * uint t * 2 ^ f \<Longrightarrow> uint t < B16 \<Longrightarrow>
  \<exists>e. norm_loop f t d = Inr (d + e) \<and> e \<le> f \<and> B16 \<le> 2 * (uint t * 2 ^ e) \<and> uint t * 2 ^ e < B16"
proof (induction f arbitrary: t d)
  case 0
  then show ?case by (simp add: BASE_def word_less_def not_less)
next
  case (Suc f)
  show ?case
  proof (cases "t < BASE div 2")
    case True
    then have l: "uint t < 32768" by (simp add: BASE_def word_less_def)
    then have t: "uint (push_bit 1 t) = 2 * uint t" using uint_small_mult [of t 2] by simp
    obtain e where "norm_loop f (push_bit 1 t) (Suc d) = Inr (Suc d + e)" "e \<le> f" "B16 \<le> 2 * (uint (push_bit 1 t) * 2 ^ e)" "uint (push_bit 1 t) * 2 ^ e < B16"
      using Suc.IH [of "push_bit 1 t" "Suc d"] Suc.prems l t by auto
    then show ?thesis using True t by (intro exI [of _ "Suc e"]) simp
  next
    case False
    then have "B16 \<le> 2 * uint t" by (simp add: BASE_def word_less_def not_less)
    then show ?thesis using False Suc.prems by (intro exI [of _ 0]) simp
  qed
qed

lemma shift_right_digit:
  assumes d: "d \<le> 16" and a: "P mod B16 = A" and b: "0 \<le> b"
  shows "(P * B16 + b) div 2 ^ d = P div 2 ^ d * B16 + ((A * 2 ^ (16 - d)) mod B16 + b div 2 ^ d)"
proof -
  let ?X = "2 ^ d :: int" and ?Y = "2 ^ (16 - d) :: int"
  have XY: "B16 = ?X * ?Y" by (rule pow16 [OF d])
  have "(P * B16 + b) div ?X = P * ?Y + b div ?X"
  proof -
    have e: "P * B16 + b = b + P * ?Y * ?X" unfolding XY by simp
    show ?thesis unfolding e by simp
  qed
  also have "P * ?Y = P div ?X * B16 + P mod ?X * ?Y"
  proof -
    have "P * ?Y = (P div ?X * ?X + P mod ?X) * ?Y" by (simp only: div_mult_mod_eq)
    then show ?thesis unfolding XY by (simp only: distrib_right distrib_left ac_simps)
  qed
  also have "P mod ?X * ?Y = (A * ?Y) mod B16"
  proof -
    have "P mod ?X = A mod ?X" unfolding a [symmetric] XY by (rule mod_mod_cancel [symmetric]) simp
    then show ?thesis unfolding XY by (simp add: mult_mod_left)
  qed
  finally show ?thesis by simp
qed

lemma shr_loop_ok:
  assumes d: "d \<le> 16"
  shows "p + k < length u \<Longrightarrow> u ! p = 0 \<Longrightarrow> length (shr_loop k u p d) = length u \<and> (\<forall>i. i < p \<or> p + k < i \<longrightarrow> shr_loop k u p d ! i = u ! i) \<and>
    dval (shr_loop k u p d) p (Suc k) = dval u p (Suc k) div 2 ^ d"
proof (induction k arbitrary: u)
  case 0
  then show ?case by simp
next
  case (Suc k)
  define x :: digit where "x = ucast (drop_bit d (ucast (u ! (p + Suc k)) :: u32) OR LHALF (push_bit (16 - d) (ucast (u ! (p + k)))))"
  let ?r = "shr_loop k (u[p + Suc k := x]) p d" and ?P = "dval u p (Suc k)"
  have IH: "length ?r = length u" "\<forall>i. i < p \<or> p + k < i \<longrightarrow> ?r ! i = u[p + Suc k := x] ! i"
    "dval ?r p (Suc k) = dval (u[p + Suc k := x]) p (Suc k) div 2 ^ d"
    using Suc.IH [of "u[p + Suc k := x]"] Suc.prems by simp_all
  have P: "dval (u[p + Suc k := x]) p (Suc k) = ?P" by (rule dval_upd) simp
  have x: "D x = (D (u ! (p + k)) * 2 ^ (16 - d)) mod B16 + D (u ! (p + Suc k)) div 2 ^ d"
    using D_shift [of "16 - d" "u ! (p + k)" "u ! (p + Suc k)"] d unfolding x_def by (simp add: or.commute)
  have m: "?P mod B16 = D (u ! (p + k))" using D_range [of "u ! (p + k)"] by simp
  have "dval ?r p (Suc (Suc k)) = dval ?r p (Suc k) * B16 + D (?r ! (p + Suc k))" by simp
  also have "\<dots> = ?P div 2 ^ d * B16 + D x" using IH P Suc.prems by simp
  also have "\<dots> = (?P * B16 + D (u ! (p + Suc k))) div 2 ^ d" unfolding x by (rule shift_right_digit [OF d m D_range(1), symmetric])
  finally have "dval ?r p (Suc (Suc k)) = dval u p (Suc (Suc k)) div 2 ^ d" by simp
  moreover have "shr_loop (Suc k) u p d = ?r" by (simp add: x_def)
  ultimately show ?case using IH(1,2) by (simp del: dval.simps shr_loop.simps)
qed

section \<open>The whole division\<close>

lemma lead_v_4: "lead_v 4 0 v =
  (if v ! 1 \<noteq> 0 then Inr (4, 0) else if v ! 2 \<noteq> 0 then Inr (3, 1) else if v ! 3 \<noteq> 0 then Inr (2, 2) else Inl 2)"
  by (simp add: eval_nat_numeral)

lemma lead_u_ok:
  "uo < i \<Longrightarrow> i < length u \<Longrightarrow> u ! i \<noteq> 0 \<Longrightarrow>
    \<exists>k. lead_u m uo u = Inr (m - int k, uo + k) \<and> uo + k + 1 < length u \<and> u ! (uo + k + 1) \<noteq> 0 \<and> (\<forall>j. uo < j \<and> j \<le> uo + k \<longrightarrow> u ! j = 0)"
proof (induction m uo u rule: lead_u.induct)
  case (1 m uo u)
  show ?case
  proof (cases "u ! (uo + 1) = 0")
    case True
    then have i: "uo + 1 < i" using 1(2,4) by (cases "i = uo + 1") simp_all
    have l: "\<not> length u \<le> uo + 1" using i 1(3) by simp
    obtain k where k: "lead_u (m - 1) (uo + 1) u = Inr (m - 1 - int k, uo + 1 + k)" "uo + 1 + k + 1 < length u" "u ! (uo + 1 + k + 1) \<noteq> 0"
      "\<forall>j. uo + 1 < j \<and> j \<le> uo + 1 + k \<longrightarrow> u ! j = 0"
      using 1(1) [OF l _ i 1(3,4)] True by blast
    have "u ! j = 0" if "uo < j \<and> j \<le> uo + Suc k" for j
      using k(4) that True by (cases "j = uo + 1") simp_all
    then show ?thesis using True l k(1-3) by (intro exI [of _ "Suc k"]) (simp add: lead_u.simps [of m])
  next
    case False
    then show ?thesis using 1(2,3) by (intro exI [of _ 0]) (auto simp: lead_u.simps)
  qed
qed

lemma uint_UU: "uint (UU h l) = uint h * 4294967296 + uint l"
proof -
  have "int (unat (UU h l)) = int (unat (HI (UU h l)) * 2 ^ 32 + unat (LO (UU h l)))" using unat_halves [of "UU h l"] by (rule arg_cong)
  then show ?thesis by simp
qed

lemma uint_four:
  "uint (UU (COMBINE (ucast a) (ucast b)) (COMBINE (ucast c) (ucast d))) = ((D a * B16 + D b) * B16 + D c) * B16 + D d" for a b c d :: digit
  by (simp add: uint_UU uint_COMBINE uint_digit D_range)

lemma uint_from_digits: "uint (from_digits a) = dval a 1 4"
  by (simp add: from_digits_def uint_four eval_nat_numeral)

lemma uint_split: "uint w = uint (HI w) * 4294967296 + uint (LO w)"
  using uint_UU [of "HI w" "LO w"] by simp

lemma dval_digits_of: "dval (x # digits_of w) 1 4 = uint w"
proof -
  have h: "D (ucast (HHALF y)) = uint y div B16" "D (ucast (LHALF y)) = uint y mod B16" for y :: u32
    using uint_bounded [of y] by (simp_all add: D_LHALF) (simp add: D_ucast uint_HHALF mod_pos_pos_trivial div_lessI pos_imp_zdiv_nonneg_iff)
  have j: "uint y div B16 * B16 + uint y mod B16 = uint y" for y :: u32 by (rule div_mult_mod_eq)
  have "dval (x # digits_of w) 1 4 = (((uint (HI w) div B16) * B16 + uint (HI w) mod B16) * B16 + uint (LO w) div B16) * B16 + uint (LO w) mod B16"
    by (simp add: digits_of_def eval_nat_numeral h)
  also have "\<dots> = uint (HI w) * 4294967296 + (uint (LO w) div B16 * B16 + uint (LO w) mod B16)" unfolding j by (simp add: distrib_right)
  also have "\<dots> = uint w" unfolding j by (rule uint_split [symmetric])
  finally show ?thesis .
qed

lemma digit_step:
  assumes t: "0 < uint t" "uint t < B16" and r: "uint r = A mod uint t" and w: "w = COMBINE r (ucast x)"
  shows "uint (w mod t) = (A * B16 + D x) mod uint t"
    "D (ucast (w div t)) = (A * B16 + D x) div uint t - A div uint t * B16"
proof -
  let ?t = "uint t"
  have rt: "uint r < ?t" "0 \<le> uint r" unfolding r using t(1) by simp_all
  have W: "uint w = uint r * B16 + D x" unfolding w uint_digit [symmetric] by (rule uint_COMBINE) (use rt t(2) D_range [of x] in \<open>simp_all add: uint_digit\<close>)
  have A: "A * B16 + D x = uint w + A div ?t * B16 * ?t"
  proof -
    have "A * B16 + D x = (A div ?t * ?t + A mod ?t) * B16 + D x" unfolding div_mult_mod_eq ..
    then show ?thesis unfolding W r by (simp only: distrib_right ac_simps)
  qed
  show "uint (w mod t) = (A * B16 + D x) mod ?t" unfolding uint_mod A by simp
  have "(uint r + 1) * B16 \<le> ?t * B16" using rt(1) by (intro mult_right_mono) simp_all
  then have "uint w < B16 * ?t" using W D_range(2) [of x] by (simp add: distrib_right)
  then have "uint w div ?t < B16" by (rule div_lessI [OF t(1)])
  moreover have "0 \<le> uint w div ?t" using t(1) by (simp add: pos_imp_zdiv_nonneg_iff)
  ultimately have "D (ucast (w div t)) = uint w div ?t" by (simp add: D_ucast uint_div)
  then show "D (ucast (w div t)) = (A * B16 + D x) div ?t - A div ?t * B16" unfolding A using t(1) by simp
qed

lemma div_digit_ok:
  assumes t: "0 < uint t" "uint t < B16" and e: "div_digit u t = (q, r)"
  shows "uint q = dval u 1 4 div uint t" "uint r = dval u 1 4 mod uint t"
proof -
  let ?t = "uint t" and ?A1 = "D (u ! 1)"
  let ?A2 = "?A1 * B16 + D (u ! 2)"
  let ?A3 = "?A2 * B16 + D (u ! 3)"
  let ?A4 = "?A3 * B16 + D (u ! 4)"
  define w2 where "w2 = COMBINE (ucast (u ! 1) mod t) (ucast (u ! 2))"
  define w3 where "w3 = COMBINE (w2 mod t) (ucast (u ! 3))"
  define w4 where "w4 = COMBINE (w3 mod t) (ucast (u ! 4))"
  have r1: "uint (ucast (u ! 1) mod t) = ?A1 mod ?t" by (simp add: uint_mod uint_digit)
  have q1: "D (ucast (ucast (u ! 1) div t :: u32)) = ?A1 div ?t"
  proof -
    have "?A1 div ?t \<le> ?A1 div 1" by (rule zdiv_mono2) (use t(1) D_range(1) in simp_all)
    moreover have "0 \<le> ?A1 div ?t" using t(1) D_range(1) by (simp add: pos_imp_zdiv_nonneg_iff)
    ultimately have "?A1 div ?t mod B16 = ?A1 div ?t" using D_range(2) [of "u ! 1"] by simp
    then show ?thesis by (simp add: D_ucast uint_div uint_digit)
  qed
  note s2 = digit_step [OF t r1 w2_def]
  note s3 = digit_step [OF t s2(1) w3_def]
  note s4 = digit_step [OF t s3(1) w4_def]
  have A4: "dval u 1 4 = ?A4" by (simp add: eval_nat_numeral)
  have d: "q = UU (COMBINE (ucast (ucast (ucast (u ! 1) div t :: u32) :: digit)) (ucast (ucast (w2 div t) :: digit)))
      (COMBINE (ucast (ucast (w3 div t) :: digit)) (ucast (ucast (w4 div t) :: digit)))" "r = ucast (w4 mod t)"
    using e unfolding div_digit_def Let_def w2_def [symmetric] w3_def [symmetric] w4_def [symmetric] by simp_all
  show "uint q = dval u 1 4 div ?t" unfolding A4 d(1) uint_four q1 s2(2) s3(2) s4(2) by (simp add: left_diff_distrib)
  have "uint r = uint (w4 mod t)" unfolding d(2) using uint_bounded [of "w4 mod t"] by (simp add: unsigned_ucast_eq take_bit_int_eq_self_iff)
  then show "uint r = dval u 1 4 mod ?t" unfolding A4 s4(1) .
qed

lemma maybe_shl_ok:
  assumes d: "d \<le> 16" and l: "p + len < length a" and x: "dval a p (Suc len) * 2 ^ d < B16 ^ Suc len" and r: "r = (if 0 < d then shl a p len d else a)"
  shows "length r = length a" "i < p \<Longrightarrow> r ! i = a ! i" "dval r p (Suc len) = dval a p (Suc len) * 2 ^ d"
proof -
  have "(dval a p (Suc len) * 2 ^ d) mod B16 ^ Suc len = dval a p (Suc len) * 2 ^ d"
    by (rule mod_pos_pos_trivial) (use x dval_range(1) [of a p "Suc len"] in simp_all)
  then show "length r = length a" "i < p \<Longrightarrow> r ! i = a ! i" "dval r p (Suc len) = dval a p (Suc len) * 2 ^ d"
    using shl_ok [OF d l] r by (cases "0 < d"; simp del: dval.simps)+
qed

lemma normalised_divisor:
  assumes d: "d \<le> 16" "B16 \<le> 2 * (D (v ! p) * 2 ^ d)" "D (v ! p) * 2 ^ d < B16" and l: "p + len < length v"
    and r: "r = (if 0 < d then shl v p len d else v)"
  shows "dval r p (Suc len) = dval v p (Suc len) * 2 ^ d" "B16 \<le> 2 * D (r ! p)" "2 ^ d * B16 ^ len \<le> dval r p (Suc len)"
proof -
  let ?v = "D (v ! p)" and ?X = "B16 ^ len :: int"
  have V: "dval v p (Suc len) = ?v * ?X + dval v (Suc p) len" by (rule dval_Cons)
  note R = dval_range [of v "Suc p" len]
  have "?v < 2 ^ (16 - d)"
  proof -
    have "?v * 2 ^ d < 2 ^ (16 - d) * 2 ^ d" unfolding mult.commute [of "2 ^ (16 - d)"] using d(3) pow16 [OF d(1)] by linarith
    then show ?thesis by (rule mult_right_less_imp_less) simp
  qed
  then have "(?v + 1) * 2 ^ d \<le> 2 ^ (16 - d) * 2 ^ d" by (intro mult_right_mono) simp_all
  then have t: "(?v + 1) * 2 ^ d \<le> B16" unfolding mult.commute [of "2 ^ (16 - d)"] using pow16 [OF d(1)] by linarith
  have "dval v p (Suc len) < (?v + 1) * ?X" unfolding V using R(2) by (simp add: distrib_right)
  then have "dval v p (Suc len) * 2 ^ d < (?v + 1) * ?X * 2 ^ d" by (intro mult_strict_right_mono) simp_all
  also have "\<dots> = (?v + 1) * 2 ^ d * ?X" by (simp only: ac_simps)
  also have "\<dots> \<le> B16 * ?X" using t by (intro mult_right_mono) simp_all
  finally have "dval v p (Suc len) * 2 ^ d < B16 ^ Suc len" by simp
  from maybe_shl_ok(3) [OF d(1) l this r] show E: "dval r p (Suc len) = dval v p (Suc len) * 2 ^ d" .
  have "?v \<noteq> 0" using d(2) by auto
  then have v1: "1 \<le> ?v" using D_range(1) [of "v ! p"] by linarith
  have lo: "?v * 2 ^ d * ?X \<le> dval r p (Suc len)"
  proof -
    have "?v * ?X * 2 ^ d \<le> dval v p (Suc len) * 2 ^ d" unfolding V using R(1) by (intro mult_right_mono) simp_all
    then show ?thesis unfolding E by (simp only: ac_simps)
  qed
  have "1 * (2 ^ d * ?X) \<le> ?v * (2 ^ d * ?X)" using v1 by (rule mult_right_mono) simp
  then show "2 ^ d * ?X \<le> dval r p (Suc len)" using lo unfolding mult_1 mult.assoc by (rule order_trans)
  have "?v * 2 ^ d * ?X < (D (r ! p) + 1) * ?X" using lo dval_Cons [of r p len] dval_range(2) [of r "Suc p" len] by (simp add: distrib_right)
  then have "?v * 2 ^ d < D (r ! p) + 1" by (rule mult_right_less_imp_less) simp
  then show "B16 \<le> 2 * D (r ! p)" using d(2) by linarith
qed

lemma from_digits_tail:
  assumes "\<forall>i < p. a ! i = 0" "p \<le> 4" "dval a p (5 - p) < B16 ^ 4"
  shows "uint (from_digits a) = dval a p (5 - p)"
proof -
  have "dval a 0 (p + (5 - p)) = dval a 0 p * B16 ^ (5 - p) + dval a (0 + p) (5 - p)" by (rule dval_split)
  moreover have "dval a 0 p = 0" by (rule dval_zeros) (use assms in simp)
  ultimately have z: "dval a 0 5 = dval a p (5 - p)" using assms(2) by simp
  then have "dval a 0 (1 + 4) < B16 ^ 4" using assms(3) by simp
  from dval_small(2) [OF this] show ?thesis using z by (simp add: uint_from_digits)
qed

lemma remainder_ok:
  assumes l: "length u = 5" "uo + m + n = 4" and d: "d \<le> 16" and R: "dval u uo (Suc n + m) = R * 2 ^ d" "R * 2 ^ d < B16 ^ n" "R < B16 ^ 4"
    and z: "\<forall>i < uo. u ! i = 0" and r: "r = (if 0 < d then shr_loop n u (uo + m) d else u)"
  shows "uint (from_digits r) = R"
proof -
  let ?p = "uo + m"
  have sw: "Suc m + n = Suc n + m" by simp
  have s: "dval u uo (Suc m + n) < B16 ^ n" unfolding sw R(1) by (rule R(2))
  have z0: "u ! i = 0" if "i \<le> ?p" for i
  proof (cases "i < uo")
    case False
    then have "u ! (uo + (i - uo)) = 0" using that by (intro dval_0_digits [OF dval_small(1) [OF s]]) simp
    then show ?thesis using False by simp
  qed (use z in simp)
  have "dval u (uo + Suc m) n = R * 2 ^ d" using dval_small(2) [OF s] R(1) unfolding sw by simp
  then have P: "dval u ?p (Suc n) = R * 2 ^ d" using dval_Cons [of u ?p n] z0 [of ?p] by simp
  have lp: "?p + n < length u" using l by simp
  have E: "dval r ?p (Suc n) = R" using shr_loop_ok [OF d lp z0 [OF order_refl]] P r by (cases "0 < d") (simp_all del: dval.simps)
  have Z: "\<forall>i < ?p. r ! i = 0" using shr_loop_ok [OF d lp z0 [OF order_refl]] z0 r by (cases "0 < d") simp_all
  have c: "5 - ?p = Suc n" "?p \<le> 4" using l(2) by simp_all
  show ?thesis using from_digits_tail [OF Z c(2)] E R(3) unfolding c(1) by simp
qed

lemma leading_less:
  assumes "dval u uo (Suc n + m) = U * 2 ^ d" "U < B16 ^ (n + m)" "B16 ^ n * 2 ^ d \<le> W"
  shows "dval u uo (Suc n) < W"
proof -
  have "dval u uo (Suc n) * B16 ^ m \<le> U * 2 ^ d" using dval_split [of u uo "Suc n" m] dval_range(1) [of u "uo + Suc n" m] assms(1) by linarith
  also have "\<dots> < B16 ^ (n + m) * 2 ^ d" using assms(2) by (rule mult_strict_right_mono) simp
  also have "\<dots> = B16 ^ n * 2 ^ d * B16 ^ m" by (simp add: power_add)
  finally have "dval u uo (Suc n) < B16 ^ n * 2 ^ d" by (rule mult_right_less_imp_less) simp
  then show ?thesis using assms(3) by linarith
qed

lemma two_pow_le: "d \<le> 16 \<Longrightarrow> (2 :: int) ^ d \<le> B16"
  using power_increasing [of d 16 "2 :: int"] by simp

lemma long_division:
  assumes l: "length u = 5" "length v = 5" "length g = 5" and n: "2 \<le> n" "vo + n = 4" "v ! (vo + 1) \<noteq> 0" and m: "uo + m + n = 4"
    and d: "d \<le> 15" "B16 \<le> 2 * (D (v ! (vo + 1)) * 2 ^ d)" "D (v ! (vo + 1)) * 2 ^ d < B16"
    and U: "U = dval u uo (Suc (m + n))" "U < B16 ^ (n + m)" "\<forall>i < uo. u ! i = 0" and V: "V = dval v (vo + 1) n"
    and q: "q = replicate (4 - m) 0 @ drop (4 - m) g"
    and u1: "u1 = (if 0 < d then shl u uo (m + n) d else u)" and v1: "v1 = (if 0 < d then shl v (vo + 1) (n - 1) d else v)"
  shows "\<exists>q' u'. div_loop m 0 n u1 uo v1 vo q (4 - m) = Inr (q', u') \<and> uint (from_digits q') = U div V \<and>
    uint (from_digits (if 0 < d then shr_loop n u' (uo + m) d else u')) = U mod V"
proof -
  have d16: "d \<le> 16" using d(1) by simp
  have n1: "Suc (n - 1) = n" using n(1) by simp
  have lv: "vo + 1 + (n - 1) < length v" using l n by simp
  have lu: "uo + (m + n) < length u" using l m by simp
  note vn = normalised_divisor [OF d16 d(2,3) lv v1, unfolded n1]
  have U0: "0 \<le> U" unfolding U(1) by (rule dval_range)
  have "U * 2 ^ d < B16 ^ (n + m) * B16"
    by (rule mult_less_le_imp_less [OF U(2) two_pow_le [OF d16] U0]) simp
  then have "dval u uo (Suc (m + n)) * 2 ^ d < B16 ^ Suc (m + n)" unfolding U(1) by (simp add: add.commute mult.commute)
  note un = maybe_shl_ok [OF d16 lu this u1]
  have sw: "Suc n + m = Suc (m + n)" by simp
  have N: "dval u1 uo (Suc n + m) = U * 2 ^ d" unfolding sw un(3) U(1) ..
  have "B16 * (2 ^ d * B16 ^ (n - 1)) \<le> B16 * dval v1 (vo + 1) n" using vn(3) by simp
  also have "B16 * (2 ^ d * B16 ^ (n - 1)) = B16 ^ n * 2 ^ d" using power_Suc [of "B16 :: int" "n - 1"] unfolding n1 by simp
  finally have top: "dval u1 uo (Suc n) < B16 * dval v1 (vo + 1) n" by (rule leading_less [OF N U(2)])
  have lq: "length q = 5" unfolding q using l m by simp
  obtain q' u' where D: "div_loop m 0 n u1 uo v1 vo q (4 - m) = Inr (q', u')" "length q' = 5" "length u' = 5"
      "dval q' (4 - m) (Suc m) = U * 2 ^ d div (V * 2 ^ d)" "dval u' uo (Suc n + m) = U * 2 ^ d mod (V * 2 ^ d)"
      "\<forall>i < 4 - m. q' ! i = q ! i" "\<forall>i < uo. u' ! i = u1 ! i"
    using div_loop_ok [OF n(1) vn(2) refl, of uo 0 m u1 "4 - m" q "U * 2 ^ d"] top N un(1) l(1) lq m unfolding vn(1) V
    by (simp del: dval.simps div_loop.simps) blast
  have Q: "U * 2 ^ d div (V * 2 ^ d) = U div V" "U * 2 ^ d mod (V * 2 ^ d) = U mod V * 2 ^ d" by (simp_all add: mod_mult_mult2)
  have Vp: "0 < V"
  proof -
    have "0 < (2 :: int) ^ d * B16 ^ (n - 1)" by simp
    then have "0 < V * 2 ^ d" using vn(3) unfolding vn(1) V by (rule less_le_trans)
    then show ?thesis by (simp add: zero_less_mult_iff)
  qed
  have "U mod V < V" by (rule pos_mod_bound [OF Vp])
  then have "U mod V * 2 ^ d < V * 2 ^ d" by (rule mult_strict_right_mono) simp
  also have "\<dots> < B16 ^ n" using dval_range(2) [of v1 "vo + 1" n] unfolding vn(1) V .
  finally have Rn: "U mod V * 2 ^ d < B16 ^ n" .
  have "(B16 :: int) ^ (n + m) \<le> B16 ^ 4" by (rule power_increasing) (use m in simp_all)
  then have U4: "U < B16 ^ 4" using U(2) by linarith
  have R4: "U mod V < B16 ^ 4" "U div V < B16 ^ 4"
    using U4 zmod_le_nonneg_dividend [OF U0, of V] zdiv_mono2 [OF U0, of 1 V] Vp by simp_all
  have c: "5 - (4 - m) = Suc m" using m n by simp
  have "\<forall>i < 4 - m. q' ! i = 0" using D(6) unfolding q by (simp add: nth_append)
  then have "uint (from_digits q') = U div V" using from_digits_tail [of "4 - m" q'] D(4) R4(2) unfolding c Q(1) by simp
  moreover have "uint (from_digits (if 0 < d then shr_loop n u' (uo + m) d else u')) = U mod V"
    by (rule remainder_ok [OF D(3) m d16 _ Rn R4(1) _ refl]) (use D(5,7) Q(2) un(2) U(3) in simp_all)
  ultimately show ?thesis using D(1) by blast
qed

lemma lead_v_ok:
  assumes "lead_v 4 0 v = Inr (n, vo)"
  shows "2 \<le> n" "vo + n = 4" "v ! (vo + 1) \<noteq> 0" "dval v (vo + 1) n = dval v 1 4"
  using assms unfolding lead_v_4 by (auto split: if_splits simp: eval_nat_numeral)

lemma leading_le: "a ! p \<noteq> 0 \<Longrightarrow> B16 ^ k \<le> dval a p (Suc k)"
proof -
  assume "a ! p \<noteq> 0"
  then have "1 \<le> D (a ! p)" using D_range(1) [of "a ! p"] D_0(2) [of "a ! p"] by linarith
  then have "1 * B16 ^ k \<le> D (a ! p) * B16 ^ k" by (rule mult_right_mono) simp
  then show ?thesis using dval_Cons [of a p k] dval_range(1) [of a "Suc p" k] by linarith
qed

lemma lead_u_digits:
  assumes l: "length u = 5" "u ! 0 = 0" and n: "2 \<le> n" "n \<le> 4" and U: "U = dval u 1 4" "B16 ^ (n - 1) \<le> U"
  shows "\<exists>m uo. lead_u (4 - int n) 0 u = Inr (int m, uo) \<and> uo + m + n = 4 \<and> U = dval u uo (Suc (m + n)) \<and> U < B16 ^ (n + m) \<and> (\<forall>i < uo. u ! i = 0)"
proof -
  have "U \<noteq> 0" using U(2) zero_less_power [of "B16 :: int" "n - 1"] by linarith
  then obtain i where i: "1 \<le> i" "i < 1 + 4" "u ! i \<noteq> 0" unfolding U(1) using dval_zeros [of 1 4 u] by blast
  obtain k where k: "lead_u (4 - int n) 0 u = Inr (4 - int n - int k, 0 + k)" "0 + k + 1 < length u" "u ! (0 + k + 1) \<noteq> 0"
      "\<forall>j. 0 < j \<and> j \<le> 0 + k \<longrightarrow> u ! j = 0"
    using lead_u_ok [of 0 i u "4 - int n"] i l(1) by auto
  have z: "u ! j = 0" if "j \<le> k" for j using k(4) l(2) that by (cases "j = 0") simp_all
  have "dval u 0 (Suc k) = 0" by (rule dval_zeros) (use z in simp)
  then have "dval u 0 (Suc k + (4 - k)) = dval u (Suc k) (4 - k)" using dval_split [of u 0 "Suc k" "4 - k"] by simp
  moreover have "dval u 0 (Suc 4) = U" using dval_Cons [of u 0 4] l(2) U(1) by simp
  moreover have "Suc k + (4 - k) = Suc 4" using k(2) l(1) by simp
  ultimately have E: "U = dval u (Suc k) (4 - k)" by metis
  have "(B16 :: int) ^ (n - 1) < B16 ^ (4 - k)" using U(2) dval_range(2) [of u "Suc k" "4 - k"] unfolding E by linarith
  then have "n - 1 < 4 - k" by (rule power_less_imp_less_exp [rotated]) simp
  then have kn: "k + n \<le> 4" using n by simp
  define m where "m = 4 - n - k"
  have m: "4 - k = m + n" "4 - int n - int k = int m" "k + m + n = 4" using kn by (simp_all add: m_def)
  have "U = dval u k (Suc (m + n))" using dval_Cons [of u k "m + n"] z [of k] E unfolding m(1) by simp
  moreover have "U < B16 ^ (n + m)" using dval_range(2) [of u "Suc k" "m + n"] E unfolding m(1) by (simp add: add.commute)
  ultimately show ?thesis using k(1) m(2,3) z by (intro exI [of _ m] exI [of _ k]) simp
qed

theorem qdivrem_ok:
  assumes g: "length g = 5" and v0: "vll \<noteq> 0"
  shows "qdivrem g ull vll = Inr (ull div vll, ull mod vll)"
proof (cases "ull < vll")
  case True
  then have "ull div vll = 0" "ull mod vll = ull" by (simp_all add: word_less_def word_uint_eq_iff uint_div uint_mod)
  then show ?thesis using v0 True by (simp add: qdivrem_def)
next
  case False
  have W: "q = ull div vll \<and> r = ull mod vll" if "uint q = uint ull div uint vll" "uint r = uint ull mod uint vll" for q r
    using that by (simp add: word_uint_eq_iff uint_div uint_mod)
  let ?u = "0 # digits_of ull" and ?v = "g ! 0 # digits_of vll"
  have l: "length ?u = 5" "length ?v = 5" by (simp_all add: digits_of_def)
  have UV: "dval ?u 1 4 = uint ull" "dval ?v 1 4 = uint vll" by (rule dval_digits_of)+
  have "uint vll \<noteq> 0" using v0 by (simp add: word_uint_eq_iff)
  then have vp: "0 < uint vll" using uint_ge_0 [of vll] by linarith
  have uv: "uint vll \<le> uint ull" using False by (simp add: word_less_def)
  show ?thesis
  proof (cases "lead_v 4 0 ?v")
    case (Inl vo)
    then have vo: "vo = 2" "?v ! 1 = 0" "?v ! 2 = 0" "?v ! 3 = 0" unfolding lead_v_4 by (simp_all split: if_splits)
    then have "dval ?v 1 4 = D (?v ! 4)" by (simp add: eval_nat_numeral)
    then have t: "uint (ucast (?v ! 4) :: u32) = uint vll" using UV(2) by (simp add: uint_digit)
    obtain q r where qr: "div_digit ?u (ucast (?v ! 4)) = (q, r)" by fastforce
    have "uint vll < B16" unfolding t [symmetric] uint_digit by (rule D_range)
    then have "q = ull div vll \<and> r = ull mod vll" using div_digit_ok [OF _ _ qr, unfolded t UV(1)] vp W by blast
    then show ?thesis using v0 False Inl vo(1) qr by (simp add: qdivrem_def)
  next
    case (Inr p)
    then obtain n vo where p: "lead_v 4 0 ?v = Inr (n, vo)" by (cases p) simp
    note n = lead_v_ok [OF p]
    have V: "uint vll = dval ?v (vo + 1) n" using n(4) UV(2) by simp
    have lo: "B16 ^ (n - 1) \<le> uint ull" using leading_le [OF n(3), of "n - 1"] uv V n(1) by simp
    have "n \<le> 4" "?u ! 0 = 0" using n(2) by simp_all
    from lead_u_digits [OF l(1) this(2) n(1) this(1) UV(1) [symmetric] lo] obtain m uo where m: "lead_u (4 - int n) 0 ?u = Inr (int m, uo)"
      "uo + m + n = 4" "uint ull = dval ?u uo (Suc (m + n))" "uint ull < B16 ^ (n + m)" "\<forall>i < uo. ?u ! i = 0" by blast
    define t :: u32 where "t = ucast (?v ! (vo + 1))"
    have t: "uint t = D (?v ! (vo + 1))" unfolding t_def by (rule uint_digit)
    have "1 \<le> uint t" unfolding t using n(3) D_range(1) [of "?v ! (vo + 1)"] D_0(2) [of "?v ! (vo + 1)"] by linarith
    then have "B16 \<le> 2 * uint t * 2 ^ 15" "uint t < B16" using D_range(2) [of "?v ! (vo + 1)"] unfolding t by simp_all
    from norm_loop_ok [OF this, of 0] obtain d where d: "norm_loop 15 t 0 = Inr d" "d \<le> 15" "B16 \<le> 2 * (D (?v ! (vo + 1)) * 2 ^ d)" "D (?v ! (vo + 1)) * 2 ^ d < B16"
      unfolding t by (auto simp del: norm_loop.simps)
    let ?q = "replicate (4 - m) 0 @ drop (4 - m) g"
    from long_division [OF l g n(1-3) m(2) d(2-4) m(3-5) V refl refl refl] obtain q' u' where
      r: "div_loop m 0 n (if 0 < d then shl ?u uo (m + n) d else ?u) uo (if 0 < d then shl ?v (vo + 1) (n - 1) d else ?v) vo ?q (4 - m) = Inr (q', u')"
        "uint (from_digits q') = uint ull div uint vll" "uint (from_digits (if 0 < d then shr_loop n u' (uo + m) d else u')) = uint ull mod uint vll" by blast
    have c: "nat (4 - int m) = 4 - m" "nat (int m + int n) = m + n" "nat (int m) = m" by simp_all
    have "qdivrem g ull vll = Inr (from_digits q', from_digits (if 0 < d then shr_loop n u' (uo + m) d else u'))"
      unfolding qdivrem_def Let_def if_not_P [OF v0] if_not_P [OF False] p sum.case prod.case m(1) bindR_Inr c t_def [symmetric] d(1) r(1) ..
    then show ?thesis using W [OF r(2,3)] by simp
  qed
qed

section \<open>Signed division\<close>

lemma uint_abs: "uint (if sint a < 0 then - a else a) = \<bar>sint a\<bar>" for a :: u64
proof -
  have b: "sint a = uint a \<or> sint a = uint a - 2 ^ 64" using sint_bit(2) [of a] by (cases "bit a 63") simp_all
  note r = uint_bounded [of a] sint_ge [of a]
  show ?thesis
  proof (cases "sint a < 0")
    case True
    then have s: "sint a = uint a - 2 ^ 64" using b uint_ge_0 [of a] by auto
    have "uint (- a) = (- uint a) mod 2 ^ 64" by (simp add: uint_word_ariths)
    also have "\<dots> = (- sint a) mod 2 ^ 64" unfolding s by simp
    also have "\<dots> = - sint a" using True s uint_ge_0 [of a] r(2) by (intro mod_pos_pos_trivial) simp_all
    finally show ?thesis using True by simp
  next
    case False
    then show ?thesis using b r(1) by auto
  qed
qed

lemma word_div_mod_abs: "uint x = k \<Longrightarrow> uint y = l \<Longrightarrow> x div y = word_of_int (k div l) \<and> x mod y = word_of_int (k mod l)" for x y :: u64
  using word_div_def [of x y] word_mod_def [of x y] by simp

lemma signed_division_ok:
  assumes g: "length g = 5" and b: "b \<noteq> 0"
  shows "divdi3 g a b = Inr (word_of_int (sint a sdiv sint b))" "moddi3 g a b = Inr (word_of_int (sint a smod sint b))"
proof -
  let ?a = "if sint a < 0 then - a else a" and ?b = "if sint b < 0 then - b else b"
  have "?b \<noteq> 0" using b by simp
  define Q R where "Q = \<bar>sint a\<bar> div \<bar>sint b\<bar>" and "R = \<bar>sint a\<bar> mod \<bar>sint b\<bar>"
  have q: "qdivrem g ?a ?b = Inr (word_of_int Q, word_of_int R)"
    unfolding qdivrem_ok [OF g \<open>?b \<noteq> 0\<close>] Q_def R_def using word_div_mod_abs [OF uint_abs uint_abs, of a b] by blast
  have b0: "sint b \<noteq> 0" using b by (simp add: signed_eq_0_iff)
  have z: "Q = 0" "R = 0" if "sint a = 0" using that by (simp_all add: Q_def R_def)
  have S: "sint a sdiv sint b = sgn (sint a) * sgn (sint b) * Q" "sint a smod sint b = sgn (sint a) * R"
    unfolding signed_divide_int_def signed_modulo_int_def Q_def R_def by (rule refl)+
  have "divdi3 g a b = Inr (if (sint a < 0) = (sint b < 0) then word_of_int Q else - word_of_int Q)"
    "moddi3 g a b = Inr (if sint a < 0 then - word_of_int R else word_of_int R)"
    using q unfolding divdi3_def moddi3_def by (cases "sint a < 0"; cases "sint b < 0"; simp)+
  then show "divdi3 g a b = Inr (word_of_int (sint a sdiv sint b))" "moddi3 g a b = Inr (word_of_int (sint a smod sint b))"
    unfolding S using z b0 by (cases "sint a" "0 :: int" rule: linorder_cases; cases "sint b" "0 :: int" rule: linorder_cases; simp)+
qed

section \<open>The operations the compiler calls\<close>

text \<open>C37. 64-bit division on 32-bit halves. For every divisor other than zero \<^verbatim>\<open>__udivdi3\<close> and \<^verbatim>\<open>__umoddi3\<close> return
  the quotient and the remainder of the two 64-bit numbers, and \<^verbatim>\<open>__divdi3\<close> and \<^verbatim>\<open>__moddi3\<close> those of C's signed
  division, which rounds towards zero, wrapped to 64 bits; a zero divisor is a division by zero. This holds
  whatever the local arrays of digits held before, and none of the loops of \<^verbatim>\<open>__qdivrem\<close> runs forever.
\<close>

theorem longlong_division:
  assumes "length g = 5"
  shows "udivdi3 g a b = (if b = 0 then Inl DivByZero else Inr (a div b)) \<and>
    umoddi3 g a b = (if b = 0 then Inl DivByZero else Inr (a mod b)) \<and>
    divdi3 g a b = (if b = 0 then Inl DivByZero else Inr (word_of_int (sint a sdiv sint b))) \<and>
    moddi3 g a b = (if b = 0 then Inl DivByZero else Inr (word_of_int (sint a smod sint b)))"
  using qdivrem_ok [OF assms, of b a] signed_division_ok [OF assms, of b a]
  by (simp add: udivdi3_def umoddi3_def divdi3_def moddi3_def qdivrem_def Let_def)

theorem longlong_division_witness:
  "length (replicate 5 (7 :: digit)) = 5 \<and>
   udivdi3 (replicate 5 7) 0x123456789ABCDEF0 0xFEDCBA9876 = Inr 1198372 \<and>
   umoddi3 (replicate 5 7) 0x123456789ABCDEF0 0xFEDCBA9876 = Inr 0x91A2B9C858 \<and>
   moddi3 (replicate 5 7) (- 7) 2 = Inr (- 1)"
  using longlong_division [where g = "replicate 5 7" and a = "0x123456789ABCDEF0" and b = "0xFEDCBA9876"]
    longlong_division [where g = "replicate 5 7" and a = "- 7" and b = 2] by simp

text \<open>C38. The other 64-bit operations. The routines on 32-bit halves compute the 64-bit sum, difference,
  negation and product (the product by Karatsuba's three half-size products), the bitwise operations, the
  shifts by less than 64, and the comparisons: 0, 1 or 2 for less, equal and greater.
\<close>

theorem longlong_operations:
  "adddi3 a b = a + b \<and> subdi3 a b = a - b \<and> negdi2 a = - a \<and> muldi3 a b = a * b \<and>
   anddi3 a b = a AND b \<and> iordi3 a b = a OR b \<and> xordi3 a b = a XOR b \<and> one_cmpldi2 a = NOT a \<and>
   ashldi3 a (s mod 64) = push_bit (s mod 64) a \<and> lshldi3 a (s mod 64) = push_bit (s mod 64) a \<and>
   lshrdi3 a (s mod 64) = drop_bit (s mod 64) a \<and> ashrdi3 a (s mod 64) = signed_drop_bit (s mod 64) a \<and>
   ucmpdi2 a b = (if a < b then 0 else if a = b then 1 else 2) \<and>
   cmpdi2 a b = (if sint a < sint b then 0 else if a = b then 1 else 2)"
  by (simp add: adddi3_ok subdi3_ok negdi2_ok muldi3_ok bitwise_ok shift_left_ok shift_right_ok shift_signed_ok compare_ok)

end
