(* ===== verification/Bswap.thy ===== *)
theory Bswap
  imports Prelude
begin

text \<open>
  Byte order (\<^verbatim>\<open>kern/lib/bswap.c\<close>): the unconditional byte swaps and the functions that join and
  split 64-bit values, for the big-endian machine the kernel runs on.
\<close>

unbundle bit_operations_syntax

definition bswap16 :: "16 word \<Rightarrow> 16 word" where
  "bswap16 val = push_bit 8 (val AND 0x00ff) OR drop_bit 8 (val AND 0xff00)"

definition bswap32 :: "32 word \<Rightarrow> 32 word" where
  "bswap32 val = push_bit 24 (val AND 0x000000ff) OR push_bit 8 (val AND 0x0000ff00)
     OR drop_bit 8 (val AND 0x00ff0000) OR drop_bit 24 (val AND 0xff000000)"

definition bswap64 :: "64 word \<Rightarrow> 64 word" where
  "bswap64 val = push_bit 56 (val AND 0x00000000000000ff) OR push_bit 40 (val AND 0x000000000000ff00)
     OR push_bit 24 (val AND 0x0000000000ff0000) OR push_bit 8 (val AND 0x00000000ff000000)
     OR push_bit 8 (val AND 0x000000ff00000000) OR push_bit 24 (val AND 0x0000ff0000000000)
     OR drop_bit 40 (val AND 0x00ff000000000000) OR drop_bit 56 (val AND 0xff00000000000000)"

definition ntohs :: "16 word \<Rightarrow> 16 word" where "ntohs val = val"
definition htons :: "16 word \<Rightarrow> 16 word" where "htons val = val"
definition ntohl :: "32 word \<Rightarrow> 32 word" where "ntohl val = val"
definition htonl :: "32 word \<Rightarrow> 32 word" where "htonl val = val"
definition ntohll :: "64 word \<Rightarrow> 64 word" where "ntohll val = val"
definition htonll :: "64 word \<Rightarrow> 64 word" where "htonll val = val"

definition join32to64 :: "32 word \<Rightarrow> 32 word \<Rightarrow> 64 word" where
  "join32to64 x1 x2 = push_bit 32 (ucast x1) OR ucast x2"

definition split64to32 :: "64 word \<Rightarrow> 32 word \<times> 32 word" where
  "split64to32 x = (ucast (drop_bit 32 x), ucast (x AND 0xffffffff))"

section \<open>Bytes of a word\<close>

text \<open>Byte \<open>i\<close> of a word, counted from the least significant one.\<close>

definition byte_of :: "'a::len word \<Rightarrow> nat \<Rightarrow> byte" where
  "byte_of w i = ucast (drop_bit (8 * i) w)"

lemma bit_byte_of: "bit (byte_of w i) n \<longleftrightarrow> n < 8 \<and> bit w (8 * i + n)"
  by (auto simp: byte_of_def bit_simps)

lemma byte_mask:
  "bit (w AND 0xff :: 'a::len word) n \<longleftrightarrow> bit w n \<and> n < 8"
  "bit (w AND 0xff00 :: 'a word) n \<longleftrightarrow> bit w n \<and> 8 \<le> n \<and> n < 16"
  "bit (w AND 0xff0000 :: 'a word) n \<longleftrightarrow> bit w n \<and> 16 \<le> n \<and> n < 24"
  "bit (w AND 0xff000000 :: 'a word) n \<longleftrightarrow> bit w n \<and> 24 \<le> n \<and> n < 32"
proof -
  have m: "(0xff :: 'a word) = mask 8" "(0xff00 :: 'a word) = push_bit 8 (mask 8)"
    "(0xff0000 :: 'a word) = push_bit 16 (mask 8)" "(0xff000000 :: 'a word) = push_bit 24 (mask 8)"
    by (simp_all add: mask_eq_exp_minus_1 push_bit_eq_mult)
  have "bit (w AND mask 8) n \<longleftrightarrow> bit w n \<and> n < 8"
    "bit (w AND push_bit k (mask 8)) n \<longleftrightarrow> bit w n \<and> k \<le> n \<and> n < k + 8" for k
    by (cases "bit w n"; use bit_imp_le_length [of w n] in
        \<open>auto simp only: bit_and_iff bit_mask_iff bit_push_bit_iff possible_bit_word simp_thms\<close>; arith)+
  then show "bit (w AND 0xff :: 'a::len word) n \<longleftrightarrow> bit w n \<and> n < 8"
    "bit (w AND 0xff00 :: 'a word) n \<longleftrightarrow> bit w n \<and> 8 \<le> n \<and> n < 16"
    "bit (w AND 0xff0000 :: 'a word) n \<longleftrightarrow> bit w n \<and> 16 \<le> n \<and> n < 24"
    "bit (w AND 0xff000000 :: 'a word) n \<longleftrightarrow> bit w n \<and> 24 \<le> n \<and> n < 32"
    unfolding m by simp_all
qed

lemma bswap16_bytes: "i < 2 \<Longrightarrow> byte_of (bswap16 v) i = byte_of v (1 - i)"
  by (rule bit_word_eqI)
    (auto simp: bit_byte_of bswap16_def bit_or_iff bit_push_bit_iff bit_drop_bit_eq byte_mask less_2_cases_iff)

lemma less_4_cases: "i < 4 \<Longrightarrow> i = 0 \<or> i = 1 \<or> i = 2 \<or> i = (3::nat)"
  by arith

lemma bswap32_bytes: "i < 4 \<Longrightarrow> byte_of (bswap32 v) i = byte_of v (3 - i)"
  by (rule bit_word_eqI)
    (auto simp: bit_byte_of bswap32_def bit_or_iff bit_push_bit_iff bit_drop_bit_eq byte_mask dest!: less_4_cases)

lemma byte_mask64:
  "bit (w AND 0xff00000000 :: 64 word) n \<longleftrightarrow> bit w n \<and> 32 \<le> n \<and> n < 40"
  "bit (w AND 0xff0000000000 :: 64 word) n \<longleftrightarrow> bit w n \<and> 40 \<le> n \<and> n < 48"
  "bit (w AND 0xff000000000000 :: 64 word) n \<longleftrightarrow> bit w n \<and> 48 \<le> n \<and> n < 56"
  "bit (w AND 0xff00000000000000 :: 64 word) n \<longleftrightarrow> bit w n \<and> 56 \<le> n \<and> n < 64"
  "bit (w AND 0xffffffff :: 64 word) n \<longleftrightarrow> bit w n \<and> n < 32"
proof -
  have m: "(0xff00000000 :: 64 word) = push_bit 32 0xff" "(0xff0000000000 :: 64 word) = push_bit 40 0xff"
    "(0xff000000000000 :: 64 word) = push_bit 48 0xff" "(0xff00000000000000 :: 64 word) = push_bit 56 0xff"
    by (simp_all add: push_bit_eq_mult)
  have e: "bit (w AND push_bit k 0xff) n \<longleftrightarrow> bit w n \<and> k \<le> n \<and> n < k + 8" for k
    using bit_imp_le_length [of w n] byte_mask(1) [of "-1 :: 64 word" "n - k"]
    by (auto simp only: bit_and_iff bit_push_bit_iff possible_bit_word bit_minus_1_iff and.left_neutral) (arith | simp)+
  show "bit (w AND 0xff00000000 :: 64 word) n \<longleftrightarrow> bit w n \<and> 32 \<le> n \<and> n < 40"
    "bit (w AND 0xff0000000000 :: 64 word) n \<longleftrightarrow> bit w n \<and> 40 \<le> n \<and> n < 48"
    "bit (w AND 0xff000000000000 :: 64 word) n \<longleftrightarrow> bit w n \<and> 48 \<le> n \<and> n < 56"
    "bit (w AND 0xff00000000000000 :: 64 word) n \<longleftrightarrow> bit w n \<and> 56 \<le> n \<and> n < 64"
    unfolding m e by simp_all
  have "(0xffffffff :: 64 word) = mask 32" by (simp add: mask_eq_exp_minus_1)
  then show "bit (w AND 0xffffffff :: 64 word) n \<longleftrightarrow> bit w n \<and> n < 32"
    by (auto simp only: bit_and_iff bit_mask_iff possible_bit_word dest: bit_imp_le_length)
qed

lemmas bswap_bits = bit_or_iff bit_push_bit_iff bit_drop_bit_eq bit_unsigned_iff byte_mask byte_mask64

text \<open>Two words with the same bytes are equal.\<close>

lemma bytes_eqI:
  fixes a b :: "'a::len word"
  assumes "\<And>i. 8 * i < LENGTH('a) \<Longrightarrow> byte_of a i = byte_of b i"
  shows "a = b"
proof (rule bit_word_eqI)
  fix n assume n: "n < LENGTH('a)"
  have "8 * (n div 8) \<le> n" by simp
  then have "byte_of a (n div 8) = byte_of b (n div 8)" using assms n by fastforce
  then have "bit (byte_of a (n div 8)) (n mod 8) = bit (byte_of b (n div 8)) (n mod 8)" by simp
  then show "bit a n = bit b n" by (simp add: bit_byte_of)
qed

lemma join_split: "join32to64 (fst (split64to32 z)) (snd (split64to32 z)) = z"
  by (rule bit_word_eqI) (auto simp: join32to64_def split64to32_def bswap_bits)

lemma split_join: "split64to32 (join32to64 x y) = (x, y)"
proof -
  have "ucast (drop_bit 32 (join32to64 x y)) = x" "ucast (join32to64 x y AND 0xffffffff) = y"
    by (rule bit_word_eqI, auto simp: join32to64_def bswap_bits dest: bit_imp_le_length)+
  then show ?thesis by (simp add: split64to32_def)
qed

section \<open>Properties\<close>

text \<open>\<^verbatim>\<open>bswap16\<close> and \<^verbatim>\<open>bswap32\<close> reverse the order of the bytes and are their own inverses, and
  \<^verbatim>\<open>split64to32\<close> and \<^verbatim>\<open>join32to64\<close> are inverse to each other.\<close>

theorem byte_order_roundtrip:
  "(\<forall>i < 2. byte_of (bswap16 a) i = byte_of a (1 - i)) \<and> bswap16 (bswap16 a) = a \<and>
   (\<forall>i < 4. byte_of (bswap32 b) i = byte_of b (3 - i)) \<and> bswap32 (bswap32 b) = b \<and>
   split64to32 (join32to64 x y) = (x, y) \<and> join32to64 (fst (split64to32 z)) (snd (split64to32 z)) = z"
proof -
  have "bswap16 (bswap16 a) = a" by (rule bytes_eqI) (simp add: bswap16_bytes)
  moreover have "bswap32 (bswap32 b) = b" by (rule bytes_eqI) (simp add: bswap32_bytes)
  ultimately show ?thesis using bswap16_bytes bswap32_bytes split_join join_split by blast
qed

theorem byte_order_roundtrip_witness:
  "byte_of (bswap16 0x1234) 0 = byte_of (0x1234 :: 16 word) 1 \<and> byte_of (bswap32 0x12345678) 1 = byte_of (0x12345678 :: 32 word) 2"
proof -
  have "\<forall>i < 2. byte_of (bswap16 0x1234) i = byte_of (0x1234 :: 16 word) (1 - i)"
    by (rule byte_order_roundtrip [THEN conjunct1])
  moreover have "\<forall>i < 4. byte_of (bswap32 0x12345678) i = byte_of (0x12345678 :: 32 word) (3 - i)"
    by (rule byte_order_roundtrip [THEN conjunct2, THEN conjunct2, THEN conjunct1])
  ultimately have "byte_of (bswap16 0x1234) 0 = byte_of (0x1234 :: 16 word) (1 - 0)"
    "byte_of (bswap32 0x12345678) 1 = byte_of (0x12345678 :: 32 word) (3 - 1)" by (meson one_less_numeral_iff semiring_norm(76) zero_less_numeral)+
  then show ?thesis by simp
qed

text \<open>\<^verbatim>\<open>bswap64\<close> does not reverse the bytes: bytes 4 and 5 are shifted left where they should be
  shifted right. Bytes 2 and 3 of the result are always zero, byte 5 of the argument is lost, and
  byte 4 is mixed into byte 2, so the function is not even injective.\<close>

theorem bswap64_broken:
  "byte_of (bswap64 v) 2 = 0 \<and> byte_of (bswap64 v) 3 = 0 \<and>
   byte_of (bswap64 v) 5 = byte_of v 2 OR byte_of v 4 \<and>
   bswap64 0x0000010000000000 = bswap64 0"
proof (intro conjI)
  show "byte_of (bswap64 v) 2 = 0" "byte_of (bswap64 v) 3 = 0" "byte_of (bswap64 v) 5 = byte_of v 2 OR byte_of v 4"
    by (rule bit_word_eqI; unfold bit_byte_of bit_or_iff bswap64_def bswap_bits; auto)+
  show "bswap64 0x0000010000000000 = bswap64 0" by (simp add: bswap64_def)
qed

end
