(* ===== verification/Karray.thy ===== *)
theory Karray
  imports Prelude
begin

text \<open>
  Resizable arrays of pointers (\<^verbatim>\<open>kern/lib/array.c\<close>, \<^verbatim>\<open>kern/include/array.h\<close>). The contents of memory
  that has just been allocated are an argument of the functions that allocate.
\<close>

record 'a array =
  ar_v :: "'a list"
  ar_num :: u32
  ar_max :: u32

definition array_init :: "'a array" where
  "array_init = \<lparr>ar_v = [], ar_num = 0, ar_max = 0\<rparr>"

definition array_create :: "bool \<Rightarrow> 'a array option" where
  "array_create ok = (if ok then Some array_init else None)"

definition array_cleanup :: "'a array \<Rightarrow> 'a array res" where
  "array_cleanup a = (if ar_num a = 0 then Inr (a\<lparr>ar_v := []\<rparr>) else Inl Kassert)"

definition array_destroy :: "'a array \<Rightarrow> unit res" where
  "array_destroy a = bindR (array_cleanup a) (\<lambda>_. Inr ())"

text \<open>
  The doubling loop of \<^verbatim>\<open>array_preallocate\<close>. It does not end when \<open>num\<close> exceeds \<open>2^31\<close>: the doubled
  size wraps around to 0 and starts again at 4. The size doubles at most 30 times before that,
  so a fuel of 32 is enough.
\<close>

fun newmax_loop :: "nat \<Rightarrow> u32 \<Rightarrow> u32 \<Rightarrow> u32 option" where
  "newmax_loop fuel n newmax =
     (if n > newmax then
        (case fuel of 0 \<Rightarrow> None
         | Suc f \<Rightarrow> newmax_loop f n (if newmax \<noteq> 0 then newmax * 2 else 4))
      else Some newmax)"

declare newmax_loop.simps [simp del]

definition array_preallocate :: "bool \<Rightarrow> (nat \<Rightarrow> 'a) \<Rightarrow> 'a array \<Rightarrow> u32 \<Rightarrow> (int \<times> 'a array) res" where
  "array_preallocate ok fresh a n =
     (if n > ar_max a then
        (case newmax_loop 32 n (ar_max a) of
           None \<Rightarrow> Inl Diverges
         | Some newmax \<Rightarrow>
             let slots = unat (newmax * 4) div 4 in
             if \<not> ok then Inr (ENOMEM, a)
             else if slots < unat (ar_num a) then Inl OutOfBounds
             else Inr (0, a\<lparr>ar_v := take (unat (ar_num a)) (ar_v a) @ map fresh [unat (ar_num a)..<slots],
                           ar_max := newmax\<rparr>))
      else Inr (0, a))"


definition array_num :: "'a array \<Rightarrow> u32" where
  "array_num a = ar_num a"





section \<open>Sequences\<close>

text \<open>The elements, and the invariant: the allocated size is 0 or \<open>4 * 2^k\<close>, below the size at which
  the byte count wraps around.\<close>

definition elems :: "'a array \<Rightarrow> 'a list" where
  "elems a = take (unat (ar_num a)) (ar_v a)"

definition array_inv :: "'a array \<Rightarrow> bool" where
  "array_inv a \<longleftrightarrow> ar_num a \<le> ar_max a \<and> length (ar_v a) = unat (ar_max a) \<and>
     (ar_max a = 0 \<or> (\<exists>k \<le> 27. ar_max a = 4 * 2 ^ k))"

lemma unat_pow: "k \<le> 29 \<Longrightarrow> unat (4 * 2 ^ k :: u32) = 4 * 2 ^ k"
proof -
  assume "k \<le> 29"
  then have "(2::nat) ^ (k + 2) < 2 ^ 32" by (intro power_strict_increasing) auto
  then have "(4::nat) * 2 ^ k < 2 ^ 32" by (simp add: power_add)
  then have "unat (word_of_nat (4 * 2 ^ k) :: u32) = 4 * 2 ^ k" by (simp only: unat_of_nat take_bit_nat_eq_self) simp
  then show ?thesis by simp
qed

lemma newmax_loop_pow:
  "k \<le> 29 \<Longrightarrow> 29 - k \<le> fuel \<Longrightarrow> unat n \<le> 2 ^ 31 \<Longrightarrow>
   \<exists>k'. k' \<le> 29 \<and> newmax_loop fuel n (4 * 2 ^ k) = Some (4 * 2 ^ k') \<and> unat n \<le> 4 * 2 ^ k' \<and>
     (k' = k \<or> 2 * 2 ^ k' < unat n)"
proof (induction fuel arbitrary: k)
  case 0
  then have "k = 29" by simp
  then have "\<not> n > 4 * 2 ^ k" using 0(3) unat_pow [of k] by (simp add: word_less_nat_alt)
  then show ?case using 0 unat_pow [of k] by (intro exI [of _ k]) (simp add: newmax_loop.simps word_less_nat_alt)
next
  case (Suc fuel)
  show ?case
  proof (cases "n > 4 * 2 ^ k")
    case False
    then show ?thesis using Suc.prems(1) unat_pow [of k]
      by (intro exI [of _ k]) (simp add: newmax_loop.simps word_less_nat_alt)
  next
    case True
    then have big: "4 * 2 ^ k < unat n" using unat_pow [OF Suc.prems(1)] by (simp add: word_less_nat_alt)
    have "(2::nat) ^ (k + 2) < 2 ^ 31" using big Suc.prems(3) by (simp add: power_add)
    then have "k + 2 < 31" by (rule power_less_imp_less_exp [rotated]) simp
    then have k: "Suc k \<le> 29" by simp
    have nz: "(4 * 2 ^ k :: u32) \<noteq> 0" using unat_pow [OF Suc.prems(1)] by (metis unat_0 power_not_zero mult_eq_0_iff zero_neq_numeral)
    have step: "newmax_loop (Suc fuel) n (4 * 2 ^ k) = newmax_loop fuel n (4 * 2 ^ Suc k)"
      using True nz by (subst newmax_loop.simps) (simp add: mult.commute mult.left_commute)
    have "29 - Suc k \<le> fuel" using Suc.prems(2) by simp
    from Suc.IH [OF k this Suc.prems(3)] obtain k' where "k' \<le> 29" "newmax_loop fuel n (4 * 2 ^ Suc k) = Some (4 * 2 ^ k')"
      "unat n \<le> 4 * 2 ^ k'" "k' = Suc k \<or> 2 * 2 ^ k' < unat n" by blast
    then show ?thesis using step big by (intro exI [of _ k']) auto
  qed
qed

text \<open>Above \<open>2^31\<close> the loop never ends, with any fuel.\<close>

definition pow_size :: "u32 \<Rightarrow> bool" where
  "pow_size m \<longleftrightarrow> m = 0 \<or> (\<exists>k \<le> 29. m = 4 * 2 ^ k)"

lemma pow_size_le: "pow_size m \<Longrightarrow> unat m \<le> 2 ^ 31"
proof (cases "m = 0")
  case False
  assume "pow_size m"
  then obtain k where k: "k \<le> 29" "m = 4 * 2 ^ k" using False by (auto simp: pow_size_def)
  have "(2::nat) ^ (k + 2) \<le> 2 ^ 31" using k(1) by (intro power_increasing) auto
  then show ?thesis using unat_pow [OF k(1)] k(2) by (simp add: power_add)
qed simp

lemma pow_size_double: "pow_size m \<Longrightarrow> pow_size (if m \<noteq> 0 then m * 2 else 4)"
proof (cases "m = 0")
  case False
  assume "pow_size m"
  then obtain k where k: "k \<le> 29" "m = 4 * 2 ^ k" using False by (auto simp: pow_size_def)
  show ?thesis
  proof (cases "k = 29")
    case True
    then have "m * 2 = 0" using k(2) by simp
    then show ?thesis using False by (simp add: pow_size_def)
  next
    case False
    then have "m * 2 = 4 * 2 ^ Suc k" "Suc k \<le> 29" using k by simp_all
    then show ?thesis using \<open>m \<noteq> 0\<close> unfolding pow_size_def by metis
  qed
next
  case True
  have "(4::u32) = 4 * 2 ^ 0" "(0::nat) \<le> 29" by simp_all
  then show ?thesis using True unfolding pow_size_def by metis
qed

lemma newmax_loop_diverges: "2 ^ 31 < unat n \<Longrightarrow> pow_size m \<Longrightarrow> newmax_loop fuel n m = None"
proof (induction fuel arbitrary: m)
  case 0
  then have "n > m" using pow_size_le [of m] by (simp add: word_less_nat_alt)
  then show ?case by (simp add: newmax_loop.simps)
next
  case (Suc fuel)
  then have "n > m" using pow_size_le [of m] by (simp add: word_less_nat_alt)
  then show ?case using Suc.IH [OF Suc.prems(1) pow_size_double [OF Suc.prems(2)]] by (subst newmax_loop.simps) simp
qed

lemma newmax_loop_ok:
  assumes m: "m = 0 \<or> (\<exists>k \<le> 27. m = 4 * 2 ^ k)" and n: "unat n \<le> 2 ^ 29"
  shows "\<exists>m'. newmax_loop 32 n m = Some m' \<and> unat n \<le> unat m' \<and> (m' = 0 \<or> (\<exists>k \<le> 27. m' = 4 * 2 ^ k))"
proof (cases "n = 0 \<and> m = 0")
  case True
  then show ?thesis by (simp add: newmax_loop.simps)
next
  case False
  obtain k f where k: "k \<le> 27" "newmax_loop 32 n m = newmax_loop f n (4 * 2 ^ k)" "31 \<le> f"
  proof (cases "m = 0")
    case True
    then have "n > m" using False by (simp add: word_neq_0_conv)
    then have "newmax_loop 32 n m = newmax_loop 31 n (4 * 2 ^ 0)"
      using True by (subst newmax_loop.simps) (simp add: numeral_eq_Suc)
    then show thesis using that [of 0 31] by simp
  next
    case False
    then show thesis using m that [of _ 32] by auto
  qed
  have "unat n \<le> 2 ^ 31" "k \<le> 29" "29 - k \<le> f" using n k(1,3) by simp_all
  then obtain k' where k': "k' \<le> 29" "newmax_loop f n (4 * 2 ^ k) = Some (4 * 2 ^ k')" "unat n \<le> 4 * 2 ^ k'"
    "k' = k \<or> 2 * 2 ^ k' < unat n" using newmax_loop_pow [of k f n] by blast
  have "k' \<le> 27"
  proof (cases "k' = k")
    case False
    then have "(2::nat) ^ (k' + 1) < 2 ^ 29" using k'(4) n by simp
    then have "k' + 1 < 29" by (rule power_less_imp_less_exp [rotated]) simp
    then show ?thesis by simp
  qed (use k in simp)
  then show ?thesis using k k' unat_pow [OF k'(1)] by auto
qed

lemma array_size_bound: "m = 0 \<or> (\<exists>k \<le> 27. m = 4 * 2 ^ k) \<Longrightarrow> unat (m * 4) div 4 = unat (m :: u32)"
proof -
  assume a: "m = 0 \<or> (\<exists>k \<le> 27. m = 4 * 2 ^ k)"
  have "m * 4 = 4 * 2 ^ (k + 2)" if "m = 4 * 2 ^ k" for k using that by (simp add: power_add)
  then show ?thesis using a unat_pow [of "_ + 2"] unat_pow by (auto simp: power_add)
qed

lemma array_preallocate_ok:
  assumes inv: "array_inv a" and n: "unat n \<le> 2 ^ 29"
  shows "array_preallocate ok fresh a n = Inr (ENOMEM, a) \<and> \<not> ok \<and> n > ar_max a \<or>
    (\<exists>a'. array_preallocate ok fresh a n = Inr (0, a') \<and> array_inv a' \<and> elems a' = elems a \<and>
       ar_num a' = ar_num a \<and> n \<le> ar_max a' \<and> (n \<le> ar_max a \<longrightarrow> a' = a))"
proof (cases "n > ar_max a")
  case False
  then show ?thesis using inv by (simp add: array_preallocate_def)
next
  case True
  note I = inv [unfolded array_inv_def]
  obtain m where m: "newmax_loop 32 n (ar_max a) = Some m" "unat n \<le> unat m" "m = 0 \<or> (\<exists>k \<le> 27. m = 4 * 2 ^ k)"
    using newmax_loop_ok [OF _ n, of "ar_max a"] I by blast
  note sz = array_size_bound [OF m(3)]
  have le: "unat (ar_num a) \<le> unat m" "unat (ar_num a) \<le> length (ar_v a)"
    using I True m(2) by (auto simp: word_less_nat_alt word_le_nat_alt)
  let ?a = "a\<lparr>ar_v := take (unat (ar_num a)) (ar_v a) @ map fresh [unat (ar_num a)..<unat m], ar_max := m\<rparr>"
  have "array_inv ?a" "elems ?a = elems a" "n \<le> ar_max ?a"
    using le m(2,3) by (simp_all add: array_inv_def elems_def word_le_nat_alt min_def)
  moreover have "array_preallocate ok fresh a n = (if ok then Inr (0, ?a) else Inr (ENOMEM, a))"
    using True m(1) sz le by (simp add: array_preallocate_def)
  ultimately show ?thesis using True by (cases ok) (auto simp: linorder_not_less)
qed




lemma array_init_ok: "array_inv array_init" "elems array_init = []"
  by (simp_all add: array_init_def array_inv_def elems_def)

section \<open>Properties\<close>



text \<open>C21. The growth loop ends for every requested size up to \<open>2^29\<close> elements, with a size that is
  large enough; a request above \<open>2^31\<close> never returns.\<close>

theorem array_growth_terminates:
  assumes "array_inv a"
  shows "(unat n \<le> 2 ^ 29 \<longrightarrow> (\<exists>a'. array_preallocate True fresh a n = Inr (0, a') \<and> n \<le> ar_max a' \<and> elems a' = elems a)) \<and>
    (2 ^ 31 < unat n \<longrightarrow> (\<forall>fuel. newmax_loop fuel n (ar_max a) = None) \<and> array_preallocate True fresh a n = Inl Diverges)"
proof (intro conjI impI)
  show "\<exists>a'. array_preallocate True fresh a n = Inr (0, a') \<and> n \<le> ar_max a' \<and> elems a' = elems a" if "unat n \<le> 2 ^ 29"
    using array_preallocate_ok [OF assms that, of True fresh] by blast
  have ps: "pow_size (ar_max a)"
    using assms unfolding array_inv_def pow_size_def by (meson le_trans numeral_le_iff semiring_norm(68,69,71,72,73,74,79))
  show d: "\<forall>fuel. newmax_loop fuel n (ar_max a) = None" if "2 ^ 31 < unat n"
    using newmax_loop_diverges [OF that ps] by blast
  show "array_preallocate True fresh a n = Inl Diverges" if n: "2 ^ 31 < unat n"
    using d [OF n] pow_size_le [OF ps] n by (simp add: array_preallocate_def word_less_nat_alt)
qed

theorem array_growth_terminates_witness:
  "(\<exists>a. array_preallocate True (\<lambda>_. 0) (array_init :: nat array) 100 = Inr (0, a)) \<and>
   array_preallocate True (\<lambda>_. 0) (array_init :: nat array) 0x80000001 = Inl Diverges"
  using array_growth_terminates [OF array_init_ok(1), of 100 "\<lambda>_. 0 :: nat"]
    array_growth_terminates [OF array_init_ok(1), of "0x80000001" "\<lambda>_. 0 :: nat"] by auto

end
