(* ===== verification/Spec2Isabelle.thy ===== *)
theory Spec2Isabelle
  imports Memory_Properties Synch_Properties Loadelf Libc Proc_Properties Sfs_Properties Division Bswap Bitmap Karray
begin

text \<open>
  The kernel of OS/161 extended with demand paging, as configured by \<^verbatim>\<open>kern/conf/PAGING\<close>: a software
  TLB, an inverted page table with FIFO replacement, a swap file, segments loaded on demand from
  the executable, and below and around it threads, locks, processes, files and the shared
  libraries. File names are relative to \<^verbatim>\<open>src/\<close>.

  \<^bold>\<open>Parts and their theories.\<close>

  \<^item> \<open>Prelude\<close>: words, errno values, and the ways a C function ends: a value of type \<open>'a res\<close> is a
    result or a fault (panic, failed KASSERT, NULL dereference, index out of bounds, division by
    zero, endless loop), so every abort of the kernel is a value of the model.
  \<^item> \<open>Pt\<close>, \<open>Page_Table\<close>: \<^verbatim>\<open>kern/vm/pt.c\<close>. The table is a list of entries, pointers into it are indices,
    NULL is None. \<open>Pt\<close> has one definition per function and the invariant that ties the hash chains
    and the FIFO queue to the entries; \<open>Page_Table\<close> states what clients rely on as the locale
    \<open>frame_table\<close> and interprets it on the functions of \<^verbatim>\<open>pt.c\<close>.
  \<^item> \<open>Vmstats\<close>: \<^verbatim>\<open>kern/vm/vmstats.c\<close>. \<open>Vm_tlb\<close>: \<^verbatim>\<open>kern/vm/vm_tlb.c\<close> over the 64 entries of the hardware.
  \<^item> \<open>Machine\<close>: the record of all state of the VM system, and files behind a record of vnode operations.
  \<^item> \<open>Swapfile\<close>: \<^verbatim>\<open>kern/vm/swapfile.c\<close>, with the locale \<open>page_store\<close> (what is swapped in comes back
    unchanged). \<open>Coremap\<close>: \<^verbatim>\<open>kern/vm/coremap.c\<close> and \<^verbatim>\<open>kern/arch/mips/vm/ram.c\<close>. \<open>Addrspace\<close>:
    \<^verbatim>\<open>kern/vm/segments.c\<close> and \<^verbatim>\<open>kern/vm/addrspace.c\<close>. \<open>Vm\<close>: \<^verbatim>\<open>kern/vm/vm.c\<close>, the fault handler and its
    invariant \<open>vm_inv\<close>.
  \<^item> \<open>User_Memory\<close>: runs of user loads, stores and context switches through the TLB and the fault
    handler, and the flat memory they refine. \<open>Copyinout\<close>: \<^verbatim>\<open>kern/vm/copyinout.c\<close>, which accesses user
    memory the same way. \<open>Uio\<close>: \<^verbatim>\<open>kern/lib/uio.c\<close>.
  \<^item> \<open>Loadelf\<close>: \<^verbatim>\<open>kern/syscall/loadelf.c\<close> and \<^verbatim>\<open>kern/syscall/runprogram.c\<close>.
  \<^item> \<open>Threadlist\<close>: \<^verbatim>\<open>kern/thread/threadlist.c\<close> over a store of nodes, with the locale \<open>thread_queues\<close>.
    \<open>Sched\<close>, \<open>Migration\<close>, \<open>Runnable\<close>: \<^verbatim>\<open>kern/thread/thread.c\<close> and \<^verbatim>\<open>kern/thread/spinlock.c\<close>: context
    switches, wait channels, interprocessor interrupts, migration. \<open>Synch\<close>: \<^verbatim>\<open>kern/thread/synch.c\<close>, with
    the locale \<open>gate\<close> interpreted on semaphores and on locks.
  \<^item> \<open>Proc\<close>, \<open>Syscalls\<close>, \<open>Proc_Threads\<close>: \<^verbatim>\<open>kern/proc/proc.c\<close>, thread creation and exit, and the system calls
    of \<^verbatim>\<open>kern/syscall/file_syscalls.c\<close> and \<^verbatim>\<open>kern/syscall/proc_syscalls.c\<close>.
  \<^item> \<open>Libc\<close>: \<^verbatim>\<open>common/libc/string\<close> and \<^verbatim>\<open>atoi\<close>. \<open>Bswap\<close>, \<open>Bitmap\<close>, \<open>Karray\<close>: \<^verbatim>\<open>kern/lib\<close>; \<open>Bitmap\<close> has the
    locale \<open>number_pool\<close>.
  \<^item> \<open>Sample\<close>: concrete machines and processes for the examples. \<open>Memory_Properties\<close>,
    \<open>Thread_Properties\<close>, \<open>Synch_Properties\<close>, \<open>Proc_Properties\<close> and this theory: the properties of
    several parts together.

  \<^bold>\<open>How the parts interact.\<close> A user access that misses in the TLB enters \<open>vm_fault\<close>, which finds the
  segment, asks the page table for the page, otherwise takes a frame with \<open>allocuserpage\<close> (a free one,
  or that of the oldest user page, which \<open>swapinpage\<close> writes to the swap file) and fills it from
  the swap file, the executable or with zeros, and enters the translation in the TLB. Processes
  own an address space and a table of open files; \<open>sys_fork\<close> copies both and starts a thread;
  \<open>sys__exit\<close> wakes the parent through a semaphore, which is a wait channel of the scheduler. The
  state of the VM system is a field of the state of the scheduler, which is a field of the state
  of the processes.

  \<^bold>\<open>What is shown.\<close> For the VM system: a served fault keeps the contents of every page of every
  process and the invariant, and installs the right translation; from this, every run of user
  accesses is a run of a flat memory per process. For each data structure: it refines the list,
  set or map it stands for, and keeps its invariant. For threads: the invariant of the queues
  under every operation, round robin, first-in first-out wait channels, mutual exclusion and no
  lost wake-up under every interleaving of critical sections. For processes: bounds of process
  numbers, well-formed file tables, the effect of fork, and the delivery of exit codes. For the
  libraries: equivalence with list operations and round trips. Where the code does not do what it
  is meant to, a theorem states what it does.

  \<^bold>\<open>Bounds and fuel.\<close> Words are 32 bits wide; counters and sizes that cannot wrap are natural numbers
  with the bound as part of the invariant. Walks along hash chains and queues carry as fuel the
  number of entries of the table plus one, which suffices because a chain without cycle visits
  each entry once; running out is the fault Diverges, and the theorems show that it does not
  occur. Loops that stop at a terminator in memory (\<open>Libc\<close>) are partial functions into options, and
  the theorems show that they return. Success of kmalloc is an argument of the operations that
  call it. Files other than those of the process table are behind \<open>vnode_ops\<close>, with \<open>vnode_ops_ok\<close> and
  \<open>disk_ok\<close> as hypotheses: a read returns what was written, within the size of the file. They hold
  for the files in memory \<open>mem_ops\<close>, on which the examples run.

  \<^bold>\<open>Not modelled.\<close> The register-level and assembly code of \<^verbatim>\<open>kern/arch\<close> (traps, context switch frames,
  TLB instructions, which appear as operations on the 64 entries), the device drivers, the VFS
  layer and the file systems (which appear as vnode operations), the kernel heap \<^verbatim>\<open>kmalloc.c\<close> (which
  appears as success or failure), printing, the menu, the kernel's self tests, and userland. The
  spinlocks of the process structures guard straight-line code only and are left out; those of
  the VM system and the scheduler are part of the state.
\<close>

section \<open>Page faults\<close>

text \<open>C1. Demand paging is transparent. When the running process touches a page of one of its
  regions that the TLB does not hold, the fault handler returns 0 in a state where the
  invariant holds again; every page of every process that had a content keeps it, wherever it
  is kept, the faulting page has a content, and no other page gains one.\<close>

theorem vm_fault_transparent:
  assumes "vnode_ops_ok ops" "disk_ok ops" "vm_inv ops pid as s"
    and "ft = VM_FAULT_READ \<or> ft = VM_FAULT_WRITE"
    and "vm_seg_of (the (seg1 as)) (the (seg2 as)) (fa AND PAGE_FRAME) = Some (nm, i)"
    and "tlb_map (m_tlb s) (fa AND PAGE_FRAME) = None"
    and "frame_available s" "elf_ok ops as (the (getseg as nm)) (fa AND PAGE_FRAME) s"
  shows "\<exists>as' s'. vm_fault ops ft fa (Some pid) (Some as) s = Inr (VmReturn 0, Some as', s') \<and>
    vm_inv ops pid as' s' \<and>
    (\<forall>k. page_contents ops s k \<noteq> None \<longrightarrow> page_contents ops s' k = page_contents ops s k) \<and>
    (\<forall>k. page_contents ops s' k \<noteq> None \<longleftrightarrow> page_contents ops s k \<noteq> None \<or> k = (pid, fa AND PAGE_FRAME))"
proof -
  obtain as' s' where r: "vm_fault ops ft fa (Some pid) (Some as) s = Inr (VmReturn 0, Some as', s')"
    "fault_served ops pid as (the (getseg as nm)) (fa AND PAGE_FRAME) s as' s'"
    using vm_fault_ok [OF assms] by blast
  note fs = fault_servedD [OF r(2)]
  have "page_contents ops s' k = page_contents ops s k" if "page_contents ops s k \<noteq> None" for k
    using that fs(4) [of k] fs(5) by (cases "k = (pid, fa AND PAGE_FRAME)") auto
  moreover have "page_contents ops s' k \<noteq> None \<longleftrightarrow> page_contents ops s k \<noteq> None \<or> k = (pid, fa AND PAGE_FRAME)" for k
    using fs(4) [of k] fs(5) by (cases "k = (pid, fa AND PAGE_FRAME)") auto
  ultimately show ?thesis using r(1) fs(1) by blast
qed

theorem vm_fault_transparent_witness:
  "\<exists>as' s'. vm_fault mem_ops VM_FAULT_READ 0x401234 (Some 5) (Some (sample_as [1, 0])) full_machine =
     Inr (VmReturn 0, Some as', s') \<and>
   page_contents mem_ops s' (5, 0x400000) = Some (replicate PAGE_SIZE 7) \<and>
   page_contents mem_ops s' (5, 0x401000) \<noteq> None"
proof -
  have v: "(0x401234 AND PAGE_FRAME :: u32) = 0x401000" by (simp add: PAGE_FRAME_def)
  have "page_contents mem_ops full_machine (5, 0x400000) = Some (replicate PAGE_SIZE 7)"
    by (rule full_page)
  then show ?thesis
    using vm_fault_transparent [OF mem_ops_ok disk_ok_mem sample_vm_inv(2) disjI1 [OF refl] sample_seg_of(1)]
      sample_available(4) sample_elf_ok(2) sample_tlb_ok(2) unfolding v sample_simps by fastforce
qed

text \<open>C2. After a served fault the TLB maps the page to the frame that holds it, with the dirty
  bit exactly when the region is writable, and every other translation in the TLB is still one
  of the page table for the running process.\<close>

theorem vm_fault_translation:
  assumes "vnode_ops_ok ops" "disk_ok ops" "vm_inv ops pid as s"
    and "ft = VM_FAULT_READ \<or> ft = VM_FAULT_WRITE"
    and "vm_seg_of (the (seg1 as)) (the (seg2 as)) (fa AND PAGE_FRAME) = Some (nm, i)"
    and "tlb_map (m_tlb s) (fa AND PAGE_FRAME) = None"
    and "frame_available s" "elf_ok ops as (the (getseg as nm)) (fa AND PAGE_FRAME) s"
  shows "\<exists>as' s' f lo. vm_fault ops ft fa (Some pid) (Some as) s = Inr (VmReturn 0, Some as', s') \<and>
    resident (m_pt s') (pid, fa AND PAGE_FRAME) = Some f \<and>
    tlb_map (m_tlb s') (fa AND PAGE_FRAME) = Some lo \<and> lo AND TLBLO_PPAGE = frame_paddr f \<and>
    (lo AND TLBLO_DIRTY \<noteq> 0 \<longleftrightarrow> seg_writable (the (getseg as nm))) \<and>
    (\<forall>v lo'. tlb_map (m_tlb s') v = Some lo' \<longrightarrow>
       (\<exists>g. resident (m_pt s') (pid, v) = Some g \<and> lo' AND TLBLO_PPAGE = frame_paddr g))"
proof -
  obtain as' s' where r: "vm_fault ops ft fa (Some pid) (Some as) s = Inr (VmReturn 0, Some as', s')"
    "fault_served ops pid as (the (getseg as nm)) (fa AND PAGE_FRAME) s as' s'"
    using vm_fault_ok [OF assms] by blast
  note fs = fault_servedD [OF r(2)]
  note V = vm_invD [OF fs(1)]
  obtain f where f: "resident (m_pt s') (pid, fa AND PAGE_FRAME) = Some f"
    "tlb_map (m_tlb s') (fa AND PAGE_FRAME) = Some (tlb_lo (frame_paddr f) (seg_writable (the (getseg as nm))))"
    using fs(2) by blast
  have own: "lastpid (m_tlb s') = pid" using V(6) f(2) by auto
  have co: "\<exists>g. resident (m_pt s') (pid, v) = Some g \<and> lo' AND TLBLO_PPAGE = frame_paddr g"
    if "tlb_map (m_tlb s') v = Some lo'" for v lo'
    using cm_invD(6) [OF V(1)] that own unfolding tlb_coherent_def by blast
  then have "tlb_lo (frame_paddr f) (seg_writable (the (getseg as nm))) AND TLBLO_PPAGE = frame_paddr f"
    using f by fastforce
  then show ?thesis using r(1) f co tlb_lo_bits(3) by blast
qed

theorem vm_fault_translation_witness:
  "\<exists>as' s' f lo. vm_fault mem_ops VM_FAULT_READ 0x401234 (Some 5) (Some (sample_as [1, 0])) full_machine =
     Inr (VmReturn 0, Some as', s') \<and> tlb_map (m_tlb s') 0x401000 = Some lo \<and>
   lo AND TLBLO_PPAGE = frame_paddr f \<and> lo AND TLBLO_DIRTY = 0"
proof -
  have v: "(0x401234 AND PAGE_FRAME :: u32) = 0x401000" by (simp add: PAGE_FRAME_def)
  have w: "\<not> seg_writable (the (getseg (sample_as [1, 0]) Seg1))"
    by (simp add: sample_as_def sample_seg_def seg_writable_def WRFLAG_def)
  show ?thesis
    using vm_fault_translation [OF mem_ops_ok disk_ok_mem sample_vm_inv(2) disjI1 [OF refl] sample_seg_of(1)]
      sample_available(4) sample_elf_ok(2) sample_tlb_ok(2) w unfolding v sample_simps by fastforce
qed



text \<open>C4. The error returns of the handler leave the machine and the address space as they were: a
  write to a read-only page ends the process, an unknown fault type is \<open>EINVAL\<close>, a fault without
  a process or without an address space is \<open>EFAULT\<close>, and so is an address outside the regions.\<close>

theorem vm_fault_errors:
  "vm_fault ops VM_FAULT_READONLY fa p a s = Inr (VmExit VM_FAULT_READONLY, a, s) \<and>
   (ft \<notin> {VM_FAULT_READ, VM_FAULT_WRITE, VM_FAULT_READONLY} \<longrightarrow>
      vm_fault ops ft fa p a s = Inr (VmReturn EINVAL, a, s)) \<and>
   (ft \<in> {VM_FAULT_READ, VM_FAULT_WRITE} \<and> (p = None \<or> a = None) \<longrightarrow>
      vm_fault ops ft fa p a s = Inr (VmReturn EFAULT, a, s)) \<and>
   (ft \<in> {VM_FAULT_READ, VM_FAULT_WRITE} \<and> as_wf as \<and>
      (\<forall>nm sg. getseg as nm = Some sg \<longrightarrow> unat (fa AND PAGE_FRAME) \<notin> seg_range sg) \<longrightarrow>
      vm_fault ops ft fa (Some pid) (Some as) s = Inr (VmReturn EFAULT, Some as, s))"
proof (intro conjI impI)
  show "vm_fault ops VM_FAULT_READONLY fa p a s = Inr (VmExit VM_FAULT_READONLY, a, s)"
    by (simp add: vm_fault_def)
  show "vm_fault ops ft fa p a s = Inr (VmReturn EINVAL, a, s)"
    if "ft \<notin> {VM_FAULT_READ, VM_FAULT_WRITE, VM_FAULT_READONLY}"
    using that by (simp add: vm_fault_def)
  show "vm_fault ops ft fa p a s = Inr (VmReturn EFAULT, a, s)"
    if "ft \<in> {VM_FAULT_READ, VM_FAULT_WRITE} \<and> (p = None \<or> a = None)"
    using that by (cases p) (auto simp: vm_fault_def Let_def VM_FAULT_READ_def VM_FAULT_WRITE_def VM_FAULT_READONLY_def)
  show "vm_fault ops ft fa (Some pid) (Some as) s = Inr (VmReturn EFAULT, Some as, s)"
    if "ft \<in> {VM_FAULT_READ, VM_FAULT_WRITE} \<and> as_wf as \<and>
      (\<forall>nm sg. getseg as nm = Some sg \<longrightarrow> unat (fa AND PAGE_FRAME) \<notin> seg_range sg)"
    using vm_fault_outside [of ft as fa ops pid s] that by blast
qed

theorem vm_fault_errors_witness:
  "vm_fault mem_ops 7 0x400000 (Some 5) (Some (sample_as [0, 0])) sample_machine =
     Inr (VmReturn EINVAL, Some (sample_as [0, 0]), sample_machine) \<and>
   vm_fault mem_ops VM_FAULT_READ 0x400000 None (Some (sample_as [0, 0])) sample_machine =
     Inr (VmReturn EFAULT, Some (sample_as [0, 0]), sample_machine) \<and>
   vm_fault mem_ops VM_FAULT_READ 0 (Some 5) (Some (sample_as [0, 0])) sample_machine =
     Inr (VmReturn EFAULT, Some (sample_as [0, 0]), sample_machine)"
proof -
  have "\<forall>nm sg. getseg (sample_as [0, 0]) nm = Some sg \<longrightarrow> unat (0 AND PAGE_FRAME :: u32) \<notin> seg_range sg"
  proof (intro allI impI)
    fix nm sg assume "getseg (sample_as [0, 0]) nm = Some sg"
    then show "unat (0 AND PAGE_FRAME :: u32) \<notin> seg_range sg"
      by (cases nm) (auto simp: sample_as_def sample_seg_def seg_range_def USERSTACK_def MIPS_KSEG0_def
          STACKPAGES_def PAGE_SIZE_def)
  qed
  then show ?thesis
    using vm_fault_errors [where ops = mem_ops and fa = "0x400000" and p = "Some 5" and a = "Some (sample_as [0, 0])"
        and s = sample_machine and ft = 7]
      vm_fault_errors [where ops = mem_ops and fa = "0x400000" and p = None and a = "Some (sample_as [0, 0])"
        and s = sample_machine and ft = VM_FAULT_READ]
      vm_fault_errors [where ops = mem_ops and fa = 0 and as = "sample_as [0, 0]" and pid = 5
        and s = sample_machine and ft = VM_FAULT_READ] sample_segs [of "[0, 0]"]
    by (simp add: VM_FAULT_READ_def VM_FAULT_WRITE_def VM_FAULT_READONLY_def)
qed

text \<open>C5. The statistics add up. From balanced counters (TLB faults with and without a free slot
  make up all TLB faults; so do reloads, disk reads and zero fills; disk reads come from the
  executable or from the swap file) a served fault leaves balanced counters, and the report
  prints no warning.\<close>

theorem vm_fault_stats:
  assumes "vnode_ops_ok ops" "disk_ok ops" "vm_inv ops pid as s"
    and "ft = VM_FAULT_READ \<or> ft = VM_FAULT_WRITE"
    and "vm_seg_of (the (seg1 as)) (the (seg2 as)) (fa AND PAGE_FRAME) = Some (nm, i)"
    and "tlb_map (m_tlb s) (fa AND PAGE_FRAME) = None"
    and "frame_available s" "elf_ok ops as (the (getseg as nm)) (fa AND PAGE_FRAME) s"
    and "stats_balanced (m_stats s)"
  shows "\<exists>as' s'. vm_fault ops ft fa (Some pid) (Some as) s = Inr (VmReturn 0, Some as', s') \<and>
    stats_balanced (m_stats s') \<and> warnings (printvmstats (m_stats s')) = {}"
proof -
  obtain as' s' where r: "vm_fault ops ft fa (Some pid) (Some as) s = Inr (VmReturn 0, Some as', s')"
    "fault_served ops pid as (the (getseg as nm)) (fa AND PAGE_FRAME) s as' s'"
    using vm_fault_ok [OF assms(1-8)] by blast
  have "stats_balanced (m_stats s')" by (rule fault_servedD(3) [OF r(2) assms(9)])
  then show ?thesis using r(1) by (auto simp: warnings_printvmstats stats_balanced_def)
qed

theorem vm_fault_stats_witness:
  "\<exists>as' s'. vm_fault mem_ops VM_FAULT_WRITE 0x7ffffffc (Some 5) (Some (sample_as [0, 0])) sample_machine =
     Inr (VmReturn 0, Some as', s') \<and> warnings (printvmstats (m_stats s')) = {}"
  using vm_fault_stats [OF mem_ops_ok disk_ok_mem sample_vm_inv(1) disjI2 [OF refl] sample_seg_of(2) _
      sample_available(3) sample_elf_ok(3)] sample_tlb_ok(2) stats_balanced_setup unfolding sample_simps by fastforce

section \<open>What user programs see\<close>





end
